(* ===== verification/Prelude.thy ===== *)
theory Prelude
  imports Main "HOL-Library.Word"
begin

text \<open>
  Shared vocabulary of the development: the C integer types at their widths, the
  big-endian reading and writing of byte lists that the byte-string and protobuf codecs
  have in common, and the lemmas on words and lists that the component theories use.
\<close>

unbundle bit_operations_syntax

section \<open>C types\<close>

type_synonym u8 = "8 word"
type_synonym u16 = "16 word"
type_synonym u32 = "32 word"
type_synonym u64 = "64 word"
type_synonym size_t = "64 word"

text \<open>
  A pointer into a byte array is the list of the bytes from there to the end of the
  object; \<open>p[i]\<close> is \<open>p ! i\<close> and is only read below the length of the object.
  A C function that returns 0 or 1 and writes through an out-parameter returns
  \<open>None\<close> or \<open>Some\<close>; where it also updates an object it returns the pair of that
  option and the new object, on failure as well.
\<close>

type_synonym 'a result = "'a option"

named_theorems word_nat \<open>facts that move word arithmetic to the natural numbers\<close>
named_theorems codec \<open>round-trip facts of the byte codecs\<close>

section \<open>Big-endian byte strings\<close>

text \<open>The number a byte string denotes, most significant byte first.\<close>

primrec be_val :: "u8 list \<Rightarrow> nat" where
  "be_val [] = 0"
| "be_val (b # bs) = unat b * 256 ^ length bs + be_val bs"

text \<open>The lowest \<open>n\<close> bytes of a number, most significant byte first.\<close>

primrec be_bytes :: "nat \<Rightarrow> nat \<Rightarrow> u8 list" where
  "be_bytes 0 v = []"
| "be_bytes (Suc n) v = be_bytes n (v div 256) @ [word_of_nat v]"

text \<open>The loop \<open>result = result << 8 | data[i]\<close> over a byte string.\<close>

definition shift_in :: "u64 \<Rightarrow> u8 \<Rightarrow> u64" where
  "shift_in r b = push_bit 8 r OR ucast b"

definition load_be :: "u8 list \<Rightarrow> u64" where
  "load_be bs = foldl shift_in 0 bs"

text \<open>
  The loop \<open>for (i = n - 1; i < n; i--) { buf[off + i] = v; v >>= 8; }\<close>: it stores the
  lowest \<open>n\<close> bytes of \<open>v\<close> and leaves the rest of \<open>v\<close>.
\<close>

primrec put_be :: "u8 list \<Rightarrow> nat \<Rightarrow> nat \<Rightarrow> u64 \<Rightarrow> u8 list \<times> u64" where
  "put_be buf off 0 v = (buf, v)"
| "put_be buf off (Suc i) v = put_be (buf[off + i := ucast v]) off i (drop_bit 8 v)"

section \<open>Words as natural numbers\<close>

lemma unat_lt2p: "unat (x :: 'a::len word) < 2 ^ LENGTH('a)"
  by (rule unsigned_less)

lemma unat_u8_less [simp]: "unat (b :: u8) < 256"
  using unat_lt2p [of b] by simp

lemma unat_u8_le [simp]: "unat (b :: u8) \<le> 255"
  using unat_u8_less [of b] by linarith

lemma unat_u64_less [simp]: "unat (x :: u64) < 18446744073709551616"
  using unat_lt2p [of x] by simp

lemma unat_u64_max [simp]: "unat (- 1 :: u64) = 18446744073709551615"
  by (simp add: unsigned_minus_1_eq_mask mask_eq_exp_minus_1)

lemma unat_u32_less [simp]: "unat (x :: u32) < 4294967296"
  using unat_lt2p [of x] by simp

lemma unat_size_le [word_nat]: "(x \<le> y) = (unat x \<le> unat (y :: 'a::len word))"
  by (rule word_le_nat_alt)

lemma unat_size_less [word_nat]: "(x < y) = (unat x < unat (y :: 'a::len word))"
  by (rule word_less_nat_alt)

lemma unat_eq_of_nat:
  "n < 2 ^ LENGTH('a) \<Longrightarrow> unat (word_of_nat n :: 'a::len word) = n"
  by (simp add: unat_of_nat take_bit_eq_mod)

lemma unat_of_nat_u64 [word_nat]:
  "n < 18446744073709551616 \<Longrightarrow> unat (word_of_nat n :: u64) = n"
  by (simp add: unat_eq_of_nat)

lemma word_nat_eqI: "unat x = unat y \<Longrightarrow> x = (y :: 'a::len word)"
  by (simp add: word_unat_eq_iff)

lemma unat_add_no_wrap:
  "unat (x + y) = unat x + unat y" if "unat x + unat y < 2 ^ LENGTH('a)"
  for x y :: "'a::len word"
  using that by (simp add: unat_word_ariths(1) take_bit_eq_mod)

lemma add_wraps_iff: "x + y < x \<longleftrightarrow> 2 ^ LENGTH('a) \<le> unat x + unat y"
  for x y :: "'a::len word"
proof
  assume lt: "x + y < x"
  show "2 ^ LENGTH('a) \<le> unat x + unat y"
  proof (rule ccontr)
    assume "\<not> 2 ^ LENGTH('a) \<le> unat x + unat y"
    then have "unat (x + y) = unat x + unat y" by (intro unat_add_no_wrap) simp
    with lt show False by (simp add: word_less_nat_alt)
  qed
next
  assume ge: "2 ^ LENGTH('a) \<le> unat x + unat y"
  have "unat x + unat y - 2 ^ LENGTH('a) < unat x"
    using ge unat_lt2p [of y] by linarith
  moreover have "unat (x + y) = unat x + unat y - 2 ^ LENGTH('a)"
  proof -
    have "unat x + unat y - 2 ^ LENGTH('a) < 2 ^ LENGTH('a)"
      using unat_lt2p [of x] unat_lt2p [of y] by linarith
    then show ?thesis
      using ge by (simp add: unat_word_ariths(1) take_bit_eq_mod le_mod_geq)
  qed
  ultimately show "x + y < x" by (simp add: word_less_nat_alt)
qed

lemma unat_diff [word_nat]:
  "y \<le> x \<Longrightarrow> unat (x - y) = unat x - unat (y :: 'a::len word)"
  by (simp add: unat_sub)

lemma unat_dec: "x \<noteq> 0 \<Longrightarrow> unat (x - 1) < unat (x :: 'a::len word)"
  by (simp add: unat_minus_one unat_gt_0)

lemma unat_ucast_up:
  "unat (ucast (x :: 'a::len word) :: 'b::len word) = unat x" if "LENGTH('a) \<le> LENGTH('b)"
  using that by (simp add: unsigned_ucast_eq take_bit_nat_eq_self order.strict_trans2 [OF unat_lt2p])

lemma unat_ucast_mod:
  "unat (ucast (x :: 'a::len word) :: 'b::len word) = unat x mod 2 ^ LENGTH('b)"
  by (simp add: unsigned_ucast_eq take_bit_eq_mod)

lemma unat_drop_bit_div: "unat (drop_bit n x) = unat x div 2 ^ n"
  for x :: "'a::len word"
  using unat_drop_bit_eq [of n x] by (simp only: drop_bit_eq_div)

text \<open>A disjunction of numbers with no common bit is their sum.\<close>

lemma or_low_high:
  "push_bit n a OR b = a * 2 ^ n + b" if "b < 2 ^ n" for a b :: nat
proof -
  have "push_bit n a AND b = 0"
  proof (rule bit_eqI)
    fix k
    show "bit (push_bit n a AND b) k \<longleftrightarrow> bit 0 k"
      using that bit_take_bit_iff [of n b k]
      by (auto simp: bit_and_iff bit_push_bit_iff take_bit_nat_eq_self)
  qed
  then have "push_bit n a + b = push_bit n a OR b"
    by (rule disjunctive_add_eq_or)
  then show ?thesis by (simp add: push_bit_eq_mult)
qed

section \<open>Big-endian codecs\<close>

lemma length_be_bytes [simp]: "length (be_bytes n v) = n"
  by (induction n arbitrary: v) auto

lemma be_val_append: "be_val (xs @ ys) = be_val xs * 256 ^ length ys + be_val ys"
  by (induction xs) (auto simp: power_add algebra_simps)

lemma be_val_snoc [simp]: "be_val (xs @ [b]) = 256 * be_val xs + unat b"
  by (simp add: be_val_append)

lemma be_val_less: "be_val bs < 256 ^ length bs"
proof (induction bs)
  case (Cons b bs)
  have "unat b * 256 ^ length bs + be_val bs < (unat b + 1) * 256 ^ length bs"
    using Cons.IH by (simp add: algebra_simps)
  also have "\<dots> \<le> 256 * 256 ^ length bs"
    using unat_u8_less [of b] by (intro mult_le_mono1) linarith
  finally show ?case by simp
qed simp

lemma be_val_be_bytes [codec]: "be_val (be_bytes n v) = v mod 256 ^ n"
proof (induction n arbitrary: v)
  case (Suc n)
  have "v mod 256 ^ Suc n = 256 * (v div 256 mod 256 ^ n) + v mod 256"
    by (simp add: mod_mult2_eq)
  with Suc.IH [of "v div 256"] show ?case
    by (simp add: unat_of_nat)
qed simp

lemma be_bytes_be_val [codec]: "be_bytes (length bs) (be_val bs) = bs"
proof (induction bs rule: rev_induct)
  case (snoc b bs)
  have "(256 * be_val bs + unat b) div 256 = be_val bs"
    using unat_u8_less [of b] by simp
  moreover have "word_of_nat (256 * be_val bs + unat b) = b"
    by (rule word_nat_eqI, subst unat_of_nat) simp
  ultimately show ?case using snoc.IH by simp
qed simp

lemma be_bytes_mod: "be_bytes n (v mod 256 ^ n) = be_bytes n v"
  using be_bytes_be_val [of "be_bytes n v"] by (simp add: be_val_be_bytes)

lemma be_val_eq_iff: "length xs = length ys \<Longrightarrow> be_val xs = be_val ys \<longleftrightarrow> xs = ys"
  by (metis be_bytes_be_val)

lemma unat_shift_in:
  "unat (shift_in r b) = (256 * unat r + unat b) mod 18446744073709551616"
proof -
  have "unat (shift_in r b) = take_bit 64 (push_bit 8 (unat r)) OR unat b"
    by (simp add: shift_in_def unsigned_or_eq unsigned_push_bit_eq unat_ucast_up)
  also have "\<dots> = take_bit 64 (push_bit 8 (unat r) OR unat b)"
    by (simp add: take_bit_nat_eq_self order.strict_trans [OF unat_u8_less])
  finally show ?thesis
    by (simp add: or_low_high take_bit_eq_mod mult.commute)
qed

lemma load_be_snoc: "load_be (bs @ [b]) = shift_in (load_be bs) b"
  by (simp add: load_be_def)

lemma unat_load_be_mod: "unat (load_be bs) = be_val bs mod 18446744073709551616"
proof (induction bs rule: rev_induct)
  case (snoc b bs)
  then show ?case
    by (simp add: load_be_snoc unat_shift_in) (metis mod_add_left_eq mod_mult_right_eq)
qed (simp add: load_be_def)

lemma unat_load_be [codec]: "length bs \<le> 8 \<Longrightarrow> unat (load_be bs) = be_val bs"
proof -
  assume "length bs \<le> 8"
  then have "(256::nat) ^ length bs \<le> 256 ^ 8" by (intro power_increasing) simp_all
  with be_val_less [of bs] show ?thesis
    by (simp add: unat_load_be_mod)
qed

lemma length_put_be [simp]: "length (fst (put_be buf off n v)) = length buf"
  by (induction n arbitrary: buf v) auto

lemma snd_put_be: "snd (put_be buf off n v) = drop_bit (8 * n) v"
  by (induction n arbitrary: buf v) (auto simp: drop_bit_drop_bit add.commute)

lemma fst_put_be:
  "off + n \<le> length buf \<Longrightarrow>
     fst (put_be buf off n v) = take off buf @ be_bytes n (unat v) @ drop (off + n) buf"
proof (induction n arbitrary: buf v)
  case (Suc n)
  let ?buf = "buf[off + n := ucast v]"
  have "fst (put_be buf off (Suc n) v)
      = take off ?buf @ be_bytes n (unat (drop_bit 8 v)) @ drop (off + n) ?buf"
    using Suc.IH [of ?buf "drop_bit 8 v"] Suc.prems by simp
  also have "drop (off + n) ?buf = ucast v # drop (Suc (off + n)) buf"
    using Suc.prems by (simp add: drop_update_swap Cons_nth_drop_Suc [symmetric])
  also have "unat (drop_bit 8 v) = unat v div 256"
    by (simp add: unat_drop_bit_div)
  finally show ?case by simp
qed simp

section \<open>Facts about single bytes\<close>

lemma byte_allI: "list_all P (map word_of_nat [0..<256]) \<Longrightarrow> P (b :: u8)"
proof -
  assume "list_all P (map word_of_nat [0..<256])"
  then have "\<forall>k<256. P (word_of_nat k)" by (simp add: list_all_iff)
  then have "P (word_of_nat (unat b))" using unat_u8_less [of b] by blast
  then show ?thesis by simp
qed

lemma byte_and_7f: "unat (b AND 0x7f :: u8) = unat b mod 128"
  by (rule byte_allI [of "\<lambda>b. unat (b AND 0x7f) = unat b mod 128"]) code_simp

lemma byte_and_80: "b AND 0x80 = (0 :: u8) \<longleftrightarrow> unat b < 128"
  by (rule byte_allI [of "\<lambda>b. (b AND 0x80 = 0) = (unat b < 128)"]) code_simp

lemma byte_mod_128: "\<not> unat b < 128 \<Longrightarrow> unat (b :: u8) mod 128 = unat b - 128"
proof -
  assume "\<not> unat b < 128"
  moreover from this have "unat b - 128 < 128" using unat_u8_less [of b] by linarith
  ultimately show ?thesis by (simp add: le_mod_geq)
qed

lemma byte_and_1f: "unat (b AND 0x1f :: u8) = unat b mod 32"
  by (rule byte_allI [of "\<lambda>b. unat (b AND 0x1f) = unat b mod 32"]) code_simp

lemma byte_and_e0: "unat (b AND 0xe0 :: u8) = unat b div 32 * 32"
  by (rule byte_allI [of "\<lambda>b. unat (b AND 0xe0) = unat b div 32 * 32"]) code_simp

lemma byte_tag_class:
  "unat (push_bit 24 (ucast (b :: u8) AND 0xe0) :: u32) = unat b div 32 * 536870912"
proof -
  have "(ucast b AND 0xe0 :: u32) = ucast (b AND 0xe0)"
    by (simp add: unsigned_and_eq)
  moreover have "unat b div 32 * 32 * 16777216 < 4294967296"
    using unat_u8_less [of b] by linarith
  ultimately show ?thesis
    by (simp only: unsigned_push_bit_eq unat_ucast_up byte_and_e0)
      (simp add: push_bit_eq_mult take_bit_eq_mod byte_and_e0 unat_ucast_up)
qed

lemma unat_and_mask: "unat (x AND mask n) = unat x mod 2 ^ n" for x :: "'a::len word"
proof -
  have "unat (take_bit n x) = take_bit n (unat x)" by (rule unsigned_take_bit_eq)
  then show ?thesis by (simp only: take_bit_eq_mask [symmetric]) (simp add: take_bit_eq_mod)
qed

lemma byte_or_80: "unat (b :: u8) < 128 \<Longrightarrow> b OR 0x80 = word_of_nat (128 + unat b)"
proof -
  assume "unat b < 128"
  moreover have "unat b < 128 \<longrightarrow> b OR 0x80 = word_of_nat (128 + unat b)"
    by (rule byte_allI [of "\<lambda>b. unat b < 128 \<longrightarrow> b OR 0x80 = word_of_nat (128 + unat b)"]) code_simp
  ultimately show ?thesis by blast
qed

end
