(* ===== verification/Mem.thy ===== *)
theory Mem
  imports Prelude
begin

text \<open>
  BoringSSL's memory and C-string layer (crypto/mem.c) as the other components use it.
  The C library's allocator is a parameter: \<open>malloc n\<close> is \<open>None\<close> when it fails and
  otherwise the block's bytes, whose contents are not determined. A pointer returned by
  \<open>OPENSSL_malloc\<close> is the payload behind the eight-byte size prefix; the size stored in
  the prefix is the length of that list. On this platform the weak allocation hooks are
  null, so only the \<open>malloc\<close> branch exists.
\<close>

section \<open>Allocation\<close>

type_synonym libc_malloc = "size_t \<Rightarrow> u8 list option"

text \<open>What the C standard promises of \<open>malloc\<close>: a block of the requested size.\<close>

definition malloc_spec :: "libc_malloc \<Rightarrow> bool" where
  "malloc_spec malloc \<longleftrightarrow> (\<forall>n b. malloc n = Some b \<longrightarrow> length b = unat n)"

definition OPENSSL_MALLOC_PREFIX :: size_t where
  "OPENSSL_MALLOC_PREFIX = 8"

definition OPENSSL_malloc :: "libc_malloc \<Rightarrow> size_t \<Rightarrow> u8 list option" where
  "OPENSSL_malloc malloc sz =
     (if sz + OPENSSL_MALLOC_PREFIX < sz then None
      else case malloc (sz + OPENSSL_MALLOC_PREFIX) of
             None \<Rightarrow> None
           | Some ptr \<Rightarrow> Some (drop (unat OPENSSL_MALLOC_PREFIX) ptr))"

definition OPENSSL_zalloc :: "libc_malloc \<Rightarrow> size_t \<Rightarrow> u8 list option" where
  "OPENSSL_zalloc malloc sz =
     (case OPENSSL_malloc malloc sz of
        None \<Rightarrow> None
      | Some ret \<Rightarrow> Some (replicate (unat sz) 0 @ drop (unat sz) ret))"

definition OPENSSL_calloc :: "libc_malloc \<Rightarrow> size_t \<Rightarrow> size_t \<Rightarrow> u8 list option" where
  "OPENSSL_calloc malloc num sz =
     (if sz \<noteq> 0 \<and> num > (- 1) div sz then None
      else OPENSSL_zalloc malloc (num * sz))"

text \<open>\<open>memcpy (dst, src, n)\<close>\<close>

definition memcpy :: "u8 list \<Rightarrow> u8 list \<Rightarrow> nat \<Rightarrow> u8 list" where
  "memcpy dst src n = take n src @ drop n dst"

text \<open>The first argument is \<open>None\<close> for a null pointer.\<close>

definition OPENSSL_realloc :: "libc_malloc \<Rightarrow> u8 list option \<Rightarrow> size_t \<Rightarrow> u8 list option" where
  "OPENSSL_realloc malloc orig_ptr new_size =
     (case orig_ptr of
        None \<Rightarrow> OPENSSL_malloc malloc new_size
      | Some orig \<Rightarrow>
          (let old_size = word_of_nat (length orig) in
           case OPENSSL_malloc malloc new_size of
             None \<Rightarrow> None
           | Some ret \<Rightarrow>
               (let to_copy = (if old_size < new_size then old_size else new_size)
                in Some (memcpy ret orig (unat to_copy)))))"

definition OPENSSL_memdup :: "libc_malloc \<Rightarrow> u8 list \<Rightarrow> size_t \<Rightarrow> u8 list option" where
  "OPENSSL_memdup malloc data sz =
     (if sz = 0 then None
      else case OPENSSL_malloc malloc sz of
             None \<Rightarrow> None
           | Some ret \<Rightarrow> Some (memcpy ret data (unat sz)))"

section \<open>Comparison and hashing\<close>

definition CRYPTO_memcmp :: "u8 list \<Rightarrow> u8 list \<Rightarrow> size_t \<Rightarrow> u8" where
  "CRYPTO_memcmp a b len = fold (\<lambda>i x. x OR (a ! i XOR b ! i)) [0..<unat len] 0"

definition OPENSSL_hash32 :: "u8 list \<Rightarrow> size_t \<Rightarrow> u32" where
  "OPENSSL_hash32 inp len =
     fold (\<lambda>i h. (h XOR ucast (inp ! i)) * 16777619) [0..<unat len] 2166136261"

section \<open>C strings\<close>

text \<open>The characters of a string up to its terminator, and \<open>strlen\<close>.\<close>

definition cstr :: "u8 list \<Rightarrow> u8 list" where
  "cstr s = takeWhile (\<lambda>b. b \<noteq> 0) s"

definition strlen :: "u8 list \<Rightarrow> size_t" where
  "strlen s = word_of_nat (length (cstr s))"

definition OPENSSL_strhash :: "u8 list \<Rightarrow> u32" where
  "OPENSSL_strhash s = OPENSSL_hash32 s (strlen s)"

text \<open>The loop \<open>for (i = 0; i < len; i++) if (s[i] == 0) return i;\<close>, from index \<open>i\<close> on.\<close>

function strnlen_loop :: "u8 list \<Rightarrow> nat \<Rightarrow> nat \<Rightarrow> nat" where
  "strnlen_loop s i n =
     (if i < n then (if s ! i = 0 then i else strnlen_loop s (Suc i) n) else n)"
  by pat_completeness auto
termination
  by (relation "measure (\<lambda>(s, i, n). n - i)") auto

declare strnlen_loop.simps [simp del]

definition OPENSSL_strnlen :: "u8 list \<Rightarrow> size_t \<Rightarrow> size_t" where
  "OPENSSL_strnlen s len = word_of_nat (strnlen_loop s 0 (unat len))"

definition OPENSSL_strdup :: "libc_malloc \<Rightarrow> u8 list option \<Rightarrow> u8 list option" where
  "OPENSSL_strdup malloc s =
     (case s of None \<Rightarrow> None | Some s \<Rightarrow> OPENSSL_memdup malloc s (strlen s + 1))"

definition OPENSSL_strndup :: "libc_malloc \<Rightarrow> u8 list \<Rightarrow> size_t \<Rightarrow> u8 list option" where
  "OPENSSL_strndup malloc str n =
     (let sz = OPENSSL_strnlen str n; alloc_size = sz + 1 in
      if alloc_size < sz then None
      else case OPENSSL_malloc malloc alloc_size of
             None \<Rightarrow> None
           | Some ret \<Rightarrow> Some ((memcpy ret str (unat sz))[unat sz := 0]))"

text \<open>
  \<open>OPENSSL_strlcpy\<close> returns the new contents of the destination and the length of the
  source; the second argument is a terminated string, so the empty list is not reached.
\<close>

fun OPENSSL_strlcpy :: "u8 list \<Rightarrow> u8 list \<Rightarrow> size_t \<Rightarrow> u8 list \<times> size_t" where
  "OPENSSL_strlcpy dst [] dst_size = (if dst_size \<noteq> 0 then dst[0 := 0] else dst, 0)"
| "OPENSSL_strlcpy dst (c # src) dst_size =
     (if dst_size > 1 \<and> c \<noteq> 0
      then (let (dst', l) = OPENSSL_strlcpy (tl dst) src (dst_size - 1) in (c # dst', l + 1))
      else (if dst_size \<noteq> 0 then dst[0 := 0] else dst, strlen (c # src)))"

fun OPENSSL_strlcat :: "u8 list \<Rightarrow> u8 list \<Rightarrow> size_t \<Rightarrow> u8 list \<times> size_t" where
  "OPENSSL_strlcat [] src dst_size = OPENSSL_strlcpy [] src dst_size"
| "OPENSSL_strlcat (d # dst) src dst_size =
     (if dst_size > 0 \<and> d \<noteq> 0
      then (let (dst', l) = OPENSSL_strlcat dst src (dst_size - 1) in (d # dst', l + 1))
      else OPENSSL_strlcpy (d # dst) src dst_size)"

section \<open>Character classes\<close>

text \<open>Characters are C \<open>int\<close> values; a \<open>char\<close> is signed on this platform.\<close>

definition OPENSSL_isalpha :: "int \<Rightarrow> bool" where
  "OPENSSL_isalpha c \<longleftrightarrow> (c \<ge> 97 \<and> c \<le> 122) \<or> (c \<ge> 65 \<and> c \<le> 90)"

definition OPENSSL_isdigit :: "int \<Rightarrow> bool" where
  "OPENSSL_isdigit c \<longleftrightarrow> c \<ge> 48 \<and> c \<le> 57"

definition OPENSSL_isxdigit :: "int \<Rightarrow> bool" where
  "OPENSSL_isxdigit c \<longleftrightarrow>
     OPENSSL_isdigit c \<or> (c \<ge> 97 \<and> c \<le> 102) \<or> (c \<ge> 65 \<and> c \<le> 70)"

definition OPENSSL_fromxdigit :: "int \<Rightarrow> u8 option" where
  "OPENSSL_fromxdigit c =
     (if OPENSSL_isdigit c then Some (word_of_int (c - 48))
      else if 97 \<le> c \<and> c \<le> 102 then Some (word_of_int (c - 97 + 10))
      else if 65 \<le> c \<and> c \<le> 70 then Some (word_of_int (c - 65 + 10))
      else None)"

definition OPENSSL_isalnum :: "int \<Rightarrow> bool" where
  "OPENSSL_isalnum c \<longleftrightarrow> OPENSSL_isalpha c \<or> OPENSSL_isdigit c"

definition OPENSSL_tolower :: "int \<Rightarrow> int" where
  "OPENSSL_tolower c = (if c \<ge> 65 \<and> c \<le> 90 then c + (97 - 65) else c)"

definition OPENSSL_isspace :: "int \<Rightarrow> bool" where
  "OPENSSL_isspace c \<longleftrightarrow> c = 9 \<or> c = 10 \<or> c = 11 \<or> c = 12 \<or> c = 13 \<or> c = 32"

text \<open>Both strings are terminated; reading past a terminator does not happen.\<close>

fun OPENSSL_strcasecmp :: "u8 list \<Rightarrow> u8 list \<Rightarrow> int" where
  "OPENSSL_strcasecmp (a # as) (b # bs) =
     (let aa = OPENSSL_tolower (sint a); bb = OPENSSL_tolower (sint b) in
      if aa < bb then - 1 else if aa > bb then 1 else if aa = 0 then 0
      else OPENSSL_strcasecmp as bs)"
| "OPENSSL_strcasecmp _ _ = 0"

fun strncasecmp_loop :: "u8 list \<Rightarrow> u8 list \<Rightarrow> nat \<Rightarrow> int" where
  "strncasecmp_loop (a # as) (b # bs) (Suc n) =
     (let aa = OPENSSL_tolower (sint a); bb = OPENSSL_tolower (sint b) in
      if aa < bb then - 1 else if aa > bb then 1 else if aa = 0 then 0
      else strncasecmp_loop as bs n)"
| "strncasecmp_loop _ _ _ = 0"

definition OPENSSL_strncasecmp :: "u8 list \<Rightarrow> u8 list \<Rightarrow> size_t \<Rightarrow> int" where
  "OPENSSL_strncasecmp a b n = strncasecmp_loop a b (unat n)"

section \<open>Properties\<close>

lemma OPENSSL_malloc_length:
  "length p = unat n" if "malloc_spec malloc" "OPENSSL_malloc malloc n = Some p"
proof -
  from that(2) have "\<not> n + OPENSSL_MALLOC_PREFIX < n"
    by (auto simp: OPENSSL_malloc_def split: if_splits)
  then have "unat n + 8 < 2 ^ LENGTH(64)"
    by (simp add: add_wraps_iff OPENSSL_MALLOC_PREFIX_def not_le)
  then have "unat (n + OPENSSL_MALLOC_PREFIX) = unat n + 8"
    by (simp add: unat_add_no_wrap OPENSSL_MALLOC_PREFIX_def)
  with that show ?thesis
    by (auto simp: OPENSSL_malloc_def malloc_spec_def OPENSSL_MALLOC_PREFIX_def
        split: if_splits option.splits)
qed

lemma length_memcpy [simp]: "n \<le> length src \<Longrightarrow> n \<le> length dst \<Longrightarrow> length (memcpy dst src n) = length dst"
  by (simp add: memcpy_def)

lemma take_memcpy [simp]: "n \<le> length src \<Longrightarrow> k \<le> n \<Longrightarrow> take k (memcpy dst src n) = take k src"
  by (simp add: memcpy_def min_def)

lemma OPENSSL_realloc_None_length:
  "malloc_spec malloc \<Longrightarrow> OPENSSL_realloc malloc None n = Some p \<Longrightarrow> length p = unat n"
  by (simp add: OPENSSL_realloc_def OPENSSL_malloc_length)

lemma OPENSSL_realloc_Some:
  assumes "malloc_spec malloc" "OPENSSL_realloc malloc (Some orig) n = Some p"
    and "length orig < 2 ^ 64"
  shows "length p = unat n"
    and "take (min (length orig) (unat n)) p = take (min (length orig) (unat n)) orig"
proof -
  from assms(2) obtain ret where ret: "OPENSSL_malloc malloc n = Some ret"
    and p: "p = memcpy ret orig (min (length orig) (unat n))"
    using assms(3)
    by (auto simp: OPENSSL_realloc_def Let_def word_less_nat_alt unat_of_nat_u64 min_def
        split: option.splits if_splits)
  from OPENSSL_malloc_length [OF assms(1) ret] have len: "length ret = unat n" .
  then show "length p = unat n" by (simp add: p)
  show "take (min (length orig) (unat n)) p = take (min (length orig) (unat n)) orig"
    by (simp add: p)
qed

lemma OPENSSL_zalloc_eq:
  "malloc_spec malloc \<Longrightarrow> OPENSSL_zalloc malloc n = Some p \<Longrightarrow> p = replicate (unat n) 0"
  by (auto simp: OPENSSL_zalloc_def dest: OPENSSL_malloc_length split: option.splits)

text \<open>The overflow test of \<open>OPENSSL_calloc\<close> is exact: the product does not wrap.\<close>

lemma calloc_check_no_wrap:
  "unat (num * sz) = unat num * unat sz" if "\<not> (sz \<noteq> 0 \<and> num > (- 1) div sz)"
  for num sz :: size_t
proof (cases "sz = 0")
  case False
  with that have "unat num \<le> unat (- 1 :: size_t) div unat sz"
    by (simp add: not_less word_le_nat_alt unat_div)
  then have "unat num * unat sz \<le> unat (- 1 :: size_t)"
    using False by (simp add: less_eq_div_iff_mult_less_eq unat_gt_0)
  then have "unat num * unat sz < 2 ^ LENGTH(64)"
    using unat_lt2p [of "- 1 :: size_t"] by linarith
  then show ?thesis by (simp add: unat_word_ariths(2))
qed simp

lemma OPENSSL_calloc_eq:
  "malloc_spec malloc \<Longrightarrow> OPENSSL_calloc malloc num sz = Some p \<Longrightarrow>
     p = replicate (unat num * unat sz) 0"
  using calloc_check_no_wrap [of sz num]
  by (auto simp: OPENSSL_calloc_def dest: OPENSSL_zalloc_eq split: if_splits)

lemma memcmp_loop_zero_iff:
  "fold (\<lambda>i x. x OR (a ! i XOR b ! i)) is x = (0::u8) \<longleftrightarrow>
     x = 0 \<and> (\<forall>i\<in>set is. a ! i = b ! i)"
proof (induction "is" arbitrary: x)
  case (Cons i "is")
  have "x OR (a ! i XOR b ! i) = 0 \<longleftrightarrow> x = 0 \<and> a ! i = b ! i"
    by (auto simp: bit_eq_iff bit_simps)
  with Cons.IH show ?case by auto
qed simp

lemma CRYPTO_memcmp_eq_0_iff:
  assumes "unat n \<le> length a" "unat n \<le> length b"
  shows "CRYPTO_memcmp a b n = 0 \<longleftrightarrow> take (unat n) a = take (unat n) b"
  using assms by (auto simp: CRYPTO_memcmp_def memcmp_loop_zero_iff list_eq_iff_nth_eq)

lemma strnlen_loop_eq:
  assumes "i \<le> n" "n \<le> length s"
  shows "strnlen_loop s i n = i + length (cstr (drop i (take n s)))"
  using assms
proof (induction s i n rule: strnlen_loop.induct)
  case (1 s i n)
  show ?case
  proof (cases "i < n")
    case True
    then have "drop i (take n s) = s ! i # drop (Suc i) (take n s)"
      using "1.prems" Cons_nth_drop_Suc [of i "take n s"] by simp
    with True "1" show ?thesis
      by (auto simp: strnlen_loop.simps [of s i n] cstr_def)
  next
    case False
    with "1.prems" have "i = n" by simp
    with "1.prems" show ?thesis by (simp add: strnlen_loop.simps [of s n n] cstr_def)
  qed
qed

lemma OPENSSL_strnlen_eq:
  "unat n \<le> length s \<Longrightarrow> unat (OPENSSL_strnlen s n) = length (cstr (take (unat n) s))"
proof -
  assume n: "unat n \<le> length s"
  have "length (cstr (take (unat n) s)) \<le> unat n"
    using length_takeWhile_le [of _ "take (unat n) s"] n by (simp add: cstr_def)
  then have "length (cstr (take (unat n) s)) < 2 ^ 64"
    using unat_lt2p [of n] by (simp add: order.strict_trans1)
  with n show ?thesis
    by (simp add: OPENSSL_strnlen_def strnlen_loop_eq unat_of_nat_u64)
qed

lemma take_length_cstr: "take (length (cstr s)) s = cstr s"
  unfolding cstr_def by (rule takeWhile_eq_take [symmetric])

lemma cstr_append_zero: "cstr (xs @ 0 # ys) = xs" if "0 \<notin> set xs"
  using that by (induction xs) (auto simp: cstr_def)

lemma zero_notinpcstr: "0 \<notin> set (cstr s)"
  by (auto simp: cstr_def dest: set_takeWhileD)

text \<open>The copy made by \<open>OPENSSL_strndup\<close> is the terminated prefix without a zero byte.\<close>

lemma OPENSSL_strndup_cstr:
  assumes "malloc_spec malloc" "unat n \<le> length s" "OPENSSL_strndup malloc s n = Some p"
  shows "p = cstr (take (unat n) s) @ [0]"
proof -
  let ?sz = "OPENSSL_strnlen s n" and ?c = "cstr (take (unat n) s)"
  from assms(3) obtain ret where nowrap: "\<not> ?sz + 1 < ?sz"
    and ret: "OPENSSL_malloc malloc (?sz + 1) = Some ret"
    and p: "p = (memcpy ret s (unat ?sz))[unat ?sz := 0]"
    by (auto simp: OPENSSL_strndup_def Let_def split: if_splits option.splits)
  have sz: "unat ?sz = length ?c" using assms(2) by (rule OPENSSL_strnlen_eq)
  have "unat (?sz + 1) = unat ?sz + 1"
    using nowrap by (intro unat_add_no_wrap [THEN trans]) (simp_all add: add_wraps_iff)
  with OPENSSL_malloc_length [OF assms(1) ret] sz have len: "length ret = length ?c + 1"
    by simp
  have le: "length ?c \<le> unat n"
    using length_takeWhile_le [of _ "take (unat n) s"] assms(2) by (simp add: cstr_def)
  have "take (length ?c) s = ?c"
    using take_length_cstr [of "take (unat n) s"] le by (simp add: min_def)
  moreover have "drop (length ?c) ret = [ret ! length ?c]"
    using len Cons_nth_drop_Suc [of "length ?c" ret] by simp
  ultimately show ?thesis
    by (simp add: p sz memcpy_def list_update_append)
qed

lemma strlen_Cons: "c \<noteq> 0 \<Longrightarrow> strlen (c # s) = strlen s + 1"
  by (simp add: strlen_def cstr_def)

lemma OPENSSL_strlcpy_spec:
  assumes "0 \<in> set src" "unat n \<le> length dst" "n \<noteq> 0"
  shows "\<exists>dst'. OPENSSL_strlcpy dst src n = (dst', strlen src) \<and> length dst' = length dst \<and>
     0 \<in> set (take (unat n) dst') \<and> cstr dst' = take (unat n - 1) (cstr src)"
  using assms
proof (induction src arbitrary: dst n)
  case (Cons c src)
  from Cons.prems obtain d ds where dst: "dst = d # ds"
    by (cases dst) (auto simp: word_neq_0_conv word_less_nat_alt unat_eq_zero)
  show ?case
  proof (cases "n > 1 \<and> c \<noteq> 0")
    case True
    then have n1: "unat (n - 1) = unat n - 1" "n - 1 \<noteq> 0" "1 < unat n"
      by (auto simp: unat_sub word_less_nat_alt word_le_nat_alt)
    from True Cons.prems have "0 \<in> set src" by auto
    moreover from Cons.prems n1 dst have "unat (n - 1) \<le> length ds" by simp
    ultimately obtain ds' where ih: "OPENSSL_strlcpy ds src (n - 1) = (ds', strlen src)"
        "length ds' = length ds" "0 \<in> set (take (unat n - 1) ds')"
        "cstr ds' = take (unat n - 1 - 1) (cstr src)"
      using Cons.IH [of "n - 1" ds] n1 by auto
    with True dst n1 show ?thesis
      by (cases "unat n") (auto simp: strlen_Cons cstr_def take_Cons' Let_def)
  next
    case False
    then have "c = 0 \<or> unat n = 1"
      using Cons.prems(3) by (auto simp: word_less_nat_alt unat_eq_zero not_less le_Suc_eq)
    moreover have "0 < unat n" using Cons.prems(3) by (simp add: unat_gt_0)
    ultimately show ?thesis
      using False Cons.prems dst by (cases "unat n") (auto simp: cstr_def)
  qed
qed simp

lemma tolower_eq_0_iff: "OPENSSL_tolower (sint c) = 0 \<longleftrightarrow> c = 0" for c :: u8
proof -
  have "sint c = 0 \<longleftrightarrow> c = 0" by (rule signed_eq_0_iff)
  then show ?thesis by (auto simp: OPENSSL_tolower_def)
qed

lemma OPENSSL_strcasecmp_eq_0_iff:
  assumes "0 \<in> set a" "0 \<in> set b"
  shows "OPENSSL_strcasecmp a b = 0 \<longleftrightarrow>
     map (\<lambda>c. OPENSSL_tolower (sint c)) (cstr a) = map (\<lambda>c. OPENSSL_tolower (sint c)) (cstr b)"
  using assms
proof (induction a b rule: OPENSSL_strcasecmp.induct)
  case (1 a as b bs)
  show ?case
  proof (cases "OPENSSL_tolower (sint a) = OPENSSL_tolower (sint b) \<and> a \<noteq> 0 \<and> b \<noteq> 0")
    case True
    then have "OPENSSL_strcasecmp (a # as) (b # bs) = OPENSSL_strcasecmp as bs"
      by (simp add: Let_def tolower_eq_0_iff)
    moreover from True "1.prems" have "0 \<in> set as" "0 \<in> set bs" by auto
    ultimately show ?thesis
      using True "1.IH" [OF refl refl] by (simp add: cstr_def tolower_eq_0_iff)
  next
    case False
    then show ?thesis
      using tolower_eq_0_iff [of a] tolower_eq_0_iff [of b] by (auto simp: Let_def cstr_def)
  qed
qed auto

end
