(* ===== verification/Cbs.thy ===== *)
theory Cbs
  imports Mem "HOL-Library.Sublist"
begin

text \<open>
  The byte-string reader \<open>CBS\<close> (crypto/bytestring/cbs.c, without ASN.1): a view of
  \<open>CBS_len\<close> bytes at \<open>CBS_data\<close> of which the readers take bytes from the front. Every
  reader returns the new view on failure too. The locale \<open>cbs_reader\<close> is the contract
  the readers share: what they return depends only on the bytes of the view, they consume a
  prefix of it, and the view stays inside its object.
\<close>

section \<open>The reader\<close>

text \<open>\<open>CBS_data\<close> holds the bytes from the pointer to the end of the object.\<close>

record CBS =
  CBS_data :: "u8 list"
  CBS_len :: size_t

type_synonym 'a cbs_get = "CBS \<Rightarrow> 'a option \<times> CBS"

definition CBS_init :: "u8 list \<Rightarrow> size_t \<Rightarrow> CBS" where
  "CBS_init data len = \<lparr>CBS_data = data, CBS_len = len\<rparr>"

definition cbs_get :: "CBS \<Rightarrow> size_t \<Rightarrow> u8 list option \<times> CBS" where
  "cbs_get cbs n =
     (if CBS_len cbs < n then (None, cbs)
      else (Some (CBS_data cbs),
            \<lparr>CBS_data = drop (unat n) (CBS_data cbs), CBS_len = CBS_len cbs - n\<rparr>))"

definition CBS_skip :: "CBS \<Rightarrow> size_t \<Rightarrow> bool \<times> CBS" where
  "CBS_skip cbs len =
     (case cbs_get cbs len of (None, cbs) \<Rightarrow> (False, cbs) | (Some dummy, cbs) \<Rightarrow> (True, cbs))"

text \<open>The result, \<open>*out_ptr\<close> (\<open>None\<close> for null) and \<open>*out_len\<close>.\<close>

definition CBS_stow :: "libc_malloc \<Rightarrow> CBS \<Rightarrow> bool \<times> u8 list option \<times> size_t" where
  "CBS_stow malloc cbs =
     (if CBS_len cbs = 0 then (True, None, 0)
      else case OPENSSL_memdup malloc (CBS_data cbs) (CBS_len cbs) of
             None \<Rightarrow> (False, None, 0)
           | Some p \<Rightarrow> (True, Some p, CBS_len cbs))"

definition CBS_strdup :: "libc_malloc \<Rightarrow> CBS \<Rightarrow> u8 list option" where
  "CBS_strdup malloc cbs = OPENSSL_strndup malloc (CBS_data cbs) (CBS_len cbs)"

text \<open>The index \<open>memchr\<close> finds.\<close>

definition OPENSSL_memchr :: "u8 list \<Rightarrow> u8 \<Rightarrow> size_t \<Rightarrow> nat option" where
  "OPENSSL_memchr s c n =
     (if n = 0 then None
      else let i = length (takeWhile (\<lambda>b. b \<noteq> c) (take (unat n) s))
           in if i < unat n then Some i else None)"

definition CBS_contains_zero_byte :: "CBS \<Rightarrow> bool" where
  "CBS_contains_zero_byte cbs \<longleftrightarrow> OPENSSL_memchr (CBS_data cbs) 0 (CBS_len cbs) \<noteq> None"

definition CBS_mem_equal :: "CBS \<Rightarrow> u8 list \<Rightarrow> size_t \<Rightarrow> bool" where
  "CBS_mem_equal cbs data len =
     (if len \<noteq> CBS_len cbs then False else CRYPTO_memcmp (CBS_data cbs) data len = 0)"

definition cbs_get_u :: "CBS \<Rightarrow> size_t \<Rightarrow> u64 option \<times> CBS" where
  "cbs_get_u cbs len =
     (case cbs_get cbs len of
        (None, cbs) \<Rightarrow> (None, cbs)
      | (Some data, cbs) \<Rightarrow> (Some (load_be (take (unat len) data)), cbs))"

definition CBS_get_u8 :: "u8 cbs_get" where
  "CBS_get_u8 cbs =
     (case cbs_get cbs 1 of (None, cbs) \<Rightarrow> (None, cbs) | (Some v, cbs) \<Rightarrow> (Some (v ! 0), cbs))"

definition CBS_get_u16 :: "u16 cbs_get" where
  "CBS_get_u16 cbs =
     (case cbs_get_u cbs 2 of (None, cbs) \<Rightarrow> (None, cbs) | (Some v, cbs) \<Rightarrow> (Some (ucast v), cbs))"

text \<open>The compiler's \<open>__builtin_bswap\<close> functions reverse the bytes of their argument.\<close>

definition CRYPTO_bswap2 :: "u16 \<Rightarrow> u16" where
  "CRYPTO_bswap2 x = word_of_nat (be_val (rev (be_bytes 2 (unat x))))"

definition CRYPTO_bswap4 :: "u32 \<Rightarrow> u32" where
  "CRYPTO_bswap4 x = word_of_nat (be_val (rev (be_bytes 4 (unat x))))"

definition CRYPTO_bswap8 :: "u64 \<Rightarrow> u64" where
  "CRYPTO_bswap8 x = word_of_nat (be_val (rev (be_bytes 8 (unat x))))"

definition CBS_get_u16le :: "u16 cbs_get" where
  "CBS_get_u16le cbs =
     (case CBS_get_u16 cbs of
        (None, cbs) \<Rightarrow> (None, cbs) | (Some v, cbs) \<Rightarrow> (Some (CRYPTO_bswap2 v), cbs))"

definition CBS_get_u24 :: "u32 cbs_get" where
  "CBS_get_u24 cbs =
     (case cbs_get_u cbs 3 of (None, cbs) \<Rightarrow> (None, cbs) | (Some v, cbs) \<Rightarrow> (Some (ucast v), cbs))"

definition CBS_get_u32 :: "u32 cbs_get" where
  "CBS_get_u32 cbs =
     (case cbs_get_u cbs 4 of (None, cbs) \<Rightarrow> (None, cbs) | (Some v, cbs) \<Rightarrow> (Some (ucast v), cbs))"

definition CBS_get_u32le :: "u32 cbs_get" where
  "CBS_get_u32le cbs =
     (case CBS_get_u32 cbs of
        (None, cbs) \<Rightarrow> (None, cbs) | (Some v, cbs) \<Rightarrow> (Some (CRYPTO_bswap4 v), cbs))"

definition CBS_get_u64 :: "u64 cbs_get" where
  "CBS_get_u64 cbs = cbs_get_u cbs 8"

definition CBS_get_u64le :: "u64 cbs_get" where
  "CBS_get_u64le cbs =
     (case cbs_get_u cbs 8 of
        (None, cbs) \<Rightarrow> (None, cbs) | (Some v, cbs) \<Rightarrow> (Some (CRYPTO_bswap8 v), cbs))"

definition CBS_get_last_u8 :: "u8 cbs_get" where
  "CBS_get_last_u8 cbs =
     (if CBS_len cbs = 0 then (None, cbs)
      else (Some (CBS_data cbs ! unat (CBS_len cbs - 1)), cbs\<lparr>CBS_len := CBS_len cbs - 1\<rparr>))"

definition CBS_get_bytes :: "CBS \<Rightarrow> size_t \<Rightarrow> CBS option \<times> CBS" where
  "CBS_get_bytes cbs len =
     (case cbs_get cbs len of
        (None, cbs) \<Rightarrow> (None, cbs) | (Some v, cbs) \<Rightarrow> (Some (CBS_init v len), cbs))"

text \<open>The bytes copied to \<open>out\<close>.\<close>

definition CBS_copy_bytes :: "CBS \<Rightarrow> size_t \<Rightarrow> u8 list option \<times> CBS" where
  "CBS_copy_bytes cbs len =
     (case cbs_get cbs len of
        (None, cbs) \<Rightarrow> (None, cbs) | (Some v, cbs) \<Rightarrow> (Some (take (unat len) v), cbs))"

definition cbs_get_length_prefixed :: "CBS \<Rightarrow> size_t \<Rightarrow> CBS option \<times> CBS" where
  "cbs_get_length_prefixed cbs len_len =
     (case cbs_get_u cbs len_len of
        (None, cbs) \<Rightarrow> (None, cbs) | (Some len, cbs) \<Rightarrow> CBS_get_bytes cbs len)"

definition CBS_get_u8_length_prefixed :: "CBS cbs_get" where
  "CBS_get_u8_length_prefixed cbs = cbs_get_length_prefixed cbs 1"

definition CBS_get_u16_length_prefixed :: "CBS cbs_get" where
  "CBS_get_u16_length_prefixed cbs = cbs_get_length_prefixed cbs 2"

definition CBS_get_u24_length_prefixed :: "CBS cbs_get" where
  "CBS_get_u24_length_prefixed cbs = cbs_get_length_prefixed cbs 3"

definition CBS_get_until_first :: "CBS \<Rightarrow> u8 \<Rightarrow> CBS option \<times> CBS" where
  "CBS_get_until_first cbs c =
     (case OPENSSL_memchr (CBS_data cbs) c (CBS_len cbs) of
        None \<Rightarrow> (None, cbs)
      | Some split \<Rightarrow> CBS_get_bytes cbs (word_of_nat split))"

text \<open>The loop of \<open>CBS_get_u64_decimal\<close> with its variables \<open>v\<close> and \<open>seen_digit\<close>.\<close>

function get_u64_decimal_loop :: "u64 \<Rightarrow> bool \<Rightarrow> u64 cbs_get" where
  "get_u64_decimal_loop v seen_digit cbs =
     (if CBS_len cbs \<noteq> 0 \<and> OPENSSL_isdigit (uint (CBS_data cbs ! 0)) then
        (let d = ucast (CBS_data cbs ! 0 - 48) :: u64; cbs' = snd (CBS_skip cbs 1) in
         if v = 0 \<and> seen_digit \<or> v > (- 1) div 10 \<or> v * 10 > (- 1) - d then (None, cbs')
         else get_u64_decimal_loop (v * 10 + d) True cbs')
      else (if seen_digit then Some v else None, cbs))"
  by pat_completeness auto
termination
  by (relation "measure (\<lambda>(v, seen_digit, cbs). unat (CBS_len cbs))")
    (auto simp: CBS_skip_def cbs_get_def unat_dec)

declare get_u64_decimal_loop.simps [simp del]

definition CBS_get_u64_decimal :: "u64 cbs_get" where
  "CBS_get_u64_decimal cbs = get_u64_decimal_loop 0 False cbs"

section \<open>Views and the contract of a reader\<close>

text \<open>A view lies inside its object; its bytes.\<close>

definition cbs_wf :: "CBS \<Rightarrow> bool" where
  "cbs_wf cbs \<longleftrightarrow> unat (CBS_len cbs) \<le> length (CBS_data cbs)"

definition cbs_bytes :: "CBS \<Rightarrow> u8 list" where
  "cbs_bytes cbs = take (unat (CBS_len cbs)) (CBS_data cbs)"

text \<open>The view of a whole byte string.\<close>

definition cbs_of :: "u8 list \<Rightarrow> CBS" where
  "cbs_of bs = CBS_init bs (word_of_nat (length bs))"

text \<open>
  A parser on byte lists: \<open>None\<close> when it rejects, the value and the rest when it accepts.
\<close>

type_synonym 'a parser = "u8 list \<Rightarrow> ('a \<times> u8 list) option"

definition take_spec :: "nat \<Rightarrow> u8 list parser" where
  "take_spec n bs = (if length bs < n then None else Some (take n bs, drop n bs))"

definition u_spec :: "nat \<Rightarrow> nat parser" where
  "u_spec n bs = map_option (apfst be_val) (take_spec n bs)"

definition length_prefixed_spec :: "nat \<Rightarrow> u8 list parser" where
  "length_prefixed_spec n bs = Option.bind (u_spec n bs) (\<lambda>(len, rest). take_spec len rest)"

text \<open>
  The contract: \<open>get\<close> implements the parser \<open>spec\<close> on the bytes of the view, where
  \<open>view\<close> reads the value returned and \<open>ok\<close> holds of it; on failure the view only
  moved forward.
\<close>

locale cbs_reader =
  fixes get :: "CBS \<Rightarrow> 'a option \<times> CBS"
    and ok :: "'a \<Rightarrow> bool"
    and view :: "'a \<Rightarrow> 'b"
    and spec :: "u8 list \<Rightarrow> ('b \<times> u8 list) option"
  assumes get_accepts: "cbs_wf cbs \<Longrightarrow> spec (cbs_bytes cbs) = Some (x, rest) \<Longrightarrow>
      \<exists>a cbs'. get cbs = (Some a, cbs') \<and> ok a \<and> view a = x \<and> cbs_wf cbs' \<and> cbs_bytes cbs' = rest"
    and get_rejects: "cbs_wf cbs \<Longrightarrow> spec (cbs_bytes cbs) = None \<Longrightarrow>
      \<exists>cbs'. get cbs = (None, cbs') \<and> cbs_wf cbs' \<and> suffix (cbs_bytes cbs') (cbs_bytes cbs)"
    and spec_suffix: "spec bs = Some (x, rest) \<Longrightarrow> suffix rest bs"
begin

lemma get_Some:
  assumes "cbs_wf cbs" "get cbs = (Some a, cbs')"
  shows "spec (cbs_bytes cbs) = Some (view a, cbs_bytes cbs')" "ok a" "cbs_wf cbs'"
  using get_accepts [OF assms(1)] get_rejects [OF assms(1)] assms(2)
  by (cases "spec (cbs_bytes cbs)"; fastforce)+

lemma get_None:
  assumes "cbs_wf cbs" "get cbs = (None, cbs')"
  shows "spec (cbs_bytes cbs) = None" "cbs_wf cbs'" "suffix (cbs_bytes cbs') (cbs_bytes cbs)"
  using get_accepts [OF assms(1)] get_rejects [OF assms(1)] assms(2)
  by (cases "spec (cbs_bytes cbs)"; fastforce)+

lemma get_iff:
  assumes "cbs_wf cbs"
  shows "(\<exists>a c. get cbs = (Some a, c) \<and> view a = x \<and> cbs_bytes c = rest) \<longleftrightarrow>
    spec (cbs_bytes cbs) = Some (x, rest)"
  using get_Some [OF assms] get_accepts [OF assms] by fastforce

text \<open>Whatever happens, the view stays in its object and only loses a prefix.\<close>

lemma get_safe:
  assumes "cbs_wf cbs"
  shows "cbs_wf (snd (get cbs))" "suffix (cbs_bytes (snd (get cbs))) (cbs_bytes cbs)"
proof -
  obtain r c where g: "get cbs = (r, c)" by fastforce
  have "cbs_wf c \<and> suffix (cbs_bytes c) (cbs_bytes cbs)"
  proof (cases r)
    case None
    with g get_None [OF assms, of c] show ?thesis by simp
  next
    case (Some a)
    with g get_Some [OF assms, of a c] spec_suffix show ?thesis by auto
  qed
  with g show "cbs_wf (snd (get cbs))" "suffix (cbs_bytes (snd (get cbs))) (cbs_bytes cbs)"
    by simp_all
qed

text \<open>The result is a function of the bytes of the view alone.\<close>

lemma get_frame:
  assumes "cbs_wf c1" "cbs_wf c2" "cbs_bytes c1 = cbs_bytes c2"
  shows "map_option view (fst (get c1)) = map_option view (fst (get c2))"
    and "fst (get c1) \<noteq> None \<Longrightarrow> cbs_bytes (snd (get c1)) = cbs_bytes (snd (get c2))"
  using get_accepts [OF assms(1)] get_rejects [OF assms(1)]
    get_accepts [OF assms(2)] get_rejects [OF assms(2)] assms(3)
  by (cases "spec (cbs_bytes c1)"; fastforce)+

end

section \<open>Readers by composition\<close>

lemma length_cbs_bytes [simp]: "cbs_wf cbs \<Longrightarrow> length (cbs_bytes cbs) = unat (CBS_len cbs)"
  by (simp add: cbs_wf_def cbs_bytes_def)

lemma cbs_of_wf [simp]: "length bs < 2 ^ 64 \<Longrightarrow> cbs_wf (cbs_of bs)"
  and cbs_bytes_of [simp]: "length bs < 2 ^ 64 \<Longrightarrow> cbs_bytes (cbs_of bs) = bs"
  by (simp_all add: cbs_wf_def cbs_bytes_def cbs_of_def CBS_init_def unat_of_nat_u64)

lemma cbs_get_fail:
  "cbs_wf cbs \<Longrightarrow> length (cbs_bytes cbs) < unat n \<Longrightarrow> cbs_get cbs n = (None, cbs)"
  by (simp add: cbs_get_def word_less_nat_alt)

lemma cbs_get_ok:
  assumes "cbs_wf cbs" "unat n \<le> length (cbs_bytes cbs)"
  shows "\<exists>cbs'. cbs_get cbs n = (Some (CBS_data cbs), cbs') \<and> cbs_wf cbs' \<and>
    cbs_bytes cbs' = drop (unat n) (cbs_bytes cbs)"
proof -
  from assms have le: "n \<le> CBS_len cbs" by (simp add: word_le_nat_alt)
  with assms show ?thesis
    by (auto simp: cbs_get_def not_less cbs_wf_def cbs_bytes_def unat_sub drop_take
        word_le_nat_alt)
qed

lemma take_cbs_data:
  "n \<le> length (cbs_bytes cbs) \<Longrightarrow> take n (CBS_data cbs) = take n (cbs_bytes cbs)"
  by (simp add: cbs_bytes_def)

lemma take_spec_suffix: "take_spec n bs = Some (x, rest) \<Longrightarrow> suffix rest bs"
  by (auto simp: take_spec_def suffix_drop split: if_splits)

text \<open>A reader that takes \<open>n\<close> bytes and computes on them.\<close>

lemma cbs_reader_get:
  assumes "\<And>p. unat n \<le> length p \<Longrightarrow> ok (f p) \<and> view (f p) = g (take (unat n) p)"
  shows "cbs_reader
    (\<lambda>cbs. case cbs_get cbs n of (None, cbs) \<Rightarrow> (None, cbs) | (Some v, cbs) \<Rightarrow> (Some (f v), cbs))
    ok view (\<lambda>bs. map_option (apfst g) (take_spec (unat n) bs))"
proof
  fix cbs x rest
  assume wf: "cbs_wf cbs" and s: "map_option (apfst g) (take_spec (unat n) (cbs_bytes cbs)) = Some (x, rest)"
  then have le: "unat n \<le> length (cbs_bytes cbs)" "x = g (take (unat n) (cbs_bytes cbs))"
      "rest = drop (unat n) (cbs_bytes cbs)"
    by (auto simp: take_spec_def split: if_splits)
  moreover from le(1) wf have "unat n \<le> length (CBS_data cbs)"
    by (simp add: cbs_wf_def)
  ultimately show "\<exists>a cbs'. (case cbs_get cbs n of (None, cbs) \<Rightarrow> (None, cbs)
      | (Some v, cbs) \<Rightarrow> (Some (f v), cbs)) = (Some a, cbs') \<and> ok a \<and> view a = x \<and>
      cbs_wf cbs' \<and> cbs_bytes cbs' = rest"
    using cbs_get_ok [OF wf le(1)] assms [of "CBS_data cbs"] take_cbs_data [of "unat n" cbs] by auto
next
  fix cbs
  assume "cbs_wf cbs" "map_option (apfst g) (take_spec (unat n) (cbs_bytes cbs)) = None"
  then show "\<exists>cbs'. (case cbs_get cbs n of (None, cbs) \<Rightarrow> (None, cbs)
      | (Some v, cbs) \<Rightarrow> (Some (f v), cbs)) = (None, cbs') \<and> cbs_wf cbs' \<and>
      suffix (cbs_bytes cbs') (cbs_bytes cbs)"
    by (auto simp: take_spec_def cbs_get_fail split: if_splits)
qed (auto dest: take_spec_suffix)

text \<open>One reader after another, the second depending on the value of the first.\<close>

lemma cbs_reader_bind:
  assumes A: "cbs_reader A okA viewA specA"
    and B: "\<And>a. okA a \<Longrightarrow> cbs_reader (B a) ok view (specB (viewA a))"
    and S: "\<And>x bs y rest. specB x bs = Some (y, rest) \<Longrightarrow> suffix rest bs"
  shows "cbs_reader
    (\<lambda>cbs. case A cbs of (None, cbs) \<Rightarrow> (None, cbs) | (Some a, cbs) \<Rightarrow> B a cbs)
    ok view (\<lambda>bs. Option.bind (specA bs) (\<lambda>(x, rest). specB x rest))"
proof
  fix cbs y rest
  assume wf: "cbs_wf cbs"
    and s: "Option.bind (specA (cbs_bytes cbs)) (\<lambda>(x, rest). specB x rest) = Some (y, rest)"
  then obtain x r where x: "specA (cbs_bytes cbs) = Some (x, r)" "specB x r = Some (y, rest)"
    by (cases "specA (cbs_bytes cbs)") auto
  from cbs_reader.get_accepts [OF A wf x(1)] obtain a c where
    a: "A cbs = (Some a, c)" "okA a" "viewA a = x" "cbs_wf c" "cbs_bytes c = r" by blast
  from cbs_reader.get_accepts [OF B [OF a(2)] a(4)] a x(2)
  show "\<exists>a cbs'. (case A cbs of (None, cbs) \<Rightarrow> (None, cbs) | (Some a, cbs) \<Rightarrow> B a cbs) = (Some a, cbs')
      \<and> ok a \<and> view a = y \<and> cbs_wf cbs' \<and> cbs_bytes cbs' = rest" by fastforce
next
  fix cbs
  assume wf: "cbs_wf cbs"
    and s: "Option.bind (specA (cbs_bytes cbs)) (\<lambda>(x, rest). specB x rest) = None"
  show "\<exists>cbs'. (case A cbs of (None, cbs) \<Rightarrow> (None, cbs) | (Some a, cbs) \<Rightarrow> B a cbs) = (None, cbs')
      \<and> cbs_wf cbs' \<and> suffix (cbs_bytes cbs') (cbs_bytes cbs)"
  proof (cases "specA (cbs_bytes cbs)")
    case None
    from cbs_reader.get_rejects [OF A wf None] show ?thesis by auto
  next
    case (Some p)
    then obtain x r where x: "specA (cbs_bytes cbs) = Some (x, r)" "specB x r = None"
      using s by (cases p) auto
    from cbs_reader.get_accepts [OF A wf x(1)] obtain a c where
      a: "A cbs = (Some a, c)" "okA a" "viewA a = x" "cbs_wf c" "cbs_bytes c = r" by blast
    from cbs_reader.get_rejects [OF B [OF a(2)] a(4)] a x(2)
      cbs_reader.spec_suffix [OF A x(1)]
    show ?thesis by (fastforce intro: suffix_order.trans)
  qed
qed (auto simp: Option.bind_eq_Some_conv dest: cbs_reader.spec_suffix [OF A] S
      intro: suffix_order.trans)

section \<open>The readers meet the contract\<close>

fun u8_spec :: "u8 parser" where
  "u8_spec [] = None"
| "u8_spec (b # bs) = Some (b, bs)"

definition u_le_spec :: "nat \<Rightarrow> nat parser" where
  "u_le_spec n bs = map_option (apfst (\<lambda>p. be_val (rev p))) (take_spec n bs)"

lemma u8_spec_take: "u8_spec bs = map_option (apfst (\<lambda>p. p ! 0)) (take_spec 1 bs)"
  by (cases bs) (auto simp: take_spec_def)

lemma take_spec_Some_iff [simp]:
  "take_spec n bs = Some (x, rest) \<longleftrightarrow> bs = x @ rest \<and> length x = n"
  by (auto simp: take_spec_def append_eq_conv_conj split: if_splits)

lemma length_prefixed_spec_suffix:
  "length_prefixed_spec n bs = Some (x, rest) \<Longrightarrow> suffix rest bs"
  by (auto simp: length_prefixed_spec_def u_spec_def Option.bind_eq_Some_conv suffix_def)

text \<open>A big-endian integer read into a type at least as wide.\<close>

lemma unat_ucast_load_be:
  "unat (ucast (load_be bs) :: 'a::len word) = be_val bs"
  if "length bs = n" "n \<le> 8" "8 * n \<le> LENGTH('a)"
proof -
  have "be_val bs < 2 ^ (8 * n)"
    using be_val_less [of bs] that(1) by (simp add: power_mult)
  also have "\<dots> \<le> 2 ^ LENGTH('a)" using that(3) by (simp add: power_increasing)
  finally show ?thesis using that by (simp add: unat_ucast_mod unat_load_be)
qed

lemma cbs_reader_get_u:
  assumes "unat n = k" "k \<le> 8" "8 * k \<le> LENGTH('a::len)"
  shows "cbs_reader (\<lambda>cbs. case cbs_get_u cbs n of (None, cbs) \<Rightarrow> (None, cbs)
      | (Some v, cbs) \<Rightarrow> (Some (ucast v :: 'a word), cbs)) (\<lambda>_. True) unat (u_spec k)"
proof -
  have "cbs_reader (\<lambda>cbs. case cbs_get cbs n of (None, cbs) \<Rightarrow> (None, cbs)
      | (Some v, cbs) \<Rightarrow> (Some (ucast (load_be (take (unat n) v)) :: 'a word), cbs))
      (\<lambda>_. True) unat (\<lambda>bs. map_option (apfst be_val) (take_spec (unat n) bs))"
    using assms by (intro cbs_reader_get) (auto intro: unat_ucast_load_be)
  moreover have "(case cbs_get_u cbs n of (None, cbs) \<Rightarrow> (None, cbs)
      | (Some v, cbs) \<Rightarrow> (Some (ucast v :: 'a word), cbs)) =
      (case cbs_get cbs n of (None, cbs) \<Rightarrow> (None, cbs)
      | (Some v, cbs) \<Rightarrow> (Some (ucast (load_be (take (unat n) v))), cbs))" for cbs
    by (simp add: cbs_get_u_def split: prod.splits option.splits)
  ultimately show ?thesis by (simp add: u_spec_def [abs_def] assms(1))
qed

interpretation rd_u8: cbs_reader CBS_get_u8 "\<lambda>_. True" "\<lambda>x. x" u8_spec
proof -
  have "cbs_reader CBS_get_u8 (\<lambda>_. True) (\<lambda>x. x)
      (\<lambda>bs. map_option (apfst (\<lambda>p. p ! 0)) (take_spec (unat (1 :: size_t)) bs))"
    unfolding CBS_get_u8_def [abs_def] by (rule cbs_reader_get) simp
  then show "cbs_reader CBS_get_u8 (\<lambda>_. True) (\<lambda>x. x) u8_spec"
    by (simp add: u8_spec_take [abs_def])
qed

interpretation rd_u16: cbs_reader CBS_get_u16 "\<lambda>_. True" unat "u_spec 2"
  unfolding CBS_get_u16_def [abs_def] by (rule cbs_reader_get_u) simp_all

interpretation rd_u24: cbs_reader CBS_get_u24 "\<lambda>_. True" unat "u_spec 3"
  unfolding CBS_get_u24_def [abs_def] by (rule cbs_reader_get_u) simp_all

interpretation rd_u32: cbs_reader CBS_get_u32 "\<lambda>_. True" unat "u_spec 4"
  unfolding CBS_get_u32_def [abs_def] by (rule cbs_reader_get_u) simp_all

text \<open>A reader followed by a computation on its value.\<close>

lemma cbs_reader_map:
  assumes A: "cbs_reader A okA viewA specA"
    and f: "\<And>a. okA a \<Longrightarrow> ok (f a) \<and> view (f a) = h (viewA a)"
  shows "cbs_reader
    (\<lambda>cbs. case A cbs of (None, cbs) \<Rightarrow> (None, cbs) | (Some a, cbs) \<Rightarrow> (Some (f a), cbs))
    ok view (\<lambda>bs. map_option (apfst h) (specA bs))"
proof -
  have "cbs_reader
    (\<lambda>cbs. case A cbs of (None, cbs) \<Rightarrow> (None, cbs) | (Some a, cbs) \<Rightarrow> (Some (f a), cbs))
    ok view (\<lambda>bs. Option.bind (specA bs) (\<lambda>(x, rest). Some (h x, rest)))"
    using f by (intro cbs_reader_bind [OF A]) (unfold_locales, auto)
  moreover have "Option.bind (specA bs) (\<lambda>(x, rest). Some (h x, rest)) = map_option (apfst h) (specA bs)" for bs
    by (cases "specA bs") auto
  ultimately show ?thesis by simp
qed

lemma u_le_spec_u_spec:
  "u_le_spec n bs = map_option (apfst (\<lambda>v. be_val (rev (be_bytes n v)))) (u_spec n bs)"
  by (auto simp: u_le_spec_def u_spec_def take_spec_def)
    (metis be_bytes_be_val length_take min.absorb2 not_less)

lemma unat_bswap:
  "unat (word_of_nat (be_val (rev (be_bytes n v))) :: 'a::len word) = be_val (rev (be_bytes n v))"
  if "8 * n \<le> LENGTH('a)"
proof (rule unat_eq_of_nat)
  have "be_val (rev (be_bytes n v)) < 2 ^ (8 * n)"
    using be_val_less [of "rev (be_bytes n v)"] by (simp add: power_mult)
  also have "\<dots> \<le> 2 ^ LENGTH('a)" using that by (simp add: power_increasing)
  finally show "be_val (rev (be_bytes n v)) < 2 ^ LENGTH('a)" .
qed

interpretation rd_u64: cbs_reader CBS_get_u64 "\<lambda>_. True" unat "u_spec 8"
proof -
  have "cbs_reader (\<lambda>cbs. case cbs_get_u cbs 8 of (None, cbs) \<Rightarrow> (None, cbs)
      | (Some v, cbs) \<Rightarrow> (Some (ucast v :: u64), cbs)) (\<lambda>_. True) unat (u_spec 8)"
    by (rule cbs_reader_get_u) simp_all
  moreover have "(\<lambda>cbs. case cbs_get_u cbs 8 of (None, cbs) \<Rightarrow> (None, cbs)
      | (Some v, cbs) \<Rightarrow> (Some (ucast v :: u64), cbs)) = CBS_get_u64"
    by (rule ext) (simp add: CBS_get_u64_def split: prod.splits option.splits)
  ultimately show "cbs_reader CBS_get_u64 (\<lambda>_. True) unat (u_spec 8)" by simp
qed

interpretation rd_u16le: cbs_reader CBS_get_u16le "\<lambda>_. True" unat "u_le_spec 2"
  unfolding CBS_get_u16le_def [abs_def] u_le_spec_u_spec [abs_def]
  by (rule cbs_reader_map [OF rd_u16.cbs_reader_axioms])
    (simp add: CRYPTO_bswap2_def unat_bswap)

interpretation rd_u32le: cbs_reader CBS_get_u32le "\<lambda>_. True" unat "u_le_spec 4"
  unfolding CBS_get_u32le_def [abs_def] u_le_spec_u_spec [abs_def]
  by (rule cbs_reader_map [OF rd_u32.cbs_reader_axioms])
    (simp add: CRYPTO_bswap4_def unat_bswap)

interpretation rd_u64le: cbs_reader CBS_get_u64le "\<lambda>_. True" unat "u_le_spec 8"
  unfolding CBS_get_u64le_def [abs_def] CBS_get_u64_def [symmetric] u_le_spec_u_spec [abs_def]
  by (rule cbs_reader_map [OF rd_u64.cbs_reader_axioms])
    (simp add: CRYPTO_bswap8_def unat_bswap)

interpretation rd_bytes: cbs_reader "\<lambda>cbs. CBS_get_bytes cbs n" cbs_wf cbs_bytes
    "take_spec (unat n)" for n
proof -
  have "cbs_reader (\<lambda>cbs. CBS_get_bytes cbs n) cbs_wf cbs_bytes
      (\<lambda>bs. map_option (apfst (\<lambda>p. p)) (take_spec (unat n) bs))"
    unfolding CBS_get_bytes_def
    by (rule cbs_reader_get) (auto simp: CBS_init_def cbs_wf_def cbs_bytes_def)
  then show "cbs_reader (\<lambda>cbs. CBS_get_bytes cbs n) cbs_wf cbs_bytes (take_spec (unat n))"
    by (simp add: apfst_def map_prod_def option.map_id)
qed

interpretation rd_copy: cbs_reader "\<lambda>cbs. CBS_copy_bytes cbs n" "\<lambda>_. True" "\<lambda>x. x"
    "take_spec (unat n)" for n
proof -
  have "cbs_reader (\<lambda>cbs. CBS_copy_bytes cbs n) (\<lambda>_. True) (\<lambda>x. x)
      (\<lambda>bs. map_option (apfst (\<lambda>p. p)) (take_spec (unat n) bs))"
    unfolding CBS_copy_bytes_def by (rule cbs_reader_get) simp
  then show "cbs_reader (\<lambda>cbs. CBS_copy_bytes cbs n) (\<lambda>_. True) (\<lambda>x. x) (take_spec (unat n))"
    by (simp add: apfst_def map_prod_def option.map_id)
qed

lemma u_spec_Some_iff:
  "u_spec k bs = Some (n, r) \<longleftrightarrow> (\<exists>p. bs = p @ r \<and> length p = k \<and> n = be_val p)"
  by (auto simp: u_spec_def)

lemma cbs_reader_get_u64:
  assumes "unat n = k" "k \<le> 8"
  shows "cbs_reader (\<lambda>cbs. cbs_get_u cbs n) (\<lambda>_. True) unat (u_spec k)"
proof -
  have "cbs_reader (\<lambda>cbs. case cbs_get_u cbs n of (None, cbs) \<Rightarrow> (None, cbs)
      | (Some v, cbs) \<Rightarrow> (Some (ucast v :: u64), cbs)) (\<lambda>_. True) unat (u_spec k)"
    by (rule cbs_reader_get_u) (use assms in simp_all)
  moreover have "(case cbs_get_u cbs n of (None, cbs) \<Rightarrow> (None, cbs)
      | (Some v, cbs) \<Rightarrow> (Some (ucast v :: u64), cbs)) = cbs_get_u cbs n" for cbs
    by (simp split: prod.splits option.splits)
  ultimately show ?thesis by simp
qed

lemma cbs_reader_length_prefixed:
  assumes "unat n = k" "k \<le> 8"
  shows "cbs_reader (\<lambda>cbs. cbs_get_length_prefixed cbs n) cbs_wf cbs_bytes (length_prefixed_spec k)"
  unfolding cbs_get_length_prefixed_def length_prefixed_spec_def [abs_def]
  by (rule cbs_reader_bind [OF cbs_reader_get_u64 [OF assms], where specB = take_spec])
    (use rd_bytes.cbs_reader_axioms in \<open>auto simp: suffix_def\<close>)

interpretation rd_u8_prefixed: cbs_reader CBS_get_u8_length_prefixed cbs_wf cbs_bytes
    "length_prefixed_spec 1"
  unfolding CBS_get_u8_length_prefixed_def [abs_def] by (rule cbs_reader_length_prefixed) simp_all

interpretation rd_u16_prefixed: cbs_reader CBS_get_u16_length_prefixed cbs_wf cbs_bytes
    "length_prefixed_spec 2"
  unfolding CBS_get_u16_length_prefixed_def [abs_def] by (rule cbs_reader_length_prefixed) simp_all

interpretation rd_u24_prefixed: cbs_reader CBS_get_u24_length_prefixed cbs_wf cbs_bytes
    "length_prefixed_spec 3"
  unfolding CBS_get_u24_length_prefixed_def [abs_def] by (rule cbs_reader_length_prefixed) simp_all

section \<open>Searching, skipping and copying\<close>

lemma CBS_skip_spec:
  assumes "cbs_wf cbs"
  shows "fst (CBS_skip cbs n) \<longleftrightarrow> unat n \<le> length (cbs_bytes cbs)"
    and "cbs_wf (snd (CBS_skip cbs n))"
    and "cbs_bytes (snd (CBS_skip cbs n)) =
      (if fst (CBS_skip cbs n) then drop (unat n) (cbs_bytes cbs) else cbs_bytes cbs)"
  using assms cbs_get_fail [OF assms, of n] cbs_get_ok [OF assms, of n]
  by (cases "unat n \<le> length (cbs_bytes cbs)"; auto simp: CBS_skip_def not_le)+

lemma OPENSSL_memchr_None_iff:
  "unat n \<le> length s \<Longrightarrow> OPENSSL_memchr s c n = None \<longleftrightarrow> c \<notin> set (take (unat n) s)"
proof -
  assume le: "unat n \<le> length s"
  let ?t = "take (unat n) s"
  have "length (takeWhile (\<lambda>b. b \<noteq> c) t) < length t \<longleftrightarrow> c \<in> set t" for t
    by (induction t) auto
  from this [of ?t] le show ?thesis by (auto simp: OPENSSL_memchr_def Let_def)
qed

lemma CBS_contains_zero_byte_iff:
  "cbs_wf cbs \<Longrightarrow> CBS_contains_zero_byte cbs \<longleftrightarrow> 0 \<in> set (cbs_bytes cbs)"
  by (simp add: CBS_contains_zero_byte_def OPENSSL_memchr_None_iff cbs_wf_def cbs_bytes_def)

lemma CBS_mem_equal_iff:
  "cbs_wf cbs \<Longrightarrow> unat n \<le> length p \<Longrightarrow>
     CBS_mem_equal cbs p n \<longleftrightarrow> take (unat n) p = cbs_bytes cbs \<and> unat n = length (cbs_bytes cbs)"
  using word_unat_eq_iff [of n "CBS_len cbs"]
  by (cases "n = CBS_len cbs")
    (auto simp: CBS_mem_equal_def CRYPTO_memcmp_eq_0_iff cbs_wf_def cbs_bytes_def)

lemma CBS_stow_copy:
  assumes "malloc_spec malloc" "cbs_wf cbs" "CBS_stow malloc cbs = (True, p, n)"
  shows "(case p of None \<Rightarrow> [] | Some q \<Rightarrow> q) = cbs_bytes cbs" "n = CBS_len cbs"
  using assms
  by (auto simp: CBS_stow_def OPENSSL_memdup_def memcpy_def cbs_wf_def cbs_bytes_def
      dest: OPENSSL_malloc_length split: if_splits option.splits)

lemma CBS_strdup_copy:
  assumes "malloc_spec malloc" "cbs_wf cbs" "CBS_strdup malloc cbs = Some p"
  shows "p = cstr (cbs_bytes cbs) @ [0]"
  using OPENSSL_strndup_cstr [of malloc "CBS_len cbs" "CBS_data cbs" p] assms
  by (simp add: CBS_strdup_def cbs_wf_def cbs_bytes_def)

lemma CBS_get_last_u8_spec:
  assumes "cbs_wf cbs"
  shows "CBS_get_last_u8 cbs = (None, cbs) \<and> cbs_bytes cbs = [] \<or>
    (\<exists>b cbs'. CBS_get_last_u8 cbs = (Some b, cbs') \<and> cbs_wf cbs' \<and>
      cbs_bytes cbs = cbs_bytes cbs' @ [b])"
proof (cases "CBS_len cbs = 0")
  case False
  then have n: "unat (CBS_len cbs - 1) = unat (CBS_len cbs) - 1" "0 < unat (CBS_len cbs)"
    by (auto simp: unat_minus_one unat_gt_0)
  let ?n = "unat (CBS_len cbs) - 1"
  have "take (Suc ?n) (CBS_data cbs) = take ?n (CBS_data cbs) @ [CBS_data cbs ! ?n]"
    using assms n by (intro take_Suc_conv_app_nth) (simp add: cbs_wf_def)
  with False n assms show ?thesis
    by (auto simp: CBS_get_last_u8_def cbs_wf_def cbs_bytes_def)
qed (simp add: CBS_get_last_u8_def cbs_bytes_def)

definition until_first_spec :: "u8 \<Rightarrow> u8 list parser" where
  "until_first_spec c bs =
     (if c \<in> set bs then Some (takeWhile (\<lambda>b. b \<noteq> c) bs, dropWhile (\<lambda>b. b \<noteq> c) bs) else None)"

interpretation rd_until: cbs_reader "\<lambda>cbs. CBS_get_until_first cbs c" cbs_wf cbs_bytes
    "until_first_spec c" for c
proof
  fix cbs x rest
  assume wf: "cbs_wf cbs" and s: "until_first_spec c (cbs_bytes cbs) = Some (x, rest)"
  then have c: "c \<in> set (cbs_bytes cbs)" "x = takeWhile (\<lambda>b. b \<noteq> c) (cbs_bytes cbs)"
      "rest = dropWhile (\<lambda>b. b \<noteq> c) (cbs_bytes cbs)"
    by (auto simp: until_first_spec_def split: if_splits)
  have bs: "take (unat (CBS_len cbs)) (CBS_data cbs) = cbs_bytes cbs" by (simp add: cbs_bytes_def)
  have "OPENSSL_memchr (CBS_data cbs) c (CBS_len cbs) \<noteq> None"
    using wf c(1) bs by (simp add: OPENSSL_memchr_None_iff cbs_wf_def)
  then have m: "OPENSSL_memchr (CBS_data cbs) c (CBS_len cbs) = Some (length x)"
    by (auto simp: OPENSSL_memchr_def Let_def bs c(2) split: if_splits)
  have "length x \<le> unat (CBS_len cbs)"
    using wf length_takeWhile_le [of _ "cbs_bytes cbs"] c(2) by simp
  then have n: "unat (word_of_nat (length x) :: size_t) = length x"
    using unat_lt2p [of "CBS_len cbs"] by (intro unat_of_nat_u64) (simp add: order.strict_trans1)
  have "take_spec (unat (word_of_nat (length x) :: size_t)) (cbs_bytes cbs) = Some (x, rest)"
    unfolding n by (simp add: c(2,3))
  from rd_bytes.get_accepts [OF wf this]
  show "\<exists>a cbs'. CBS_get_until_first cbs c = (Some a, cbs') \<and> cbs_wf a \<and> cbs_bytes a = x \<and>
      cbs_wf cbs' \<and> cbs_bytes cbs' = rest"
    by (simp add: CBS_get_until_first_def m)
next
  fix cbs
  assume "cbs_wf cbs" "until_first_spec c (cbs_bytes cbs) = None"
  then show "\<exists>cbs'. CBS_get_until_first cbs c = (None, cbs') \<and> cbs_wf cbs' \<and>
      suffix (cbs_bytes cbs') (cbs_bytes cbs)"
    using OPENSSL_memchr_None_iff [of "CBS_len cbs" "CBS_data cbs" c]
    by (simp add: until_first_spec_def CBS_get_until_first_def cbs_wf_def cbs_bytes_def
        split: if_splits)
qed (auto simp: until_first_spec_def suffix_dropWhile split: if_splits)

end
