(* ===== verification/Decimal.thy ===== *)
theory Decimal
  imports Cbs
begin

text \<open>
  Decimal integers: the parser that \<open>CBS_get_u64_decimal\<close> implements, and printing with
  \<open>snprintf\<close>, its inverse.
\<close>

section \<open>Decimal integers\<close>

text \<open>
  The parser behind \<open>CBS_get_u64_decimal\<close>: digits up to the first other byte, no leading
  zero before a further digit, the value below \<open>2\<^sup>6\<^sup>4\<close>.
\<close>

definition is_digit :: "u8 \<Rightarrow> bool" where
  "is_digit b \<longleftrightarrow> OPENSSL_isdigit (uint b)"

definition digit_val :: "u8 \<Rightarrow> nat" where
  "digit_val b = unat (b - 48)"

fun decimal_spec :: "nat \<Rightarrow> bool \<Rightarrow> nat parser" where
  "decimal_spec v seen [] = (if seen then Some (v, []) else None)"
| "decimal_spec v seen (b # bs) =
     (if is_digit b then
        (if v = 0 \<and> seen \<or> 18446744073709551616 \<le> v * 10 + digit_val b then None
         else decimal_spec (v * 10 + digit_val b) True bs)
      else if seen then Some (v, b # bs) else None)"

lemma is_digit_iff: "is_digit b \<longleftrightarrow> 48 \<le> unat b \<and> unat b \<le> 57"
  unfolding is_digit_def OPENSSL_isdigit_def uint_nat by linarith

lemma digit_val_le: "is_digit b \<Longrightarrow> digit_val b \<le> 9"
  and unat_digit: "is_digit b \<Longrightarrow> unat b = 48 + digit_val b"
  by (auto simp: is_digit_iff digit_val_def unat_sub word_le_nat_alt)

lemma decimal_overflow_check:
  assumes "is_digit b"
  shows "(v > (- 1) div 10 \<or> v * 10 > (- 1) - (ucast (b - 48) :: u64)) \<longleftrightarrow>
    18446744073709551616 \<le> unat v * 10 + digit_val b"
    and "unat v * 10 + digit_val b < 18446744073709551616 \<Longrightarrow>
      unat (v * 10 + (ucast (b - 48) :: u64)) = unat v * 10 + digit_val b"
proof -
  let ?d = "ucast (b - 48) :: u64"
  have d: "unat ?d = digit_val b" "digit_val b \<le> 9"
    using digit_val_le [OF assms] by (simp_all add: digit_val_def unat_ucast_up)
  have m: "unat ((- 1) - ?d) = 18446744073709551615 - digit_val b"
    using unat_sub [of ?d "- 1"] d(1) by (simp add: word_n1_ge)
  have mul: "unat (v * 10) = unat v * 10" if "unat v \<le> 1844674407370955161"
    using that by (simp add: unat_word_ariths(2))
  show "(v > (- 1) div 10 \<or> v * 10 > (- 1) - ?d) \<longleftrightarrow>
    18446744073709551616 \<le> unat v * 10 + digit_val b"
  proof (cases "unat v \<le> 1844674407370955161")
    case True
    then have "\<not> v > (- 1) div 10" by (simp add: word_less_nat_alt)
    moreover have "v * 10 > (- 1) - ?d \<longleftrightarrow> 18446744073709551615 - digit_val b < unat v * 10"
      unfolding word_less_nat_alt m mul [OF True] ..
    ultimately show ?thesis using d(2) by auto
  qed (simp add: word_less_nat_alt)
  show "unat (v * 10 + ?d) = unat v * 10 + digit_val b"
    if "unat v * 10 + digit_val b < 18446744073709551616"
    using that d mul by (subst unat_add_no_wrap) simp_all
qed

lemma cbs_bytes_Cons:
  assumes "cbs_wf cbs" "CBS_len cbs \<noteq> 0"
  shows "cbs_bytes cbs = CBS_data cbs ! 0 # cbs_bytes (snd (CBS_skip cbs 1))"
    and "cbs_wf (snd (CBS_skip cbs 1))"
proof -
  from assms(2) have "0 < unat (CBS_len cbs)" by (simp add: unat_gt_0)
  moreover from this assms(1) obtain b bs where "CBS_data cbs = b # bs"
    by (cases "CBS_data cbs") (auto simp: cbs_wf_def)
  ultimately show "cbs_bytes cbs = CBS_data cbs ! 0 # cbs_bytes (snd (CBS_skip cbs 1))"
    using CBS_skip_spec(1,3) [OF assms(1), of 1] assms(1)
    by (cases "unat (CBS_len cbs)") (auto simp: cbs_bytes_def Suc_le_eq)
  show "cbs_wf (snd (CBS_skip cbs 1))" by (rule CBS_skip_spec(2) [OF assms(1)])
qed

lemma cbs_bytes_Nil_iff: "cbs_wf cbs \<Longrightarrow> cbs_bytes cbs = [] \<longleftrightarrow> CBS_len cbs = 0"
  by (metis length_0_conv length_cbs_bytes unat_eq_zero)

lemma get_u64_decimal_loop_spec:
  assumes "cbs_wf cbs"
  shows "case decimal_spec (unat v) seen (cbs_bytes cbs) of
      None \<Rightarrow> \<exists>c. get_u64_decimal_loop v seen cbs = (None, c) \<and> cbs_wf c \<and> suffix (cbs_bytes c) (cbs_bytes cbs)
    | Some (x, rest) \<Rightarrow> \<exists>a c. get_u64_decimal_loop v seen cbs = (Some a, c) \<and> unat a = x \<and>
        cbs_wf c \<and> cbs_bytes c = rest"
  using assms
proof (induction v seen cbs rule: get_u64_decimal_loop.induct)
  case (1 v seen cbs)
  note loop = get_u64_decimal_loop.simps [of v seen cbs]
  show ?case
  proof (cases "CBS_len cbs \<noteq> 0 \<and> is_digit (CBS_data cbs ! 0)")
    case True
    let ?b = "CBS_data cbs ! 0" and ?c = "snd (CBS_skip cbs 1)"
    let ?v = "v * 10 + (ucast (?b - 48) :: u64)"
    note bs = cbs_bytes_Cons [OF "1.prems" True [THEN conjunct1]]
    note chk = decimal_overflow_check [OF True [THEN conjunct2], of v]
    show ?thesis
    proof (cases "v = 0 \<and> seen \<or> 18446744073709551616 \<le> unat v * 10 + digit_val ?b")
      case bad: True
      then have "get_u64_decimal_loop v seen cbs = (None, ?c)"
        using True chk(1) by (auto simp: loop is_digit_def Let_def)
      with bad bs True show ?thesis by (auto simp: unat_eq_zero suffix_ConsI)
    next
      case False
      then have "get_u64_decimal_loop v seen cbs = get_u64_decimal_loop ?v True ?c"
        using True chk(1) by (auto simp: loop is_digit_def Let_def)
      moreover have "unat ?v = unat v * 10 + digit_val ?b" using False chk(2) by simp
      moreover have "\<not> (v = 0 \<and> seen \<or> v > (- 1) div 10 \<or> v * 10 > (- 1) - (ucast (?b - 48) :: u64))"
        using False chk(1) by blast
      with "1.IH" [of "ucast (?b - 48)" ?c] True bs(2)
      have "case decimal_spec (unat ?v) True (cbs_bytes ?c) of
          None \<Rightarrow> \<exists>c. get_u64_decimal_loop ?v True ?c = (None, c) \<and> cbs_wf c \<and> suffix (cbs_bytes c) (cbs_bytes ?c)
        | Some (x, rest) \<Rightarrow> \<exists>a c. get_u64_decimal_loop ?v True ?c = (Some a, c) \<and> unat a = x \<and>
            cbs_wf c \<and> cbs_bytes c = rest"
        by (simp add: is_digit_def)
      ultimately show ?thesis
        using False True bs(1) by (auto simp: unat_eq_zero suffix_ConsI split: option.splits)
    qed
  next
    case False
    then have "get_u64_decimal_loop v seen cbs = (if seen then Some v else None, cbs)"
      by (auto simp: loop is_digit_def)
    moreover have "decimal_spec (unat v) seen (cbs_bytes cbs)
        = (if seen then Some (unat v, cbs_bytes cbs) else None)"
      using False cbs_bytes_Cons [OF "1.prems"] cbs_bytes_Nil_iff [OF "1.prems"]
      by (cases "cbs_bytes cbs") auto
    ultimately show ?thesis using "1.prems" by auto
  qed
qed

lemma decimal_spec_suffix: "decimal_spec v seen bs = Some (x, rest) \<Longrightarrow> suffix rest bs"
  by (induction v seen bs rule: decimal_spec.induct) (auto simp: suffix_ConsI split: if_splits)

interpretation rd_decimal: cbs_reader CBS_get_u64_decimal "\<lambda>_. True" unat "decimal_spec 0 False"
proof
  fix cbs x rest
  assume "cbs_wf cbs" "decimal_spec 0 False (cbs_bytes cbs) = Some (x, rest)"
  then show "\<exists>a cbs'. CBS_get_u64_decimal cbs = (Some a, cbs') \<and> True \<and> unat a = x \<and>
      cbs_wf cbs' \<and> cbs_bytes cbs' = rest"
    using get_u64_decimal_loop_spec [of cbs 0 False] by (simp add: CBS_get_u64_decimal_def)
next
  fix cbs
  assume "cbs_wf cbs" "decimal_spec 0 False (cbs_bytes cbs) = None"
  then show "\<exists>cbs'. CBS_get_u64_decimal cbs = (None, cbs') \<and> cbs_wf cbs' \<and>
      suffix (cbs_bytes cbs') (cbs_bytes cbs)"
    using get_u64_decimal_loop_spec [of cbs 0 False] by (simp add: CBS_get_u64_decimal_def)
qed (rule decimal_spec_suffix)

text \<open>Printing with \<open>%llu\<close>, the inverse of the parser.\<close>

fun decimal :: "nat \<Rightarrow> u8 list" where
  "decimal n = (if n < 10 then [word_of_nat (48 + n)]
                else decimal (n div 10) @ [word_of_nat (48 + n mod 10)])"

declare decimal.simps [simp del]

lemma digit_byte:
  "n < 10 \<Longrightarrow> is_digit (word_of_nat (48 + n)) \<and> digit_val (word_of_nat (48 + n)) = n"
proof -
  assume "n < 10"
  then have "unat (word_of_nat (48 + n) :: u8) = 48 + n" by (intro unat_eq_of_nat) simp
  then have "is_digit (word_of_nat (48 + n))" using \<open>n < 10\<close> unfolding is_digit_iff by simp
  with unat_digit [OF this] \<open>unat (word_of_nat (48 + n) :: u8) = 48 + n\<close> show ?thesis by linarith
qed

lemma decimal_spec_decimal:
  assumes "n < 18446744073709551616"
  shows "decimal_spec 0 False (decimal n @ rest) = (if n = 0 then decimal_spec 0 True rest else decimal_spec n True rest)"
  using assms
proof (induction n arbitrary: rest rule: decimal.induct)
  case (1 n)
  show ?case
  proof (cases "n < 10")
    case True
    with digit_byte [of n] show ?thesis by (simp add: decimal.simps [of n])
  next
    case False
    have "n div 10 \<noteq> 0" "n div 10 < 18446744073709551616" using False "1.prems" by auto
    with False "1.IH" [of "word_of_nat (48 + n mod 10) # rest"] digit_byte [of "n mod 10"] "1.prems"
    show ?thesis by (simp add: decimal.simps [of n] mult.commute)
  qed
qed

text \<open>A printed number is read back, whatever follows it.\<close>

lemma decimal_roundtrip [codec]:
  "n < 18446744073709551616 \<Longrightarrow> (\<forall>b bs. rest = b # bs \<longrightarrow> \<not> is_digit b) \<Longrightarrow>
     decimal_spec 0 False (decimal n @ rest) = Some (n, rest)"
  using decimal_spec_decimal [of n rest] by (cases rest) auto

end
