(* ===== verification/Cbs_Asn1.thy ===== *)
theory Cbs_Asn1
  imports Decimal
begin

text \<open>
  Reading ASN.1 with a \<open>CBS\<close> (crypto/bytestring/cbs.c): tags, definite and indefinite
  lengths, the typed readers and the validity checks on contents.
\<close>

section \<open>Tags\<close>

type_synonym CBS_ASN1_TAG = u32

definition CBS_ASN1_TAG_SHIFT :: nat where
  "CBS_ASN1_TAG_SHIFT = 24"

definition CBS_ASN1_CONSTRUCTED :: CBS_ASN1_TAG where
  "CBS_ASN1_CONSTRUCTED = push_bit CBS_ASN1_TAG_SHIFT 0x20"

definition CBS_ASN1_CONTEXT_SPECIFIC :: CBS_ASN1_TAG where
  "CBS_ASN1_CONTEXT_SPECIFIC = push_bit CBS_ASN1_TAG_SHIFT 0x80"

definition CBS_ASN1_TAG_NUMBER_MASK :: CBS_ASN1_TAG where
  "CBS_ASN1_TAG_NUMBER_MASK = push_bit (5 + CBS_ASN1_TAG_SHIFT) 1 - 1"

definition CBS_ASN1_BOOLEAN :: CBS_ASN1_TAG where "CBS_ASN1_BOOLEAN = 0x1"
definition CBS_ASN1_INTEGER :: CBS_ASN1_TAG where "CBS_ASN1_INTEGER = 0x2"
definition CBS_ASN1_BITSTRING :: CBS_ASN1_TAG where "CBS_ASN1_BITSTRING = 0x3"
definition CBS_ASN1_OCTETSTRING :: CBS_ASN1_TAG where "CBS_ASN1_OCTETSTRING = 0x4"
definition CBS_ASN1_OBJECT :: CBS_ASN1_TAG where "CBS_ASN1_OBJECT = 0x6"

definition CBS_ASN1_SEQUENCE :: CBS_ASN1_TAG where
  "CBS_ASN1_SEQUENCE = 0x10 OR CBS_ASN1_CONSTRUCTED"

text \<open>The \<open>do ... while\<close> loop of \<open>parse_base128_integer\<close> with its variable \<open>v\<close>.\<close>

function base128_loop :: "u64 \<Rightarrow> u64 cbs_get" where
  "base128_loop v cbs =
     (case CBS_get_u8 cbs of
        (None, cbs') \<Rightarrow> (None, cbs')
      | (Some b, cbs') \<Rightarrow>
          if drop_bit (64 - 7) v \<noteq> 0 then (None, cbs')
          else if v = 0 \<and> b = 0x80 then (None, cbs')
          else let v' = push_bit 7 v OR ucast (b AND 0x7f) in
               if b AND 0x80 \<noteq> 0 then base128_loop v' cbs' else (Some v', cbs'))"
  by pat_completeness auto
termination
  by (relation "measure (\<lambda>(v, cbs). unat (CBS_len cbs))")
    (auto simp: CBS_get_u8_def cbs_get_def unat_dec split: if_splits option.splits prod.splits)

declare base128_loop.simps [simp del]

definition parse_base128_integer :: "u64 cbs_get" where
  "parse_base128_integer cbs = base128_loop 0 cbs"

definition parse_asn1_tag :: "CBS_ASN1_TAG cbs_get" where
  "parse_asn1_tag cbs =
     (case CBS_get_u8 cbs of
        (None, cbs) \<Rightarrow> (None, cbs)
      | (Some tag_byte, cbs) \<Rightarrow>
          let tag = push_bit CBS_ASN1_TAG_SHIFT (ucast tag_byte AND 0xe0) :: u32;
              tag_number = ucast (tag_byte AND 0x1f) :: u32;
              finish = (\<lambda>tag cbs. if tag AND NOT CBS_ASN1_CONSTRUCTED = 0 then (None, cbs)
                                  else (Some tag, cbs))
          in if tag_number = 0x1f then
               (case parse_base128_integer cbs of
                  (None, cbs) \<Rightarrow> (None, cbs)
                | (Some v, cbs) \<Rightarrow>
                    if v > ucast CBS_ASN1_TAG_NUMBER_MASK \<or> v < 0x1f then (None, cbs)
                    else finish (tag OR ucast v) cbs)
             else finish (tag OR tag_number) cbs)"

section \<open>Elements\<close>

text \<open>The out-parameters of \<open>cbs_get_any_asn1_element\<close>.\<close>

record asn1_element =
  el_out :: CBS
  el_tag :: CBS_ASN1_TAG
  el_header_len :: size_t
  el_ber_found :: bool
  el_indefinite :: bool

definition cbs_get_any_asn1_element :: "CBS \<Rightarrow> bool \<Rightarrow> asn1_element option \<times> CBS" where
  "cbs_get_any_asn1_element cbs ber_ok =
     (case parse_asn1_tag cbs of
        (None, _) \<Rightarrow> (None, cbs)
      | (Some tag, header) \<Rightarrow>
     (case CBS_get_u8 header of
        (None, _) \<Rightarrow> (None, cbs)
      | (Some length_byte, header) \<Rightarrow>
     (let header_len = CBS_len cbs - CBS_len header;
          get = (\<lambda>len out_header_len ber_found indefinite.
            case CBS_get_bytes cbs len of
              (None, cbs) \<Rightarrow> (None, cbs)
            | (Some out, cbs) \<Rightarrow>
                (Some \<lparr>el_out = out, el_tag = tag, el_header_len = out_header_len,
                       el_ber_found = ber_found, el_indefinite = indefinite\<rparr>, cbs))
      in if length_byte AND 0x80 = 0 then
           get (ucast length_byte + header_len) header_len False False
         else
         (let num_bytes = ucast (length_byte AND 0x7f) :: size_t in
          if ber_ok \<and> tag AND CBS_ASN1_CONSTRUCTED \<noteq> 0 \<and> num_bytes = 0 then
            get header_len header_len True True
          else if num_bytes = 0 \<or> num_bytes > 4 then (None, cbs)
          else
          (case cbs_get_u header num_bytes of
             (None, _) \<Rightarrow> (None, cbs)
           | (Some len64, header) \<Rightarrow>
             (let not_minimal = len64 < 128 \<or> drop_bit (unat ((num_bytes - 1) * 8)) len64 = 0 in
              if not_minimal \<and> \<not> ber_ok then (None, cbs)
              else if len64 + header_len + num_bytes < len64 then (None, cbs)
              else get (len64 + (header_len + num_bytes)) (header_len + num_bytes)
                     not_minimal False))))))"

definition CBS_get_any_asn1_element :: "asn1_element cbs_get" where
  "CBS_get_any_asn1_element cbs = cbs_get_any_asn1_element cbs False"

definition CBS_get_any_ber_asn1_element :: "asn1_element cbs_get" where
  "CBS_get_any_ber_asn1_element cbs = cbs_get_any_asn1_element cbs True"

definition CBS_get_any_asn1 :: "(CBS \<times> CBS_ASN1_TAG) cbs_get" where
  "CBS_get_any_asn1 cbs =
     (case CBS_get_any_asn1_element cbs of
        (None, cbs) \<Rightarrow> (None, cbs)
      | (Some el, cbs) \<Rightarrow>
          (case CBS_skip (el_out el) (el_header_len el) of
             (False, _) \<Rightarrow> (None, cbs)
           | (True, out) \<Rightarrow> (Some (out, el_tag el), cbs)))"

definition cbs_get_asn1 :: "CBS \<Rightarrow> CBS_ASN1_TAG \<Rightarrow> bool \<Rightarrow> CBS option \<times> CBS" where
  "cbs_get_asn1 cbs tag_value skip_header =
     (case CBS_get_any_asn1_element cbs of
        (None, cbs) \<Rightarrow> (None, cbs)
      | (Some el, cbs) \<Rightarrow>
          if el_tag el \<noteq> tag_value then (None, cbs)
          else if skip_header then
            (case CBS_skip (el_out el) (el_header_len el) of
               (False, _) \<Rightarrow> (None, cbs) | (True, out) \<Rightarrow> (Some out, cbs))
          else (Some (el_out el), cbs))"

definition CBS_get_asn1 :: "CBS \<Rightarrow> CBS_ASN1_TAG \<Rightarrow> CBS option \<times> CBS" where
  "CBS_get_asn1 cbs tag_value = cbs_get_asn1 cbs tag_value True"

definition CBS_get_asn1_element :: "CBS \<Rightarrow> CBS_ASN1_TAG \<Rightarrow> CBS option \<times> CBS" where
  "CBS_get_asn1_element cbs tag_value = cbs_get_asn1 cbs tag_value False"

definition CBS_peek_asn1_tag :: "CBS \<Rightarrow> CBS_ASN1_TAG \<Rightarrow> bool" where
  "CBS_peek_asn1_tag cbs tag_value =
     (case parse_asn1_tag cbs of (None, _) \<Rightarrow> False | (Some actual_tag, _) \<Rightarrow> tag_value = actual_tag)"

section \<open>Typed readers\<close>

definition CBS_is_valid_asn1_integer :: "CBS \<Rightarrow> bool option" where
  \<comment> \<open>\<open>Some is_negative\<close> when valid\<close>
  "CBS_is_valid_asn1_integer cbs =
     (case CBS_get_u8 cbs of
        (None, _) \<Rightarrow> None
      | (Some first_byte, copy) \<Rightarrow>
          let is_negative = (first_byte AND 0x80 \<noteq> 0) in
          case CBS_get_u8 copy of
            (None, _) \<Rightarrow> Some is_negative
          | (Some second_byte, _) \<Rightarrow>
              if (first_byte = 0x00 \<and> second_byte AND 0x80 = 0) \<or>
                 (first_byte = 0xff \<and> second_byte AND 0x80 \<noteq> 0)
              then None else Some is_negative)"

definition CBS_is_unsigned_asn1_integer :: "CBS \<Rightarrow> bool" where
  "CBS_is_unsigned_asn1_integer cbs \<longleftrightarrow> CBS_is_valid_asn1_integer cbs = Some False"

text \<open>The loop over the contents in \<open>CBS_get_asn1_uint64\<close>.\<close>

fun asn1_uint64_loop :: "u64 \<Rightarrow> u8 list \<Rightarrow> u64 option" where
  "asn1_uint64_loop out [] = Some out"
| "asn1_uint64_loop out (b # bs) =
     (if drop_bit 56 out \<noteq> 0 then None else asn1_uint64_loop (push_bit 8 out OR ucast b) bs)"

definition CBS_get_asn1_uint64 :: "u64 cbs_get" where
  "CBS_get_asn1_uint64 cbs =
     (case CBS_get_asn1 cbs CBS_ASN1_INTEGER of
        (None, cbs) \<Rightarrow> (None, cbs)
      | (Some bytes, cbs) \<Rightarrow>
          if \<not> CBS_is_unsigned_asn1_integer bytes then (None, cbs)
          else (asn1_uint64_loop 0 (take (unat (CBS_len bytes)) (CBS_data bytes)), cbs))"

text \<open>The result is the two's complement representation of the \<open>int64_t\<close>.\<close>

definition CBS_get_asn1_int64 :: "u64 cbs_get" where
  "CBS_get_asn1_int64 cbs =
     (case CBS_get_asn1 cbs CBS_ASN1_INTEGER of
        (None, cbs) \<Rightarrow> (None, cbs)
      | (Some bytes, cbs) \<Rightarrow>
          (case CBS_is_valid_asn1_integer bytes of
             None \<Rightarrow> (None, cbs)
           | Some is_negative \<Rightarrow>
               let len = CBS_len bytes in
               if len > 8 then (None, cbs)
               else let sign_extend = replicate 8 (if is_negative then 0xff else 0);
                        sign_extend = take (8 - unat len) sign_extend @
                          take (unat len) (CBS_data bytes)
                    in (Some (load_be sign_extend), cbs)))"

definition CBS_get_asn1_bool :: "bool cbs_get" where
  "CBS_get_asn1_bool cbs =
     (case CBS_get_asn1 cbs CBS_ASN1_BOOLEAN of
        (None, cbs) \<Rightarrow> (None, cbs)
      | (Some bytes, cbs) \<Rightarrow>
          if CBS_len bytes \<noteq> 1 then (None, cbs)
          else let value = CBS_data bytes ! 0 in
               if value \<noteq> 0 \<and> value \<noteq> 0xff then (None, cbs) else (Some (value \<noteq> 0), cbs))"

text \<open>
  \<open>Some None\<close> when the element is absent; otherwise \<open>Some (Some out)\<close>.
\<close>

definition CBS_get_optional_asn1 :: "CBS \<Rightarrow> CBS_ASN1_TAG \<Rightarrow> CBS option option \<times> CBS" where
  "CBS_get_optional_asn1 cbs tag =
     (if CBS_peek_asn1_tag cbs tag then
        (case CBS_get_asn1 cbs tag of
           (None, cbs) \<Rightarrow> (None, cbs) | (Some out, cbs) \<Rightarrow> (Some (Some out), cbs))
      else (Some None, cbs))"

definition CBS_get_optional_asn1_octet_string ::
  "CBS \<Rightarrow> CBS_ASN1_TAG \<Rightarrow> (CBS \<times> bool) option \<times> CBS" where
  "CBS_get_optional_asn1_octet_string cbs tag =
     (case CBS_get_optional_asn1 cbs tag of
        (None, cbs) \<Rightarrow> (None, cbs)
      | (Some (Some child), cbs) \<Rightarrow>
          (case CBS_get_asn1 child CBS_ASN1_OCTETSTRING of
             (None, _) \<Rightarrow> (None, cbs)
           | (Some out, child) \<Rightarrow>
               if CBS_len child \<noteq> 0 then (None, cbs) else (Some (out, True), cbs))
      | (Some None, cbs) \<Rightarrow> (Some (CBS_init [] 0, False), cbs))"

definition CBS_get_optional_asn1_uint64 ::
  "CBS \<Rightarrow> CBS_ASN1_TAG \<Rightarrow> u64 \<Rightarrow> u64 option \<times> CBS" where
  "CBS_get_optional_asn1_uint64 cbs tag default_value =
     (case CBS_get_optional_asn1 cbs tag of
        (None, cbs) \<Rightarrow> (None, cbs)
      | (Some (Some child), cbs) \<Rightarrow>
          (case CBS_get_asn1_uint64 child of
             (None, _) \<Rightarrow> (None, cbs)
           | (Some out, child) \<Rightarrow>
               if CBS_len child \<noteq> 0 then (None, cbs) else (Some out, cbs))
      | (Some None, cbs) \<Rightarrow> (Some default_value, cbs))"

definition CBS_get_optional_asn1_bool ::
  "CBS \<Rightarrow> CBS_ASN1_TAG \<Rightarrow> int \<Rightarrow> int option \<times> CBS" where
  "CBS_get_optional_asn1_bool cbs tag default_value =
     (case CBS_get_optional_asn1 cbs tag of
        (None, cbs) \<Rightarrow> (None, cbs)
      | (Some (Some child), cbs) \<Rightarrow>
          (case CBS_get_asn1 child CBS_ASN1_BOOLEAN of
             (None, _) \<Rightarrow> (None, cbs)
           | (Some child2, child) \<Rightarrow>
               if CBS_len child2 \<noteq> 1 \<or> CBS_len child \<noteq> 0 then (None, cbs)
               else let boolean = CBS_data child2 ! 0 in
                    if boolean = 0 then (Some 0, cbs)
                    else if boolean = 0xff then (Some 1, cbs)
                    else (None, cbs))
      | (Some None, cbs) \<Rightarrow> (Some default_value, cbs))"

section \<open>Validity of contents\<close>

definition CBS_is_valid_asn1_bitstring :: "CBS \<Rightarrow> bool" where
  "CBS_is_valid_asn1_bitstring cbs =
     (case CBS_get_u8 cbs of
        (None, _) \<Rightarrow> False
      | (Some num_unused_bits, inp) \<Rightarrow>
          if num_unused_bits > 7 then False
          else if num_unused_bits = 0 then True
          else case CBS_get_last_u8 inp of
                 (None, _) \<Rightarrow> False
               | (Some lastb, _) \<Rightarrow> lastb AND (push_bit (unat num_unused_bits) 1 - 1) = 0)"

definition CBS_asn1_bitstring_has_bit :: "CBS \<Rightarrow> u32 \<Rightarrow> bool" where
  "CBS_asn1_bitstring_has_bit cbs bitn =
     (if \<not> CBS_is_valid_asn1_bitstring cbs then False
      else let byte_num = drop_bit 3 bitn + 1; bit_num = 7 - (bitn AND 7) in
           ucast byte_num < CBS_len cbs \<and>
           CBS_data cbs ! unat byte_num AND push_bit (unat bit_num) 1 \<noteq> 0)"

text \<open>The loop of \<open>CBS_is_valid_asn1_oid\<close> over the bytes, with the variable \<open>prev\<close>.\<close>

function valid_oid_loop :: "u8 \<Rightarrow> CBS \<Rightarrow> bool" where
  "valid_oid_loop prev copy =
     (case CBS_get_u8 copy of
        (None, _) \<Rightarrow> prev AND 0x80 = 0
      | (Some v, copy') \<Rightarrow>
          if prev AND 0x80 = 0 \<and> v = 0x80 then False else valid_oid_loop v copy')"
  by pat_completeness auto
termination
  by (relation "measure (\<lambda>(prev, cbs). unat (CBS_len cbs))")
    (auto simp: CBS_get_u8_def cbs_get_def unat_dec split: if_splits option.splits prod.splits)

declare valid_oid_loop.simps [simp del]

definition CBS_is_valid_asn1_oid :: "CBS \<Rightarrow> bool" where
  "CBS_is_valid_asn1_oid cbs = (if CBS_len cbs = 0 then False else valid_oid_loop 0 cbs)"

end
