(* ===== verification/Der.thy ===== *)
theory Der
  imports Cbs_Asn1
begin

text \<open>
  Base-128 integers and ASN.1 tags: the encoders, the parsers on byte lists, the readers of
  cbs.c as instances of \<open>cbs_reader\<close>, and the uniqueness of the encodings.
\<close>

section \<open>Base-128 integers\<close>

fun base128_spec :: "nat \<Rightarrow> nat parser" where
  "base128_spec v [] = None"
| "base128_spec v (b # bs) =
     (if 2 ^ 57 \<le> v \<or> v = 0 \<and> b = 0x80 then None
      else if 128 \<le> unat b then base128_spec (v * 128 + unat b mod 128) bs
      else Some (v * 128 + unat b, bs))"

text \<open>The encoding: seven bits to a byte, all but the last byte with the top bit set.\<close>

fun base128_hi :: "nat \<Rightarrow> u8 list" where
  "base128_hi n = (if n = 0 then [] else base128_hi (n div 128) @ [word_of_nat (128 + n mod 128)])"

declare base128_hi.simps [simp del]

lemma base128_hi_0 [simp]: "base128_hi 0 = []"
  by (simp add: base128_hi.simps)

definition base128 :: "nat \<Rightarrow> u8 list" where
  "base128 v = base128_hi (v div 128) @ [word_of_nat (v mod 128)]"

lemma unat_base128_byte:
  "unat (word_of_nat (128 + n mod 128) :: u8) = 128 + n mod 128"
  "unat (word_of_nat (n mod 128) :: u8) = n mod 128"
  by (rule unat_eq_of_nat; simp; presburger)+

lemma base128_hi_snoc:
  "128 \<le> unat b \<Longrightarrow> \<not> (acc = 0 \<and> b = 0x80) \<Longrightarrow>
     base128_hi (acc * 128 + unat b mod 128) = base128_hi acc @ [b]"
proof -
  assume b: "128 \<le> unat b" "\<not> (acc = 0 \<and> b = 0x80)"
  let ?n = "acc * 128 + unat b mod 128"
  have "unat b - 128 < 128" using b(1) unat_u8_less [of b] by linarith
  then have ub: "unat b = 128 + unat b mod 128"
    using b(1) by (simp add: le_mod_geq)
  have "?n \<noteq> 0"
  proof
    assume "?n = 0"
    with ub have "unat b = unat (0x80 :: u8)" "acc = 0" by simp_all
    with b(2) show False by (simp add: word_nat_eqI)
  qed
  moreover have "?n div 128 = acc" "?n mod 128 = unat b mod 128" by simp_all
  moreover have "word_of_nat (128 + unat b mod 128) = b"
    by (rule word_nat_eqI) (metis ub unat_base128_byte(1))
  ultimately show ?thesis by (simp add: base128_hi.simps [of ?n])
qed

lemma base128_spec_hi:
  "n < 2 ^ 57 \<Longrightarrow> base128_spec 0 (base128_hi n @ bs) = base128_spec n bs"
proof (induction n arbitrary: bs rule: base128_hi.induct)
  case (1 n)
  show ?case
  proof (cases "n = 0")
    case False
    let ?b = "word_of_nat (128 + n mod 128) :: u8"
    have b: "unat ?b = 128 + n mod 128" by (rule unat_base128_byte(1))
    have "\<not> (n div 128 = 0 \<and> ?b = 0x80)"
    proof
      assume "n div 128 = 0 \<and> ?b = 0x80"
      with b have "n < 128" "n mod 128 = 0" by auto
      with False show False by simp
    qed
    moreover have "n div 128 < 2 ^ 57" "\<not> 2 ^ 57 \<le> n div 128" using 1(2) by auto
    ultimately show ?thesis
      using "1.IH" [OF False, of "?b # bs"] b False
      by (subst base128_hi.simps) (auto simp: mult.commute)
  qed simp
qed

lemma base128_spec_complete:
  "v < 2 ^ 64 \<Longrightarrow> base128_spec 0 (base128 v @ rest) = Some (v, rest)"
proof -
  assume v: "v < 2 ^ 64"
  have "word_of_nat (v mod 128) \<noteq> (0x80 :: u8)"
  proof
    assume "word_of_nat (v mod 128) = (0x80 :: u8)"
    then have "unat (word_of_nat (v mod 128) :: u8) = unat (0x80 :: u8)" by (rule arg_cong)
    then show False using mod_less_divisor [of 128 v] unfolding unat_base128_byte by simp
  qed
  moreover have m: "(128 \<le> v mod 128) = False" by (simp add: not_le)
  ultimately show ?thesis
    using v base128_spec_hi [of "v div 128" "word_of_nat (v mod 128) # rest"]
    by (simp add: base128_def unat_base128_byte m not_le mult.commute)
qed

lemma base128_spec_sound:
  "base128_spec acc bs = Some (v, rest) \<Longrightarrow>
     v < 2 ^ 64 \<and> (\<exists>pre. bs = pre @ rest \<and> base128 v = base128_hi acc @ pre)"
proof (induction acc bs rule: base128_spec.induct)
  case (2 acc b bs)
  show ?case
  proof (cases "128 \<le> unat b")
    case True
    with "2.prems" have ok: "\<not> (acc = 0 \<and> b = 0x80)" "\<not> 2 ^ 57 \<le> acc"
        "base128_spec (acc * 128 + unat b mod 128) bs = Some (v, rest)"
      by (auto split: if_splits)
    with "2.IH" True base128_hi_snoc [OF True ok(1)] show ?thesis by auto
  next
    case False
    with "2.prems" have ok: "acc < 2 ^ 57" "v = acc * 128 + unat b" "bs = rest"
      by (auto split: if_splits)
    with False have "v mod 128 = unat b" "v div 128 = acc" "v < 2 ^ 64" by auto
    with ok(3) show ?thesis by (auto simp: base128_def)
  qed
qed simp

text \<open>The accepted base-128 integers are the minimal encodings of the numbers below \<open>2\<^sup>6\<^sup>4\<close>.\<close>

lemma base128_spec_iff:
  "base128_spec 0 bs = Some (v, rest) \<longleftrightarrow> v < 2 ^ 64 \<and> bs = base128 v @ rest"
  using base128_spec_sound [of 0 bs v rest] base128_spec_complete [of v rest] by auto

lemma base128_spec_suffix: "base128_spec v bs = Some (x, rest) \<Longrightarrow> suffix rest bs"
  by (induction v bs rule: base128_spec.induct) (auto simp: suffix_ConsI split: if_splits)

lemma length_base128_hi: "n < 128 ^ k \<Longrightarrow> length (base128_hi n) \<le> k"
proof (induction k arbitrary: n)
  case (Suc k)
  then have "n div 128 < 128 ^ k" by (simp add: div_less_iff_less_mult mult.commute)
  with Suc.IH show ?case by (subst base128_hi.simps) simp
qed (simp add: base128_hi.simps)

lemma length_base128: "v < 128 ^ Suc k \<Longrightarrow> length (base128 v) \<le> Suc k"
  using length_base128_hi [of "v div 128" k]
  by (simp add: base128_def div_less_iff_less_mult mult.commute)

section \<open>The base-128 reader\<close>

lemma CBS_get_u8_cases:
  assumes "cbs_wf cbs"
  obtains "CBS_get_u8 cbs = (None, cbs)" "cbs_bytes cbs = []"
  | b cbs' where "CBS_get_u8 cbs = (Some b, cbs')" "cbs_wf cbs'" "cbs_bytes cbs = b # cbs_bytes cbs'"
proof (cases "cbs_bytes cbs")
  case Nil
  then have "CBS_len cbs = 0" using assms by (simp add: cbs_bytes_Nil_iff)
  then have "CBS_get_u8 cbs = (None, cbs)" by (simp add: CBS_get_u8_def cbs_get_def)
  with Nil that(1) show ?thesis by blast
next
  case (Cons b bs)
  then show ?thesis using rd_u8.get_accepts [OF assms, of b bs] that(2) by auto
qed

lemma unat_base128_step:
  assumes "unat v < 2 ^ 57"
  shows "unat (push_bit 7 v OR ucast (b AND 0x7f :: u8) :: u64) = unat v * 128 + unat b mod 128"
proof -
  have "push_bit 7 (unat v) < 2 ^ 64" using assms by (simp add: push_bit_eq_mult)
  moreover have "unat b mod 128 < 2 ^ 7" by simp
  ultimately show ?thesis
    by (simp add: unsigned_or_eq unsigned_push_bit_eq unat_ucast_up byte_and_7f
        take_bit_nat_eq_self or_low_high)
qed

lemma base128_loop_spec:
  assumes "cbs_wf cbs"
  shows "case base128_spec (unat v) (cbs_bytes cbs) of
      None \<Rightarrow> \<exists>c. base128_loop v cbs = (None, c) \<and> cbs_wf c \<and> suffix (cbs_bytes c) (cbs_bytes cbs)
    | Some (x, rest) \<Rightarrow> \<exists>a c. base128_loop v cbs = (Some a, c) \<and> unat a = x \<and>
        cbs_wf c \<and> cbs_bytes c = rest"
  using assms
proof (induction v cbs rule: base128_loop.induct)
  case (1 v cbs)
  note loop = base128_loop.simps [of v cbs]
  show ?case using "1.prems"
  proof (cases rule: CBS_get_u8_cases)
    case 1
    then show ?thesis using "1.prems" by (simp add: loop)
  next
    case (2 b c)
    let ?v = "push_bit 7 v OR ucast (b AND 0x7f) :: u64"
    have d: "drop_bit (64 - 7) v \<noteq> 0 \<longleftrightarrow> 2 ^ 57 \<le> unat v"
      by (simp add: word_unat_eq_iff unat_drop_bit_div div_eq_0_iff not_less)
    have z: "v = 0 \<longleftrightarrow> unat v = 0" by (simp add: unat_eq_zero)
    show ?thesis
    proof (cases "2 ^ 57 \<le> unat v \<or> unat v = 0 \<and> b = 0x80")
      case True
      then have "base128_loop v cbs = (None, c)"
        using 2(1) d z unfolding loop by auto
      with True 2 show ?thesis by (auto simp: suffix_ConsI)
    next
      case False
      have uv: "unat ?v = unat v * 128 + unat b mod 128"
        using False by (intro unat_base128_step) linarith
      have l: "base128_loop v cbs = (if b AND 0x80 \<noteq> 0 then base128_loop ?v c else (Some ?v, c))"
        using 2(1) False d z unfolding loop by (auto simp: Let_def)
      show ?thesis
      proof (cases "128 \<le> unat b")
        case True
        then have "base128_loop v cbs = base128_loop ?v c" using l byte_and_80 [of b] by simp
        moreover have "case base128_spec (unat ?v) (cbs_bytes c) of
            None \<Rightarrow> \<exists>c'. base128_loop ?v c = (None, c') \<and> cbs_wf c' \<and> suffix (cbs_bytes c') (cbs_bytes c)
          | Some (x, rest) \<Rightarrow> \<exists>a c'. base128_loop ?v c = (Some a, c') \<and> unat a = x \<and>
              cbs_wf c' \<and> cbs_bytes c' = rest"
          using "1.IH" [OF 2(1) [symmetric] refl _ _ refl _ 2(2)] False d z True byte_and_80 [of b]
          by (simp add: not_less)
        ultimately show ?thesis
          using False True 2(3) uv by (auto simp: suffix_ConsI split: option.splits)
      next
        case small: False
        then have "base128_loop v cbs = (Some ?v, c)" using l byte_and_80 [of b] by simp
        with False small 2 uv show ?thesis by (auto simp: not_le)
      qed
    qed
  qed
qed

interpretation rd_base128: cbs_reader parse_base128_integer "\<lambda>_. True" unat "base128_spec 0"
proof
  fix cbs x rest
  assume "cbs_wf cbs" "base128_spec 0 (cbs_bytes cbs) = Some (x, rest)"
  then show "\<exists>a cbs'. parse_base128_integer cbs = (Some a, cbs') \<and> True \<and> unat a = x \<and>
      cbs_wf cbs' \<and> cbs_bytes cbs' = rest"
    using base128_loop_spec [of cbs 0] by (simp add: parse_base128_integer_def)
next
  fix cbs
  assume "cbs_wf cbs" "base128_spec 0 (cbs_bytes cbs) = None"
  then show "\<exists>cbs'. parse_base128_integer cbs = (None, cbs') \<and> cbs_wf cbs' \<and>
      suffix (cbs_bytes cbs') (cbs_bytes cbs)"
    using base128_loop_spec [of cbs 0] by (simp add: parse_base128_integer_def)
qed (rule base128_spec_suffix)

section \<open>Tags\<close>

text \<open>
  A tag is its class and constructed bits, three bits, above a tag number of 29 bits. The tag
  number 0 of the universal class is reserved.
\<close>

definition reserved_tag :: "CBS_ASN1_TAG \<Rightarrow> bool" where
  "reserved_tag tag \<longleftrightarrow> tag = 0 \<or> tag = CBS_ASN1_CONSTRUCTED"

definition make_tag :: "u8 \<Rightarrow> nat \<Rightarrow> CBS_ASN1_TAG" where
  "make_tag b n = word_of_nat (unat b div 32 * 536870912 + n)"

definition tag_bytes :: "CBS_ASN1_TAG \<Rightarrow> u8 list" where
  "tag_bytes tag =
     (let c = unat tag div 536870912; n = unat tag mod 536870912 in
      if n < 31 then [word_of_nat (32 * c + n)] else word_of_nat (32 * c + 31) # base128 n)"

definition tag_number_spec :: "u8 \<Rightarrow> nat parser" where
  "tag_number_spec b bs =
     (if unat b mod 32 = 31 then
        (case base128_spec 0 bs of
           None \<Rightarrow> None
         | Some (v, r) \<Rightarrow> if 31 \<le> v \<and> v < 536870912 then Some (v, r) else None)
      else Some (unat b mod 32, bs))"

fun tag_spec :: "CBS_ASN1_TAG parser" where
  "tag_spec [] = None"
| "tag_spec (b # bs) =
     (case tag_number_spec b bs of
        None \<Rightarrow> None
      | Some (n, r) \<Rightarrow> if reserved_tag (make_tag b n) then None else Some (make_tag b n, r))"

lemma CBS_ASN1_CONSTRUCTED_bit: "CBS_ASN1_CONSTRUCTED = push_bit 29 1"
  by (simp add: CBS_ASN1_CONSTRUCTED_def CBS_ASN1_TAG_SHIFT_def)

lemma and_not_bit_0_iff:
  "x AND NOT (push_bit k 1) = 0 \<longleftrightarrow> x = 0 \<or> x = push_bit k 1" if "k < LENGTH('a)"
  for x :: "'a::len word"
proof
  assume "x AND NOT (push_bit k 1) = 0"
  then have "bit (x AND NOT (push_bit k 1)) i = bit (0 :: 'a word) i" for i by simp
  then have off: "i = k" if "bit x i" for i
    using that bit_imp_le_length [OF that]
    by (auto simp: bit_and_iff bit_not_iff bit_exp_iff)
  show "x = 0 \<or> x = push_bit k 1"
  proof (cases "bit x k")
    case True
    then have "bit x i \<longleftrightarrow> i = k" for i using off by blast
    then have "x = push_bit k 1"
      using that by (intro bit_word_eqI) (simp add: bit_exp_iff eq_commute [of k])
    then show ?thesis ..
  next
    case False
    then have "x = 0" using off by (intro bit_word_eqI) auto
    then show ?thesis ..
  qed
qed auto

lemma reserved_tag_iff: "tag AND NOT CBS_ASN1_CONSTRUCTED = 0 \<longleftrightarrow> reserved_tag tag"
  unfolding CBS_ASN1_CONSTRUCTED_bit reserved_tag_def by (rule and_not_bit_0_iff) simp

lemma unat_make_tag:
  "n < 536870912 \<Longrightarrow> unat (make_tag b n) = unat b div 32 * 536870912 + n"
proof -
  assume "n < 536870912"
  moreover have "unat b div 32 < 8" using unat_u8_less [of b] by linarith
  ultimately have "unat b div 32 * 536870912 + n < 4294967296" by linarith
  then show ?thesis unfolding make_tag_def by (intro unat_eq_of_nat) simp
qed

lemma make_tag_or:
  "v < 536870912 \<Longrightarrow> push_bit CBS_ASN1_TAG_SHIFT (ucast b AND 0xe0) OR word_of_nat v = make_tag b v"
proof -
  assume v: "v < 536870912"
  have "unat (word_of_nat v :: u32) = v" using v by (intro unat_eq_of_nat) simp
  moreover have "unat b div 32 * 536870912 OR v = unat b div 32 * 536870912 + v"
    using or_low_high [of v 29 "unat b div 32"] v by (simp add: push_bit_eq_mult)
  ultimately show ?thesis
    using v unfolding CBS_ASN1_TAG_SHIFT_def
    by (intro word_nat_eqI) (simp only: unsigned_or_eq byte_tag_class unat_make_tag)
qed

lemma tag_number_spec_bound:
  "tag_number_spec b bs = Some (n, r) \<Longrightarrow> n < 536870912"
  by (auto simp: tag_number_spec_def split: if_splits option.splits)

lemma tag_bytes_make_tag:
  "n < 536870912 \<Longrightarrow> tag_bytes (make_tag b n) =
     (if n < 31 then [word_of_nat (32 * (unat b div 32) + n)]
      else word_of_nat (32 * (unat b div 32) + 31) # base128 n)"
  by (simp add: tag_bytes_def unat_make_tag)

lemma byte_of_parts:
  "word_of_nat (32 * (unat b div 32) + unat b mod 32) = (b :: u8)"
  by simp

lemma tag_number_bytes:
  assumes "tag_number_spec b bs = Some (n, r)"
  shows "b # bs = tag_bytes (make_tag b n) @ r"
proof (cases "unat b mod 32 = 31")
  case True
  with assms have "base128_spec 0 bs = Some (n, r)" "31 \<le> n" "n < 536870912"
    by (auto simp: tag_number_spec_def split: option.splits if_splits)
  then show ?thesis
    using byte_of_parts [of b] True by (simp add: tag_bytes_make_tag base128_spec_iff)
next
  case False
  then have "n = unat b mod 32" "r = bs" "n < 31"
    using assms by (auto simp: tag_number_spec_def)
  then show ?thesis using byte_of_parts [of b] by (simp add: tag_bytes_make_tag)
qed

lemma tag_spec_sound:
  "tag_spec bs = Some (tag, rest) \<Longrightarrow> \<not> reserved_tag tag \<and> bs = tag_bytes tag @ rest"
  by (cases bs) (auto dest!: tag_number_bytes split: option.splits if_splits)

lemma tag_spec_complete:
  assumes "\<not> reserved_tag tag"
  shows "tag_spec (tag_bytes tag @ rest) = Some (tag, rest)"
proof -
  let ?c = "unat tag div 536870912" and ?n = "unat tag mod 536870912"
  have c: "?c < 8" using unat_u32_less [of tag] by linarith
  have byte: "unat (word_of_nat (32 * ?c + k) :: u8) = 32 * ?c + k" if "k < 32" for k
    using c that by (intro unat_eq_of_nat) simp
  have make: "make_tag (word_of_nat (32 * ?c + k)) ?n = tag" if "k < 32" for k
    using that byte [OF that] by (intro word_nat_eqI) (simp add: unat_make_tag)
  have "\<exists>k<32. tag_bytes tag @ rest = word_of_nat (32 * ?c + k) #
      (if ?n < 31 then rest else base128 ?n @ rest) \<and> k = min ?n 31"
    by (auto simp: tag_bytes_def Let_def)
  then obtain k where k: "k < 32" "k = min ?n 31"
    "tag_bytes tag @ rest = word_of_nat (32 * ?c + k) # (if ?n < 31 then rest else base128 ?n @ rest)"
    by blast
  have "?n < 536870912" by simp
  then have "?n < 2 ^ 64" by (rule order.strict_trans) simp
  then have "tag_number_spec (word_of_nat (32 * ?c + k)) (if ?n < 31 then rest else base128 ?n @ rest)
      = Some (?n, rest)"
    using k(1,2) byte [OF k(1)] by (simp add: tag_number_spec_def base128_spec_complete)
  with assms k make [OF k(1)] show ?thesis by simp
qed

text \<open>The accepted tags are the minimal encodings of the tags that are not reserved.\<close>

lemma tag_spec_iff:
  "tag_spec bs = Some (tag, rest) \<longleftrightarrow> \<not> reserved_tag tag \<and> bs = tag_bytes tag @ rest"
  using tag_spec_sound tag_spec_complete by blast

lemma tag_spec_suffix: "tag_spec bs = Some (tag, rest) \<Longrightarrow> suffix rest bs"
  by (simp add: tag_spec_iff suffix_def)

lemma length_tag_bytes: "length (tag_bytes tag) \<le> 6"
  using length_base128 [of "unat tag mod 536870912" 4]
    mod_less_divisor [of 536870912 "unat tag"]
  by (simp add: tag_bytes_def Let_def)

section \<open>The tag reader\<close>

lemma cbs_reader_checked:
  "cbs_reader (\<lambda>cbs. if P then (None, cbs) else (Some a, cbs)) (\<lambda>_. True) (\<lambda>x. x)
     (\<lambda>bs. if P then None else Some (a, bs))"
  by unfold_locales (auto split: if_splits)

definition tag_rest :: "u8 \<Rightarrow> nat \<Rightarrow> CBS_ASN1_TAG cbs_get" where
  "tag_rest b n cbs =
     (if reserved_tag (make_tag b n) then (None, cbs) else (Some (make_tag b n), cbs))"

definition tag_number_get :: "u8 \<Rightarrow> nat cbs_get" where
  "tag_number_get b cbs =
     (if unat b mod 32 = 31 then
        (case parse_base128_integer cbs of
           (None, cbs) \<Rightarrow> (None, cbs)
         | (Some v, cbs) \<Rightarrow>
             if 31 \<le> unat v \<and> unat v < 536870912 then (Some (unat v), cbs) else (None, cbs))
      else (Some (unat b mod 32), cbs))"

lemma parse_asn1_tag_eq:
  "parse_asn1_tag cbs =
     (case CBS_get_u8 cbs of
        (None, cbs) \<Rightarrow> (None, cbs)
      | (Some b, cbs) \<Rightarrow>
          (case tag_number_get b cbs of
             (None, cbs) \<Rightarrow> (None, cbs) | (Some n, cbs) \<Rightarrow> tag_rest b n cbs))"
proof -
  have low: "(ucast (b AND 0x1f :: u8) :: u32) = word_of_nat (unat b mod 32)" for b
    by (rule word_nat_eqI, subst unat_eq_of_nat)
      (simp_all add: unat_ucast_up byte_and_1f order.strict_trans [OF mod_less_divisor])
  have high: "(ucast v :: u32) = word_of_nat (unat v)" for v :: u64
    by simp
  have r: "(v > ucast CBS_ASN1_TAG_NUMBER_MASK \<or> v < 0x1f) \<longleftrightarrow> \<not> (31 \<le> unat v \<and> unat v < 536870912)"
    for v :: u64
    by (auto simp: CBS_ASN1_TAG_NUMBER_MASK_def CBS_ASN1_TAG_SHIFT_def word_less_nat_alt)
  have m: "(ucast (b AND 0x1f :: u8) :: u32) = 0x1f \<longleftrightarrow> unat b mod 32 = 31" for b
    unfolding word_unat_eq_iff by (simp add: unat_ucast_up byte_and_1f)
  have or_low: "push_bit CBS_ASN1_TAG_SHIFT (ucast b AND 0xe0) OR ucast (b AND 0x1f) =
      make_tag b (unat b mod 32)" for b :: u8
    unfolding low by (rule make_tag_or) (simp add: order.strict_trans [OF mod_less_divisor])
  have or_high: "push_bit CBS_ASN1_TAG_SHIFT (ucast b AND 0xe0) OR ucast v = make_tag b (unat v)"
    if "unat v < 536870912" for b :: u8 and v :: u64
    unfolding high by (rule make_tag_or [OF that])
  obtain x c where x: "CBS_get_u8 cbs = (x, c)" by fastforce
  obtain y d where y: "parse_base128_integer c = (y, d)" by fastforce
  show ?thesis
    unfolding parse_asn1_tag_def tag_number_get_def tag_rest_def Let_def reserved_tag_iff m r x
    by (cases x; cases y) (simp_all add: or_low or_high y del: push_bit_and)
qed

lemma tag_number_spec_suffix: "tag_number_spec b bs = Some (n, r) \<Longrightarrow> suffix r bs"
  by (auto simp: tag_number_spec_def dest: base128_spec_suffix split: if_splits option.splits)

lemma cbs_reader_tag_number:
  "cbs_reader (tag_number_get b) (\<lambda>_. True) (\<lambda>x. x) (tag_number_spec b)"
proof (cases "unat b mod 32 = 31")
  case True
  have "cbs_reader (\<lambda>cbs. case parse_base128_integer cbs of
           (None, cbs) \<Rightarrow> (None, cbs)
         | (Some v, cbs) \<Rightarrow>
             if \<not> (31 \<le> unat v \<and> unat v < 536870912) then (None, cbs) else (Some (unat v), cbs))
     (\<lambda>_. True) (\<lambda>x. x) (\<lambda>bs. Option.bind (base128_spec 0 bs) (\<lambda>(v, r).
       if \<not> (31 \<le> v \<and> v < 536870912) then None else Some (v, r)))"
    by (rule cbs_reader_bind [OF rd_base128.cbs_reader_axioms])
      (rule cbs_reader_checked, auto split: if_splits)
  moreover have "tag_number_get b = (\<lambda>cbs. case parse_base128_integer cbs of
           (None, cbs) \<Rightarrow> (None, cbs)
         | (Some v, cbs) \<Rightarrow>
             if \<not> (31 \<le> unat v \<and> unat v < 536870912) then (None, cbs) else (Some (unat v), cbs))"
    using True by (auto simp: fun_eq_iff tag_number_get_def split: option.splits prod.splits)
  moreover have "tag_number_spec b = (\<lambda>bs. Option.bind (base128_spec 0 bs) (\<lambda>(v, r).
       if \<not> (31 \<le> v \<and> v < 536870912) then None else Some (v, r)))"
    using True by (auto simp: fun_eq_iff tag_number_spec_def split: option.splits)
  ultimately show ?thesis by simp
next
  case False
  then show ?thesis
    by unfold_locales (auto simp: tag_number_get_def tag_number_spec_def)
qed

interpretation rd_tag: cbs_reader parse_asn1_tag "\<lambda>_. True" "\<lambda>x. x" tag_spec
proof -
  let ?fin = "\<lambda>b n bs. if reserved_tag (make_tag b n) then None else Some (make_tag b n, bs)"
  have "cbs_reader (\<lambda>cbs. case tag_number_get b cbs of
      (None, cbs) \<Rightarrow> (None, cbs) | (Some n, cbs) \<Rightarrow> tag_rest b n cbs) (\<lambda>_. True) (\<lambda>x. x)
      (\<lambda>bs. Option.bind (tag_number_spec b bs) (\<lambda>(n, r). ?fin b n r))" for b
    by (rule cbs_reader_bind [OF cbs_reader_tag_number])
      (simp_all add: tag_rest_def [abs_def] cbs_reader_checked split: if_splits)
  then have "cbs_reader parse_asn1_tag (\<lambda>_. True) (\<lambda>x. x) (\<lambda>bs. Option.bind (u8_spec bs)
      (\<lambda>(b, r). Option.bind (tag_number_spec b r) (\<lambda>(n, r). ?fin b n r)))"
    unfolding parse_asn1_tag_eq [abs_def]
    by (rule cbs_reader_bind [OF rd_u8.cbs_reader_axioms])
      (auto simp: Option.bind_eq_Some_conv dest: tag_number_spec_suffix split: if_splits)
  moreover have "Option.bind (u8_spec bs) (\<lambda>(b, r). Option.bind (tag_number_spec b r)
      (\<lambda>(n, r). ?fin b n r)) = tag_spec bs" for bs
    by (cases bs) (auto split: option.splits)
  ultimately show "cbs_reader parse_asn1_tag (\<lambda>_. True) (\<lambda>x. x) tag_spec" by simp
qed

lemma CBS_peek_asn1_tag_iff:
  "cbs_wf cbs \<Longrightarrow> CBS_peek_asn1_tag cbs tag \<longleftrightarrow>
     \<not> reserved_tag tag \<and> prefix (tag_bytes tag) (cbs_bytes cbs)"
  using rd_tag.get_accepts [of cbs] rd_tag.get_rejects [of cbs]
  by (cases "tag_spec (cbs_bytes cbs)")
    (auto simp: CBS_peek_asn1_tag_def tag_spec_iff prefix_def tag_spec_complete)

end
