(* ===== verification/Der_Element.thy ===== *)
theory Der_Element
  imports Der
begin

text \<open>
  ASN.1 elements: what \<open>cbs_get_any_asn1_element\<close> accepts in DER and in BER mode, as a
  parser on byte lists, and the uniqueness of the DER encoding.
\<close>

section \<open>Elements\<close>

text \<open>A length: definite, with the flag that it is not minimally encoded, or indefinite.\<close>

datatype asn1_len = Definite nat bool | Indefinite

definition len_spec :: "bool \<Rightarrow> bool \<Rightarrow> asn1_len parser" where
  "len_spec ber_ok constructed bs =
     (case bs of
        [] \<Rightarrow> None
      | b # r \<Rightarrow>
          if unat b < 128 then Some (Definite (unat b) False, r)
          else let k = unat b - 128 in
            if ber_ok \<and> constructed \<and> k = 0 then Some (Indefinite, r)
            else if k = 0 \<or> 4 < k then None
            else case u_spec k r of
                   None \<Rightarrow> None
                 | Some (n, r) \<Rightarrow>
                     let not_minimal = n < 128 \<or> n < 256 ^ (k - 1) in
                     if not_minimal \<and> \<not> ber_ok then None else Some (Definite n not_minimal, r))"

text \<open>The tag, the header, the contents, and the flags \<open>ber_found\<close> and \<open>indefinite\<close>.\<close>

type_synonym element_view = "CBS_ASN1_TAG \<times> u8 list \<times> u8 list \<times> bool \<times> bool"

definition element_spec :: "bool \<Rightarrow> element_view parser" where
  "element_spec ber_ok bs =
     (case tag_spec bs of
        None \<Rightarrow> None
      | Some (tag, r1) \<Rightarrow>
          (case len_spec ber_ok (tag AND CBS_ASN1_CONSTRUCTED \<noteq> 0) r1 of
             None \<Rightarrow> None
           | Some (l, r2) \<Rightarrow>
               let header = take (length bs - length r2) bs in
               (case l of
                  Indefinite \<Rightarrow> Some ((tag, header, [], True, True), r2)
                | Definite n not_minimal \<Rightarrow>
                    if n \<le> length r2
                    then Some ((tag, header, take n r2, not_minimal, False), drop n r2)
                    else None)))"

definition element_view :: "asn1_element \<Rightarrow> element_view" where
  "element_view el =
     (let bs = cbs_bytes (el_out el); h = unat (el_header_len el)
      in (el_tag el, take h bs, drop h bs, el_ber_found el, el_indefinite el))"

definition element_ok :: "asn1_element \<Rightarrow> bool" where
  "element_ok el \<longleftrightarrow> cbs_wf (el_out el) \<and> el_header_len el \<le> CBS_len (el_out el)"

lemma len_spec_suffix: "len_spec ber c bs = Some (l, rest) \<Longrightarrow> suffix rest bs"
  by (auto simp: len_spec_def u_spec_def Let_def suffix_def split: list.splits if_splits option.splits)

lemma element_spec_suffix: "element_spec ber bs = Some (x, rest) \<Longrightarrow> suffix rest bs"
  by (auto simp: element_spec_def Let_def suffix_drop split: option.splits if_splits asn1_len.splits
      dest!: tag_spec_suffix len_spec_suffix)
    (meson suffix_drop suffix_order.trans)+

text \<open>The outcome of a reader on a given view, to chain the cases of an element.\<close>

definition reads :: "'a option \<times> CBS \<Rightarrow> CBS \<Rightarrow> ('a \<Rightarrow> bool) \<Rightarrow> ('a \<Rightarrow> 'b) \<Rightarrow> ('b \<times> u8 list) option \<Rightarrow> bool" where
  "reads res cbs ok view x \<longleftrightarrow>
     (case x of
        None \<Rightarrow> \<exists>c. res = (None, c) \<and> cbs_wf c \<and> suffix (cbs_bytes c) (cbs_bytes cbs)
      | Some (y, rest) \<Rightarrow> \<exists>a c. res = (Some a, c) \<and> ok a \<and> view a = y \<and> cbs_wf c \<and> cbs_bytes c = rest)"

lemma reads_cbs_readerI:
  assumes "\<And>cbs. cbs_wf cbs \<Longrightarrow> reads (get cbs) cbs ok view (spec (cbs_bytes cbs))"
    and "\<And>bs x rest. spec bs = Some (x, rest) \<Longrightarrow> suffix rest bs"
  shows "cbs_reader get ok view spec"
proof
  fix cbs x rest
  assume "cbs_wf cbs" "spec (cbs_bytes cbs) = Some (x, rest)"
  with assms(1) [of cbs] show "\<exists>a cbs'. get cbs = (Some a, cbs') \<and> ok a \<and> view a = x \<and> cbs_wf cbs' \<and>
      cbs_bytes cbs' = rest" by (auto simp: reads_def)
next
  fix cbs
  assume "cbs_wf cbs" "spec (cbs_bytes cbs) = None"
  with assms(1) [of cbs] show "\<exists>cbs'. get cbs = (None, cbs') \<and> cbs_wf cbs' \<and>
      suffix (cbs_bytes cbs') (cbs_bytes cbs)" by (auto simp: reads_def)
qed (rule assms(2))

lemma reads_None [simp]: "cbs_wf cbs \<Longrightarrow> reads (None, cbs) cbs ok view None"
  by (simp add: reads_def)

lemma reads_element_bytes:
  assumes wf: "cbs_wf cbs" and bs: "cbs_bytes cbs = header @ r"
    and len: "unat len = length header + n" and hl: "unat hl = length header"
  shows "reads (case CBS_get_bytes cbs len of
          (None, cbs) \<Rightarrow> (None, cbs)
        | (Some out, cbs) \<Rightarrow> (Some \<lparr>el_out = out, el_tag = tag, el_header_len = hl,
            el_ber_found = ber, el_indefinite = indef\<rparr>, cbs)) cbs element_ok element_view
     (if n \<le> length r then Some ((tag, header, take n r, ber, indef), drop n r) else None)"
proof (cases "n \<le> length r")
  case True
  have "take_spec (unat len) (cbs_bytes cbs) = Some (header @ take n r, drop n r)"
    using True len bs by (simp only: take_spec_Some_iff) simp
  from rd_bytes.get_accepts [OF wf this] obtain out c where
    c: "CBS_get_bytes cbs len = (Some out, c)" "cbs_wf out" "cbs_bytes out = header @ take n r"
      "cbs_wf c" "cbs_bytes c = drop n r" by blast
  have "unat hl \<le> length (cbs_bytes out)" using hl c(3) by simp
  then have "hl \<le> CBS_len out" using c(2) by (simp add: word_le_nat_alt)
  with c True hl show ?thesis
    by (simp add: reads_def element_view_def element_ok_def Let_def)
next
  case False
  then have "take_spec (unat len) (cbs_bytes cbs) = None"
    using len bs by (simp add: take_spec_def)
  from rd_bytes.get_rejects [OF wf this] False show ?thesis by (auto simp: reads_def)
qed

lemma element_header_len:
  assumes "cbs_wf cbs" "cbs_wf c" "cbs_bytes cbs = header @ cbs_bytes c"
  shows "unat (CBS_len cbs - CBS_len c) = length header"
proof -
  have "unat (CBS_len cbs) = length header + unat (CBS_len c)"
    using assms length_cbs_bytes [of cbs] by (simp del: length_cbs_bytes add: assms(2) [THEN length_cbs_bytes])
  then show ?thesis by (simp add: unat_sub word_le_nat_alt)
qed

lemma len64_shift:
  "0 < unat (k :: u64) \<Longrightarrow> unat k \<le> 4 \<Longrightarrow>
     drop_bit (unat ((k - 1) * 8)) (n :: u64) = 0 \<longleftrightarrow> unat n < 256 ^ (unat k - 1)"
proof -
  assume k: "0 < unat (k :: u64)" "unat k \<le> 4"
  then have "unat (k - 1) = unat k - 1" by (simp add: unat_minus_one unat_gt_0)
  with k have "unat ((k - 1) * 8) = 8 * (unat k - 1)"
    by (simp only: unat_word_ariths(2)) simp
  then show ?thesis
    by (simp add: word_unat_eq_iff unat_drop_bit_div div_eq_0_iff power_mult)
qed

lemma reads_long_form:
  assumes wf: "cbs_wf cbs" "cbs_wf c" and bs: "cbs_bytes cbs = header @ cbs_bytes c"
    and h: "length header \<le> 7" and hl: "unat hl = length header"
    and k: "unat k = m" "0 < m" "m \<le> 4"
  shows "reads (case cbs_get_u c k of
             (None, _) \<Rightarrow> (None, cbs)
           | (Some len64, _) \<Rightarrow>
             (let not_minimal = len64 < 128 \<or> drop_bit (unat ((k - 1) * 8)) len64 = 0 in
              if not_minimal \<and> \<not> ber_ok then (None, cbs)
              else if len64 + hl + k < len64 then (None, cbs)
              else case CBS_get_bytes cbs (len64 + (hl + k)) of
                  (None, cbs) \<Rightarrow> (None, cbs)
                | (Some out, cbs) \<Rightarrow> (Some \<lparr>el_out = out, el_tag = tag, el_header_len = hl + k,
                    el_ber_found = not_minimal, el_indefinite = False\<rparr>, cbs)))
     cbs element_ok element_view
     (case u_spec m (cbs_bytes c) of
        None \<Rightarrow> None
      | Some (n, r) \<Rightarrow>
          let not_minimal = n < 128 \<or> n < 256 ^ (m - 1) in
          if not_minimal \<and> \<not> ber_ok then None
          else if n \<le> length r
               then Some ((tag, header @ take m (cbs_bytes c), take n r, not_minimal, False), drop n r)
               else None)"
proof (cases "u_spec m (cbs_bytes c)")
  case None
  with cbs_reader.get_rejects [OF cbs_reader_get_u64 [OF k(1)] wf(2)] k(3) wf(1)
  show ?thesis by fastforce
next
  case (Some p)
  obtain n r where p: "p = (n, r)" by (cases p)
  with Some cbs_reader.get_accepts [OF cbs_reader_get_u64 [OF k(1)] wf(2)] k(3)
  obtain v c' where v: "cbs_get_u c k = (Some v, c')" "unat v = n" "cbs_wf c'" "cbs_bytes c' = r"
    by fastforce
  have r: "cbs_bytes c = take m (cbs_bytes c) @ r" "length (take m (cbs_bytes c)) = m"
    and "n < 256 ^ m"
    using Some p be_val_less by (fastforce simp: u_spec_def)+
  then have n: "n < 4294967296"
    using power_increasing [of m 4 "256 :: nat"] k(3) by simp
  have hk: "unat (hl + k) = length header + m"
    using h k hl by (subst unat_add_no_wrap) simp_all
  have len: "unat (v + (hl + k)) = length (header @ take m (cbs_bytes c)) + n"
    using n h k(3) v(2) r(2) by (subst unat_add_no_wrap) (simp_all add: hk)
  have nov: "\<not> v + hl + k < v"
    using n h k(3) v(2) by (simp only: add.assoc add_wraps_iff hk) simp
  have "(v < 128 \<or> drop_bit (unat ((k - 1) * 8)) v = 0) \<longleftrightarrow> (n < 128 \<or> n < 256 ^ (m - 1))"
    using len64_shift [of k v] k v(2) by (simp add: word_less_nat_alt)
  moreover note reads_element_bytes [OF wf(1) _ len, of r "hl + k"]
  ultimately show ?thesis
    using bs r hk nov wf(1) by (simp add: Some p v(1) Let_def)
qed

text \<open>The parser by the first length byte.\<close>

lemma element_spec_after_tag:
  assumes "\<not> reserved_tag tag"
  shows "element_spec ber_ok (tag_bytes tag @ b # r) =
    (case len_spec ber_ok (tag AND CBS_ASN1_CONSTRUCTED \<noteq> 0) (b # r) of
       None \<Rightarrow> None
     | Some (l, r2) \<Rightarrow>
         let header = take (length (tag_bytes tag @ b # r) - length r2) (tag_bytes tag @ b # r) in
         (case l of
            Indefinite \<Rightarrow> Some ((tag, header, [], True, True), r2)
          | Definite n not_minimal \<Rightarrow>
              if n \<le> length r2
              then Some ((tag, header, take n r2, not_minimal, False), drop n r2)
              else None))"
  unfolding element_spec_def tag_spec_complete [OF assms] prod.case option.case ..

lemma element_spec_long:
  assumes tag: "\<not> reserved_tag tag" and b: "\<not> unat b < 128" "unat b - 128 = m" "0 < m" "m \<le> 4"
  shows "element_spec ber_ok (tag_bytes tag @ b # bs) =
    (case u_spec m bs of
       None \<Rightarrow> None
     | Some (n, r) \<Rightarrow>
         let not_minimal = n < 128 \<or> n < 256 ^ (m - 1) in
         if not_minimal \<and> \<not> ber_ok then None
         else if n \<le> length r
              then Some ((tag, (tag_bytes tag @ [b]) @ take m bs, take n r, not_minimal, False), drop n r)
              else None)"
proof (cases "u_spec m bs")
  case None
  then show ?thesis
    using b unfolding element_spec_after_tag [OF tag] by (simp add: len_spec_def Let_def)
next
  case (Some q)
  obtain n r where q: "q = (n, r)" by (cases q)
  obtain pre where "bs = pre @ r" "length pre = m"
    using Some q by (auto simp: u_spec_Some_iff)
  then have "take (length (tag_bytes tag @ b # bs) - length r) (tag_bytes tag @ b # bs) =
      (tag_bytes tag @ [b]) @ take m bs" by simp
  with Some q b show ?thesis
    unfolding element_spec_after_tag [OF tag] by (simp add: len_spec_def Let_def)
qed

lemma reads_after_tag:
  assumes wf: "cbs_wf cbs" "cbs_wf c2" and tag: "\<not> reserved_tag tag"
    and get: "parse_asn1_tag cbs = (Some tag, c1)" "CBS_get_u8 c1 = (Some b, c2)"
    and bs: "cbs_bytes cbs = (tag_bytes tag @ [b]) @ cbs_bytes c2"
  shows "reads (cbs_get_any_asn1_element cbs ber_ok) cbs element_ok element_view
    (element_spec ber_ok (tag_bytes tag @ b # cbs_bytes c2))"
proof -
  let ?header = "tag_bytes tag @ [b]" and ?hl = "CBS_len cbs - CBS_len c2"
  let ?k = "ucast (b AND 0x7f) :: size_t"
  note code = cbs_get_any_asn1_element_def [of cbs ber_ok, unfolded get prod.case option.case]
  note spec = element_spec_after_tag [OF tag]
  note hl = element_header_len [OF wf bs]
  have h: "length ?header \<le> 7" using length_tag_bytes [of tag] by simp
  show ?thesis
  proof (cases "unat b < 128")
    case True
    have len: "unat (ucast b + ?hl) = length ?header + unat b"
      using hl h True by (subst unat_add_no_wrap) (simp_all add: unat_ucast_up)
    have "b AND 0x80 = 0" using True byte_and_80 by simp
    then show ?thesis
      using reads_element_bytes [OF wf(1) bs len hl, of tag False False] True
      unfolding code spec by (simp add: len_spec_def Let_def split: if_splits)
  next
    case False
    then have b: "b AND 0x80 \<noteq> 0" "unat ?k = unat b - 128"
      using byte_and_80 [of b] by (simp_all add: unat_ucast_up byte_and_7f byte_mod_128)
    have k0: "?k = 0 \<longleftrightarrow> unat b - 128 = 0" "?k > 4 \<longleftrightarrow> 4 < unat b - 128"
      using b(2) by (metis unat_eq_zero, simp add: word_less_nat_alt)
    consider "ber_ok \<and> tag AND CBS_ASN1_CONSTRUCTED \<noteq> 0 \<and> unat b - 128 = 0"
      | "\<not> (ber_ok \<and> tag AND CBS_ASN1_CONSTRUCTED \<noteq> 0 \<and> unat b - 128 = 0)"
        "unat b - 128 = 0 \<or> 4 < unat b - 128"
      | "0 < unat b - 128" "unat b - 128 \<le> 4" by linarith
    then show ?thesis
    proof cases
      case 1
      then show ?thesis
        using reads_element_bytes [OF wf(1) bs _ hl, of ?hl 0 tag True True] False b hl k0
        unfolding code spec by (simp add: len_spec_def Let_def)
    next
      case 2
      then show ?thesis
        using False b k0 wf(1) unfolding code spec by (auto simp: len_spec_def Let_def)
    next
      case 3
      show ?thesis
        using reads_long_form [OF wf bs h hl b(2) 3, of ber_ok tag] b k0 3
        unfolding code element_spec_long [OF tag False refl 3] by (simp add: Let_def)
    qed
  qed
qed

interpretation rd_element: cbs_reader "\<lambda>cbs. cbs_get_any_asn1_element cbs ber_ok"
    element_ok element_view "element_spec ber_ok" for ber_ok
proof (rule reads_cbs_readerI)
  fix cbs
  assume wf: "cbs_wf cbs"
  show "reads (cbs_get_any_asn1_element cbs ber_ok) cbs element_ok element_view
      (element_spec ber_ok (cbs_bytes cbs))"
  proof (cases "tag_spec (cbs_bytes cbs)")
    case None
    with rd_tag.get_rejects [OF wf None] wf show ?thesis
      by (auto simp: cbs_get_any_asn1_element_def element_spec_def)
  next
    case (Some p)
    obtain tag r1 where p: "p = (tag, r1)" by (cases p)
    with Some rd_tag.get_accepts [OF wf, of tag r1] obtain c1 where
      c1: "parse_asn1_tag cbs = (Some tag, c1)" "cbs_wf c1" "cbs_bytes c1 = r1" by auto
    have tag: "\<not> reserved_tag tag" "cbs_bytes cbs = tag_bytes tag @ r1"
      using Some p by (simp_all add: tag_spec_iff)
    show ?thesis using c1(2)
    proof (cases rule: CBS_get_u8_cases)
      case 1
      then show ?thesis
        using wf Some p c1 by (simp add: cbs_get_any_asn1_element_def element_spec_def len_spec_def)
    next
      case (2 b c2)
      then show ?thesis
        using reads_after_tag [OF wf 2(2) tag(1) c1(1) 2(1), of ber_ok] tag(2) c1(3) by simp
    qed
  qed
qed (rule element_spec_suffix)

section \<open>DER is canonical\<close>

fun octets :: "nat \<Rightarrow> nat" where
  "octets n = (if n < 256 then 1 else Suc (octets (n div 256)))"

declare octets.simps [simp del]

definition der_len :: "nat \<Rightarrow> u8 list" where
  "der_len n = (if n < 128 then [word_of_nat n] else word_of_nat (128 + octets n) # be_bytes (octets n) n)"

definition der :: "CBS_ASN1_TAG \<Rightarrow> u8 list \<Rightarrow> u8 list" where
  "der tag body = tag_bytes tag @ der_len (length body) @ body"

lemma octets_pos [simp]: "0 < octets n"
  by (subst octets.simps) simp

lemma less_octets: "n < 256 ^ octets n"
proof (induction n rule: octets.induct)
  case (1 n)
  then show ?case
    by (cases "n < 256") (auto simp: octets.simps [of n] div_less_iff_less_mult mult.commute)
qed

lemma octets_le: "n < 256 ^ k \<Longrightarrow> 0 < k \<Longrightarrow> octets n \<le> k"
proof (induction k arbitrary: n)
  case (Suc k)
  show ?case
  proof (cases "n < 256")
    case False
    then have "0 < k" using Suc.prems(1) by (cases k) auto
    moreover have "n div 256 < 256 ^ k"
      using Suc.prems(1) by (simp add: div_less_iff_less_mult mult.commute)
    ultimately show ?thesis using Suc.IH False by (simp add: octets.simps [of n])
  qed (simp add: octets.simps [of n])
qed simp

lemma octets_unique: "n < 256 ^ k \<Longrightarrow> 256 ^ (k - 1) \<le> n \<Longrightarrow> 0 < k \<Longrightarrow> octets n = k"
proof (rule antisym)
  assume n: "n < 256 ^ k" "256 ^ (k - 1) \<le> n" "0 < k"
  then show "octets n \<le> k" by (intro octets_le)
  have "(256::nat) ^ (k - 1) < 256 ^ octets n" using n(2) less_octets [of n] by (rule order.strict_trans1)
  then have "k - 1 < octets n" by (simp add: power_strict_increasing_iff)
  then show "k \<le> octets n" by linarith
qed

lemma octets_ge: "128 \<le> n \<Longrightarrow> 256 ^ (octets n - 1) \<le> n"
proof (induction n rule: octets.induct)
  case (1 n)
  show ?case
  proof (cases "n < 256")
    case False
    show ?thesis
    proof (cases "128 \<le> n div 256")
      case True
      with "1.IH" [OF False] have "256 * 256 ^ (octets (n div 256) - 1) \<le> 256 * (n div 256)" by simp
      also have "\<dots> \<le> n" by simp
      also have "(256::nat) * 256 ^ (octets (n div 256) - 1) = 256 ^ octets (n div 256)"
        by (simp flip: power_Suc)
      finally show ?thesis using False by (simp add: octets.simps [of n])
    next
      case small: False
      then have "octets (n div 256) = 1" by (subst octets.simps) simp
      with False show ?thesis by (simp add: octets.simps [of n])
    qed
  qed (use "1.prems" in \<open>simp add: octets.simps [of n]\<close>)
qed

lemma octets_le_4: "n < 4294967296 \<Longrightarrow> octets n \<le> 4"
  by (rule octets_le) simp_all

lemma len_spec_der_complete:
  assumes "n < 4294967296"
  shows "len_spec ber_ok c (der_len n @ r) = Some (Definite n False, r)"
proof (cases "n < 128")
  case True
  then have "unat (word_of_nat n :: u8) = n" by (intro unat_eq_of_nat) simp
  with True show ?thesis by (simp add: der_len_def len_spec_def)
next
  case False
  let ?k = "octets n"
  have k: "0 < ?k" "?k \<le> 4" using octets_le_4 [OF assms] by simp_all
  then have b: "unat (word_of_nat (128 + ?k) :: u8) = 128 + ?k" by (intro unat_eq_of_nat) simp
  have "u_spec ?k (be_bytes ?k n @ r) = Some (n, r)"
    using less_octets [of n] by (auto simp: u_spec_Some_iff be_val_be_bytes)
  moreover have "\<not> n < 256 ^ (?k - 1)" using octets_ge [of n] False by simp
  ultimately show ?thesis using False k b by (simp add: der_len_def len_spec_def Let_def)
qed

lemma len_spec_der_sound:
  assumes "len_spec False c bs = Some (l, r)"
  shows "\<exists>n. l = Definite n False \<and> n < 4294967296 \<and> bs = der_len n @ r"
proof -
  from assms obtain b bs' where bs: "bs = b # bs'" by (cases bs) (auto simp: len_spec_def)
  show ?thesis
  proof (cases "unat b < 128")
    case True
    with assms bs have "l = Definite (unat b) False" "r = bs'" by (simp_all add: len_spec_def)
    moreover have "unat b < 4294967296" using True by linarith
    ultimately show ?thesis using True bs by (simp add: der_len_def)
  next
    case False
    let ?k = "unat b - 128"
    from assms bs False obtain n where n: "0 < ?k" "?k \<le> 4" "u_spec ?k bs' = Some (n, r)"
      "\<not> n < 128" "\<not> n < 256 ^ (?k - 1)" "l = Definite n False"
      by (auto simp: len_spec_def Let_def split: if_splits option.splits)
    then obtain p where p: "bs' = p @ r" "length p = ?k" "n = be_val p" by (auto simp: u_spec_Some_iff)
    have "n < 256 ^ ?k" using be_val_less [of p] p by simp
    with n have k: "octets n = ?k" by (intro octets_unique) simp_all
    have "n < 4294967296" using \<open>n < 256 ^ ?k\<close> power_increasing [OF n(2), of "256 :: nat"] by simp
    moreover have "be_bytes ?k n = p" using be_bytes_be_val [of p] p by simp
    moreover have "word_of_nat (128 + ?k) = b" using False by simp
    ultimately show ?thesis using n p k bs by (auto simp: der_len_def)
  qed
qed

text \<open>
  The elements that the strict reader accepts are exactly the DER encodings: one encoding for
  every tag and contents.
\<close>

lemma element_spec_der_iff:
  "element_spec False bs = Some ((tag, header, body, ber, indef), rest) \<longleftrightarrow>
     \<not> reserved_tag tag \<and> length body < 4294967296 \<and> bs = der tag body @ rest \<and>
     header = tag_bytes tag @ der_len (length body) \<and> \<not> ber \<and> \<not> indef"
  (is "?L \<longleftrightarrow> ?R")
proof
  assume ?L
  then obtain r1 l r2 where 1: "tag_spec bs = Some (tag, r1)"
      "len_spec False (tag AND CBS_ASN1_CONSTRUCTED \<noteq> 0) r1 = Some (l, r2)"
    by (auto simp: element_spec_def Let_def split: option.splits asn1_len.splits if_splits)
  from len_spec_der_sound [OF 1(2)] obtain n where
    n: "l = Definite n False" "n < 4294967296" "r1 = der_len n @ r2" by blast
  from 1 n(1) have "element_spec False bs =
      (if n \<le> length r2 then Some ((tag, take (length bs - length r2) bs, take n r2, False, False), drop n r2)
       else None)"
    by (simp add: element_spec_def)
  with \<open>?L\<close> have e: "n \<le> length r2" "header = take (length bs - length r2) bs" "body = take n r2"
      "\<not> ber" "\<not> indef" "rest = drop n r2"
    by (simp_all split: if_splits)
  moreover have "\<not> reserved_tag tag" "bs = tag_bytes tag @ der_len n @ r2"
    using 1(1) n(3) by (simp_all add: tag_spec_iff)
  moreover have "length body = n" using e by simp
  ultimately show ?R using n(2) by (simp add: der_def)
next
  assume R: ?R
  then have "tag_spec bs = Some (tag, der_len (length body) @ body @ rest)"
    by (simp add: tag_spec_iff der_def)
  moreover have "len_spec False (tag AND CBS_ASN1_CONSTRUCTED \<noteq> 0) (der_len (length body) @ body @ rest)
      = Some (Definite (length body) False, body @ rest)"
    using R by (intro len_spec_der_complete) simp
  ultimately show ?L using R by (simp add: element_spec_def der_def)
qed

lemma element_spec_der: 
  "\<not> reserved_tag tag \<Longrightarrow> length body < 4294967296 \<Longrightarrow>
     element_spec ber_ok (der tag body @ rest) =
       Some ((tag, tag_bytes tag @ der_len (length body), body, False, False), rest)"
  by (simp add: element_spec_def der_def tag_spec_complete len_spec_der_complete)

lemma element_spec_append:
  "element_spec ber_ok bs = Some ((tag, header, body, ber, indef), rest) \<Longrightarrow> bs = header @ body @ rest"
proof -
  assume *: "element_spec ber_ok bs = Some ((tag, header, body, ber, indef), rest)"
  then obtain r1 l r2 where 1: "tag_spec bs = Some (tag, r1)"
      "len_spec ber_ok (tag AND CBS_ASN1_CONSTRUCTED \<noteq> 0) r1 = Some (l, r2)"
    by (auto simp: element_spec_def Let_def split: option.splits asn1_len.splits if_splits)
  then have "suffix r2 bs" by (meson len_spec_suffix suffix_order.trans tag_spec_suffix)
  then obtain z where "bs = z @ r2" by (auto simp: suffix_def)
  then have "bs = take (length bs - length r2) bs @ r2" by simp
  moreover have "header = take (length bs - length r2) bs" "body @ rest = r2"
    using * 1 by (auto simp: element_spec_def Let_def split: asn1_len.splits if_splits)
  ultimately show ?thesis by simp
qed

text \<open>No DER encoding is a proper prefix of another.\<close>

lemma der_prefix_free:
  assumes "\<not> reserved_tag t1" "\<not> reserved_tag t2" "length b1 < 4294967296" "length b2 < 4294967296"
    and "der t1 b1 @ x = der t2 b2 @ y"
  shows "t1 = t2" "b1 = b2" "x = y"
proof -
  have "Some ((t1, tag_bytes t1 @ der_len (length b1), b1, False, False), x) =
      Some ((t2, tag_bytes t2 @ der_len (length b2), b2, False, False), y)"
    using element_spec_der [OF assms(1,3), of False x] element_spec_der [OF assms(2,4), of False y]
    unfolding assms(5) by (rule trans [OF sym])
  then show "t1 = t2" "b1 = b2" "x = y" by simp_all
qed

end
