(* ===== verification/Der_Values.thy ===== *)
theory Der_Values
  imports Der_Element
begin

text \<open>
  The typed ASN.1 readers of cbs.c: elements with a given tag, integers, booleans and optional
  elements, and the validity checks of integers, bit strings and object identifiers.
\<close>

section \<open>Elements with a given tag\<close>

definition asn1_spec :: "CBS_ASN1_TAG \<Rightarrow> u8 list parser" where
  "asn1_spec tag bs =
     Option.bind (element_spec False bs) (\<lambda>((t, h, body, f), r). if t \<noteq> tag then None else Some (body, r))"

lemma asn1_spec_iff:
  "asn1_spec tag bs = Some (body, rest) \<longleftrightarrow>
     \<not> reserved_tag tag \<and> length body < 4294967296 \<and> bs = der tag body @ rest"
  by (auto simp: asn1_spec_def Option.bind_eq_Some_conv element_spec_der_iff split: if_splits)

lemma cbs_reader_if:
  assumes "\<not> P \<Longrightarrow> ok a \<and> view a = x"
  shows "cbs_reader (\<lambda>cbs. if P then (None, cbs) else (Some a, cbs)) ok view
     (\<lambda>bs. if P then None else Some (x, bs))"
  using assms by unfold_locales (auto split: if_splits)

lemma skip_header:
  assumes "element_ok el"
  obtains out where "CBS_skip (el_out el) (el_header_len el) = (True, out)" "cbs_wf out"
    "cbs_bytes out = drop (unat (el_header_len el)) (cbs_bytes (el_out el))"
proof -
  have wf: "cbs_wf (el_out el)" and le: "unat (el_header_len el) \<le> length (cbs_bytes (el_out el))"
    using assms by (simp_all add: element_ok_def word_le_nat_alt)
  note s = CBS_skip_spec [OF wf, of "el_header_len el"]
  show thesis
    by (rule that [of "snd (CBS_skip (el_out el) (el_header_len el))"])
      (use s le in \<open>simp_all add: prod_eq_iff\<close>)
qed

interpretation rd_asn1: cbs_reader "\<lambda>cbs. CBS_get_asn1 cbs tag" cbs_wf cbs_bytes "asn1_spec tag" for tag
proof -
  let ?B = "\<lambda>el cbs. if el_tag el \<noteq> tag then (None, cbs)
    else (case CBS_skip (el_out el) (el_header_len el) of
            (False, _) \<Rightarrow> (None, cbs) | (True, out) \<Rightarrow> (Some out, cbs))"
  have B: "cbs_reader (?B el) cbs_wf cbs_bytes ((\<lambda>(t, h, body, f) bs. if t \<noteq> tag then None else Some (body, bs))
      (element_view el))" if "element_ok el" for el
  proof -
    from that obtain out where out: "CBS_skip (el_out el) (el_header_len el) = (True, out)" "cbs_wf out"
      "cbs_bytes out = drop (unat (el_header_len el)) (cbs_bytes (el_out el))" by (rule skip_header)
    show ?thesis
      using cbs_reader_if [of "el_tag el \<noteq> tag" cbs_wf out cbs_bytes "cbs_bytes out"] out
      by (simp add: element_view_def Let_def cong: if_cong)
  qed
  have "cbs_reader (\<lambda>cbs. CBS_get_asn1 cbs tag) cbs_wf cbs_bytes (\<lambda>bs. Option.bind (element_spec False bs)
      (\<lambda>(x, rest). (case x of (t, h, body, f) \<Rightarrow> \<lambda>bs. if t \<noteq> tag then None else Some (body, bs)) rest))"
    unfolding CBS_get_asn1_def cbs_get_asn1_def CBS_get_any_asn1_element_def if_True
    by (rule cbs_reader_bind [OF rd_element.cbs_reader_axioms]) (erule B, auto split: if_splits)
  moreover have "(\<lambda>bs. Option.bind (element_spec False bs)
      (\<lambda>(x, rest). (case x of (t, h, body, f) \<Rightarrow> \<lambda>bs. if t \<noteq> tag then None else Some (body, bs)) rest)) =
      asn1_spec tag"
    by (rule ext) (auto simp: asn1_spec_def intro!: arg_cong [of _ _ "Option.bind _"])
  ultimately show "cbs_reader (\<lambda>cbs. CBS_get_asn1 cbs tag) cbs_wf cbs_bytes (asn1_spec tag)" by simp
qed

text \<open>A reader of the contents of an element with a given tag.\<close>

lemma cbs_reader_asn1_value:
  assumes "\<And>c. cbs_wf c \<Longrightarrow> map_option view (f c) = g (cbs_bytes c)"
  shows "cbs_reader (\<lambda>cbs. case CBS_get_asn1 cbs tag of
        (None, cbs) \<Rightarrow> (None, cbs) | (Some bytes, cbs) \<Rightarrow> (f bytes, cbs)) (\<lambda>_. True) view
     (\<lambda>bs. Option.bind (asn1_spec tag bs) (\<lambda>(body, r). map_option (\<lambda>v. (v, r)) (g body)))"
proof (rule cbs_reader_bind [OF rd_asn1.cbs_reader_axioms])
  fix c
  assume "cbs_wf c"
  from assms [OF this] show "cbs_reader (Pair (f c)) (\<lambda>_. True) view
      (\<lambda>r. map_option (\<lambda>v. (v, r)) (g (cbs_bytes c)))"
    by (cases "f c") (unfold_locales, auto)
qed auto

section \<open>Integers\<close>

text \<open>The contents of an INTEGER: two's complement in the fewest bytes.\<close>

definition sbyte :: "u8 \<Rightarrow> int" where
  "sbyte b = (if unat b < 128 then int (unat b) else int (unat b) - 256)"

fun int_val :: "u8 list \<Rightarrow> int" where
  "int_val [] = 0"
| "int_val (b # bs) = sbyte b * 256 ^ length bs + int (be_val bs)"

fun valid_int :: "u8 list \<Rightarrow> bool" where
  "valid_int [] = False"
| "valid_int [b] = True"
| "valid_int (b # c # bs) = (\<not> (b = 0 \<and> unat c < 128) \<and> \<not> (b = 0xff \<and> 128 \<le> unat c))"

lemma int_be_val_less: "int (be_val bs) < 256 ^ length bs"
  using be_val_less [of bs] by (metis of_nat_less_iff of_nat_numeral of_nat_power)

lemma sbyte_bounds: "- 128 \<le> sbyte b" "sbyte b \<le> 127"
  and sbyte_nonneg: "0 \<le> sbyte b \<longleftrightarrow> unat b < 128"
  and sbyte_0: "sbyte b = 0 \<longleftrightarrow> b = 0"
  and sbyte_m1: "sbyte b = - 1 \<longleftrightarrow> b = 0xff"
proof -
  have b: "b = 0 \<longleftrightarrow> unat b = 0" "b = 0xff \<longleftrightarrow> unat b = 255" by (simp_all add: word_unat_eq_iff)
  note u = unat_u8_less [of b]
  show "- 128 \<le> sbyte b" "sbyte b \<le> 127"
    unfolding sbyte_def using u by (cases "unat b < 128"; simp only: if_True if_False; linarith)+
  show "0 \<le> sbyte b \<longleftrightarrow> unat b < 128" "sbyte b = 0 \<longleftrightarrow> b = 0" "sbyte b = - 1 \<longleftrightarrow> b = 0xff"
    unfolding sbyte_def b using u by presburger+
qed

lemma int_val_be_val:
  "bs \<noteq> [] \<Longrightarrow> int_val bs = int (be_val bs) - (if unat (hd bs) < 128 then 0 else 256 ^ length bs)"
  by (cases bs) (auto simp: sbyte_def algebra_simps)

lemma int_val_nonneg: "bs \<noteq> [] \<Longrightarrow> 0 \<le> int_val bs \<longleftrightarrow> unat (hd bs) < 128"
proof -
  assume "bs \<noteq> []"
  then obtain b r where bs: "bs = b # r" by (cases bs) auto
  show ?thesis
  proof (cases "0 \<le> sbyte b")
    case True
    then show ?thesis using sbyte_nonneg [of b] by (simp add: bs)
  next
    case False
    then have "sbyte b * 256 ^ length r \<le> (- 1) * 256 ^ length r"
      by (intro mult_right_mono) simp_all
    with int_be_val_less [of r] have "int_val bs < 0" unfolding bs int_val.simps by linarith
    with False show ?thesis using sbyte_nonneg [of b] by (simp add: bs)
  qed
qed

lemma int_val_unsigned: "bs \<noteq> [] \<Longrightarrow> 0 \<le> int_val bs \<Longrightarrow> int_val bs = int (be_val bs)"
proof -
  assume bs: "bs \<noteq> []" "0 \<le> int_val bs"
  then have "unat (hd bs) < 128" using int_val_nonneg by blast
  with bs(1) show ?thesis by (simp add: int_val_be_val)
qed

lemma int_val_signed:
  "bs \<noteq> [] \<Longrightarrow> int_val bs < 0 \<Longrightarrow> int_val bs = int (be_val bs) - 256 ^ length bs"
proof -
  assume bs: "bs \<noteq> []" "int_val bs < 0"
  then have "\<not> unat (hd bs) < 128" using int_val_nonneg [OF bs(1)] by simp
  with bs(1) show ?thesis by (simp add: int_val_be_val)
qed

text \<open>The length of a valid encoding is determined by the range of the number.\<close>

lemma int_val_bounds:
  assumes "bs \<noteq> []" "length bs \<le> k"
  shows "- (2 ^ (8 * k - 1)) \<le> int_val bs" "int_val bs < 2 ^ (8 * k - 1)"
proof -
  from assms(1) obtain b r where bs: "bs = b # r" by (cases bs) auto
  let ?n = "length r" and ?s = "sbyte b"
  have r: "0 \<le> int (be_val r)" "int (be_val r) < 256 ^ ?n"
    using int_be_val_less by simp_all
  note s = sbyte_bounds [of b]
  have p: "(2 :: int) ^ (8 * ?n + 7) = 128 * 256 ^ ?n" by (simp add: power_add power_mult)
  have "8 * ?n + 7 \<le> 8 * k - 1" using assms(2) bs by simp
  then have m: "(2 :: int) ^ (8 * ?n + 7) \<le> 2 ^ (8 * k - 1)" by (rule power_increasing) simp
  have "(- 128) * 256 ^ ?n \<le> ?s * 256 ^ ?n" using s(1) by (rule mult_right_mono) simp
  with m p r show "- (2 ^ (8 * k - 1)) \<le> int_val bs" unfolding bs int_val.simps by linarith
  have "?s * 256 ^ ?n \<le> 127 * 256 ^ ?n" using s(2) by (rule mult_right_mono) simp
  with m p r show "int_val bs < 2 ^ (8 * k - 1)" unfolding bs int_val.simps by linarith
qed

lemma int_val_long:
  assumes "valid_int bs" "0 < k" "k < length bs"
  shows "int_val bs < - (2 ^ (8 * k - 1)) \<or> 2 ^ (8 * k - 1) \<le> int_val bs"
proof -
  from assms(2,3) obtain b c r where bs: "bs = b # c # r"
    by (cases bs; cases "tl bs") auto
  let ?n = "length r"
  let ?s = "sbyte b"
  have r: "0 \<le> int (be_val r)" "int (be_val r) < 256 ^ ?n"
    using int_be_val_less by simp_all
  have "8 * k - 1 \<le> 8 * ?n + 7" using assms(3) bs by simp
  then have m: "(2 :: int) ^ (8 * k - 1) \<le> 2 ^ (8 * ?n + 7)" by (rule power_increasing) simp
  have p: "(2 :: int) ^ (8 * ?n + 7) = 128 * 256 ^ ?n" by (simp add: power_add power_mult)
  have v: "int_val bs = (?s * 256 + int (unat c)) * 256 ^ ?n + int (be_val r)"
    by (simp add: bs algebra_simps)
  have "\<not> (?s = 0 \<and> unat c < 128)" "\<not> (?s = - 1 \<and> 128 \<le> unat c)"
    using assms(1) bs by (simp_all add: sbyte_0 sbyte_m1)
  then have "?s * 256 + int (unat c) \<le> - 129 \<or> 128 \<le> ?s * 256 + int (unat c)"
    using unat_u8_less [of c] by linarith
  then show ?thesis
  proof
    assume "?s * 256 + int (unat c) \<le> - 129"
    then have "(?s * 256 + int (unat c)) * 256 ^ ?n \<le> (- 129) * 256 ^ ?n"
      by (rule mult_right_mono) simp
    with v p m r show ?thesis by linarith
  next
    assume "128 \<le> ?s * 256 + int (unat c)"
    then have "128 * 256 ^ ?n \<le> (?s * 256 + int (unat c)) * 256 ^ ?n"
      by (rule mult_right_mono) simp
    with v p m r show ?thesis by linarith
  qed
qed

lemma valid_int_length_iff:
  "valid_int bs \<Longrightarrow> 0 < k \<Longrightarrow>
     length bs \<le> k \<longleftrightarrow> - (2 ^ (8 * k - 1)) \<le> int_val bs \<and> int_val bs < 2 ^ (8 * k - 1)"
  using int_val_bounds [of bs k] int_val_long [of bs k]
  by (cases "bs = []") (simp, metis linorder_not_le)

lemma valid_int_unique:
  assumes "valid_int xs" "valid_int ys" "int_val xs = int_val ys"
  shows "xs = ys"
proof -
  have ne: "xs \<noteq> []" "ys \<noteq> []" using assms by auto
  have le: "length xs \<le> length ys" "length ys \<le> length xs"
    using valid_int_length_iff [OF assms(1), of "length ys"] valid_int_length_iff [OF assms(2), of "length ys"]
      valid_int_length_iff [OF assms(1), of "length xs"] valid_int_length_iff [OF assms(2), of "length xs"]
      assms(3) ne by auto
  then have len: "length xs = length ys" by simp
  moreover have "unat (hd xs) < 128 \<longleftrightarrow> unat (hd ys) < 128"
    using int_val_nonneg ne assms(3) by metis
  ultimately have "be_val xs = be_val ys"
    using assms(3) ne by (simp add: int_val_be_val split: if_splits)
  with len show ?thesis by (simp add: be_val_eq_iff)
qed

section \<open>The integer readers\<close>

lemma CBS_is_valid_asn1_integer_iff:
  assumes "cbs_wf cbs"
  shows "CBS_is_valid_asn1_integer cbs =
    (if valid_int (cbs_bytes cbs) then Some (int_val (cbs_bytes cbs) < 0) else None)"
  using assms
proof (cases rule: CBS_get_u8_cases)
  case 1
  then show ?thesis by (simp add: CBS_is_valid_asn1_integer_def)
next
  case (2 b c)
  have neg: "int_val (cbs_bytes cbs) < 0 \<longleftrightarrow> b AND 0x80 \<noteq> 0"
    using int_val_nonneg [of "cbs_bytes cbs"] byte_and_80 [of b] 2(3)
    by (metis list.distinct(1) list.sel(1) not_less)
  show ?thesis using 2(2)
  proof (cases rule: CBS_get_u8_cases)
    case 1
    with 2 neg show ?thesis by (simp add: CBS_is_valid_asn1_integer_def)
  next
    case (2 b' c')
    with \<open>CBS_get_u8 cbs = (Some b, c)\<close> \<open>cbs_bytes cbs = b # cbs_bytes c\<close> neg show ?thesis
      using byte_and_80 [of b'] by (auto simp: CBS_is_valid_asn1_integer_def Let_def)
  qed
qed

lemma CBS_is_unsigned_asn1_integer_iff:
  "cbs_wf cbs \<Longrightarrow> CBS_is_unsigned_asn1_integer cbs \<longleftrightarrow>
     valid_int (cbs_bytes cbs) \<and> 0 \<le> int_val (cbs_bytes cbs)"
  by (simp add: CBS_is_unsigned_asn1_integer_def CBS_is_valid_asn1_integer_iff not_less)

lemma asn1_uint64_loop_eq:
  "map_option unat (asn1_uint64_loop v bs) =
     (if unat v * 256 ^ length bs + be_val bs < 18446744073709551616
      then Some (unat v * 256 ^ length bs + be_val bs) else None)"
proof (induction bs arbitrary: v)
  case (Cons b bs)
  have d: "drop_bit 56 v \<noteq> 0 \<longleftrightarrow> 72057594037927936 \<le> unat v"
    by (simp add: word_unat_eq_iff unat_drop_bit_div div_eq_0_iff not_less)
  show ?case
  proof (cases "72057594037927936 \<le> unat v")
    case True
    then have "18446744073709551616 * 1 \<le> unat v * 256 * 256 ^ length bs"
      by (intro mult_le_mono) simp_all
    then show ?thesis using True d by (simp add: not_less mult.assoc trans_le_add1)
  next
    case False
    then have "unat v * 256 + unat b < 18446744073709551616"
      using unat_u8_less [of b] by linarith
    then have "unat (shift_in v b) = unat v * 256 + unat b"
      by (subst unat_shift_in) (simp add: mult.commute)
    then show ?thesis
      using False d Cons.IH [of "shift_in v b"]
      by (simp add: shift_in_def algebra_simps)
  qed
qed simp

definition uint64_spec :: "nat parser" where
  "uint64_spec bs =
     Option.bind (asn1_spec CBS_ASN1_INTEGER bs) (\<lambda>(body, r). map_option (\<lambda>v. (v, r))
       (if valid_int body \<and> 0 \<le> int_val body \<and> int_val body < 2 ^ 64
        then Some (nat (int_val body)) else None))"

interpretation rd_uint64: cbs_reader CBS_get_asn1_uint64 "\<lambda>_. True" unat uint64_spec
proof -
  let ?f = "\<lambda>bytes. if \<not> CBS_is_unsigned_asn1_integer bytes then None
    else asn1_uint64_loop 0 (take (unat (CBS_len bytes)) (CBS_data bytes))"
  have "map_option unat (?f c) = (if valid_int (cbs_bytes c) \<and> 0 \<le> int_val (cbs_bytes c) \<and>
      int_val (cbs_bytes c) < 2 ^ 64 then Some (nat (int_val (cbs_bytes c))) else None)"
    if "cbs_wf c" for c
  proof (cases "valid_int (cbs_bytes c) \<and> 0 \<le> int_val (cbs_bytes c)")
    case True
    then have "cbs_bytes c \<noteq> []" by auto
    with True have "int_val (cbs_bytes c) = int (be_val (cbs_bytes c))"
      by (intro int_val_unsigned) simp_all
    with True that show ?thesis
      by (simp add: CBS_is_unsigned_asn1_integer_iff asn1_uint64_loop_eq flip: cbs_bytes_def)
  qed (use that in \<open>auto simp: CBS_is_unsigned_asn1_integer_iff\<close>)
  note r = cbs_reader_asn1_value [where f = ?f and g = "\<lambda>body. if valid_int body \<and> 0 \<le> int_val body \<and>
      int_val body < 2 ^ 64 then Some (nat (int_val body)) else None", OF this, of CBS_ASN1_INTEGER]
  moreover have "CBS_get_asn1_uint64 = (\<lambda>cbs. case CBS_get_asn1 cbs CBS_ASN1_INTEGER of
      (None, cbs) \<Rightarrow> (None, cbs) | (Some bytes, cbs) \<Rightarrow> (?f bytes, cbs))"
    by (rule ext) (simp add: CBS_get_asn1_uint64_def split: option.split prod.split)
  ultimately show "cbs_reader CBS_get_asn1_uint64 (\<lambda>_. True) unat uint64_spec"
    by (simp only: uint64_spec_def [abs_def])
qed

lemma sint_sign_extend:
  assumes "bs \<noteq> []" "length bs \<le> 8"
  shows "sint (load_be (replicate (8 - length bs) (if int_val bs < 0 then 0xff else 0) @ bs)) = int_val bs"
proof -
  let ?m = "8 - length bs" and ?s = "if int_val bs < 0 then 0xff else 0 :: u8"
  let ?e = "replicate ?m ?s @ bs"
  have ones: "int (be_val (replicate m 0xff)) = 256 ^ m - 1" for m
    by (induction m) auto
  have zeros: "be_val (replicate m 0) = 0" for m by (induction m) auto
  have p: "(256 :: int) ^ ?m * 256 ^ length bs = 2 ^ 64"
    using assms(2) by (simp flip: power_add)
  have "int (be_val ?e) = int_val bs + (if int_val bs < 0 then 2 ^ 64 else 0)"
  proof (cases "int_val bs < 0")
    case True
    then have "int_val bs = int (be_val bs) - 256 ^ length bs"
      using assms(1) by (intro int_val_signed)
    with True p show ?thesis by (simp add: be_val_append ones left_diff_distrib)
  next
    case False
    then show ?thesis using int_val_unsigned [OF assms(1)] by (simp add: be_val_append zeros)
  qed
  moreover have "unat (load_be ?e) = be_val ?e" using assms(2) by (intro unat_load_be) simp
  ultimately have "uint (load_be ?e) = int_val bs + (if int_val bs < 0 then 2 ^ 64 else 0)"
    by (simp add: uint_nat)
  then have "word_of_int (uint (load_be ?e)) = (word_of_int (int_val bs) :: u64)"
    by (simp only: word_of_int_eq_iff) (simp add: take_bit_eq_mod)
  then have "load_be ?e = word_of_int (int_val bs)" by simp
  moreover have "- (2 ^ 63) \<le> int_val bs" "int_val bs < 2 ^ 63"
    using int_val_bounds [OF assms] by simp_all
  ultimately show ?thesis by (simp add: signed_of_int signed_take_bit_int_eq_self)
qed

definition int64_spec :: "int parser" where
  "int64_spec bs =
     Option.bind (asn1_spec CBS_ASN1_INTEGER bs) (\<lambda>(body, r). map_option (\<lambda>v. (v, r))
       (if valid_int body \<and> - (2 ^ 63) \<le> int_val body \<and> int_val body < 2 ^ 63
        then Some (int_val body) else None))"

interpretation rd_int64: cbs_reader CBS_get_asn1_int64 "\<lambda>_. True" sint int64_spec
proof -
  let ?f = "\<lambda>bytes. case CBS_is_valid_asn1_integer bytes of None \<Rightarrow> None
    | Some neg \<Rightarrow> if CBS_len bytes > 8 then None
        else Some (load_be (take (8 - unat (CBS_len bytes)) (replicate 8 (if neg then 0xff else 0)) @
               take (unat (CBS_len bytes)) (CBS_data bytes)))"
  let ?g = "\<lambda>body. if valid_int body \<and> - (2 ^ 63) \<le> int_val body \<and> int_val body < 2 ^ 63
    then Some (int_val body) else None"
  have "map_option sint (?f c) = ?g (cbs_bytes c)" if wf: "cbs_wf c" for c
  proof (cases "valid_int (cbs_bytes c)")
    case True
    then have ne: "cbs_bytes c \<noteq> []" by auto
    have len: "unat (CBS_len c) = length (cbs_bytes c)" using wf by simp
    have tk: "take (unat (CBS_len c)) (CBS_data c) = cbs_bytes c" by (simp add: cbs_bytes_def)
    show ?thesis
    proof (cases "length (cbs_bytes c) \<le> 8")
      case le: True
      then have "\<not> CBS_len c > 8" "- (2 ^ 63) \<le> int_val (cbs_bytes c)" "int_val (cbs_bytes c) < 2 ^ 63"
        using valid_int_length_iff [OF True, of 8] len by (auto simp: word_less_nat_alt)
      moreover have "take (8 - unat (CBS_len c)) (replicate 8 x) = replicate (8 - length (cbs_bytes c)) x"
        for x :: u8 using len by simp
      ultimately show ?thesis
        using True wf sint_sign_extend [OF ne le] by (simp add: CBS_is_valid_asn1_integer_iff tk)
    next
      case False
      then have "CBS_len c > 8" "\<not> (- (2 ^ 63) \<le> int_val (cbs_bytes c) \<and> int_val (cbs_bytes c) < 2 ^ 63)"
        using valid_int_length_iff [OF True, of 8] len by (auto simp: word_less_nat_alt)
      with True wf show ?thesis by (simp add: CBS_is_valid_asn1_integer_iff)
    qed
  qed (use wf in \<open>simp add: CBS_is_valid_asn1_integer_iff\<close>)
  note r = cbs_reader_asn1_value [where f = ?f and g = ?g, OF this, of CBS_ASN1_INTEGER]
  moreover have "CBS_get_asn1_int64 = (\<lambda>cbs. case CBS_get_asn1 cbs CBS_ASN1_INTEGER of
      (None, cbs) \<Rightarrow> (None, cbs) | (Some bytes, cbs) \<Rightarrow> (?f bytes, cbs))"
    by (rule ext) (simp add: CBS_get_asn1_int64_def Let_def split: option.split prod.split)
  ultimately show "cbs_reader CBS_get_asn1_int64 (\<lambda>_. True) sint int64_spec"
    by (simp only: int64_spec_def [abs_def])
qed

definition bool_spec :: "bool parser" where
  "bool_spec bs =
     Option.bind (asn1_spec CBS_ASN1_BOOLEAN bs) (\<lambda>(body, r). map_option (\<lambda>v. (v, r))
       (if body = [0] then Some False else if body = [0xff] then Some True else None))"

interpretation rd_bool: cbs_reader CBS_get_asn1_bool "\<lambda>_. True" "\<lambda>x. x" bool_spec
proof -
  let ?f = "\<lambda>bytes. if CBS_len bytes \<noteq> 1 then None
    else if CBS_data bytes ! 0 \<noteq> 0 \<and> CBS_data bytes ! 0 \<noteq> 0xff then None else Some (CBS_data bytes ! 0 \<noteq> 0)"
  let ?g = "\<lambda>body. if body = [0 :: u8] then Some False else if body = [0xff] then Some True else None"
  have "map_option (\<lambda>x. x) (?f c) = ?g (cbs_bytes c)" if wf: "cbs_wf c" for c
  proof (cases "CBS_len c = 1")
    case True
    then have "cbs_bytes c = [CBS_data c ! 0]"
      using wf by (cases "CBS_data c") (auto simp: cbs_wf_def cbs_bytes_def)
    with True show ?thesis by auto
  next
    case False
    then have "length (cbs_bytes c) \<noteq> 1" using wf by (simp add: word_unat_eq_iff)
    with False show ?thesis by auto
  qed
  note r = cbs_reader_asn1_value [where f = ?f and g = ?g, OF this, of CBS_ASN1_BOOLEAN]
  moreover have "CBS_get_asn1_bool = (\<lambda>cbs. case CBS_get_asn1 cbs CBS_ASN1_BOOLEAN of
      (None, cbs) \<Rightarrow> (None, cbs) | (Some bytes, cbs) \<Rightarrow> (?f bytes, cbs))"
    by (rule ext) (simp add: CBS_get_asn1_bool_def Let_def split: option.split prod.split)
  ultimately show "cbs_reader CBS_get_asn1_bool (\<lambda>_. True) (\<lambda>x. x) bool_spec"
    by (simp only: bool_spec_def [abs_def])
qed

section \<open>Optional elements\<close>

definition optional_spec :: "CBS_ASN1_TAG \<Rightarrow> u8 list option parser" where
  "optional_spec tag bs =
     (if \<not> reserved_tag tag \<and> prefix (tag_bytes tag) bs
      then map_option (apfst Some) (asn1_spec tag bs) else Some (None, bs))"

interpretation rd_optional: cbs_reader "\<lambda>cbs. CBS_get_optional_asn1 cbs tag"
    "\<lambda>x. \<forall>c. x = Some c \<longrightarrow> cbs_wf c" "map_option cbs_bytes" "optional_spec tag" for tag
proof
  fix cbs x rest
  assume wf: "cbs_wf cbs" and "optional_spec tag (cbs_bytes cbs) = Some (x, rest)"
  then show "\<exists>a cbs'. CBS_get_optional_asn1 cbs tag = (Some a, cbs') \<and> (\<forall>c. a = Some c \<longrightarrow> cbs_wf c) \<and>
      map_option cbs_bytes a = x \<and> cbs_wf cbs' \<and> cbs_bytes cbs' = rest"
    using rd_asn1.get_accepts [OF wf, of tag]
    by (fastforce simp: optional_spec_def CBS_get_optional_asn1_def CBS_peek_asn1_tag_iff split: if_splits)
next
  fix cbs
  assume wf: "cbs_wf cbs" and "optional_spec tag (cbs_bytes cbs) = None"
  then show "\<exists>cbs'. CBS_get_optional_asn1 cbs tag = (None, cbs') \<and> cbs_wf cbs' \<and>
      suffix (cbs_bytes cbs') (cbs_bytes cbs)"
    using rd_asn1.get_rejects [OF wf, of tag]
    by (fastforce simp: optional_spec_def CBS_get_optional_asn1_def CBS_peek_asn1_tag_iff split: if_splits)
qed (auto simp: optional_spec_def asn1_spec_iff suffix_def split: if_splits)

text \<open>
  \<open>CBS_get_optional_asn1_uint64\<close> reads an INTEGER wrapped in the element, which it must
  fill, and gives the default when the element is absent.
\<close>

lemma CBS_get_optional_asn1_uint64_spec:
  assumes wf: "cbs_wf cbs"
  shows "case optional_spec tag (cbs_bytes cbs) of
      None \<Rightarrow> fst (CBS_get_optional_asn1_uint64 cbs tag d) = None
    | Some (None, rest) \<Rightarrow> CBS_get_optional_asn1_uint64 cbs tag d = (Some d, cbs)
    | Some (Some body, rest) \<Rightarrow>
        map_option unat (fst (CBS_get_optional_asn1_uint64 cbs tag d)) =
          (case uint64_spec body of Some (v, []) \<Rightarrow> Some v | _ \<Rightarrow> None)"
proof (cases "optional_spec tag (cbs_bytes cbs)")
  case None
  then show ?thesis
    using rd_optional.get_rejects [OF wf None] by (auto simp: CBS_get_optional_asn1_uint64_def)
next
  case (Some p)
  obtain x rest where p: "p = (x, rest)" by (cases p)
  show ?thesis
  proof (cases x)
    case None
    then show ?thesis
      using Some p by (auto simp: CBS_get_optional_asn1_uint64_def optional_spec_def
          CBS_get_optional_asn1_def CBS_peek_asn1_tag_iff [OF wf] split: if_splits)
  next
    case (Some body)
    with \<open>optional_spec tag (cbs_bytes cbs) = Some p\<close> p rd_optional.get_accepts [OF wf, of tag]
    obtain c cbs' where c: "CBS_get_optional_asn1 cbs tag = (Some (Some c), cbs')" "cbs_wf c"
      "cbs_bytes c = body" by fastforce
    show ?thesis
    proof (cases "uint64_spec body")
      case None
      with rd_uint64.get_rejects [OF c(2)] c(3) obtain c' where "CBS_get_asn1_uint64 c = (None, c')" by auto
      with c(1) None Some p \<open>optional_spec tag (cbs_bytes cbs) = Some p\<close> show ?thesis
        by (simp add: CBS_get_optional_asn1_uint64_def)
    next
      case v: (Some q)
      obtain v r where q: "q = (v, r)" by (cases q)
      with rd_uint64.get_accepts [OF c(2)] c(3) v obtain a c' where
        a: "CBS_get_asn1_uint64 c = (Some a, c')" "unat a = v" "cbs_wf c'" "cbs_bytes c' = r" by fastforce
      have "CBS_len c' = 0 \<longleftrightarrow> r = []" using a by (simp flip: cbs_bytes_Nil_iff)
      with a c(1) v q Some p \<open>optional_spec tag (cbs_bytes cbs) = Some p\<close> show ?thesis
        by (cases r) (simp_all add: CBS_get_optional_asn1_uint64_def)
    qed
  qed
qed

section \<open>Bit strings and object identifiers\<close>

lemma byte_and_low_mask:
  assumes "n \<le> 7"
  shows "(b :: u8) AND (push_bit n 1 - 1) = 0 \<longleftrightarrow> unat b mod 2 ^ n = 0"
proof -
  have "push_bit n 1 - 1 = (mask n :: u8)" by (simp add: mask_eq_decr_exp)
  then have "unat (b AND (push_bit n 1 - 1)) = unat b mod 2 ^ n"
    using unsigned_take_bit_eq [of n b] by (simp only: take_bit_eq_mask [symmetric]) (simp add: take_bit_eq_mod)
  then show ?thesis by (metis unat_eq_zero)
qed

text \<open>Up to seven unused bits, which exist in the last byte and are zero.\<close>

lemma CBS_is_valid_asn1_bitstring_iff:
  assumes "cbs_wf cbs"
  shows "CBS_is_valid_asn1_bitstring cbs \<longleftrightarrow>
    (\<exists>u body. cbs_bytes cbs = u # body \<and> unat u \<le> 7 \<and>
      (u = 0 \<or> body \<noteq> [] \<and> unat (last body) mod 2 ^ unat u = 0))"
  using assms
proof (cases rule: CBS_get_u8_cases)
  case 1
  then show ?thesis by (simp add: CBS_is_valid_asn1_bitstring_def)
next
  case (2 u c)
  have u: "u > 7 \<longleftrightarrow> \<not> unat u \<le> 7" by (simp add: word_less_nat_alt not_le)
  show ?thesis
    using CBS_get_last_u8_spec [OF 2(2)] 2 u byte_and_low_mask [of "unat u"]
    by (auto simp: CBS_is_valid_asn1_bitstring_def)
qed

lemma valid_oid_loop_iff:
  assumes "cbs_wf cbs"
  shows "valid_oid_loop prev cbs \<longleftrightarrow>
    unat (last (prev # cbs_bytes cbs)) < 128 \<and>
    (\<forall>i < length (cbs_bytes cbs). (cbs_bytes cbs) ! i = 0x80 \<longrightarrow> 128 \<le> unat ((prev # cbs_bytes cbs) ! i))"
  using assms
proof (induction prev cbs rule: valid_oid_loop.induct)
  case (1 prev cbs)
  show ?case using "1.prems"
  proof (cases rule: CBS_get_u8_cases)
    case 1
    then show ?thesis by (simp add: valid_oid_loop.simps byte_and_80)
  next
    case (2 v c)
    have "(\<forall>i < length (cbs_bytes cbs). (cbs_bytes cbs) ! i = 0x80 \<longrightarrow> 128 \<le> unat ((prev # cbs_bytes cbs) ! i))
        \<longleftrightarrow> \<not> (v = 0x80 \<and> unat prev < 128) \<and>
          (\<forall>i < length (cbs_bytes c). (cbs_bytes c) ! i = 0x80 \<longrightarrow> 128 \<le> unat ((v # cbs_bytes c) ! i))"
      unfolding 2(3) length_Cons All_less_Suc2 by auto
    with "1.IH" [OF 2(1) [symmetric] refl _ 2(2)] 2 show ?thesis
      by (auto simp: valid_oid_loop.simps [of prev cbs] byte_and_80 not_less)
  qed
qed

text \<open>
  A valid object identifier is not empty, ends with the end of an integer, and no integer in it
  starts with the byte 0x80.
\<close>

lemma CBS_is_valid_asn1_oid_iff:
  assumes "cbs_wf cbs"
  shows "CBS_is_valid_asn1_oid cbs \<longleftrightarrow>
    cbs_bytes cbs \<noteq> [] \<and> unat (last (cbs_bytes cbs)) < 128 \<and> hd (cbs_bytes cbs) \<noteq> 0x80 \<and>
    (\<forall>i. Suc i < length (cbs_bytes cbs) \<longrightarrow> cbs_bytes cbs ! Suc i = 0x80 \<longrightarrow> 128 \<le> unat (cbs_bytes cbs ! i))"
proof (cases "cbs_bytes cbs")
  case Nil
  then show ?thesis using assms by (simp add: CBS_is_valid_asn1_oid_def cbs_bytes_Nil_iff)
next
  case (Cons b bs)
  have "CBS_len cbs \<noteq> 0" using Cons assms cbs_bytes_Nil_iff by fastforce
  moreover have "(\<forall>i < length (cbs_bytes cbs). (cbs_bytes cbs) ! i = 0x80 \<longrightarrow> 128 \<le> unat ((0 # cbs_bytes cbs) ! i))
      \<longleftrightarrow> hd (cbs_bytes cbs) \<noteq> 0x80 \<and>
        (\<forall>i. Suc i < length (cbs_bytes cbs) \<longrightarrow> cbs_bytes cbs ! Suc i = 0x80 \<longrightarrow> 128 \<le> unat (cbs_bytes cbs ! i))"
    unfolding Cons length_Cons All_less_Suc2 by auto
  ultimately show ?thesis
    using valid_oid_loop_iff [OF assms, of 0] Cons by (auto simp: CBS_is_valid_asn1_oid_def)
qed

end
