(* ===== verification/Cbb.thy ===== *)
theory Cbb
  imports Der_Values
begin

text \<open>
  The byte builder \<open>CBB\<close> (crypto/bytestring/cbb.c). A top-level builder owns a buffer;
  its pending children, each with a length prefix still to be written, form a chain of which
  only the innermost is being written to. The model keeps the buffer and the chain, outermost
  child first, in one record. The argument \<open>d\<close> of an operation says which builder of
  the chain it is called on: 0 is the top level, \<open>d\<close> its \<open>d\<close>-th descendant. A builder
  whose children have been flushed has a null \<open>base\<close> and is beyond the end of the chain.
\<close>

section \<open>State\<close>

record cbb_buffer_st =
  buf :: "u8 list option"
  blen :: size_t
  cap :: size_t
  can_resize :: bool
  error :: bool

record cbb_child_st =
  offset :: size_t
  pending_len_len :: u8
  pending_is_asn1 :: bool

record CBB =
  base :: cbb_buffer_st
  children :: "cbb_child_st list"

definition cbb_init :: "u8 list option \<Rightarrow> size_t \<Rightarrow> bool \<Rightarrow> CBB" where
  "cbb_init b c resize =
     \<lparr>base = \<lparr>buf = b, blen = 0, cap = c, can_resize = resize, error = False\<rparr>, children = []\<rparr>"

definition CBB_init :: "libc_malloc \<Rightarrow> size_t \<Rightarrow> CBB option" where
  "CBB_init malloc initial_capacity =
     (case OPENSSL_malloc malloc initial_capacity of
        None \<Rightarrow> if initial_capacity > 0 then None else Some (cbb_init None initial_capacity True)
      | Some b \<Rightarrow> Some (cbb_init (Some b) initial_capacity True))"

definition CBB_init_fixed :: "u8 list \<Rightarrow> size_t \<Rightarrow> CBB" where
  "CBB_init_fixed b len = cbb_init (Some b) len False"

section \<open>The buffer\<close>

definition set_error :: "cbb_buffer_st \<Rightarrow> cbb_buffer_st" where
  "set_error b = b\<lparr>error := True\<rparr>"

definition cbb_buffer_reserve :: "libc_malloc \<Rightarrow> cbb_buffer_st \<Rightarrow> size_t \<Rightarrow> bool \<times> cbb_buffer_st" where
  "cbb_buffer_reserve malloc b len =
     (let newlen = blen b + len in
      if newlen < blen b then (False, set_error b)
      else if newlen > cap b then
        (if \<not> can_resize b then (False, set_error b)
         else let newcap = cap b * 2;
                  newcap = (if newcap < cap b \<or> newcap < newlen then newlen else newcap)
              in case OPENSSL_realloc malloc (buf b) newcap of
                   None \<Rightarrow> (False, set_error b)
                 | Some newbuf \<Rightarrow> (True, b\<lparr>buf := Some newbuf, cap := newcap\<rparr>))
      else (True, b))"

definition cbb_buffer_add :: "libc_malloc \<Rightarrow> cbb_buffer_st \<Rightarrow> size_t \<Rightarrow> bool \<times> cbb_buffer_st" where
  "cbb_buffer_add malloc b len =
     (case cbb_buffer_reserve malloc b len of
        (False, b) \<Rightarrow> (False, b)
      | (True, b) \<Rightarrow> (True, b\<lparr>blen := blen b + len\<rparr>))"

text \<open>A write through a pointer into the buffer.\<close>

definition write_buf :: "(u8 list \<Rightarrow> u8 list) \<Rightarrow> cbb_buffer_st \<Rightarrow> cbb_buffer_st" where
  "write_buf f b = b\<lparr>buf := map_option f (buf b)\<rparr>"

definition memmove :: "nat \<Rightarrow> nat \<Rightarrow> nat \<Rightarrow> u8 list \<Rightarrow> u8 list" where
  "memmove dst src n p = take dst p @ take n (drop src p) @ drop (dst + n) p"

definition store :: "nat \<Rightarrow> u8 list \<Rightarrow> u8 list \<Rightarrow> u8 list" where
  "store off data p = take off p @ data @ drop (off + length data) p"

section \<open>Flushing\<close>

text \<open>The length prefix of an ASN.1 child: its size, first byte, and the rest of the length.\<close>

definition asn1_len_prefix :: "size_t \<Rightarrow> (u8 \<times> u8 \<times> size_t) option" where
  "asn1_len_prefix len =
     (if len > 0xfffffffe then None
      else if len > 0xffffff then Some (5, 0x80 OR 4, len)
      else if len > 0xffff then Some (4, 0x80 OR 3, len)
      else if len > 0xff then Some (3, 0x80 OR 2, len)
      else if len > 0x7f then Some (2, 0x80 OR 1, len)
      else Some (1, ucast len, 0))"

text \<open>
  The part of \<open>CBB_flush\<close> that makes room for the length prefix and writes its first
  byte: the new buffer, offset, size and value of the remaining prefix.
\<close>

definition flush_asn1_prefix :: "libc_malloc \<Rightarrow> cbb_buffer_st \<Rightarrow> cbb_child_st \<Rightarrow> size_t \<Rightarrow> size_t \<Rightarrow>
    (size_t \<times> u8 \<times> size_t) option \<times> cbb_buffer_st" where
  "flush_asn1_prefix malloc b child child_start len =
     (case asn1_len_prefix len of
        None \<Rightarrow> (None, b)
      | Some (len_len, initial_length_byte, len) \<Rightarrow>
          let moved =
            (if len_len \<noteq> 1 then
               let extra_bytes = ucast (len_len - 1) in
               (case cbb_buffer_add malloc b extra_bytes of
                  (False, b) \<Rightarrow> (False, b)
                | (True, b) \<Rightarrow>
                    (True, write_buf (memmove (unat (child_start + extra_bytes))
                       (unat child_start) (unat len)) b))
             else (True, b))
          in case moved of
               (False, b) \<Rightarrow> (None, b)
             | (True, b) \<Rightarrow>
                 (Some (offset child + 1, len_len - 1, len),
                  write_buf (\<lambda>p. p[unat (offset child) := initial_length_byte]) b))"

text \<open>
  The part of \<open>CBB_flush\<close> behind the flush of the child's own child: it writes the
  child's length prefix, taking the bytes written since as its contents.
\<close>

definition flush_child :: "libc_malloc \<Rightarrow> cbb_child_st \<Rightarrow> cbb_buffer_st \<Rightarrow> bool \<times> cbb_buffer_st" where
  "flush_child malloc child b =
     (let child_start = offset child + ucast (pending_len_len child) in
      if child_start < offset child \<or> blen b < child_start then (False, set_error b)
      else
        (let len = blen b - child_start;
             prefix = (if pending_is_asn1 child
                       then flush_asn1_prefix malloc b child child_start len
                       else (Some (offset child, pending_len_len child, len), b))
         in case prefix of
              (None, b) \<Rightarrow> (False, set_error b)
            | (Some (off, pending, len), b) \<Rightarrow>
                (let b' = write_buf (\<lambda>p. fst (put_be p (unat off) (unat pending) len)) b;
                     len = snd (put_be [] (unat off) (unat pending) len)
                 in if len \<noteq> 0 then (False, set_error b') else (True, b'))))"

text \<open>
  \<open>CBB_flush\<close> on a builder whose chain of children is the list. On an error every level
  sets the error bit.
\<close>

fun flush_children :: "libc_malloc \<Rightarrow> cbb_child_st list \<Rightarrow> cbb_buffer_st \<Rightarrow> bool \<times> cbb_buffer_st" where
  "flush_children malloc [] b = (\<not> error b, b)"
| "flush_children malloc (child # cs) b =
     (if error b then (False, b)
      else case flush_children malloc cs b of
             (False, b) \<Rightarrow> (False, set_error b)
           | (True, b) \<Rightarrow> flush_child malloc child b)"

definition CBB_flush :: "libc_malloc \<Rightarrow> CBB \<Rightarrow> nat \<Rightarrow> bool \<times> CBB" where
  "CBB_flush malloc cbb d =
     (if length (children cbb) < d \<or> error (base cbb) then (False, cbb)
      else case flush_children malloc (drop d (children cbb)) (base cbb) of
             (ok, b) \<Rightarrow> (ok, \<lparr>base = b, children = take d (children cbb)\<rparr>))"

definition cbb_on_error :: "CBB \<Rightarrow> nat \<Rightarrow> CBB" where
  "cbb_on_error cbb d = \<lparr>base = set_error (base cbb), children = take d (children cbb)\<rparr>"

text \<open>The data and its length, \<open>None\<close> when it is not allocated.\<close>

definition CBB_finish :: "libc_malloc \<Rightarrow> CBB \<Rightarrow> nat \<Rightarrow> (u8 list option \<times> size_t) option \<times> CBB" where
  "CBB_finish malloc cbb d =
     (if d \<noteq> 0 then (None, cbb)
      else case CBB_flush malloc cbb 0 of
             (False, cbb) \<Rightarrow> (None, cbb)
           | (True, cbb) \<Rightarrow>
               (Some (buf (base cbb), blen (base cbb)), cbb\<lparr>base := (base cbb)\<lparr>buf := None\<rparr>\<rparr>))"

text \<open>The position of \<open>CBB_data\<close> in the buffer, and \<open>CBB_len\<close>.\<close>

definition CBB_data_start :: "CBB \<Rightarrow> nat \<Rightarrow> size_t" where
  "CBB_data_start cbb d =
     (if d = 0 then 0
      else let c = children cbb ! (d - 1) in offset c + ucast (pending_len_len c))"

definition CBB_len :: "CBB \<Rightarrow> nat \<Rightarrow> size_t" where
  "CBB_len cbb d =
     (if d = 0 then blen (base cbb)
      else let c = children cbb ! (d - 1)
           in blen (base cbb) - offset c - ucast (pending_len_len c))"

section \<open>Children\<close>

definition cbb_add_child :: "libc_malloc \<Rightarrow> CBB \<Rightarrow> nat \<Rightarrow> u8 \<Rightarrow> bool \<Rightarrow> bool \<times> CBB" where
  "cbb_add_child malloc cbb d len_len is_asn1 =
     (let off = blen (base cbb) in
      case cbb_buffer_add malloc (base cbb) (ucast len_len) of
        (False, b) \<Rightarrow> (False, cbb\<lparr>base := b\<rparr>)
      | (True, b) \<Rightarrow>
          (True, \<lparr>base = write_buf (store (unat off) (replicate (unat len_len) 0)) b,
                  children = take d (children cbb) @
                    [\<lparr>offset = off, pending_len_len = len_len, pending_is_asn1 = is_asn1\<rparr>]\<rparr>))"

definition cbb_add_length_prefixed :: "libc_malloc \<Rightarrow> CBB \<Rightarrow> nat \<Rightarrow> u8 \<Rightarrow> bool \<times> CBB" where
  "cbb_add_length_prefixed malloc cbb d len_len =
     (case CBB_flush malloc cbb d of
        (False, cbb) \<Rightarrow> (False, cbb)
      | (True, cbb) \<Rightarrow> cbb_add_child malloc cbb d len_len False)"

definition CBB_add_u8_length_prefixed :: "libc_malloc \<Rightarrow> CBB \<Rightarrow> nat \<Rightarrow> bool \<times> CBB" where
  "CBB_add_u8_length_prefixed malloc cbb d = cbb_add_length_prefixed malloc cbb d 1"

definition CBB_add_u16_length_prefixed :: "libc_malloc \<Rightarrow> CBB \<Rightarrow> nat \<Rightarrow> bool \<times> CBB" where
  "CBB_add_u16_length_prefixed malloc cbb d = cbb_add_length_prefixed malloc cbb d 2"

definition CBB_add_u24_length_prefixed :: "libc_malloc \<Rightarrow> CBB \<Rightarrow> nat \<Rightarrow> bool \<times> CBB" where
  "CBB_add_u24_length_prefixed malloc cbb d = cbb_add_length_prefixed malloc cbb d 3"

section \<open>Adding bytes\<close>

text \<open>On success, the position of the new space.\<close>

definition CBB_add_space :: "libc_malloc \<Rightarrow> CBB \<Rightarrow> nat \<Rightarrow> size_t \<Rightarrow> size_t option \<times> CBB" where
  "CBB_add_space malloc cbb d len =
     (case CBB_flush malloc cbb d of
        (False, cbb) \<Rightarrow> (None, cbb)
      | (True, cbb) \<Rightarrow>
          (case cbb_buffer_add malloc (base cbb) len of
             (False, b) \<Rightarrow> (None, cbb\<lparr>base := b\<rparr>)
           | (True, b) \<Rightarrow> (Some (blen (base cbb)), cbb\<lparr>base := b\<rparr>)))"

definition CBB_reserve :: "libc_malloc \<Rightarrow> CBB \<Rightarrow> nat \<Rightarrow> size_t \<Rightarrow> size_t option \<times> CBB" where
  "CBB_reserve malloc cbb d len =
     (case CBB_flush malloc cbb d of
        (False, cbb) \<Rightarrow> (None, cbb)
      | (True, cbb) \<Rightarrow>
          (case cbb_buffer_reserve malloc (base cbb) len of
             (False, b) \<Rightarrow> (None, cbb\<lparr>base := b\<rparr>)
           | (True, b) \<Rightarrow> (Some (blen (base cbb)), cbb\<lparr>base := b\<rparr>)))"

definition CBB_did_write :: "CBB \<Rightarrow> nat \<Rightarrow> size_t \<Rightarrow> bool \<times> CBB" where
  "CBB_did_write cbb d len =
     (let newlen = blen (base cbb) + len in
      if d < length (children cbb) \<or> newlen < blen (base cbb) \<or> newlen > cap (base cbb)
      then (False, cbb)
      else (True, cbb\<lparr>base := (base cbb)\<lparr>blen := newlen\<rparr>\<rparr>))"

definition CBB_add_bytes :: "libc_malloc \<Rightarrow> CBB \<Rightarrow> nat \<Rightarrow> u8 list \<Rightarrow> size_t \<Rightarrow> bool \<times> CBB" where
  "CBB_add_bytes malloc cbb d data len =
     (case CBB_add_space malloc cbb d len of
        (None, cbb) \<Rightarrow> (False, cbb)
      | (Some out, cbb) \<Rightarrow>
          (True, cbb\<lparr>base := write_buf (store (unat out) (take (unat len) data)) (base cbb)\<rparr>))"

definition CBB_add_zeros :: "libc_malloc \<Rightarrow> CBB \<Rightarrow> nat \<Rightarrow> size_t \<Rightarrow> bool \<times> CBB" where
  "CBB_add_zeros malloc cbb d len =
     (case CBB_add_space malloc cbb d len of
        (None, cbb) \<Rightarrow> (False, cbb)
      | (Some out, cbb) \<Rightarrow>
          (True, cbb\<lparr>base := write_buf (store (unat out) (replicate (unat len) 0)) (base cbb)\<rparr>))"

definition cbb_add_u :: "libc_malloc \<Rightarrow> CBB \<Rightarrow> nat \<Rightarrow> u64 \<Rightarrow> size_t \<Rightarrow> bool \<times> CBB" where
  "cbb_add_u malloc cbb d v len_len =
     (case CBB_add_space malloc cbb d len_len of
        (None, cbb) \<Rightarrow> (False, cbb)
      | (Some out, cbb) \<Rightarrow>
          (let cbb = cbb\<lparr>base := write_buf (\<lambda>p. fst (put_be p (unat out) (unat len_len) v)) (base cbb)\<rparr>;
               v = snd (put_be [] (unat out) (unat len_len) v)
           in if v \<noteq> 0 then (False, cbb_on_error cbb d) else (True, cbb)))"

definition CBB_add_u8 :: "libc_malloc \<Rightarrow> CBB \<Rightarrow> nat \<Rightarrow> u8 \<Rightarrow> bool \<times> CBB" where
  "CBB_add_u8 malloc cbb d value = cbb_add_u malloc cbb d (ucast value) 1"

definition CBB_add_u16 :: "libc_malloc \<Rightarrow> CBB \<Rightarrow> nat \<Rightarrow> u16 \<Rightarrow> bool \<times> CBB" where
  "CBB_add_u16 malloc cbb d value = cbb_add_u malloc cbb d (ucast value) 2"

definition CBB_add_u16le :: "libc_malloc \<Rightarrow> CBB \<Rightarrow> nat \<Rightarrow> u16 \<Rightarrow> bool \<times> CBB" where
  "CBB_add_u16le malloc cbb d value = CBB_add_u16 malloc cbb d (CRYPTO_bswap2 value)"

definition CBB_add_u24 :: "libc_malloc \<Rightarrow> CBB \<Rightarrow> nat \<Rightarrow> u32 \<Rightarrow> bool \<times> CBB" where
  "CBB_add_u24 malloc cbb d value = cbb_add_u malloc cbb d (ucast value) 3"

definition CBB_add_u32 :: "libc_malloc \<Rightarrow> CBB \<Rightarrow> nat \<Rightarrow> u32 \<Rightarrow> bool \<times> CBB" where
  "CBB_add_u32 malloc cbb d value = cbb_add_u malloc cbb d (ucast value) 4"

definition CBB_add_u32le :: "libc_malloc \<Rightarrow> CBB \<Rightarrow> nat \<Rightarrow> u32 \<Rightarrow> bool \<times> CBB" where
  "CBB_add_u32le malloc cbb d value = CBB_add_u32 malloc cbb d (CRYPTO_bswap4 value)"

definition CBB_add_u64 :: "libc_malloc \<Rightarrow> CBB \<Rightarrow> nat \<Rightarrow> u64 \<Rightarrow> bool \<times> CBB" where
  "CBB_add_u64 malloc cbb d value = cbb_add_u malloc cbb d value 8"

definition CBB_add_u64le :: "libc_malloc \<Rightarrow> CBB \<Rightarrow> nat \<Rightarrow> u64 \<Rightarrow> bool \<times> CBB" where
  "CBB_add_u64le malloc cbb d value = CBB_add_u64 malloc cbb d (CRYPTO_bswap8 value)"

definition CBB_discard_child :: "CBB \<Rightarrow> nat \<Rightarrow> CBB" where
  "CBB_discard_child cbb d =
     (if length (children cbb) \<le> d then cbb
      else \<lparr>base = (base cbb)\<lparr>blen := offset (children cbb ! d)\<rparr>, children = take d (children cbb)\<rparr>)"

section \<open>ASN.1\<close>

text \<open>The loop that counts the base-128 digits.\<close>

function base128_len_len :: "u64 \<Rightarrow> nat" where
  "base128_len_len copy = (if copy > 0 then Suc (base128_len_len (drop_bit 7 copy)) else 0)"
  by pat_completeness auto
termination
  by (relation "measure unat") (auto simp: unat_drop_bit_div word_less_nat_alt)

declare base128_len_len.simps [simp del]

text \<open>The loop that adds them; the counter is \<open>i + 1\<close>.\<close>

primrec add_base128_loop :: "libc_malloc \<Rightarrow> u64 \<Rightarrow> nat \<Rightarrow> CBB \<Rightarrow> nat \<Rightarrow> bool \<times> CBB" where
  "add_base128_loop malloc v 0 cbb d = (True, cbb)"
| "add_base128_loop malloc v (Suc i) cbb d =
     (let byte = ucast (drop_bit (7 * i) v AND 0x7f) :: u8;
          byte = (if i \<noteq> 0 then byte OR 0x80 else byte)
      in case CBB_add_u8 malloc cbb d byte of
           (False, cbb) \<Rightarrow> (False, cbb)
         | (True, cbb) \<Rightarrow> add_base128_loop malloc v i cbb d)"

definition add_base128_integer :: "libc_malloc \<Rightarrow> CBB \<Rightarrow> nat \<Rightarrow> u64 \<Rightarrow> bool \<times> CBB" where
  "add_base128_integer malloc cbb d v =
     (let len_len = base128_len_len v;
          len_len = (if len_len = 0 then 1 else len_len)
      in add_base128_loop malloc v len_len cbb d)"

definition CBB_add_asn1 :: "libc_malloc \<Rightarrow> CBB \<Rightarrow> nat \<Rightarrow> CBS_ASN1_TAG \<Rightarrow> bool \<times> CBB" where
  "CBB_add_asn1 malloc cbb d tag =
     (case CBB_flush malloc cbb d of
        (False, cbb) \<Rightarrow> (False, cbb)
      | (True, cbb) \<Rightarrow>
          (let tag_bits = ucast (drop_bit CBS_ASN1_TAG_SHIFT tag AND 0xe0) :: u8;
               tag_number = tag AND CBS_ASN1_TAG_NUMBER_MASK;
               added =
                 (if tag_number \<ge> 0x1f then
                    (case CBB_add_u8 malloc cbb d (tag_bits OR 0x1f) of
                       (False, cbb) \<Rightarrow> (False, cbb)
                     | (True, cbb) \<Rightarrow> add_base128_integer malloc cbb d (ucast tag_number))
                  else CBB_add_u8 malloc cbb d (tag_bits OR ucast tag_number))
           in case added of
                (False, cbb) \<Rightarrow> (False, cbb)
              | (True, cbb) \<Rightarrow> cbb_add_child malloc cbb d 1 True))"

text \<open>
  The loop of \<open>CBB_add_asn1_uint64_with_tag\<close> over the indices from \<open>i\<close> on: whether it
  succeeded, the flag \<open>started\<close>, and the builder.
\<close>

fun add_uint64_loop :: "libc_malloc \<Rightarrow> u64 \<Rightarrow> nat list \<Rightarrow> bool \<Rightarrow> CBB \<Rightarrow> nat \<Rightarrow> bool \<times> bool \<times> CBB" where
  "add_uint64_loop malloc value [] started cbb d = (True, started, cbb)"
| "add_uint64_loop malloc value (i # is) started cbb d =
     (let byte = ucast (drop_bit (8 * (7 - i)) value AND 0xff) :: u8 in
      if \<not> started \<and> byte = 0 then add_uint64_loop malloc value is started cbb d
      else
        (case (if \<not> started \<and> byte AND 0x80 \<noteq> 0 then CBB_add_u8 malloc cbb d 0 else (True, cbb)) of
           (False, cbb) \<Rightarrow> (False, started, cbb)
         | (True, cbb) \<Rightarrow>
             (case CBB_add_u8 malloc cbb d byte of
                (False, cbb) \<Rightarrow> (False, True, cbb)
              | (True, cbb) \<Rightarrow> add_uint64_loop malloc value is True cbb d)))"

definition CBB_add_asn1_uint64_with_tag :: "libc_malloc \<Rightarrow> CBB \<Rightarrow> nat \<Rightarrow> u64 \<Rightarrow> CBS_ASN1_TAG \<Rightarrow> bool \<times> CBB" where
  "CBB_add_asn1_uint64_with_tag malloc cbb d value tag =
     (case CBB_add_asn1 malloc cbb d tag of
        (False, cbb) \<Rightarrow> (False, cbb_on_error cbb d)
      | (True, cbb) \<Rightarrow>
          (case add_uint64_loop malloc value [0..<8] False cbb (Suc d) of
             (False, started, cbb) \<Rightarrow> (False, cbb_on_error cbb d)
           | (True, started, cbb) \<Rightarrow>
               (case (if \<not> started then CBB_add_u8 malloc cbb (Suc d) 0 else (True, cbb)) of
                  (False, cbb) \<Rightarrow> (False, cbb_on_error cbb d)
                | (True, cbb) \<Rightarrow> CBB_flush malloc cbb d)))"

definition CBB_add_asn1_uint64 :: "libc_malloc \<Rightarrow> CBB \<Rightarrow> nat \<Rightarrow> u64 \<Rightarrow> bool \<times> CBB" where
  "CBB_add_asn1_uint64 malloc cbb d value =
     CBB_add_asn1_uint64_with_tag malloc cbb d value CBS_ASN1_INTEGER"

text \<open>The \<open>int64_t\<close> in two's complement; \<open>bytes\<close> is its representation in memory, low byte first.\<close>

fun int64_start :: "u8 list \<Rightarrow> nat \<Rightarrow> nat" where
  "int64_start bytes 0 = 0"
| "int64_start bytes (Suc start) =
     (if bytes ! Suc start = 0xff \<and> bytes ! start AND 0x80 \<noteq> 0 then int64_start bytes start
      else Suc start)"

primrec add_int64_loop :: "libc_malloc \<Rightarrow> u8 list \<Rightarrow> nat \<Rightarrow> CBB \<Rightarrow> nat \<Rightarrow> bool \<times> CBB" where
  "add_int64_loop malloc bytes 0 cbb d = (True, cbb)"
| "add_int64_loop malloc bytes (Suc i) cbb d =
     (case CBB_add_u8 malloc cbb d (bytes ! i) of
        (False, cbb) \<Rightarrow> (False, cbb)
      | (True, cbb) \<Rightarrow> add_int64_loop malloc bytes i cbb d)"

definition CBB_add_asn1_int64_with_tag :: "libc_malloc \<Rightarrow> CBB \<Rightarrow> nat \<Rightarrow> u64 \<Rightarrow> CBS_ASN1_TAG \<Rightarrow> bool \<times> CBB" where
  "CBB_add_asn1_int64_with_tag malloc cbb d value tag =
     (if sint value \<ge> 0 then CBB_add_asn1_uint64_with_tag malloc cbb d value tag
      else
        (let bytes = rev (be_bytes 8 (unat value)); start = int64_start bytes 7 in
         case CBB_add_asn1 malloc cbb d tag of
           (False, cbb) \<Rightarrow> (False, cbb_on_error cbb d)
         | (True, cbb) \<Rightarrow>
             (case add_int64_loop malloc bytes (Suc start) cbb (Suc d) of
                (False, cbb) \<Rightarrow> (False, cbb_on_error cbb d)
              | (True, cbb) \<Rightarrow> CBB_flush malloc cbb d)))"

definition CBB_add_asn1_int64 :: "libc_malloc \<Rightarrow> CBB \<Rightarrow> nat \<Rightarrow> u64 \<Rightarrow> bool \<times> CBB" where
  "CBB_add_asn1_int64 malloc cbb d value =
     CBB_add_asn1_int64_with_tag malloc cbb d value CBS_ASN1_INTEGER"

definition CBB_add_asn1_octet_string :: "libc_malloc \<Rightarrow> CBB \<Rightarrow> nat \<Rightarrow> u8 list \<Rightarrow> size_t \<Rightarrow> bool \<times> CBB" where
  "CBB_add_asn1_octet_string malloc cbb d data data_len =
     (case CBB_add_asn1 malloc cbb d CBS_ASN1_OCTETSTRING of
        (False, cbb) \<Rightarrow> (False, cbb_on_error cbb d)
      | (True, cbb) \<Rightarrow>
          (case CBB_add_bytes malloc cbb (Suc d) data data_len of
             (False, cbb) \<Rightarrow> (False, cbb_on_error cbb d)
           | (True, cbb) \<Rightarrow>
               (case CBB_flush malloc cbb d of
                  (False, cbb) \<Rightarrow> (False, cbb_on_error cbb d)
                | (True, cbb) \<Rightarrow> (True, cbb))))"

definition CBB_add_asn1_bool :: "libc_malloc \<Rightarrow> CBB \<Rightarrow> nat \<Rightarrow> int \<Rightarrow> bool \<times> CBB" where
  "CBB_add_asn1_bool malloc cbb d value =
     (case CBB_add_asn1 malloc cbb d CBS_ASN1_BOOLEAN of
        (False, cbb) \<Rightarrow> (False, cbb_on_error cbb d)
      | (True, cbb) \<Rightarrow>
          (case CBB_add_u8 malloc cbb (Suc d) (if value \<noteq> 0 then 0xff else 0) of
             (False, cbb) \<Rightarrow> (False, cbb_on_error cbb d)
           | (True, cbb) \<Rightarrow>
               (case CBB_flush malloc cbb d of
                  (False, cbb) \<Rightarrow> (False, cbb_on_error cbb d)
                | (True, cbb) \<Rightarrow> (True, cbb))))"

end
