(* ===== verification/Cbb_Buffer.thy ===== *)
theory Cbb_Buffer
  imports Cbb
begin

text \<open>
  The invariant of the builder's buffer, the bytes written so far, and what reserving and
  adding space keeps of them.
\<close>

section \<open>The written bytes\<close>

definition buf_bytes :: "cbb_buffer_st \<Rightarrow> u8 list" where
  "buf_bytes b = (case buf b of None \<Rightarrow> [] | Some p \<Rightarrow> p)"

definition bytes :: "cbb_buffer_st \<Rightarrow> u8 list" where
  "bytes b = take (unat (blen b)) (buf_bytes b)"

definition buffer_wf :: "cbb_buffer_st \<Rightarrow> bool" where
  "buffer_wf b \<longleftrightarrow> blen b \<le> cap b \<and> unat (cap b) \<le> length (buf_bytes b) \<and>
     (can_resize b \<longrightarrow> length (buf_bytes b) = unat (cap b))"

lemma length_bytes [simp]: "buffer_wf b \<Longrightarrow> length (bytes b) = unat (blen b)"
  by (simp add: bytes_def buffer_wf_def word_le_nat_alt min_def)

lemma set_error_simps [simp]:
  "error (set_error b)" "blen (set_error b) = blen b" "cap (set_error b) = cap b"
  "can_resize (set_error b) = can_resize b" "buf_bytes (set_error b) = buf_bytes b"
  "bytes (set_error b) = bytes b" "buffer_wf (set_error b) = buffer_wf b"
  by (simp_all add: set_error_def buf_bytes_def bytes_def buffer_wf_def)

lemma write_buf_simps [simp]:
  "blen (write_buf f b) = blen b" "cap (write_buf f b) = cap b" "error (write_buf f b) = error b"
  "can_resize (write_buf f b) = can_resize b"
  by (simp_all add: write_buf_def)

lemma buf_bytes_write: "f [] = [] \<Longrightarrow> buf_bytes (write_buf f b) = f (buf_bytes b)"
  by (cases "buf b") (simp_all add: write_buf_def buf_bytes_def)

lemma buffer_wf_write:
  "buffer_wf b \<Longrightarrow> length (buf_bytes (write_buf f b)) = length (buf_bytes b) \<Longrightarrow> buffer_wf (write_buf f b)"
  by (simp add: buffer_wf_def)

lemma take_eq_mono: "n \<le> m \<Longrightarrow> take m xs = take m ys \<Longrightarrow> take n xs = take n ys"
  by (metis min.absorb1 take_take)

section \<open>Reserving and adding space\<close>

lemma new_capacity:
  assumes "\<not> newlen < (old :: size_t)" "newlen > c"
    "nc = (if c * 2 < c \<or> c * 2 < newlen then newlen else c * 2)"
  shows "newlen \<le> nc" "c \<le> nc"
  using assms by (auto simp: not_less)

lemma cbb_buffer_reserve_spec:
  assumes wf: "buffer_wf b" and m: "malloc_spec malloc" and r: "cbb_buffer_reserve malloc b len = (ok, b')"
  shows "buffer_wf b'" "bytes b' = bytes b" "blen b' = blen b" "can_resize b' = can_resize b"
    and "ok \<Longrightarrow> error b' = error b \<and> unat (blen b) + unat len \<le> unat (cap b')"
    and "\<not> ok \<Longrightarrow> error b'" "cap b \<le> cap b'"
proof -
  let ?newlen = "blen b + len"
  let ?newcap = "if cap b * 2 < cap b \<or> cap b * 2 < ?newlen then ?newlen else cap b * 2"
  have sum: "unat ?newlen = unat (blen b) + unat len" if "\<not> ?newlen < blen b"
    using that by (intro unat_add_no_wrap) (simp add: add_wraps_iff)
  consider (fail) "\<not> ok" "b' = set_error b"
    | (fits) "ok" "b' = b" "\<not> ?newlen < blen b" "?newlen \<le> cap b"
    | (grow) p where "ok" "\<not> ?newlen < blen b" "?newlen > cap b" "can_resize b"
        "OPENSSL_realloc malloc (buf b) ?newcap = Some p" "b' = b\<lparr>buf := Some p, cap := ?newcap\<rparr>"
    using r by (auto simp: cbb_buffer_reserve_def Let_def not_less split: if_splits option.splits)
  then have "buffer_wf b' \<and> bytes b' = bytes b \<and> blen b' = blen b \<and> can_resize b' = can_resize b \<and>
    (ok \<longrightarrow> error b' = error b \<and> unat (blen b) + unat len \<le> unat (cap b')) \<and>
    (\<not> ok \<longrightarrow> error b') \<and> cap b \<le> cap b'"
  proof cases
    case fail
    then show ?thesis using wf by simp
  next
    case fits
    then show ?thesis using wf sum by (simp add: word_le_nat_alt)
  next
    case (grow p)
    note nc = new_capacity [OF grow(2,3) refl]
    have len: "length (buf_bytes b) = unat (cap b)" using wf grow(4) by (simp add: buffer_wf_def)
    have p: "length p = unat ?newcap" "take (unat (blen b)) p = bytes b"
    proof -
      show "length p = unat ?newcap"
        using grow(5) m len by (cases "buf b")
          (simp_all add: OPENSSL_realloc_None_length OPENSSL_realloc_Some(1) buf_bytes_def)
      show "take (unat (blen b)) p = bytes b"
      proof (cases "buf b")
        case None
        then show ?thesis using wf by (simp add: bytes_def buf_bytes_def buffer_wf_def word_le_nat_alt)
      next
        case (Some q)
        then have q: "buf_bytes b = q" by (simp add: buf_bytes_def)
        have "unat (blen b) \<le> min (length q) (unat ?newcap)"
          using wf nc len q by (simp add: buffer_wf_def word_le_nat_alt)
        moreover have "take (min (length q) (unat ?newcap)) p = take (min (length q) (unat ?newcap)) q"
          using grow(5) m Some len q by (intro OPENSSL_realloc_Some(2)) simp_all
        ultimately show ?thesis unfolding bytes_def q by (rule take_eq_mono)
      qed
    qed
    have "blen b \<le> ?newcap" using wf nc(2) unfolding buffer_wf_def by (blast intro: order.trans)
    then have "buffer_wf b'"
      using p(1) grow(6) by (simp add: buffer_wf_def buf_bytes_def split del: if_split)
    moreover have "bytes b' = bytes b" using p(2) grow(6) by (simp add: bytes_def buf_bytes_def)
    moreover have "unat (blen b) + unat len \<le> unat ?newcap"
      using nc(1) sum [OF grow(2)] by (simp add: word_le_nat_alt)
    ultimately show ?thesis using grow(1,6) nc(2) by (simp split del: if_split)
  qed
  then show "buffer_wf b'" "bytes b' = bytes b" "blen b' = blen b" "can_resize b' = can_resize b"
    "ok \<Longrightarrow> error b' = error b \<and> unat (blen b) + unat len \<le> unat (cap b')"
    "\<not> ok \<Longrightarrow> error b'" "cap b \<le> cap b'" by blast+
qed

lemma cbb_buffer_reserve_room:
  "unat (blen b) + unat len \<le> unat (cap b) \<Longrightarrow> cbb_buffer_reserve malloc b len = (True, b)"
proof -
  assume le: "unat (blen b) + unat len \<le> unat (cap b)"
  then have "unat (blen b) + unat len < 2 ^ LENGTH(64)"
    using unat_lt2p [of "cap b"] by (rule order.strict_trans1)
  then have "unat (blen b + len) = unat (blen b) + unat len" by (rule unat_add_no_wrap)
  with le show ?thesis by (simp add: cbb_buffer_reserve_def Let_def word_less_nat_alt)
qed

text \<open>After adding space the buffer holds the old bytes and the new space behind them.\<close>

lemma cbb_buffer_add_spec:
  assumes wf: "buffer_wf b" and m: "malloc_spec malloc" and r: "cbb_buffer_add malloc b len = (True, b')"
  obtains gap rest where "buf_bytes b' = bytes b @ gap @ rest" "length gap = unat len"
    "buffer_wf b'" "unat (blen b') = unat (blen b) + unat len" "error b' = error b"
    "can_resize b' = can_resize b" "cap b \<le> cap b'"
proof -
  from r obtain b1 where b1: "cbb_buffer_reserve malloc b len = (True, b1)" "b' = b1\<lparr>blen := blen b1 + len\<rparr>"
    by (auto simp: cbb_buffer_add_def split: prod.splits bool.splits)
  note s = cbb_buffer_reserve_spec [OF wf m b1(1)]
  have le: "unat (blen b) + unat len \<le> unat (cap b1)" using s(5) by simp
  then have "unat (blen b) + unat len < 2 ^ LENGTH(64)"
    using unat_lt2p [of "cap b1"] by (rule order.strict_trans1)
  then have u: "unat (blen b') = unat (blen b) + unat len"
    using b1(2) s(3) by (simp add: unat_add_no_wrap)
  have bb: "buf_bytes b' = buf_bytes b1" using b1(2) by (simp add: buf_bytes_def)
  have le2: "unat (cap b1) \<le> length (buf_bytes b1)" using s(1) by (simp add: buffer_wf_def)
  let ?p = "buf_bytes b1" and ?n = "unat (blen b)"
  show thesis
  proof (rule that [of "take (unat len) (drop ?n ?p)" "drop (?n + unat len) ?p"])
    have "bytes b = take ?n ?p" using s(2,3) by (simp add: bytes_def)
    then show "buf_bytes b' = bytes b @ take (unat len) (drop ?n ?p) @ drop (?n + unat len) ?p"
      unfolding bb by (metis add.commute append_take_drop_id drop_drop)
    show "length (take (unat len) (drop ?n ?p)) = unat len" using le le2 by simp
    show "buffer_wf b'"
      using s(1) le u b1(2) bb by (simp add: buffer_wf_def word_le_nat_alt)
  qed (use s u b1(2) in simp_all)
qed

lemma cbb_buffer_add_fail:
  assumes "buffer_wf b" "malloc_spec malloc" "cbb_buffer_add malloc b len = (False, b')"
  shows "buffer_wf b'" "error b'"
  using cbb_buffer_reserve_spec [OF assms(1,2)] assms(3)
  by (fastforce simp: cbb_buffer_add_def split: prod.splits bool.splits)+

lemma cbb_buffer_add_room:
  "unat (blen b) + unat len \<le> unat (cap b) \<Longrightarrow>
     cbb_buffer_add malloc b len = (True, b\<lparr>blen := blen b + len\<rparr>)"
  by (simp add: cbb_buffer_add_def cbb_buffer_reserve_room)

end
