(* ===== verification/Cbb_Spec.thy ===== *)
theory Cbb_Spec
  imports Cbb_Buffer
begin

text \<open>
  The abstract builder: a stack of frames, each a length prefix still to be written and the
  bytes added behind it. Flushing the pending children of a builder closes their frames.
\<close>

section \<open>Frames\<close>

datatype length_prefix = Root | Fixed nat | Asn1

type_synonym frames = "(length_prefix \<times> u8 list) list"

fun encode :: "length_prefix \<Rightarrow> u8 list \<Rightarrow> u8 list option" where
  "encode Root body = Some body"
| "encode (Fixed n) body = (if length body < 256 ^ n then Some (be_bytes n (length body) @ body) else None)"
| "encode Asn1 body = (if length body < 4294967295 then Some (der_len (length body) @ body) else None)"

text \<open>The bytes that a stack of frames adds to the frame below it.\<close>

fun close :: "frames \<Rightarrow> u8 list option" where
  "close [] = Some []"
| "close ((k, body) # fs) = Option.bind (close fs) (\<lambda>inner. encode k (body @ inner))"

definition child_kind :: "cbb_child_st \<Rightarrow> length_prefix" where
  "child_kind c = (if pending_is_asn1 c then Asn1 else Fixed (unat (pending_len_len c)))"

definition child_start :: "cbb_child_st \<Rightarrow> nat" where
  "child_start c = unat (offset c) + unat (pending_len_len c)"

fun frames :: "length_prefix \<Rightarrow> nat \<Rightarrow> cbb_child_st list \<Rightarrow> u8 list \<Rightarrow> frames" where
  "frames k s [] w = [(k, drop s w)]"
| "frames k s (c # cs) w =
     (k, take (unat (offset c) - s) (drop s w)) # frames (child_kind c) (child_start c) cs w"

fun chain_wf :: "nat \<Rightarrow> cbb_child_st list \<Rightarrow> nat \<Rightarrow> bool" where
  "chain_wf s [] n \<longleftrightarrow> s \<le> n"
| "chain_wf s (c # cs) n \<longleftrightarrow>
     s \<le> unat (offset c) \<and> (pending_is_asn1 c \<longrightarrow> pending_len_len c = 1) \<and> chain_wf (child_start c) cs n"

definition cbb_wf :: "CBB \<Rightarrow> bool" where
  "cbb_wf cbb \<longleftrightarrow> buffer_wf (base cbb) \<and>
     (error (base cbb) \<or> chain_wf 0 (children cbb) (unat (blen (base cbb))))"

definition cbb_frames :: "CBB \<Rightarrow> frames" where
  "cbb_frames cbb = frames Root 0 (children cbb) (bytes (base cbb))"

lemma chain_wf_le: "chain_wf s cs n \<Longrightarrow> s \<le> n"
proof (induction cs arbitrary: s)
  case (Cons c cs)
  then have "child_start c \<le> n" "s \<le> unat (offset c)" by simp_all
  then show ?case by (simp add: child_start_def)
qed simp

section \<open>Writing one length prefix\<close>

lemma asn1_len_prefix_short:
  "unat len < 128 \<Longrightarrow> asn1_len_prefix len = Some (1, ucast len, 0)"
  by (simp add: asn1_len_prefix_def word_less_nat_alt)

lemma octets_eq:
  "n < 256 \<Longrightarrow> octets n = 1"
  "256 \<le> n \<Longrightarrow> n < 65536 \<Longrightarrow> octets n = 2"
  "65536 \<le> n \<Longrightarrow> n < 16777216 \<Longrightarrow> octets n = 3"
  "16777216 \<le> n \<Longrightarrow> n < 4294967296 \<Longrightarrow> octets n = 4"
  by (simp add: octets.simps, (rule octets_unique; simp)+)

lemma asn1_len_prefix_long:
  assumes "128 \<le> unat len" "unat len < 4294967295"
  shows "asn1_len_prefix len =
    Some (word_of_nat (octets (unat len) + 1), word_of_nat (128 + octets (unat len)), len)"
proof -
  let ?n = "unat len"
  consider "?n < 256" | "256 \<le> ?n" "?n < 65536" | "65536 \<le> ?n" "?n < 16777216"
    | "16777216 \<le> ?n" "?n < 4294967296" using assms(2) by linarith
  then show ?thesis
    using assms octets_eq [of ?n]
    by cases (simp_all add: asn1_len_prefix_def word_less_nat_alt not_less)
qed

lemma asn1_len_prefix_None: "asn1_len_prefix len = None \<longleftrightarrow> 4294967295 \<le> unat len"
  by (auto simp: asn1_len_prefix_def word_less_nat_alt)

lemma put_be_nil [simp]: "fst (put_be [] off n v) = []"
  by (induction n arbitrary: v) auto

lemma put_be_rest:
  "snd (put_be p off n v) = 0 \<longleftrightarrow> unat v < 256 ^ n"
  by (simp add: snd_put_be word_unat_eq_iff unat_drop_bit_div div_eq_0_iff power_mult)

lemma buf_bytes_split: "buffer_wf b \<Longrightarrow> \<exists>rest. buf_bytes b = bytes b @ rest"
  by (metis append_take_drop_id bytes_def)

text \<open>The bytes after a write to the buffer, given what the write makes of it.\<close>

lemma bytes_after_write:
  assumes "buffer_wf b" "f [] = []" "f (buf_bytes b) = w @ rest" "length w = unat (blen b)"
    "length (f (buf_bytes b)) = length (buf_bytes b)"
  shows "bytes (write_buf f b) = w" "buf_bytes (write_buf f b) = w @ rest" "buffer_wf (write_buf f b)"
  using assms by (simp_all add: bytes_def buf_bytes_write buffer_wf_write)

lemma flush_put_be:
  assumes wf: "buffer_wf b" and bs: "bytes b = pre @ gap @ body"
    and off: "length pre = unat off" and n: "length gap = unat n"
  shows "buffer_wf (write_buf (\<lambda>p. fst (put_be p (unat off) (unat n) len)) b)"
    and "bytes (write_buf (\<lambda>p. fst (put_be p (unat off) (unat n) len)) b) =
      pre @ be_bytes (unat n) (unat len) @ body"
proof -
  from buf_bytes_split [OF wf] bs obtain rest where r: "buf_bytes b = pre @ gap @ body @ rest" by auto
  let ?f = "\<lambda>p. fst (put_be p (unat off) (unat n) len)"
  have f: "?f (buf_bytes b) = (pre @ be_bytes (unat n) (unat len) @ body) @ rest"
    using off n by (simp add: r fst_put_be)
  have l: "length (pre @ be_bytes (unat n) (unat len) @ body) = unat (blen b)"
    using length_bytes [OF wf] off n by (simp add: bs)
  show "buffer_wf (write_buf ?f b)"
    by (rule bytes_after_write(3) [where f = ?f, OF wf _ f l]) simp_all
  show "bytes (write_buf ?f b) = pre @ be_bytes (unat n) (unat len) @ body"
    by (rule bytes_after_write(1) [where f = ?f, OF wf _ f l]) simp_all
qed

lemma flush_asn1_prefix_short:
  assumes wf: "buffer_wf b" and bs: "bytes b = pre @ gap @ body"
    and off: "length pre = unat (offset c)" and gap: "length gap = 1" and len: "unat len = length body"
    and short: "length body < 128"
  shows "\<exists>b'. flush_asn1_prefix malloc b c st len = (Some (offset c + 1, 0, 0), b') \<and>
    buffer_wf b' \<and> bytes b' = pre @ der_len (length body) @ body \<and> error b' = error b \<and> cap b \<le> cap b'"
proof -
  from buf_bytes_split [OF wf] bs obtain rest where r: "buf_bytes b = pre @ gap @ body @ rest" by auto
  obtain g where g: "gap = [g]" using gap by (cases gap) auto
  let ?f = "\<lambda>p. p[unat (offset c) := ucast len :: u8]"
  have "(ucast len :: u8) = word_of_nat (length body)" unfolding len [symmetric] by simp
  then have f: "?f (buf_bytes b) = (pre @ der_len (length body) @ body) @ rest"
    using off short by (simp add: r g der_len_def list_update_append)
  have l: "length (pre @ der_len (length body) @ body) = unat (blen b)"
    using length_bytes [OF wf] short by (simp add: bs g der_len_def)
  note w = bytes_after_write [where f = ?f, OF wf _ f l]
  show ?thesis
    using w short len by (simp add: flush_asn1_prefix_def asn1_len_prefix_short)
qed

lemma extra_bytes:
  assumes "k \<le> 4"
  shows "unat (ucast ((word_of_nat (k + 1) :: u8) - 1) :: size_t) = k"
    and "unat ((word_of_nat (k + 1) :: u8) - 1) = k" "(word_of_nat (k + 1) :: u8) = 1 \<longleftrightarrow> k = 0"
proof -
  have u: "unat (word_of_nat (k + 1) :: u8) = k + 1" using assms by (intro unat_eq_of_nat) simp
  then show "unat ((word_of_nat (k + 1) :: u8) - 1) = k"
    by (subst unat_sub) (simp_all add: word_le_nat_alt)
  then show "unat (ucast ((word_of_nat (k + 1) :: u8) - 1) :: size_t) = k" by (simp add: unat_ucast_up)
  show "(word_of_nat (k + 1) :: u8) = 1 \<longleftrightarrow> k = 0" using u by (simp add: word_unat_eq_iff)
qed

lemma flush_asn1_prefix_long:
  assumes wf: "buffer_wf b" and m: "malloc_spec malloc" and bs: "bytes b = pre @ gap @ body"
    and off: "length pre = unat (offset c)" and gap: "length gap = 1"
    and st: "unat st = unat (offset c) + 1" and len: "unat len = length body"
    and long: "128 \<le> length body" "length body < 4294967295"
    and r: "flush_asn1_prefix malloc b c st len = (res, b')"
  shows "res = None \<and> buffer_wf b' \<and> error b' \<and> unat (cap b) < unat (blen b) + octets (length body) \<or>
    (\<exists>gap'. res = Some (offset c + 1, word_of_nat (octets (length body) + 1) - 1, len) \<and>
      length gap' = octets (length body) \<and>
      buffer_wf b' \<and> bytes b' = pre @ [word_of_nat (128 + octets (length body))] @ gap' @ body \<and>
      error b' = error b \<and> cap b \<le> cap b')"
proof -
  let ?k = "octets (length body)" and ?i = "word_of_nat (128 + octets (length body)) :: u8"
  let ?e = "ucast ((word_of_nat (?k + 1) :: u8) - 1) :: size_t"
  have k: "0 < ?k" "?k \<le> 4" using octets_le_4 [of "length body"] long(2) by simp_all
  note e = extra_bytes [OF k(2)]
  have pre: "asn1_len_prefix len = Some (word_of_nat (?k + 1), ?i, len)"
    using asn1_len_prefix_long [of len] len long by simp
  obtain ok b1 where b1: "cbb_buffer_add malloc b ?e = (ok, b1)" by fastforce
  let ?mv = "memmove (unat (st + ?e)) (unat st) (unat len)" and ?up = "\<lambda>p. p[unat (offset c) := ?i]"
  have eq: "(res, b') = (if ok then (Some (offset c + 1, word_of_nat (?k + 1) - 1, len),
      write_buf ?up (write_buf ?mv b1)) else (None, b1))"
    using r pre e(3) k(1) b1 by (cases ok) (simp_all add: flush_asn1_prefix_def Let_def)
  show ?thesis
  proof (cases ok)
    case False
    have "unat (cap b) < unat (blen b) + ?k"
    proof (rule ccontr)
      assume "\<not> unat (cap b) < unat (blen b) + ?k"
      then have "cbb_buffer_add malloc b ?e = (True, b\<lparr>blen := blen b + ?e\<rparr>)"
        using e(1) by (intro cbb_buffer_add_room) simp
      with b1 False show False by simp
    qed
    then show ?thesis using eq False b1 cbb_buffer_add_fail [OF wf m] by auto
  next
    case True
    with b1 obtain g rest where g: "buf_bytes b1 = bytes b @ g @ rest" "length g = ?k" "buffer_wf b1"
      "unat (blen b1) = unat (blen b) + ?k" "error b1 = error b" "cap b \<le> cap b1"
      using e(1) by (auto elim: cbb_buffer_add_spec [OF wf m])
    let ?p = "pre @ gap @ body @ g @ rest" and ?h = "take ?k (body @ g)"
    have p: "buf_bytes b1 = ?p" using g(1) bs by simp
    have "unat (blen b) = length pre + 1 + length body"
      using length_bytes [OF wf] gap by (simp add: bs)
    then have "unat st + unat ?e < 2 ^ LENGTH(64)"
      using unat_lt2p [of "blen b1"] g(4) off st e(1) by simp
    then have ste: "unat (st + ?e) = length pre + 1 + ?k"
      using off st e(1) by (simp add: unat_add_no_wrap)
    have mv: "?mv (buf_bytes b1) = (pre @ gap @ ?h @ body) @ rest"
      using off st gap len g(2) unfolding p memmove_def ste by simp
    have lh: "length ?h = ?k" using g(2) by simp
    have l1: "length (pre @ gap @ ?h @ body) = unat (blen b1)"
      using g(4) gap lh length_bytes [OF wf] by (simp add: bs)
    note w1 = bytes_after_write [where f = ?mv, OF g(3) _ mv l1]
    have n1: "?mv [] = []" by (simp add: memmove_def)
    have n2: "length (?mv (buf_bytes b1)) = length (buf_bytes b1)"
      unfolding mv unfolding p using lh g(2) by simp
    note n = n1 n2
    have up: "?up (buf_bytes (write_buf ?mv b1)) = (pre @ [?i] @ ?h @ body) @ rest"
      unfolding w1(2) [OF n] using off gap by (cases gap) (simp_all add: list_update_append)
    have l2: "length (pre @ [?i] @ ?h @ body) = unat (blen (write_buf ?mv b1))"
      using l1 gap by simp
    note w2 = bytes_after_write [where f = ?up, OF w1(3) [OF n] _ up l2]
    then show ?thesis using eq True lh g(5,6) by auto
  qed
qed

text \<open>
  The outcome of writing a length prefix: the encoded child behind the bytes before it, or the
  error bit, when the contents are too long for the prefix or there is no room for it.
\<close>

definition flushed :: "length_prefix \<Rightarrow> u8 list \<Rightarrow> u8 list \<Rightarrow> cbb_buffer_st \<Rightarrow> bool \<times> cbb_buffer_st \<Rightarrow> bool" where
  "flushed k pre body b r \<longleftrightarrow> buffer_wf (snd r) \<and>
     (if fst r then
        (\<exists>enc. encode k body = Some enc \<and> bytes (snd r) = pre @ enc \<and> \<not> error (snd r) \<and> cap b \<le> cap (snd r))
      else error (snd r) \<and>
        (\<forall>enc. encode k body = Some enc \<longrightarrow> unat (cap b) < length pre + length enc))"

lemma flush_child_asn1:
  assumes wf: "buffer_wf b" "\<not> error b" and m: "malloc_spec malloc" and bs: "bytes b = pre @ gap @ body"
    and off: "length pre = unat (offset c)" and gap: "length gap = 1"
    and st: "unat st = unat (offset c) + 1" and len: "unat len = length body"
    and p: "flush_asn1_prefix malloc b c st len = (res, b1)"
  shows "flushed Asn1 pre body b
    (case (res, b1) of
       (None, b) \<Rightarrow> (False, set_error b)
     | (Some (off, pending, len), b) \<Rightarrow>
         (let b' = write_buf (\<lambda>p. fst (put_be p (unat off) (unat pending) len)) b;
              len = snd (put_be [] (unat off) (unat pending) len)
          in if len \<noteq> 0 then (False, set_error b') else (True, b')))"
proof -
  let ?n = "length body" and ?k = "octets (length body)"
  have tot: "unat (blen b) = length pre + 1 + ?n" using length_bytes [OF wf(1)] gap by (simp add: bs)
  have off1: "unat (offset c + 1) = length pre + 1"
    using off unat_lt2p [of "blen b"] tot by (subst unat_add_no_wrap) simp_all
  consider "?n < 128" | "128 \<le> ?n" "?n < 4294967295" | "4294967295 \<le> ?n" by linarith
  then show ?thesis
  proof cases
    case 1
    with flush_asn1_prefix_short [OF wf(1) bs off gap len, of malloc st] p
    have r: "res = Some (offset c + 1, 0, 0)" "buffer_wf b1" "bytes b1 = pre @ der_len ?n @ body"
      "error b1 = error b" "cap b \<le> cap b1" by auto
    have "write_buf (\<lambda>p. fst (put_be p k 0 v)) b1 = b1" for k v
      by (cases "buf b1") (simp_all add: write_buf_def)
    then show ?thesis using r 1 wf(2) by (simp add: flushed_def Let_def)
  next
    case 2
    have k: "?k \<le> 4" using octets_le_4 [of ?n] 2(2) by simp
    from flush_asn1_prefix_long [OF wf(1) m bs off gap st len 2 p] show ?thesis
    proof
      assume "res = None \<and> buffer_wf b1 \<and> error b1 \<and> unat (cap b) < unat (blen b) + ?k"
      then show ?thesis using 2 tot by (simp add: flushed_def der_len_def)
    next
      assume "\<exists>gap'. res = Some (offset c + 1, word_of_nat (?k + 1) - 1, len) \<and> length gap' = ?k \<and>
        buffer_wf b1 \<and> bytes b1 = pre @ [word_of_nat (128 + ?k)] @ gap' @ body \<and>
        error b1 = error b \<and> cap b \<le> cap b1"
      then obtain g where g: "res = Some (offset c + 1, word_of_nat (?k + 1) - 1, len)" "length g = ?k"
        "buffer_wf b1" "bytes b1 = (pre @ [word_of_nat (128 + ?k)]) @ g @ body"
        "error b1 = error b" "cap b \<le> cap b1" by auto
      let ?p = "word_of_nat (?k + 1) - 1 :: u8"
      have u: "unat ?p = ?k" by (rule extra_bytes(2) [OF k])
      have u': "unat (word_of_nat ?k :: u8) = ?k" using k by (intro unat_eq_of_nat) simp
      have fit: "snd (put_be [] (unat (offset c + 1)) (unat ?p) len) = 0"
        using less_octets [of ?n] len by (simp only: put_be_rest u)
      have "length (pre @ [word_of_nat (128 + ?k)]) = unat (offset c + 1)" using off1 by simp
      note w = flush_put_be [OF g(3,4) this, of ?p len, unfolded u, OF g(2)]
      show ?thesis
        using g(1,5,6) w fit wf(2) 2 len
        by (simp add: flushed_def Let_def der_len_def u')
    qed
  next
    case 3
    then have "res = None" "b1 = b"
      using p len asn1_len_prefix_None [of len] by (auto simp: flush_asn1_prefix_def)
    then show ?thesis using 3 wf by (simp add: flushed_def)
  qed
qed

lemma flush_child_spec:
  assumes wf: "buffer_wf b" "\<not> error b" and m: "malloc_spec malloc" and bs: "bytes b = pre @ gap @ body"
    and off: "length pre = unat (offset c)" and gap: "length gap = unat (pending_len_len c)"
    and asn1: "pending_is_asn1 c \<longrightarrow> pending_len_len c = 1"
  shows "flushed (child_kind c) pre body b (flush_child malloc c b)"
proof -
  let ?st = "offset c + ucast (pending_len_len c)" and ?len = "blen b - (offset c + ucast (pending_len_len c))"
  have tot: "unat (blen b) = unat (offset c) + unat (pending_len_len c) + length body"
    using length_bytes [OF wf(1)] off gap by (simp add: bs)
  have nw: "unat (offset c) + unat (ucast (pending_len_len c) :: size_t) < 2 ^ LENGTH(64)"
    using tot unat_lt2p [of "blen b"] by (simp add: unat_ucast_up)
  have st: "unat ?st = unat (offset c) + unat (pending_len_len c)"
    using nw by (simp add: unat_add_no_wrap unat_ucast_up)
  have len: "unat ?len = length body" using tot st by (subst unat_sub) (simp_all add: word_le_nat_alt)
  have guard: "\<not> (?st < offset c \<or> blen b < ?st)" using st tot by (simp add: word_less_nat_alt)
  show ?thesis
  proof (cases "pending_is_asn1 c")
    case True
    then have "length gap = 1" "unat ?st = unat (offset c) + 1" using asn1 gap st by simp_all
    with flush_child_asn1 [OF wf m bs off, of ?st ?len "fst (flush_asn1_prefix malloc b c ?st ?len)"
        "snd (flush_asn1_prefix malloc b c ?st ?len)"] len True guard
    show ?thesis by (simp add: flush_child_def child_kind_def Let_def)
  next
    case False
    note w = flush_put_be [OF wf(1) bs off gap, of ?len]
    from w wf(2) wf(1) len False guard show ?thesis
      by (auto simp: flush_child_def child_kind_def Let_def flushed_def put_be_rest)
  qed
qed

section \<open>Flushing closes the frames\<close>

lemma frames_eq: "\<exists>x fs. frames k s cs w = (k, x) # fs"
  by (cases cs) auto

definition closed :: "u8 list \<Rightarrow> frames \<Rightarrow> cbb_buffer_st \<Rightarrow> bool \<times> cbb_buffer_st \<Rightarrow> bool" where
  "closed pre fs b r \<longleftrightarrow> buffer_wf (snd r) \<and>
     (if fst r then
        (\<exists>y. close fs = Some y \<and> bytes (snd r) = pre @ y \<and> \<not> error (snd r) \<and> cap b \<le> cap (snd r))
      else error (snd r) \<and> (\<forall>y. close fs = Some y \<longrightarrow> unat (cap b) < length pre + length y))"

lemma length_der_len: "1 \<le> length (der_len n)"
  by (simp add: der_len_def)

lemma encode_length:
  assumes "encode (child_kind c) body = Some enc" "pending_is_asn1 c \<longrightarrow> pending_len_len c = 1"
  shows "unat (pending_len_len c) + length body \<le> length enc"
  using assms length_der_len [of "length body"]
  by (auto simp: child_kind_def split: if_splits)

text \<open>
  Flushing a chain of children: the bytes up to the chain's start, the bytes of the builder
  itself, and the closed frames of the children.
\<close>

lemma flush_children_spec:
  assumes "buffer_wf b" "\<not> error b" "malloc_spec malloc" "chain_wf s cs (unat (blen b))"
    and "frames k s cs (bytes b) = (k, x) # fs"
  shows "closed (take s (bytes b) @ x) fs b (flush_children malloc cs b)"
  using assms(4,5)
proof (induction cs arbitrary: s k x fs)
  case Nil
  then show ?case using assms(1,2) by (auto simp: closed_def)
next
  case (Cons c cs)
  let ?w = "bytes b" and ?off = "unat (offset c)" and ?n = "unat (pending_len_len c)"
  obtain x1 fs1 where f1: "frames (child_kind c) (child_start c) cs ?w = (child_kind c, x1) # fs1"
    using frames_eq by metis
  have c: "s \<le> ?off" "pending_is_asn1 c \<longrightarrow> pending_len_len c = 1" "chain_wf (child_start c) cs (unat (blen b))"
    using Cons.prems(1) by auto
  have fs: "fs = (child_kind c, x1) # fs1" "x = take (?off - s) (drop s ?w)"
    using Cons.prems(2) f1 by auto
  have pre: "take s ?w @ x = take ?off ?w" using c(1) fs(2) take_add [of s "?off - s" ?w] by simp
  have le: "child_start c \<le> length ?w" using chain_wf_le [OF c(3)] assms(1) by simp
  let ?gap = "take ?n (drop ?off ?w)"
  have gap: "take (child_start c) ?w = take ?off ?w @ ?gap" "length ?gap = ?n" "length (take ?off ?w) = ?off"
    using le by (simp_all add: child_start_def take_add)
  obtain ok b1 where b1: "flush_children malloc cs b = (ok, b1)" by fastforce
  from Cons.IH [OF c(3) f1] have IH: "closed (take (child_start c) ?w @ x1) fs1 b (ok, b1)" by (simp add: b1)
  show ?case
  proof (cases ok)
    case False
    have "unat (cap b) < ?off + length enc" if y1: "close fs1 = Some y1" and e: "encode (child_kind c) (x1 @ y1) = Some enc" for y1 enc
    proof -
      have "unat (cap b) < child_start c + length x1 + length y1"
        using IH False y1 le by (simp add: closed_def)
      then show ?thesis using encode_length [OF e c(2)] by (simp add: child_start_def)
    qed
    then show ?thesis
      using IH False b1 assms(2) gap(3) unfolding pre unfolding fs(1)
      by (auto simp: closed_def Option.bind_eq_Some_conv)
  next
    case True
    with IH obtain y1 where y1: "close fs1 = Some y1" "bytes b1 = take ?off ?w @ ?gap @ (x1 @ y1)"
      "\<not> error b1" "cap b \<le> cap b1" "buffer_wf b1" by (auto simp: closed_def gap(1))
    from flush_child_spec [OF y1(5,3) assms(3) y1(2) gap(3,2) c(2)]
    have "flushed (child_kind c) (take ?off ?w) (x1 @ y1) b1 (flush_child malloc c b1)" .
    moreover have "unat (cap b) < k" if "unat (cap b1) < k" for k
      using that y1(4) by (simp add: word_le_nat_alt)
    ultimately show ?thesis
      using y1(1,4) b1 True assms(2) unfolding pre unfolding fs(1)
      by (auto simp: closed_def flushed_def intro: order.trans split: if_splits)
  qed
qed

end
