(* ===== verification/Cbb_Writer.thy ===== *)
theory Cbb_Writer
  imports Cbb_Spec
begin

text \<open>
  The contract of the operations that add bytes to a builder, as the locale
  \<open>cbb_writer\<close>: they close the frames of the pending children and add given bytes, or they
  set the error bit, and then only when the children cannot be encoded or there is no room.
\<close>

section \<open>Flushing a builder of the chain\<close>

definition chain_start :: "nat \<Rightarrow> cbb_child_st list \<Rightarrow> nat" where
  "chain_start s cs = (if cs = [] then s else child_start (last cs))"

definition chain_kind :: "length_prefix \<Rightarrow> cbb_child_st list \<Rightarrow> length_prefix" where
  "chain_kind k cs = (if cs = [] then k else child_kind (last cs))"

lemma chain_take_Suc:
  "chain_start s (take (Suc d) (c # cs)) = chain_start (child_start c) (take d cs)"
  "chain_kind k (take (Suc d) (c # cs)) = chain_kind (child_kind c) (take d cs)"
  by (auto simp: chain_start_def chain_kind_def)

lemma frames_drop:
  "d \<le> length cs \<Longrightarrow> drop d (frames k s cs w) =
     frames (chain_kind k (take d cs)) (chain_start s (take d cs)) (drop d cs) w"
proof (induction d arbitrary: k s cs)
  case 0
  then show ?case by (simp add: chain_start_def chain_kind_def)
next
  case (Suc d)
  then obtain c cs' where "cs = c # cs'" by (cases cs) auto
  with Suc show ?case by (simp del: take_Suc_Cons add: chain_take_Suc)
qed

lemma length_frames [simp]: "length (frames k s cs w) = Suc (length cs)"
  by (induction cs arbitrary: k s) auto

lemma chain_wf_split:
  "d \<le> length cs \<Longrightarrow> chain_wf s cs n \<Longrightarrow>
     chain_wf (chain_start s (take d cs)) (drop d cs) n \<and>
     (\<forall>m \<ge> chain_start s (take d cs). chain_wf s (take d cs) m)"
proof (induction d arbitrary: s cs)
  case 0
  then show ?case by (simp add: chain_start_def)
next
  case (Suc d)
  then obtain c cs' where "cs = c # cs'" by (cases cs) auto
  with Suc show ?case by (simp del: take_Suc_Cons add: chain_take_Suc) (simp add: take_Suc_Cons)
qed

text \<open>Where the pending children of a builder start in the buffer.\<close>

definition pending_off :: "CBB \<Rightarrow> nat \<Rightarrow> nat" where
  "pending_off cbb d =
     (if d < length (children cbb) then unat (offset (children cbb ! d)) else unat (blen (base cbb)))"

definition pending :: "CBB \<Rightarrow> nat \<Rightarrow> frames" where
  "pending cbb d = drop (Suc d) (cbb_frames cbb)"

definition writes :: "u8 list \<Rightarrow> CBB \<Rightarrow> nat \<Rightarrow> bool \<times> CBB \<Rightarrow> bool" where
  "writes out cbb d r \<longleftrightarrow> cbb_wf (snd r) \<and>
     (if fst r then
        (\<exists>y. close (pending cbb d) = Some y \<and> children (snd r) = take d (children cbb) \<and>
          bytes (base (snd r)) = take (pending_off cbb d) (bytes (base cbb)) @ y @ out \<and>
          \<not> error (base (snd r)) \<and> cap (base cbb) \<le> cap (base (snd r)))
      else error (base (snd r)) \<and>
        (\<forall>y. close (pending cbb d) = Some y \<longrightarrow>
          unat (cap (base cbb)) < pending_off cbb d + length y + length out))"

locale cbb_writer =
  fixes malloc :: libc_malloc and opn :: "CBB \<Rightarrow> nat \<Rightarrow> bool \<times> CBB" and out :: "u8 list"
  assumes opn_writes:
    "malloc_spec malloc \<Longrightarrow> cbb_wf cbb \<Longrightarrow> \<not> error (base cbb) \<Longrightarrow> d \<le> length (children cbb) \<Longrightarrow>
       writes out cbb d (opn cbb d)"
    and opn_sticky: "error (base cbb) \<Longrightarrow> \<not> fst (opn cbb d) \<and> error (base (snd (opn cbb d)))"
begin

text \<open>On a builder with nothing pending the bytes are appended, and they are if there is room.\<close>

lemma opn_appends:
  assumes "malloc_spec malloc" "cbb_wf cbb" "length (children cbb) = d" "opn cbb d = (True, cbb')"
  shows "bytes (base cbb') = bytes (base cbb) @ out" "children cbb' = children cbb" "cbb_wf cbb'"
proof -
  have "\<not> error (base cbb)" using opn_sticky [of cbb d] assms(4) by auto
  from opn_writes [OF assms(1,2) this, of d] assms(3,4)
  have "writes out cbb d (True, cbb')" by simp
  moreover have "pending cbb d = []"
    using assms(3) by (simp add: pending_def cbb_frames_def)
  ultimately show "bytes (base cbb') = bytes (base cbb) @ out" "children cbb' = children cbb" "cbb_wf cbb'"
    using assms(2,3) by (auto simp: writes_def pending_off_def cbb_wf_def)
qed

lemma opn_room:
  assumes "malloc_spec malloc" "cbb_wf cbb" "\<not> error (base cbb)" "d \<le> length (children cbb)"
    and "close (pending cbb d) = Some y"
    and "pending_off cbb d + length y + length out \<le> unat (cap (base cbb))"
  shows "fst (opn cbb d)"
  using opn_writes [OF assms(1-4)] assms(5,6) by (auto simp: writes_def split: if_splits)

lemma opn_wf: "malloc_spec malloc \<Longrightarrow> cbb_wf cbb \<Longrightarrow> \<not> error (base cbb) \<Longrightarrow> d \<le> length (children cbb) \<Longrightarrow>
    cbb_wf (snd (opn cbb d))"
  using opn_writes by (auto simp: writes_def)

end

lemma pending_start:
  assumes "cbb_wf cbb" "\<not> error (base cbb)" "d \<le> length (children cbb)"
  obtains k s x where "drop d (cbb_frames cbb) = (k, x) # pending cbb d"
    "frames k s (drop d (children cbb)) (bytes (base cbb)) = (k, x) # pending cbb d"
    "chain_wf s (drop d (children cbb)) (unat (blen (base cbb)))"
    "\<forall>m \<ge> s. chain_wf 0 (take d (children cbb)) m" "s \<le> pending_off cbb d"
    "take s (bytes (base cbb)) @ x = take (pending_off cbb d) (bytes (base cbb))"
proof -
  let ?cs = "children cbb" and ?w = "bytes (base cbb)"
  let ?k = "chain_kind Root (take d ?cs)" and ?s = "chain_start 0 (take d ?cs)"
  have wf: "chain_wf 0 ?cs (unat (blen (base cbb)))" "length ?w = unat (blen (base cbb))"
    using assms by (auto simp: cbb_wf_def)
  note split = chain_wf_split [OF assms(3) wf(1)]
  have fr: "drop d (cbb_frames cbb) = frames ?k ?s (drop d ?cs) ?w"
    by (simp add: cbb_frames_def frames_drop [OF assms(3)])
  obtain x fs where f: "frames ?k ?s (drop d ?cs) ?w = (?k, x) # fs" using frames_eq by metis
  have "pending cbb d = tl (drop d (cbb_frames cbb))" by (simp add: pending_def drop_Suc tl_drop)
  then have fs: "fs = pending cbb d" using fr f by simp
  have s: "?s \<le> pending_off cbb d \<and> take ?s ?w @ x = take (pending_off cbb d) ?w"
  proof (cases "d < length ?cs")
    case True
    then have d: "drop d ?cs = ?cs ! d # drop (Suc d) ?cs" by (simp add: Cons_nth_drop_Suc)
    from split d have "?s \<le> unat (offset (?cs ! d))" by simp
    with d f True show ?thesis
      using take_add [of ?s "unat (offset (?cs ! d)) - ?s" ?w] by (auto simp: pending_off_def)
  next
    case False
    with assms(3) have "drop d ?cs = []" by simp
    with f split wf(2) False show ?thesis by (auto simp: pending_off_def)
  qed
  show thesis
    by (rule that [of ?k x ?s]) (use fr f fs split s in auto)
qed

lemma CBB_flush_writes:
  assumes "malloc_spec malloc" "cbb_wf cbb" "\<not> error (base cbb)" "d \<le> length (children cbb)"
  shows "writes [] cbb d (CBB_flush malloc cbb d)"
proof -
  from pending_start [OF assms(2-4)] obtain k s x where
    s: "frames k s (drop d (children cbb)) (bytes (base cbb)) = (k, x) # pending cbb d"
      "chain_wf s (drop d (children cbb)) (unat (blen (base cbb)))"
      "\<forall>m \<ge> s. chain_wf 0 (take d (children cbb)) m" "s \<le> pending_off cbb d"
      "take s (bytes (base cbb)) @ x = take (pending_off cbb d) (bytes (base cbb))" by metis
  let ?po = "pending_off cbb d"
  have bw: "buffer_wf (base cbb)" using assms(2) by (simp add: cbb_wf_def)
  have po: "?po \<le> length (bytes (base cbb))"
  proof (cases "d < length (children cbb)")
    case True
    then have d: "drop d (children cbb) = children cbb ! d # drop (Suc d) (children cbb)"
      by (simp add: Cons_nth_drop_Suc)
    have "child_start (children cbb ! d) \<le> unat (blen (base cbb))"
      using s(2) unfolding d by (auto intro: chain_wf_le)
    then show ?thesis using True bw by (simp add: pending_off_def child_start_def)
  qed (use bw in \<open>simp add: pending_off_def\<close>)
  obtain ok b where b: "flush_children malloc (drop d (children cbb)) (base cbb) = (ok, b)" by fastforce
  from flush_children_spec [OF bw assms(3,1) s(2,1)] s(5)
  have c: "closed (take ?po (bytes (base cbb))) (pending cbb d) (base cbb) (ok, b)" by (simp add: b)
  have r: "CBB_flush malloc cbb d = (ok, \<lparr>base = b, children = take d (children cbb)\<rparr>)"
    using assms(3,4) b by (simp add: CBB_flush_def)
  have "chain_wf 0 (take d (children cbb)) (unat (blen b))" if ok
  proof -
    have "length (bytes b) \<ge> ?po" using c that po by (auto simp: closed_def simp del: length_bytes)
    moreover have "length (bytes b) = unat (blen b)" using c by (auto simp: closed_def)
    ultimately show ?thesis using s(3,4) by auto
  qed
  with c r po show ?thesis by (auto simp: writes_def closed_def cbb_wf_def)
qed

interpretation wr_flush: cbb_writer malloc "CBB_flush malloc" "[]" for malloc
  by unfold_locales (use CBB_flush_writes in \<open>auto simp: CBB_flush_def\<close>)

section \<open>Writers in sequence\<close>

lemma pending_Nil [simp]: "length (children cbb) \<le> d \<Longrightarrow> pending cbb d = []"
  by (simp add: pending_def cbb_frames_def)

lemma pending_off_flushed [simp]: "length (children cbb) \<le> d \<Longrightarrow> pending_off cbb d = unat (blen (base cbb))"
  by (simp add: pending_off_def)

lemma pending_off_le:
  assumes "cbb_wf cbb" "\<not> error (base cbb)" "d \<le> length (children cbb)"
  shows "pending_off cbb d \<le> unat (blen (base cbb))"
proof (cases "d < length (children cbb)")
  case True
  have "chain_wf 0 (children cbb) (unat (blen (base cbb)))" using assms by (simp add: cbb_wf_def)
  from chain_wf_split [OF assms(3) this] True
  have "chain_wf (child_start (children cbb ! d)) (drop (Suc d) (children cbb)) (unat (blen (base cbb)))"
    by (simp flip: Cons_nth_drop_Suc)
  from chain_wf_le [OF this] True show ?thesis by (simp add: pending_off_def child_start_def)
qed simp

lemma writes_blen:
  assumes "writes out cbb d (True, cbb')" "close (pending cbb d) = Some y"
    and "cbb_wf cbb" "\<not> error (base cbb)" "d \<le> length (children cbb)"
  shows "unat (blen (base cbb')) = pending_off cbb d + length y + length out"
proof -
  have "buffer_wf (base cbb')" "buffer_wf (base cbb)" using assms(1,3) by (auto simp: writes_def cbb_wf_def)
  then have "unat (blen (base cbb')) = length (bytes (base cbb'))"
    "pending_off cbb d \<le> length (bytes (base cbb))" using pending_off_le [OF assms(3-5)] by simp_all
  then show ?thesis using assms(1,2) by (auto simp: writes_def)
qed

text \<open>The second operation runs on a builder with nothing pending.\<close>

lemma writes_then:
  assumes W: "writes xs cbb d (f cbb d)"
    and B: "\<And>c. cbb_wf c \<Longrightarrow> \<not> error (base c) \<Longrightarrow> length (children c) = d \<Longrightarrow> writes ys c d (g c d)"
    and wf: "cbb_wf cbb" "\<not> error (base cbb)" "d \<le> length (children cbb)"
  shows "writes (xs @ ys) cbb d (case f cbb d of (False, cbb) \<Rightarrow> (False, cbb) | (True, cbb) \<Rightarrow> g cbb d)"
proof -
  obtain ok c where f: "f cbb d = (ok, c)" by fastforce
  show ?thesis
  proof (cases ok)
    case False
    then show ?thesis using W f by (fastforce simp: writes_def)
  next
    case True
    with W f obtain y where y: "close (pending cbb d) = Some y" "children c = take d (children cbb)"
      "bytes (base c) = take (pending_off cbb d) (bytes (base cbb)) @ y @ xs" "\<not> error (base c)"
      "cap (base cbb) \<le> cap (base c)" "cbb_wf c" by (auto simp: writes_def)
    have len: "length (children c) = d" using y(2) wf(3) by simp
    have W2: "writes ys c d (g c d)" by (rule B [OF y(6,4) len])
    have blen: "unat (blen (base c)) = pending_off cbb d + length y + length xs"
      using writes_blen [OF _ y(1) wf] W f True by simp
    have all: "take (unat (blen (base c))) (bytes (base c)) = bytes (base c)"
      using y(6) by (simp add: cbb_wf_def)
    from W2 f True y len blen all show ?thesis
      by (auto simp: writes_def word_le_nat_alt split: if_splits)
  qed
qed

lemma cbb_writer_then:
  assumes A: "cbb_writer malloc f xs"
    and B: "\<And>cbb d. malloc_spec malloc \<Longrightarrow> cbb_wf cbb \<Longrightarrow> \<not> error (base cbb) \<Longrightarrow>
      length (children cbb) = d \<Longrightarrow> writes ys cbb d (g cbb d)"
  shows "cbb_writer malloc (\<lambda>cbb d. case f cbb d of (False, cbb) \<Rightarrow> (False, cbb) | (True, cbb) \<Rightarrow> g cbb d) (xs @ ys)"
proof
  fix cbb d
  assume "malloc_spec malloc" "cbb_wf cbb" "\<not> error (base cbb)" "d \<le> length (children cbb)"
  then show "writes (xs @ ys) cbb d (case f cbb d of (False, cbb) \<Rightarrow> (False, cbb) | (True, cbb) \<Rightarrow> g cbb d)"
    by (intro writes_then cbb_writer.opn_writes [OF A] B)
next
  fix cbb :: CBB and d
  assume "error (base cbb)"
  with cbb_writer.opn_sticky [OF A this, of d]
  show "\<not> fst (case f cbb d of (False, cbb) \<Rightarrow> (False, cbb) | (True, cbb) \<Rightarrow> g cbb d) \<and>
    error (base (snd (case f cbb d of (False, cbb) \<Rightarrow> (False, cbb) | (True, cbb) \<Rightarrow> g cbb d)))"
    by (auto split: prod.splits bool.splits)
qed

lemma cbb_writer_seq:
  assumes "cbb_writer malloc f xs" "cbb_writer malloc g ys"
  shows "cbb_writer malloc (\<lambda>cbb d. case f cbb d of (False, cbb) \<Rightarrow> (False, cbb) | (True, cbb) \<Rightarrow> g cbb d) (xs @ ys)"
  using assms by (intro cbb_writer_then cbb_writer.opn_writes) simp_all

lemma cbb_writer_cong:
  "cbb_writer malloc f xs \<Longrightarrow> (\<And>cbb d. g cbb d = f cbb d) \<Longrightarrow> xs = ys \<Longrightarrow> cbb_writer malloc g ys"
  by (metis ext)

section \<open>Adding space and filling it\<close>

lemma buf_bytes_write_None:
  "(buf b = None \<Longrightarrow> f [] = []) \<Longrightarrow> buf_bytes (write_buf f b) = f (buf_bytes b)"
  by (cases "buf b") (simp_all add: write_buf_def buf_bytes_def)

text \<open>Bytes added at the end of a builder with nothing pending.\<close>

lemma buffer_append_writes:
  assumes f: "\<And>pre gap rest. length gap = unat len \<Longrightarrow> f (length pre) (pre @ gap @ rest) = pre @ data @ rest"
    and data: "length data = unat len"
    and m: "malloc_spec malloc" and wf: "cbb_wf cbb" "\<not> error (base cbb)" and d: "length (children cbb) = d"
  shows "writes data cbb d (case cbb_buffer_add malloc (base cbb) len of
      (False, b) \<Rightarrow> (False, cbb\<lparr>base := b\<rparr>)
    | (True, b) \<Rightarrow> (True, cbb\<lparr>base := write_buf (f (unat (blen (base cbb)))) b\<rparr>))"
proof -
  have bw: "buffer_wf (base cbb)" and cw: "chain_wf 0 (children cbb) (unat (blen (base cbb)))"
    using wf by (simp_all add: cbb_wf_def)
  have blen: "unat (blen (base cbb)) = length (bytes (base cbb))" using bw by simp
  obtain ok b where a: "cbb_buffer_add malloc (base cbb) len = (ok, b)" by fastforce
  show ?thesis
  proof (cases ok)
    case False
    have "unat (cap (base cbb)) < unat (blen (base cbb)) + unat len"
      using cbb_buffer_add_room [of "base cbb" len malloc] a False by (intro not_le_imp_less) auto
    with False a d cbb_buffer_add_fail [OF bw m] data show ?thesis
      by (auto simp: writes_def cbb_wf_def)
  next
    case True
    with a obtain gap rest where g: "buf_bytes b = bytes (base cbb) @ gap @ rest" "length gap = unat len"
      "buffer_wf b" "unat (blen b) = unat (blen (base cbb)) + unat len" "error b = error (base cbb)"
      "cap (base cbb) \<le> cap b" by (auto elim: cbb_buffer_add_spec [OF bw m])
    let ?f = "f (unat (blen (base cbb)))"
    have fb: "?f (buf_bytes b) = (bytes (base cbb) @ data) @ rest"
      using f [OF g(2), of "bytes (base cbb)" rest] by (simp add: g(1) blen)
    have "?f [] = []" if "buf b = None"
    proof -
      have "buf_bytes b = []" using that by (simp add: buf_bytes_def)
      then have z: "bytes (base cbb) = []" "rest = []" "unat len = 0" using g(1,2) by auto
      then show ?thesis using f [of "[]" "[]" "[]"] data blen by simp
    qed
    then have w: "buf_bytes (write_buf ?f b) = (bytes (base cbb) @ data) @ rest"
      using fb by (simp add: buf_bytes_write_None)
    then have "buffer_wf (write_buf ?f b)"
      using g(1-3) data by (intro buffer_wf_write) simp_all
    moreover have "bytes (write_buf ?f b) = bytes (base cbb) @ data"
      unfolding bytes_def [of "write_buf ?f b"] w using g(4) data blen by simp
    moreover have "chain_wf 0 (children cbb) (unat (blen b))"
      using chain_wf_split [OF _ cw, of "length (children cbb)"] chain_wf_le g(4) by fastforce
    ultimately show ?thesis
      using True a d g(5,6) wf(2) bw by (simp add: writes_def cbb_wf_def)
  qed
qed

lemma cbb_writer_fill:
  assumes f: "\<And>pre gap rest. length gap = unat len \<Longrightarrow> f (length pre) (pre @ gap @ rest) = pre @ data @ rest"
    and data: "length data = unat len"
  shows "cbb_writer malloc
    (\<lambda>cbb d. case CBB_add_space malloc cbb d len of
       (None, cbb) \<Rightarrow> (False, cbb)
     | (Some out, cbb) \<Rightarrow> (True, cbb\<lparr>base := write_buf (f (unat out)) (base cbb)\<rparr>)) data"
proof -
  have "cbb_writer malloc (\<lambda>cbb d. case CBB_flush malloc cbb d of (False, cbb) \<Rightarrow> (False, cbb)
    | (True, cbb) \<Rightarrow> (case cbb_buffer_add malloc (base cbb) len of
      (False, b) \<Rightarrow> (False, cbb\<lparr>base := b\<rparr>)
    | (True, b) \<Rightarrow> (True, cbb\<lparr>base := write_buf (f (unat (blen (base cbb)))) b\<rparr>))) ([] @ data)"
    by (rule cbb_writer_then [OF wr_flush.cbb_writer_axioms])
      (rule buffer_append_writes [OF f data], assumption+)
  then show ?thesis
    by (rule cbb_writer_cong) (simp_all add: CBB_add_space_def split: prod.splits bool.splits)
qed

section \<open>The writers meet the contract\<close>

lemma cbb_writer_add_bytes:
  "length data = unat len \<Longrightarrow> cbb_writer malloc (\<lambda>cbb d. CBB_add_bytes malloc cbb d data len) data"
  by (rule cbb_writer_cong [OF cbb_writer_fill [of len "\<lambda>off. store off (take (unat len) data)" data malloc]])
    (simp_all add: CBB_add_bytes_def store_def)

interpretation wr_zeros: cbb_writer malloc "\<lambda>cbb d. CBB_add_zeros malloc cbb d len" "replicate (unat len) 0"
    for malloc len
  by (rule cbb_writer_cong [OF cbb_writer_fill [of len "\<lambda>off. store off (replicate (unat len) 0)"
      "replicate (unat len) 0" malloc]]) (simp_all add: CBB_add_zeros_def store_def)

lemma cbb_writer_add_u:
  assumes "unat v < 256 ^ unat n"
  shows "cbb_writer malloc (\<lambda>cbb d. cbb_add_u malloc cbb d v n) (be_bytes (unat n) (unat v))"
  by (rule cbb_writer_cong [OF cbb_writer_fill [of n "\<lambda>off p. fst (put_be p off (unat n) v)"
      "be_bytes (unat n) (unat v)" malloc]])
    (use assms in \<open>simp_all add: cbb_add_u_def Let_def put_be_rest fst_put_be split: prod.splits option.splits\<close>)

interpretation wr_u8: cbb_writer malloc "\<lambda>cbb d. CBB_add_u8 malloc cbb d v" "[v]" for malloc v
  by (rule cbb_writer_cong [OF cbb_writer_add_u [of "ucast v" 1 malloc]])
    (simp_all add: CBB_add_u8_def unat_ucast_up)

lemma unat_less_256: "unat (v :: 'a::len word) < 256 ^ n" if "LENGTH('a) = 8 * n"
  using unat_lt2p [of v] that by (simp add: power_mult)

interpretation wr_u16: cbb_writer malloc "\<lambda>cbb d. CBB_add_u16 malloc cbb d v" "be_bytes 2 (unat v)" for malloc v
  by (rule cbb_writer_cong [OF cbb_writer_add_u [of "ucast v" 2 malloc]])
    (use unat_less_256 [of 2 v] in \<open>simp_all add: CBB_add_u16_def unat_ucast_up\<close>)

interpretation wr_u32: cbb_writer malloc "\<lambda>cbb d. CBB_add_u32 malloc cbb d v" "be_bytes 4 (unat v)" for malloc v
  by (rule cbb_writer_cong [OF cbb_writer_add_u [of "ucast v" 4 malloc]])
    (use unat_less_256 [of 4 v] in \<open>simp_all add: CBB_add_u32_def unat_ucast_up\<close>)

interpretation wr_u64: cbb_writer malloc "\<lambda>cbb d. CBB_add_u64 malloc cbb d v" "be_bytes 8 (unat v)" for malloc v
  by (rule cbb_writer_cong [OF cbb_writer_add_u [of v 8 malloc]])
    (use unat_less_256 [of 8 v] in \<open>simp_all add: CBB_add_u64_def\<close>)

lemma cbb_writer_add_u24:
  "unat v < 16777216 \<Longrightarrow> cbb_writer malloc (\<lambda>cbb d. CBB_add_u24 malloc cbb d v) (be_bytes 3 (unat v))"
  by (rule cbb_writer_cong [OF cbb_writer_add_u [of "ucast v" 3 malloc]])
    (simp_all add: CBB_add_u24_def unat_ucast_up)

lemma be_bytes_bswap:
  assumes "8 * n \<le> LENGTH('a::len)"
  shows "be_bytes n (unat (word_of_nat (be_val (rev (be_bytes n v))) :: 'a word)) = rev (be_bytes n v)"
  using be_bytes_be_val [of "rev (be_bytes n v)"] by (simp add: unat_bswap [OF assms])

interpretation wr_u16le: cbb_writer malloc "\<lambda>cbb d. CBB_add_u16le malloc cbb d v" "rev (be_bytes 2 (unat v))" for malloc v
  by (rule cbb_writer_cong [OF wr_u16.cbb_writer_axioms [of malloc "CRYPTO_bswap2 v"]])
    (simp_all add: CBB_add_u16le_def CRYPTO_bswap2_def be_bytes_bswap)

interpretation wr_u32le: cbb_writer malloc "\<lambda>cbb d. CBB_add_u32le malloc cbb d v" "rev (be_bytes 4 (unat v))" for malloc v
  by (rule cbb_writer_cong [OF wr_u32.cbb_writer_axioms [of malloc "CRYPTO_bswap4 v"]])
    (simp_all add: CBB_add_u32le_def CRYPTO_bswap4_def be_bytes_bswap)

interpretation wr_u64le: cbb_writer malloc "\<lambda>cbb d. CBB_add_u64le malloc cbb d v" "rev (be_bytes 8 (unat v))" for malloc v
  by (rule cbb_writer_cong [OF wr_u64.cbb_writer_axioms [of malloc "CRYPTO_bswap8 v"]])
    (simp_all add: CBB_add_u64le_def CRYPTO_bswap8_def be_bytes_bswap)

end
