(* ===== verification/Cbb_Asn1.thy ===== *)
theory Cbb_Asn1
  imports Cbb_Writer
begin

text \<open>
  Builders with a length prefix, and the ASN.1 writers: each writes one DER element, so that
  what it writes is what the corresponding reader of cbs.c accepts.
\<close>

section \<open>Appending to a builder with nothing pending\<close>

definition appends :: "libc_malloc \<Rightarrow> (CBB \<Rightarrow> nat \<Rightarrow> bool \<times> CBB) \<Rightarrow> u8 list \<Rightarrow> bool" where
  "appends malloc g ys \<longleftrightarrow>
     (\<forall>cbb d. malloc_spec malloc \<longrightarrow> cbb_wf cbb \<longrightarrow> \<not> error (base cbb) \<longrightarrow> length (children cbb) = d \<longrightarrow>
        writes ys cbb d (g cbb d))"

lemma cbb_writer_appends: "cbb_writer malloc g ys \<Longrightarrow> appends malloc g ys"
  by (auto simp: appends_def intro: cbb_writer.opn_writes)

lemma cbb_writer_then_appends:
  "cbb_writer malloc f xs \<Longrightarrow> appends malloc g ys \<Longrightarrow> cbb_writer malloc
     (\<lambda>cbb d. case f cbb d of (False, cbb) \<Rightarrow> (False, cbb) | (True, cbb) \<Rightarrow> g cbb d) (xs @ ys)"
  by (rule cbb_writer_then) (auto simp: appends_def)

lemma appends_nil: "appends malloc (\<lambda>cbb d. (True, cbb)) []"
  by (auto simp: appends_def writes_def cbb_wf_def)

lemma appends_seq:
  assumes "appends malloc f xs" "appends malloc g ys"
  shows "appends malloc (\<lambda>cbb d. case f cbb d of (False, cbb) \<Rightarrow> (False, cbb) | (True, cbb) \<Rightarrow> g cbb d) (xs @ ys)"
  unfolding appends_def
  by (intro allI impI writes_then) (use assms in \<open>auto simp: appends_def\<close>)

lemma appends_cong:
  "appends malloc f xs \<Longrightarrow> (\<And>cbb d. g cbb d = f cbb d) \<Longrightarrow> xs = ys \<Longrightarrow> appends malloc g ys"
  by (metis ext)

section \<open>Starting a child\<close>

definition begins :: "u8 list \<Rightarrow> u8 \<Rightarrow> bool \<Rightarrow> CBB \<Rightarrow> nat \<Rightarrow> bool \<times> CBB \<Rightarrow> bool" where
  "begins hdr n asn1 cbb d r \<longleftrightarrow> cbb_wf (snd r) \<and>
     (if fst r then
        (\<exists>y c. close (pending cbb d) = Some y \<and> children (snd r) = take d (children cbb) @ [c] \<and>
          unat (offset c) = pending_off cbb d + length y + length hdr \<and>
          pending_len_len c = n \<and> pending_is_asn1 c = asn1 \<and>
          bytes (base (snd r)) = take (pending_off cbb d) (bytes (base cbb)) @ y @ hdr @ replicate (unat n) 0 \<and>
          \<not> error (base (snd r)) \<and> cap (base cbb) \<le> cap (base (snd r)))
      else error (base (snd r)) \<and>
        (\<forall>y. close (pending cbb d) = Some y \<longrightarrow>
          unat (cap (base cbb)) < pending_off cbb d + length y + length hdr + unat n))"

lemma cbb_add_child_writes:
  assumes m: "malloc_spec malloc" and wf: "cbb_wf cbb" "\<not> error (base cbb)" and d: "length (children cbb) = d"
    and asn1: "asn1 \<longrightarrow> n = 1"
  shows "begins [] n asn1 cbb d (cbb_add_child malloc cbb d n asn1)"
proof -
  let ?zeros = "replicate (unat n) (0 :: u8)" and ?len = "ucast n :: size_t"
  let ?off = "blen (base cbb)"
  have u: "unat ?len = unat n" by (simp add: unat_ucast_up)
  have W: "writes ?zeros cbb d (case cbb_buffer_add malloc (base cbb) ?len of
      (False, b) \<Rightarrow> (False, cbb\<lparr>base := b\<rparr>)
    | (True, b) \<Rightarrow> (True, cbb\<lparr>base := write_buf (store (unat ?off) ?zeros) b\<rparr>))"
    by (rule buffer_append_writes [where f = "\<lambda>off. store off ?zeros", OF _ _ m wf d])
      (simp_all add: u store_def)
  obtain ok b where b: "cbb_buffer_add malloc (base cbb) ?len = (ok, b)" by fastforce
  show ?thesis
  proof (cases ok)
    case True
    let ?c = "\<lparr>offset = ?off, pending_len_len = n, pending_is_asn1 = asn1\<rparr>"
    let ?b = "write_buf (store (unat ?off) ?zeros) b"
    from W b True d have w: "bytes ?b = bytes (base cbb) @ ?zeros" "\<not> error ?b"
        "cap (base cbb) \<le> cap ?b" "buffer_wf ?b"
      using wf by (auto simp: writes_def cbb_wf_def)
    have "chain_wf s (cs @ [?c]) (unat (blen ?b))" if "chain_wf s cs (unat ?off)" for s cs
    proof -
      have "length (bytes ?b) = unat ?off + unat n" unfolding w(1) using wf by (simp add: cbb_wf_def)
      then have "unat (blen ?b) = unat ?off + unat n" using w(4) by simp
      with that asn1 show ?thesis by (induction cs arbitrary: s) (auto simp: child_start_def)
    qed
    with w wf d b True show ?thesis
      by (auto simp: begins_def cbb_add_child_def Let_def cbb_wf_def)
  next
    case False
    with W b d show ?thesis
      by (auto simp: begins_def cbb_add_child_def Let_def writes_def)
  qed
qed

text \<open>A writer, and then a child.\<close>

lemma begins_after:
  assumes A: "cbb_writer malloc f hdr" and asn1: "asn1 \<longrightarrow> n = 1"
    and m: "malloc_spec malloc" and wf: "cbb_wf cbb" "\<not> error (base cbb)" "d \<le> length (children cbb)"
  shows "begins hdr n asn1 cbb d (case f cbb d of (False, cbb) \<Rightarrow> (False, cbb)
    | (True, cbb) \<Rightarrow> cbb_add_child malloc cbb d n asn1)"
proof -
  note W = cbb_writer.opn_writes [OF A m wf]
  obtain ok c where f: "f cbb d = (ok, c)" by fastforce
  show ?thesis
  proof (cases ok)
    case False
    then show ?thesis using W f by (fastforce simp: writes_def begins_def)
  next
    case True
    with W f obtain y where y: "close (pending cbb d) = Some y" "children c = take d (children cbb)"
      "bytes (base c) = take (pending_off cbb d) (bytes (base cbb)) @ y @ hdr" "\<not> error (base c)"
      "cap (base cbb) \<le> cap (base c)" "cbb_wf c" by (auto simp: writes_def)
    have len: "length (children c) = d" using y(2) wf(3) by simp
    have blen: "unat (blen (base c)) = pending_off cbb d + length y + length hdr"
      using writes_blen [OF _ y(1) wf] W f True by simp
    have all: "take (unat (blen (base c))) (bytes (base c)) = bytes (base c)"
      using y(6) by (simp add: cbb_wf_def)
    from cbb_add_child_writes [OF m y(6,4) len asn1] f True y len blen all show ?thesis
      by (auto simp: begins_def word_le_nat_alt split: if_splits)
  qed
qed

section \<open>A child from its start to its flush\<close>

text \<open>What the callers do after a failure: nothing, or setting the error bit again.\<close>

definition keeps_error :: "(CBB \<Rightarrow> nat \<Rightarrow> CBB) \<Rightarrow> bool" where
  "keeps_error e \<longleftrightarrow>
     (\<forall>cbb d. cbb_wf cbb \<longrightarrow> error (base cbb) \<longrightarrow> cbb_wf (e cbb d) \<and> error (base (e cbb d)))"

lemma keeps_error_simps [simp]: "keeps_error (\<lambda>cbb d. cbb)" "keeps_error cbb_on_error"
  by (simp_all add: keeps_error_def cbb_on_error_def cbb_wf_def)

text \<open>After its contents were added, the child is the one pending frame.\<close>

lemma child_pending:
  assumes start: "begins hdr n asn1 cbb d (True, c1)" and W: "writes contents c1 (Suc d) (True, c2)"
    and wf: "cbb_wf cbb" "\<not> error (base cbb)" "d \<le> length (children cbb)"
  shows "pending c2 d = [(if asn1 then Asn1 else Fixed (unat n), contents)]"
proof -
  let ?po = "pending_off cbb d"
  from start obtain y c where c: "children c1 = take d (children cbb) @ [c]" "unat (offset c) = ?po + length y + length hdr"
      "pending_len_len c = n" "pending_is_asn1 c = asn1"
      "bytes (base c1) = take ?po (bytes (base cbb)) @ y @ hdr @ replicate (unat n) 0" "cbb_wf c1"
    by (auto simp: begins_def)
  have po: "?po \<le> length (bytes (base cbb))" using pending_off_le [OF wf] wf(1) by (simp add: cbb_wf_def)
  have len1: "length (children c1) = Suc d" using c(1) wf(3) by simp
  have w: "children c2 = children c1" "bytes (base c2) = bytes (base c1) @ contents"
    using W len1 c(6) by (auto simp: writes_def cbb_wf_def)
  have start: "child_start c = length (bytes (base c1))"
    using c(2,3) po unfolding c(5) by (simp add: child_start_def)
  have "Suc d \<le> length (children c2)" "take (Suc d) (children c2) = children c2" "drop (Suc d) (children c2) = []"
    "children c2 \<noteq> []" "last (children c2) = c" using w(1) len1 c(1) by simp_all
  then have "pending c2 d = [(child_kind c, contents)]"
    by (simp add: pending_def cbb_frames_def frames_drop chain_kind_def chain_start_def start w(2))
  then show ?thesis using c(3,4) by (simp add: child_kind_def)
qed

lemma child_writes:
  assumes start: "begins hdr n asn1 cbb d (ok, c1)" and body: "appends malloc body contents"
    and e: "keeps_error e1" "keeps_error e2" "keeps_error e3" and asn1: "asn1 \<longrightarrow> n = 1"
    and enc: "encode (if asn1 then Asn1 else Fixed (unat n)) contents = Some enc"
    and m: "malloc_spec malloc" and wf: "cbb_wf cbb" "\<not> error (base cbb)" "d \<le> length (children cbb)"
  shows "writes (hdr @ enc) cbb d
    (if \<not> ok then (False, e1 c1 d)
     else case body c1 (Suc d) of
            (False, cbb) \<Rightarrow> (False, e2 cbb d)
          | (True, cbb) \<Rightarrow>
              (case CBB_flush malloc cbb d of
                 (False, cbb) \<Rightarrow> (False, e3 cbb d) | (True, cbb) \<Rightarrow> (True, cbb)))"
proof -
  have fit: "unat n + length contents \<le> length enc"
    using encode_length [of "\<lparr>offset = 0, pending_len_len = n, pending_is_asn1 = asn1\<rparr>" contents enc] enc asn1
    by (simp add: child_kind_def cong: if_cong)
  show ?thesis
  proof (cases ok)
    case False
    then show ?thesis using start e(1) fit by (fastforce simp: begins_def writes_def keeps_error_def)
  next
    case True
    let ?po = "pending_off cbb d"
    from start True obtain y c where c: "close (pending cbb d) = Some y"
        "children c1 = take d (children cbb) @ [c]" "unat (offset c) = ?po + length y + length hdr"
        "pending_len_len c = n" "pending_is_asn1 c = asn1"
        "bytes (base c1) = take ?po (bytes (base cbb)) @ y @ hdr @ replicate (unat n) 0"
        "\<not> error (base c1)" "cap (base cbb) \<le> cap (base c1)" "cbb_wf c1"
      by (auto simp: begins_def)
    have po: "?po \<le> length (bytes (base cbb))" using pending_off_le [OF wf] wf(1) by (simp add: cbb_wf_def)
    have "length (bytes (base c1)) = unat (blen (base c1))" using c(9) by (simp add: cbb_wf_def)
    then have blen1: "unat (blen (base c1)) = ?po + length y + length hdr + unat n"
      using po unfolding c(6) by simp
    have len1: "length (children c1) = Suc d" using c(2) wf(3) by simp
    obtain ok2 c2 where c2: "body c1 (Suc d) = (ok2, c2)" by fastforce
    have W: "writes contents c1 (Suc d) (ok2, c2)"
      using body m c(9,7) len1 c2 by (auto simp: appends_def)
    show ?thesis
    proof (cases ok2)
      case False
      then show ?thesis
        using W True c2 e(2) len1 blen1 fit c(1,8)
        by (auto simp: writes_def keeps_error_def word_le_nat_alt)
    next
      case ok2: True
      with W len1 have w: "children c2 = children c1" "bytes (base c2) = bytes (base c1) @ contents"
        "\<not> error (base c2)" "cap (base c1) \<le> cap (base c2)" "cbb_wf c2"
        using c(9) by (auto simp: writes_def cbb_wf_def)
      have po2: "pending_off c2 d = unat (offset c)" using w(1) c(2) wf(3) by (simp add: pending_off_def nth_append)
      have "pending c2 d = [(if asn1 then Asn1 else Fixed (unat n), contents)]"
        by (rule child_pending [of hdr n asn1 cbb d c1]) (use start True W ok2 wf in simp_all)
      then have cl: "close (pending c2 d) = Some enc" using enc by (simp split del: if_split)
      have W2: "writes [] c2 d (CBB_flush malloc c2 d)"
        using CBB_flush_writes [OF m w(5,3)] w(1) len1 by simp
      have tk: "take (unat (offset c)) (bytes (base c2)) = take ?po (bytes (base cbb)) @ y @ hdr"
        using c(3) po unfolding w(2) c(6) by simp
      obtain ok3 c3 where c3: "CBB_flush malloc c2 d = (ok3, c3)" by fastforce
      have ch: "take d (children c2) = take d (children cbb)" using w(1) c(2) wf(3) by simp
      have cap: "cap (base cbb) \<le> cap (base c2)" using c(8) w(4) by simp
      show ?thesis
        using W2 True c2 c3 ok2 cl po2 tk e(3) ch cap c(1,3)
        by (cases ok3) (auto simp: writes_def keeps_error_def word_le_nat_alt)
    qed
  qed
qed

section \<open>Base-128 integers and tags\<close>

text \<open>The bytes that \<open>add_base128_integer\<close> adds, from the index \<open>k - 1\<close> down.\<close>

primrec base128_digits :: "nat \<Rightarrow> nat \<Rightarrow> u8 list" where
  "base128_digits v 0 = []"
| "base128_digits v (Suc i) =
     word_of_nat ((if i \<noteq> 0 then 128 else 0) + v div 128 ^ i mod 128) # base128_digits v i"

lemma base128_len_len_bounds:
  "unat v < 128 ^ base128_len_len v \<and> (v \<noteq> 0 \<longrightarrow> 128 ^ (base128_len_len v - 1) \<le> unat v)"
proof (induction v rule: base128_len_len.induct)
  case (1 v)
  show ?case
  proof (cases "v > 0")
    case True
    let ?k = "base128_len_len (drop_bit 7 v)"
    have k: "base128_len_len v = Suc ?k" using True by (simp add: base128_len_len.simps [of v])
    have IH: "unat v div 128 < 128 ^ ?k" "drop_bit 7 v \<noteq> 0 \<Longrightarrow> 128 ^ (?k - 1) \<le> unat v div 128"
      using "1.IH" [OF True] by (simp_all add: unat_drop_bit_div)
    have "unat v < 128 ^ Suc ?k" using IH(1) by (simp add: div_less_iff_less_mult mult.commute)
    moreover have "128 ^ ?k \<le> unat v"
    proof (cases "drop_bit 7 v = 0")
      case True
      then have "?k = 0" by (simp add: base128_len_len.simps)
      then show ?thesis using \<open>v > 0\<close> by (simp add: word_less_nat_alt)
    next
      case False
      then have "?k \<noteq> 0" by (simp add: base128_len_len.simps [of "drop_bit 7 v"] word_gt_0)
      then have "(128 :: nat) ^ ?k = 128 ^ (?k - 1) * 128" by (simp flip: power_Suc2)
      also have "\<dots> \<le> unat v div 128 * 128" using IH(2) [OF False] by simp
      also have "\<dots> \<le> unat v" by simp
      finally show ?thesis .
    qed
    ultimately show ?thesis by (simp add: k)
  qed (simp add: base128_len_len.simps [of v] word_gt_0)
qed

lemma base128_digits_eq:
  "0 < k \<Longrightarrow> (k = 1 \<or> 128 ^ (k - 1) \<le> v) \<Longrightarrow> base128_hi (v div 128 ^ k) @ base128_digits v k = base128 v"
proof (induction k)
  case (Suc k)
  show ?case
  proof (cases "k = 0")
    case True
    then show ?thesis by (simp add: base128_def)
  next
    case False
    with Suc.prems have le: "128 ^ k \<le> v" by auto
    have "(128 :: nat) ^ (k - 1) \<le> 128 ^ k" by (rule power_increasing) simp_all
    then have "128 ^ (k - 1) \<le> v" using le by (rule order.trans)
    then have IH: "base128_hi (v div 128 ^ k) @ base128_digits v k = base128 v"
      using Suc.IH False by simp
    have "v div 128 ^ k \<noteq> 0" using le by (simp add: div_eq_0_iff not_less)
    then have "base128_hi (v div 128 ^ k) =
        base128_hi (v div 128 ^ k div 128) @ [word_of_nat (128 + v div 128 ^ k mod 128)]"
      by (subst base128_hi.simps) simp
    then show ?thesis using IH False by (simp add: div_mult2_eq [symmetric] mult.commute)
  qed
qed simp

lemma base128_byte:
  fixes v :: u64
  shows "(let byte = ucast (drop_bit (7 * i) v AND 0x7f) :: u8 in if i \<noteq> 0 then byte OR 0x80 else byte) =
    word_of_nat ((if i \<noteq> 0 then 128 else 0) + unat v div 128 ^ i mod 128)"
proof -
  let ?b = "ucast (drop_bit (7 * i) v AND 0x7f) :: u8"
  have m: "(0x7f :: u64) = mask 7" by (simp add: mask_eq_exp_minus_1)
  have "unat (drop_bit (7 * i) v AND 0x7f) = unat v div 128 ^ i mod 128"
    unfolding m unat_and_mask unat_drop_bit_div by (simp add: power_mult)
  then have b: "unat ?b = unat v div 128 ^ i mod 128" by (simp add: unat_ucast_mod)
  then have "?b = word_of_nat (unat v div 128 ^ i mod 128)"
    by (intro word_nat_eqI) (simp add: unat_base128_byte)
  moreover have "unat ?b < 128" unfolding b by simp
  ultimately show ?thesis using b byte_or_80 [of ?b] by (simp add: Let_def)
qed

lemma add_base128_loop_appends:
  "appends malloc (\<lambda>cbb d. add_base128_loop malloc v k cbb d) (base128_digits (unat v) k)"
proof (induction k)
  case 0
  then show ?case by (simp add: appends_nil)
next
  case (Suc k)
  let ?b = "word_of_nat ((if k \<noteq> 0 then 128 else 0) + unat v div 128 ^ k mod 128) :: u8"
  have "appends malloc (\<lambda>cbb d. case CBB_add_u8 malloc cbb d ?b of (False, cbb) \<Rightarrow> (False, cbb)
      | (True, cbb) \<Rightarrow> add_base128_loop malloc v k cbb d) ([?b] @ base128_digits (unat v) k)"
    by (rule cbb_writer_appends [OF cbb_writer_then_appends [OF wr_u8.cbb_writer_axioms Suc.IH]])
  then show ?case
    using base128_byte [of k v] by (simp add: Let_def)
qed

interpretation wr_base128: cbb_writer malloc "\<lambda>cbb d. add_base128_integer malloc cbb d v" "base128 (unat v)"
    for malloc v
proof -
  define k where "k = (let k = base128_len_len v in if k = 0 then 1 else k)"
  have k: "0 < k" "k = 1 \<or> 128 ^ (k - 1) \<le> unat v" "unat v < 128 ^ k"
  proof -
    show "0 < k" by (simp add: k_def Let_def)
    show "k = 1 \<or> 128 ^ (k - 1) \<le> unat v"
      using base128_len_len_bounds [of v] by (cases "v = 0") (auto simp: k_def Let_def base128_len_len.simps [of 0])
    show "unat v < 128 ^ k"
      using base128_len_len_bounds [of v] by (auto simp: k_def Let_def split: if_splits)
  qed
  obtain i where i: "k = Suc i" using k(1) by (cases k) auto
  have out: "base128_digits (unat v) k = base128 (unat v)"
    using base128_digits_eq [OF k(1,2)] k(3) by simp
  let ?b = "word_of_nat ((if i \<noteq> 0 then 128 else 0) + unat v div 128 ^ i mod 128) :: u8"
  have "cbb_writer malloc (\<lambda>cbb d. case CBB_add_u8 malloc cbb d ?b of (False, cbb) \<Rightarrow> (False, cbb)
      | (True, cbb) \<Rightarrow> add_base128_loop malloc v i cbb d) ([?b] @ base128_digits (unat v) i)"
    by (rule cbb_writer_then_appends [OF wr_u8.cbb_writer_axioms add_base128_loop_appends])
  then show "cbb_writer malloc (\<lambda>cbb d. add_base128_integer malloc cbb d v) (base128 (unat v))"
  proof (rule cbb_writer_cong)
    show "add_base128_integer malloc cbb d v = (case CBB_add_u8 malloc cbb d ?b of
        (False, cbb) \<Rightarrow> (False, cbb) | (True, cbb) \<Rightarrow> add_base128_loop malloc v i cbb d)" for cbb d
      using base128_byte [of i v] i by (simp add: add_base128_integer_def Let_def k_def)
    show "[?b] @ base128_digits (unat v) i = base128 (unat v)" using out i by simp
  qed
qed

lemma tag_parts:
  fixes tag :: CBS_ASN1_TAG
  defines "bits \<equiv> ucast (drop_bit CBS_ASN1_TAG_SHIFT tag AND 0xe0) :: u8"
    and "num \<equiv> tag AND CBS_ASN1_TAG_NUMBER_MASK"
  shows "unat num = unat tag mod 536870912"
    and "unat bits = 32 * (unat tag div 536870912)"
proof -
  have m: "CBS_ASN1_TAG_NUMBER_MASK = mask 29"
    by (simp add: CBS_ASN1_TAG_NUMBER_MASK_def CBS_ASN1_TAG_SHIFT_def mask_eq_exp_minus_1)
  show "unat num = unat tag mod 536870912"
    unfolding num_def m unat_and_mask by simp
  have "bits = ucast (drop_bit 24 tag) AND 0xe0"
    by (simp add: bits_def CBS_ASN1_TAG_SHIFT_def unsigned_and_eq)
  moreover have "unat (ucast (drop_bit 24 tag) :: u8) = unat tag div 16777216"
  proof -
    have "unat tag div 16777216 < 256" using unat_u32_less [of tag] by linarith
    then show ?thesis by (simp add: unat_ucast_mod unat_drop_bit_div)
  qed
  ultimately have "unat bits = unat tag div 16777216 div 32 * 32" by (simp add: byte_and_e0)
  then show "unat bits = 32 * (unat tag div 536870912)" by (simp add: div_mult2_eq [symmetric])
qed

lemma tag_byte:
  fixes tag :: CBS_ASN1_TAG and x :: u8
  assumes "unat x < 32"
  shows "ucast (drop_bit CBS_ASN1_TAG_SHIFT tag AND 0xe0) OR x =
    word_of_nat (32 * (unat tag div 536870912) + unat x)"
proof (rule word_nat_eqI)
  let ?c = "unat tag div 536870912"
  have "?c < 8" using unat_u32_less [of tag] by linarith
  then have "unat (word_of_nat (32 * ?c + unat x) :: u8) = 32 * ?c + unat x"
    using assms by (intro unat_eq_of_nat) simp
  moreover have "32 * ?c OR unat x = 32 * ?c + unat x"
    using or_low_high [of "unat x" 5 ?c] assms by (simp add: push_bit_eq_mult mult.commute)
  ultimately show "unat (ucast (drop_bit CBS_ASN1_TAG_SHIFT tag AND 0xe0) OR x) =
      unat (word_of_nat (32 * ?c + unat x) :: u8)"
    by (simp only: unsigned_or_eq tag_parts(2))
qed

text \<open>The part of \<open>CBB_add_asn1\<close> between the flush and the child writes the tag.\<close>

lemma cbb_writer_tag:
  "cbb_writer malloc (\<lambda>cbb d.
     let tag_bits = ucast (drop_bit CBS_ASN1_TAG_SHIFT tag AND 0xe0) :: u8;
         tag_number = tag AND CBS_ASN1_TAG_NUMBER_MASK
     in if tag_number \<ge> 0x1f then
          (case CBB_add_u8 malloc cbb d (tag_bits OR 0x1f) of
             (False, cbb) \<Rightarrow> (False, cbb)
           | (True, cbb) \<Rightarrow> add_base128_integer malloc cbb d (ucast tag_number))
        else CBB_add_u8 malloc cbb d (tag_bits OR ucast tag_number)) (tag_bytes tag)"
proof -
  let ?n = "unat tag mod 536870912" and ?c = "unat tag div 536870912"
  let ?num = "tag AND CBS_ASN1_TAG_NUMBER_MASK"
  let ?bits = "ucast (drop_bit CBS_ASN1_TAG_SHIFT tag AND 0xe0) :: u8"
  have n: "?num \<ge> 0x1f \<longleftrightarrow> 31 \<le> ?n" by (simp add: word_le_nat_alt tag_parts(1))
  show ?thesis
  proof (cases "31 \<le> ?n")
    case True
    have "?bits OR 0x1f = word_of_nat (32 * ?c + 31)" using tag_byte [where x = "0x1f" and tag = tag] by simp
    moreover have "unat (ucast ?num :: u64) = ?n" by (simp add: unat_ucast_up tag_parts(1))
    ultimately show ?thesis
      using cbb_writer_seq [OF wr_u8.cbb_writer_axioms [of malloc "?bits OR 0x1f"]
          wr_base128.cbb_writer_axioms [of malloc "ucast ?num"]] True n
      by (simp add: tag_bytes_def Let_def)
  next
    case False
    then have "unat (ucast ?num :: u8) = ?n" by (simp add: unat_ucast_mod tag_parts(1))
    with False have "?bits OR ucast ?num = word_of_nat (32 * ?c + ?n)" using tag_byte [where x = "ucast ?num" and tag = tag] by simp
    with False n show ?thesis
      using wr_u8.cbb_writer_axioms [of malloc "?bits OR ucast ?num"]
      by (simp add: tag_bytes_def Let_def)
  qed
qed

lemma CBB_add_asn1_begins:
  assumes "malloc_spec malloc" "cbb_wf cbb" "\<not> error (base cbb)" "d \<le> length (children cbb)"
  shows "begins (tag_bytes tag) 1 True cbb d (CBB_add_asn1 malloc cbb d tag)"
proof -
  note w = cbb_writer_seq [OF wr_flush.cbb_writer_axioms cbb_writer_tag, of malloc tag]
  have "CBB_add_asn1 malloc cbb d tag =
     (case (case CBB_flush malloc cbb d of (False, cbb) \<Rightarrow> (False, cbb)
       | (True, cbb) \<Rightarrow>
          (let tag_bits = ucast (drop_bit CBS_ASN1_TAG_SHIFT tag AND 0xe0) :: u8;
               tag_number = tag AND CBS_ASN1_TAG_NUMBER_MASK
           in if tag_number \<ge> 0x1f then
                (case CBB_add_u8 malloc cbb d (tag_bits OR 0x1f) of
                   (False, cbb) \<Rightarrow> (False, cbb)
                 | (True, cbb) \<Rightarrow> add_base128_integer malloc cbb d (ucast tag_number))
              else CBB_add_u8 malloc cbb d (tag_bits OR ucast tag_number))) of
        (False, cbb) \<Rightarrow> (False, cbb)
      | (True, cbb) \<Rightarrow> cbb_add_child malloc cbb d 1 True)"
    unfolding CBB_add_asn1_def Let_def by (auto split: prod.splits bool.splits)
  with begins_after [OF w _ assms, of True 1] show ?thesis by simp
qed

lemma CBB_add_asn1_sticky: "error (base cbb) \<Longrightarrow> CBB_add_asn1 malloc cbb d tag = (False, cbb)"
  by (simp add: CBB_add_asn1_def CBB_flush_def)

section \<open>The typed writers\<close>

text \<open>An operation that starts an ASN.1 child, fills it and flushes it writes one DER element.\<close>

lemma cbb_writer_element:
  assumes body: "appends malloc body contents" and len: "length contents < 4294967295"
    and e: "keeps_error e3"
    and opn: "\<And>cbb d. opn cbb d =
      (case CBB_add_asn1 malloc cbb d tag of
         (False, cbb) \<Rightarrow> (False, cbb_on_error cbb d)
       | (True, cbb) \<Rightarrow>
           (case body cbb (Suc d) of
              (False, cbb) \<Rightarrow> (False, cbb_on_error cbb d)
            | (True, cbb) \<Rightarrow>
                (case CBB_flush malloc cbb d of
                   (False, cbb) \<Rightarrow> (False, e3 cbb d) | (True, cbb) \<Rightarrow> (True, cbb))))"
  shows "cbb_writer malloc opn (der tag contents)"
proof
  fix cbb d
  assume m: "malloc_spec malloc" and wf: "cbb_wf cbb" "\<not> error (base cbb)" "d \<le> length (children cbb)"
  obtain ok c1 where c1: "CBB_add_asn1 malloc cbb d tag = (ok, c1)" by fastforce
  have b: "begins (tag_bytes tag) 1 True cbb d (ok, c1)"
    using CBB_add_asn1_begins [OF m wf, of tag] c1 by simp
  have "encode (if True then Asn1 else Fixed (unat 1)) contents = Some (der_len (length contents) @ contents)"
    using len by simp
  from child_writes [OF b body keeps_error_simps(2) keeps_error_simps(2) e _ this m wf]
  show "writes (der tag contents) cbb d (opn cbb d)"
    unfolding opn c1 by (cases ok) (simp_all add: der_def)
next
  fix cbb :: CBB and d
  assume "error (base cbb)"
  then show "\<not> fst (opn cbb d) \<and> error (base (snd (opn cbb d)))"
    by (simp add: opn CBB_add_asn1_sticky cbb_on_error_def)
qed

lemma cbb_writer_octet_string:
  assumes "length data = unat len" "unat len < 4294967295"
  shows "cbb_writer malloc (\<lambda>cbb d. CBB_add_asn1_octet_string malloc cbb d data len)
    (der CBS_ASN1_OCTETSTRING data)"
  by (rule cbb_writer_element [OF cbb_writer_appends [OF cbb_writer_add_bytes [OF assms(1)]]
        _ keeps_error_simps(2)])
    (use assms in \<open>simp_all add: CBB_add_asn1_octet_string_def\<close>)

interpretation wr_bool: cbb_writer malloc "\<lambda>cbb d. CBB_add_asn1_bool malloc cbb d v"
    "der CBS_ASN1_BOOLEAN [if v \<noteq> 0 then 0xff else 0]" for malloc v
  by (rule cbb_writer_element [OF cbb_writer_appends [OF wr_u8.cbb_writer_axioms] _ keeps_error_simps(2)])
    (simp_all add: CBB_add_asn1_bool_def)

end
