(* ===== verification/Cbb_Integer.thy ===== *)
theory Cbb_Integer
  imports Cbb_Asn1
begin

text \<open>
  The INTEGER writers of cbb.c: the contents they write are the shortest two's complement
  encoding of the number.
\<close>

section \<open>Integers\<close>

text \<open>An unsigned number without leading zeros, with a zero byte in front when it would be negative.\<close>

fun uint_contents :: "u8 list \<Rightarrow> u8 list" where
  "uint_contents [] = [0]"
| "uint_contents (b # bs) =
     (if b = 0 then uint_contents bs else if 128 \<le> unat b then 0 # b # bs else b # bs)"

lemma int_val_uint_contents: "int_val (uint_contents bs) = int (be_val bs)"
  by (induction bs) (auto simp: sbyte_def)

lemma valid_int_uint_contents: "valid_int (uint_contents bs)"
proof (induction bs)
  case (Cons b bs)
  then show ?case
    by (cases bs) (auto simp: word_unat_eq_iff)
qed simp

lemma length_uint_contents: "length (uint_contents bs) \<le> Suc (length bs)"
  by (induction bs) auto

definition uint64_byte :: "u64 \<Rightarrow> nat \<Rightarrow> u8" where
  "uint64_byte v i = ucast (drop_bit (8 * (7 - i)) v AND 0xff)"

lemma be_bytes_map: "be_bytes n v = map (\<lambda>i. word_of_nat (v div 256 ^ (n - 1 - i))) [0..<n]"
proof (induction n arbitrary: v)
  case (Suc n)
  have "v div 256 div 256 ^ (n - 1 - i) = v div 256 ^ (n - i)" if "i < n" for i
  proof -
    have "n - i = Suc (n - 1 - i)" using that by simp
    then show ?thesis by (simp add: div_mult2_eq)
  qed
  then show ?case by (simp add: Suc.IH)
qed simp

lemma uint64_bytes: "map (uint64_byte v) [0..<8] = be_bytes 8 (unat v)"
proof -
  have m: "(0xff :: u64) = mask 8" by (simp add: mask_eq_exp_minus_1)
  have b: "uint64_byte v i = word_of_nat (unat v div 256 ^ (7 - i))" for i
  proof (rule word_nat_eqI)
    have "unat (uint64_byte v i) = unat v div 256 ^ (7 - i) mod 256"
      unfolding uint64_byte_def unat_ucast_mod m unat_and_mask unat_drop_bit_div
      by (simp add: power_mult)
    then show "unat (uint64_byte v i) = unat (word_of_nat (unat v div 256 ^ (7 - i)) :: u8)"
      by (simp add: unat_of_nat)
  qed
  show ?thesis unfolding b be_bytes_map by simp
qed

text \<open>The loop with the byte for zero behind it.\<close>

definition uint64_body :: "libc_malloc \<Rightarrow> u64 \<Rightarrow> nat list \<Rightarrow> bool \<Rightarrow> CBB \<Rightarrow> nat \<Rightarrow> bool \<times> CBB" where
  "uint64_body malloc v is s cbb d =
     (case add_uint64_loop malloc v is s cbb d of
        (False, started, cbb) \<Rightarrow> (False, cbb)
      | (True, started, cbb) \<Rightarrow> if \<not> started then CBB_add_u8 malloc cbb d 0 else (True, cbb))"

lemma uint64_body_Cons:
  "uint64_body malloc v (i # is) s cbb d =
     (let byte = uint64_byte v i in
      if \<not> s \<and> byte = 0 then uint64_body malloc v is s cbb d
      else case (if \<not> s \<and> 128 \<le> unat byte then CBB_add_u8 malloc cbb d 0 else (True, cbb)) of
             (False, cbb) \<Rightarrow> (False, cbb)
           | (True, cbb) \<Rightarrow>
               (case CBB_add_u8 malloc cbb d byte of
                  (False, cbb) \<Rightarrow> (False, cbb) | (True, cbb) \<Rightarrow> uint64_body malloc v is True cbb d))"
  using byte_and_80 [of "uint64_byte v i"]
  by (simp add: uint64_body_def uint64_byte_def Let_def not_less split: prod.splits bool.splits)

lemma uint64_body_appends:
  "appends malloc (uint64_body malloc v is s)
     (if s then map (uint64_byte v) is else uint_contents (map (uint64_byte v) is))"
proof (induction "is" arbitrary: s)
  case Nil
  have "uint64_body malloc v [] True = (\<lambda>cbb d. (True, cbb))"
    "uint64_body malloc v [] False = (\<lambda>cbb d. CBB_add_u8 malloc cbb d 0)"
    by (simp_all add: fun_eq_iff uint64_body_def)
  then show ?case
    using appends_nil cbb_writer_appends [OF wr_u8.cbb_writer_axioms] by (cases s) simp_all
next
  case (Cons i "is")
  let ?b = "uint64_byte v i" and ?bs = "map (uint64_byte v) is"
  let ?w = "\<lambda>cbb d. case CBB_add_u8 malloc cbb d ?b of
      (False, cbb) \<Rightarrow> (False, cbb) | (True, cbb) \<Rightarrow> uint64_body malloc v is True cbb d"
  have w: "cbb_writer malloc ?w ([?b] @ ?bs)"
    using cbb_writer_then_appends [OF wr_u8.cbb_writer_axioms Cons.IH [of True]] by simp
  note w0 = cbb_writer_seq [OF wr_u8.cbb_writer_axioms [of malloc 0] w]
  consider "s" | "\<not> s" "?b = 0" | "\<not> s" "?b \<noteq> 0" "128 \<le> unat ?b" | "\<not> s" "?b \<noteq> 0" "\<not> 128 \<le> unat ?b" by blast
  then show ?case
  proof cases
    case 1
    then show ?thesis using appends_cong [OF cbb_writer_appends [OF w]] by (simp add: uint64_body_Cons)
  next
    case 2
    then show ?thesis using appends_cong [OF Cons.IH [of False]] by (simp add: uint64_body_Cons)
  next
    case 3
    then show ?thesis using appends_cong [OF cbb_writer_appends [OF w0]] by (simp add: uint64_body_Cons)
  next
    case 4
    then show ?thesis using appends_cong [OF cbb_writer_appends [OF w]] by (simp add: uint64_body_Cons)
  qed
qed

interpretation wr_uint64_tag: cbb_writer malloc "\<lambda>cbb d. CBB_add_asn1_uint64_with_tag malloc cbb d v tag"
    "der tag (uint_contents (be_bytes 8 (unat v)))" for malloc v tag
proof (rule cbb_writer_element [OF _ _ keeps_error_simps(1)])
  show "appends malloc (uint64_body malloc v [0..<8] False) (uint_contents (be_bytes 8 (unat v)))"
    using uint64_body_appends [of malloc v "[0..<8]" False] unfolding uint64_bytes by simp
  show "length (uint_contents (be_bytes 8 (unat v))) < 4294967295"
    using length_uint_contents [of "be_bytes 8 (unat v)"] by simp
qed (simp add: CBB_add_asn1_uint64_with_tag_def uint64_body_def split: prod.splits bool.splits)

interpretation wr_uint64: cbb_writer malloc "\<lambda>cbb d. CBB_add_asn1_uint64 malloc cbb d v"
    "der CBS_ASN1_INTEGER (uint_contents (be_bytes 8 (unat v)))" for malloc v
  by (rule cbb_writer_cong [OF wr_uint64_tag.cbb_writer_axioms])
    (simp_all add: CBB_add_asn1_uint64_def)

text \<open>A negative number without superfluous sign bytes; the bytes are big-endian.\<close>

fun neg_contents :: "u8 list \<Rightarrow> u8 list" where
  "neg_contents (b # c # bs) = (if b = 0xff \<and> 128 \<le> unat c then neg_contents (c # bs) else b # c # bs)"
| "neg_contents bs = bs"

lemma int64_start_contents:
  "n < length bs \<Longrightarrow> rev (take (Suc (int64_start bs n)) bs) = neg_contents (rev (take (Suc n) bs))"
proof (induction n)
  case 0
  then show ?case by (cases bs) simp_all
next
  case (Suc n)
  have t: "take (Suc (Suc n)) bs = take (Suc n) bs @ [bs ! Suc n]" "take (Suc n) bs = take n bs @ [bs ! n]"
    using Suc.prems by (simp_all add: take_Suc_conv_app_nth)
  have c: "bs ! n AND 0x80 \<noteq> 0 \<longleftrightarrow> 128 \<le> unat (bs ! n)" using byte_and_80 [of "bs ! n"] by (simp add: not_less)
  show ?case
  proof (cases "bs ! Suc n = 0xff \<and> 128 \<le> unat (bs ! n)")
    case True
    then show ?thesis using Suc t(1) c by (simp add: t(2))
  next
    case False
    then have "int64_start bs (Suc n) = Suc n" using c by auto
    then show ?thesis using False t by (auto split: if_splits)
  qed
qed

lemma neg_contents_facts:
  assumes "bs \<noteq> []" "128 \<le> unat (hd bs)"
  shows "int_val (neg_contents bs) = int_val bs" "valid_int (neg_contents bs)"
    "length (neg_contents bs) \<le> length bs"
  using assms
proof (induction bs rule: neg_contents.induct)
  case (1 b c bs)
  case 1
  show ?case
  proof (cases "b = 0xff \<and> 128 \<le> unat c")
    case True
    then have "sbyte b = - 1" by (simp add: sbyte_m1)
    then have "int_val (b # c # bs) = int (be_val (c # bs)) - 256 ^ length (c # bs)"
      by simp
    also have "\<dots> = int_val (c # bs)" using True int_val_be_val [of "c # bs"] by simp
    finally have "int_val (b # c # bs) = int_val (c # bs)" .
    with True "1.IH"(1) show ?thesis by simp
  qed auto
  case 2
  show ?case using "1.IH"(2) 2 by (cases "b = 0xff \<and> 128 \<le> unat c") (auto simp: word_unat_eq_iff)
  case 3
  show ?case using "1.IH"(3) 3 by (cases "b = 0xff \<and> 128 \<le> unat c") auto
qed auto

lemma add_int64_loop_appends:
  "k \<le> length bs \<Longrightarrow> appends malloc (\<lambda>cbb d. add_int64_loop malloc bs k cbb d) (rev (take k bs))"
proof (induction k)
  case 0
  then show ?case by (simp add: appends_nil)
next
  case (Suc k)
  have "rev (take (Suc k) bs) = [bs ! k] @ rev (take k bs)"
    using Suc.prems by (simp add: take_Suc_conv_app_nth)
  then show ?case
    using cbb_writer_appends [OF cbb_writer_then_appends [OF wr_u8.cbb_writer_axioms Suc.IH]] Suc.prems
    by simp
qed

definition int64_contents :: "u64 \<Rightarrow> u8 list" where
  "int64_contents v =
     (if sint v \<ge> 0 then uint_contents (be_bytes 8 (unat v)) else neg_contents (be_bytes 8 (unat v)))"

lemma be_bytes_8_ne [simp]: "be_bytes 8 n \<noteq> []"
  by (metis length_be_bytes list.size(3) zero_neq_numeral)

lemma int_val_be_bytes: "int_val (be_bytes 8 (unat v)) = sint (v :: u64)"
proof -
  have "unat (load_be (be_bytes 8 (unat v))) = unat v"
    by (subst unat_load_be) (simp_all add: be_val_be_bytes)
  then have "load_be (be_bytes 8 (unat v)) = v" by (rule word_nat_eqI)
  then show ?thesis using sint_sign_extend [of "be_bytes 8 (unat v)"] by simp
qed

lemma int64_contents_facts:
  "int_val (int64_contents v) = sint v" "valid_int (int64_contents v)" "length (int64_contents v) \<le> 9"
proof -
  let ?bs = "be_bytes 8 (unat v)"
  have ne: "?bs \<noteq> []" by simp
  have "int_val (int64_contents v) = sint v \<and> valid_int (int64_contents v) \<and> length (int64_contents v) \<le> 9"
  proof (cases "sint v \<ge> 0")
    case True
    then have "int (be_val ?bs) = sint v"
      using int_val_unsigned [OF ne] by (simp add: int_val_be_bytes)
    with True show ?thesis
      using length_uint_contents [of ?bs]
      by (simp add: int64_contents_def int_val_uint_contents valid_int_uint_contents)
  next
    case False
    then have "128 \<le> unat (hd ?bs)" using int_val_nonneg [OF ne] by (simp add: int_val_be_bytes)
    from neg_contents_facts [OF ne this] False show ?thesis
      by (simp add: int64_contents_def int_val_be_bytes)
  qed
  then show "int_val (int64_contents v) = sint v" "valid_int (int64_contents v)" "length (int64_contents v) \<le> 9"
    by auto
qed

interpretation wr_int64_tag: cbb_writer malloc "\<lambda>cbb d. CBB_add_asn1_int64_with_tag malloc cbb d v tag"
    "der tag (int64_contents v)" for malloc v tag
proof (cases "sint v \<ge> 0")
  case True
  then show "cbb_writer malloc (\<lambda>cbb d. CBB_add_asn1_int64_with_tag malloc cbb d v tag) (der tag (int64_contents v))"
    using wr_uint64_tag.cbb_writer_axioms [of malloc v tag]
    by (simp add: CBB_add_asn1_int64_with_tag_def int64_contents_def)
next
  case False
  let ?bs = "rev (be_bytes 8 (unat v))" and ?s = "int64_start (rev (be_bytes 8 (unat v))) 7"
  have c: "rev (take (Suc ?s) ?bs) = int64_contents v"
    using int64_start_contents [of 7 ?bs] False by (simp add: int64_contents_def)
  have "int64_start bs n \<le> n" for bs n by (induction n) auto
  then have le: "Suc ?s \<le> length ?bs" using le_imp_less_Suc [of ?s 7] by simp
  show "cbb_writer malloc (\<lambda>cbb d. CBB_add_asn1_int64_with_tag malloc cbb d v tag) (der tag (int64_contents v))"
  proof (rule cbb_writer_element [OF _ _ keeps_error_simps(1)])
    show "appends malloc (\<lambda>cbb d. add_int64_loop malloc ?bs (Suc ?s) cbb d) (int64_contents v)"
      using add_int64_loop_appends [OF le] unfolding c .
    show "length (int64_contents v) < 4294967295" using int64_contents_facts(3) [of v] by simp
  qed (use False in \<open>simp add: CBB_add_asn1_int64_with_tag_def Let_def split: prod.splits bool.splits\<close>)
qed

interpretation wr_int64: cbb_writer malloc "\<lambda>cbb d. CBB_add_asn1_int64 malloc cbb d v"
    "der CBS_ASN1_INTEGER (int64_contents v)" for malloc v
  by (rule cbb_writer_cong [OF wr_int64_tag.cbb_writer_axioms])
    (simp_all add: CBB_add_asn1_int64_def)

end
