(* ===== verification/Oid.thy ===== *)
theory Oid
  imports Cbb_Integer
begin

text \<open>
  Object identifiers between dotted decimal text and DER: \<open>CBB_add_asn1_oid_from_text\<close>
  of cbb.c and \<open>CBS_asn1_oid_to_text\<close> of cbs.c. The first two components share one
  base-128 integer.
\<close>

section \<open>Definitions\<close>

definition parse_dotted_decimal :: "u64 cbs_get" where
  "parse_dotted_decimal cbs =
     (case CBS_get_u64_decimal cbs of
        (None, cbs) \<Rightarrow> (None, cbs)
      | (Some out, cbs) \<Rightarrow>
          (case CBS_get_u8 cbs of
             (None, cbs) \<Rightarrow> (Some out, cbs)
           | (Some dot, cbs) \<Rightarrow>
               if dot = 0x2e \<and> CBS_len cbs > 0 then (Some out, cbs) else (None, cbs)))"

lemma CBS_skip_1_len: "CBS_len cbs \<noteq> 0 \<Longrightarrow> CBS_len (snd (CBS_skip cbs 1)) < CBS_len cbs"
  by (auto simp: CBS_skip_def cbs_get_def word_less_nat_alt unat_minus_one unat_gt_0)

lemma get_u64_decimal_loop_len:
  "get_u64_decimal_loop v seen cbs = (Some x, c) \<Longrightarrow>
     CBS_len c \<le> CBS_len cbs \<and> (\<not> seen \<longrightarrow> CBS_len c < CBS_len cbs)"
proof (induction v seen cbs rule: get_u64_decimal_loop.induct)
  case (1 v seen cbs)
  show ?case
  proof (cases "CBS_len cbs \<noteq> 0 \<and> OPENSSL_isdigit (uint (CBS_data cbs ! 0))")
    case True
    have "CBS_len c \<le> CBS_len (snd (CBS_skip cbs 1))"
      using "1.prems" True "1.IH" [of "ucast (CBS_data cbs ! 0 - 48)" "snd (CBS_skip cbs 1)"]
      by (auto simp: get_u64_decimal_loop.simps [of v seen cbs] Let_def split: if_splits)
    with CBS_skip_1_len [of cbs] True show ?thesis by auto
  next
    case False
    with "1.prems" show ?thesis
      by (auto simp: get_u64_decimal_loop.simps [of v seen cbs] split: if_splits)
  qed
qed

lemma CBS_get_u8_len: "CBS_len (snd (CBS_get_u8 cbs)) \<le> CBS_len cbs"
  by (auto simp: CBS_get_u8_def cbs_get_def word_le_nat_alt unat_minus_one)

lemma parse_dotted_decimal_len:
  "parse_dotted_decimal cbs = (Some v, c) \<Longrightarrow> unat (CBS_len c) < unat (CBS_len cbs)"
proof -
  assume *: "parse_dotted_decimal cbs = (Some v, c)"
  then obtain x c1 where "CBS_get_u64_decimal cbs = (Some x, c1)" "c = snd (CBS_get_u8 c1)"
    by (auto simp: parse_dotted_decimal_def split: prod.splits option.splits if_splits)
  with get_u64_decimal_loop_len [of 0 False cbs x c1] CBS_get_u8_len [of c1] show ?thesis
    by (auto simp: CBS_get_u64_decimal_def word_less_nat_alt word_le_nat_alt)
qed

text \<open>The loop over the components behind the first two.\<close>

function oid_from_text_loop :: "libc_malloc \<Rightarrow> CBS \<Rightarrow> CBB \<Rightarrow> nat \<Rightarrow> bool \<times> CBB" where
  "oid_from_text_loop malloc cbs cbb d =
     (if CBS_len cbs > 0 then
        (case parse_dotted_decimal cbs of
           (None, cbs) \<Rightarrow> (False, cbb)
         | (Some a, cbs) \<Rightarrow>
             (case add_base128_integer malloc cbb d a of
                (False, cbb) \<Rightarrow> (False, cbb)
              | (True, cbb) \<Rightarrow> oid_from_text_loop malloc cbs cbb d))
      else (True, cbb))"
  by pat_completeness auto
termination
  by (relation "measure (\<lambda>(malloc, cbs, cbb, d). unat (CBS_len cbs))")
    (auto dest!: sym [of "(Some _, _)"] parse_dotted_decimal_len)

declare oid_from_text_loop.simps [simp del]

definition CBB_add_asn1_oid_from_text :: "libc_malloc \<Rightarrow> CBB \<Rightarrow> nat \<Rightarrow> u8 list \<Rightarrow> size_t \<Rightarrow> bool \<times> CBB" where
  "CBB_add_asn1_oid_from_text malloc cbb d text len =
     (case CBB_flush malloc cbb d of
        (False, cbb) \<Rightarrow> (False, cbb)
      | (True, cbb) \<Rightarrow>
          (case parse_dotted_decimal (CBS_init text len) of
             (None, cbs) \<Rightarrow> (False, cbb)
           | (Some a, cbs) \<Rightarrow>
               (case parse_dotted_decimal cbs of
                  (None, cbs) \<Rightarrow> (False, cbb)
                | (Some b, cbs) \<Rightarrow>
                    if a > 2 \<or> (a < 2 \<and> b > 39) \<or> b > (- 1) - 80 then (False, cbb)
                    else case add_base128_integer malloc cbb d (40 * a + b) of
                           (False, cbb) \<Rightarrow> (False, cbb)
                         | (True, cbb) \<Rightarrow> oid_from_text_loop malloc cbs cbb d)))"

text \<open>\<open>snprintf\<close> with \<open>PRIu64\<close> into a buffer large enough for every \<open>uint64_t\<close>, then \<open>CBB_add_bytes\<close>.\<close>

definition add_decimal :: "libc_malloc \<Rightarrow> CBB \<Rightarrow> nat \<Rightarrow> u64 \<Rightarrow> bool \<times> CBB" where
  "add_decimal malloc out d v =
     (let text = decimal (unat v) in CBB_add_bytes malloc out d text (word_of_nat (length text)))"

lemma base128_loop_len:
  "base128_loop v cbs = (Some x, c) \<Longrightarrow> unat (CBS_len c) < unat (CBS_len cbs)"
proof (induction v cbs rule: base128_loop.induct)
  case (1 v cbs)
  from "1.prems" obtain b c1 where b: "CBS_get_u8 cbs = (Some b, c1)"
    by (auto simp: base128_loop.simps [of v cbs] split: prod.splits option.splits)
  then have "unat (CBS_len c1) < unat (CBS_len cbs)"
    by (auto simp: CBS_get_u8_def cbs_get_def unat_dec split: if_splits)
  with "1.prems" "1.IH" [OF b [symmetric] refl] b show ?case
    by (fastforce simp: base128_loop.simps [of v cbs] Let_def split: if_splits)
qed

function oid_to_text_loop :: "libc_malloc \<Rightarrow> CBS \<Rightarrow> CBB \<Rightarrow> nat \<Rightarrow> bool \<times> CBB" where
  "oid_to_text_loop malloc copy cbb d =
     (if CBS_len copy \<noteq> 0 then
        (case parse_base128_integer copy of
           (None, copy) \<Rightarrow> (False, cbb)
         | (Some v, copy) \<Rightarrow>
             (case CBB_add_u8 malloc cbb d 0x2e of
                (False, cbb) \<Rightarrow> (False, cbb)
              | (True, cbb) \<Rightarrow>
                  (case add_decimal malloc cbb d v of
                     (False, cbb) \<Rightarrow> (False, cbb)
                   | (True, cbb) \<Rightarrow> oid_to_text_loop malloc copy cbb d)))
      else (True, cbb))"
  by pat_completeness auto
termination
  by (relation "measure (\<lambda>(malloc, cbs, cbb, d). unat (CBS_len cbs))")
    (auto simp: parse_base128_integer_def dest!: sym [of "(Some _, _)"] base128_loop_len)

declare oid_to_text_loop.simps [simp del]

definition oid_to_text_first :: "libc_malloc \<Rightarrow> CBB \<Rightarrow> nat \<Rightarrow> u64 \<Rightarrow> bool \<times> CBB" where
  "oid_to_text_first malloc cbb d v =
     (if v \<ge> 80 then
        (case CBB_add_bytes malloc cbb d [0x32, 0x2e] 2 of
           (False, cbb) \<Rightarrow> (False, cbb)
         | (True, cbb) \<Rightarrow> add_decimal malloc cbb d (v - 80))
      else
        (case add_decimal malloc cbb d (v div 40) of
           (False, cbb) \<Rightarrow> (False, cbb)
         | (True, cbb) \<Rightarrow>
             (case CBB_add_u8 malloc cbb d 0x2e of
                (False, cbb) \<Rightarrow> (False, cbb)
              | (True, cbb) \<Rightarrow> add_decimal malloc cbb d (v mod 40))))"

text \<open>The result is the buffer with the text, \<open>None\<close> for the null pointer.\<close>

definition CBS_asn1_oid_to_text :: "libc_malloc \<Rightarrow> CBS \<Rightarrow> u8 list option" where
  "CBS_asn1_oid_to_text malloc cbs =
     (case CBB_init malloc 32 of
        None \<Rightarrow> None
      | Some cbb \<Rightarrow>
          (case parse_base128_integer cbs of
             (None, copy) \<Rightarrow> None
           | (Some v, copy) \<Rightarrow>
               (case oid_to_text_first malloc cbb 0 v of
                  (False, cbb) \<Rightarrow> None
                | (True, cbb) \<Rightarrow>
                    (case oid_to_text_loop malloc copy cbb 0 of
                       (False, cbb) \<Rightarrow> None
                     | (True, cbb) \<Rightarrow>
                         (case CBB_add_u8 malloc cbb 0 0 of
                            (False, cbb) \<Rightarrow> None
                          | (True, cbb) \<Rightarrow>
                              (case CBB_finish malloc cbb 0 of
                                 (None, cbb) \<Rightarrow> None
                               | (Some (txt, txt_len), cbb) \<Rightarrow> txt))))))"

section \<open>Dotted decimal text\<close>

lemma decimal_snoc:
  "v \<noteq> 0 \<Longrightarrow> is_digit b \<Longrightarrow> decimal (v * 10 + digit_val b) = decimal v @ [b]"
proof -
  assume v: "v \<noteq> 0" and b: "is_digit b"
  note d = digit_val_le [OF b]
  have "(v * 10 + digit_val b) div 10 = v" "(v * 10 + digit_val b) mod 10 = digit_val b"
    using d by simp_all
  moreover have "word_of_nat (48 + digit_val b) = b" unfolding unat_digit [OF b, symmetric] by simp
  ultimately show ?thesis using v by (subst decimal.simps) simp
qed

lemma decimal_digit: "is_digit b \<Longrightarrow> decimal (digit_val b) = [b]"
proof -
  assume b: "is_digit b"
  have "word_of_nat (48 + digit_val b) = b" unfolding unat_digit [OF b, symmetric] by simp
  then show ?thesis using digit_val_le [OF b] by (subst decimal.simps) simp
qed

lemma decimal_spec_seen_sound:
  "decimal_spec v True bs = Some (x, rest) \<Longrightarrow> v \<noteq> 0 \<Longrightarrow> v < 18446744073709551616 \<Longrightarrow>
     x < 18446744073709551616 \<and> (\<exists>pre. bs = pre @ rest \<and> decimal x = decimal v @ pre) \<and>
     (\<forall>b r. rest = b # r \<longrightarrow> \<not> is_digit b)"
proof (induction v True bs rule: decimal_spec.induct)
  case (2 v b bs)
  show ?case
  proof (cases "is_digit b")
    case True
    with "2.prems" have ok: "\<not> 18446744073709551616 \<le> v * 10 + digit_val b"
      "decimal_spec (v * 10 + digit_val b) True bs = Some (x, rest)" by (auto split: if_splits)
    have "\<not> (v = 0 \<and> True \<or> 18446744073709551616 \<le> v * 10 + digit_val b)" using ok "2.prems"(2) by simp
    from "2.hyps" [OF True this ok(2)] ok(1) "2.prems"(2) decimal_snoc [OF "2.prems"(2) True]
    show ?thesis by auto
  next
    case False
    with "2.prems" show ?thesis by (auto split: if_splits)
  qed
qed (auto split: if_splits)

text \<open>The decimal parser accepts exactly the printed numbers that no digit follows.\<close>

lemma decimal_spec_iff:
  "decimal_spec 0 False bs = Some (x, rest) \<longleftrightarrow>
     x < 18446744073709551616 \<and> bs = decimal x @ rest \<and> (\<forall>b r. rest = b # r \<longrightarrow> \<not> is_digit b)"
    (is "?L \<longleftrightarrow> ?R")
proof
  assume ?L
  then obtain b bs' where bs: "bs = b # bs'" "is_digit b" "decimal_spec (digit_val b) True bs' = Some (x, rest)"
    by (cases bs) (auto split: if_splits)
  note d = digit_val_le [OF bs(2)] decimal_digit [OF bs(2)]
  show ?R
  proof (cases "digit_val b = 0")
    case True
    then have "x = 0" "bs' = rest" "\<forall>b r. rest = b # r \<longrightarrow> \<not> is_digit b"
      using bs(3) by (cases bs'; auto split: if_splits)+
    with bs d True show ?thesis by simp
  next
    case False
    from decimal_spec_seen_sound [OF bs(3) False] d bs show ?thesis by auto
  qed
next
  assume ?R
  then show ?L using decimal_roundtrip [of x rest] by blast
qed

fun dotted :: "nat list \<Rightarrow> u8 list" where
  "dotted [] = []"
| "dotted [x] = decimal x"
| "dotted (x # y # xs) = decimal x @ [0x2e] @ dotted (y # xs)"

definition dotted_spec :: "nat parser" where
  "dotted_spec bs =
     (case decimal_spec 0 False bs of
        None \<Rightarrow> None
      | Some (v, r) \<Rightarrow>
          (case r of [] \<Rightarrow> Some (v, []) | c # r' \<Rightarrow> if c = 0x2e \<and> r' \<noteq> [] then Some (v, r') else None))"

interpretation rd_dotted: cbs_reader parse_dotted_decimal "\<lambda>_. True" unat dotted_spec
proof (rule reads_cbs_readerI)
  fix cbs
  assume wf: "cbs_wf cbs"
  show "reads (parse_dotted_decimal cbs) cbs (\<lambda>_. True) unat (dotted_spec (cbs_bytes cbs))"
  proof (cases "decimal_spec 0 False (cbs_bytes cbs)")
    case None
    with rd_decimal.get_rejects [OF wf None] show ?thesis
      by (auto simp: reads_def dotted_spec_def parse_dotted_decimal_def)
  next
    case (Some p)
    obtain v r where p: "p = (v, r)" by (cases p)
    with rd_decimal.get_accepts [OF wf] Some obtain a c where
      a: "CBS_get_u64_decimal cbs = (Some a, c)" "unat a = v" "cbs_wf c" "cbs_bytes c = r" by blast
    have suf: "suffix r (cbs_bytes cbs)" using Some p decimal_spec_suffix by auto
    show ?thesis using a(3)
    proof (cases rule: CBS_get_u8_cases)
      case 1
      then show ?thesis using Some p a by (auto simp: reads_def dotted_spec_def parse_dotted_decimal_def)
    next
      case (2 b c')
      have "CBS_len c' > 0 \<longleftrightarrow> cbs_bytes c' \<noteq> []" using 2(2) by (simp add: cbs_bytes_Nil_iff word_gt_0)
      moreover have "suffix (cbs_bytes c') (cbs_bytes cbs)" using suf a(4) 2(3) by (metis suffix_ConsD)
      ultimately show ?thesis
        using 2 Some p a by (auto simp: reads_def dotted_spec_def parse_dotted_decimal_def)
    qed
  qed
next
  fix bs x rest
  assume "dotted_spec bs = Some (x, rest)"
  then show "suffix rest bs"
    by (auto simp: dotted_spec_def split: option.splits list.splits if_splits
        dest!: decimal_spec_suffix dest: suffix_ConsD)
qed

lemma is_digit_dot [simp]: "\<not> is_digit 0x2e"
  by (simp add: is_digit_iff)

lemma decimal_ne [simp]: "decimal n \<noteq> []"
  by (subst decimal.simps) simp

lemma dotted_ne [simp]: "dotted (x # xs) \<noteq> []"
  by (cases xs) simp_all

lemma dotted_spec_iff:
  "dotted_spec bs = Some (x, rest) \<longleftrightarrow>
     x < 18446744073709551616 \<and> (rest = [] \<and> bs = decimal x \<or> rest \<noteq> [] \<and> bs = decimal x @ [0x2e] @ rest)"
proof -
  have "dotted_spec bs = Some (x, rest) \<longleftrightarrow>
      (\<exists>r. decimal_spec 0 False bs = Some (x, r) \<and> (r = [] \<and> rest = [] \<or> r = 0x2e # rest \<and> rest \<noteq> []))"
    by (auto simp: dotted_spec_def split: option.splits list.splits if_splits)
  then show ?thesis by (auto simp: decimal_spec_iff)
qed

section \<open>From text to DER\<close>

definition oid_ok :: "nat list \<Rightarrow> bool" where
  "oid_ok xs \<longleftrightarrow> 2 \<le> length xs \<and> xs ! 0 \<le> 2 \<and> (xs ! 0 < 2 \<longrightarrow> xs ! 1 \<le> 39) \<and>
     xs ! 1 \<le> 18446744073709551535 \<and> (\<forall>x \<in> set xs. x < 18446744073709551616)"

definition oid_bytes :: "nat list \<Rightarrow> u8 list" where
  "oid_bytes xs = base128 (40 * xs ! 0 + xs ! 1) @ concat (map base128 (drop 2 xs))"

lemma cbs_reads_dotted:
  assumes "cbs_wf cbs" "cbs_bytes cbs = dotted (x # xs)" "x < 18446744073709551616"
  obtains a c where "parse_dotted_decimal cbs = (Some a, c)" "unat a = x" "cbs_wf c" "cbs_bytes c = dotted xs"
proof -
  have "dotted_spec (cbs_bytes cbs) = Some (x, dotted xs)"
    unfolding assms(2) dotted_spec_iff using assms(3) by (cases xs) auto
  from rd_dotted.get_accepts [OF assms(1) this] that show thesis by blast
qed

lemma oid_from_text_loop_appends:
  "cbs_wf cbs \<Longrightarrow> cbs_bytes cbs = dotted xs \<Longrightarrow> \<forall>x \<in> set xs. x < 18446744073709551616 \<Longrightarrow>
     appends malloc (\<lambda>cbb d. oid_from_text_loop malloc cbs cbb d) (concat (map base128 xs))"
proof (induction xs arbitrary: cbs)
  case Nil
  then have "CBS_len cbs = 0" using cbs_bytes_Nil_iff by auto
  then show ?case using appends_nil by (simp add: oid_from_text_loop.simps)
next
  case (Cons x xs)
  then obtain a c where a: "parse_dotted_decimal cbs = (Some a, c)" "unat a = x" "cbs_wf c" "cbs_bytes c = dotted xs"
    by (auto elim: cbs_reads_dotted)
  have "CBS_len cbs > 0" using Cons.prems(1,2) cbs_bytes_Nil_iff [of cbs] by (auto simp: word_gt_0)
  then have "oid_from_text_loop malloc cbs cbb d =
      (case add_base128_integer malloc cbb d a of (False, cbb) \<Rightarrow> (False, cbb)
       | (True, cbb) \<Rightarrow> oid_from_text_loop malloc c cbb d)" for cbb d
    by (simp add: oid_from_text_loop.simps [of malloc cbs] a(1))
  then show ?case
    using cbb_writer_appends [OF cbb_writer_then_appends [OF wr_base128.cbb_writer_axioms [of malloc a]
        Cons.IH [OF a(3,4)]]] Cons.prems(3) a(2) by simp
qed

lemma oid_from_text_loop_text:
  "cbs_wf cbs \<Longrightarrow> fst (oid_from_text_loop malloc cbs cbb d) \<Longrightarrow>
     \<exists>xs. cbs_bytes cbs = dotted xs \<and> (\<forall>x \<in> set xs. x < 18446744073709551616)"
proof (induction malloc cbs cbb d rule: oid_from_text_loop.induct)
  case (1 malloc cbs cbb d)
  show ?case
  proof (cases "CBS_len cbs > 0")
    case True
    with "1.prems"(2) obtain a c cbb' where a: "parse_dotted_decimal cbs = (Some a, c)"
      "add_base128_integer malloc cbb d a = (True, cbb')" "fst (oid_from_text_loop malloc c cbb' d)"
      by (auto simp: oid_from_text_loop.simps [of malloc cbs] split: prod.splits option.splits bool.splits)
    note g = rd_dotted.get_Some [OF "1.prems"(1) a(1)]
    from "1.IH" [OF True a(1) [symmetric] refl a(2) [symmetric] refl g(3) a(3)] obtain xs where
      xs: "cbs_bytes c = dotted xs" "\<forall>x \<in> set xs. x < 18446744073709551616" by blast
    have "cbs_bytes cbs = dotted (unat a # xs)"
      using g(1) xs(1) unfolding dotted_spec_iff by (cases xs) auto
    then show ?thesis using xs(2) by (metis insert_iff list.set(2) unat_u64_less)
  next
    case False
    then show ?thesis using "1.prems"(1) cbs_bytes_Nil_iff [of cbs] by (metis dotted.simps(1) empty_iff list.set(1) word_gt_0)
  qed
qed

lemma oid_first_check:
  "(a > 2 \<or> (a < 2 \<and> b > 39) \<or> b > (- 1) - 80) \<longleftrightarrow>
     \<not> (unat a \<le> 2 \<and> (unat a < 2 \<longrightarrow> unat b \<le> 39) \<and> unat b \<le> 18446744073709551535)"
  for a b :: u64
  by (auto simp: word_less_nat_alt not_less)

lemma unat_oid_first:
  "unat a \<le> 2 \<Longrightarrow> unat b \<le> 18446744073709551535 \<Longrightarrow> unat (40 * a + b) = 40 * unat a + unat b"
  for a b :: u64
proof -
  assume ab: "unat a \<le> 2" "unat b \<le> 18446744073709551535"
  then have "unat (40 * a) = 40 * unat a" by (simp add: unat_word_ariths(2))
  with ab show ?thesis by (subst unat_add_no_wrap) simp_all
qed

lemma oid_ok_Cons:
  "oid_ok xs \<longleftrightarrow> (\<exists>a b ys. xs = a # b # ys \<and> a \<le> 2 \<and> (a < 2 \<longrightarrow> b \<le> 39) \<and> b \<le> 18446744073709551535 \<and>
     (\<forall>y \<in> set ys. y < 18446744073709551616))"
  by (cases xs; cases "tl xs") (auto simp: oid_ok_def)

text \<open>On the text of a valid identifier the function writes its encoding ...\<close>

lemma cbb_writer_oid:
  assumes ok: "oid_ok xs" and len: "unat len \<le> length text" and tx: "take (unat len) text = dotted xs"
  shows "cbb_writer malloc (\<lambda>cbb d. CBB_add_asn1_oid_from_text malloc cbb d text len) (oid_bytes xs)"
proof -
  let ?cbs = "CBS_init text len"
  from ok obtain x y ys where xs: "xs = x # y # ys" and lim: "x \<le> 2" "x < 2 \<longrightarrow> y \<le> 39"
    "y \<le> 18446744073709551535" "\<forall>y \<in> set ys. y < 18446744073709551616"
    unfolding oid_ok_Cons by auto
  have wf: "cbs_wf ?cbs" "cbs_bytes ?cbs = dotted (x # y # ys)"
    using len tx xs by (simp_all add: CBS_init_def cbs_wf_def cbs_bytes_def)
  from lim have "x < 18446744073709551616" "y < 18446744073709551616" by linarith+
  from cbs_reads_dotted [OF wf this(1)] obtain a c where
    a: "parse_dotted_decimal ?cbs = (Some a, c)" "unat a = x" "cbs_wf c" "cbs_bytes c = dotted (y # ys)" .
  from cbs_reads_dotted [OF a(3,4) \<open>y < 18446744073709551616\<close>] obtain b c' where
    b: "parse_dotted_decimal c = (Some b, c')" "unat b = y" "cbs_wf c'" "cbs_bytes c' = dotted ys" .
  have chk: "\<not> (a > 2 \<or> (a < 2 \<and> b > 39) \<or> b > (- 1) - 80)"
    unfolding oid_first_check using lim a(2) b(2) by simp
  have first: "unat (40 * a + b) = 40 * x + y" using unat_oid_first [of a b] a(2) b(2) lim by simp
  have opn: "CBB_add_asn1_oid_from_text malloc cbb d text len =
     (case CBB_flush malloc cbb d of (False, cbb) \<Rightarrow> (False, cbb)
      | (True, cbb) \<Rightarrow> (case add_base128_integer malloc cbb d (40 * a + b) of (False, cbb) \<Rightarrow> (False, cbb)
         | (True, cbb) \<Rightarrow> oid_from_text_loop malloc c' cbb d))" for cbb d
    unfolding CBB_add_asn1_oid_from_text_def a(1) b(1) prod.case option.case if_not_P [OF chk] ..
  show ?thesis
    unfolding opn
    using cbb_writer_seq [OF wr_flush.cbb_writer_axioms cbb_writer_then_appends
        [OF wr_base128.cbb_writer_axioms oid_from_text_loop_appends [OF b(3,4) lim(4)]],
        of malloc "40 * a + b"] first xs
    by (simp add: oid_bytes_def)
qed

text \<open>... and it fails on every other text.\<close>

lemma CBB_add_asn1_oid_from_text_valid:
  assumes len: "unat len \<le> length text" and ok: "fst (CBB_add_asn1_oid_from_text malloc cbb d text len)"
  shows "\<exists>xs. oid_ok xs \<and> take (unat len) text = dotted xs"
proof -
  let ?cbs = "CBS_init text len"
  have wf: "cbs_wf ?cbs" "cbs_bytes ?cbs = take (unat len) text"
    using len by (simp_all add: CBS_init_def cbs_wf_def cbs_bytes_def)
  from ok obtain a c b c' cbb1 cbb2 where
    a: "parse_dotted_decimal ?cbs = (Some a, c)" and b: "parse_dotted_decimal c = (Some b, c')"
    and chk: "\<not> (a > 2 \<or> (a < 2 \<and> b > 39) \<or> b > (- 1) - 80)"
    and l: "fst (oid_from_text_loop malloc c' cbb2 d)"
    unfolding CBB_add_asn1_oid_from_text_def
    by (auto split: prod.splits option.splits bool.splits if_splits)
  note ga = rd_dotted.get_Some [OF wf(1) a]
  note gb = rd_dotted.get_Some [OF ga(3) b]
  from oid_from_text_loop_text [OF gb(3) l] obtain ys where
    ys: "cbs_bytes c' = dotted ys" "\<forall>x \<in> set ys. x < 18446744073709551616" by blast
  have "cbs_bytes c = dotted (unat b # ys)"
    using gb(1) ys(1) unfolding dotted_spec_iff by (cases ys) auto
  then have "take (unat len) text = dotted (unat a # unat b # ys)"
    using ga(1) wf(2) unfolding dotted_spec_iff by auto
  moreover have "oid_ok (unat a # unat b # ys)"
    using chk ys(2) unfolding oid_first_check oid_ok_Cons by auto
  ultimately show ?thesis by blast
qed

section \<open>From DER to text\<close>

lemma length_decimal: "n < 10 ^ Suc k \<Longrightarrow> length (decimal n) \<le> Suc k"
proof (induction k arbitrary: n)
  case 0
  then show ?case by (simp add: decimal.simps)
next
  case (Suc k)
  then have "n div 10 < 10 ^ Suc k" by (simp add: div_less_iff_less_mult mult.commute)
  from Suc.IH [OF this] show ?case by (subst decimal.simps) simp
qed

interpretation wr_decimal: cbb_writer malloc "\<lambda>cbb d. add_decimal malloc cbb d v" "decimal (unat v)" for malloc v
proof -
  have "unat v < 10 ^ Suc 19" using unat_u64_less [of v] by (rule order.strict_trans) simp
  then have "length (decimal (unat v)) \<le> 20" using length_decimal [of "unat v" 19] by simp
  then have "length (decimal (unat v)) = unat (word_of_nat (length (decimal (unat v))) :: size_t)"
    by (simp add: unat_of_nat_u64)
  from cbb_writer_add_bytes [OF this, of malloc]
  show "cbb_writer malloc (\<lambda>cbb d. add_decimal malloc cbb d v) (decimal (unat v))"
    by (simp add: add_decimal_def Let_def)
qed

lemma oid_to_text_loop_appends:
  "cbs_wf copy \<Longrightarrow> cbs_bytes copy = concat (map base128 xs) \<Longrightarrow> \<forall>x \<in> set xs. x < 18446744073709551616 \<Longrightarrow>
     appends malloc (\<lambda>cbb d. oid_to_text_loop malloc copy cbb d) (concat (map (\<lambda>x. 0x2e # decimal x) xs))"
proof (induction xs arbitrary: copy)
  case Nil
  then have "CBS_len copy = 0" using cbs_bytes_Nil_iff by auto
  then show ?case using appends_nil by (simp add: oid_to_text_loop.simps)
next
  case (Cons x xs)
  have "base128_spec 0 (cbs_bytes copy) = Some (x, concat (map base128 xs))"
    using Cons.prems(2,3) by (simp add: base128_spec_iff)
  from rd_base128.get_accepts [OF Cons.prems(1) this] obtain a c where
    a: "parse_base128_integer copy = (Some a, c)" "unat a = x" "cbs_wf c" "cbs_bytes c = concat (map base128 xs)"
    by blast
  have "CBS_len copy \<noteq> 0"
    using Cons.prems(1,2) cbs_bytes_Nil_iff [of copy] by (auto simp: base128_def)
  then have "oid_to_text_loop malloc copy cbb d =
      (case CBB_add_u8 malloc cbb d 0x2e of (False, cbb) \<Rightarrow> (False, cbb)
       | (True, cbb) \<Rightarrow> (case add_decimal malloc cbb d a of (False, cbb) \<Rightarrow> (False, cbb)
          | (True, cbb) \<Rightarrow> oid_to_text_loop malloc c cbb d))" for cbb d
    by (simp add: oid_to_text_loop.simps [of malloc copy] a(1))
  then show ?case
    using cbb_writer_appends [OF cbb_writer_seq [OF wr_u8.cbb_writer_axioms [of malloc "0x2e"]
        cbb_writer_then_appends [OF wr_decimal.cbb_writer_axioms [of malloc a] Cons.IH [OF a(3,4)]]]]
      Cons.prems(3) a(2) by simp
qed

lemma oid_to_text_loop_valid:
  "cbs_wf copy \<Longrightarrow> fst (oid_to_text_loop malloc copy cbb d) \<Longrightarrow>
     \<exists>xs. cbs_bytes copy = concat (map base128 xs) \<and> (\<forall>x \<in> set xs. x < 18446744073709551616)"
proof (induction malloc copy cbb d rule: oid_to_text_loop.induct)
  case (1 malloc copy cbb d)
  show ?case
  proof (cases "CBS_len copy \<noteq> 0")
    case True
    with "1.prems"(2) obtain a c cbb1 cbb2 where a: "parse_base128_integer copy = (Some a, c)"
      "CBB_add_u8 malloc cbb d 0x2e = (True, cbb1)" "add_decimal malloc cbb1 d a = (True, cbb2)"
      "fst (oid_to_text_loop malloc c cbb2 d)"
      by (auto simp: oid_to_text_loop.simps [of malloc copy] split: prod.splits option.splits bool.splits)
    note g = rd_base128.get_Some [OF "1.prems"(1) a(1)]
    from "1.IH" [OF True a(1) [symmetric] refl a(2) [symmetric] refl a(3) [symmetric] refl g(3) a(4)] obtain xs where
      xs: "cbs_bytes c = concat (map base128 xs)" "\<forall>x \<in> set xs. x < 18446744073709551616" by blast
    have "cbs_bytes copy = concat (map base128 (unat a # xs))"
      using g(1) xs(1) by (simp add: base128_spec_iff)
    then show ?thesis using xs(2) by (metis insert_iff list.set(2) unat_u64_less)
  next
    case False
    then have "cbs_bytes copy = concat (map base128 [])" using "1.prems"(1) by (simp add: cbs_bytes_Nil_iff)
    then show ?thesis by (metis empty_iff list.set(1))
  qed
qed

text \<open>The first component back into two.\<close>

definition oid_split :: "nat \<Rightarrow> nat list" where
  "oid_split v = (if 80 \<le> v then [2, v - 80] else [v div 40, v mod 40])"

lemma oid_split_first:
  "a \<le> 2 \<Longrightarrow> (a < 2 \<longrightarrow> b \<le> 39) \<Longrightarrow> oid_split (40 * a + b) = [a, b]"
proof -
  assume "a \<le> 2" and b: "a < 2 \<longrightarrow> b \<le> 39"
  then consider "a = 0" | "a = 1" | "a = 2" by linarith
  then show ?thesis using b by cases (auto simp: oid_split_def)
qed

lemma oid_split_ok:
  assumes "v < 18446744073709551616" "\<forall>x \<in> set xs. x < 18446744073709551616"
  shows "oid_ok (oid_split v @ xs)" "oid_bytes (oid_split v @ xs) = base128 v @ concat (map base128 xs)"
  using assms by (auto simp: oid_split_def oid_ok_Cons oid_bytes_def)

lemma cbb_writer_oid_first:
  "cbb_writer malloc (\<lambda>cbb d. oid_to_text_first malloc cbb d v) (dotted (oid_split (unat v)))"
proof (cases "v \<ge> 80")
  case True
  then have v: "80 \<le> unat v" "unat (v - 80) = unat v - 80" by (auto simp: word_le_nat_alt unat_sub)
  have two: "decimal 2 = [0x32]" by (simp add: decimal.simps)
  show ?thesis
    using cbb_writer_seq [OF cbb_writer_add_bytes [of "[0x32, 0x2e]" 2 malloc]
        wr_decimal.cbb_writer_axioms [of malloc "v - 80"]] True v two
    by (simp add: oid_to_text_first_def oid_split_def)
next
  case False
  then have v: "\<not> 80 \<le> unat v" by (auto simp: word_le_nat_alt)
  have "unat (v div 40) = unat v div 40" "unat (v mod 40) = unat v mod 40"
    by (simp_all add: unat_div_distrib unat_mod_distrib)
  then show ?thesis
    using cbb_writer_seq [OF wr_decimal.cbb_writer_axioms [of malloc "v div 40"] cbb_writer_seq
        [OF wr_u8.cbb_writer_axioms [of malloc "0x2e"] wr_decimal.cbb_writer_axioms [of malloc "v mod 40"]]] False v
    by (simp add: oid_to_text_first_def oid_split_def)
qed

lemma dotted_append:
  "xs \<noteq> [] \<Longrightarrow> dotted (xs @ ys) = dotted xs @ concat (map (\<lambda>x. 0x2e # decimal x) ys)"
proof (induction xs rule: dotted.induct)
  case (2 x)
  have "dotted (x # ys) = decimal x @ concat (map (\<lambda>x. 0x2e # decimal x) ys)"
    by (induction ys arbitrary: x) auto
  then show ?case by simp
qed auto

lemma CBB_init_facts:
  assumes "malloc_spec malloc" "CBB_init malloc n = Some cbb"
  shows "cbb_wf cbb" "\<not> error (base cbb)" "children cbb = []" "bytes (base cbb) = []" "cap (base cbb) = n"
    "blen (base cbb) = 0"
  using assms OPENSSL_malloc_length [OF assms(1)]
  by (auto simp: CBB_init_def cbb_init_def cbb_wf_def buffer_wf_def buf_bytes_def bytes_def word_gt_0
      split: option.splits if_splits)

lemma CBB_finish_flushed:
  assumes "cbb_wf cbb" "\<not> error (base cbb)" "children cbb = []" "bytes (base cbb) \<noteq> []"
  shows "\<exists>junk cbb'. CBB_finish malloc cbb 0 = (Some (Some (bytes (base cbb) @ junk), blen (base cbb)), cbb')"
proof -
  obtain junk where j: "buf_bytes (base cbb) = bytes (base cbb) @ junk"
    using buf_bytes_split assms(1) by (auto simp: cbb_wf_def)
  then have "buf (base cbb) = Some (bytes (base cbb) @ junk)"
    using assms(4) by (auto simp: buf_bytes_def split: option.splits)
  then show ?thesis using assms(2,3) by (auto simp: CBB_finish_def CBB_flush_def)
qed

text \<open>The text builder as one writer: the components, and the terminating zero.\<close>

lemma oid_text_appends:
  assumes "cbs_wf copy" "cbs_bytes copy = concat (map base128 xs)" "\<forall>x \<in> set xs. x < 18446744073709551616"
  shows "cbb_writer malloc (\<lambda>cbb d.
     case oid_to_text_first malloc cbb d v of (False, cbb) \<Rightarrow> (False, cbb)
     | (True, cbb) \<Rightarrow> (case oid_to_text_loop malloc copy cbb d of (False, cbb) \<Rightarrow> (False, cbb)
        | (True, cbb) \<Rightarrow> CBB_add_u8 malloc cbb d 0)) (dotted (oid_split (unat v) @ xs) @ [0])"
proof -
  have "appends malloc (\<lambda>cbb d. case oid_to_text_loop malloc copy cbb d of (False, cbb) \<Rightarrow> (False, cbb)
      | (True, cbb) \<Rightarrow> CBB_add_u8 malloc cbb d 0) (concat (map (\<lambda>x. 0x2e # decimal x) xs) @ [0])"
    using oid_to_text_loop_appends [OF assms, of malloc] cbb_writer_appends [OF wr_u8.cbb_writer_axioms [of malloc 0]]
    by (rule appends_seq)
  from cbb_writer_then_appends [OF cbb_writer_oid_first this]
  show ?thesis by (simp add: dotted_append oid_split_def)
qed

lemma CBS_asn1_oid_to_text_eq:
  "CBS_asn1_oid_to_text malloc cbs =
     (case CBB_init malloc 32 of None \<Rightarrow> None
      | Some cbb \<Rightarrow> (case parse_base128_integer cbs of (None, copy) \<Rightarrow> None
         | (Some v, copy) \<Rightarrow>
             (case (case oid_to_text_first malloc cbb 0 v of (False, cbb) \<Rightarrow> (False, cbb)
                | (True, cbb) \<Rightarrow> (case oid_to_text_loop malloc copy cbb 0 of (False, cbb) \<Rightarrow> (False, cbb)
                   | (True, cbb) \<Rightarrow> CBB_add_u8 malloc cbb 0 0)) of
                (False, cbb) \<Rightarrow> None
              | (True, cbb) \<Rightarrow> (case CBB_finish malloc cbb 0 of (None, cbb) \<Rightarrow> None
                 | (Some (txt, txt_len), cbb) \<Rightarrow> txt))))"
  unfolding CBS_asn1_oid_to_text_def
  by (auto split: option.splits prod.splits bool.splits)

lemma oid_text_builder:
  assumes m: "malloc_spec malloc" and init: "CBB_init malloc 32 = Some cbb" and wf: "cbs_wf cbs"
    and p: "parse_base128_integer cbs = (Some v, copy)"
    and xs: "cbs_bytes copy = concat (map base128 xs)" "\<forall>x \<in> set xs. x < 18446744073709551616"
  shows "CBS_asn1_oid_to_text malloc cbs = None \<and> 32 \<le> length (dotted (oid_split (unat v) @ xs)) \<or>
    (\<exists>junk. CBS_asn1_oid_to_text malloc cbs = Some (dotted (oid_split (unat v) @ xs) @ [0] @ junk))"
proof -
  note i = CBB_init_facts [OF m init]
  note g = rd_base128.get_Some [OF wf p]
  let ?w = "dotted (oid_split (unat v) @ xs) @ [0]"
  let ?op = "\<lambda>cbb d. case oid_to_text_first malloc cbb d v of (False, cbb) \<Rightarrow> (False, cbb)
     | (True, cbb) \<Rightarrow> (case oid_to_text_loop malloc copy cbb d of (False, cbb) \<Rightarrow> (False, cbb)
        | (True, cbb) \<Rightarrow> CBB_add_u8 malloc cbb d 0)"
  note W = oid_text_appends [OF g(3) xs, of malloc v]
  obtain ok c where op: "?op cbb 0 = (ok, c)" by fastforce
  have eq: "CBS_asn1_oid_to_text malloc cbs = (if ok then
      (case CBB_finish malloc c 0 of (None, cbb) \<Rightarrow> None | (Some (txt, txt_len), cbb) \<Rightarrow> txt) else None)"
    unfolding CBS_asn1_oid_to_text_eq init p option.case prod.case op by simp
  show ?thesis
  proof (cases ok)
    case True
    with op have "?op cbb 0 = (True, c)" by simp
    note a = cbb_writer.opn_appends [OF W m i(1) _ this, unfolded i(3,4)]
    have b: "bytes (base c) = ?w" "children c = []" "cbb_wf c" using a by simp_all
    have "\<not> error (base c)"
      using cbb_writer.opn_writes [OF W m i(1,2), of 0] op True by (auto simp: writes_def)
    from CBB_finish_flushed [OF b(3) this b(2), of malloc] b(1) eq True show ?thesis by auto
  next
    case False
    have "writes ?w cbb 0 (False, c)"
      using cbb_writer.opn_writes [OF W m i(1,2), of 0] op False by simp
    then show ?thesis using eq False i by (auto simp: writes_def)
  qed
qed

lemma CBS_asn1_oid_to_text_sound:
  assumes m: "malloc_spec malloc" and wf: "cbs_wf cbs" and r: "CBS_asn1_oid_to_text malloc cbs = Some txt"
  shows "\<exists>xs junk. oid_ok xs \<and> cbs_bytes cbs = oid_bytes xs \<and> txt = dotted xs @ [0] @ junk"
proof -
  from r obtain cbb v copy cbb1 cbb2 where p: "CBB_init malloc 32 = Some cbb"
    "parse_base128_integer cbs = (Some v, copy)" "oid_to_text_loop malloc copy cbb1 0 = (True, cbb2)"
    unfolding CBS_asn1_oid_to_text_def by (auto split: option.splits prod.splits bool.splits)
  note g = rd_base128.get_Some [OF wf p(2)]
  from oid_to_text_loop_valid [OF g(3), of malloc cbb1 0] p(3) obtain xs where
    xs: "cbs_bytes copy = concat (map base128 xs)" "\<forall>x \<in> set xs. x < 18446744073709551616" by auto
  note s = oid_split_ok [OF unat_u64_less xs(2), of v]
  have "cbs_bytes cbs = oid_bytes (oid_split (unat v) @ xs)"
    using g(1) xs(1) by (simp add: base128_spec_iff s(2))
  with oid_text_builder [OF m p(1) wf p(2) xs] r s(1) show ?thesis by fastforce
qed

lemma CBS_asn1_oid_to_text_complete:
  assumes m: "malloc_spec malloc" and init: "CBB_init malloc 32 = Some cbb" and wf: "cbs_wf cbs"
    and xs: "oid_ok xs" "cbs_bytes cbs = oid_bytes xs"
  shows "CBS_asn1_oid_to_text malloc cbs = None \<and> 32 \<le> length (dotted xs) \<or>
    (\<exists>junk. CBS_asn1_oid_to_text malloc cbs = Some (dotted xs @ [0] @ junk))"
proof -
  from xs(1) obtain a b ys where ab: "xs = a # b # ys" and lim: "a \<le> 2" "a < 2 \<longrightarrow> b \<le> 39"
    "b \<le> 18446744073709551535" "\<forall>y \<in> set ys. y < 18446744073709551616"
    unfolding oid_ok_Cons by auto
  have "base128_spec 0 (cbs_bytes cbs) = Some (40 * a + b, concat (map base128 ys))"
    using xs(2) ab lim by (simp add: oid_bytes_def base128_spec_iff)
  from rd_base128.get_accepts [OF wf this] obtain v copy where
    v: "parse_base128_integer cbs = (Some v, copy)" "unat v = 40 * a + b" "cbs_bytes copy = concat (map base128 ys)"
    by blast
  have "oid_split (unat v) @ ys = xs" using oid_split_first [OF lim(1,2)] v(2) ab by simp
  with oid_text_builder [OF m init wf v(1,3) lim(4)] show ?thesis by simp
qed

lemma concat_base128_inj:
  assumes "concat (map base128 us) = concat (map base128 vs)" "\<forall>x \<in> set us. x < 18446744073709551616"
    "\<forall>x \<in> set vs. x < 18446744073709551616"
  shows "us = vs"
  using assms
proof (induction us arbitrary: vs)
  case Nil
  then show ?case by (cases vs) (simp_all add: base128_def)
next
  case (Cons u us)
  then obtain v vs' where vs: "vs = v # vs'" by (cases vs) (auto simp: base128_def)
  have "base128 u @ concat (map base128 us) = base128 v @ concat (map base128 vs')"
    using Cons.prems(1) vs by simp
  moreover have "u < 2 ^ 64" "v < 2 ^ 64" using Cons.prems(2,3) vs by simp_all
  ultimately have "Some (u, concat (map base128 us)) = Some (v, concat (map base128 vs'))"
    by (metis base128_spec_complete)
  then have e: "u = v" "concat (map base128 us) = concat (map base128 vs')" by simp_all
  have "us = vs'" using Cons.IH [OF e(2)] Cons.prems(2,3) vs by simp
  with e vs show ?case by simp
qed

lemma oid_bytes_inj:
  assumes "oid_ok xs" "oid_ok ys" "oid_bytes xs = oid_bytes ys"
  shows "xs = ys"
proof -
  from assms(1) obtain a b us where x: "xs = a # b # us" "a \<le> 2" "a < 2 \<longrightarrow> b \<le> 39"
    "b \<le> 18446744073709551535" "\<forall>y \<in> set us. y < 18446744073709551616" unfolding oid_ok_Cons by auto
  from assms(2) obtain c d vs where y: "ys = c # d # vs" "c \<le> 2" "c < 2 \<longrightarrow> d \<le> 39"
    "d \<le> 18446744073709551535" "\<forall>y \<in> set vs. y < 18446744073709551616" unfolding oid_ok_Cons by auto
  have eq: "concat (map base128 ((40 * a + b) # us)) = concat (map base128 ((40 * c + d) # vs))"
    using assms(3) unfolding x(1) y(1) oid_bytes_def by simp
  have "\<forall>z \<in> set ((40 * a + b) # us). z < 18446744073709551616"
    using x(2,4,5) by simp
  moreover have "\<forall>z \<in> set ((40 * c + d) # vs). z < 18446744073709551616"
    using y(2,4,5) by simp
  ultimately have "(40 * a + b) # us = (40 * c + d) # vs"
    by (rule concat_base128_inj [OF eq])
  then have "oid_split (40 * a + b) @ us = oid_split (40 * c + d) @ vs" by simp
  then show ?thesis
    unfolding oid_split_first [OF x(2,3)] oid_split_first [OF y(2,3)] x(1) y(1) by simp
qed

end
