(* ===== verification/Unicode.thy ===== *)
theory Unicode
  imports Oid
begin

text \<open>
  unicode.c: reading and writing one code point as UTF-8, Latin-1, UCS-2 and UTF-32. The
  readers accept exactly the encodings of code points that are open for interchange, and in
  UTF-8 exactly the shortest one.
\<close>

section \<open>Definitions\<close>

definition is_valid_code_point :: "u32 \<Rightarrow> bool" where
  "is_valid_code_point v \<longleftrightarrow>
     \<not> (v > 0x10ffff \<or> v AND 0xfffe = 0xfffe \<or> v \<ge> 0xfdd0 \<and> v \<le> 0xfdef \<or> v \<ge> 0xd800 \<and> v \<le> 0xdfff)"

definition BOTTOM_BITS :: "nat \<Rightarrow> u8" where
  "BOTTOM_BITS n = ucast (push_bit n 1 - 1 :: u32)"

definition TOP_BITS :: "nat \<Rightarrow> u8" where
  "TOP_BITS n = NOT (BOTTOM_BITS (8 - n))"

text \<open>The \<open>len\<close> iterations of the loop of \<open>CBS_get_utf8\<close> over the continuation bytes.\<close>

primrec utf8_loop :: "nat \<Rightarrow> u32 \<Rightarrow> u32 cbs_get" where
  "utf8_loop 0 v cbs = (Some v, cbs)"
| "utf8_loop (Suc n) v cbs =
     (case CBS_get_u8 cbs of
        (None, cbs) \<Rightarrow> (None, cbs)
      | (Some c, cbs) \<Rightarrow>
          if c AND TOP_BITS 2 \<noteq> TOP_BITS 1 then (None, cbs)
          else utf8_loop n (push_bit 6 v OR ucast (c AND BOTTOM_BITS 6)) cbs)"

definition CBS_get_utf8 :: "u32 cbs_get" where
  "CBS_get_utf8 cbs =
     (case CBS_get_u8 cbs of
        (None, cbs) \<Rightarrow> (None, cbs)
      | (Some c, cbs) \<Rightarrow>
          if c \<le> 0x7f then (Some (ucast c), cbs)
          else
            (case (if c AND TOP_BITS 3 = TOP_BITS 2 then Some (ucast (c AND BOTTOM_BITS 5), 1, 0x80)
                   else if c AND TOP_BITS 4 = TOP_BITS 3 then Some (ucast (c AND BOTTOM_BITS 4), 2, 0x800)
                   else if c AND TOP_BITS 5 = TOP_BITS 4 then Some (ucast (c AND BOTTOM_BITS 3), 3, 0x10000)
                   else None) of
               None \<Rightarrow> (None, cbs)
             | Some (v, len, lower_bound) \<Rightarrow>
                 (case utf8_loop len v cbs of
                    (None, cbs) \<Rightarrow> (None, cbs)
                  | (Some v, cbs) \<Rightarrow>
                      if \<not> is_valid_code_point v \<or> v < lower_bound then (None, cbs)
                      else (Some v, cbs))))"

definition CBS_get_latin1 :: "u32 cbs_get" where
  "CBS_get_latin1 cbs =
     (case CBS_get_u8 cbs of (None, cbs) \<Rightarrow> (None, cbs) | (Some c, cbs) \<Rightarrow> (Some (ucast c), cbs))"

definition CBS_get_ucs2_be :: "u32 cbs_get" where
  "CBS_get_ucs2_be cbs =
     (case CBS_get_u16 cbs of
        (None, cbs) \<Rightarrow> (None, cbs)
      | (Some c, cbs) \<Rightarrow> if \<not> is_valid_code_point (ucast c) then (None, cbs) else (Some (ucast c), cbs))"

definition CBS_get_utf32_be :: "u32 cbs_get" where
  "CBS_get_utf32_be cbs =
     (case CBS_get_u32 cbs of
        (None, cbs) \<Rightarrow> (None, cbs)
      | (Some c, cbs) \<Rightarrow> if is_valid_code_point c then (Some c, cbs) else (None, cbs))"

definition CBB_get_utf8_len :: "u32 \<Rightarrow> size_t" where
  "CBB_get_utf8_len u = (if u \<le> 0x7f then 1 else if u \<le> 0x7ff then 2 else if u \<le> 0xffff then 3 else 4)"

definition CBB_add_utf8 :: "libc_malloc \<Rightarrow> CBB \<Rightarrow> nat \<Rightarrow> u32 \<Rightarrow> bool \<times> CBB" where
  "CBB_add_utf8 malloc cbb d u =
     (if \<not> is_valid_code_point u then (False, cbb)
      else if u \<le> 0x7f then CBB_add_u8 malloc cbb d (ucast u)
      else if u \<le> 0x7ff then
        (case CBB_add_u8 malloc cbb d (ucast (ucast (TOP_BITS 2) OR drop_bit 6 u)) of
           (False, cbb) \<Rightarrow> (False, cbb)
         | (True, cbb) \<Rightarrow>
             CBB_add_u8 malloc cbb d (ucast (ucast (TOP_BITS 1) OR (u AND ucast (BOTTOM_BITS 6)))))
      else if u \<le> 0xffff then
        (case CBB_add_u8 malloc cbb d (ucast (ucast (TOP_BITS 3) OR drop_bit 12 u)) of
           (False, cbb) \<Rightarrow> (False, cbb)
         | (True, cbb) \<Rightarrow>
             (case CBB_add_u8 malloc cbb d
                     (ucast (ucast (TOP_BITS 1) OR (drop_bit 6 u AND ucast (BOTTOM_BITS 6)))) of
                (False, cbb) \<Rightarrow> (False, cbb)
              | (True, cbb) \<Rightarrow>
                  CBB_add_u8 malloc cbb d (ucast (ucast (TOP_BITS 1) OR (u AND ucast (BOTTOM_BITS 6))))))
      else if u \<le> 0x10ffff then
        (case CBB_add_u8 malloc cbb d (ucast (ucast (TOP_BITS 4) OR drop_bit 18 u)) of
           (False, cbb) \<Rightarrow> (False, cbb)
         | (True, cbb) \<Rightarrow>
             (case CBB_add_u8 malloc cbb d
                     (ucast (ucast (TOP_BITS 1) OR (drop_bit 12 u AND ucast (BOTTOM_BITS 6)))) of
                (False, cbb) \<Rightarrow> (False, cbb)
              | (True, cbb) \<Rightarrow>
                  (case CBB_add_u8 malloc cbb d
                          (ucast (ucast (TOP_BITS 1) OR (drop_bit 6 u AND ucast (BOTTOM_BITS 6)))) of
                     (False, cbb) \<Rightarrow> (False, cbb)
                   | (True, cbb) \<Rightarrow>
                       CBB_add_u8 malloc cbb d
                         (ucast (ucast (TOP_BITS 1) OR (u AND ucast (BOTTOM_BITS 6)))))))
      else (False, cbb))"

definition CBB_add_latin1 :: "libc_malloc \<Rightarrow> CBB \<Rightarrow> nat \<Rightarrow> u32 \<Rightarrow> bool \<times> CBB" where
  "CBB_add_latin1 malloc cbb d u = (if u \<le> 0xff then CBB_add_u8 malloc cbb d (ucast u) else (False, cbb))"

definition CBB_add_ucs2_be :: "libc_malloc \<Rightarrow> CBB \<Rightarrow> nat \<Rightarrow> u32 \<Rightarrow> bool \<times> CBB" where
  "CBB_add_ucs2_be malloc cbb d u =
     (if u \<le> 0xffff \<and> is_valid_code_point u then CBB_add_u16 malloc cbb d (ucast u) else (False, cbb))"

definition CBB_add_utf32_be :: "libc_malloc \<Rightarrow> CBB \<Rightarrow> nat \<Rightarrow> u32 \<Rightarrow> bool \<times> CBB" where
  "CBB_add_utf32_be malloc cbb d u =
     (if is_valid_code_point u then CBB_add_u32 malloc cbb d u else (False, cbb))"

section \<open>Code points\<close>

text \<open>
  The code points open for interchange: below \<open>0x110000\<close>, not a surrogate, and none of
  the 66 noncharacters.
\<close>

definition code_point :: "nat \<Rightarrow> bool" where
  "code_point v \<longleftrightarrow> v < 0x110000 \<and> v mod 0x10000 < 0xfffe \<and> \<not> (0xfdd0 \<le> v \<and> v \<le> 0xfdef) \<and>
     \<not> (0xd800 \<le> v \<and> v \<le> 0xdfff)"

lemma and_fffe:
  "(v AND 0xfffe = (0xfffe :: u32)) \<longleftrightarrow> 0xfffe \<le> unat v mod 0x10000"
proof -
  have "v AND 0xfffe = v AND push_bit 1 (mask 15)" by (simp add: mask_eq_exp_minus_1)
  also have "\<dots> = push_bit 1 (drop_bit 1 v AND mask 15)"
    by (rule bit_word_eqI) (auto simp only: bit_and_iff bit_push_bit_iff bit_drop_bit_eq bit_mask_iff o_def
        le_add_diff_inverse possible_bit_word)
  finally have "unat (v AND 0xfffe) = take_bit 32 (push_bit 1 (unat (drop_bit 1 v AND mask 15)))"
    by (simp only: unsigned_push_bit_eq) simp
  also have "\<dots> = (unat v div 2 mod 32768) * 2"
    by (simp only: unat_drop_bit_div unat_and_mask) (simp add: push_bit_eq_mult take_bit_eq_mod)
  finally have "unat (v AND 0xfffe) = (unat v div 2 mod 32768) * 2" .
  moreover have "unat v mod 65536 = 2 * (unat v div 2 mod 32768) + unat v mod 2"
    using mod_mult2_eq [of "unat v" 2 32768] by simp
  moreover have "unat v div 2 mod 32768 < 32768" "unat v mod 2 < 2" by simp_all
  moreover have "a < 32768 \<Longrightarrow> b < 2 \<Longrightarrow> a * 2 = 65534 \<longleftrightarrow> 65534 \<le> 2 * a + b" for a b :: nat
    by (cases "a = 32767") auto
  ultimately show ?thesis by (simp add: word_unat_eq_iff)
qed

lemma is_valid_code_point_iff: "is_valid_code_point v \<longleftrightarrow> code_point (unat v)"
  unfolding is_valid_code_point_def code_point_def and_fffe by (auto simp: word_le_nat_alt word_less_nat_alt)

section \<open>The encoding\<close>

text \<open>The lowest \<open>6 n\<close> bits of a code point, six bits to a continuation byte.\<close>

primrec utf8_tail :: "nat \<Rightarrow> nat \<Rightarrow> u8 list" where
  "utf8_tail 0 v = []"
| "utf8_tail (Suc n) v = word_of_nat (128 + v div 64 ^ n mod 64) # utf8_tail n v"

definition utf8 :: "nat \<Rightarrow> u8 list" where
  "utf8 v =
     (if v < 0x80 then [word_of_nat v]
      else if v < 0x800 then word_of_nat (192 + v div 64) # utf8_tail 1 v
      else if v < 0x10000 then word_of_nat (224 + v div 4096) # utf8_tail 2 v
      else word_of_nat (240 + v div 262144) # utf8_tail 3 v)"

fun utf8_cont :: "nat \<Rightarrow> nat \<Rightarrow> nat parser" where
  "utf8_cont 0 v bs = Some (v, bs)"
| "utf8_cont (Suc n) v [] = None"
| "utf8_cont (Suc n) v (b # bs) = (if unat b div 64 = 2 then utf8_cont n (v * 64 + unat b mod 64) bs else None)"

definition utf8_lead :: "nat \<Rightarrow> (nat \<times> nat \<times> nat) option" where
  "utf8_lead c =
     (if c div 32 = 6 then Some (c mod 32, 1, 0x80)
      else if c div 16 = 14 then Some (c mod 16, 2, 0x800)
      else if c div 8 = 30 then Some (c mod 8, 3, 0x10000) else None)"

definition check_spec :: "('a \<Rightarrow> bool) \<Rightarrow> 'a parser \<Rightarrow> 'a parser" where
  "check_spec P p bs = Option.bind (p bs) (\<lambda>(x, rest). if P x then Some (x, rest) else None)"

definition utf8_spec :: "nat parser" where
  "utf8_spec bs = Option.bind (u8_spec bs) (\<lambda>(c, rest).
     if unat c < 128 then Some (unat c, rest)
     else case utf8_lead (unat c) of None \<Rightarrow> None
       | Some (v, n, low) \<Rightarrow> check_spec (\<lambda>x. code_point x \<and> low \<le> x) (utf8_cont n v) rest)"

lemma check_spec_Some_iff [simp]: "check_spec P p bs = Some (x, rest) \<longleftrightarrow> p bs = Some (x, rest) \<and> P x"
  by (auto simp: check_spec_def Option.bind_eq_Some_conv split: if_splits)

lemma split64: "(v * 64 + unat b mod 64) div 64 = v" "(v * 64 + unat (b :: u8) mod 64) mod 64 = unat b mod 64"
  by simp_all

lemma unat_cont_byte: "unat (word_of_nat (128 + m mod 64) :: u8) = 128 + m mod 64"
proof (rule unat_eq_of_nat)
  have "m mod 64 < 64" by simp
  then have "128 + m mod 64 < 256" by linarith
  then show "128 + m mod 64 < 2 ^ LENGTH(8)" by simp
qed

lemma utf8_cont_iff:
  "utf8_cont n v bs = Some (w, rest) \<longleftrightarrow> w div 64 ^ n = v \<and> bs = utf8_tail n w @ rest"
proof (induction n v bs rule: utf8_cont.induct)
  case (3 n v b bs)
  have w: "w div 64 ^ Suc n = w div 64 ^ n div 64"
    by (metis div_mult2_eq power_Suc mult.commute)
  show ?case
  proof (cases "unat b div 64 = 2")
    case True
    then have ub: "unat b = 128 + unat b mod 64" using div_mult_mod_eq [of "unat b" 64] by simp
    have "b = word_of_nat (128 + w div 64 ^ n mod 64) \<longleftrightarrow> unat b = 128 + w div 64 ^ n mod 64"
      by (metis unat_cont_byte word_nat_eqI)
    moreover have "unat b = 128 + w div 64 ^ n mod 64 \<longleftrightarrow> w div 64 ^ n mod 64 = unat b mod 64"
      using ub by linarith
    moreover have "w div 64 ^ n = v * 64 + unat b mod 64 \<longleftrightarrow> w div 64 ^ n div 64 = v \<and> w div 64 ^ n mod 64 = unat b mod 64"
      by (metis div_mult_mod_eq split64)
    ultimately show ?thesis using True 3 [OF True] unfolding w by auto
  next
    case False
    have "b \<noteq> word_of_nat (128 + w div 64 ^ n mod 64)"
    proof
      assume "b = word_of_nat (128 + w div 64 ^ n mod 64)"
      then have "unat b = 128 + w div 64 ^ n mod 64" using unat_cont_byte by simp
      with False show False by simp
    qed
    with False show ?thesis by simp
  qed
qed auto

lemma utf8_lead_iff:
  "utf8_lead c = Some (x, n, low) \<longleftrightarrow>
     x < 32 \<and> c = 192 + x \<and> n = 1 \<and> low = 0x80 \<or> x < 16 \<and> c = 224 + x \<and> n = 2 \<and> low = 0x800 \<or>
     x < 8 \<and> c = 240 + x \<and> n = 3 \<and> low = 0x10000" (is "_ \<longleftrightarrow> ?R")
proof
  have d: "k div m = q \<Longrightarrow> k = q * m + k mod m" for k m q :: nat by (metis div_mult_mod_eq)
  assume "utf8_lead c = Some (x, n, low)"
  then show ?R
    by (auto simp: utf8_lead_def split: if_splits dest!: d)
next
  have q: "k < m \<Longrightarrow> (q * m + k) mod m = k" "k < m \<Longrightarrow> (q * m + k) div m = q" for q m k :: nat by simp_all
  assume ?R
  then show "utf8_lead c = Some (x, n, low)"
  proof (elim disjE conjE)
    assume "x < 32" "c = 192 + x" "n = 1" "low = 0x80"
    with q [of x 32 6] show ?thesis by (simp add: utf8_lead_def)
  next
    assume a: "x < 16" "c = 224 + x" "n = 2" "low = 0x800"
    then have "c div 32 = 7" by auto
    with a q [of x 16 14] show ?thesis by (simp add: utf8_lead_def)
  next
    assume a: "x < 8" "c = 240 + x" "n = 3" "low = 0x10000"
    then have "c div 32 = 7" "c div 16 = 15" by auto
    with a q [of x 8 30] show ?thesis by (simp add: utf8_lead_def)
  qed
qed

lemma word_of_nat_eq_u8: "n < 256 \<Longrightarrow> (word_of_nat n = (c :: u8)) = (unat c = n)"
  using unat_eq_of_nat [where 'a = 8, of n] by auto

text \<open>The accepted byte strings: the shortest encodings of the valid code points.\<close>

lemma utf8_spec_iff: "utf8_spec bs = Some (v, rest) \<longleftrightarrow> code_point v \<and> bs = utf8 v @ rest"
proof
  assume "utf8_spec bs = Some (v, rest)"
  then obtain c r where bs: "bs = c # r" and s: "(if unat c < 128 then Some (unat c, r)
     else case utf8_lead (unat c) of None \<Rightarrow> None
       | Some (v, n, low) \<Rightarrow> check_spec (\<lambda>x. code_point x \<and> low \<le> x) (utf8_cont n v) r) = Some (v, rest)"
    by (cases bs) (auto simp: utf8_spec_def)
  show "code_point v \<and> bs = utf8 v @ rest"
  proof (cases "unat c < 128")
    case True
    with s bs show ?thesis by (auto simp: utf8_def code_point_def)
  next
    case False
    with s obtain x n low where l: "utf8_lead (unat c) = Some (x, n, low)" and cp: "code_point v" "low \<le> v"
      "v div 64 ^ n = x" "r = utf8_tail n v @ rest"
      by (auto simp: utf8_cont_iff split: option.splits)
    have c: "unat c = k \<Longrightarrow> c = word_of_nat k" for k by auto
    from l [unfolded utf8_lead_iff] show ?thesis
    proof (elim disjE conjE)
      assume a: "x < 32" "unat c = 192 + x" "n = 1" "low = 0x80"
      then have "v < 0x800" using cp(3) by (simp add: div_less_iff_less_mult)
      with a c [OF a(2)] cp bs show ?thesis by (simp add: utf8_def del: of_nat_add utf8_tail.simps)
    next
      assume a: "x < 16" "unat c = 224 + x" "n = 2" "low = 0x800"
      then have "v < 0x10000" using cp(3) by (simp add: div_less_iff_less_mult)
      with a c [OF a(2)] cp bs show ?thesis by (simp add: utf8_def del: of_nat_add utf8_tail.simps)
    next
      assume a: "x < 8" "unat c = 240 + x" "n = 3" "low = 0x10000"
      with c [OF a(2)] cp bs show ?thesis by (simp add: utf8_def del: of_nat_add utf8_tail.simps)
    qed
  qed
next
  assume R: "code_point v \<and> bs = utf8 v @ rest"
  consider "v < 0x80" | "0x80 \<le> v" "v < 0x800" | "0x800 \<le> v" "v < 0x10000" | "0x10000 \<le> v" "v < 0x110000"
    using R unfolding code_point_def by linarith
  then show "utf8_spec bs = Some (v, rest)"
  proof cases
    case 1
    with R show ?thesis by (simp add: utf8_spec_def utf8_def unat_eq_of_nat)
  next
    case 2
    then have "v div 64 < 32" by (simp add: div_less_iff_less_mult)
    then have "utf8_lead (192 + v div 64) = Some (v div 64, 1, 0x80)" "unat (word_of_nat (192 + v div 64) :: u8) = 192 + v div 64"
      by (simp_all add: utf8_lead_iff unat_eq_of_nat del: of_nat_add)
    with R 2 show ?thesis by (simp add: utf8_spec_def utf8_def utf8_cont_iff del: utf8_tail.simps of_nat_add)
  next
    case 3
    then have "v div 4096 < 16" by (simp add: div_less_iff_less_mult)
    then have "utf8_lead (224 + v div 4096) = Some (v div 4096, 2, 0x800)" "unat (word_of_nat (224 + v div 4096) :: u8) = 224 + v div 4096"
      by (simp_all add: utf8_lead_iff unat_eq_of_nat del: of_nat_add)
    with R 3 show ?thesis by (simp add: utf8_spec_def utf8_def utf8_cont_iff del: utf8_tail.simps of_nat_add)
  next
    case 4
    then have "v div 262144 < 8" by (simp add: div_less_iff_less_mult)
    then have "utf8_lead (240 + v div 262144) = Some (v div 262144, 3, 0x10000)" "unat (word_of_nat (240 + v div 262144) :: u8) = 240 + v div 262144"
      by (simp_all add: utf8_lead_iff unat_eq_of_nat del: of_nat_add)
    with R 4 show ?thesis by (simp add: utf8_spec_def utf8_def utf8_cont_iff del: utf8_tail.simps of_nat_add)
  qed
qed

section \<open>The readers\<close>

lemma cbs_reader_fail: "cbs_reader (\<lambda>cbs. (None, cbs)) ok view (\<lambda>_. None)"
  by unfold_locales auto

lemma cbs_reader_return: "ok a \<Longrightarrow> cbs_reader (\<lambda>cbs. (Some a, cbs)) ok view (\<lambda>bs. Some (view a, bs))"
  by unfold_locales auto

lemma cbs_reader_cong:
  "cbs_reader f ok view s \<Longrightarrow> (\<And>cbs. g cbs = f cbs) \<Longrightarrow> (\<And>bs. t bs = s bs) \<Longrightarrow> cbs_reader g ok view t"
  by (simp add: cbs_reader_def)

lemma cbs_reader_check:
  assumes A: "cbs_reader A ok view spec" and P: "\<And>a. ok a \<Longrightarrow> P a \<longleftrightarrow> Q (view a)"
  shows "cbs_reader
    (\<lambda>cbs. case A cbs of (None, cbs) \<Rightarrow> (None, cbs) | (Some a, cbs) \<Rightarrow> if P a then (Some a, cbs) else (None, cbs))
    ok view (check_spec Q spec)"
proof -
  have "cbs_reader (\<lambda>cbs. if P a then (Some a, cbs) else (None, cbs)) ok view
      (\<lambda>rest. if Q (view a) then Some (view a, rest) else None)" if "ok a" for a
    using that P [OF that] cbs_reader_return [of ok a view] cbs_reader_fail [of ok view]
    by (cases "Q (view a)") simp_all
  then have "cbs_reader
    (\<lambda>cbs. case A cbs of (None, cbs) \<Rightarrow> (None, cbs) | (Some a, cbs) \<Rightarrow> if P a then (Some a, cbs) else (None, cbs))
    ok view (\<lambda>bs. Option.bind (spec bs) (\<lambda>(x, rest). if Q x then Some (x, rest) else None))"
    by (intro cbs_reader_bind [OF A]) (auto split: if_splits)
  then show ?thesis by (simp add: check_spec_def [abs_def])
qed

lemma unat_and_not_mask: "unat (x AND NOT (mask k)) = unat x div 2 ^ k * 2 ^ k" for x :: "'a::len word"
proof -
  have "x AND NOT (mask k) = push_bit k (drop_bit k x)" by (rule bit_word_eqI) (auto simp: bit_simps)
  then have "unat (x AND NOT (mask k)) = take_bit LENGTH('a) (push_bit k (unat x div 2 ^ k))"
    by (simp add: unsigned_push_bit_eq unat_drop_bit_div)
  also have "\<dots> = unat x div 2 ^ k * 2 ^ k"
    unfolding push_bit_eq_mult
    by (rule take_bit_nat_eq_self) (rule order.strict_trans1 [OF div_times_less_eq_dividend unat_lt2p])
  finally show ?thesis .
qed

lemma byte_masks: "(0xe0 :: u8) = NOT (mask 5)" "(0xf0 :: u8) = NOT (mask 4)" "(0xf8 :: u8) = NOT (mask 3)"
  "(0xc0 :: u8) = NOT (mask 6)" "(0x3f :: u8) = mask 6" "(0x0f :: u8) = mask 4" "(0x07 :: u8) = mask 3"
  by (simp_all add: mask_eq_exp_minus_1)

lemma byte_and_3f: "unat (b AND 0x3f :: u8) = unat b mod 64"
  using unat_and_mask [of b 6] by (simp add: mask_eq_exp_minus_1)

lemma byte_and_c0: "b AND 0xc0 = (0x80 :: u8) \<longleftrightarrow> unat b div 64 = 2"
proof -
  have "unat (b AND 0xc0) = unat b div 2 ^ 6 * 2 ^ 6" by (simp only: byte_masks unat_and_not_mask)
  then show ?thesis by (simp add: word_unat_eq_iff)
qed

lemma byte_lead:
  "c AND 0xe0 = (0xc0 :: u8) \<longleftrightarrow> unat c div 32 = 6" "c AND 0xf0 = (0xe0 :: u8) \<longleftrightarrow> unat c div 16 = 14"
  "c AND 0xf8 = (0xf0 :: u8) \<longleftrightarrow> unat c div 8 = 30"
  "unat (c AND 0x0f) = unat c mod 16" "unat (c AND 0x07) = unat c mod 8"
proof -
  have "unat (c AND 0xe0) = unat c div 2 ^ 5 * 2 ^ 5" "unat (c AND 0xf0) = unat c div 2 ^ 4 * 2 ^ 4"
    "unat (c AND 0xf8) = unat c div 2 ^ 3 * 2 ^ 3"
    by (simp_all only: byte_masks unat_and_not_mask)
  then show "c AND 0xe0 = (0xc0 :: u8) \<longleftrightarrow> unat c div 32 = 6" "c AND 0xf0 = (0xe0 :: u8) \<longleftrightarrow> unat c div 16 = 14"
    "c AND 0xf8 = (0xf0 :: u8) \<longleftrightarrow> unat c div 8 = 30"
    by (simp_all add: word_unat_eq_iff)
  have "unat (c AND 0x0f) = unat c mod 2 ^ 4" "unat (c AND 0x07) = unat c mod 2 ^ 3"
    by (simp_all only: byte_masks unat_and_mask)
  then show "unat (c AND 0x0f) = unat c mod 16" "unat (c AND 0x07) = unat c mod 8" by simp_all
qed

lemma unat_utf8_step:
  assumes "unat v < 2 ^ 26"
  shows "unat (push_bit 6 v OR ucast (b AND 0x3f :: u8) :: u32) = unat v * 64 + unat b mod 64"
proof -
  have "push_bit 6 (unat v) < 2 ^ 32" using assms by (simp add: push_bit_eq_mult)
  moreover have "unat b mod 64 < 2 ^ 6" by simp
  ultimately show ?thesis
    by (simp add: unsigned_or_eq unsigned_push_bit_eq unat_ucast_up byte_and_3f
        take_bit_nat_eq_self or_low_high)
qed

lemma bits_simps [simp]:
  "BOTTOM_BITS 6 = 0x3f" "BOTTOM_BITS 5 = 0x1f" "BOTTOM_BITS 4 = 0x0f" "BOTTOM_BITS 3 = 0x07"
  "TOP_BITS (Suc 0) = 0x80" "TOP_BITS 2 = 0xc0" "TOP_BITS 3 = 0xe0" "TOP_BITS 4 = 0xf0" "TOP_BITS 5 = 0xf8"
  by code_simp+

lemma utf8_cont_suffix: "utf8_cont n v bs = Some (w, rest) \<Longrightarrow> suffix rest bs"
  by (simp add: utf8_cont_iff suffix_def)

lemma cbs_reader_utf8_loop:
  "(unat v + 1) * 64 ^ n \<le> 2 ^ 32 \<Longrightarrow> cbs_reader (utf8_loop n v) (\<lambda>_. True) unat (utf8_cont n (unat v))"
proof (induction n arbitrary: v)
  case 0
  show ?case using cbs_reader_return [of "\<lambda>_. True" v unat] by (simp cong: cbs_reader_def)
next
  case (Suc n)
  let ?v = "\<lambda>c. push_bit 6 v OR ucast (c AND 0x3f :: u8) :: u32"
  have v: "unat v < 2 ^ 26"
  proof -
    have "(unat v + 1) * 64 \<le> (unat v + 1) * 64 ^ Suc n" by (intro mult_le_mono2) simp
    with Suc.prems show ?thesis by simp
  qed
  note step = unat_utf8_step [OF v]
  have "cbs_reader (if c AND 0xc0 \<noteq> 0x80 then (\<lambda>cbs. (None, cbs)) else utf8_loop n (?v c)) (\<lambda>_. True) unat
      (if unat c div 64 = 2 then utf8_cont n (unat v * 64 + unat c mod 64) else (\<lambda>_. None))" for c
  proof -
    have "unat v * 64 + unat c mod 64 + 1 \<le> (unat v + 1) * 64" by simp
    then have "(unat v * 64 + unat c mod 64 + 1) * 64 ^ n \<le> (unat v + 1) * 64 * 64 ^ n" by (rule mult_le_mono1)
    also have "(unat v + 1) * 64 * 64 ^ n = (unat v + 1) * 64 ^ Suc n" by (simp only: power_Suc mult.assoc)
    also note Suc.prems
    finally have "(unat (?v c) + 1) * 64 ^ n \<le> 2 ^ 32" unfolding step .
    from Suc.IH [OF this] show ?thesis by (simp add: step byte_and_c0 cbs_reader_fail)
  qed
  then have "cbs_reader
    (\<lambda>cbs. case CBS_get_u8 cbs of (None, cbs) \<Rightarrow> (None, cbs)
       | (Some c, cbs) \<Rightarrow> (if c AND 0xc0 \<noteq> 0x80 then (\<lambda>cbs. (None, cbs)) else utf8_loop n (?v c)) cbs)
    (\<lambda>_. True) unat (\<lambda>bs. Option.bind (u8_spec bs) (\<lambda>(c, rest).
       (if unat c div 64 = 2 then utf8_cont n (unat v * 64 + unat c mod 64) else (\<lambda>_. None)) rest))"
    by (intro cbs_reader_bind [OF rd_u8.cbs_reader_axioms]) (auto split: if_splits dest: utf8_cont_suffix)
  moreover have "utf8_loop (Suc n) v cbs = (case CBS_get_u8 cbs of (None, cbs) \<Rightarrow> (None, cbs)
       | (Some c, cbs) \<Rightarrow> (if c AND 0xc0 \<noteq> 0x80 then (\<lambda>cbs. (None, cbs)) else utf8_loop n (?v c)) cbs)" for cbs
    by (simp split: prod.splits option.splits)
  moreover have "utf8_cont (Suc n) (unat v) bs = Option.bind (u8_spec bs) (\<lambda>(c, rest).
       (if unat c div 64 = 2 then utf8_cont n (unat v * 64 + unat c mod 64) else (\<lambda>_. None)) rest)" for bs
    by (cases bs) auto
  ultimately show ?case by (rule cbs_reader_cong)
qed

lemma ucast_word_of_nat: "(ucast (c :: u8) :: u32) = word_of_nat (unat c)"
  by (rule word_nat_eqI) (simp add: unat_ucast_up unat_eq_of_nat order.strict_trans [OF unat_u8_less])

lemma utf8_lead_byte:
  "(if c AND 0xe0 = (0xc0 :: u8) then Some (ucast (c AND 0x1f) :: u32, 1 :: nat, 0x80 :: u32)
    else if c AND 0xf0 = 0xe0 then Some (ucast (c AND 0x0f), 2, 0x800)
    else if c AND 0xf8 = 0xf0 then Some (ucast (c AND 0x07), 3, 0x10000)
    else None) = map_option (\<lambda>(v, n, low). (word_of_nat v, n, word_of_nat low)) (utf8_lead (unat c))"
  unfolding byte_lead(1-3) utf8_lead_def by (simp add: ucast_word_of_nat byte_lead(4,5) byte_and_1f)

lemma cbs_reader_utf8_rest:
  assumes "utf8_lead c = Some (v, n, low)"
  shows "cbs_reader (\<lambda>cbs. case utf8_loop n (word_of_nat v) cbs of (None, cbs) \<Rightarrow> (None, cbs)
      | (Some v, cbs) \<Rightarrow> if is_valid_code_point v \<and> word_of_nat low \<le> v then (Some v, cbs) else (None, cbs))
    (\<lambda>_. True) unat (check_spec (\<lambda>x. code_point x \<and> low \<le> x) (utf8_cont n v))"
proof (rule cbs_reader_check)
  from assms have v: "v < 32" "low < 2 ^ 32" "(v + 1) * 64 ^ n \<le> 2 ^ 32"
    by (auto simp: utf8_lead_iff)
  then have "unat (word_of_nat v :: u32) = v" by (simp add: unat_eq_of_nat)
  with cbs_reader_utf8_loop [of "word_of_nat v" n] v(3)
  show "cbs_reader (utf8_loop n (word_of_nat v)) (\<lambda>_. True) unat (utf8_cont n v)" by simp
  from v(2) have "unat (word_of_nat low :: u32) = low" by (simp add: unat_eq_of_nat)
  then show "is_valid_code_point a \<and> word_of_nat low \<le> a \<longleftrightarrow> code_point (unat a) \<and> low \<le> unat a" for a
    by (simp add: is_valid_code_point_iff word_le_nat_alt)
qed

interpretation rd_utf8: cbs_reader CBS_get_utf8 "\<lambda>_. True" unat utf8_spec
proof -
  define body where "body c = (if unat c < 128 then (\<lambda>cbs. (Some (ucast c :: u32), cbs))
    else case utf8_lead (unat c) of None \<Rightarrow> (\<lambda>cbs. (None, cbs))
      | Some (v, n, low) \<Rightarrow> (\<lambda>cbs. case utf8_loop n (word_of_nat v) cbs of (None, cbs) \<Rightarrow> (None, cbs)
          | (Some v, cbs) \<Rightarrow> if is_valid_code_point v \<and> word_of_nat low \<le> v then (Some v, cbs) else (None, cbs)))"
    for c :: u8
  define spec where "spec c = (if unat c < 128 then (\<lambda>rest. Some (unat c, rest))
     else case utf8_lead (unat c) of None \<Rightarrow> (\<lambda>_. None)
       | Some (v, n, low) \<Rightarrow> check_spec (\<lambda>x. code_point x \<and> low \<le> x) (utf8_cont n v))" for c :: u8
  have "cbs_reader (body c) (\<lambda>_. True) unat (spec c)" for c
  proof (cases "unat c < 128 \<or> utf8_lead (unat c) = None")
    case True
    have "unat (ucast c :: u32) = unat c" by (simp add: unat_ucast_up)
    with True cbs_reader_return [of "\<lambda>_. True" "ucast c :: u32" unat] show ?thesis
      by (auto simp: body_def spec_def cbs_reader_fail)
  next
    case False
    then obtain v n low where "utf8_lead (unat c) = Some (v, n, low)" by auto
    with False show ?thesis by (simp add: body_def spec_def cbs_reader_utf8_rest)
  qed
  moreover have "suffix rest bs" if "spec c bs = Some (y, rest)" for c bs y rest
    using that by (auto simp: spec_def utf8_cont_suffix split: if_splits option.splits)
  ultimately have "cbs_reader (\<lambda>cbs. case CBS_get_u8 cbs of (None, cbs) \<Rightarrow> (None, cbs) | (Some c, cbs) \<Rightarrow> body c cbs)
    (\<lambda>_. True) unat (\<lambda>bs. Option.bind (u8_spec bs) (\<lambda>(c, rest). spec c rest))"
    by (intro cbs_reader_bind [OF rd_u8.cbs_reader_axioms]) auto
  moreover have "CBS_get_utf8 cbs = (case CBS_get_u8 cbs of (None, cbs) \<Rightarrow> (None, cbs) | (Some c, cbs) \<Rightarrow> body c cbs)" for cbs
    unfolding CBS_get_utf8_def body_def bits_simps utf8_lead_byte
    by (auto simp: word_le_nat_alt word_less_nat_alt not_less intro!: option.case_cong split: prod.splits option.splits)
  moreover have "utf8_spec bs = Option.bind (u8_spec bs) (\<lambda>(c, rest). spec c rest)" for bs
    by (cases bs) (auto simp: utf8_spec_def spec_def split: option.splits)
  ultimately show "cbs_reader CBS_get_utf8 (\<lambda>_. True) unat utf8_spec" by (rule cbs_reader_cong)
qed

lemma utf8_reads_iff:
  assumes "cbs_wf cbs"
  shows "(\<exists>v c. CBS_get_utf8 cbs = (Some v, c) \<and> unat v = x \<and> cbs_bytes c = rest) \<longleftrightarrow>
    code_point x \<and> cbs_bytes cbs = utf8 x @ rest"
  unfolding rd_utf8.get_iff [OF assms] utf8_spec_iff ..

interpretation rd_latin1: cbs_reader CBS_get_latin1 "\<lambda>_. True" unat "u_spec 1"
proof -
  have "cbs_reader CBS_get_latin1 (\<lambda>_. True) unat (\<lambda>bs. map_option (apfst unat) (u8_spec bs))"
    unfolding CBS_get_latin1_def [abs_def]
    by (rule cbs_reader_map [OF rd_u8.cbs_reader_axioms]) (simp add: unat_ucast_up)
  moreover have "map_option (apfst unat) (u8_spec bs) = u_spec 1 bs" for bs
    by (cases bs) (simp_all add: u_spec_def take_spec_def)
  ultimately show "cbs_reader CBS_get_latin1 (\<lambda>_. True) unat (u_spec 1)" by simp
qed

interpretation rd_ucs2: cbs_reader CBS_get_ucs2_be "\<lambda>_. True" unat "check_spec code_point (u_spec 2)"
proof -
  have "cbs_reader (\<lambda>cbs. case CBS_get_u16 cbs of (None, cbs) \<Rightarrow> (None, cbs)
      | (Some c, cbs) \<Rightarrow> (Some (ucast c :: u32), cbs)) (\<lambda>_. True) unat
      (\<lambda>bs. map_option (apfst id) (u_spec 2 bs))"
    by (rule cbs_reader_map [OF rd_u16.cbs_reader_axioms]) (simp add: unat_ucast_up)
  then have "cbs_reader (\<lambda>cbs. case CBS_get_u16 cbs of (None, cbs) \<Rightarrow> (None, cbs)
      | (Some c, cbs) \<Rightarrow> (Some (ucast c :: u32), cbs)) (\<lambda>_. True) unat (u_spec 2)"
    by (simp add: apfst_id option.map_id)
  from cbs_reader_check [OF this, where P = is_valid_code_point and Q = code_point]
  show "cbs_reader CBS_get_ucs2_be (\<lambda>_. True) unat (check_spec code_point (u_spec 2))"
    by (rule cbs_reader_cong)
      (simp_all add: is_valid_code_point_iff CBS_get_ucs2_be_def split: prod.splits option.splits)
qed

interpretation rd_utf32: cbs_reader CBS_get_utf32_be "\<lambda>_. True" unat "check_spec code_point (u_spec 4)"
  unfolding CBS_get_utf32_be_def [abs_def]
  by (rule cbs_reader_check [OF rd_u32.cbs_reader_axioms]) (simp add: is_valid_code_point_iff)

section \<open>The writers\<close>

lemma utf8_byte:
  assumes "unat (t :: u8) = a * 2 ^ n" "unat (x :: u32) < 2 ^ n" "n \<le> 8"
  shows "ucast (ucast t OR x :: u32) = (word_of_nat (unat t + unat x) :: u8)"
proof (rule word_nat_eqI)
  have "unat (ucast t OR x :: u32) = push_bit n a OR unat x"
    by (simp add: unsigned_or_eq unat_ucast_up assms(1) push_bit_eq_mult)
  also have "\<dots> = unat t + unat x" using or_low_high [OF assms(2), of a] assms(1) by simp
  finally show "unat (ucast (ucast t OR x :: u32) :: u8) = unat (word_of_nat (unat t + unat x) :: u8)"
    by (simp only: unat_ucast_mod unat_of_nat take_bit_eq_mod)
qed

lemma utf8_cont_byte: "ucast (0x80 OR (drop_bit n u AND 0x3f) :: u32) = (word_of_nat (128 + unat u div 2 ^ n mod 64) :: u8)"
proof -
  have m: "unat (drop_bit n u AND 0x3f) = unat u div 2 ^ n mod 64"
    using unat_and_mask [of "drop_bit n u" 6] by (simp add: mask_eq_exp_minus_1 unat_drop_bit_div)
  then have "unat (drop_bit n u AND 0x3f) < 2 ^ 7" by (simp add: order.strict_trans [of _ 64])
  from utf8_byte [of "0x80" 1 7, OF _ this] show ?thesis by (simp add: m)
qed

lemma utf8_tail_numerals:
  "utf8_tail 2 v = [word_of_nat (128 + v div 64 mod 64), word_of_nat (128 + v mod 64)]"
  "utf8_tail 3 v = [word_of_nat (128 + v div 4096 mod 64), word_of_nat (128 + v div 64 mod 64), word_of_nat (128 + v mod 64)]"
  by (simp_all add: numeral_2_eq_2 numeral_3_eq_3)

lemma cbb_writer_utf8:
  assumes "is_valid_code_point u"
  shows "cbb_writer malloc (\<lambda>cbb d. CBB_add_utf8 malloc cbb d u) (utf8 (unat u))"
proof -
  note two = cbb_writer_seq [OF wr_u8.cbb_writer_axioms wr_u8.cbb_writer_axioms]
  note three = cbb_writer_seq [OF wr_u8.cbb_writer_axioms two]
  note four = cbb_writer_seq [OF wr_u8.cbb_writer_axioms three]
  note def = CBB_add_utf8_def [of malloc _ _ u] utf8_def word_le_nat_alt
  consider "unat u < 0x80" | "0x80 \<le> unat u" "unat u < 0x800" | "0x800 \<le> unat u" "unat u < 0x10000"
    | "0x10000 \<le> unat u" "unat u < 0x110000"
    using assms unfolding is_valid_code_point_iff code_point_def by linarith
  then show ?thesis
  proof cases
    case 1
    with assms wr_u8.cbb_writer_axioms [of malloc "ucast u"] show ?thesis by (simp add: def)
  next
    case 2
    then have "unat (drop_bit 6 u) < 2 ^ 5" by (simp add: unat_drop_bit_div div_less_iff_less_mult)
    from utf8_byte [of "0xc0" 6 5, OF _ this]
    have "ucast (0xc0 OR drop_bit 6 u) = (word_of_nat (192 + unat u div 64) :: u8)" by (simp add: unat_drop_bit_div)
    with 2 assms show ?thesis
      using utf8_cont_byte [of 0 u]
      by (intro cbb_writer_cong [OF two]) (simp_all add: def split: prod.splits bool.splits)
  next
    case 3
    then have "unat (drop_bit 12 u) < 2 ^ 4" by (simp add: unat_drop_bit_div div_less_iff_less_mult)
    from utf8_byte [of "0xe0" 14 4, OF _ this]
    have "ucast (0xe0 OR drop_bit 12 u) = (word_of_nat (224 + unat u div 4096) :: u8)" by (simp add: unat_drop_bit_div)
    with 3 assms show ?thesis
      using utf8_cont_byte [of 0 u] utf8_cont_byte [of 6 u]
      by (intro cbb_writer_cong [OF three]) (simp_all add: def utf8_tail_numerals split: prod.splits bool.splits)
  next
    case 4
    then have "unat (drop_bit 18 u) < 2 ^ 3" by (simp add: unat_drop_bit_div div_less_iff_less_mult)
    from utf8_byte [of "0xf0" 30 3, OF _ this]
    have "ucast (0xf0 OR drop_bit 18 u) = (word_of_nat (240 + unat u div 262144) :: u8)" by (simp add: unat_drop_bit_div)
    with 4 assms show ?thesis
      using utf8_cont_byte [of 0 u] utf8_cont_byte [of 6 u] utf8_cont_byte [of 12 u]
      by (intro cbb_writer_cong [OF four]) (simp_all add: def utf8_tail_numerals split: prod.splits bool.splits)
  qed
qed

lemma cbb_writer_latin1: "u \<le> 0xff \<Longrightarrow> cbb_writer malloc (\<lambda>cbb d. CBB_add_latin1 malloc cbb d u) (be_bytes 1 (unat u))"
  by (rule cbb_writer_cong [OF wr_u8.cbb_writer_axioms]) (simp_all add: CBB_add_latin1_def)

lemma cbb_writer_ucs2:
  assumes "u \<le> 0xffff" "is_valid_code_point u"
  shows "cbb_writer malloc (\<lambda>cbb d. CBB_add_ucs2_be malloc cbb d u) (be_bytes 2 (unat u))"
proof -
  have "unat (ucast u :: u16) = unat u" using assms(1) by (simp add: unat_ucast_mod word_le_nat_alt)
  with wr_u16.cbb_writer_axioms [of malloc "ucast u"] show ?thesis
    using assms by (simp add: CBB_add_ucs2_be_def)
qed

lemma cbb_writer_utf32:
  "is_valid_code_point u \<Longrightarrow> cbb_writer malloc (\<lambda>cbb d. CBB_add_utf32_be malloc cbb d u) (be_bytes 4 (unat u))"
  using wr_u32.cbb_writer_axioms [of malloc u] by (simp add: CBB_add_utf32_be_def)

lemma CBB_get_utf8_len_length: "code_point (unat u) \<Longrightarrow> unat (CBB_get_utf8_len u) = length (utf8 (unat u))"
  by (simp add: CBB_get_utf8_len_def utf8_def utf8_tail_numerals word_le_nat_alt)

end
