(* ===== verification/Ber.thy ===== *)
theory Ber
  imports Unicode
begin

text \<open>
  ber.c: finding BER in an ASN.1 structure, converting it to DER, and the implicitly tagged
  strings. The recursion of the code is bounded by a depth of 128; the loops end because every
  element takes at least one byte.
\<close>

section \<open>Definitions\<close>

definition kMaxDepth :: u32 where
  "kMaxDepth = 128"

definition CBS_ASN1_UTF8STRING :: CBS_ASN1_TAG where "CBS_ASN1_UTF8STRING = 0xc"
definition CBS_ASN1_NUMERICSTRING :: CBS_ASN1_TAG where "CBS_ASN1_NUMERICSTRING = 0x12"
definition CBS_ASN1_PRINTABLESTRING :: CBS_ASN1_TAG where "CBS_ASN1_PRINTABLESTRING = 0x13"
definition CBS_ASN1_T61STRING :: CBS_ASN1_TAG where "CBS_ASN1_T61STRING = 0x14"
definition CBS_ASN1_VIDEOTEXSTRING :: CBS_ASN1_TAG where "CBS_ASN1_VIDEOTEXSTRING = 0x15"
definition CBS_ASN1_IA5STRING :: CBS_ASN1_TAG where "CBS_ASN1_IA5STRING = 0x16"
definition CBS_ASN1_GRAPHICSTRING :: CBS_ASN1_TAG where "CBS_ASN1_GRAPHICSTRING = 0x19"
definition CBS_ASN1_VISIBLESTRING :: CBS_ASN1_TAG where "CBS_ASN1_VISIBLESTRING = 0x1a"
definition CBS_ASN1_GENERALSTRING :: CBS_ASN1_TAG where "CBS_ASN1_GENERALSTRING = 0x1b"
definition CBS_ASN1_UNIVERSALSTRING :: CBS_ASN1_TAG where "CBS_ASN1_UNIVERSALSTRING = 0x1c"
definition CBS_ASN1_BMPSTRING :: CBS_ASN1_TAG where "CBS_ASN1_BMPSTRING = 0x1e"

definition is_string_type :: "CBS_ASN1_TAG \<Rightarrow> bool" where
  "is_string_type tag \<longleftrightarrow> tag AND NOT CBS_ASN1_CONSTRUCTED \<in>
     {CBS_ASN1_OCTETSTRING, CBS_ASN1_UTF8STRING, CBS_ASN1_NUMERICSTRING, CBS_ASN1_PRINTABLESTRING,
      CBS_ASN1_T61STRING, CBS_ASN1_VIDEOTEXSTRING, CBS_ASN1_IA5STRING, CBS_ASN1_GRAPHICSTRING,
      CBS_ASN1_VISIBLESTRING, CBS_ASN1_GENERALSTRING, CBS_ASN1_UNIVERSALSTRING, CBS_ASN1_BMPSTRING}"

section \<open>Elements take bytes\<close>

text \<open>
  The termination argument, on the lengths alone: a tag takes at most eleven bytes, so that
  the length of an element cannot wrap to zero.
\<close>

lemma CBS_get_u8_consumes: "CBS_get_u8 cbs = (Some b, c) \<Longrightarrow> unat (CBS_len cbs) = Suc (unat (CBS_len c))"
  by (auto simp: CBS_get_u8_def cbs_get_def unat_minus_one unat_gt_0 split: if_splits option.splits prod.splits)

lemma base128_step_grows:
  assumes "unat v < 2 ^ 57" "v \<noteq> 0 \<or> b \<noteq> 0x80" "b AND 0x80 \<noteq> (0 :: u8)"
  shows "0 < unat (push_bit 7 v OR ucast (b AND 0x7f) :: u64)"
    and "128 ^ k \<le> unat v \<Longrightarrow> 128 ^ Suc k \<le> unat (push_bit 7 v OR ucast (b AND 0x7f) :: u64)"
proof -
  note step = unat_base128_step [OF assms(1), of b]
  have "unat b mod 128 \<noteq> 0 \<or> unat v \<noteq> 0"
  proof (cases "v = 0")
    case True
    with assms(2) have "unat b \<noteq> 128" by (auto simp: word_unat_eq_iff)
    moreover have "128 \<le> unat b" using assms(3) byte_and_80 [of b] by simp
    ultimately show ?thesis using byte_mod_128 [of b] by simp
  qed (simp add: unat_eq_zero)
  then show "0 < unat (push_bit 7 v OR ucast (b AND 0x7f) :: u64)" unfolding step by auto
  show "128 ^ k \<le> unat v \<Longrightarrow> 128 ^ Suc k \<le> unat (push_bit 7 v OR ucast (b AND 0x7f) :: u64)"
    unfolding step by simp
qed

lemma base128_loop_consumes:
  "base128_loop v cbs = (Some a, c) \<Longrightarrow>
     unat (CBS_len c) < unat (CBS_len cbs) \<and> unat (CBS_len cbs) \<le> unat (CBS_len c) + 10 \<and>
     (\<forall>k. 128 ^ k \<le> unat v \<longrightarrow> unat (CBS_len cbs) + k \<le> unat (CBS_len c) + 9)"
proof (induction v cbs rule: base128_loop.induct)
  case (1 v cbs)
  note loop = base128_loop.simps [of v cbs]
  from "1.prems" obtain b c1 where g: "CBS_get_u8 cbs = (Some b, c1)" "drop_bit (64 - 7) v = 0" "v \<noteq> 0 \<or> b \<noteq> 0x80"
    unfolding loop by (auto split: option.splits prod.splits if_splits)
  let ?v = "push_bit 7 v OR ucast (b AND 0x7f) :: u64"
  have v: "unat v < 2 ^ 57"
    using g(2) by (simp add: word_unat_eq_iff unat_drop_bit_div div_eq_0_iff)
  have k8: "k \<le> 8" if "128 ^ k \<le> unat v" for k
  proof (rule ccontr)
    assume "\<not> k \<le> 8"
    then have "(128 :: nat) ^ 9 \<le> 128 ^ k" by (intro power_increasing) simp_all
    with that v show False by simp
  qed
  have l: "base128_loop v cbs = (if b AND 0x80 \<noteq> 0 then base128_loop ?v c1 else (Some ?v, c1))"
    using g unfolding loop by (auto simp: Let_def)
  show ?case
  proof (cases "b AND 0x80 = 0")
    case True
    with l "1.prems" CBS_get_u8_consumes [OF g(1)] show ?thesis by (auto dest: k8)
  next
    case False
    note grow = base128_step_grows [OF v g(3) False]
    from False l "1.prems" have "base128_loop ?v c1 = (Some a, c)" by simp
    with "1.IH" [OF g(1) [symmetric] refl _ _ refl] g False
    have IH: "unat (CBS_len c) < unat (CBS_len c1)"
      "\<And>k. 128 ^ k \<le> unat ?v \<Longrightarrow> unat (CBS_len c1) + k \<le> unat (CBS_len c) + 9" by auto
    from IH(2) [of 0] grow(1) have "unat (CBS_len c1) \<le> unat (CBS_len c) + 9" by simp
    moreover have "unat (CBS_len cbs) + k \<le> unat (CBS_len c) + 9" if "128 ^ k \<le> unat v" for k
      using IH(2) [OF grow(2) [OF that]] CBS_get_u8_consumes [OF g(1)] by simp
    ultimately show ?thesis using IH(1) CBS_get_u8_consumes [OF g(1)] by simp
  qed
qed

lemma parse_asn1_tag_len:
  assumes "parse_asn1_tag cbs = (Some tag, c)"
  shows "unat (CBS_len c) < unat (CBS_len cbs)" "unat (CBS_len cbs) \<le> unat (CBS_len c) + 11"
proof -
  from assms obtain b c1 where g: "CBS_get_u8 cbs = (Some b, c1)"
    and "c = c1 \<or> (\<exists>v. parse_base128_integer c1 = (Some v, c))"
    unfolding parse_asn1_tag_def by (auto simp: Let_def split: option.splits prod.splits if_splits)
  then have "unat (CBS_len c) \<le> unat (CBS_len c1)" "unat (CBS_len c1) \<le> unat (CBS_len c) + 10"
    using base128_loop_consumes [of 0 c1] by (auto simp: parse_base128_integer_def)
  with CBS_get_u8_consumes [OF g] show "unat (CBS_len c) < unat (CBS_len cbs)" "unat (CBS_len cbs) \<le> unat (CBS_len c) + 11"
    by simp_all
qed

lemma CBS_get_bytes_len:
  "CBS_get_bytes cbs n = (Some out, c) \<Longrightarrow> CBS_len out = n \<and> unat (CBS_len cbs) = unat (CBS_len c) + unat n"
  by (auto simp: CBS_get_bytes_def cbs_get_def CBS_init_def not_less unat_sub word_le_nat_alt
      split: if_splits option.splits prod.splits)

lemma element_len:
  assumes "cbs_get_any_asn1_element cbs ber_ok = (Some el, c)"
  shows "unat (CBS_len c) < unat (CBS_len cbs)"
    "CBS_skip (el_out el) (el_header_len el) = (ok, contents) \<Longrightarrow> ok \<Longrightarrow> unat (CBS_len contents) < unat (CBS_len cbs)"
proof -
  from assms obtain tag h1 b h2 where t: "parse_asn1_tag cbs = (Some tag, h1)" "CBS_get_u8 h1 = (Some b, h2)"
    unfolding cbs_get_any_asn1_element_def by (auto split: option.splits prod.splits)
  let ?hl = "CBS_len cbs - CBS_len h2"
  have hl: "0 < unat ?hl" "unat ?hl \<le> 12"
    using parse_asn1_tag_len [OF t(1)] CBS_get_u8_consumes [OF t(2)] by (simp_all add: unat_sub word_le_nat_alt)
  have "\<exists>n. CBS_get_bytes cbs n = (Some (el_out el), c) \<and> 0 < unat n \<and> 0 < unat (el_header_len el)"
  proof (cases "b AND 0x80 = 0")
    case True
    then have "unat b < 128" by (simp add: byte_and_80)
    then have "unat (ucast b + ?hl) = unat b + unat ?hl"
      using hl by (subst unat_add_no_wrap) (simp_all add: unat_ucast_up)
    with assms t True hl show ?thesis
      unfolding cbs_get_any_asn1_element_def by (auto simp: Let_def split: option.splits prod.splits)
  next
    case False
    let ?k = "ucast (b AND 0x7f) :: size_t"
    show ?thesis
    proof (cases "ber_ok \<and> tag AND CBS_ASN1_CONSTRUCTED \<noteq> 0 \<and> ?k = 0")
      case True
      with assms t False hl show ?thesis
        unfolding cbs_get_any_asn1_element_def by (auto simp: Let_def split: option.splits prod.splits)
    next
      case nind: False
      with assms t False obtain v h3 where v: "cbs_get_u h2 ?k = (Some v, h3)" "\<not> ?k > 4"
          "\<not> v + ?hl + ?k < v" "CBS_get_bytes cbs (v + (?hl + ?k)) = (Some (el_out el), c)" "el_header_len el = ?hl + ?k"
        unfolding cbs_get_any_asn1_element_def by (auto simp: Let_def split: option.splits prod.splits if_splits)
      have hk: "unat (?hl + ?k) = unat ?hl + unat ?k"
        using hl v(2) by (intro unat_add_no_wrap) (simp add: word_less_nat_alt)
      then have "unat (v + (?hl + ?k)) = unat v + (unat ?hl + unat ?k)"
        using v(3) unat_add_no_wrap [of v "?hl + ?k"] by (simp add: add.assoc add_wraps_iff not_le)
      then have "0 < unat (v + (?hl + ?k))" "0 < unat (el_header_len el)" using hl(1) hk unfolding v(5) by linarith+
      with v(4) show ?thesis by blast
    qed
  qed
  then obtain n where n: "CBS_get_bytes cbs n = (Some (el_out el), c)" "0 < unat n" "0 < unat (el_header_len el)" by blast
  then show "unat (CBS_len c) < unat (CBS_len cbs)" using CBS_get_bytes_len [OF n(1)] by simp
  show "unat (CBS_len contents) < unat (CBS_len cbs)" if "CBS_skip (el_out el) (el_header_len el) = (ok, contents)" ok
    using that n CBS_get_bytes_len [OF n(1)]
    by (auto simp: CBS_skip_def cbs_get_def not_less unat_sub word_le_nat_alt split: if_splits option.splits prod.splits)
qed

section \<open>Finding BER\<close>

text \<open>
  \<open>Some b\<close> when the walk succeeds and sets \<open>*ber_found\<close> to \<open>b\<close>. A further round of the
  loop is a call with the same depth: \<open>*ber_found\<close> is 0 there and the depth was checked.
\<close>

function cbs_find_ber :: "CBS \<Rightarrow> u32 \<Rightarrow> bool option" where
  "cbs_find_ber inp depth =
     (if depth > kMaxDepth then None
      else if CBS_len inp = 0 then Some False
      else case CBS_get_any_ber_asn1_element inp of
             (None, _) \<Rightarrow> None
           | (Some el, inp') \<Rightarrow>
               if el_ber_found el then Some True
               else if el_tag el AND CBS_ASN1_CONSTRUCTED \<noteq> 0 then
                 (if is_string_type (el_tag el) then Some True
                  else case CBS_skip (el_out el) (el_header_len el) of
                         (False, _) \<Rightarrow> None
                       | (True, contents) \<Rightarrow>
                           (case cbs_find_ber contents (depth + 1) of
                              None \<Rightarrow> None
                            | Some ber_found \<Rightarrow>
                                if ber_found then Some True else cbs_find_ber inp' depth))
               else cbs_find_ber inp' depth)"
  by pat_completeness auto
termination
  by (relation "measure (\<lambda>(inp, depth). unat (CBS_len inp))")
    (auto simp: CBS_get_any_ber_asn1_element_def element_len dest: element_len(1) [OF sym] element_len(2) [OF sym, OF _ sym])

declare cbs_find_ber.simps [simp del]

section \<open>Converting BER to DER\<close>

definition cbs_get_eoc :: "CBS \<Rightarrow> bool \<times> CBS" where
  "cbs_get_eoc cbs =
     (if CBS_len cbs \<ge> 2 \<and> CBS_data cbs ! 0 = 0 \<and> CBS_data cbs ! 1 = 0 then CBS_skip cbs 2
      else (False, cbs))"

text \<open>
  Where the contents of an element go: the choice of \<open>out_contents\<close> and
  \<open>child_string_tag\<close>, with the depth of \<open>out_contents\<close> in the chain of builders.
\<close>

definition convert_open ::
  "libc_malloc \<Rightarrow> CBB \<Rightarrow> nat \<Rightarrow> CBS_ASN1_TAG \<Rightarrow> CBS_ASN1_TAG \<Rightarrow> bool \<times> CBB \<times> nat \<times> CBS_ASN1_TAG" where
  "convert_open malloc cbb d string_tag tag =
     (if string_tag \<noteq> 0 then
        (if tag AND NOT CBS_ASN1_CONSTRUCTED \<noteq> string_tag then (False, cbb, d, string_tag)
         else (True, cbb, d, string_tag))
      else
        let is_string = (tag AND CBS_ASN1_CONSTRUCTED \<noteq> 0 \<and> is_string_type tag);
            out_tag = (if is_string then tag AND NOT CBS_ASN1_CONSTRUCTED else tag);
            child_string_tag = (if is_string then out_tag else string_tag)
        in case CBB_add_asn1 malloc cbb d out_tag of
             (ok, cbb1) \<Rightarrow> (ok, cbb1, Suc d, child_string_tag))"

text \<open>
  The result is the return value with the rest of the input and the builder. \<open>out\<close> is the
  builder at depth \<open>d\<close> of the chain and \<open>out_contents\<close> the one at depth \<open>dc\<close>. A further
  round of the loop is a call with the same arguments but for the input and the builder.
\<close>

function cbs_convert_ber ::
  "libc_malloc \<Rightarrow> CBS \<Rightarrow> CBB \<Rightarrow> nat \<Rightarrow> CBS_ASN1_TAG \<Rightarrow> bool \<Rightarrow> u32 \<Rightarrow> bool \<times> CBS \<times> CBB" where
  "cbs_convert_ber malloc inp cbb d string_tag looking_for_eoc depth =
     (if depth > kMaxDepth then (False, inp, cbb)
      else if CBS_len inp = 0 then (\<not> looking_for_eoc, inp, cbb)
      else case (if looking_for_eoc then cbs_get_eoc inp else (False, inp)) of
        (True, inp0) \<Rightarrow> (True, inp0, cbb)
      | (False, _) \<Rightarrow>
     (case CBS_get_any_ber_asn1_element inp of
        (None, inp1) \<Rightarrow> (False, inp1, cbb)
      | (Some el, inp1) \<Rightarrow>
     (case convert_open malloc cbb d string_tag (el_tag el) of
        (False, cbb1, _, _) \<Rightarrow> (False, inp1, cbb1)
      | (True, cbb1, dc, child_string_tag) \<Rightarrow>
     (if el_indefinite el then
        (case cbs_convert_ber malloc inp1 cbb1 dc child_string_tag True (depth + 1) of
           (False, inp2, cbb2) \<Rightarrow> (False, inp2, cbb2)
         | (True, inp2, cbb2) \<Rightarrow>
             (case CBB_flush malloc cbb2 d of
                (False, cbb3) \<Rightarrow> (False, inp2, cbb3)
              | (True, cbb3) \<Rightarrow>
                  cbs_convert_ber malloc inp2 cbb3 d string_tag looking_for_eoc depth))
      else
      (case CBS_skip (el_out el) (el_header_len el) of
         (False, _) \<Rightarrow> (False, inp1, cbb1)
       | (True, contents) \<Rightarrow>
      (case
         (if el_tag el AND CBS_ASN1_CONSTRUCTED \<noteq> 0 then
            (case cbs_convert_ber malloc contents cbb1 dc child_string_tag False (depth + 1) of
               (ok, _, cbb2) \<Rightarrow> (ok, cbb2))
          else CBB_add_bytes malloc cbb1 dc (CBS_data contents) (CBS_len contents)) of
         (False, cbb2) \<Rightarrow> (False, inp1, cbb2)
       | (True, cbb2) \<Rightarrow>
      (case CBB_flush malloc cbb2 d of
         (False, cbb3) \<Rightarrow> (False, inp1, cbb3)
       | (True, cbb3) \<Rightarrow>
           cbs_convert_ber malloc inp1 cbb3 d string_tag looking_for_eoc depth)))))))"
  by pat_completeness auto

lemma cbs_get_eoc_len: "cbs_get_eoc cbs = (True, c) \<Longrightarrow> unat (CBS_len c) < unat (CBS_len cbs)"
  by (auto simp: cbs_get_eoc_def CBS_skip_def cbs_get_def unat_sub word_le_nat_alt not_less
      split: if_splits option.splits prod.splits)

lemma cbs_convert_ber_len:
  "cbs_convert_ber_dom (malloc, inp, cbb, d, string_tag, eoc, depth) \<Longrightarrow>
   cbs_convert_ber malloc inp cbb d string_tag eoc depth = (True, inp', cbb') \<Longrightarrow>
   unat (CBS_len inp') \<le> unat (CBS_len inp)"
proof (induction malloc inp cbb d string_tag eoc depth arbitrary: inp' cbb' rule: cbs_convert_ber.pinduct)
  case (1 malloc inp cbb d string_tag eoc depth)
  note run = "1.prems" [unfolded cbs_convert_ber.psimps [OF "1.hyps"]]
  show ?case
  proof (cases "depth > kMaxDepth \<or> CBS_len inp = 0 \<or> eoc \<and> fst (cbs_get_eoc inp)")
    case True
    with run show ?thesis
      by (auto split: if_splits prod.splits bool.splits dest: cbs_get_eoc_len)
  next
    case False
    then obtain i where nf: "\<not> depth > kMaxDepth" "CBS_len inp \<noteq> 0"
      "(if eoc then cbs_get_eoc inp else (False, inp)) = (False, i)"
      by (auto simp: prod_eq_iff)
    from run False obtain el inp1 cbb1 dc ct where
      el: "CBS_get_any_ber_asn1_element inp = (Some el, inp1)" and
      opn: "convert_open malloc cbb d string_tag (el_tag el) = (True, cbb1, dc, ct)"
      by (auto split: if_splits prod.splits bool.splits option.splits)
    note IH = "1.IH" [OF nf(1,2) nf(3) [symmetric] refl el [symmetric] refl opn [symmetric] refl refl refl]
    note run' = run [unfolded nf if_False el opn prod.case option.case bool.case]
    have l: "unat (CBS_len inp1) \<le> unat (CBS_len inp)"
      using element_len(1) el by (fastforce simp: CBS_get_any_ber_asn1_element_def)
    show ?thesis
    proof (cases "el_indefinite el")
      case True
      with run nf el opn obtain inp2 cbb2 cbb3 where
        r: "cbs_convert_ber malloc inp1 cbb1 dc ct True (depth + 1) = (True, inp2, cbb2)"
          "CBB_flush malloc cbb2 d = (True, cbb3)"
          "cbs_convert_ber malloc inp2 cbb3 d string_tag eoc depth = (True, inp', cbb')"
        by (auto split: prod.splits bool.splits if_splits)
      from IH(1) [OF True r(1)] IH(2) [OF True r(1) [symmetric] refl refl r(2) [symmetric] refl r(3)] l
      show ?thesis by simp
    next
      case ni: False
      with run nf el opn obtain contents cbb2 cbb3 where
        r: "CBS_skip (el_out el) (el_header_len el) = (True, contents)"
          "(if el_tag el AND CBS_ASN1_CONSTRUCTED \<noteq> 0 then
            (case cbs_convert_ber malloc contents cbb1 dc ct False (depth + 1) of (ok, _, cbb2) \<Rightarrow> (ok, cbb2))
            else CBB_add_bytes malloc cbb1 dc (CBS_data contents) (CBS_len contents)) = (True, cbb2)"
          "CBB_flush malloc cbb2 d = (True, cbb3)"
          "cbs_convert_ber malloc inp1 cbb3 d string_tag eoc depth = (True, inp', cbb')"
        by (auto split: prod.splits bool.splits if_splits)
      from IH(4) [OF ni r(1) [symmetric] refl r(2) [symmetric] refl r(3) [symmetric] refl r(4)] l
      show ?thesis by simp
    qed
  qed
qed

termination cbs_convert_ber
proof (relation "measure (\<lambda>(malloc, inp, cbb, d, string_tag, eoc, depth). unat (CBS_len inp))")
qed (auto simp: CBS_get_any_ber_asn1_element_def dest: element_len(1) [OF sym] element_len(2) [OF sym, OF _ sym]
      intro: order.strict_trans1 [OF cbs_convert_ber_len [OF _ sym]])

declare cbs_convert_ber.simps [simp del]

text \<open>
  The out-parameters \<open>out\<close> and \<open>out_storage\<close> with the rest of the input. A buffer that
  was never allocated is the empty object.
\<close>

definition CBS_asn1_ber_to_der :: "libc_malloc \<Rightarrow> CBS \<Rightarrow> (CBS \<times> u8 list option) option \<times> CBS" where
  "CBS_asn1_ber_to_der malloc inp =
     (case cbs_find_ber inp 0 of
        None \<Rightarrow> (None, inp)
      | Some conversion_needed \<Rightarrow>
          if \<not> conversion_needed then
            (case CBS_get_any_asn1_element inp of
               (None, inp) \<Rightarrow> (None, inp)
             | (Some el, inp) \<Rightarrow> (Some (el_out el, None), inp))
          else
            (case CBB_init malloc (CBS_len inp) of
               None \<Rightarrow> (None, inp)
             | Some cbb \<Rightarrow>
                 (case cbs_convert_ber malloc inp cbb 0 0 False 0 of
                    (False, inp, cbb) \<Rightarrow> (None, inp)
                  | (True, inp, cbb) \<Rightarrow>
                      (case CBB_finish malloc cbb 0 of
                         (None, cbb) \<Rightarrow> (None, inp)
                       | (Some (out_storage, len), cbb) \<Rightarrow>
                           (Some (CBS_init (case out_storage of None \<Rightarrow> [] | Some p \<Rightarrow> p) len, out_storage), inp)))))"

text \<open>The loop of \<open>CBS_get_asn1_implicit_string\<close> over the chunks.\<close>

function implicit_string_loop :: "libc_malloc \<Rightarrow> CBS \<Rightarrow> CBB \<Rightarrow> CBS_ASN1_TAG \<Rightarrow> bool \<times> CBB" where
  "implicit_string_loop malloc child result inner_tag =
     (if CBS_len child = 0 then (True, result)
      else case CBS_get_asn1 child inner_tag of
             (None, _) \<Rightarrow> (False, result)
           | (Some chunk, child') \<Rightarrow>
               (case CBB_add_bytes malloc result 0 (CBS_data chunk) (CBS_len chunk) of
                  (False, result') \<Rightarrow> (False, result')
                | (True, result') \<Rightarrow> implicit_string_loop malloc child' result' inner_tag))"
  by pat_completeness auto

lemma CBS_get_asn1_len: "CBS_get_asn1 cbs tag = (Some out, c) \<Longrightarrow> unat (CBS_len c) < unat (CBS_len cbs)"
  by (auto simp: CBS_get_asn1_def cbs_get_asn1_def CBS_get_any_asn1_element_def dest: element_len(1)
      split: option.splits prod.splits if_splits bool.splits)

termination implicit_string_loop
  by (relation "measure (\<lambda>(malloc, child, result, inner_tag). unat (CBS_len child))")
    (auto dest: CBS_get_asn1_len [OF sym])

declare implicit_string_loop.simps [simp del]

definition CBS_get_asn1_implicit_string ::
  "libc_malloc \<Rightarrow> CBS \<Rightarrow> CBS_ASN1_TAG \<Rightarrow> CBS_ASN1_TAG \<Rightarrow> (CBS \<times> u8 list option) option \<times> CBS" where
  "CBS_get_asn1_implicit_string malloc inp outer_tag inner_tag =
     (if CBS_peek_asn1_tag inp outer_tag then
        (case CBS_get_asn1 inp outer_tag of
           (None, inp) \<Rightarrow> (None, inp) | (Some out, inp) \<Rightarrow> (Some (out, None), inp))
      else
        (case CBB_init malloc (CBS_len inp) of
           None \<Rightarrow> (None, inp)
         | Some result \<Rightarrow>
             (case CBS_get_asn1 inp (outer_tag OR CBS_ASN1_CONSTRUCTED) of
                (None, inp) \<Rightarrow> (None, inp)
              | (Some child, inp) \<Rightarrow>
                  (case implicit_string_loop malloc child result inner_tag of
                     (False, result) \<Rightarrow> (None, inp)
                   | (True, result) \<Rightarrow>
                       (case CBB_finish malloc result 0 of
                          (None, result) \<Rightarrow> (None, inp)
                        | (Some (data, len), result) \<Rightarrow>
                            (Some (CBS_init (case data of None \<Rightarrow> [] | Some p \<Rightarrow> p) len, data), inp))))))"

section \<open>What the walk finds\<close>

text \<open>
  Sequences of DER elements with no constructed string, nested at most \<open>n\<close> levels deep.
\<close>

inductive der_nested :: "nat \<Rightarrow> u8 list \<Rightarrow> bool" where
  der_nested_Nil: "der_nested n []"
| der_nested_prim: "\<not> reserved_tag tag \<Longrightarrow> length body < 4294967296 \<Longrightarrow> tag AND CBS_ASN1_CONSTRUCTED = 0 \<Longrightarrow>
    der_nested n rest \<Longrightarrow> der_nested n (der tag body @ rest)"
| der_nested_cons: "\<not> reserved_tag tag \<Longrightarrow> length body < 4294967296 \<Longrightarrow> tag AND CBS_ASN1_CONSTRUCTED \<noteq> 0 \<Longrightarrow>
    \<not> is_string_type tag \<Longrightarrow> der_nested n body \<Longrightarrow> der_nested (Suc n) rest \<Longrightarrow>
    der_nested (Suc n) (der tag body @ rest)"

lemma der_not_Nil [simp]: "der tag body \<noteq> []"
  by (simp add: der_def der_len_def)

lemma der_nested_head:
  assumes d: "der_nested n (der tag body @ rest)" and tag: "\<not> reserved_tag tag" "length body < 4294967296"
  shows "der_nested n rest"
    "tag AND CBS_ASN1_CONSTRUCTED \<noteq> 0 \<Longrightarrow> \<not> is_string_type tag \<and> (\<exists>m. n = Suc m \<and> der_nested m body)"
proof -
  from d have "der_nested n rest \<and> (tag AND CBS_ASN1_CONSTRUCTED \<noteq> 0 \<longrightarrow>
      \<not> is_string_type tag \<and> (\<exists>m. n = Suc m \<and> der_nested m body))"
  proof cases
    case (der_nested_prim t b r)
    from der_prefix_free [OF tag(1) this(2) tag(2) this(3) this(1)] this(4,5) show ?thesis by simp
  next
    case (der_nested_cons t b m r)
    from der_prefix_free [OF tag(1) this(3) tag(2) this(4) this(2)] this(1,5-8) show ?thesis by simp
  qed simp
  then show "der_nested n rest"
    "tag AND CBS_ASN1_CONSTRUCTED \<noteq> 0 \<Longrightarrow> \<not> is_string_type tag \<and> (\<exists>m. n = Suc m \<and> der_nested m body)"
    by auto
qed

text \<open>One element of a view, as the walk and the conversion read it.\<close>

lemma element_step:
  assumes wf: "cbs_wf inp" and el: "CBS_get_any_ber_asn1_element inp = (Some el, inp1)"
  obtains header contents where
    "element_spec True (cbs_bytes inp) =
       Some ((el_tag el, header, cbs_bytes contents, el_ber_found el, el_indefinite el), cbs_bytes inp1)"
    "cbs_wf inp1" "CBS_skip (el_out el) (el_header_len el) = (True, contents)" "cbs_wf contents"
proof -
  note g = rd_element.get_Some [OF wf el [unfolded CBS_get_any_ber_asn1_element_def]]
  let ?h = "unat (el_header_len el)" and ?bs = "cbs_bytes (el_out el)"
  from g(2) have o: "cbs_wf (el_out el)" "el_header_len el \<le> CBS_len (el_out el)" by (simp_all add: element_ok_def)
  obtain contents where "CBS_skip (el_out el) (el_header_len el) = (True, contents)" "cbs_wf contents"
      "cbs_bytes contents = drop ?h ?bs"
    using CBS_skip_spec [OF o(1), of "el_header_len el"] o
    by (cases "CBS_skip (el_out el) (el_header_len el)") (auto simp: word_le_nat_alt)
  with g that [of "take ?h ?bs" contents] show ?thesis by (simp add: element_view_def Let_def)
qed

lemma element_spec_not_ber:
  "element_spec True bs = Some ((tag, header, body, False, indef), rest) \<Longrightarrow>
     element_spec False bs = Some ((tag, header, body, False, indef), rest)"
  by (auto simp: element_spec_def len_spec_def Let_def split: option.splits prod.splits asn1_len.splits list.splits if_splits)

lemma depth_le: "\<not> depth > kMaxDepth \<longleftrightarrow> unat depth \<le> 128"
  by (simp add: kMaxDepth_def word_less_nat_alt not_less)

lemma depth_Suc: "unat depth \<le> 128 \<Longrightarrow> unat (depth + 1 :: u32) = Suc (unat depth)"
  by (subst unat_add_no_wrap) simp_all

lemma cbs_find_ber_der:
  assumes wf: "cbs_wf inp" and d: "unat depth \<le> 128" and bs: "cbs_bytes inp = der tag body @ rest"
    and tag: "\<not> reserved_tag tag" "length body < 4294967296"
  obtains contents inp1 where "cbs_wf contents" "cbs_bytes contents = body" "cbs_wf inp1" "cbs_bytes inp1 = rest"
    "cbs_find_ber inp depth =
       (if tag AND CBS_ASN1_CONSTRUCTED = 0 then cbs_find_ber inp1 depth
        else if is_string_type tag then Some True
        else case cbs_find_ber contents (depth + 1) of None \<Rightarrow> None
          | Some ber_found \<Rightarrow> if ber_found then Some True else cbs_find_ber inp1 depth)"
proof -
  note s = element_spec_der [OF tag, of True rest]
  from rd_element.get_accepts [OF wf, of True] s bs obtain el inp1 where
    el: "CBS_get_any_ber_asn1_element inp = (Some el, inp1)" by (metis CBS_get_any_ber_asn1_element_def)
  from element_step [OF wf el] obtain header contents where
    e: "element_spec True (cbs_bytes inp) =
       Some ((el_tag el, header, cbs_bytes contents, el_ber_found el, el_indefinite el), cbs_bytes inp1)"
    "cbs_wf inp1" "CBS_skip (el_out el) (el_header_len el) = (True, contents)" "cbs_wf contents" .
  have "el_tag el = tag" "cbs_bytes contents = body" "\<not> el_ber_found el" "cbs_bytes inp1 = rest"
    using e(1) s bs by simp_all
  moreover have "CBS_len inp \<noteq> 0" using cbs_bytes_Nil_iff [OF wf] bs by simp
  ultimately show ?thesis
    using that [of contents inp1] e(2-4) el d depth_le [of depth] cbs_find_ber.simps [of inp depth]
    by simp
qed

lemma cbs_find_ber_not_der:
  assumes wf: "cbs_wf inp" and r: "cbs_find_ber inp depth = Some False"
  shows "unat depth \<le> 128 \<and> (cbs_bytes inp = [] \<or>
    (\<exists>tag body rest. \<not> reserved_tag tag \<and> length body < 4294967296 \<and> cbs_bytes inp = der tag body @ rest))"
proof (cases "CBS_len inp = 0")
  case True
  with r cbs_bytes_Nil_iff [OF wf] depth_le [of depth] show ?thesis by (auto simp: cbs_find_ber.simps [of inp] split: if_splits)
next
  case False
  with r obtain el inp1 where el: "CBS_get_any_ber_asn1_element inp = (Some el, inp1)" "\<not> el_ber_found el" "unat depth \<le> 128"
    using depth_le [of depth] by (auto simp: cbs_find_ber.simps [of inp] split: if_splits option.splits prod.splits)
  from element_step [OF wf el(1)] obtain header contents where
    "element_spec True (cbs_bytes inp) =
       Some ((el_tag el, header, cbs_bytes contents, el_ber_found el, el_indefinite el), cbs_bytes inp1)" .
  with el(2) have "element_spec False (cbs_bytes inp) =
       Some ((el_tag el, header, cbs_bytes contents, False, el_indefinite el), cbs_bytes inp1)"
    by (simp add: element_spec_not_ber)
  with el(3) show ?thesis unfolding element_spec_der_iff by blast
qed

text \<open>The walk finds no BER exactly in the nested DER that is at most as deep as it goes.\<close>

lemma cbs_find_ber_iff:
  "cbs_wf inp \<Longrightarrow> cbs_find_ber inp depth = Some False \<longleftrightarrow>
     unat depth \<le> 128 \<and> der_nested (128 - unat depth) (cbs_bytes inp)"
proof (induction "length (cbs_bytes inp)" arbitrary: inp depth rule: less_induct)
  case less
  let ?n = "128 - unat depth"
  consider "\<not> unat depth \<le> 128" | "unat depth \<le> 128" "cbs_bytes inp = []"
    | tag body rest where "unat depth \<le> 128" "cbs_bytes inp = der tag body @ rest" "\<not> reserved_tag tag" "length body < 4294967296"
    | "unat depth \<le> 128" "cbs_bytes inp \<noteq> []"
      "\<nexists>tag body rest. \<not> reserved_tag tag \<and> length body < 4294967296 \<and> cbs_bytes inp = der tag body @ rest" by metis
  then show ?case
  proof cases
    case 1
    then show ?thesis using cbs_find_ber_not_der [OF less.prems] by blast
  next
    case 2
    then show ?thesis
      using cbs_bytes_Nil_iff [OF less.prems] depth_le [of depth]
      by (auto simp: cbs_find_ber.simps [of inp] intro: der_nested_Nil)
  next
    case (3 tag body rest)
    from cbs_find_ber_der [OF less.prems 3] obtain contents inp1 where
      e: "cbs_wf contents" "cbs_bytes contents = body" "cbs_wf inp1" "cbs_bytes inp1 = rest"
      and r: "cbs_find_ber inp depth =
       (if tag AND CBS_ASN1_CONSTRUCTED = 0 then cbs_find_ber inp1 depth
        else if is_string_type tag then Some True
        else case cbs_find_ber contents (depth + 1) of None \<Rightarrow> None
          | Some ber_found \<Rightarrow> if ber_found then Some True else cbs_find_ber inp1 depth)" .
    have "0 < length (der_len (length body))" by (simp add: der_len_def)
    then have l: "length body < length (cbs_bytes inp)" "length rest < length (cbs_bytes inp)"
      unfolding 3(2) der_def by simp_all
    note A = less.hyps [OF l(1) [folded e(2)] e(1), of "depth + 1", unfolded depth_Suc [OF 3(1)] e(2)]
    note B = less.hyps [OF l(2) [folded e(4)] e(3), of depth, unfolded e(4)]
    note hd = der_nested_head [of ?n tag body rest, OF _ 3(3,4)]
    have n: "?n = Suc m \<longleftrightarrow> Suc (unat depth) \<le> 128 \<and> m = 128 - Suc (unat depth)" for m using 3(1) by linarith
    have "der_nested ?n (der tag body @ rest) \<longleftrightarrow> der_nested ?n rest \<and> (tag AND CBS_ASN1_CONSTRUCTED \<noteq> 0 \<longrightarrow>
        \<not> is_string_type tag \<and> Suc (unat depth) \<le> 128 \<and> der_nested (128 - Suc (unat depth)) body)"
      using hd n der_nested_prim [OF 3(3,4), of ?n rest] der_nested_cons [OF 3(3,4), of "128 - Suc (unat depth)" rest] by metis
    then show ?thesis
      unfolding r 3(2) using A B 3(1) by (auto split: option.splits)
  next
    case 4
    have "\<not> der_nested ?n (cbs_bytes inp)"
    proof
      assume "der_nested ?n (cbs_bytes inp)"
      then show False by cases (use 4 in auto)
    qed
    moreover have "cbs_find_ber inp depth \<noteq> Some False"
      using cbs_find_ber_not_der [OF less.prems, of depth] 4(2,3) by blast
    ultimately show ?thesis by simp
  qed
qed

end
