(* ===== verification/Ber_Der.thy ===== *)
theory Ber_Der
  imports Ber
begin

text \<open>
  The conversion of BER to DER: a specification on byte strings, the proof that
  \<open>cbs_convert_ber\<close> writes what it says into the builder, and that this is DER again.
\<close>

section \<open>What the conversion writes\<close>

text \<open>The tag and the mode for the contents of an element, and the element around them.\<close>

definition merges :: "CBS_ASN1_TAG \<Rightarrow> bool" where
  "merges tag \<longleftrightarrow> tag AND CBS_ASN1_CONSTRUCTED \<noteq> 0 \<and> is_string_type tag"

definition out_tag :: "CBS_ASN1_TAG \<Rightarrow> CBS_ASN1_TAG" where
  "out_tag tag = (if merges tag then tag AND NOT CBS_ASN1_CONSTRUCTED else tag)"

definition inner_mode :: "CBS_ASN1_TAG \<Rightarrow> CBS_ASN1_TAG \<Rightarrow> CBS_ASN1_TAG" where
  "inner_mode string_tag tag = (if string_tag \<noteq> 0 then string_tag else if merges tag then out_tag tag else 0)"

definition wrap :: "CBS_ASN1_TAG \<Rightarrow> CBS_ASN1_TAG \<Rightarrow> u8 list \<Rightarrow> u8 list option" where
  "wrap string_tag tag x =
     (if string_tag \<noteq> 0 then Some x
      else if length x < 4294967295 then Some (der (out_tag tag) x) else None)"

text \<open>
  The DER that BER stands for, and the rest of the input: indefinite lengths end at the
  end-of-contents marker, the chunks of a constructed string are merged, everything else keeps
  its tag and contents. \<open>n\<close> is the nesting still allowed.
\<close>

function ber_spec :: "CBS_ASN1_TAG \<Rightarrow> bool \<Rightarrow> nat \<Rightarrow> u8 list parser" where
  "ber_spec string_tag eoc n bs =
     (if bs = [] then (if eoc then None else Some ([], []))
      else if eoc \<and> take 2 bs = [0, 0] then Some ([], drop 2 bs)
      else case element_spec True bs of
             None \<Rightarrow> None
           | Some ((tag, header, body, ber, indef), rest) \<Rightarrow>
               if string_tag \<noteq> 0 \<and> tag AND NOT CBS_ASN1_CONSTRUCTED \<noteq> string_tag then None
               else
                 (case (if indef then
                          (if n = 0 then None else ber_spec (inner_mode string_tag tag) True (n - 1) rest)
                        else if tag AND CBS_ASN1_CONSTRUCTED \<noteq> 0 then
                          (if n = 0 then None
                           else map_option (apsnd (\<lambda>_. rest)) (ber_spec (inner_mode string_tag tag) False (n - 1) body))
                        else Some (body, rest)) of
                    None \<Rightarrow> None
                  | Some (x, rest') \<Rightarrow>
                      (case wrap string_tag tag x of
                         None \<Rightarrow> None
                       | Some y \<Rightarrow>
                           if length rest' < length bs
                           then map_option (apfst ((@) y)) (ber_spec string_tag eoc n rest')
                           else None)))"
  by pat_completeness auto

lemma element_spec_shorter:
  assumes "element_spec ber_ok bs = Some ((tag, header, body, ber, indef), rest)"
  shows "length rest < length bs" "length body < length bs"
proof -
  have "header \<noteq> []"
  proof -
    from assms obtain t r1 where t: "tag_spec bs = Some (t, r1)" by (auto simp: element_spec_def split: option.splits)
    then have "\<not> reserved_tag t" "bs = tag_bytes t @ r1" by (simp_all add: tag_spec_iff)
    moreover obtain b r where "r1 = b # r"
      using assms t by (cases r1) (auto simp: element_spec_def len_spec_def)
    ultimately show ?thesis
      using assms
      by (auto simp: element_spec_after_tag len_spec_def Let_def u_spec_Some_iff split: option.splits asn1_len.splits if_splits)
  qed
  with element_spec_append [OF assms] show "length rest < length bs" "length body < length bs" by auto
qed

termination ber_spec
  by (relation "measure (\<lambda>(string_tag, eoc, n, bs). length bs)") (auto dest: element_spec_shorter)

declare ber_spec.simps [simp del]

section \<open>The conversion meets its specification\<close>

definition ready :: "libc_malloc \<Rightarrow> CBB \<Rightarrow> nat \<Rightarrow> bool" where
  "ready malloc cbb d \<longleftrightarrow> malloc_spec malloc \<and> cbb_wf cbb \<and> \<not> error (base cbb) \<and> length (children cbb) = d"

definition run_cbb :: "(CBB \<Rightarrow> nat \<Rightarrow> bool \<times> CBS \<times> CBB) \<Rightarrow> CBB \<Rightarrow> nat \<Rightarrow> bool \<times> CBB" where
  "run_cbb run cbb d = (case run cbb d of (ok, _, cbb) \<Rightarrow> (ok, cbb))"

definition runs :: "libc_malloc \<Rightarrow> (CBB \<Rightarrow> nat \<Rightarrow> bool \<times> CBS \<times> CBB) \<Rightarrow> (u8 list \<times> u8 list) option \<Rightarrow> bool" where
  "runs malloc run r \<longleftrightarrow>
     (case r of
        None \<Rightarrow> \<forall>cbb d. ready malloc cbb d \<longrightarrow> \<not> fst (run cbb d)
      | Some (x, rest) \<Rightarrow> appends malloc (run_cbb run) x \<and>
          (\<forall>cbb d i c. run cbb d = (True, i, c) \<longrightarrow> cbs_wf i \<and> cbs_bytes i = rest))"

text \<open>An element from its header to the flush of the builder around it.\<close>

definition put_element ::
  "libc_malloc \<Rightarrow> CBS_ASN1_TAG \<Rightarrow> CBS_ASN1_TAG \<Rightarrow> (CBB \<Rightarrow> nat \<Rightarrow> bool \<times> CBB) \<Rightarrow> CBB \<Rightarrow> nat \<Rightarrow> bool \<times> CBB" where
  "put_element malloc st tag inner cbb d =
     (case convert_open malloc cbb d st tag of
        (False, c, _) \<Rightarrow> (False, c)
      | (True, c, dc, _) \<Rightarrow> (case inner c dc of (False, c) \<Rightarrow> (False, c) | (True, c) \<Rightarrow> CBB_flush malloc c d))"

lemma convert_open_string:
  "st \<noteq> 0 \<Longrightarrow> tag AND NOT CBS_ASN1_CONSTRUCTED = st \<Longrightarrow> convert_open malloc cbb d st tag = (True, cbb, d, st)"
  by (simp add: convert_open_def)

lemma convert_open_element:
  "convert_open malloc cbb d 0 tag =
     (case CBB_add_asn1 malloc cbb d (out_tag tag) of (ok, c) \<Rightarrow> (ok, c, Suc d, inner_mode 0 tag))"
  by (simp add: convert_open_def out_tag_def inner_mode_def merges_def Let_def)

lemma case_flag_eta: "(case p of (False, c) \<Rightarrow> (False, c) | (True, c) \<Rightarrow> (True, c)) = p"
  by (cases p; cases "fst p") auto

lemma put_element_writes:
  assumes st: "st = 0 \<or> tag AND NOT CBS_ASN1_CONSTRUCTED = st" and inner: "appends malloc inner x"
    and y: "wrap st tag x = Some y" and r: "ready malloc cbb d"
  shows "writes y cbb d (put_element malloc st tag inner cbb d)"
proof (cases "st = 0")
  case False
  have "writes (x @ []) cbb d (case inner cbb d of (False, c) \<Rightarrow> (False, c) | (True, c) \<Rightarrow> CBB_flush malloc c d)"
    using inner r CBB_flush_writes by (intro writes_then) (auto simp: appends_def ready_def)
  with False st y show ?thesis by (simp add: put_element_def convert_open_string wrap_def)
next
  case True
  obtain ok c1 where c1: "CBB_add_asn1 malloc cbb d (out_tag tag) = (ok, c1)" by fastforce
  have b: "begins (tag_bytes (out_tag tag)) 1 True cbb d (ok, c1)"
    using CBB_add_asn1_begins [of malloc cbb d "out_tag tag"] r c1 by (simp add: ready_def)
  have "encode (if True then Asn1 else Fixed (unat 1)) x = Some (der_len (length x) @ x)"
    using y True by (simp add: wrap_def split: if_splits)
  from child_writes [OF b inner keeps_error_simps(1,1,1) _ this] r
  have "writes (der (out_tag tag) x) cbb d (if \<not> ok then (False, c1)
     else case inner c1 (Suc d) of (False, cbb) \<Rightarrow> (False, cbb)
          | (True, cbb) \<Rightarrow> (case CBB_flush malloc cbb d of (False, cbb) \<Rightarrow> (False, cbb) | (True, cbb) \<Rightarrow> (True, cbb)))"
    by (simp add: ready_def der_def)
  then show ?thesis
    using True y c1 unfolding case_flag_eta
    by (cases ok) (simp_all add: put_element_def convert_open_element wrap_def split: if_splits)
qed

lemma put_element_fails:
  assumes st: "st = 0 \<or> tag AND NOT CBS_ASN1_CONSTRUCTED = st" and r: "ready malloc cbb d"
    and bad: "(\<forall>c dc. ready malloc c dc \<longrightarrow> \<not> fst (inner c dc)) \<or> appends malloc inner x \<and> wrap st tag x = None"
  shows "\<not> fst (put_element malloc st tag inner cbb d)"
proof (cases "st = 0")
  case False
  with bad r have "\<not> fst (inner cbb d)" by (auto simp: wrap_def)
  with False st show ?thesis
    by (auto simp: put_element_def convert_open_string split: prod.splits bool.splits)
next
  case True
  show ?thesis
  proof
    assume "fst (put_element malloc st tag inner cbb d)"
    with True obtain c1 c2 where c: "CBB_add_asn1 malloc cbb d (out_tag tag) = (True, c1)" "inner c1 (Suc d) = (True, c2)"
        "fst (CBB_flush malloc c2 d)"
      by (auto simp: put_element_def convert_open_element split: prod.splits bool.splits)
    have b: "begins (tag_bytes (out_tag tag)) 1 True cbb d (True, c1)"
      using CBB_add_asn1_begins [of malloc cbb d "out_tag tag"] r c(1) by (simp add: ready_def)
    then have r1: "ready malloc c1 (Suc d)" using r by (auto simp: begins_def ready_def)
    with c(2) have "\<not> (\<forall>c dc. ready malloc c dc \<longrightarrow> \<not> fst (inner c dc))" by (metis fst_conv)
    with bad have x: "appends malloc inner x" "4294967295 \<le> length x"
      using True by (auto simp: wrap_def split: if_splits)
    have W: "writes x c1 (Suc d) (True, c2)" using x(1) r1 c(2) by (auto simp: appends_def ready_def)
    have "pending c2 d = [(Asn1, x)]"
      using child_pending [OF b W] r by (simp add: ready_def)
    then have "close (pending c2 d) = None" using x(2) by simp
    moreover have "writes [] c2 d (CBB_flush malloc c2 d)"
      using CBB_flush_writes [of malloc c2 d] W r1 by (auto simp: writes_def ready_def)
    ultimately show False using c(3) by (auto simp: writes_def)
  qed
qed

text \<open>A write and what follows it.\<close>

lemma runs_then:
  assumes put: "\<And>cbb d. ready malloc cbb d \<Longrightarrow> writes y cbb d (put cbb d)"
    and step: "\<And>cbb d c. put cbb d = (True, c) \<Longrightarrow> \<exists>i. runs malloc (nxt i) r \<and> run cbb d = nxt i c d"
    and stop: "\<And>cbb d c. put cbb d = (False, c) \<Longrightarrow> run_cbb run cbb d = (False, c)"
  shows "runs malloc run (map_option (apfst ((@) y)) r)"
proof (cases r)
  case None
  have "\<not> fst (run cbb d)" if rdy: "ready malloc cbb d" for cbb d
  proof (cases "put cbb d")
    case (Pair ok c)
    show ?thesis
    proof (cases ok)
      case True
      with Pair put [OF rdy] rdy have "ready malloc c d" by (auto simp: writes_def ready_def)
      with step [of cbb d c] Pair True None show ?thesis by (fastforce simp: runs_def)
    qed (use stop [of cbb d] Pair in \<open>auto simp: run_cbb_def split: prod.splits\<close>)
  qed
  with None show ?thesis by (simp add: runs_def)
next
  case (Some q)
  obtain ys r' where q: "q = (ys, r')" by (cases q)
  have "writes (y @ ys) cbb d (run_cbb run cbb d)" if rdy: "ready malloc cbb d" for cbb d
  proof (cases "put cbb d")
    case (Pair ok c)
    show ?thesis
    proof (cases ok)
      case True
      with step [of cbb d c] Pair obtain i where i: "runs malloc (nxt i) r" "run cbb d = nxt i c d" by auto
      have "writes (y @ ys) cbb d (case put cbb d of (False, c) \<Rightarrow> (False, c) | (True, c) \<Rightarrow> run_cbb (nxt i) c d)"
        using put [OF rdy] i(1) Some q rdy by (intro writes_then) (auto simp: runs_def appends_def ready_def)
      with Pair True i(2) show ?thesis by (simp add: run_cbb_def)
    next
      case False
      with put [OF rdy] Pair stop [of cbb d c] show ?thesis by (fastforce simp: writes_def)
    qed
  qed
  then have "appends malloc (run_cbb run) (y @ ys)" by (simp add: appends_def ready_def)
  moreover have "cbs_wf i \<and> cbs_bytes i = r'" if "run cbb d = (True, i, c)" for cbb d i c
  proof -
    have "fst (put cbb d)" using stop [of cbb d] that by (cases "put cbb d") (auto simp: run_cbb_def)
    then obtain c2 where "put cbb d = (True, c2)" by (cases "put cbb d") auto
    from step [OF this] that Some q show ?thesis by (fastforce simp: runs_def)
  qed
  ultimately show ?thesis using Some q by (simp add: runs_def)
qed

text \<open>An element and what follows it.\<close>

lemma runs_element:
  assumes st: "st = 0 \<or> tag AND NOT CBS_ASN1_CONSTRUCTED = st"
    and inner: "runs malloc inner r"
    and nxt: "\<And>x rest i. r = Some (x, rest) \<Longrightarrow> cbs_wf i \<Longrightarrow> cbs_bytes i = rest \<Longrightarrow> runs malloc (nxt i) (spec rest)"
    and run: "\<And>cbb d. run cbb d =
      (case convert_open malloc cbb d st tag of
         (False, c, _) \<Rightarrow> (False, i0, c)
       | (True, c, dc, _) \<Rightarrow>
           (case inner c dc of
              (False, i, c) \<Rightarrow> (False, i, c)
            | (True, i, c) \<Rightarrow>
                (case CBB_flush malloc c d of (False, c) \<Rightarrow> (False, i, c) | (True, c) \<Rightarrow> nxt i c d)))"
  shows "runs malloc run (case r of None \<Rightarrow> None | Some (x, rest) \<Rightarrow>
    (case wrap st tag x of None \<Rightarrow> None | Some y \<Rightarrow> map_option (apfst ((@) y)) (spec rest)))"
proof -
  let ?put = "put_element malloc st tag (run_cbb inner)"
  have step: "\<exists>i. (\<exists>c dc c'. inner c dc = (True, i, c')) \<and> run cbb d = nxt i c d"
    if "?put cbb d = (True, c)" for cbb d c
    using that unfolding put_element_def run_cbb_def [of inner] run
    by (auto split: prod.splits bool.splits)
  have stop: "run_cbb run cbb d = (False, c)" if "?put cbb d = (False, c)" for cbb d c
    using that unfolding put_element_def run_cbb_def run by (auto split: prod.splits bool.splits)
  have fails: "\<not> fst (run cbb d)" if "\<not> fst (?put cbb d)" for cbb d
    using stop [of cbb d] that by (cases "?put cbb d") (auto simp: run_cbb_def split: prod.splits)
  show ?thesis
  proof (cases r)
    case None
    then have "\<forall>c dc. ready malloc c dc \<longrightarrow> \<not> fst (run_cbb inner c dc)"
      using inner by (auto simp: runs_def run_cbb_def split: prod.splits) (metis fst_conv)
    then have "\<not> fst (run cbb d)" if "ready malloc cbb d" for cbb d
      using put_element_fails [OF st that] fails by blast
    with None show ?thesis by (simp add: runs_def)
  next
    case (Some p)
    obtain x rest where p: "p = (x, rest)" by (cases p)
    have inn: "appends malloc (run_cbb inner) x" "\<And>c dc i c'. inner c dc = (True, i, c') \<Longrightarrow> cbs_wf i \<and> cbs_bytes i = rest"
      using inner Some p by (auto simp: runs_def)
    show ?thesis
    proof (cases "wrap st tag x")
      case None
      then have "\<not> fst (run cbb d)" if "ready malloc cbb d" for cbb d
        using put_element_fails [OF st that] inn(1) fails by blast
      with Some p None show ?thesis by (simp add: runs_def)
    next
      case y: (Some y)
      have "\<exists>i. runs malloc (nxt i) (spec rest) \<and> run cbb d = nxt i c d" if "?put cbb d = (True, c)" for cbb d c
        using step [OF that] inn(2) nxt [of x rest] Some p by blast
      from runs_then [where put = ?put, OF put_element_writes [OF st inn(1) y] this stop] Some p y
      show ?thesis by simp
    qed
  qed
qed

text \<open>What the conversion does to the contents of one element.\<close>

definition convert_inner ::
  "libc_malloc \<Rightarrow> asn1_element \<Rightarrow> CBS \<Rightarrow> CBS \<Rightarrow> CBS_ASN1_TAG \<Rightarrow> u32 \<Rightarrow> CBB \<Rightarrow> nat \<Rightarrow> bool \<times> CBS \<times> CBB" where
  "convert_inner malloc el contents inp1 ct depth c dc =
     (if el_indefinite el then cbs_convert_ber malloc inp1 c dc ct True (depth + 1)
      else if el_tag el AND CBS_ASN1_CONSTRUCTED \<noteq> 0 then
        (case cbs_convert_ber malloc contents c dc ct False (depth + 1) of (ok, _, c) \<Rightarrow> (ok, inp1, c))
      else (case CBB_add_bytes malloc c dc (CBS_data contents) (CBS_len contents) of (ok, c) \<Rightarrow> (ok, inp1, c)))"

lemma cbs_get_eoc_spec:
  assumes "cbs_wf cbs"
  shows "if take 2 (cbs_bytes cbs) = [0, 0]
    then \<exists>c. cbs_get_eoc cbs = (True, c) \<and> cbs_wf c \<and> cbs_bytes c = drop 2 (cbs_bytes cbs)
    else cbs_get_eoc cbs = (False, cbs)"
proof (cases "CBS_len cbs \<ge> 2")
  case True
  then have l: "2 \<le> length (cbs_bytes cbs)" using assms by (simp add: word_le_nat_alt)
  have n: "CBS_data cbs ! 0 = cbs_bytes cbs ! 0" "CBS_data cbs ! 1 = cbs_bytes cbs ! 1"
    using l assms by (simp_all add: cbs_bytes_def)
  obtain a b r where abr: "cbs_bytes cbs = a # b # r"
    using l by (cases "cbs_bytes cbs" rule: list.exhaust [case_product list.exhaust]) (auto simp: Suc_le_length_iff numeral_2_eq_2)
  show ?thesis
    using CBS_skip_spec [OF assms, of 2] True n abr
    by (cases "CBS_skip cbs 2") (auto simp: cbs_get_eoc_def)
next
  case False
  then have "length (cbs_bytes cbs) < 2" using assms by (simp add: word_le_nat_alt)
  then have "take 2 (cbs_bytes cbs) \<noteq> [0, 0]" by (auto dest: arg_cong [where f = length])
  with False show ?thesis by (simp add: cbs_get_eoc_def)
qed

lemma cbs_convert_ber_element:
  assumes wf: "cbs_wf inp" and d: "unat depth \<le> 128" and ne: "cbs_bytes inp \<noteq> []"
    and eoc: "\<not> (eoc \<and> take 2 (cbs_bytes inp) = [0, 0])"
    and el: "CBS_get_any_ber_asn1_element inp = (Some el, inp1)"
    and sk: "CBS_skip (el_out el) (el_header_len el) = (True, contents)"
  shows "cbs_convert_ber malloc inp cbb dd st eoc depth =
    (case convert_open malloc cbb dd st (el_tag el) of
         (False, c, _) \<Rightarrow> (False, inp1, c)
       | (True, c, dc, _) \<Rightarrow>
           (case convert_inner malloc el contents inp1 (inner_mode st (el_tag el)) depth c dc of
              (False, i, c) \<Rightarrow> (False, i, c)
            | (True, i, c) \<Rightarrow>
                (case CBB_flush malloc c dd of (False, c) \<Rightarrow> (False, i, c)
                 | (True, c) \<Rightarrow> cbs_convert_ber malloc i c dd st eoc depth)))"
proof -
  have "CBS_len inp \<noteq> 0" using ne cbs_bytes_Nil_iff [OF wf] by simp
  moreover have "(if eoc then cbs_get_eoc inp else (False, inp)) = (False, inp)"
    using eoc cbs_get_eoc_spec [OF wf] by (auto split: if_splits)
  moreover have "\<not> depth > kMaxDepth" using d depth_le by blast
  ultimately have run: "cbs_convert_ber malloc inp cbb dd st eoc depth =
     (case convert_open malloc cbb dd st (el_tag el) of
        (False, cbb1, _, _) \<Rightarrow> (False, inp1, cbb1)
      | (True, cbb1, dc, ct) \<Rightarrow>
     (if el_indefinite el then
        (case cbs_convert_ber malloc inp1 cbb1 dc ct True (depth + 1) of
           (False, inp2, cbb2) \<Rightarrow> (False, inp2, cbb2)
         | (True, inp2, cbb2) \<Rightarrow>
             (case CBB_flush malloc cbb2 dd of
                (False, cbb3) \<Rightarrow> (False, inp2, cbb3)
              | (True, cbb3) \<Rightarrow> cbs_convert_ber malloc inp2 cbb3 dd st eoc depth))
      else
      (case
         (if el_tag el AND CBS_ASN1_CONSTRUCTED \<noteq> 0 then
            (case cbs_convert_ber malloc contents cbb1 dc ct False (depth + 1) of (ok, _, cbb2) \<Rightarrow> (ok, cbb2))
          else CBB_add_bytes malloc cbb1 dc (CBS_data contents) (CBS_len contents)) of
         (False, cbb2) \<Rightarrow> (False, inp1, cbb2)
       | (True, cbb2) \<Rightarrow>
      (case CBB_flush malloc cbb2 dd of
         (False, cbb3) \<Rightarrow> (False, inp1, cbb3)
       | (True, cbb3) \<Rightarrow> cbs_convert_ber malloc inp1 cbb3 dd st eoc depth))))"
    using el sk by (subst cbs_convert_ber.simps) (simp only: prod.case option.case bool.case if_False)
  obtain ok c dc ct where o: "convert_open malloc cbb dd st (el_tag el) = (ok, c, dc, ct)" by (metis prod_cases4)
  then have "ct = inner_mode st (el_tag el)"
    by (auto simp: convert_open_def inner_mode_def out_tag_def merges_def Let_def split: if_splits prod.splits)
  then show ?thesis
    unfolding run o prod.case
    by (cases ok; cases "el_indefinite el"; cases "el_tag el AND CBS_ASN1_CONSTRUCTED = 0")
      (simp_all add: convert_inner_def split: prod.splits)
qed

lemma ber_spec_Some:
  assumes "ber_spec st eoc n bs = Some (x, r)" "bs \<noteq> []" "\<not> (eoc \<and> take 2 bs = [0, 0])"
  obtains rest z where "length rest < length bs" "ber_spec st eoc n rest = Some (z, r)"
  using assms(1) unfolding ber_spec.simps [of st eoc n bs]
  by (simp only: assms(2,3) if_False split: option.splits prod.splits if_splits) auto

lemma ber_spec_le: "ber_spec st eoc n bs = Some (x, r) \<Longrightarrow> length r \<le> length bs"
proof (induction "length bs" arbitrary: bs x rule: less_induct)
  case less
  show ?case
  proof (cases "bs = [] \<or> eoc \<and> take 2 bs = [0, 0]")
    case True
    with less.prems show ?thesis by (auto simp: ber_spec.simps [of st eoc n bs] split: if_splits)
  next
    case False
    then show ?thesis using ber_spec_Some [OF less.prems] less.hyps by (metis less_imp_le order.trans)
  qed
qed

lemma runs_rest:
  assumes "runs malloc run r" "cbs_wf i"
  shows "runs malloc (\<lambda>cbb d. case run cbb d of (ok, _, c) \<Rightarrow> (ok, i, c)) (map_option (apsnd (\<lambda>_. cbs_bytes i)) r)"
proof -
  have e: "run_cbb (\<lambda>cbb d. case run cbb d of (ok, _, c) \<Rightarrow> (ok, i, c)) = run_cbb run"
    by (auto simp: run_cbb_def fun_eq_iff split: prod.splits)
  show ?thesis
    using assms by (cases r) (fastforce simp: runs_def e split: prod.splits)+
qed

lemma CBB_add_bytes_view:
  assumes "cbs_wf cbs"
  shows "appends malloc (\<lambda>cbb d. CBB_add_bytes malloc cbb d (CBS_data cbs) (CBS_len cbs)) (cbs_bytes cbs)"
proof -
  have "length (cbs_bytes cbs) = unat (CBS_len cbs)" using assms by simp
  note w = cbb_writer_appends [OF cbb_writer_add_bytes [OF this]]
  show ?thesis
    by (rule appends_cong [OF w]) (simp_all only: CBB_add_bytes_def cbs_bytes_def take_take min.idem)
qed

lemma runs_inner:
  assumes wf: "cbs_wf inp1" "cbs_wf contents" and d: "unat depth \<le> 128"
    and IH1: "el_indefinite el \<Longrightarrow> unat depth < 128 \<Longrightarrow> runs malloc (\<lambda>cbb d. cbs_convert_ber malloc inp1 cbb d ct True (depth + 1))
      (ber_spec ct True (128 - Suc (unat depth)) (cbs_bytes inp1))"
    and IH2: "unat depth < 128 \<Longrightarrow> runs malloc (\<lambda>cbb d. cbs_convert_ber malloc contents cbb d ct False (depth + 1))
      (ber_spec ct False (128 - Suc (unat depth)) (cbs_bytes contents))"
  shows "runs malloc (convert_inner malloc el contents inp1 ct depth)
    (if el_indefinite el then
       (if 128 - unat depth = 0 then None else ber_spec ct True (128 - unat depth - 1) (cbs_bytes inp1))
     else if el_tag el AND CBS_ASN1_CONSTRUCTED \<noteq> 0 then
       (if 128 - unat depth = 0 then None
        else map_option (apsnd (\<lambda>_. cbs_bytes inp1)) (ber_spec ct False (128 - unat depth - 1) (cbs_bytes contents)))
     else Some (cbs_bytes contents, cbs_bytes inp1))"
proof -
  have deep: "fst (cbs_convert_ber malloc i c dc t e (depth + 1)) = False" if "\<not> unat depth < 128" for i c dc t e
    using that depth_le [of "depth + 1"] depth_Suc [OF d] by (subst cbs_convert_ber.simps) auto
  consider "el_indefinite el" | "\<not> el_indefinite el" "el_tag el AND CBS_ASN1_CONSTRUCTED \<noteq> 0"
    | "\<not> el_indefinite el" "el_tag el AND CBS_ASN1_CONSTRUCTED = 0" by blast
  then show ?thesis
  proof cases
    case 1
    then have "convert_inner malloc el contents inp1 ct depth = (\<lambda>cbb d. cbs_convert_ber malloc inp1 cbb d ct True (depth + 1))"
      by (auto simp: convert_inner_def fun_eq_iff)
    with 1 IH1 deep show ?thesis by (cases "unat depth < 128") (simp_all add: runs_def)
  next
    case 2
    then have e: "convert_inner malloc el contents inp1 ct depth =
      (\<lambda>cbb d. case cbs_convert_ber malloc contents cbb d ct False (depth + 1) of (ok, _, c) \<Rightarrow> (ok, inp1, c))"
      by (auto simp: convert_inner_def fun_eq_iff)
    have "\<not> fst (case cbs_convert_ber malloc contents cbb dd ct False (depth + 1) of (ok, _, c) \<Rightarrow> (ok, inp1, c))"
      if "\<not> unat depth < 128" for cbb dd using deep [OF that] by (auto split: prod.splits) (metis fst_conv)
    with 2 runs_rest [OF IH2 wf(1)] show ?thesis unfolding e by (cases "unat depth < 128") (simp_all add: runs_def [of _ _ None])
  next
    case 3
    have "run_cbb (convert_inner malloc el contents inp1 ct depth) =
        (\<lambda>cbb d. CBB_add_bytes malloc cbb d (CBS_data contents) (CBS_len contents))"
      using 3 by (auto simp: run_cbb_def convert_inner_def fun_eq_iff split: prod.splits)
    with 3 CBB_add_bytes_view [OF wf(2)] wf(1) show ?thesis
      by (auto simp: runs_def convert_inner_def split: prod.splits)
  qed
qed

lemma ber_spec_element:
  assumes "bs \<noteq> []" "\<not> (eoc \<and> take 2 bs = [0, 0])" "st = 0 \<or> tag AND NOT CBS_ASN1_CONSTRUCTED = st"
    and el: "element_spec True bs = Some ((tag, header, body, ber, indef), rest)"
  shows "ber_spec st eoc n bs =
    (case (if indef then (if n = 0 then None else ber_spec (inner_mode st tag) True (n - 1) rest)
           else if tag AND CBS_ASN1_CONSTRUCTED \<noteq> 0 then
             (if n = 0 then None else map_option (apsnd (\<lambda>_. rest)) (ber_spec (inner_mode st tag) False (n - 1) body))
           else Some (body, rest)) of
       None \<Rightarrow> None
     | Some (x, rest') \<Rightarrow> (case wrap st tag x of None \<Rightarrow> None
         | Some y \<Rightarrow> map_option (apfst ((@) y)) (ber_spec st eoc n rest')))" (is "_ = (case ?in of None \<Rightarrow> None | Some p \<Rightarrow> ?f p)")
proof -
  have g: "length rest' < length bs" if "?in = Some (x, rest')" for x rest'
    using that element_spec_shorter(1) [OF el] ber_spec_le [of "inner_mode st tag" True "n - 1" rest x rest']
    by (auto split: if_splits)
  have c: "(bs = []) = False" "(eoc \<and> take 2 bs = [0, 0]) = False"
      "(st \<noteq> 0 \<and> tag AND NOT CBS_ASN1_CONSTRUCTED \<noteq> st) = False" using assms(1-3) by auto
  have eq: "ber_spec st eoc n bs = (case ?in of None \<Rightarrow> None | Some (x, rest') \<Rightarrow> (case wrap st tag x of None \<Rightarrow> None
         | Some y \<Rightarrow> if length rest' < length bs then map_option (apfst ((@) y)) (ber_spec st eoc n rest') else None))"
    unfolding ber_spec.simps [of st eoc n bs] el option.case prod.case c if_False ..
  show ?thesis
  proof (cases ?in)
    case None
    with eq show ?thesis by simp
  next
    case (Some p)
    then have "length (snd p) < length bs" using g [of "fst p" "snd p"] by simp
    with Some eq show ?thesis by (simp add: case_prod_beta split: option.splits)
  qed
qed

lemma cbs_convert_ber_runs:
  "cbs_wf inp \<Longrightarrow> unat depth \<le> 128 \<Longrightarrow>
   runs malloc (\<lambda>cbb d. cbs_convert_ber malloc inp cbb d st eoc depth)
     (ber_spec st eoc (128 - unat depth) (cbs_bytes inp))"
proof (induction "length (cbs_bytes inp)" arbitrary: inp st eoc depth rule: less_induct)
  case less
  note wf = less.prems(1) and d = less.prems(2)
  let ?bs = "cbs_bytes inp" and ?n = "128 - unat depth"
  have nd: "\<not> depth > kMaxDepth" using d depth_le by blast
  note run = cbs_convert_ber.simps [of malloc inp _ _ st eoc depth]
  have nil: "run_cbb (\<lambda>cbb d. (True, i, cbb)) = (\<lambda>cbb d. (True, cbb))" for i by (simp add: run_cbb_def fun_eq_iff)
  consider "?bs = []" | "?bs \<noteq> []" "eoc" "take 2 ?bs = [0, 0]" | "?bs \<noteq> []" "\<not> (eoc \<and> take 2 ?bs = [0, 0])" by blast
  then show ?case
  proof cases
    case 1
    then have "(\<lambda>cbb d. cbs_convert_ber malloc inp cbb d st eoc depth) = (\<lambda>cbb d. (\<not> eoc, inp, cbb))"
      using nd cbs_bytes_Nil_iff [OF wf] by (simp add: run)
    with 1 wf show ?thesis
      by (auto simp: runs_def ber_spec.simps [of st eoc] nil appends_nil)
  next
    case 2
    from cbs_get_eoc_spec [OF wf] 2(3) obtain c where c: "cbs_get_eoc inp = (True, c)" "cbs_wf c" "cbs_bytes c = drop 2 ?bs" by auto
    then have "(\<lambda>cbb d. cbs_convert_ber malloc inp cbb d st eoc depth) = (\<lambda>cbb d. (True, c, cbb))"
      using nd cbs_bytes_Nil_iff [OF wf] 2 by (simp add: cbs_convert_ber.simps [of malloc inp _ _ st True depth])
    with 2 c show ?thesis
      by (auto simp: runs_def ber_spec.simps [of st True] nil appends_nil)
  next
    case 3
    have ne: "CBS_len inp \<noteq> 0" "(if eoc then cbs_get_eoc inp else (False, inp)) = (False, inp)"
      using 3 cbs_bytes_Nil_iff [OF wf] cbs_get_eoc_spec [OF wf] by (auto split: if_splits)
    show ?thesis
    proof (cases "element_spec True ?bs")
      case None
      from rd_element.get_rejects [OF wf None] obtain c where "CBS_get_any_ber_asn1_element inp = (None, c)"
        by (auto simp: CBS_get_any_ber_asn1_element_def)
      then have "\<not> fst (cbs_convert_ber malloc inp cbb dd st eoc depth)" for cbb dd
        using ne nd by (simp add: run)
      moreover have "ber_spec st eoc ?n ?bs = None" using 3 None by (subst ber_spec.simps) auto
      ultimately show ?thesis by (simp add: runs_def)
    next
      case (Some p)
      then obtain el inp1 where el: "CBS_get_any_ber_asn1_element inp = (Some el, inp1)"
        using rd_element.get_accepts [OF wf, of True] by (metis CBS_get_any_ber_asn1_element_def surj_pair)
      from element_step [OF wf el] obtain header contents where
        e: "element_spec True ?bs = Some ((el_tag el, header, cbs_bytes contents, el_ber_found el, el_indefinite el), cbs_bytes inp1)"
          "cbs_wf inp1" "CBS_skip (el_out el) (el_header_len el) = (True, contents)" "cbs_wf contents" .
      show ?thesis
      proof (cases "st = 0 \<or> el_tag el AND NOT CBS_ASN1_CONSTRUCTED = st")
        case True
        note IH = less.hyps [of inp1] less.hyps [of contents]
        have r: "runs malloc (convert_inner malloc el contents inp1 (inner_mode st (el_tag el)) depth)
          (if el_indefinite el then (if ?n = 0 then None else ber_spec (inner_mode st (el_tag el)) True (?n - 1) (cbs_bytes inp1))
           else if el_tag el AND CBS_ASN1_CONSTRUCTED \<noteq> 0 then (if ?n = 0 then None
             else map_option (apsnd (\<lambda>_. cbs_bytes inp1)) (ber_spec (inner_mode st (el_tag el)) False (?n - 1) (cbs_bytes contents)))
           else Some (cbs_bytes contents, cbs_bytes inp1))" (is "runs _ _ ?r")
          using less.hyps [of inp1 "depth + 1" "inner_mode st (el_tag el)" True]
            less.hyps [of contents "depth + 1" "inner_mode st (el_tag el)" False]
            element_spec_shorter [OF e(1)] depth_Suc [OF d] e(2,4)
          by (intro runs_inner [OF e(2,4) d]) simp_all
        have l: "length rest < length ?bs" if "?r = Some (x, rest)" for x rest
          using that element_spec_shorter(1) [OF e(1)] ber_spec_le [of "inner_mode st (el_tag el)" True "?n - 1" "cbs_bytes inp1" x rest]
          by (auto split: if_splits)
        show ?thesis
          unfolding ber_spec_element [OF 3 True e(1)]
          by (rule runs_element [OF True r _ cbs_convert_ber_element [OF wf d 3 el e(3)]])
            (use l less.hyps d in blast)
      next
        case False
        then have "\<not> fst (cbs_convert_ber malloc inp cbb dd st eoc depth)" for cbb dd
          unfolding cbs_convert_ber_element [OF wf d 3 el e(3)] by (simp add: convert_open_def)
        moreover have "ber_spec st eoc ?n ?bs = None" using 3 False e(1) by (subst ber_spec.simps) auto
        ultimately show ?thesis by (simp add: runs_def)
      qed
    qed
  qed
qed

section \<open>The result is DER\<close>

lemmas string_tags = CBS_ASN1_OCTETSTRING_def CBS_ASN1_UTF8STRING_def CBS_ASN1_NUMERICSTRING_def
  CBS_ASN1_PRINTABLESTRING_def CBS_ASN1_T61STRING_def CBS_ASN1_VIDEOTEXSTRING_def CBS_ASN1_IA5STRING_def
  CBS_ASN1_GRAPHICSTRING_def CBS_ASN1_VISIBLESTRING_def CBS_ASN1_GENERALSTRING_def CBS_ASN1_UNIVERSALSTRING_def
  CBS_ASN1_BMPSTRING_def

lemma out_tag_facts:
  assumes "\<not> reserved_tag tag"
  shows "\<not> reserved_tag (out_tag tag)" "merges tag \<Longrightarrow> out_tag tag AND CBS_ASN1_CONSTRUCTED = 0"
    "merges tag \<Longrightarrow> out_tag tag \<noteq> 0" "\<not> merges tag \<Longrightarrow> out_tag tag = tag"
proof -
  have m: "tag AND NOT CBS_ASN1_CONSTRUCTED \<noteq> 0" "tag AND NOT CBS_ASN1_CONSTRUCTED \<noteq> CBS_ASN1_CONSTRUCTED" if "merges tag"
    using that unfolding merges_def is_string_type_def string_tags CBS_ASN1_CONSTRUCTED_def CBS_ASN1_TAG_SHIFT_def by auto
  then show "\<not> reserved_tag (out_tag tag)" "merges tag \<Longrightarrow> out_tag tag \<noteq> 0"
    using assms by (auto simp: reserved_tag_def out_tag_def)
  show "merges tag \<Longrightarrow> out_tag tag AND CBS_ASN1_CONSTRUCTED = 0" "\<not> merges tag \<Longrightarrow> out_tag tag = tag"
    by (simp_all add: out_tag_def and.assoc)
qed

lemma element_spec_facts:
  assumes "element_spec ber_ok bs = Some ((tag, header, body, ber, indef), rest)"
  shows "\<not> reserved_tag tag" "indef \<Longrightarrow> tag AND CBS_ASN1_CONSTRUCTED \<noteq> 0"
  using assms
  by (auto simp: element_spec_def len_spec_def Let_def tag_spec_iff
      split: option.splits prod.splits asn1_len.splits list.splits if_splits)

lemma der_nested_element:
  assumes tag: "\<not> reserved_tag tag" and len: "length x < 4294967295" and ys: "der_nested n ys"
    and x: "tag AND CBS_ASN1_CONSTRUCTED \<noteq> 0 \<Longrightarrow> \<not> merges tag \<Longrightarrow> n \<noteq> 0 \<and> der_nested (n - 1) x"
  shows "der_nested n (der (out_tag tag) x @ ys)"
proof (cases "tag AND CBS_ASN1_CONSTRUCTED \<noteq> 0 \<and> \<not> merges tag")
  case True
  with x obtain m where m: "n = Suc m" "der_nested m x" by (cases n) auto
  have "\<not> is_string_type tag" using True by (auto simp: merges_def)
  with True m tag len ys show ?thesis by (simp add: out_tag_facts(4) der_nested_cons)
next
  case False
  then have "out_tag tag AND CBS_ASN1_CONSTRUCTED = 0"
    using out_tag_facts(2,4) [OF tag] by (cases "merges tag") auto
  with out_tag_facts(1) [OF tag] len ys show ?thesis by (simp add: der_nested_prim)
qed

lemma wrapped_Some:
  "(case i of None \<Rightarrow> None | Some (x, rest) \<Rightarrow> (case w x of None \<Rightarrow> None
      | Some y \<Rightarrow> map_option (apfst ((@) y)) (f rest))) = Some (ys, r) \<Longrightarrow>
   \<exists>x rest y zs. i = Some (x, rest) \<and> w x = Some y \<and> f rest = Some (zs, r) \<and> ys = y @ zs"
  by (auto split: option.splits prod.splits)

lemma ber_spec_der: "ber_spec 0 eoc n bs = Some (ys, r) \<Longrightarrow> der_nested n ys"
proof (induction "length bs" arbitrary: bs eoc n ys r rule: less_induct)
  case less
  show ?case
  proof (cases "bs = [] \<or> eoc \<and> take 2 bs = [0, 0]")
    case True
    with less.prems show ?thesis by (auto simp: ber_spec.simps [of 0 eoc n bs] der_nested_Nil split: if_splits)
  next
    case False
    with less.prems obtain tag header body ber indef rest where
      el: "element_spec True bs = Some ((tag, header, body, ber, indef), rest)"
      by (subst (asm) ber_spec.simps) (auto split: option.splits)
    let ?in = "if indef then (if n = 0 then None else ber_spec (inner_mode 0 tag) True (n - 1) rest)
           else if tag AND CBS_ASN1_CONSTRUCTED \<noteq> 0 then
             (if n = 0 then None else map_option (apsnd (\<lambda>_. rest)) (ber_spec (inner_mode 0 tag) False (n - 1) body))
           else Some (body, rest)"
    have "(case ?in of None \<Rightarrow> None | Some (x, rest') \<Rightarrow> (case wrap 0 tag x of None \<Rightarrow> None
         | Some y \<Rightarrow> map_option (apfst ((@) y)) (ber_spec 0 eoc n rest'))) = Some (ys, r)"
      using ber_spec_element [OF _ _ _ el, of eoc 0 n] False less.prems by simp
    from wrapped_Some [OF this] obtain x rest' y zs where
      i: "?in = Some (x, rest')" "wrap 0 tag x = Some y" "ber_spec 0 eoc n rest' = Some (zs, r)" "ys = y @ zs"
      by blast
    note short = element_spec_shorter [OF el]
    have "length rest' < length bs"
      using i(1) short(1) ber_spec_le [of "inner_mode 0 tag" True "n - 1" rest x rest'] by (auto split: if_splits)
    from less.hyps [OF this i(3)] have zs: "der_nested n zs" .
    have "n \<noteq> 0 \<and> der_nested (n - 1) x" if "tag AND CBS_ASN1_CONSTRUCTED \<noteq> 0" "\<not> merges tag"
    proof -
      have "inner_mode 0 tag = 0" using that by (simp add: inner_mode_def)
      with i(1) that(1) less.hyps [OF short(1)] less.hyps [OF short(2)] show ?thesis
        by (auto split: if_splits)
    qed
    with i(2,4) zs element_spec_facts(1) [OF el] show ?thesis
      by (auto simp: wrap_def intro: der_nested_element split: if_splits)
  qed
qed

text \<open>DER stands for itself.\<close>

lemma ber_spec_of_der: "der_nested n bs \<Longrightarrow> length bs < 4294967295 \<Longrightarrow> ber_spec 0 False n bs = Some (bs, [])"
proof (induction n bs rule: der_nested.induct)
  case (der_nested_Nil n)
  then show ?case by (simp add: ber_spec.simps)
next
  case (der_nested_prim tag body n rest)
  then have "length body < 4294967295" by (simp add: der_def)
  moreover have "\<not> merges tag" using der_nested_prim.hyps by (simp add: merges_def)
  ultimately show ?case
    using der_nested_prim ber_spec_element [OF _ _ _ element_spec_der [OF der_nested_prim.hyps(1,2)], of rest False 0 n]
    by (simp add: wrap_def out_tag_def)
next
  case (der_nested_cons tag body n rest)
  then have "length body < 4294967295" "\<not> merges tag" by (simp_all add: der_def merges_def)
  then show ?case
    using der_nested_cons ber_spec_element [OF _ _ _ element_spec_der [OF der_nested_cons.hyps(1,2)], of rest False 0 "Suc n"]
    by (simp add: wrap_def out_tag_def inner_mode_def)
qed

section \<open>One element\<close>

text \<open>
  The byte string is a single BER element, whose contents can be converted within \<open>n\<close> levels: nothing
  follows it, and if its length is indefinite, its end-of-contents marker is the end of the string.
\<close>

definition ber_element :: "nat \<Rightarrow> u8 list \<Rightarrow> bool" where
  "ber_element n bs =
     (case element_spec True bs of
        None \<Rightarrow> False
      | Some ((tag, header, body, ber, indef), rest) \<Rightarrow>
          if indef then
            (case ber_spec (inner_mode 0 tag) True (n - 1) rest of
               None \<Rightarrow> False
             | Some (x, rest') \<Rightarrow> n \<noteq> 0 \<and> rest' = [])
          else rest = [])"

lemma ber_element_converted:
  assumes "ber_element n bs" "ber_spec 0 False n bs = Some (out, rest)"
  shows "rest = [] \<and> (\<exists>tag body. \<not> reserved_tag tag \<and> length body < 4294967295 \<and> out = der tag body)"
proof -
  from assms(1) obtain tag header body ber indef rest1 where
    el: "element_spec True bs = Some ((tag, header, body, ber, indef), rest1)"
    by (auto simp: ber_element_def split: option.splits)
  have one: "if indef then n \<noteq> 0 \<and> (\<exists>x. ber_spec (inner_mode 0 tag) True (n - 1) rest1 = Some (x, [])) else rest1 = []"
    using assms(1) el by (auto simp: ber_element_def split: option.splits if_splits)
  have c: "bs \<noteq> []" "\<not> (False \<and> take 2 bs = [0, 0])" "(0 :: CBS_ASN1_TAG) = 0 \<or> tag AND NOT CBS_ASN1_CONSTRUCTED = 0"
    using element_spec_shorter(1) [OF el] by auto
  from wrapped_Some [OF trans [OF ber_spec_element [OF c el, symmetric] assms(2)]] obtain x r y zs where s: "(if indef then (if n = 0 then None else ber_spec (inner_mode 0 tag) True (n - 1) rest1)
      else if tag AND CBS_ASN1_CONSTRUCTED \<noteq> 0
      then (if n = 0 then None else map_option (apsnd (\<lambda>_. rest1)) (ber_spec (inner_mode 0 tag) False (n - 1) body))
      else Some (body, rest1)) = Some (x, r)" "wrap 0 tag x = Some y" "ber_spec 0 False n r = Some (zs, rest)" "out = y @ zs"
    by blast
  have "r = []" using s(1) one by (auto split: if_splits)
  then have "zs = []" "rest = []" using s(3) by (simp_all add: ber_spec.simps [of 0 False n "[]"])
  moreover have "\<not> reserved_tag (out_tag tag)" using out_tag_facts(1) element_spec_facts(1) [OF el] by blast
  ultimately show ?thesis using s(2,4) by (auto simp: wrap_def split: if_splits)
qed

section \<open>The entry points\<close>

lemma CBB_finish_view:
  assumes "cbb_wf cbb" "\<not> error (base cbb)" "children cbb = []" "CBB_finish malloc cbb 0 = (Some (p, len), cbb')"
  shows "cbs_wf (CBS_init (case p of None \<Rightarrow> [] | Some p \<Rightarrow> p) len)"
    "cbs_bytes (CBS_init (case p of None \<Rightarrow> [] | Some p \<Rightarrow> p) len) = bytes (base cbb)"
proof -
  have "p = buf (base cbb)" "len = blen (base cbb)"
    using assms by (auto simp: CBB_finish_def CBB_flush_def)
  then show "cbs_wf (CBS_init (case p of None \<Rightarrow> [] | Some p \<Rightarrow> p) len)"
    "cbs_bytes (CBS_init (case p of None \<Rightarrow> [] | Some p \<Rightarrow> p) len) = bytes (base cbb)"
    using assms(1) by (auto simp: cbs_wf_def cbs_bytes_def CBS_init_def cbb_wf_def buffer_wf_def buf_bytes_def bytes_def
        word_le_nat_alt split: option.splits)
qed

lemma der_nested_first:
  "der_nested n (der tag body @ rest) \<Longrightarrow> \<not> reserved_tag tag \<Longrightarrow> length body < 4294967296 \<Longrightarrow> der_nested n (der tag body)"
proof -
  assume d: "der_nested n (der tag body @ rest)" and t: "\<not> reserved_tag tag" "length body < 4294967296"
  show "der_nested n (der tag body)"
  proof (cases "tag AND CBS_ASN1_CONSTRUCTED = 0")
    case True
    from der_nested_prim [OF t True der_nested_Nil] show ?thesis by simp
  next
    case False
    with der_nested_head(2) [OF d t] obtain m where "\<not> is_string_type tag" "n = Suc m" "der_nested m body" by blast
    with der_nested_cons [OF t False _ _ der_nested_Nil] show ?thesis by simp
  qed
qed

lemma CBS_asn1_ber_to_der_unchanged:
  assumes wf: "cbs_wf inp" and d: "der_nested 128 (cbs_bytes inp)"
  shows "(\<exists>out inp'. CBS_asn1_ber_to_der malloc inp = (Some (out, None), inp') \<and> cbs_wf out \<and> cbs_bytes out = x \<and>
      cbs_bytes inp' = rest) \<longleftrightarrow>
    (\<exists>tag body. \<not> reserved_tag tag \<and> length body < 4294967296 \<and> x = der tag body \<and> cbs_bytes inp = x @ rest)"
proof -
  have "cbs_find_ber inp 0 = Some False" using cbs_find_ber_iff [OF wf, of 0] d by simp
  then have run: "CBS_asn1_ber_to_der malloc inp = (case CBS_get_any_asn1_element inp of
      (None, inp) \<Rightarrow> (None, inp) | (Some el, inp) \<Rightarrow> (Some (el_out el, None), inp))"
    by (simp add: CBS_asn1_ber_to_der_def)
  have el: "cbs_wf (el_out el) \<and> (\<exists>tag header body. element_view el = (tag, header, body, False, False) \<and>
       cbs_bytes (el_out el) = der tag body \<and> \<not> reserved_tag tag \<and> length body < 4294967296 \<and> cbs_bytes inp = der tag body @ cbs_bytes c)"
    if "CBS_get_any_asn1_element inp = (Some el, c)" for el c
  proof -
    note g = rd_element.get_Some [OF wf that [unfolded CBS_get_any_asn1_element_def]]
    obtain tag header body ber indef where v: "element_view el = (tag, header, body, ber, indef)" by (metis prod_cases5)
    with g(1) have s: "\<not> reserved_tag tag" "length body < 4294967296" "cbs_bytes inp = der tag body @ cbs_bytes c"
      "header = tag_bytes tag @ der_len (length body)" "\<not> ber" "\<not> indef"
      by (simp_all add: element_spec_der_iff)
    have "cbs_bytes (el_out el) = header @ body"
      using v by (auto simp: element_view_def Let_def)
    with s v g(2) show ?thesis by (simp add: der_def element_ok_def)
  qed
  show ?thesis
  proof
    assume "\<exists>out inp'. CBS_asn1_ber_to_der malloc inp = (Some (out, None), inp') \<and> cbs_wf out \<and> cbs_bytes out = x \<and> cbs_bytes inp' = rest"
    then show "\<exists>tag body. \<not> reserved_tag tag \<and> length body < 4294967296 \<and> x = der tag body \<and> cbs_bytes inp = x @ rest"
      unfolding run using el by (fastforce split: prod.splits option.splits)
  next
    assume "\<exists>tag body. \<not> reserved_tag tag \<and> length body < 4294967296 \<and> x = der tag body \<and> cbs_bytes inp = x @ rest"
    then obtain tag body where t: "\<not> reserved_tag tag" "length body < 4294967296" "x = der tag body" "cbs_bytes inp = der tag body @ rest"
      by blast
    from rd_element.get_accepts [OF wf, of False] element_spec_der [OF t(1,2), of False rest] t(4) obtain a c where
      g: "CBS_get_any_asn1_element inp = (Some a, c)" "cbs_bytes c = rest"
      by (metis CBS_get_any_asn1_element_def)
    from el [OF g(1)] t(1,2,4) g(2) der_prefix_free have "cbs_wf (el_out a)" "cbs_bytes (el_out a) = der tag body" by metis+
    with g t(3) show "\<exists>out inp'. CBS_asn1_ber_to_der malloc inp = (Some (out, None), inp') \<and> cbs_wf out \<and> cbs_bytes out = x \<and> cbs_bytes inp' = rest"
      unfolding run by simp
  qed
qed

lemma CBS_asn1_ber_to_der_converted:
  assumes m: "malloc_spec malloc" and wf: "cbs_wf inp" and nd: "\<not> der_nested 128 (cbs_bytes inp)"
    and r: "CBS_asn1_ber_to_der malloc inp = (Some (out, storage), inp')"
  shows "cbs_wf out \<and> ber_spec 0 False 128 (cbs_bytes inp) = Some (cbs_bytes out, cbs_bytes inp')"
proof -
  have "cbs_find_ber inp 0 \<noteq> Some False" using cbs_find_ber_iff [OF wf, of 0] nd by simp
  with r obtain cbb c p len c' where run: "CBB_init malloc (CBS_len inp) = Some cbb"
      "cbs_convert_ber malloc inp cbb 0 0 False 0 = (True, inp', c)" "CBB_finish malloc c 0 = (Some (p, len), c')"
      "out = CBS_init (case p of None \<Rightarrow> [] | Some p \<Rightarrow> p) len"
    unfolding CBS_asn1_ber_to_der_def by (auto split: option.splits if_splits prod.splits bool.splits)
  note i = CBB_init_facts [OF m run(1)]
  have rdy: "ready malloc cbb 0" using m i by (simp add: ready_def)
  note R = cbs_convert_ber_runs [OF wf, of 0 malloc 0 False, simplified]
  from R run(2) rdy obtain ys rest where s: "ber_spec 0 False 128 (cbs_bytes inp) = Some (ys, rest)"
    by (cases "ber_spec 0 False 128 (cbs_bytes inp)") (fastforce simp: runs_def)+
  have "cbs_bytes inp' = rest" using R s run(2) by (auto simp: runs_def)
  moreover have "appends malloc (run_cbb (\<lambda>cbb d. cbs_convert_ber malloc inp cbb d 0 False 0)) ys"
    using R s by (simp add: runs_def)
  then have "writes ys cbb 0 (run_cbb (\<lambda>cbb d. cbs_convert_ber malloc inp cbb d 0 False 0) cbb 0)"
    using rdy unfolding appends_def ready_def by blast
  then have "writes ys cbb 0 (True, c)" by (simp add: run_cbb_def run(2))
  then have "cbb_wf c" "\<not> error (base c)" "children c = []" "bytes (base c) = ys"
    using i by (auto simp: writes_def)
  ultimately show ?thesis
    using CBB_finish_view [OF _ _ _ run(3)] s run(4) by simp
qed

lemma CBS_asn1_ber_to_der_in_place:
  assumes wf: "cbs_wf inp" and d: "der_nested 128 (cbs_bytes inp)"
    and r: "CBS_asn1_ber_to_der malloc inp = (Some (out, storage), inp')"
  shows "storage = None \<and> (\<exists>tag body. \<not> reserved_tag tag \<and> length body < 4294967296 \<and> cbs_bytes out = der tag body \<and>
    cbs_bytes inp = cbs_bytes out @ cbs_bytes inp')"
proof -
  have "cbs_find_ber inp 0 = Some False" using cbs_find_ber_iff [OF wf, of 0] d by simp
  with r obtain el where el: "CBS_get_any_asn1_element inp = (Some el, inp')" "out = el_out el" "storage = None"
    by (auto simp: CBS_asn1_ber_to_der_def split: prod.splits option.splits)
  obtain tag header body ber indef where v: "element_view el = (tag, header, body, ber, indef)" by (metis prod_cases5)
  from rd_element.get_Some(1) [OF wf el(1) [unfolded CBS_get_any_asn1_element_def]] v
  have "\<not> reserved_tag tag" "length body < 4294967296" "cbs_bytes inp = der tag body @ cbs_bytes inp'" "header @ body = der tag body"
    by (simp_all add: element_spec_der_iff der_def)
  moreover have "cbs_bytes out = header @ body" using v el(2) by (auto simp: element_view_def Let_def)
  ultimately show ?thesis using el(3) by auto
qed

text \<open>The chunks of an implicitly tagged constructed string are put together.\<close>

lemma implicit_string_loop_chunks:
  "ready malloc cbb 0 \<Longrightarrow> cbs_wf child \<Longrightarrow> implicit_string_loop malloc child cbb inner_tag = (True, c) \<Longrightarrow>
   \<exists>chunks. cbs_bytes child = concat (map (der inner_tag) chunks) \<and> bytes (base c) = bytes (base cbb) @ concat chunks \<and>
     ready malloc c 0"
proof (induction malloc child cbb inner_tag rule: implicit_string_loop.induct)
  case (1 malloc child cbb inner_tag)
  note loop = implicit_string_loop.simps [of malloc child cbb inner_tag]
  show ?case
  proof (cases "CBS_len child = 0")
    case True
    with 1 cbs_bytes_Nil_iff [of child] show ?thesis by (intro exI [of _ "[]"]) (simp add: loop)
  next
    case False
    with "1.prems"(3) obtain chunk child' cbb' where
      g: "CBS_get_asn1 child inner_tag = (Some chunk, child')"
        "CBB_add_bytes malloc cbb 0 (CBS_data chunk) (CBS_len chunk) = (True, cbb')"
        "implicit_string_loop malloc child' cbb' inner_tag = (True, c)"
      unfolding loop by (auto split: option.splits prod.splits bool.splits)
    note s = rd_asn1.get_Some [OF "1.prems"(2) g(1)]
    have "writes (cbs_bytes chunk) cbb 0 (True, cbb')"
      using CBB_add_bytes_view [OF s(2), of malloc] "1.prems"(1) g(2) by (auto simp: appends_def ready_def)
    then have w: "ready malloc cbb' 0" "bytes (base cbb') = bytes (base cbb) @ cbs_bytes chunk"
      using "1.prems"(1) by (auto simp: writes_def ready_def cbb_wf_def)
    from "1.IH" [OF False g(1) [symmetric] refl g(2) [symmetric] refl w(1) s(3) g(3)] obtain chunks where
      "cbs_bytes child' = concat (map (der inner_tag) chunks)" "bytes (base c) = bytes (base cbb') @ concat chunks"
      "ready malloc c 0" by blast
    with s(1) w(2) show ?thesis
      by (intro exI [of _ "cbs_bytes chunk # chunks"]) (simp add: asn1_spec_iff)
  qed
qed

lemma CBS_get_asn1_implicit_string_result:
  assumes m: "malloc_spec malloc" and wf: "cbs_wf inp"
    and r: "CBS_get_asn1_implicit_string malloc inp outer_tag inner_tag = (Some (out, storage), inp')"
  shows "cbs_wf out \<and> cbs_wf inp' \<and>
    (storage = None \<and> cbs_bytes inp = der outer_tag (cbs_bytes out) @ cbs_bytes inp' \<or>
     (\<exists>chunks. cbs_bytes out = concat chunks \<and> cbs_bytes inp =
        der (outer_tag OR CBS_ASN1_CONSTRUCTED) (concat (map (der inner_tag) chunks)) @ cbs_bytes inp'))"
proof (cases "CBS_peek_asn1_tag inp outer_tag")
  case True
  with r have "CBS_get_asn1 inp outer_tag = (Some out, inp')" "storage = None"
    unfolding CBS_get_asn1_implicit_string_def by (auto split: option.splits prod.splits)
  with rd_asn1.get_Some [OF wf, of outer_tag out inp'] show ?thesis by (simp add: asn1_spec_iff)
next
  case False
  with r obtain cbb child c p len c' where run: "CBB_init malloc (CBS_len inp) = Some cbb"
      "CBS_get_asn1 inp (outer_tag OR CBS_ASN1_CONSTRUCTED) = (Some child, inp')"
      "implicit_string_loop malloc child cbb inner_tag = (True, c)" "CBB_finish malloc c 0 = (Some (p, len), c')"
      "out = CBS_init (case p of None \<Rightarrow> [] | Some p \<Rightarrow> p) len"
    unfolding CBS_get_asn1_implicit_string_def by (auto split: option.splits if_splits prod.splits bool.splits)
  note i = CBB_init_facts [OF m run(1)]
  have rdy: "ready malloc cbb 0" using m i by (simp add: ready_def)
  note s = rd_asn1.get_Some [OF wf run(2)]
  from implicit_string_loop_chunks [OF rdy s(2) run(3)] i(4) obtain chunks where
    ch: "cbs_bytes child = concat (map (der inner_tag) chunks)" "bytes (base c) = concat chunks" "ready malloc c 0"
    by auto
  show ?thesis
    using CBB_finish_view [OF _ _ _ run(4)] ch s(1,3) run(5) by (auto simp: ready_def asn1_spec_iff)
qed

end
