(* ===== verification/Cbb_Steps.thy ===== *)
theory Cbb_Steps
  imports Unicode
begin

text \<open>
  The builder as a state machine: the steps are the calls of cbb.c and unicode.c on a builder that is
  in use, whatever they return, and every state that they reach satisfies the invariant \<open>cbb_wf\<close>.
  Also the room that a call needs in order not to depend on the allocator.
\<close>

section \<open>Calls that keep the invariant\<close>

text \<open>
  Also on a builder in the error state. A call that succeeds leaves the builder it was made on in
  the chain.
\<close>

definition keeps_wf :: "(CBB \<Rightarrow> nat \<Rightarrow> bool \<times> CBB) \<Rightarrow> bool" where
  "keeps_wf f \<longleftrightarrow> (\<forall>cbb d. cbb_wf cbb \<longrightarrow> d \<le> length (children cbb) \<longrightarrow>
     cbb_wf (snd (f cbb d)) \<and> (fst (f cbb d) \<longrightarrow> d \<le> length (children (snd (f cbb d)))))"

lemma keeps_wfD: "keeps_wf f \<Longrightarrow> cbb_wf cbb \<Longrightarrow> d \<le> length (children cbb) \<Longrightarrow> cbb_wf (snd (f cbb d))"
  by (simp add: keeps_wf_def)

lemma CBB_flush_error [simp]: "error (base cbb) \<Longrightarrow> CBB_flush malloc cbb d = (False, cbb)"
  by (simp add: CBB_flush_def)

lemma CBB_add_space_error [simp]: "error (base cbb) \<Longrightarrow> CBB_add_space malloc cbb d n = (None, cbb)"
  by (simp add: CBB_add_space_def)

lemma cbb_add_u_error [simp]: "error (base cbb) \<Longrightarrow> cbb_add_u malloc cbb d v n = (False, cbb)"
  by (simp add: cbb_add_u_def)

lemma cbb_wf_on_error [simp]: "cbb_wf cbb \<Longrightarrow> cbb_wf (cbb_on_error cbb d)"
  by (simp add: cbb_on_error_def cbb_wf_def)

lemma cbb_wf_write:
  assumes "cbb_wf cbb" "\<And>p. length (f p) = length p"
  shows "cbb_wf (cbb\<lparr>base := write_buf f (base cbb)\<rparr>)"
proof -
  have "length (buf_bytes (write_buf f (base cbb))) = length (buf_bytes (base cbb))"
    by (cases "buf (base cbb)") (simp_all add: write_buf_def buf_bytes_def assms(2))
  then have "buffer_wf (write_buf f (base cbb))" using assms(1) by (intro buffer_wf_write) (simp add: cbb_wf_def)
  then show ?thesis using assms(1) by (simp add: cbb_wf_def write_buf_def)
qed

lemma keeps_wf_writer:
  assumes "cbb_writer malloc f out" "malloc_spec malloc" "\<And>cbb d. cbb_wf cbb \<Longrightarrow> error (base cbb) \<Longrightarrow> cbb_wf (snd (f cbb d))"
  shows "keeps_wf f"
  unfolding keeps_wf_def
proof (intro allI impI)
  fix cbb d
  assume wf: "cbb_wf cbb" "d \<le> length (children cbb)"
  show "cbb_wf (snd (f cbb d)) \<and> (fst (f cbb d) \<longrightarrow> d \<le> length (children (snd (f cbb d))))"
  proof (cases "error (base cbb)")
    case True
    with wf assms(3) cbb_writer.opn_sticky [OF assms(1) True] show ?thesis by simp
  next
    case False
    from cbb_writer.opn_writes [OF assms(1,2) wf(1) False wf(2)] wf(2) show ?thesis by (auto simp: writes_def)
  qed
qed

lemma keeps_wf_seq:
  "keeps_wf f \<Longrightarrow> keeps_wf g \<Longrightarrow>
     keeps_wf (\<lambda>cbb d. case f cbb d of (False, cbb) \<Rightarrow> (False, cbb) | (True, cbb) \<Rightarrow> g cbb d)"
  unfolding keeps_wf_def by (fastforce split: prod.split bool.split)

lemma keeps_wf_fails: "keeps_wf (\<lambda>cbb d. (False, cbb))"
  by (simp add: keeps_wf_def)

lemma keeps_wf_if: "keeps_wf f \<Longrightarrow> keeps_wf g \<Longrightarrow> keeps_wf (\<lambda>cbb d. if b then f cbb d else g cbb d)"
  by (cases b) simp_all

text \<open>A call that starts a child of the builder.\<close>

definition starts_child :: "(CBB \<Rightarrow> nat \<Rightarrow> bool \<times> CBB) \<Rightarrow> bool" where
  "starts_child f \<longleftrightarrow> (\<forall>cbb d. cbb_wf cbb \<longrightarrow> d \<le> length (children cbb) \<longrightarrow>
     cbb_wf (snd (f cbb d)) \<and> (fst (f cbb d) \<longrightarrow> length (children (snd (f cbb d))) = Suc d))"

lemma starts_child_keeps: "starts_child f \<Longrightarrow> keeps_wf f"
  by (auto simp: starts_child_def keeps_wf_def)

lemma starts_child_begins:
  assumes "\<And>cbb d. cbb_wf cbb \<Longrightarrow> \<not> error (base cbb) \<Longrightarrow> d \<le> length (children cbb) \<Longrightarrow> begins hdr n asn1 cbb d (f cbb d)"
    and "\<And>cbb d. error (base cbb) \<Longrightarrow> f cbb d = (False, cbb)"
  shows "starts_child f"
  unfolding starts_child_def
proof (intro allI impI)
  fix cbb d
  assume wf: "cbb_wf cbb" "d \<le> length (children cbb)"
  show "cbb_wf (snd (f cbb d)) \<and> (fst (f cbb d) \<longrightarrow> length (children (snd (f cbb d))) = Suc d)"
  proof (cases "error (base cbb)")
    case True
    with wf assms(2) show ?thesis by simp
  next
    case False
    from assms(1) [OF wf(1) False wf(2)] wf(2) show ?thesis by (auto simp: begins_def)
  qed
qed

lemma begins_length_prefixed:
  assumes "malloc_spec malloc" "cbb_wf cbb" "\<not> error (base cbb)" "d \<le> length (children cbb)"
  shows "begins [] n False cbb d (cbb_add_length_prefixed malloc cbb d n)"
  unfolding cbb_add_length_prefixed_def
  by (rule begins_after [OF wr_flush.cbb_writer_axioms _ assms]) simp

text \<open>A child that is started, filled and flushed.\<close>

abbreviation element_call ::
  "libc_malloc \<Rightarrow> (CBB \<Rightarrow> nat \<Rightarrow> bool \<times> CBB) \<Rightarrow> (CBB \<Rightarrow> nat \<Rightarrow> bool \<times> CBB) \<Rightarrow> CBB \<Rightarrow> nat \<Rightarrow> bool \<times> CBB" where
  "element_call malloc f body cbb d \<equiv>
     (case f cbb d of
        (False, cbb) \<Rightarrow> (False, cbb_on_error cbb d)
      | (True, cbb) \<Rightarrow>
          (case body cbb (Suc d) of
             (False, cbb) \<Rightarrow> (False, cbb_on_error cbb d)
           | (True, cbb) \<Rightarrow>
               (case CBB_flush malloc cbb d of
                  (False, cbb) \<Rightarrow> (False, cbb_on_error cbb d)
                | (True, cbb) \<Rightarrow> (True, cbb))))"

lemma keeps_wf_flush: "malloc_spec malloc \<Longrightarrow> keeps_wf (CBB_flush malloc)"
  by (rule keeps_wf_writer [OF wr_flush.cbb_writer_axioms]) simp_all

lemma keeps_wf_element:
  assumes "starts_child f" "keeps_wf body" "malloc_spec malloc"
  shows "keeps_wf (element_call malloc f body)"
  unfolding keeps_wf_def
proof (intro allI impI)
  fix cbb d
  assume wf: "cbb_wf cbb" "d \<le> length (children cbb)"
  obtain ok1 c1 where c1: "f cbb d = (ok1, c1)" by fastforce
  have w1: "cbb_wf c1" "ok1 \<Longrightarrow> length (children c1) = Suc d" using assms(1) wf c1 by (fastforce simp: starts_child_def)+
  obtain ok2 c2 where c2: "body c1 (Suc d) = (ok2, c2)" by fastforce
  have w2: "cbb_wf c2" "ok2 \<Longrightarrow> Suc d \<le> length (children c2)" if ok1
    using assms(2) w1 c2 that by (fastforce simp: keeps_wf_def)+
  obtain ok3 c3 where c3: "CBB_flush malloc c2 d = (ok3, c3)" by fastforce
  have w3: "cbb_wf c3" "ok3 \<Longrightarrow> d \<le> length (children c3)" if ok1 ok2
    using keeps_wf_flush [OF assms(3)] w2 c3 that unfolding keeps_wf_def by (metis Suc_leD fst_conv snd_conv)+
  show "cbb_wf (snd (element_call malloc f body cbb d)) \<and>
      (fst (element_call malloc f body cbb d) \<longrightarrow> d \<le> length (children (snd (element_call malloc f body cbb d))))"
    using c1 c2 c3 w1 w2 w3 by (cases ok1; cases ok2; cases ok3) simp_all
qed

section \<open>The calls\<close>

lemma keeps_wf_add_u: "malloc_spec malloc \<Longrightarrow> keeps_wf (\<lambda>cbb d. cbb_add_u malloc cbb d v n)"
proof -
  assume m: "malloc_spec malloc"
  let ?put = "\<lambda>cbb d. case CBB_add_space malloc cbb d n of
       (None, cbb) \<Rightarrow> (False, cbb)
     | (Some out, cbb) \<Rightarrow> (True, cbb\<lparr>base := write_buf (\<lambda>p. fst (put_be p (unat out) (unat n) v)) (base cbb)\<rparr>)"
  have "cbb_writer malloc ?put (be_bytes (unat n) (unat v))"
    by (rule cbb_writer_fill [where f = "\<lambda>off p. fst (put_be p off (unat n) v)"]) (simp_all add: fst_put_be)
  then have put: "keeps_wf ?put" by (rule keeps_wf_writer [OF _ m]) simp
  have "keeps_wf (\<lambda>cbb d. if snd (put_be [] 0 (unat n) v) \<noteq> 0 then (False, cbb_on_error cbb d) else (True, cbb))"
    by (auto simp: keeps_wf_def)
  from keeps_wf_seq [OF put this] show ?thesis
    by (rule back_subst [where P = keeps_wf])
      (auto simp: fun_eq_iff cbb_add_u_def snd_put_be Let_def split: prod.split option.split)
qed

lemmas add_u_defs = CBB_add_u8_def CBB_add_u16_def CBB_add_u16le_def CBB_add_u24_def CBB_add_u32_def CBB_add_u32le_def
  CBB_add_u64_def CBB_add_u64le_def

lemma starts_child_prefixed: "malloc_spec malloc \<Longrightarrow> starts_child (\<lambda>cbb d. cbb_add_length_prefixed malloc cbb d n)"
  by (rule starts_child_begins [OF begins_length_prefixed]) (simp_all add: cbb_add_length_prefixed_def)

lemma starts_child_asn1: "malloc_spec malloc \<Longrightarrow> starts_child (\<lambda>cbb d. CBB_add_asn1 malloc cbb d tag)"
  by (rule starts_child_begins [OF CBB_add_asn1_begins]) (simp_all add: CBB_add_asn1_sticky)

lemma keeps_wf_bytes:
  "malloc_spec malloc \<Longrightarrow> length data = unat len \<Longrightarrow> keeps_wf (\<lambda>cbb d. CBB_add_bytes malloc cbb d data len)"
  by (rule keeps_wf_writer [OF cbb_writer_add_bytes]) (simp_all add: CBB_add_bytes_def)

lemma keeps_wf_zeros: "malloc_spec malloc \<Longrightarrow> keeps_wf (\<lambda>cbb d. CBB_add_zeros malloc cbb d len)"
  by (rule keeps_wf_writer [OF wr_zeros.cbb_writer_axioms]) (simp_all add: CBB_add_zeros_def)

lemma keeps_wf_uint64: "malloc_spec malloc \<Longrightarrow> keeps_wf (\<lambda>cbb d. CBB_add_asn1_uint64_with_tag malloc cbb d v tag)"
  by (rule keeps_wf_writer [OF wr_uint64_tag.cbb_writer_axioms])
    (simp_all add: CBB_add_asn1_uint64_with_tag_def CBB_add_asn1_sticky)

lemma keeps_wf_int64: "malloc_spec malloc \<Longrightarrow> keeps_wf (\<lambda>cbb d. CBB_add_asn1_int64_with_tag malloc cbb d v tag)"
  by (rule keeps_wf_writer [OF wr_int64_tag.cbb_writer_axioms])
    (simp_all add: CBB_add_asn1_int64_with_tag_def CBB_add_asn1_uint64_with_tag_def CBB_add_asn1_sticky Let_def)

lemma keeps_wf_bool: "malloc_spec malloc \<Longrightarrow> keeps_wf (\<lambda>cbb d. CBB_add_asn1_bool malloc cbb d b)"
  by (rule keeps_wf_writer [OF wr_bool.cbb_writer_axioms]) (simp_all add: CBB_add_asn1_bool_def CBB_add_asn1_sticky)

lemma keeps_wf_octet_string:
  assumes "malloc_spec malloc" "length data = unat len"
  shows "keeps_wf (\<lambda>cbb d. CBB_add_asn1_octet_string malloc cbb d data len)"
  using keeps_wf_element [OF starts_child_asn1 [OF assms(1)] keeps_wf_bytes [OF assms] assms(1), of CBS_ASN1_OCTETSTRING]
  by (simp add: CBB_add_asn1_octet_string_def)

lemma keeps_wf_u8: "malloc_spec malloc \<Longrightarrow> keeps_wf (\<lambda>cbb d. CBB_add_u8 malloc cbb d v)"
  using keeps_wf_add_u by (simp add: add_u_defs)

lemma add_base128_error: "error (base cbb) \<Longrightarrow> add_base128_integer malloc cbb d v = (False, cbb)"
proof -
  assume e: "error (base cbb)"
  have "add_base128_loop malloc v (Suc k) cbb d = (False, cbb)" for k using e by (simp add: add_u_defs Let_def)
  then have "add_base128_loop malloc v k cbb d = (False, cbb)" if "k \<noteq> 0" for k using that by (cases k) simp_all
  then show ?thesis by (simp add: add_base128_integer_def Let_def)
qed

lemma keeps_wf_base128: "malloc_spec malloc \<Longrightarrow> keeps_wf (\<lambda>cbb d. add_base128_integer malloc cbb d v)"
  by (rule keeps_wf_writer [OF wr_base128.cbb_writer_axioms]) (simp_all add: add_base128_error)

lemma oid_loop_wf:
  "malloc_spec malloc \<Longrightarrow> cbb_wf cbb \<Longrightarrow> d \<le> length (children cbb) \<Longrightarrow>
     cbb_wf (snd (oid_from_text_loop malloc cbs cbb d)) \<and>
     (fst (oid_from_text_loop malloc cbs cbb d) \<longrightarrow> d \<le> length (children (snd (oid_from_text_loop malloc cbs cbb d))))"
proof (induction malloc cbs cbb d rule: oid_from_text_loop.induct)
  case (1 malloc cbs cbb d)
  show ?case
  proof (cases "CBS_len cbs > 0")
    case False
    then show ?thesis using "1.prems" by (simp add: oid_from_text_loop.simps [of malloc cbs])
  next
    case True
    obtain r cbs' where p: "parse_dotted_decimal cbs = (r, cbs')" by fastforce
    show ?thesis
    proof (cases r)
      case None
      then show ?thesis using "1.prems" p by (simp add: oid_from_text_loop.simps [of malloc cbs])
    next
      case (Some a)
      obtain ok c where b: "add_base128_integer malloc cbb d a = (ok, c)" by fastforce
      have w: "cbb_wf c" "ok \<Longrightarrow> d \<le> length (children c)"
        using keeps_wf_base128 [OF "1.prems"(1), of a] "1.prems"(2,3) b unfolding keeps_wf_def by (metis fst_conv snd_conv)+
      show ?thesis
      proof (cases ok)
        case False
        then show ?thesis using w p b Some True by (simp add: oid_from_text_loop.simps [of malloc cbs])
      next
        case ok: True
        from "1.IH" [OF True p [symmetric] Some b [symmetric] eqTrueI [OF ok] "1.prems"(1) w(1) w(2) [OF ok]]
        show ?thesis using ok p b Some True by (simp add: oid_from_text_loop.simps [of malloc cbs])
      qed
    qed
  qed
qed

lemma keeps_wf_oid: "malloc_spec malloc \<Longrightarrow> keeps_wf (\<lambda>cbb d. CBB_add_asn1_oid_from_text malloc cbb d text len)"
proof -
  assume m: "malloc_spec malloc"
  have loop: "keeps_wf (\<lambda>cbb d. oid_from_text_loop malloc cbs cbb d)" for cbs
    using oid_loop_wf [OF m] by (simp add: keeps_wf_def)
  let ?rest = "\<lambda>cbb d. case parse_dotted_decimal (CBS_init text len) of
       (None, cbs) \<Rightarrow> (False, cbb)
     | (Some a, cbs) \<Rightarrow>
         (case parse_dotted_decimal cbs of
            (None, cbs) \<Rightarrow> (False, cbb)
          | (Some b, cbs) \<Rightarrow>
              if a > 2 \<or> (a < 2 \<and> b > 39) \<or> b > (- 1) - 80 then (False, cbb)
              else case add_base128_integer malloc cbb d (40 * a + b) of
                     (False, cbb) \<Rightarrow> (False, cbb)
                   | (True, cbb) \<Rightarrow> oid_from_text_loop malloc cbs cbb d)"
  have "keeps_wf ?rest"
  proof (cases "parse_dotted_decimal (CBS_init text len)")
    case (Pair r1 cbs1)
    obtain r2 cbs2 where "parse_dotted_decimal cbs1 = (r2, cbs2)" by fastforce
    with Pair show ?thesis
      by (cases r1; cases r2) (auto intro!: keeps_wf_fails keeps_wf_if keeps_wf_seq keeps_wf_base128 loop m)
  qed
  from keeps_wf_seq [OF keeps_wf_flush [OF m] this] show ?thesis
    by (simp add: CBB_add_asn1_oid_from_text_def [abs_def])
qed

lemma CBB_add_utf8_error: "error (base cbb) \<Longrightarrow> CBB_add_utf8 malloc cbb d u = (False, cbb)"
  by (simp add: CBB_add_utf8_def add_u_defs)

lemma keeps_wf_code_point:
  assumes "malloc_spec malloc"
  shows "keeps_wf (\<lambda>cbb d. CBB_add_utf8 malloc cbb d u)" "keeps_wf (\<lambda>cbb d. CBB_add_latin1 malloc cbb d u)"
    "keeps_wf (\<lambda>cbb d. CBB_add_ucs2_be malloc cbb d u)" "keeps_wf (\<lambda>cbb d. CBB_add_utf32_be malloc cbb d u)"
proof -
  show "keeps_wf (\<lambda>cbb d. CBB_add_utf8 malloc cbb d u)"
  proof (cases "is_valid_code_point u")
    case True
    from keeps_wf_writer [OF cbb_writer_utf8 [OF True] assms] show ?thesis by (simp add: CBB_add_utf8_error)
  qed (simp add: CBB_add_utf8_def keeps_wf_fails)
qed (unfold CBB_add_latin1_def CBB_add_ucs2_be_def CBB_add_utf32_be_def add_u_defs,
    (intro keeps_wf_if keeps_wf_fails keeps_wf_add_u assms)+)


text \<open>Space at the end, whether it is filled or not, and taking back what was written.\<close>

lemma chain_wf_mono: "chain_wf s cs n \<Longrightarrow> n \<le> m \<Longrightarrow> chain_wf s cs m"
  by (induction cs arbitrary: s) auto

lemma cbb_wf_base:
  assumes "cbb_wf cbb" "buffer_wf b" "error b \<or> (error b = error (base cbb) \<and> blen (base cbb) \<le> blen b)"
  shows "cbb_wf (cbb\<lparr>base := b\<rparr>)"
  using assms chain_wf_mono [of 0 "children cbb" "unat (blen (base cbb))" "unat (blen b)"]
  by (auto simp: cbb_wf_def word_le_nat_alt)

lemma CBB_reserve_wf:
  assumes "malloc_spec malloc" "cbb_wf cbb" "d \<le> length (children cbb)"
  shows "cbb_wf (snd (CBB_reserve malloc cbb d len))"
proof -
  obtain ok c where f: "CBB_flush malloc cbb d = (ok, c)" by fastforce
  then have c: "cbb_wf c" using keeps_wf_flush [OF assms(1)] assms(2,3) by (fastforce simp: keeps_wf_def)
  then have bw: "buffer_wf (base c)" by (simp add: cbb_wf_def)
  obtain ok2 b where b: "cbb_buffer_reserve malloc (base c) len = (ok2, b)" by fastforce
  note s = cbb_buffer_reserve_spec [OF bw assms(1) b]
  have "cbb_wf (c\<lparr>base := b\<rparr>)"
    by (rule cbb_wf_base [OF c s(1)]) (use s(3,5,6) in \<open>cases ok2; auto\<close>)
  with f b c show ?thesis by (cases ok; cases ok2) (simp_all add: CBB_reserve_def)
qed

lemma CBB_add_space_wf:
  assumes "malloc_spec malloc" "cbb_wf cbb" "d \<le> length (children cbb)"
  shows "cbb_wf (snd (CBB_add_space malloc cbb d len))"
proof -
  obtain ok c where f: "CBB_flush malloc cbb d = (ok, c)" by fastforce
  then have c: "cbb_wf c" using keeps_wf_flush [OF assms(1)] assms(2,3) by (fastforce simp: keeps_wf_def)
  then have bw: "buffer_wf (base c)" by (simp add: cbb_wf_def)
  obtain ok2 b where b: "cbb_buffer_add malloc (base c) len = (ok2, b)" by fastforce
  have "cbb_wf (c\<lparr>base := b\<rparr>)"
  proof (cases ok2)
    case False
    with cbb_buffer_add_fail [OF bw assms(1)] b show ?thesis by (intro cbb_wf_base [OF c]) auto
  next
    case True
    with b obtain gap rest where "buffer_wf b" "unat (blen b) = unat (blen (base c)) + unat len" "error b = error (base c)"
      by (auto elim: cbb_buffer_add_spec [OF bw assms(1)])
    then show ?thesis by (intro cbb_wf_base [OF c]) (simp_all add: word_le_nat_alt)
  qed
  with f b c show ?thesis by (cases ok; cases ok2) (simp_all add: CBB_add_space_def)
qed

lemma CBB_did_write_wf:
  assumes "cbb_wf cbb"
  shows "cbb_wf (snd (CBB_did_write cbb d len))"
proof (cases "d < length (children cbb) \<or> blen (base cbb) + len < blen (base cbb) \<or> blen (base cbb) + len > cap (base cbb)")
  case True
  then show ?thesis using assms by (simp add: CBB_did_write_def Let_def)
next
  case False
  let ?b = "(base cbb)\<lparr>blen := blen (base cbb) + len\<rparr>"
  have "cbb_wf (cbb\<lparr>base := ?b\<rparr>)"
  proof (rule cbb_wf_base [OF assms])
    show "buffer_wf ?b" using assms False by (auto simp: cbb_wf_def buffer_wf_def buf_bytes_def)
  qed (use False in auto)
  then show ?thesis using False by (simp add: CBB_did_write_def Let_def)
qed

lemma CBB_discard_child_wf:
  assumes "cbb_wf cbb" "\<not> error (base cbb)" "d \<le> length (children cbb)"
  shows "cbb_wf (CBB_discard_child cbb d)"
proof (cases "d < length (children cbb)")
  case True
  have "chain_wf 0 (children cbb) (unat (blen (base cbb)))" using assms(1,2) by (simp add: cbb_wf_def)
  note split = chain_wf_split [OF assms(3) this]
  have d: "drop d (children cbb) = children cbb ! d # drop (Suc d) (children cbb)" using True by (simp add: Cons_nth_drop_Suc)
  have "chain_wf 0 (take d (children cbb)) (unat (offset (children cbb ! d)))" using split d by simp
  moreover have "offset (children cbb ! d) \<le> blen (base cbb)"
    using pending_off_le [OF assms] True by (simp add: pending_off_def word_le_nat_alt)
  ultimately show ?thesis
    using assms(1) True by (auto simp: CBB_discard_child_def cbb_wf_def buffer_wf_def buf_bytes_def)
next
  case False
  then show ?thesis using assms by (simp add: CBB_discard_child_def)
qed

section \<open>The states of a builder\<close>

text \<open>
  A step is a call on the builder at depth \<open>d\<close>, which has to be one of the chain: its index is at most
  the number of open children. The data given has the length that is given with it.
\<close>

inductive cbb_step :: "libc_malloc \<Rightarrow> CBB \<Rightarrow> nat \<Rightarrow> CBB \<Rightarrow> bool" for malloc cbb d where
  "cbb_step malloc cbb d (snd (CBB_flush malloc cbb d))"
| "cbb_step malloc cbb d (snd (CBB_add_u8_length_prefixed malloc cbb d))"
| "cbb_step malloc cbb d (snd (CBB_add_u16_length_prefixed malloc cbb d))"
| "cbb_step malloc cbb d (snd (CBB_add_u24_length_prefixed malloc cbb d))"
| "cbb_step malloc cbb d (snd (CBB_add_asn1 malloc cbb d tag))"
| "\<not> error (base cbb) \<Longrightarrow> cbb_step malloc cbb d (CBB_discard_child cbb d)"
| "length data = unat len \<Longrightarrow> cbb_step malloc cbb d (snd (CBB_add_bytes malloc cbb d data len))"
| "cbb_step malloc cbb d (snd (CBB_add_zeros malloc cbb d len))"
| "cbb_step malloc cbb d (snd (CBB_add_space malloc cbb d len))"
| "cbb_step malloc cbb d (snd (CBB_reserve malloc cbb d len))"
| "cbb_step malloc cbb d (snd (CBB_did_write cbb d len))"
| "cbb_step malloc cbb d (snd (CBB_add_u8 malloc cbb d b))"
| "cbb_step malloc cbb d (snd (CBB_add_u16 malloc cbb d h))"
| "cbb_step malloc cbb d (snd (CBB_add_u16le malloc cbb d h))"
| "cbb_step malloc cbb d (snd (CBB_add_u24 malloc cbb d w))"
| "cbb_step malloc cbb d (snd (CBB_add_u32 malloc cbb d w))"
| "cbb_step malloc cbb d (snd (CBB_add_u32le malloc cbb d w))"
| "cbb_step malloc cbb d (snd (CBB_add_u64 malloc cbb d v))"
| "cbb_step malloc cbb d (snd (CBB_add_u64le malloc cbb d v))"
| "cbb_step malloc cbb d (snd (CBB_add_asn1_uint64_with_tag malloc cbb d v tag))"
| "cbb_step malloc cbb d (snd (CBB_add_asn1_int64_with_tag malloc cbb d v tag))"
| "length data = unat len \<Longrightarrow> cbb_step malloc cbb d (snd (CBB_add_asn1_octet_string malloc cbb d data len))"
| "cbb_step malloc cbb d (snd (CBB_add_asn1_bool malloc cbb d i))"
| "cbb_step malloc cbb d (snd (CBB_add_asn1_oid_from_text malloc cbb d text len))"
| "cbb_step malloc cbb d (snd (CBB_add_utf8 malloc cbb d w))"
| "cbb_step malloc cbb d (snd (CBB_add_latin1 malloc cbb d w))"
| "cbb_step malloc cbb d (snd (CBB_add_ucs2_be malloc cbb d w))"
| "cbb_step malloc cbb d (snd (CBB_add_utf32_be malloc cbb d w))"

inductive cbb_reachable :: "libc_malloc \<Rightarrow> CBB \<Rightarrow> bool" for malloc where
  reachable_init: "CBB_init malloc n = Some cbb \<Longrightarrow> cbb_reachable malloc cbb"
| reachable_fixed: "length p = unat len \<Longrightarrow> cbb_reachable malloc (CBB_init_fixed p len)"
| reachable_step: "cbb_reachable malloc cbb \<Longrightarrow> d \<le> length (children cbb) \<Longrightarrow> cbb_step malloc cbb d cbb' \<Longrightarrow>
    cbb_reachable malloc cbb'"

lemma cbb_step_wf:
  assumes "cbb_step malloc cbb d cbb'" "malloc_spec malloc" "cbb_wf cbb" "d \<le> length (children cbb)"
  shows "cbb_wf cbb'"
proof -
  note wf = assms(3,4)
  note op = keeps_wfD [OF _ wf]
  note u = op [OF keeps_wf_add_u [OF assms(2)]]
  note child = op [OF starts_child_keeps [OF starts_child_prefixed [OF assms(2)]]]
  note code = keeps_wf_code_point [OF assms(2)]
  from assms(1) show ?thesis
    by cases
      (simp_all add: op [OF keeps_wf_flush] op [OF starts_child_keeps [OF starts_child_asn1]] assms
        CBB_add_u8_length_prefixed_def CBB_add_u16_length_prefixed_def CBB_add_u24_length_prefixed_def child
        CBB_discard_child_wf op [OF keeps_wf_bytes] op [OF keeps_wf_zeros] CBB_add_space_wf CBB_reserve_wf CBB_did_write_wf
        add_u_defs u op [OF keeps_wf_uint64] op [OF keeps_wf_int64] op [OF keeps_wf_octet_string] op [OF keeps_wf_bool]
        op [OF keeps_wf_oid] op [OF code(1)] op [OF code(2)] op [OF code(3)] op [OF code(4)])
qed

lemma cbb_reachable_wf:
  assumes "cbb_reachable malloc cbb" "malloc_spec malloc"
  shows "cbb_wf cbb"
  using assms(1)
proof induction
  case (reachable_init n cbb)
  then show ?case using CBB_init_facts [OF assms(2)] by blast
next
  case (reachable_fixed p len)
  then show ?case by (simp add: CBB_init_fixed_def cbb_init_def cbb_wf_def buffer_wf_def buf_bytes_def)
next
  case (reachable_step cbb d cbb')
  then show ?case using cbb_step_wf assms(2) by blast
qed

section \<open>Room\<close>

text \<open>The buffer has the capacity for the closed children of the builder and \<open>n\<close> bytes behind them.\<close>

definition has_room :: "CBB \<Rightarrow> nat \<Rightarrow> nat \<Rightarrow> bool" where
  "has_room cbb d n =
     (case close (pending cbb d) of None \<Rightarrow> False | Some y \<Rightarrow> pending_off cbb d + length y + n \<le> unat (cap (base cbb)))"

lemma has_roomE:
  assumes "has_room cbb d n"
  obtains y where "close (pending cbb d) = Some y" "pending_off cbb d + length y + n \<le> unat (cap (base cbb))"
  using assms by (auto simp: has_room_def split: option.splits)

lemma writer_room:
  assumes "cbb_writer malloc opn out" "malloc_spec malloc" "cbb_wf cbb" "\<not> error (base cbb)" "d \<le> length (children cbb)"
    and "has_room cbb d (length out)"
  shows "fst (opn cbb d)"
  using cbb_writer.opn_room [OF assms(1-5)] assms(6) by (blast elim: has_roomE)

lemma begins_room: "begins hdr n asn1 cbb d r \<Longrightarrow> has_room cbb d (length hdr + unat n) \<Longrightarrow> fst r"
  by (auto simp: begins_def elim!: has_roomE split: if_splits)

end
