(* ===== verification/Bytestring_Properties.thy ===== *)
theory Bytestring_Properties
  imports Ber_Der Cbb_Steps
begin

text \<open>
  The properties of the byte-string library: what the readers accept, what the builder writes,
  and that the two are inverse to each other. Each rests on an interpretation of one of the
  interfaces \<open>cbs_reader\<close> and \<open>cbb_writer\<close>.
\<close>

section \<open>Concrete inputs for the witnesses\<close>

definition demo_malloc :: libc_malloc where
  "demo_malloc n = Some (replicate (unat n) 0)"

definition demo_cbb :: CBB where
  "demo_cbb = CBB_init_fixed (replicate 16 0) 16"

lemma demo_malloc_spec [simp]: "malloc_spec demo_malloc"
  by (auto simp: malloc_spec_def demo_malloc_def)

lemma demo_cbb_facts [simp]:
  "cbb_wf demo_cbb" "\<not> error (base demo_cbb)" "children demo_cbb = []" "bytes (base demo_cbb) = []"
  by (simp_all add: demo_cbb_def CBB_init_fixed_def cbb_init_def cbb_wf_def buffer_wf_def
      buf_bytes_def bytes_def)

section \<open>Reading DER\<close>

text \<open>
  C1. The strict element reader accepts exactly the DER encodings: it returns an element with
  the given tag, header and contents, leaving the given rest, if and only if the view holds the
  one DER encoding of that tag and contents followed by that rest. In particular lengths and
  tags that are not minimally encoded, and indefinite lengths, are rejected.
\<close>

theorem CBS_get_any_asn1_element_der:
  assumes "cbs_wf cbs"
  shows "(\<exists>el c. CBS_get_any_asn1_element cbs = (Some el, c) \<and>
        element_view el = (tag, header, body, ber, indef) \<and> cbs_bytes c = rest) \<longleftrightarrow>
    \<not> reserved_tag tag \<and> length body < 2 ^ 32 \<and> cbs_bytes cbs = der tag body @ rest \<and>
    header = tag_bytes tag @ der_len (length body) \<and> \<not> ber \<and> \<not> indef"
  unfolding CBS_get_any_asn1_element_def rd_element.get_iff [OF assms] element_spec_der_iff by simp

theorem CBS_get_any_asn1_element_der_witness:
  "\<exists>el c. CBS_get_any_asn1_element (cbs_of [0x04, 0x01, 0x07, 0x05]) = (Some el, c) \<and>
     element_view el = (4, [0x04, 0x01], [0x07], False, False) \<and> cbs_bytes c = [0x05]"
proof -
  have "cbs_wf (cbs_of [0x04, 0x01, 0x07, 0x05])" by simp
  moreover have "der 4 [0x07] = [0x04, 0x01, 0x07]" "tag_bytes 4 @ der_len 1 = [0x04, 0x01]"
    "\<not> reserved_tag 4"
    by (simp_all add: der_def tag_bytes_def der_len_def reserved_tag_def CBS_ASN1_CONSTRUCTED_def
        CBS_ASN1_TAG_SHIFT_def)
  ultimately show ?thesis
    by (simp add: CBS_get_any_asn1_element_der)
qed


section \<open>Round trips from the builder to the reader\<close>

text \<open>The bytes a call added to a builder with no open child.\<close>

definition added :: "CBB \<Rightarrow> CBB \<Rightarrow> u8 list" where
  "added cbb cbb' = drop (length (bytes (base cbb))) (bytes (base cbb'))"

lemma added_bytes:
  assumes "cbb_writer malloc opn out" "malloc_spec malloc" "cbb_wf cbb" "children cbb = []" "opn cbb 0 = (True, cbb')"
  shows "added cbb cbb' = out"
  using cbb_writer.opn_appends [OF assms(1-3) _ assms(5)] assms(4) by (simp add: added_def)

text \<open>A writer and a reader of the same encoding.\<close>

locale cbs_codec = cbb_writer malloc opn out + cbs_reader get ok view spec
  for malloc opn out get ok view spec +
  fixes x
  assumes spec_written: "spec (out @ rest) = Some (x, rest)"
begin

lemma written_read:
  assumes "malloc_spec malloc" "cbb_wf cbb" "children cbb = []" "opn cbb 0 = (True, cbb')"
    and "cbs_wf cbs" "cbs_bytes cbs = added cbb cbb' @ rest"
  shows "\<exists>a c. get cbs = (Some a, c) \<and> ok a \<and> view a = x \<and> cbs_wf c \<and> cbs_bytes c = rest"
proof -
  have "added cbb cbb' = out" by (rule added_bytes [OF cbb_writer_axioms assms(1-4)])
  with assms(6) have "spec (cbs_bytes cbs) = Some (x, rest)" by (simp add: spec_written)
  from get_accepts [OF assms(5) this] show ?thesis by blast
qed

end

lemma universal_tags: "t \<in> {CBS_ASN1_BOOLEAN, CBS_ASN1_INTEGER, CBS_ASN1_OCTETSTRING} \<Longrightarrow> \<not> reserved_tag t"
  by (auto simp: reserved_tag_def CBS_ASN1_BOOLEAN_def CBS_ASN1_INTEGER_def CBS_ASN1_OCTETSTRING_def
      CBS_ASN1_TAG_SHIFT_def CBS_ASN1_CONSTRUCTED_def)

lemma asn1_spec_written:
  "t \<in> {CBS_ASN1_BOOLEAN, CBS_ASN1_INTEGER, CBS_ASN1_OCTETSTRING} \<Longrightarrow> length body < 4294967296 \<Longrightarrow>
     asn1_spec t (der t body @ rest) = Some (body, rest)"
  using universal_tags by (simp add: asn1_spec_iff)

interpretation codec_uint64: cbs_codec malloc "\<lambda>cbb d. CBB_add_asn1_uint64 malloc cbb d v"
    "der CBS_ASN1_INTEGER (uint_contents (be_bytes 8 (unat v)))" CBS_get_asn1_uint64 "\<lambda>_. True" unat uint64_spec "unat v"
  for malloc v
proof
  fix rest
  let ?c = "uint_contents (be_bytes 8 (unat v))"
  have "length ?c < 4294967296" using length_uint_contents [of "be_bytes 8 (unat v)"] by simp
  moreover have "int_val ?c = int (unat v)" using unat_u64_less [of v]
    by (simp add: int_val_uint_contents be_val_be_bytes del: unat_u64_less)
  moreover have "int (unat v) < 2 ^ 64" using uint_bounded [of v] by simp
  ultimately show "uint64_spec (der CBS_ASN1_INTEGER ?c @ rest) = Some (unat v, rest)"
    by (simp add: uint64_spec_def asn1_spec_written valid_int_uint_contents)
qed

interpretation codec_int64: cbs_codec malloc "\<lambda>cbb d. CBB_add_asn1_int64 malloc cbb d v"
    "der CBS_ASN1_INTEGER (int64_contents v)" CBS_get_asn1_int64 "\<lambda>_. True" sint int64_spec "sint v"
  for malloc v
proof
  fix rest
  have "length (int64_contents v) < 4294967296" using int64_contents_facts(3) [of v] by linarith
  moreover have "- (2 ^ 63) \<le> sint v" "sint v < 2 ^ 63" using sint_greater_eq [of v] sint_less [of v] by simp_all
  ultimately show "int64_spec (der CBS_ASN1_INTEGER (int64_contents v) @ rest) = Some (sint v, rest)"
    by (simp add: int64_spec_def asn1_spec_written int64_contents_facts)
qed

interpretation codec_bool: cbs_codec malloc "\<lambda>cbb d. CBB_add_asn1_bool malloc cbb d v"
    "der CBS_ASN1_BOOLEAN [if v \<noteq> 0 then 0xff else 0]" CBS_get_asn1_bool "\<lambda>_. True" "\<lambda>x. x" bool_spec "v \<noteq> 0"
  for malloc v
  by unfold_locales (simp add: bool_spec_def asn1_spec_written)

lemma u_spec_written: "v < 256 ^ n \<Longrightarrow> u_spec n (be_bytes n v @ rest) = Some (v, rest)"
  by (simp add: u_spec_Some_iff be_val_be_bytes)

interpretation codec_u32: cbs_codec malloc "\<lambda>cbb d. CBB_add_u32 malloc cbb d v" "be_bytes 4 (unat v)"
    CBS_get_u32 "\<lambda>_. True" unat "u_spec 4" "unat v"
  for malloc v
  by unfold_locales (rule u_spec_written, use unat_u32_less [of v] in simp)

interpretation codec_u64le: cbs_codec malloc "\<lambda>cbb d. CBB_add_u64le malloc cbb d v" "rev (be_bytes 8 (unat v))"
    CBS_get_u64le "\<lambda>_. True" unat "u_le_spec 8" "unat v"
  for malloc v
proof
  fix rest
  have "take_spec 8 (rev (be_bytes 8 (unat v)) @ rest) = Some (rev (be_bytes 8 (unat v)), rest)"
    by (simp add: take_spec_def)
  then show "u_le_spec 8 (rev (be_bytes 8 (unat v)) @ rest) = Some (unat v, rest)"
    using unat_u64_less [of v] by (simp add: u_le_spec_def be_val_be_bytes del: unat_u64_less)
qed

lemma cbs_codec_octet_string:
  assumes "length d = unat n" "unat n < 4294967295"
  shows "cbs_codec malloc (\<lambda>cbb h. CBB_add_asn1_octet_string malloc cbb h d n) (der CBS_ASN1_OCTETSTRING d)
    (\<lambda>cbs. CBS_get_asn1 cbs CBS_ASN1_OCTETSTRING) cbs_wf cbs_bytes (asn1_spec CBS_ASN1_OCTETSTRING) d"
  by (rule cbs_codec.intro [OF cbb_writer_octet_string [OF assms] rd_asn1.cbs_reader_axioms cbs_codec_axioms.intro])
    (use assms in \<open>simp add: asn1_spec_written\<close>)

lemma cbs_codec_utf8:
  assumes "is_valid_code_point u"
  shows "cbs_codec malloc (\<lambda>cbb h. CBB_add_utf8 malloc cbb h u) (utf8 (unat u)) CBS_get_utf8 (\<lambda>_. True) unat utf8_spec (unat u)"
  by (rule cbs_codec.intro [OF cbb_writer_utf8 [OF assms] rd_utf8.cbs_reader_axioms cbs_codec_axioms.intro])
    (use assms in \<open>simp add: utf8_spec_iff is_valid_code_point_iff\<close>)

lemma demo_writes:
  assumes "cbb_writer demo_malloc opn out" "length out \<le> 16"
  shows "\<exists>cbb'. opn demo_cbb 0 = (True, cbb') \<and> length (added demo_cbb cbb') \<le> 16"
proof -
  have "pending demo_cbb 0 = []" "pending_off demo_cbb 0 = 0" "unat (cap (base demo_cbb)) = 16"
    by (simp_all add: pending_def pending_off_def cbb_frames_def demo_cbb_def CBB_init_fixed_def cbb_init_def)
  with assms have "fst (opn demo_cbb 0)" by (intro cbb_writer.opn_room [OF assms(1), of demo_cbb 0 "[]"]) simp_all
  then obtain cbb' where "opn demo_cbb 0 = (True, cbb')" by (metis prod.collapse)
  with added_bytes [OF assms(1)] assms(2) show ?thesis by simp
qed

lemma length_der_universal:
  "length body < 128 \<Longrightarrow> t \<in> {CBS_ASN1_BOOLEAN, CBS_ASN1_INTEGER, CBS_ASN1_OCTETSTRING} \<Longrightarrow> length (der t body) = 2 + length body"
  by (auto simp: der_def tag_bytes_def der_len_def CBS_ASN1_BOOLEAN_def CBS_ASN1_INTEGER_def CBS_ASN1_OCTETSTRING_def
      CBS_ASN1_CONSTRUCTED_def CBS_ASN1_TAG_SHIFT_def)

text \<open>
  An INTEGER that the builder wrote from a 64-bit number is read back as that number, and the
  reader stops right behind it.
\<close>

theorem asn1_uint64_roundtrip:
  assumes "malloc_spec malloc" "cbb_wf cbb" "children cbb = []" "CBB_add_asn1_uint64 malloc cbb 0 v = (True, cbb')"
    and "cbs_wf cbs" "cbs_bytes cbs = added cbb cbb' @ rest"
  shows "\<exists>c. CBS_get_asn1_uint64 cbs = (Some v, c) \<and> cbs_bytes c = rest"
  using codec_uint64.written_read [OF assms] by (auto simp: word_unat_eq_iff [symmetric])

theorem asn1_uint64_roundtrip_witness:
  "\<exists>cbb' c. CBB_add_asn1_uint64 demo_malloc demo_cbb 0 300 = (True, cbb') \<and>
     CBS_get_asn1_uint64 (cbs_of (added demo_cbb cbb' @ [0x05])) = (Some 300, c) \<and> cbs_bytes c = [0x05]"
proof -
  have "length (der CBS_ASN1_INTEGER (uint_contents (be_bytes 8 (unat (300 :: u64))))) \<le> 16"
    using length_uint_contents [of "be_bytes 8 (unat (300 :: u64))"] by (simp add: length_der_universal)
  from demo_writes [OF wr_uint64.cbb_writer_axioms this] obtain cbb' where
    w: "CBB_add_asn1_uint64 demo_malloc demo_cbb 0 300 = (True, cbb')" "length (added demo_cbb cbb') \<le> 16" by blast
  then show ?thesis
    using asn1_uint64_roundtrip [of demo_malloc demo_cbb 300 cbb' "cbs_of (added demo_cbb cbb' @ [0x05])" "[0x05]"] by auto
qed

text \<open>
  C15. An INTEGER that the builder wrote from a signed 64-bit number is read back as that number.
\<close>

theorem asn1_int64_roundtrip:
  assumes "malloc_spec malloc" "cbb_wf cbb" "children cbb = []" "CBB_add_asn1_int64 malloc cbb 0 v = (True, cbb')"
    and "cbs_wf cbs" "cbs_bytes cbs = added cbb cbb' @ rest"
  shows "\<exists>a c. CBS_get_asn1_int64 cbs = (Some a, c) \<and> sint a = sint v \<and> cbs_bytes c = rest"
  using codec_int64.written_read [OF assms] by auto

theorem asn1_int64_roundtrip_witness:
  "\<exists>cbb' a c. CBB_add_asn1_int64 demo_malloc demo_cbb 0 (- 2) = (True, cbb') \<and>
     CBS_get_asn1_int64 (cbs_of (added demo_cbb cbb' @ [0x05])) = (Some a, c) \<and> sint a = - 2 \<and> cbs_bytes c = [0x05]"
proof -
  have "length (der CBS_ASN1_INTEGER (int64_contents (- 2))) \<le> 16"
    using int64_contents_facts(3) [of "- 2"] by (simp add: length_der_universal)
  from demo_writes [OF wr_int64.cbb_writer_axioms this] obtain cbb' where
    w: "CBB_add_asn1_int64 demo_malloc demo_cbb 0 (- 2) = (True, cbb')" "length (added demo_cbb cbb') \<le> 16" by blast
  then show ?thesis
    using asn1_int64_roundtrip [of demo_malloc demo_cbb "- 2" cbb' "cbs_of (added demo_cbb cbb' @ [0x05])" "[0x05]"] by auto
qed

text \<open>
  A BOOLEAN that the builder wrote from a C truth value, where every value but zero is true,
  is read back as that truth value.
\<close>

theorem asn1_bool_roundtrip:
  assumes "malloc_spec malloc" "cbb_wf cbb" "children cbb = []" "CBB_add_asn1_bool malloc cbb 0 v = (True, cbb')"
    and "cbs_wf cbs" "cbs_bytes cbs = added cbb cbb' @ rest"
  shows "\<exists>c. CBS_get_asn1_bool cbs = (Some (v \<noteq> 0), c) \<and> cbs_bytes c = rest"
  using codec_bool.written_read [OF assms] by auto

theorem asn1_bool_roundtrip_witness:
  "\<exists>cbb' c. CBB_add_asn1_bool demo_malloc demo_cbb 0 7 = (True, cbb') \<and>
     CBS_get_asn1_bool (cbs_of (added demo_cbb cbb' @ [])) = (Some True, c) \<and> cbs_bytes c = []"
proof -
  have "length (der CBS_ASN1_BOOLEAN [if (7 :: int) \<noteq> 0 then 0xff else 0]) \<le> 16" by (simp add: length_der_universal)
  from demo_writes [OF wr_bool.cbb_writer_axioms this] obtain cbb' where
    w: "CBB_add_asn1_bool demo_malloc demo_cbb 0 7 = (True, cbb')" "length (added demo_cbb cbb') \<le> 16" by blast
  then show ?thesis
    using asn1_bool_roundtrip [of demo_malloc demo_cbb 7 cbb' "cbs_of (added demo_cbb cbb' @ [])" "[]"] by auto
qed

text \<open>
  The contents of an OCTET STRING that the builder wrote are the bytes it was given.
\<close>

theorem asn1_octet_string_roundtrip:
  assumes "length d = unat n" "unat n < 4294967295"
    and "malloc_spec malloc" "cbb_wf cbb" "children cbb = []" "CBB_add_asn1_octet_string malloc cbb 0 d n = (True, cbb')"
    and "cbs_wf cbs" "cbs_bytes cbs = added cbb cbb' @ rest"
  shows "\<exists>out c. CBS_get_asn1 cbs CBS_ASN1_OCTETSTRING = (Some out, c) \<and> cbs_bytes out = d \<and> cbs_bytes c = rest"
  using cbs_codec.written_read [OF cbs_codec_octet_string [OF assms(1,2)] assms(3-8)] by auto

theorem asn1_octet_string_roundtrip_witness:
  "\<exists>cbb' out c. CBB_add_asn1_octet_string demo_malloc demo_cbb 0 [1, 2, 3] 3 = (True, cbb') \<and>
     CBS_get_asn1 (cbs_of (added demo_cbb cbb' @ [9])) CBS_ASN1_OCTETSTRING = (Some out, c) \<and>
     cbs_bytes out = [1, 2, 3] \<and> cbs_bytes c = [9]"
proof -
  have "cbb_writer demo_malloc (\<lambda>cbb h. CBB_add_asn1_octet_string demo_malloc cbb h [1, 2, 3] 3) (der CBS_ASN1_OCTETSTRING [1, 2, 3])"
    by (rule cbb_writer_octet_string) simp_all
  moreover have "length (der CBS_ASN1_OCTETSTRING [1, 2, 3]) \<le> 16" by (simp add: length_der_universal)
  ultimately obtain cbb' where
    w: "CBB_add_asn1_octet_string demo_malloc demo_cbb 0 [1, 2, 3] 3 = (True, cbb')" "length (added demo_cbb cbb') \<le> 16"
    using demo_writes by blast
  then show ?thesis
    using asn1_octet_string_roundtrip [of "[1, 2, 3]" 3 demo_malloc demo_cbb cbb' "cbs_of (added demo_cbb cbb' @ [9])" "[9]"] by auto
qed

text \<open>
  Fixed-width numbers, big-endian and little-endian, are read back as they were written.
\<close>

theorem fixed_width_roundtrip:
  assumes "malloc_spec malloc" "cbb_wf cbb" "children cbb = []" "cbs_wf cbs" "cbs_bytes cbs = added cbb cbb' @ rest"
  shows "CBB_add_u32 malloc cbb 0 v = (True, cbb') \<Longrightarrow> \<exists>c. CBS_get_u32 cbs = (Some v, c) \<and> cbs_bytes c = rest"
    and "CBB_add_u64le malloc cbb 0 w = (True, cbb') \<Longrightarrow> \<exists>c. CBS_get_u64le cbs = (Some w, c) \<and> cbs_bytes c = rest"
  using codec_u32.written_read [OF assms(1-3) _ assms(4,5)] codec_u64le.written_read [OF assms(1-3) _ assms(4,5)]
  by (auto simp: word_unat_eq_iff [symmetric])

theorem fixed_width_roundtrip_witness:
  "\<exists>cbb' c. CBB_add_u64le demo_malloc demo_cbb 0 258 = (True, cbb') \<and>
     CBS_get_u64le (cbs_of (added demo_cbb cbb' @ [9])) = (Some 258, c) \<and> cbs_bytes c = [9]"
proof -
  have "length (rev (be_bytes 8 (unat (258 :: u64)))) \<le> 16" by simp
  from demo_writes [OF wr_u64le.cbb_writer_axioms this] obtain cbb' where
    w: "CBB_add_u64le demo_malloc demo_cbb 0 258 = (True, cbb')" "length (added demo_cbb cbb') \<le> 16" by blast
  then show ?thesis
    using fixed_width_roundtrip(2) [of demo_malloc demo_cbb "cbs_of (added demo_cbb cbb' @ [9])" cbb' "[9]"] by auto
qed

text \<open>
  C16. The UTF-8 bytes the builder writes for a valid code point are read back as that code point,
  and their number is the one \<open>CBB_get_utf8_len\<close> predicts.
\<close>

theorem utf8_roundtrip:
  assumes "is_valid_code_point u"
    and "malloc_spec malloc" "cbb_wf cbb" "children cbb = []" "CBB_add_utf8 malloc cbb 0 u = (True, cbb')"
    and "cbs_wf cbs" "cbs_bytes cbs = added cbb cbb' @ rest"
  shows "length (added cbb cbb') = unat (CBB_get_utf8_len u) \<and> (\<exists>c. CBS_get_utf8 cbs = (Some u, c) \<and> cbs_bytes c = rest)"
  using cbs_codec.written_read [OF cbs_codec_utf8 [OF assms(1)] assms(2-7)]
    added_bytes [OF cbb_writer_utf8 [OF assms(1)] assms(2-5)] assms(1)
  by (auto simp: word_unat_eq_iff [symmetric] is_valid_code_point_iff CBB_get_utf8_len_length)

theorem utf8_roundtrip_witness:
  "\<exists>cbb' c. CBB_add_utf8 demo_malloc demo_cbb 0 0x20ac = (True, cbb') \<and>
     CBS_get_utf8 (cbs_of (added demo_cbb cbb' @ [])) = (Some 0x20ac, c) \<and> cbs_bytes c = []"
proof -
  have v: "is_valid_code_point 0x20ac" by (simp add: is_valid_code_point_iff code_point_def)
  have "length (utf8 (unat (0x20ac :: u32))) \<le> 16" by (simp add: utf8_def utf8_tail_numerals)
  from demo_writes [OF cbb_writer_utf8 [OF v] this] obtain cbb' where
    w: "CBB_add_utf8 demo_malloc demo_cbb 0 0x20ac = (True, cbb')" "length (added demo_cbb cbb') \<le> 16" by blast
  then show ?thesis
    using utf8_roundtrip [of "0x20ac" demo_malloc demo_cbb cbb' "cbs_of (added demo_cbb cbb' @ [])" "[]"] v by auto
qed

section \<open>What the readers accept\<close>

text \<open>
  C17. The UTF-8 reader accepts exactly the shortest encoding of a valid code point: overlong
  forms, surrogates, noncharacters and numbers past the last plane are rejected.
\<close>

theorem CBS_get_utf8_canonical:
  assumes "cbs_wf cbs"
  shows "(\<exists>v c. CBS_get_utf8 cbs = (Some v, c) \<and> unat v = x \<and> cbs_bytes c = rest) \<longleftrightarrow>
    code_point x \<and> cbs_bytes cbs = utf8 x @ rest"
  by (rule utf8_reads_iff [OF assms])

theorem CBS_get_utf8_canonical_witness:
  "\<not> (\<exists>v c. CBS_get_utf8 (cbs_of [0xc0, 0x80]) = (Some v, c) \<and> unat v = 0 \<and> cbs_bytes c = [])"
  using CBS_get_utf8_canonical [of "cbs_of [0xc0, 0x80]" 0 "[]"] by (simp add: utf8_def)

text \<open>
  The decimal reader accepts exactly the numbers below $2^{64}$ without leading zeros, and
  reads all digits there are.
\<close>

theorem CBS_get_u64_decimal_canonical:
  assumes "cbs_wf cbs"
  shows "(\<exists>v c. CBS_get_u64_decimal cbs = (Some v, c) \<and> unat v = x \<and> cbs_bytes c = rest) \<longleftrightarrow>
    x < 2 ^ 64 \<and> cbs_bytes cbs = decimal x @ rest \<and> (\<forall>b r. rest = b # r \<longrightarrow> \<not> is_digit b)"
  unfolding rd_decimal.get_iff [OF assms] decimal_spec_iff by simp

theorem CBS_get_u64_decimal_canonical_witness:
  "\<exists>v c. CBS_get_u64_decimal (cbs_of [0x34, 0x32, 0x2e]) = (Some v, c) \<and> unat v = 42 \<and> cbs_bytes c = [0x2e]"
  using CBS_get_u64_decimal_canonical [of "cbs_of [0x34, 0x32, 0x2e]" 42 "[0x2e]"]
  by (simp add: is_digit_def OPENSSL_isdigit_def decimal.simps)

text \<open>
  A 64-bit INTEGER is accepted if and only if it is the DER encoding of a minimal two's
  complement number in range, and its value is that number.
\<close>

theorem CBS_get_asn1_int64_value:
  assumes "cbs_wf cbs"
  shows "(\<exists>a c. CBS_get_asn1_int64 cbs = (Some a, c) \<and> sint a = x \<and> cbs_bytes c = rest) \<longleftrightarrow>
    (\<exists>body. valid_int body \<and> int_val body = x \<and> - (2 ^ 63) \<le> x \<and> x < 2 ^ 63 \<and> length body < 2 ^ 32 \<and>
       cbs_bytes cbs = der CBS_ASN1_INTEGER body @ rest)"
  unfolding rd_int64.get_iff [OF assms] int64_spec_def
  using universal_tags [of CBS_ASN1_INTEGER]
  by (auto simp: Option.bind_eq_Some_conv asn1_spec_iff split: if_splits)

theorem CBS_get_asn1_int64_value_witness:
  "\<exists>a c. CBS_get_asn1_int64 (cbs_of (der CBS_ASN1_INTEGER [0xff] @ [7])) = (Some a, c) \<and> sint a = - 1 \<and> cbs_bytes c = [7]"
proof -
  have "length (der CBS_ASN1_INTEGER [0xff] @ [7]) < 2 ^ 64" by (simp add: length_der_universal)
  moreover have "valid_int [0xff]" "int_val [0xff] = - 1" by (simp_all add: sbyte_def)
  ultimately show ?thesis
    using CBS_get_asn1_int64_value [of "cbs_of (der CBS_ASN1_INTEGER [0xff] @ [7])" "- 1" "[7]"]
    by (auto intro!: exI [of _ "[0xff]"])
qed

text \<open>
  C21. Whatever its input, the element reader keeps the view inside its object and only takes
  bytes from its front; on failure as well as on success.
\<close>

theorem element_reader_safe:
  assumes "cbs_wf cbs"
  shows "cbs_wf (snd (cbs_get_any_asn1_element cbs ber_ok)) \<and>
    suffix (cbs_bytes (snd (cbs_get_any_asn1_element cbs ber_ok))) (cbs_bytes cbs)"
  using rd_element.get_safe [OF assms] by blast

theorem element_reader_safe_witness:
  "cbs_wf (snd (cbs_get_any_asn1_element (cbs_of [0x30, 0x85, 1, 1]) True)) \<and>
   suffix (cbs_bytes (snd (cbs_get_any_asn1_element (cbs_of [0x30, 0x85, 1, 1]) True))) [0x30, 0x85, 1, 1]"
  using element_reader_safe [of "cbs_of [0x30, 0x85, 1, 1]" True] by simp

section \<open>Object identifiers\<close>

text \<open>
  C18. From dotted text to DER and back: when the builder accepts a text, the text is the dotted
  form of an object identifier, the bytes it wrote are the DER contents of that identifier, and
  \<open>CBS_asn1_oid_to_text\<close> can only turn them into the same text.
\<close>

theorem oid_text_roundtrip:
  assumes "malloc_spec malloc" "cbb_wf cbb" "children cbb = []" "unat n \<le> length s"
    and "CBB_add_asn1_oid_from_text malloc cbb 0 s n = (True, cbb')"
    and "cbs_wf cbs" "cbs_bytes cbs = added cbb cbb'" "CBS_asn1_oid_to_text malloc cbs = Some t"
  shows "\<exists>junk. t = take (unat n) s @ [0] @ junk"
proof -
  obtain xs where xs: "oid_ok xs" "take (unat n) s = dotted xs"
    using CBB_add_asn1_oid_from_text_valid [OF assms(4), of malloc cbb 0] assms(5) by auto
  have "added cbb cbb' = oid_bytes xs"
    by (rule added_bytes [OF cbb_writer_oid [OF xs(1) assms(4) xs(2)] assms(1-3,5)])
  moreover obtain ys junk where "oid_ok ys" "cbs_bytes cbs = oid_bytes ys" "t = dotted ys @ [0] @ junk"
    using CBS_asn1_oid_to_text_sound [OF assms(1,6,8)] by blast
  ultimately show ?thesis using oid_bytes_inj [OF xs(1), of ys] assms(7) xs(2) by auto
qed

lemma demo_oid: "oid_ok [2, 5]" "dotted [2, 5] = [0x32, 0x2e, 0x35]" "oid_bytes [2, 5] = [0x55]"
  by (simp_all add: oid_ok_def oid_bytes_def base128_def decimal.simps)

lemma demo_oid_text: "\<exists>junk. CBS_asn1_oid_to_text demo_malloc (cbs_of [0x55]) = Some ([0x32, 0x2e, 0x35] @ [0] @ junk)"
proof -
  obtain cbb where "CBB_init demo_malloc 32 = Some cbb"
    by (simp add: CBB_init_def OPENSSL_malloc_def demo_malloc_def OPENSSL_MALLOC_PREFIX_def)
  from CBS_asn1_oid_to_text_complete [OF demo_malloc_spec this, of "cbs_of [0x55]" "[2, 5]"]
  show ?thesis by (simp add: demo_oid decimal.simps)
qed

theorem oid_text_roundtrip_witness:
  "\<exists>cbb' t junk. CBB_add_asn1_oid_from_text demo_malloc demo_cbb 0 [0x32, 0x2e, 0x35] 3 = (True, cbb') \<and>
     CBS_asn1_oid_to_text demo_malloc (cbs_of [0x55]) = Some t \<and> t = [0x32, 0x2e, 0x35, 0] @ junk"
proof -
  let ?s = "[0x32, 0x2e, 0x35] :: u8 list"
  have w: "cbb_writer demo_malloc (\<lambda>cbb d. CBB_add_asn1_oid_from_text demo_malloc cbb d ?s 3) [0x55]"
    using cbb_writer_oid [of "[2, 5]" 3 ?s demo_malloc] by (simp add: demo_oid decimal.simps)
  from demo_writes [OF w] obtain cbb' where
    c: "CBB_add_asn1_oid_from_text demo_malloc demo_cbb 0 ?s 3 = (True, cbb')" by auto
  then have "added demo_cbb cbb' = [0x55]" using added_bytes [OF w] by simp
  moreover obtain t where t: "CBS_asn1_oid_to_text demo_malloc (cbs_of [0x55]) = Some t" using demo_oid_text by blast
  ultimately show ?thesis
    using oid_text_roundtrip [of demo_malloc demo_cbb 3 ?s cbb' "cbs_of [0x55]" t] c by auto
qed

section \<open>The builder\<close>

text \<open>
  C4. Flushing refines the closing of frames: a flush of the builder at depth \<open>d\<close> that succeeds
  replaces its pending children by their closed frames, each length in front of its contents,
  and leaves the rest of the buffer; one that fails sets the error flag, and does so only when
  some frame is too long for its length or the buffer has to grow.
\<close>

theorem CBB_flush_closes_frames:
  assumes "malloc_spec malloc" "cbb_wf cbb" "\<not> error (base cbb)" "d \<le> length (children cbb)"
    and "CBB_flush malloc cbb d = (ok, cbb')"
  shows "if ok then \<exists>y. close (pending cbb d) = Some y \<and> children cbb' = take d (children cbb) \<and>
           bytes (base cbb') = take (pending_off cbb d) (bytes (base cbb)) @ y
         else error (base cbb') \<and>
           (\<forall>y. close (pending cbb d) = Some y \<longrightarrow> unat (cap (base cbb)) < pending_off cbb d + length y)"
  using CBB_flush_writes [OF assms(1-4)] assms(5) by (auto simp: writes_def split: if_splits)

text \<open>A builder with an open child that holds one byte.\<close>

definition demo_open :: CBB where
  "demo_open = snd (CBB_add_u8 demo_malloc (snd (CBB_add_u8_length_prefixed demo_malloc demo_cbb 0)) 1 7)"

lemma demo_open_facts:
  "cbb_wf demo_open" "\<not> error (base demo_open)" "length (children demo_open) = 1"
  "close (pending demo_open 0) = Some [1, 7]" "pending_off demo_open 0 = 0" "cap (base demo_open) = 16"
  by code_simp+

theorem CBB_flush_closes_frames_witness:
  "\<exists>cbb'. CBB_flush demo_malloc demo_open 0 = (True, cbb') \<and> bytes (base cbb') = [1, 7] \<and> children cbb' = []"
proof -
  obtain ok cbb' where r: "CBB_flush demo_malloc demo_open 0 = (ok, cbb')" by fastforce
  from CBB_flush_closes_frames [OF demo_malloc_spec demo_open_facts(1,2) _ r] r show ?thesis
    by (auto simp: demo_open_facts split: if_splits)
qed

text \<open>
  Every call on a builder in the error state fails and leaves it in the error state.
\<close>

theorem builder_error_sticky:
  assumes "error (base cbb)"
  shows "\<not> fst (CBB_flush malloc cbb d) \<and> \<not> fst (CBB_add_u8 malloc cbb d b) \<and> \<not> fst (CBB_add_asn1 malloc cbb d t) \<and>
    \<not> fst (CBB_add_asn1_uint64 malloc cbb d v) \<and> error (base (snd (CBB_flush malloc cbb d))) \<and>
    error (base (snd (CBB_add_u8 malloc cbb d b))) \<and> error (base (snd (CBB_add_asn1 malloc cbb d t))) \<and>
    error (base (snd (CBB_add_asn1_uint64 malloc cbb d v)))"
  using wr_flush.opn_sticky [OF assms] wr_u8.opn_sticky [OF assms] wr_uint64.opn_sticky [OF assms]
    CBB_add_asn1_sticky [OF assms] assms
  by simp

theorem builder_error_sticky_witness:
  "\<not> fst (CBB_flush demo_malloc (cbb_on_error demo_cbb 0) 0) \<and> error (base (snd (CBB_flush demo_malloc (cbb_on_error demo_cbb 0) 0)))"
proof -
  have "error (base (cbb_on_error demo_cbb 0))" by code_simp
  then show ?thesis using builder_error_sticky [of "cbb_on_error demo_cbb 0" demo_malloc 0] by blast
qed

text \<open>
  C19. In every state that a builder gets into after it was made by \<open>CBB_init\<close> or \<open>CBB_init_fixed\<close>, by any
  sequence of the calls that \<open>cbb_step\<close> lists, on any builder of the chain, whether they succeed or not,
  what is written lies within the capacity and the capacity within the block, and unless the error
  flag is set the open children lie behind one another inside what is written. The steps are the calls
  of cbb.c and unicode.c that flush, open a child or drop it, append, reserve space or account for what
  was written to it; a child is dropped only while there is no error. \<open>CBB_flush_asn1_set_of\<close>, which
  also takes a sorting function, is not a step: Cbb_Set says what it leaves.
\<close>

theorem builder_invariant:
  assumes "malloc_spec malloc" "cbb_reachable malloc cbb"
  shows "blen (base cbb) \<le> cap (base cbb) \<and> unat (cap (base cbb)) \<le> length (buf_bytes (base cbb)) \<and>
    (can_resize (base cbb) \<longrightarrow> length (buf_bytes (base cbb)) = unat (cap (base cbb))) \<and>
    (\<not> error (base cbb) \<longrightarrow> chain_wf 0 (children cbb) (unat (blen (base cbb))))"
  using cbb_reachable_wf [OF assms(2,1)] by (auto simp: cbb_wf_def buffer_wf_def)

lemma demo_open_reachable: "cbb_reachable demo_malloc demo_open"
proof -
  have "cbb_reachable demo_malloc demo_cbb" unfolding demo_cbb_def by (rule reachable_fixed) simp
  from reachable_step [OF this _ cbb_step.intros(2) [of demo_malloc demo_cbb 0]]
  have "cbb_reachable demo_malloc (snd (CBB_add_u8_length_prefixed demo_malloc demo_cbb 0))" by simp
  moreover have "1 \<le> length (children (snd (CBB_add_u8_length_prefixed demo_malloc demo_cbb 0)))" by code_simp
  ultimately show ?thesis unfolding demo_open_def by (blast intro: reachable_step cbb_step.intros(12))
qed

theorem builder_invariant_witness:
  "chain_wf 0 (children demo_open) (unat (blen (base demo_open))) \<and> length (children demo_open) = 1"
  using builder_invariant [OF demo_malloc_spec demo_open_reachable] demo_open_facts by blast

text \<open>
  C20. A call on a builder without an error does not fail when the buffer already has the room for the
  closed children and for what the call appends, whatever the allocator does. The calls are: the flush,
  bytes, zeros, the numbers of 8 to 64 bits of either byte order, the three length prefixes, an ASN.1 header,
  and the ASN.1 integers, booleans and octet strings; a 24-bit number and an octet string also have to
  fit into their fields.
\<close>

theorem builder_room_suffices:
  assumes "malloc_spec malloc" "cbb_wf cbb" "\<not> error (base cbb)" "d \<le> length (children cbb)"
  shows "(has_room cbb d 0 \<longrightarrow> fst (CBB_flush malloc cbb d)) \<and>
    (has_room cbb d (unat n) \<longrightarrow> length data = unat n \<longrightarrow> fst (CBB_add_bytes malloc cbb d data n)) \<and>
    (has_room cbb d (unat n) \<longrightarrow> fst (CBB_add_zeros malloc cbb d n)) \<and>
    (has_room cbb d 1 \<longrightarrow> fst (CBB_add_u8 malloc cbb d b)) \<and>
    (has_room cbb d 2 \<longrightarrow> fst (CBB_add_u16 malloc cbb d h) \<and> fst (CBB_add_u16le malloc cbb d h)) \<and>
    (has_room cbb d 3 \<longrightarrow> w < 0x1000000 \<longrightarrow> fst (CBB_add_u24 malloc cbb d w)) \<and>
    (has_room cbb d 4 \<longrightarrow> fst (CBB_add_u32 malloc cbb d w) \<and> fst (CBB_add_u32le malloc cbb d w)) \<and>
    (has_room cbb d 8 \<longrightarrow> fst (CBB_add_u64 malloc cbb d v) \<and> fst (CBB_add_u64le malloc cbb d v)) \<and>
    (has_room cbb d 1 \<longrightarrow> fst (CBB_add_u8_length_prefixed malloc cbb d)) \<and>
    (has_room cbb d 2 \<longrightarrow> fst (CBB_add_u16_length_prefixed malloc cbb d)) \<and>
    (has_room cbb d 3 \<longrightarrow> fst (CBB_add_u24_length_prefixed malloc cbb d)) \<and>
    (has_room cbb d (length (tag_bytes t) + 1) \<longrightarrow> fst (CBB_add_asn1 malloc cbb d t)) \<and>
    (has_room cbb d (length (der CBS_ASN1_INTEGER (uint_contents (be_bytes 8 (unat v))))) \<longrightarrow> fst (CBB_add_asn1_uint64 malloc cbb d v)) \<and>
    (has_room cbb d (length (der CBS_ASN1_INTEGER (int64_contents v))) \<longrightarrow> fst (CBB_add_asn1_int64 malloc cbb d v)) \<and>
    (has_room cbb d (length (der CBS_ASN1_OCTETSTRING data)) \<longrightarrow> length data = unat n \<longrightarrow> n < 0xffffffff \<longrightarrow>
       fst (CBB_add_asn1_octet_string malloc cbb d data n)) \<and>
    (has_room cbb d (length (der CBS_ASN1_BOOLEAN [if i \<noteq> 0 then 0xff else 0])) \<longrightarrow> fst (CBB_add_asn1_bool malloc cbb d i))"
proof -
  note room = writer_room [OF _ assms]
  have child: "fst (cbb_add_length_prefixed malloc cbb d k)" if "has_room cbb d (unat k)" for k
    using begins_room [OF begins_length_prefixed [OF assms]] that by simp
  show ?thesis
  proof (intro conjI impI)
    show "fst (CBB_add_u24 malloc cbb d w)" if "has_room cbb d 3" "w < 0x1000000"
      using room [OF cbb_writer_add_u24 [of w]] that by (simp add: word_less_nat_alt)
    show "fst (CBB_add_asn1_octet_string malloc cbb d data n)"
      if "has_room cbb d (length (der CBS_ASN1_OCTETSTRING data))" "length data = unat n" "n < 0xffffffff"
      using room [OF cbb_writer_octet_string [of data n]] that by (simp add: word_less_nat_alt)
    show "fst (CBB_add_asn1 malloc cbb d t)" if "has_room cbb d (length (tag_bytes t) + 1)"
      using begins_room [OF CBB_add_asn1_begins [OF assms]] that by simp
    show "fst (CBB_add_u8_length_prefixed malloc cbb d)" if "has_room cbb d 1"
      using child [of 1] that by (simp add: CBB_add_u8_length_prefixed_def)
    show "fst (CBB_add_u16_length_prefixed malloc cbb d)" if "has_room cbb d 2"
      using child [of 2] that by (simp add: CBB_add_u16_length_prefixed_def)
    show "fst (CBB_add_u24_length_prefixed malloc cbb d)" if "has_room cbb d 3"
      using child [of 3] that by (simp add: CBB_add_u24_length_prefixed_def)
    show "fst (CBB_add_bytes malloc cbb d data n)" if "has_room cbb d (unat n)" "length data = unat n"
      using room [OF cbb_writer_add_bytes] that by simp
  qed (simp_all add: room [OF wr_flush.cbb_writer_axioms] room [OF wr_zeros.cbb_writer_axioms] room [OF wr_u8.cbb_writer_axioms]
      room [OF wr_u16.cbb_writer_axioms] room [OF wr_u16le.cbb_writer_axioms] room [OF wr_u32.cbb_writer_axioms]
      room [OF wr_u32le.cbb_writer_axioms] room [OF wr_u64.cbb_writer_axioms] room [OF wr_u64le.cbb_writer_axioms]
      room [OF wr_uint64.cbb_writer_axioms] room [OF wr_int64.cbb_writer_axioms] room [OF wr_bool.cbb_writer_axioms])
qed

theorem builder_room_suffices_witness:
  "fst (CBB_add_asn1_uint64 (\<lambda>_. None) demo_open 0 300) \<and> fst (CBB_add_u16_length_prefixed (\<lambda>_. None) demo_open 1) \<and>
   fst (CBB_add_bytes (\<lambda>_. None) demo_open 1 [1, 2, 3] 3)"
proof -
  have m: "malloc_spec (\<lambda>_. None)" by (simp add: malloc_spec_def)
  have "length (der CBS_ASN1_INTEGER (uint_contents (be_bytes 8 (unat (300 :: u64))))) \<le> 11"
    using length_uint_contents [of "be_bytes 8 (unat (300 :: u64))"] by (simp add: length_der_universal)
  then have "has_room demo_open 0 (length (der CBS_ASN1_INTEGER (uint_contents (be_bytes 8 (unat (300 :: u64))))))"
    by (simp add: has_room_def demo_open_facts)
  moreover have "has_room demo_open 1 2" "has_room demo_open 1 3" by code_simp+
  ultimately show ?thesis
    using builder_room_suffices [OF m demo_open_facts(1,2), of 0, where v = 300]
      builder_room_suffices [OF m demo_open_facts(1,2), of 1, where data = "[1, 2, 3]" and n = 3]
    by (simp add: demo_open_facts)
qed

text \<open>
  Reserving space keeps the written bytes; on success the buffer has the room asked for,
  without wrap-around in the sizes, and on failure the error flag is set.
\<close>

theorem cbb_buffer_reserve_result:
  assumes "buffer_wf b" "malloc_spec malloc" "cbb_buffer_reserve malloc b n = (ok, b')"
  shows "buffer_wf b' \<and> bytes b' = bytes b \<and> blen b' = blen b \<and> cap b \<le> cap b' \<and>
    (if ok then error b' = error b \<and> unat (blen b) + unat n \<le> unat (cap b') else error b')"
  using cbb_buffer_reserve_spec [OF assms] by auto

theorem cbb_buffer_reserve_result_witness:
  "\<exists>ok b'. cbb_buffer_reserve demo_malloc (base demo_cbb) 40 = (ok, b') \<and> \<not> ok \<and> error b' \<and> bytes b' = []"
proof -
  have "buffer_wf (base demo_cbb)" using demo_cbb_facts(1) by (simp add: cbb_wf_def)
  moreover obtain b' where "cbb_buffer_reserve demo_malloc (base demo_cbb) 40 = (False, b')"
    by (simp add: cbb_buffer_reserve_def demo_cbb_def CBB_init_fixed_def cbb_init_def Let_def)
  ultimately show ?thesis using cbb_buffer_reserve_result [of "base demo_cbb" demo_malloc 40 False b'] by auto
qed

section \<open>BER\<close>

text \<open>A constructed OCTET STRING of indefinite length, with two chunks.\<close>

definition demo_ber :: "u8 list" where
  "demo_ber = [0x24, 0x80, 0x04, 0x01, 0x07, 0x04, 0x01, 0x08, 0, 0]"

lemma demo_ber_facts:
  "cbs_find_ber (cbs_of demo_ber) 0 = Some True"
  "map_option (\<lambda>(out, st). cbs_bytes out) (fst (CBS_asn1_ber_to_der demo_malloc (cbs_of demo_ber))) = Some [0x04, 0x02, 7, 8]"
  by code_simp+

lemma demo_ber_view: "cbs_wf (cbs_of demo_ber)" "cbs_bytes (cbs_of demo_ber) = demo_ber"
  by (simp_all add: demo_ber_def)

lemma demo_ber_element: "ber_element 128 demo_ber"
proof -
  have "case CBS_get_any_ber_asn1_element (cbs_of demo_ber) of
      (None, c) \<Rightarrow> False
    | (Some el, c) \<Rightarrow> element_view el = (0x20000004, [0x24, 0x80], [], True, True) \<and> cbs_bytes c = drop 2 demo_ber" by code_simp
  then obtain el c where el: "CBS_get_any_ber_asn1_element (cbs_of demo_ber) = (Some el, c)"
    "element_view el = (0x20000004, [0x24, 0x80], [], True, True)" "cbs_bytes c = drop 2 demo_ber"
    by (auto split: prod.splits option.splits)
  have e: "element_spec True demo_ber = Some ((0x20000004, [0x24, 0x80], [], True, True), drop 2 demo_ber)"
    using rd_element.get_Some(1) [OF demo_ber_view(1) el(1) [unfolded CBS_get_any_ber_asn1_element_def]] el(2,3)
    by (simp add: demo_ber_view)
  let ?inner = "cbs_of (drop 2 demo_ber)"
  have i: "cbs_wf ?inner" "cbs_bytes ?inner = drop 2 demo_ber" by (simp_all add: demo_ber_def)
  have "case cbs_convert_ber demo_malloc ?inner demo_cbb 0 4 True 1 of (ok, c, cbb) \<Rightarrow> ok \<and> cbs_bytes c = []" by code_simp
  then obtain c2 cbb2 where run: "cbs_convert_ber demo_malloc ?inner demo_cbb 0 4 True 1 = (True, c2, cbb2)" "cbs_bytes c2 = []"
    by (auto split: prod.splits)
  have "runs demo_malloc (\<lambda>cbb d. cbs_convert_ber demo_malloc ?inner cbb d 4 True 1) (ber_spec 4 True 127 (drop 2 demo_ber))"
    using cbs_convert_ber_runs [OF i(1), of 1 demo_malloc 4 True] i(2) by simp
  moreover have "ready demo_malloc demo_cbb 0" by (simp add: ready_def)
  ultimately obtain x where "ber_spec 4 True 127 (drop 2 demo_ber) = Some (x, [])"
    using run by (fastforce simp: runs_def split: option.splits)
  moreover have "inner_mode 0 0x20000004 = 4" by code_simp
  ultimately show ?thesis by (simp add: ber_element_def e)
qed

text \<open>
  C14. \<open>cbs_find_ber\<close> answers that nothing has to be converted if and only if the input is a
  sequence of DER elements, constructed ones again and none of them a constructed string,
  within the nesting limit.
\<close>

theorem cbs_find_ber_decides_der:
  assumes "cbs_wf inp"
  shows "cbs_find_ber inp depth = Some False \<longleftrightarrow>
    unat depth \<le> unat kMaxDepth \<and> der_nested (unat kMaxDepth - unat depth) (cbs_bytes inp)"
  using cbs_find_ber_iff [OF assms, of depth] by (simp add: kMaxDepth_def)

text \<open>A SEQUENCE of an INTEGER and an OCTET STRING is DER; with a chunked string it is not.\<close>

theorem cbs_find_ber_decides_der_witness:
  "der_nested 128 [0x30, 6, 2, 1, 5, 4, 1, 7] \<and> \<not> der_nested 128 [0x30, 7, 2, 1, 5, 0x24, 2, 4, 0]"
proof -
  have "cbs_find_ber (cbs_of [0x30, 6, 2, 1, 5, 4, 1, 7]) 0 = Some False"
    "cbs_find_ber (cbs_of [0x30, 7, 2, 1, 5, 0x24, 2, 4, 0]) 0 = Some True" by code_simp+
  then show ?thesis
    using cbs_find_ber_decides_der [of "cbs_of [0x30, 6, 2, 1, 5, 4, 1, 7]" 0]
      cbs_find_ber_decides_der [of "cbs_of [0x30, 7, 2, 1, 5, 0x24, 2, 4, 0]" 0]
    by (simp add: kMaxDepth_def)
qed

text \<open>
  C9. \<open>CBS_asn1_ber_to_der\<close> returns one DER element. If the input is DER, this is its first
  element, returned in place without an allocation, and the input is advanced over it. If the input
  is a single BER element, it is the DER of that element, as the reference conversion defines it, and
  the input is used up. A second conversion changes nothing: it returns the same bytes in place.
\<close>

theorem CBS_asn1_ber_to_der_result:
  assumes "malloc_spec malloc" "cbs_wf inp" "der_nested 128 (cbs_bytes inp) \<or> ber_element 128 (cbs_bytes inp)"
    and "CBS_asn1_ber_to_der malloc inp = (Some (out, storage), inp')"
  shows "(\<exists>tag body. \<not> reserved_tag tag \<and> cbs_bytes out = der tag body) \<and> der_nested 128 (cbs_bytes out) \<and>
    (if der_nested 128 (cbs_bytes inp) then storage = None \<and> cbs_bytes inp = cbs_bytes out @ cbs_bytes inp'
     else ber_spec 0 False 128 (cbs_bytes inp) = Some (cbs_bytes out, []) \<and> cbs_bytes inp' = []) \<and>
    (\<forall>c. cbs_wf c \<and> cbs_bytes c = cbs_bytes out \<longrightarrow> (\<exists>out2 c'. CBS_asn1_ber_to_der malloc c = (Some (out2, None), c') \<and>
       cbs_bytes out2 = cbs_bytes out \<and> cbs_bytes c' = []))"
proof -
  have again: "\<exists>out2 c'. CBS_asn1_ber_to_der malloc c = (Some (out2, None), c') \<and> cbs_bytes out2 = cbs_bytes out \<and> cbs_bytes c' = []"
    if "cbs_wf c" "cbs_bytes c = cbs_bytes out" "der_nested 128 (cbs_bytes out)" "\<not> reserved_tag tag"
      "length body < 4294967296" "cbs_bytes out = der tag body" for c tag body
    using CBS_asn1_ber_to_der_unchanged [OF that(1), of malloc "cbs_bytes out" "[]"] that(2-6) by auto
  show ?thesis
  proof (cases "der_nested 128 (cbs_bytes inp)")
    case True
    from CBS_asn1_ber_to_der_in_place [OF assms(2) True assms(4)] obtain tag body where
      t: "storage = None" "\<not> reserved_tag tag" "length body < 4294967296" "cbs_bytes out = der tag body"
        "cbs_bytes inp = cbs_bytes out @ cbs_bytes inp'" by blast
    have "der_nested 128 (cbs_bytes out)" using der_nested_first [of 128 tag body "cbs_bytes inp'"] True t by simp
    with t again [OF _ _ this t(2-4)] True show ?thesis by auto
  next
    case False
    note c = CBS_asn1_ber_to_der_converted [OF assms(1,2) False assms(4)]
    from ber_element_converted [OF _ conjunct2 [OF c]] assms(3) False obtain tag body where
      t: "cbs_bytes inp' = []" "\<not> reserved_tag tag" "length body < 4294967295" "cbs_bytes out = der tag body" by blast
    have d: "der_nested 128 (cbs_bytes out)" using ber_spec_der conjunct2 [OF c] by blast
    have "length body < 4294967296" using t(3) by simp
    with t d c again [OF _ _ d t(2) this t(4)] False show ?thesis by auto
  qed
qed

theorem CBS_asn1_ber_to_der_result_witness:
  "\<exists>out storage inp'. CBS_asn1_ber_to_der demo_malloc (cbs_of demo_ber) = (Some (out, storage), inp') \<and>
     cbs_bytes out = [0x04, 0x02, 7, 8] \<and> der_nested 128 [0x04, 0x02, 7, 8]"
proof -
  obtain out storage inp' where
    r: "CBS_asn1_ber_to_der demo_malloc (cbs_of demo_ber) = (Some (out, storage), inp')" "cbs_bytes out = [0x04, 0x02, 7, 8]"
    using demo_ber_facts(2) by (cases "CBS_asn1_ber_to_der demo_malloc (cbs_of demo_ber)") auto
  with CBS_asn1_ber_to_der_result [OF demo_malloc_spec demo_ber_view(1) _ r(1)] demo_ber_element show ?thesis
    by (simp add: demo_ber_view)
qed

text \<open>
  C11. The conversion loop implements the reference conversion: started on any builder that is
  ready for it, it appends exactly the bytes of \<open>ber_spec\<close> and leaves the rest of the input, and
  it fails on every input that \<open>ber_spec\<close> rejects.
\<close>

theorem cbs_convert_ber_refines:
  assumes "cbs_wf inp" "unat depth \<le> 128"
  shows "runs malloc (\<lambda>cbb d. cbs_convert_ber malloc inp cbb d st eoc depth)
    (ber_spec st eoc (128 - unat depth) (cbs_bytes inp))"
  by (rule cbs_convert_ber_runs [OF assms])

theorem cbs_convert_ber_refines_witness:
  "runs demo_malloc (\<lambda>cbb d. cbs_convert_ber demo_malloc (cbs_of demo_ber) cbb d 0 False 0) (ber_spec 0 False 128 demo_ber)"
  using cbs_convert_ber_refines [of "cbs_of demo_ber" 0 demo_malloc 0 False] by (simp add: demo_ber_view)

text \<open>
  An implicitly tagged string is returned whole: either the input holds it as one primitive
  element with the outer tag, or as a constructed one whose chunks, each with the inner tag, put
  together are the result.
\<close>

theorem implicit_string_contents:
  assumes "malloc_spec malloc" "cbs_wf inp"
    and "CBS_get_asn1_implicit_string malloc inp outer inner = (Some (out, storage), inp')"
  shows "(storage = None \<and> cbs_bytes inp = der outer (cbs_bytes out) @ cbs_bytes inp') \<or>
     (\<exists>chunks. cbs_bytes out = concat chunks \<and> cbs_bytes inp =
        der (outer OR CBS_ASN1_CONSTRUCTED) (concat (map (der inner) chunks)) @ cbs_bytes inp')"
  using CBS_get_asn1_implicit_string_result [OF assms] by blast

lemma demo_implicit:
  "map_option (\<lambda>(out, st). cbs_bytes out) (fst (CBS_get_asn1_implicit_string demo_malloc
     (cbs_of [0xa0, 0x06, 0x04, 0x01, 0x07, 0x04, 0x01, 0x08]) 0x80000000 CBS_ASN1_OCTETSTRING)) = Some [7, 8]"
  by code_simp

theorem implicit_string_contents_witness:
  "\<exists>out storage inp'. CBS_get_asn1_implicit_string demo_malloc
      (cbs_of [0xa0, 0x06, 0x04, 0x01, 0x07, 0x04, 0x01, 0x08]) 0x80000000 CBS_ASN1_OCTETSTRING =
      (Some (out, storage), inp') \<and> cbs_bytes out = [7, 8] \<and>
      ((storage = None \<and> [0xa0, 0x06, 0x04, 0x01, 0x07, 0x04, 0x01, 0x08] = der 0x80000000 [7, 8] @ cbs_bytes inp') \<or>
       (\<exists>chunks. [7, 8] = concat chunks \<and> [0xa0, 0x06, 0x04, 0x01, 0x07, 0x04, 0x01, 0x08] =
          der (0x80000000 OR CBS_ASN1_CONSTRUCTED) (concat (map (der CBS_ASN1_OCTETSTRING) chunks)) @ cbs_bytes inp'))"
proof -
  let ?inp = "cbs_of [0xa0, 0x06, 0x04, 0x01, 0x07, 0x04, 0x01, 0x08]"
  obtain out storage inp' where
    r: "CBS_get_asn1_implicit_string demo_malloc ?inp 0x80000000 CBS_ASN1_OCTETSTRING = (Some (out, storage), inp')"
      "cbs_bytes out = [7, 8]"
    using demo_implicit by (cases "CBS_get_asn1_implicit_string demo_malloc ?inp 0x80000000 CBS_ASN1_OCTETSTRING") auto
  with implicit_string_contents [OF demo_malloc_spec _ r(1)] show ?thesis by auto
qed

end
