(* ===== verification/Posix_Time.thy ===== *)
theory Posix_Time
  imports Main "HOL-Library.Signed_Division"
begin

text \<open>
  posix_time.c: conversion between POSIX time and broken-down UTC. The C integers are
  \<open>int\<close>; the bounds proved below keep every value inside \<open>int64_t\<close>. C division is
  \<open>sdiv\<close>, which rounds towards zero.
\<close>

section \<open>Definitions\<close>

definition SECS_PER_HOUR :: int where "SECS_PER_HOUR = 60 * 60"

definition SECS_PER_DAY :: int where "SECS_PER_DAY = 24 * SECS_PER_HOUR"

definition is_valid_date :: "int \<Rightarrow> int \<Rightarrow> int \<Rightarrow> bool" where
  "is_valid_date year month day =
     (if day < 1 \<or> month < 1 \<or> year < 0 \<or> year > 9999 then False
      else if month \<in> {1, 3, 5, 7, 8, 10, 12} then day > 0 \<and> day \<le> 31
      else if month \<in> {4, 6, 9, 11} then day > 0 \<and> day \<le> 30
      else if month = 2 then
        (if year smod 4 = 0 \<and> year smod 100 \<noteq> 0 \<or> year smod 400 = 0
         then day > 0 \<and> day \<le> 29 else day > 0 \<and> day \<le> 28)
      else False)"

definition is_valid_time :: "int \<Rightarrow> int \<Rightarrow> int \<Rightarrow> bool" where
  "is_valid_time hours minutes seconds =
     (if hours < 0 \<or> minutes < 0 \<or> seconds < 0 \<or> hours > 23 \<or> minutes > 59 \<or> seconds > 59
      then False else True)"

definition MIN_POSIX_TIME :: int where "MIN_POSIX_TIME = -62167219200"

definition MAX_POSIX_TIME :: int where "MAX_POSIX_TIME = 253402300799"

definition is_valid_posix_time :: "int \<Rightarrow> bool" where
  "is_valid_posix_time time \<longleftrightarrow> MIN_POSIX_TIME \<le> time \<and> time \<le> MAX_POSIX_TIME"

definition posix_time_from_utc :: "int \<Rightarrow> int \<Rightarrow> int \<Rightarrow> int \<Rightarrow> int \<Rightarrow> int \<Rightarrow> int option" where
  "posix_time_from_utc year month day hours minutes seconds =
     (if \<not> is_valid_date year month day \<or> \<not> is_valid_time hours minutes seconds then None
      else
        let year = (if month \<le> 2 then year - 1 else year);
            era = (if year \<ge> 0 then year else year - 399) sdiv 400;
            year_of_era = year - era * 400;
            day_of_year = (153 * (if month > 2 then month - 3 else month + 9) + 2) sdiv 5 + day - 1;
            day_of_era = year_of_era * 365 + year_of_era sdiv 4 - year_of_era sdiv 100 + day_of_year;
            posix_days = era * 146097 + day_of_era - 719468
        in Some (posix_days * SECS_PER_DAY + hours * SECS_PER_HOUR + minutes * 60 + seconds))"

text \<open>The six out-parameters, in the order of the code.\<close>

type_synonym utc = "int \<times> int \<times> int \<times> int \<times> int \<times> int"

definition utc_from_posix_time :: "int \<Rightarrow> utc option" where
  "utc_from_posix_time time =
     (if \<not> is_valid_posix_time time then None
      else
        let days = time sdiv SECS_PER_DAY;
            leftover_seconds = time smod SECS_PER_DAY;
            (days, leftover_seconds) =
              (if leftover_seconds < 0 then (days - 1, leftover_seconds + SECS_PER_DAY)
               else (days, leftover_seconds));
            days = days + 719468;
            era = (if days > 0 then days else days - 146096) sdiv 146097;
            day_of_era = days - era * 146097;
            year_of_era =
              (day_of_era - day_of_era sdiv 1460 + day_of_era sdiv 36524 - day_of_era sdiv 146096) sdiv 365;
            out_year = year_of_era + era * 400;
            day_of_year = day_of_era - (365 * year_of_era + year_of_era sdiv 4 - year_of_era sdiv 100);
            month_of_year = (5 * day_of_year + 2) sdiv 153;
            out_month = (if month_of_year < 10 then month_of_year + 3 else month_of_year - 9);
            out_year = (if out_month \<le> 2 then out_year + 1 else out_year);
            out_day = day_of_year - (153 * month_of_year + 2) sdiv 5 + 1;
            out_hours = leftover_seconds sdiv SECS_PER_HOUR;
            leftover_seconds = leftover_seconds smod SECS_PER_HOUR;
            out_minutes = leftover_seconds sdiv 60;
            out_seconds = leftover_seconds smod 60
        in Some (out_year, out_month, out_day, out_hours, out_minutes, out_seconds))"

text \<open>\<open>struct tm\<close>.\<close>

record tm =
  tm_sec :: int
  tm_min :: int
  tm_hour :: int
  tm_mday :: int
  tm_mon :: int
  tm_year :: int
  tm_wday :: int
  tm_yday :: int
  tm_isdst :: int

definition OPENSSL_tm_to_posix :: "tm \<Rightarrow> int option" where
  "OPENSSL_tm_to_posix tm =
     posix_time_from_utc (tm_year tm + 1900) (tm_mon tm + 1) (tm_mday tm) (tm_hour tm) (tm_min tm) (tm_sec tm)"

definition OPENSSL_posix_to_tm :: "int \<Rightarrow> tm option" where
  "OPENSSL_posix_to_tm time =
     (case utc_from_posix_time time of
        None \<Rightarrow> None
      | Some (year, mon, mday, hour, minute, sec) \<Rightarrow>
          Some \<lparr>tm_sec = sec, tm_min = minute, tm_hour = hour, tm_mday = mday, tm_mon = mon - 1,
                tm_year = year - 1900, tm_wday = 0, tm_yday = 0, tm_isdst = 0\<rparr>)"

text \<open>\<open>time_t\<close> has 64 bits here, so that the narrowing check of the code does not apply.\<close>

definition OPENSSL_timegm :: "tm \<Rightarrow> int option" where
  "OPENSSL_timegm tm = (case OPENSSL_tm_to_posix tm of None \<Rightarrow> None | Some posix_time \<Rightarrow> Some posix_time)"

definition OPENSSL_gmtime :: "int \<Rightarrow> tm option" where
  "OPENSSL_gmtime time = OPENSSL_posix_to_tm time"

definition INT64_MAX :: int where "INT64_MAX = 2 ^ 63 - 1"
definition INT64_MIN :: int where "INT64_MIN = - (2 ^ 63)"

text \<open>The out-parameter is the structure itself: it keeps its value on failure.\<close>

definition OPENSSL_gmtime_adj :: "tm \<Rightarrow> int \<Rightarrow> int \<Rightarrow> bool \<times> tm" where
  "OPENSSL_gmtime_adj tm offset_day offset_sec =
     (case OPENSSL_tm_to_posix tm of
        None \<Rightarrow> (False, tm)
      | Some posix_time \<Rightarrow>
          let posix_time = posix_time + offset_day * SECS_PER_DAY in
          if posix_time > 0 \<and> offset_sec > INT64_MAX - posix_time then (False, tm)
          else if posix_time < 0 \<and> offset_sec < INT64_MIN - posix_time then (False, tm)
          else (case OPENSSL_posix_to_tm (posix_time + offset_sec) of
                  None \<Rightarrow> (False, tm) | Some out \<Rightarrow> (True, out)))"

definition OPENSSL_gmtime_diff :: "tm \<Rightarrow> tm \<Rightarrow> (int \<times> int) option" where
  "OPENSSL_gmtime_diff from_tm to_tm =
     (case OPENSSL_tm_to_posix to_tm of
        None \<Rightarrow> None
      | Some time_to \<Rightarrow>
          (case OPENSSL_tm_to_posix from_tm of
             None \<Rightarrow> None
           | Some time_from \<Rightarrow>
               let timediff = time_to - time_from
               in Some (timediff sdiv SECS_PER_DAY, timediff smod SECS_PER_DAY)))"

section \<open>The calendar\<close>

definition leap :: "int \<Rightarrow> bool" where
  "leap y \<longleftrightarrow> 4 dvd y \<and> \<not> 100 dvd y \<or> 400 dvd y"

definition month_len :: "int \<Rightarrow> nat \<Rightarrow> int" where
  "month_len y m = (if m = 2 then (if leap y then 29 else 28) else if m \<in> {4, 6, 9, 11} then 30 else 31)"

definition year_len :: "int \<Rightarrow> int" where
  "year_len y = (if leap y then 366 else 365)"

text \<open>The number of days from 1 January of the year 0 to a date, counting years and months.\<close>

definition day_number :: "nat \<Rightarrow> nat \<Rightarrow> int \<Rightarrow> int" where
  "day_number y m d = (\<Sum>i < y. year_len (int i)) + (\<Sum>k = 1 ..< m. month_len (int y) k) + (d - 1)"

lemma sdiv_nonneg: "0 \<le> a \<Longrightarrow> 0 < b \<Longrightarrow> a sdiv b = a div b" for a b :: int
  by (cases "a = 0") (simp_all add: signed_divide_int_def)

lemma smod_nonneg: "0 \<le> a \<Longrightarrow> 0 < b \<Longrightarrow> a smod b = a mod b" for a b :: int
  by (cases "a = 0") (simp_all add: signed_modulo_int_def)

lemma div_step: "0 < n \<Longrightarrow> y div n = (y - 1) div n + (if n dvd y then 1 else 0)" for y n :: int
proof -
  assume n: "0 < n"
  show ?thesis
  proof (cases "n dvd y")
    case True
    then obtain k where "y = n * k" by blast
    moreover have "(n * k - 1) div n = k - 1"
      using n by (intro int_div_pos_eq [of _ _ _ "n - 1"]) (simp_all add: algebra_simps)
    ultimately show ?thesis using n True by simp
  next
    case False
    then have "0 < y mod n" using n by (simp add: dvd_eq_mod_eq_0 order_less_le)
    have "(y - 1) div n = y div n"
      using n \<open>0 < y mod n\<close> pos_mod_bound [OF n, of y] mult_div_mod_eq [of n y]
      by (intro int_div_pos_eq [of _ _ _ "y mod n - 1"]) linarith+
    with False show ?thesis by simp
  qed
qed

text \<open>Leap years below a year.\<close>

definition leaps :: "int \<Rightarrow> int" where
  "leaps y = y div 4 - y div 100 + y div 400"

lemma leaps_step: "leaps y = leaps (y - 1) + (if leap y then 1 else 0)"
proof -
  have "400 dvd y \<Longrightarrow> 100 dvd y" "100 dvd y \<Longrightarrow> 4 dvd y"
    by (rule dvd_trans [of _ 400], simp_all) (rule dvd_trans [of _ 100], simp_all)
  moreover have "leaps y = leaps (y - 1) + (if 4 dvd y then 1 else 0) - (if 100 dvd y then 1 else 0) + (if 400 dvd y then 1 else 0)"
    unfolding leaps_def div_step [of 4 y, simplified] div_step [of 100 y, simplified] div_step [of 400 y, simplified]
    by (simp only: algebra_simps)
  ultimately show ?thesis unfolding leap_def by (cases "4 dvd y"; cases "100 dvd y"; cases "400 dvd y") simp_all
qed

lemma sum_year_len: "(\<Sum>i < y. year_len (int i)) = 365 * int y + leaps (int y - 1) + 1"
proof (induction y)
  case 0
  then show ?case by (simp add: leaps_def)
next
  case (Suc y)
  then show ?case using leaps_step [of "int y"] by (simp add: year_len_def)
qed

section \<open>Days since the epoch\<close>

text \<open>
  The days that the code computes, for a year that starts in March: \<open>mp\<close> counts the months
  from March on.
\<close>

definition civil_days :: "int \<Rightarrow> int \<Rightarrow> int \<Rightarrow> int" where
  "civil_days y mp d = 365 * y + leaps y + (153 * mp + 2) div 5 + d - 1"

lemma era_days:
  fixes y :: int
  defines "e \<equiv> y div 400" and "x \<equiv> y mod 400"
  shows "e * 146097 + (x * 365 + x div 4 - x div 100 + r) = 365 * y + leaps y + r"
proof -
  have y: "y = 400 * e + x" by (simp add: e_def x_def)
  have "(400 * e + x) div 4 = 100 * e + x div 4" "(400 * e + x) div 100 = 4 * e + x div 100"
    using div_mult_self1 [of 4 x "100 * e"] div_mult_self1 [of 100 x "4 * e"] by (simp_all add: algebra_simps)
  then have "y div 4 = 100 * e + x div 4" "y div 100 = 4 * e + x div 100" unfolding y by simp_all
  then show ?thesis unfolding leaps_def e_def [symmetric] by (simp add: y algebra_simps)
qed

lemma era_sdiv: "-1 \<le> y \<Longrightarrow> (if y \<ge> 0 then y else y - 399) sdiv 400 = y div 400" for y :: int
proof (cases "y \<ge> 0")
  case False
  assume "-1 \<le> y"
  with False have "y = -1" by simp
  then show ?thesis by (simp add: signed_divide_int_def)
qed (simp add: sdiv_nonneg)

lemma month_cases:
  assumes "1 \<le> m" "m \<le> 12"
  obtains "m = 1" | "m = 2" | "m = 3" | "m = 4" | "m = 5" | "m = 6" | "m = 7" | "m = 8" | "m = 9"
    | "m = 10" | "m = 11" | "m = (12 :: int)"
proof -
  have "m \<in> set [1 .. 12]" using assms by simp
  also have "[1 .. 12] = [1, 2, 3, 4, 5, 6, 7, 8, 9, 10, 11, 12 :: int]" by (simp add: upto.simps)
  finally have "m \<in> set [1, 2, 3, 4, 5, 6, 7, 8, 9, 10, 11, 12]" .
  with that show thesis unfolding list.set insert_iff empty_iff by metis
qed

lemma is_valid_date_iff:
  "is_valid_date y m d \<longleftrightarrow> 0 \<le> y \<and> y \<le> 9999 \<and> 1 \<le> m \<and> m \<le> 12 \<and> 1 \<le> d \<and> d \<le> month_len y (nat m)"
proof (cases "0 \<le> y \<and> 1 \<le> m \<and> m \<le> 12")
  case True
  then have l: "(y smod 4 = 0 \<and> y smod 100 \<noteq> 0 \<or> y smod 400 = 0) = leap y"
    by (simp add: smod_nonneg leap_def dvd_eq_mod_eq_0)
  from True have "1 \<le> m" "m \<le> 12" by simp_all
  then show ?thesis
    by (cases rule: month_cases) (use True in \<open>simp_all add: is_valid_date_def l month_len_def\<close>)
next
  case False
  then show ?thesis unfolding is_valid_date_def by auto
qed

lemma posix_time_from_utc_civil:
  assumes "is_valid_date y m d" "is_valid_time h mi s"
  shows "posix_time_from_utc y m d h mi s =
    Some ((civil_days (if m \<le> 2 then y - 1 else y) (if m > 2 then m - 3 else m + 9) d - 719468) * 86400
      + h * 3600 + mi * 60 + s)"
proof -
  let ?y = "if m \<le> 2 then y - 1 else y" and ?mp = "if m > 2 then m - 3 else m + 9"
  have v: "-1 \<le> ?y" "0 \<le> ?mp" using assms(1) by (auto simp: is_valid_date_iff)
  note e = era_sdiv [OF v(1)]
  have x: "?y - ?y div 400 * 400 = ?y mod 400" by (simp add: minus_div_mult_eq_mod)
  have x0: "0 \<le> ?y mod 400" by simp
  have "(153 * ?mp + 2) sdiv 5 = (153 * ?mp + 2) div 5" using v(2) by (intro sdiv_nonneg) linarith+
  then show ?thesis
    using assms era_days [of ?y "(153 * ?mp + 2) div 5 + d - 1"]
    unfolding posix_time_from_utc_def Let_def e x civil_days_def
    by (simp only: sdiv_nonneg [OF x0, of 4] sdiv_nonneg [OF x0, of 100] SECS_PER_DAY_def SECS_PER_HOUR_def
        if_False not_not simp_thms option.inject zero_less_numeral) (simp only: algebra_simps)
qed

text \<open>The days before a month, from January and from March.\<close>

lemma month_sum:
  assumes "1 \<le> m" "m \<le> 12"
  shows "(\<Sum>k = 1 ..< nat m. month_len y k) =
    (if m > 2 then 59 + (if leap y then 1 else 0) + (153 * (m - 3) + 2) div 5
     else (153 * (m + 9) + 2) div 5 - 306)"
  using assms by (cases rule: month_cases) (simp_all add: numeral_eq_Suc month_len_def)

theorem civil_days_number:
  assumes "is_valid_date y m d"
  shows "civil_days (if m \<le> 2 then y - 1 else y) (if m > 2 then m - 3 else m + 9) d = day_number (nat y) (nat m) d - 60"
proof -
  have v: "0 \<le> y" "1 \<le> m" "m \<le> 12" using assms by (auto simp: is_valid_date_iff)
  show ?thesis
    using v(1) leaps_step [of y]
    unfolding civil_days_def day_number_def sum_year_len month_sum [OF v(2,3)]
    by (auto simp: algebra_simps)
qed

section \<open>Inverting the count\<close>

text \<open>
  A day of the 400-year era: century, four-year cycle, year in the cycle, and day of the
  year that starts in March. Only the last year of a cycle has a day 365, and the last cycle
  of a century only in the last century.
\<close>

definition era_split :: "int \<Rightarrow> int \<Rightarrow> int \<Rightarrow> int \<Rightarrow> bool" where
  "era_split c q k r \<longleftrightarrow> 0 \<le> c \<and> c \<le> 3 \<and> 0 \<le> q \<and> q \<le> 24 \<and> 0 \<le> k \<and> k \<le> 3 \<and> 0 \<le> r \<and> r \<le> 365 \<and>
     (r = 365 \<longrightarrow> k = 3 \<and> (q \<noteq> 24 \<or> c = 3))"

lemma era_split_year:
  assumes "era_split c q k r"
  defines "x \<equiv> 100 * c + 4 * q + k"
  shows "0 \<le> x" "x < 400" "x div 4 = 25 * c + q" "x div 100 = c"
    "365 * x + x div 4 - x div 100 = 36524 * c + 1461 * q + 365 * k"
proof -
  have a: "0 \<le> c" "c \<le> 3" "0 \<le> q" "q \<le> 24" "0 \<le> k" "k \<le> 3" using assms(1) by (simp_all add: era_split_def)
  then show "0 \<le> x" "x < 400" by (simp_all add: x_def)
  show d4: "x div 4 = 25 * c + q" unfolding x_def using a by (intro int_div_pos_eq [of _ _ _ k]) simp_all
  show d100: "x div 100 = c" unfolding x_def using a by (intro int_div_pos_eq [of _ _ _ "4 * q + k"]) simp_all
  show "365 * x + x div 4 - x div 100 = 36524 * c + 1461 * q + 365 * k"
    unfolding d4 d100 by (simp add: x_def)
qed

lemma era_split_doe:
  assumes "era_split c q k r"
  defines "doe \<equiv> 36524 * c + 1461 * q + 365 * k + r"
  shows "0 \<le> doe" "doe < 146097"
    "(doe - doe div 1460 + doe div 36524 - doe div 146096) div 365 = 100 * c + 4 * q + k"
proof -
  note a = assms(1) [unfolded era_split_def]
  show b: "0 \<le> doe" "doe < 146097" using a by (auto simp: doe_def)
  define e :: int where "e = (if 24 * c + q + 365 * k + r \<ge> 1460 then 1 else 0)"
  have d1: "doe div 1460 = 25 * c + q + e"
    using a by (intro int_div_pos_eq [of _ _ _ "24 * c + q + 365 * k + r - 1460 * e"]) (auto simp: doe_def e_def)
  have d2: "doe div 36524 - doe div 146096 = c"
  proof (cases "doe = 146096")
    case True
    then have "c = 3" using a by (auto simp: doe_def)
    with True show ?thesis by simp
  next
    case False
    then have "doe div 146096 = 0" using b by simp
    moreover have "1461 * q + 365 * k + r < 36524"
      using a False by (auto simp: doe_def)
    then have "doe div 36524 = c"
      using a by (intro int_div_pos_eq [of _ _ _ "1461 * q + 365 * k + r"]) (auto simp: doe_def)
    ultimately show ?thesis by simp
  qed
  have "doe - doe div 1460 + doe div 36524 - doe div 146096 = 365 * (100 * c + 4 * q + k) + (r - e)"
    using d1 d2 by (simp add: doe_def)
  moreover have "0 \<le> r - e" "r - e < 365" using a by (auto simp: e_def)
  ultimately show "(doe - doe div 1460 + doe div 36524 - doe div 146096) div 365 = 100 * c + 4 * q + k"
    by (intro int_div_pos_eq [of _ _ _ "r - e"]) simp_all
qed

lemma era_split_exists:
  assumes "0 \<le> doe" "doe < 146097"
  obtains c q k r where "era_split c q k r" "doe = 36524 * c + 1461 * q + 365 * k + r"
proof -
  define c where "c = (if doe = 146096 then 3 else doe div 36524)"
  define r1 where "r1 = doe - 36524 * c"
  have c: "0 \<le> c" "c \<le> 3" "0 \<le> r1" "r1 \<le> 36523 \<or> c = 3 \<and> r1 = 36524"
  proof -
    have "doe div 36524 * 36524 + doe mod 36524 = doe" by simp
    moreover have "0 \<le> doe mod 36524" "doe mod 36524 < 36524" by simp_all
    moreover have "0 \<le> doe div 36524" using assms by simp
    ultimately show "0 \<le> c" "c \<le> 3" "0 \<le> r1" "r1 \<le> 36523 \<or> c = 3 \<and> r1 = 36524"
      using assms by (auto simp: c_def r1_def)
  qed
  define q where "q = r1 div 1461"
  define r2 where "r2 = r1 - 1461 * q"
  have q: "0 \<le> q" "q \<le> 24" "0 \<le> r2" "r2 \<le> 1460" "r2 = 1460 \<longrightarrow> q \<noteq> 24 \<or> c = 3"
  proof -
    have "q * 1461 + r1 mod 1461 = r1" by (simp add: q_def)
    moreover have "0 \<le> r1 mod 1461" "r1 mod 1461 < 1461" by simp_all
    ultimately show "0 \<le> q" "q \<le> 24" "0 \<le> r2" "r2 \<le> 1460" "r2 = 1460 \<longrightarrow> q \<noteq> 24 \<or> c = 3"
      using c unfolding r2_def by auto
  qed
  define k where "k = (if r2 = 1460 then 3 else r2 div 365)"
  define r where "r = r2 - 365 * k"
  have "r2 div 365 * 365 + r2 mod 365 = r2" "0 \<le> r2 mod 365" "r2 mod 365 < 365" by simp_all
  then have "0 \<le> k" "k \<le> 3" "0 \<le> r" "r \<le> 365" "r = 365 \<longrightarrow> r2 = 1460 \<and> k = 3"
    using q by (auto simp: k_def r_def)
  then have "era_split c q k r" using c q by (auto simp: era_split_def)
  moreover have "doe = 36524 * c + 1461 * q + 365 * k + r" by (simp add: r_def r2_def r1_def)
  ultimately show thesis by (rule that)
qed

text \<open>Months counted from March: their first day and the length of the longest such month.\<close>

definition first_day :: "int \<Rightarrow> int" where
  "first_day mp = (153 * mp + 2) div 5"

definition march_len :: "int \<Rightarrow> int" where
  "march_len mp = (if mp \<in> {1, 3, 6, 8} then 30 else if mp = 11 then 29 else 31)"

definition month_day :: "int \<Rightarrow> int \<Rightarrow> bool" where
  "month_day mp d \<longleftrightarrow> 0 \<le> mp \<and> mp \<le> 11 \<and> 1 \<le> d \<and> d \<le> march_len mp"

lemma month_of_day:
  assumes "month_day mp d"
  shows "(5 * (first_day mp + d - 1) + 2) div 153 = mp" "0 \<le> first_day mp + d - 1" "first_day mp + d - 1 \<le> 365"
    "first_day mp + d - 1 = 365 \<longleftrightarrow> mp = 11 \<and> d = 29"
proof -
  have m: "1 \<le> mp + 1" "mp + 1 \<le> 12" and d: "1 \<le> d" "d \<le> march_len mp" using assms by (auto simp: month_day_def)
  have "5 * (first_day mp + d - 1) + 2 - 153 * mp \<ge> 0 \<and> 5 * (first_day mp + d - 1) + 2 - 153 * mp < 153 \<and>
      0 \<le> first_day mp + d - 1 \<and> first_day mp + d - 1 \<le> 365 \<and> (first_day mp + d - 1 = 365 \<longleftrightarrow> mp = 11 \<and> d = 29)"
    using m by (cases rule: month_cases) (use d in \<open>auto simp: first_day_def march_len_def\<close>)
  then show "(5 * (first_day mp + d - 1) + 2) div 153 = mp" "0 \<le> first_day mp + d - 1" "first_day mp + d - 1 \<le> 365"
    "first_day mp + d - 1 = 365 \<longleftrightarrow> mp = 11 \<and> d = 29"
    by (auto intro: int_div_pos_eq [of _ _ _ "5 * (first_day mp + d - 1) + 2 - 153 * mp"])
qed

lemma month_day_exists:
  assumes "0 \<le> r" "r \<le> 365"
  obtains mp d where "month_day mp d" "r = first_day mp + d - 1"
proof -
  define mp where "mp = (5 * r + 2) div 153"
  have "mp * 153 + (5 * r + 2) mod 153 = 5 * r + 2" "0 \<le> (5 * r + 2) mod 153" "(5 * r + 2) mod 153 < 153"
    by (simp_all add: mp_def)
  then have b: "153 * mp \<le> 5 * r + 2" "5 * r + 2 < 153 * mp + 153" by linarith+
  then have m: "1 \<le> mp + 1" "mp + 1 \<le> 12" using assms by linarith+
  then have "month_day mp (r - first_day mp + 1)"
    by (cases rule: month_cases) (use b assms in \<open>simp_all add: month_day_def first_day_def march_len_def\<close>)
  then show thesis using that by simp
qed

lemma leap_split:
  assumes "0 \<le> c" "c \<le> 3" "0 \<le> q" "q \<le> 24" "0 \<le> k" "k \<le> (3 :: int)"
  shows "leap (400 * e + 100 * c + 4 * q + k + 1) \<longleftrightarrow> k = 3 \<and> (q \<noteq> 24 \<or> c = 3)"
proof -
  let ?y = "400 * e + 100 * c + 4 * q + k + 1"
  have "?y = 4 * (100 * e + 25 * c + q) + (k + 1)" by simp
  then have "4 dvd ?y \<longleftrightarrow> 4 dvd k + 1" by (simp only: dvd_add_right_iff dvd_triv_left)
  then have four: "4 dvd ?y \<longleftrightarrow> k = 3" using assms(5,6) by presburger
  have hund: "100 dvd ?y \<longleftrightarrow> q = 24" if "k = 3"
  proof -
    have "?y = 100 * (4 * e + c) + 4 * (q + 1)" using that by simp
    then have "100 dvd ?y \<longleftrightarrow> 100 dvd 4 * (q + 1)" by (simp only: dvd_add_right_iff dvd_triv_left)
    also have "\<dots> \<longleftrightarrow> q = 24"
    proof
      assume "100 dvd 4 * (q + 1)"
      then obtain j where j: "4 * (q + 1) = 100 * j" by blast
      then have q: "q = 25 * j - 1" by simp
      have "0 < j" "j < 2" using assms(3,4) unfolding q by simp_all
      then have "j = 1" by simp
      with j show "q = 24" by simp
    qed simp
    finally show ?thesis .
  qed
  have fhund: "400 dvd ?y \<longleftrightarrow> c = 3" if "k = 3" "q = 24"
  proof -
    have "?y = 400 * e + 100 * (c + 1)" using that by simp
    then have "400 dvd ?y \<longleftrightarrow> 400 dvd 100 * (c + 1)" by (simp only: dvd_add_right_iff dvd_triv_left)
    also have "\<dots> \<longleftrightarrow> c = 3"
    proof
      assume "400 dvd 100 * (c + 1)"
      then obtain j where j: "100 * (c + 1) = 400 * j" by blast
      then have c: "c = 4 * j - 1" by simp
      have "0 < j" "j < 2" using assms(1,2) unfolding c by simp_all
      then have "j = 1" by simp
      with j show "c = 3" by simp
    qed simp
    finally show ?thesis .
  qed
  have "400 dvd ?y \<Longrightarrow> 100 dvd ?y" "100 dvd ?y \<Longrightarrow> 4 dvd ?y"
    by (rule dvd_trans [of _ 400], simp_all) (rule dvd_trans [of _ 100], simp_all)
  with four hund fhund show ?thesis unfolding leap_def by blast
qed

lemma floor_divmod:
  "0 < n \<Longrightarrow> (if a smod n < 0 then (a sdiv n - 1, a smod n + n) else (a sdiv n, a smod n)) = (a div n, a mod n)" for a n :: int
proof -
  assume n: "0 < n"
  show ?thesis
  proof (cases "0 \<le> a")
    case True
    with n show ?thesis by (simp add: sdiv_nonneg smod_nonneg not_less)
  next
    case False
    then have s: "a sdiv n = - ((- a) div n)" "a smod n = - ((- a) mod n)"
      using n by (simp_all add: signed_divide_int_def signed_modulo_int_def)
    show ?thesis
      using n pos_mod_bound [OF n, of a] unfolding s by (auto simp: zdiv_zminus1_eq_if zmod_zminus1_eq_if order_less_le)
  qed
qed

lemma civil_days_split:
  assumes "era_split c q k (first_day mp + d - 1)"
  shows "civil_days (400 * e + (100 * c + 4 * q + k)) mp d =
    146097 * e + (36524 * c + 1461 * q + 365 * k + (first_day mp + d - 1))"
proof -
  let ?x = "100 * c + 4 * q + k"
  note xy = era_split_year [OF assms]
  have "(400 * e + ?x) div 400 = e" "(400 * e + ?x) mod 400 = ?x" using xy(1,2) by simp_all
  then have "e * 146097 + (?x * 365 + ?x div 4 - ?x div 100 + (first_day mp + d - 1)) =
      365 * (400 * e + ?x) + leaps (400 * e + ?x) + (first_day mp + d - 1)"
    using era_days [of "400 * e + ?x" "first_day mp + d - 1"] by (simp only:)
  then show ?thesis unfolding civil_days_def first_day_def [symmetric] using xy(5) by linarith
qed

lemma era_of_days:
  fixes days e doe :: int
  assumes D: "days = 146097 * e + doe" and doe: "0 \<le> doe" "doe < 146097" and lo: "-60 \<le> days"
  shows "(if days > 0 then days else days - 146096) sdiv 146097 = e"
proof (cases "days > 0")
  case True
  then have "days sdiv 146097 = days div 146097" by (simp add: sdiv_nonneg)
  also have "\<dots> = e" unfolding D using doe by (intro int_div_pos_eq [of _ _ _ doe]) simp_all
  finally show ?thesis using True by simp
next
  case False
  then have r: "-60 \<le> days" "days \<le> 0" using lo by simp_all
  then have "days = 0 \<and> e = 0 \<or> days \<noteq> 0 \<and> e = -1" using doe D by auto
  moreover have "(days - 146096) sdiv 146097 = (if days = 0 then 0 else -1)"
  proof -
    have "(days - 146096) sdiv 146097 = - ((146096 - days) div 146097)" using r by (simp add: signed_divide_int_def)
    moreover have "(146096 - days) div 146097 = (if days = 0 then 0 else 1)"
      using r by (auto intro: int_div_pos_eq [of _ _ _ "- 1 - days"])
    ultimately show ?thesis by simp
  qed
  ultimately show ?thesis using False by auto
qed

text \<open>What \<open>utc_from_posix_time\<close> computes on a day given by its parts.\<close>

lemma utc_from_posix_time_split:
  assumes x: "era_split c q k (first_day mp + d - 1)" and md: "month_day mp d"
    and sec: "0 \<le> sec" "sec < 86400" and y: "y = 400 * e + (100 * c + 4 * q + k)"
    and t: "t = (civil_days y mp d - 719468) * 86400 + sec" and valid: "is_valid_posix_time t"
    and lo: "-60 \<le> civil_days y mp d"
  shows "utc_from_posix_time t = Some (if mp < 10 then y else y + 1, if mp < 10 then mp + 3 else mp - 9, d,
    sec div 3600, sec mod 3600 div 60, sec mod 3600 mod 60)"
proof -
  let ?r = "first_day mp + d - 1" and ?x = "100 * c + 4 * q + k"
  let ?doe = "36524 * c + 1461 * q + 365 * k + ?r"
  note xy = era_split_year [OF x] and xd = era_split_doe [OF x]
  have D: "civil_days y mp d = 146097 * e + ?doe" unfolding y by (rule civil_days_split [OF x])
  have "(a * 86400 + sec) div 86400 = a" "(a * 86400 + sec) mod 86400 = sec" for a using sec by simp_all
  then have "t div 86400 = civil_days y mp d - 719468" "t mod 86400 = sec" unfolding t by blast+
  with floor_divmod [of 86400 t]
  have dm: "(if t smod 86400 < 0 then (t sdiv 86400 - 1, t smod 86400 + 86400) else (t sdiv 86400, t smod 86400)) =
    (civil_days y mp d - 719468, sec)" by simp
  have era: "(if civil_days y mp d > 0 then civil_days y mp d else civil_days y mp d - 146096) sdiv 146097 = e"
    by (rule era_of_days [OF D xd(1,2) lo])
  have doe: "civil_days y mp d - e * 146097 = ?doe" by (simp add: D)
  have sd: "?doe sdiv n = ?doe div n" if "0 < n" for n using that xd(1) by (rule sdiv_nonneg [rotated])
  have num: "(?doe - ?doe div 1460 + ?doe div 36524 - ?doe div 146096) sdiv 365 = ?x"
  proof -
    have "0 \<le> (?doe - ?doe div 1460 + ?doe div 36524 - ?doe div 146096) div 365" using xd(3) xy(1) by simp
    then have "0 \<le> ?doe - ?doe div 1460 + ?doe div 36524 - ?doe div 146096" by (simp add: pos_imp_zdiv_nonneg_iff)
    then show ?thesis using xd(3) by (simp add: sdiv_nonneg)
  qed
  have sx: "?x sdiv n = ?x div n" if "0 < n" for n using that xy(1) by (rule sdiv_nonneg [rotated])
  have doy: "?doe - (365 * ?x + ?x div 4 - ?x div 100) = ?r" using xy(5) by simp
  have m: "(5 * ?r + 2) sdiv 153 = mp" "(153 * mp + 2) sdiv 5 = first_day mp"
    using month_of_day(1,2) [OF md] md by (simp_all add: sdiv_nonneg first_day_def month_day_def)
  have h: "sec sdiv 3600 = sec div 3600" "sec smod 3600 = sec mod 3600" "sec mod 3600 sdiv 60 = sec mod 3600 div 60"
    "sec mod 3600 smod 60 = sec mod 3600 mod 60" using sec(1) by (simp_all add: sdiv_nonneg smod_nonneg)
  have c: "24 * 3600 = (86400 :: int)" "60 * 60 = (3600 :: int)" by simp_all
  have i: "a - 719468 + 719468 = a" for a :: int by simp
  have "utc_from_posix_time t = Some (if (if mp < 10 then mp + 3 else mp - 9) \<le> 2 then ?x + e * 400 + 1 else ?x + e * 400,
      if mp < 10 then mp + 3 else mp - 9, ?r - first_day mp + 1, sec div 3600, sec mod 3600 div 60, sec mod 3600 mod 60)"
    unfolding utc_from_posix_time_def Let_def SECS_PER_DAY_def SECS_PER_HOUR_def c
    by (simp only: valid not_True_eq_False if_False dm prod.case i era doe sd [of 1460, simplified] sd [of 36524, simplified]
        sd [of 146096, simplified] num sx [of 4, simplified] sx [of 100, simplified] doy m h)
  then show ?thesis using md by (auto simp: y month_day_def)
qed

lemma leaps_mono: "a \<le> b \<Longrightarrow> leaps a \<le> leaps b"
proof -
  have *: "leaps a \<le> leaps (a + int n)" for n
  proof (induction n)
    case (Suc n)
    have "a + int (Suc n) - 1 = a + int n" by simp
    with leaps_step [of "a + int (Suc n)"] Suc show ?case by simp
  qed simp
  assume "a \<le> b"
  then show ?thesis using * [of "nat (b - a)"] by simp
qed

text \<open>Dates and the parts of their day number.\<close>

definition march_year :: "int \<Rightarrow> int \<Rightarrow> int" where
  "march_year y m = (if m \<le> 2 then y - 1 else y)"

definition march_month :: "int \<Rightarrow> int" where
  "march_month m = (if m > 2 then m - 3 else m + 9)"

lemma march_date:
  assumes "1 \<le> m" "m \<le> 12"
  shows "1 \<le> d \<and> d \<le> month_len y (nat m) \<longleftrightarrow>
    month_day (march_month m) d \<and> (march_month m = 11 \<and> d = 29 \<longrightarrow> leap (march_year y m + 1))"
  using assms by (cases rule: month_cases)
    (simp_all add: month_day_def march_month_def march_year_def march_len_def month_len_def; auto)+

lemma march_split:
  assumes md: "month_day mp d" and leap: "mp = 11 \<and> d = 29 \<longrightarrow> leap (y + 1)"
  obtains c q k e where "era_split c q k (first_day mp + d - 1)" "y = 400 * e + (100 * c + 4 * q + k)"
proof -
  define e x where "e = y div 400" and "x = y mod 400"
  define c q k where "c = x div 100" and "q = x mod 100 div 4" and "k = x mod 100 mod 4"
  have y: "y = 400 * e + x" "0 \<le> x" "x < 400" by (simp_all add: e_def x_def)
  have x: "x = 100 * c + 4 * q + k" by (simp add: c_def q_def k_def)
  have "0 \<le> c" "c \<le> 3" using y(2,3) unfolding c_def by (simp, linarith)
  moreover have "0 \<le> q" "q \<le> 24" unfolding q_def using pos_mod_bound [of 100 x] by (simp, linarith)
  moreover have "0 \<le> k" "k \<le> 3" unfolding k_def using pos_mod_bound [of 4 "x mod 100"] by (simp, linarith)
  ultimately have s: "0 \<le> c" "c \<le> 3" "0 \<le> q" "q \<le> 24" "0 \<le> k" "k \<le> 3" .
  have "leap (y + 1) \<longleftrightarrow> k = 3 \<and> (q \<noteq> 24 \<or> c = 3)"
    using leap_split [OF s, of e] by (simp add: y(1) x add.assoc)
  with s month_of_day(2-4) [OF md] leap have "era_split c q k (first_day mp + d - 1)" by (simp add: era_split_def)
  moreover have "y = 400 * e + (100 * c + 4 * q + k)" using y(1) x by simp
  ultimately show thesis by (rule that)
qed

lemma year_bounds:
  fixes Y :: int
  assumes md: "month_day mp d"
  defines "y \<equiv> if mp < 10 then Y else Y + 1"
  shows "-60 \<le> civil_days Y mp d \<and> civil_days Y mp d \<le> 3652364 \<longleftrightarrow> 0 \<le> y \<and> y \<le> 9999"
proof -
  let ?r = "first_day mp + d - 1"
  have D: "civil_days Y mp d = 365 * Y + leaps Y + ?r" by (simp add: civil_days_def first_day_def)
  have r: "if mp < 10 then 0 \<le> ?r \<and> ?r \<le> 305 else 306 \<le> ?r \<and> ?r \<le> 365"
  proof -
    have "1 \<le> mp + 1" "mp + 1 \<le> 12" using md by (auto simp: month_day_def)
    then show ?thesis
      by (cases rule: month_cases) (use md in \<open>simp_all add: month_day_def march_len_def first_day_def\<close>)
  qed
  have l: "leaps (-2) = -1" "leaps (-1) = -1" "leaps 0 = 0" "leaps 9998 = 2424" "leaps 9999 = 2424" "leaps 10000 = 2425"
    by (simp_all add: leaps_def)
  have mono: "a \<le> Y \<Longrightarrow> leaps a \<le> leaps Y" "Y \<le> a \<Longrightarrow> leaps Y \<le> leaps a" for a by (simp_all add: leaps_mono)
  show ?thesis
  proof (cases "mp < 10")
    case True
    then have y: "y = Y" and r: "0 \<le> ?r" "?r \<le> 305" using r by (simp_all add: y_def)
    show ?thesis
      using mono(1) [of 0] mono(2) [of 9999] mono(2) [of "-1"] mono(1) [of 10000] r l unfolding D y by linarith
  next
    case False
    then have y: "y = Y + 1" and r: "306 \<le> ?r" "?r \<le> 365" using r by (simp_all add: y_def)
    show ?thesis
      using mono(1) [of "-1"] mono(2) [of 9998] mono(2) [of "-2"] mono(1) [of 9999] r l unfolding D y by linarith
  qed
qed

lemma march_inverse:
  assumes "1 \<le> m" "m \<le> 12"
  shows "(if march_month m < 10 then march_year y m else march_year y m + 1) = y"
    "(if march_month m < 10 then march_month m + 3 else march_month m - 9) = m"
  using assms by (simp_all add: march_month_def march_year_def)

lemma valid_date_iff_march:
  "is_valid_date y m d \<longleftrightarrow> 1 \<le> m \<and> m \<le> 12 \<and> month_day (march_month m) d \<and>
     (march_month m = 11 \<and> d = 29 \<longrightarrow> leap (march_year y m + 1)) \<and>
     -60 \<le> civil_days (march_year y m) (march_month m) d \<and> civil_days (march_year y m) (march_month m) d \<le> 3652364"
proof (cases "1 \<le> m \<and> m \<le> 12 \<and> month_day (march_month m) d")
  case True
  then have m: "1 \<le> m" "m \<le> 12" and md: "month_day (march_month m) d" by simp_all
  show ?thesis
    using year_bounds [OF md, of "march_year y m", unfolded march_inverse(1) [OF m]] march_date [OF m, of d y] m md
    by (auto simp: is_valid_date_iff)
next
  case False
  then show ?thesis using march_date [of m d y] by (auto simp: is_valid_date_iff)
qed

lemma posix_range:
  "0 \<le> sec \<Longrightarrow> sec < 86400 \<Longrightarrow> is_valid_posix_time ((D - 719468) * 86400 + sec) \<longleftrightarrow> -60 \<le> D \<and> D \<le> 3652364"
  by (auto simp: is_valid_posix_time_def MIN_POSIX_TIME_def MAX_POSIX_TIME_def)

lemma is_valid_time_iff: "is_valid_time h mi s \<longleftrightarrow> 0 \<le> h \<and> h \<le> 23 \<and> 0 \<le> mi \<and> mi \<le> 59 \<and> 0 \<le> s \<and> s \<le> 59"
  by (auto simp: is_valid_time_def)

lemma posix_time_from_utc_march:
  "posix_time_from_utc y m d h mi s = Some t \<longleftrightarrow> is_valid_date y m d \<and> is_valid_time h mi s \<and>
     t = (civil_days (march_year y m) (march_month m) d - 719468) * 86400 + (h * 3600 + mi * 60 + s)"
proof (cases "is_valid_date y m d \<and> is_valid_time h mi s")
  case True
  then show ?thesis
    using posix_time_from_utc_civil [of y m d h mi s] by (auto simp: march_year_def march_month_def)
next
  case False
  then show ?thesis by (auto simp: posix_time_from_utc_def)
qed

lemma utc_of_posix_time_from_utc:
  assumes "posix_time_from_utc y m d h mi s = Some t"
  shows "utc_from_posix_time t = Some (y, m, d, h, mi, s)"
proof -
  let ?D = "civil_days (march_year y m) (march_month m) d" and ?sec = "h * 3600 + mi * 60 + s"
  from assms have v: "is_valid_date y m d" "is_valid_time h mi s" "t = (?D - 719468) * 86400 + ?sec"
    by (simp_all add: posix_time_from_utc_march)
  from v(1) have dt: "1 \<le> m" "m \<le> 12" "month_day (march_month m) d" "march_month m = 11 \<and> d = 29 \<longrightarrow> leap (march_year y m + 1)"
    "-60 \<le> ?D" "?D \<le> 3652364" by (simp_all add: valid_date_iff_march)
  have sec: "0 \<le> ?sec" "?sec < 86400" using v(2) by (auto simp: is_valid_time_iff)
  have h: "?sec div 3600 = h" "?sec mod 3600 div 60 = mi" "?sec mod 3600 mod 60 = s"
  proof -
    have "0 \<le> mi * 60 + s" "mi * 60 + s < 3600" "0 \<le> s" "s < 60" using v(2) by (auto simp: is_valid_time_iff)
    then show "?sec div 3600 = h" by simp
    have "?sec mod 3600 = mi * 60 + s"
      using \<open>0 \<le> mi * 60 + s\<close> \<open>mi * 60 + s < 3600\<close> by (simp add: add.assoc)
    with \<open>0 \<le> s\<close> \<open>s < 60\<close> show "?sec mod 3600 div 60 = mi" "?sec mod 3600 mod 60 = s" by simp_all
  qed
  from march_split [OF dt(3,4)] obtain c q k e where
    x: "era_split c q k (first_day (march_month m) + d - 1)" "march_year y m = 400 * e + (100 * c + 4 * q + k)" .
  have "is_valid_posix_time t" unfolding v(3) using posix_range [OF sec] dt(5,6) by simp
  from utc_from_posix_time_split [OF x(1) dt(3) sec x(2) v(3) this dt(5)]
  show ?thesis by (simp only: h march_inverse [OF dt(1,2)])
qed

lemma posix_time_from_utc_surj:
  assumes "is_valid_posix_time t"
  shows "\<exists>y m d h mi s. posix_time_from_utc y m d h mi s = Some t"
proof -
  define D sec where "D = t div 86400 + 719468" and "sec = t mod 86400"
  have t: "t = (D - 719468) * 86400 + sec" and sec: "0 \<le> sec" "sec < 86400" by (simp_all add: D_def sec_def)
  have D: "-60 \<le> D" "D \<le> 3652364" using assms posix_range [OF sec] unfolding t by simp_all
  obtain c q k r where
    x: "era_split c q k r" "D mod 146097 = 36524 * c + 1461 * q + 365 * k + r"
    by (rule era_split_exists [of "D mod 146097"]) simp_all
  from x(1) have "0 \<le> r" "r \<le> 365" by (simp_all add: era_split_def)
  from month_day_exists [OF this] obtain mp d where md: "month_day mp d" "r = first_day mp + d - 1" .
  define e Y where "e = D div 146097" and "Y = 400 * e + (100 * c + 4 * q + k)"
  define y m where "y = (if mp < 10 then Y else Y + 1)" and "m = (if mp < 10 then mp + 3 else mp - 9)"
  have mm: "march_year y m = Y" "march_month m = mp" "1 \<le> m" "m \<le> 12"
    using md(1) by (auto simp: y_def m_def march_year_def march_month_def month_day_def)
  have "civil_days Y mp d = 146097 * e + D mod 146097"
    using civil_days_split [OF x(1) [unfolded md(2)], of e] x(2) md(2) by (simp only: Y_def)
  then have "civil_days Y mp d = D" by (simp only: e_def mult_div_mod_eq)
  moreover have "mp = 11 \<and> d = 29 \<longrightarrow> leap (Y + 1)"
    using month_of_day(4) [OF md(1)] x(1) leap_split [of c q k e] md(2) by (auto simp: era_split_def Y_def add.assoc)
  ultimately have v: "is_valid_date y m d" using D mm md(1) by (simp add: valid_date_iff_march)
  have "is_valid_time (sec div 3600) (sec mod 3600 div 60) (sec mod 3600 mod 60)"
    using sec by (auto simp: is_valid_time_iff)
  moreover have "sec div 3600 * 3600 + sec mod 3600 div 60 * 60 + sec mod 3600 mod 60 = sec" by simp
  ultimately have "posix_time_from_utc y m d (sec div 3600) (sec mod 3600 div 60) (sec mod 3600 mod 60) = Some t"
    using v mm \<open>civil_days Y mp d = D\<close> by (simp add: posix_time_from_utc_march t)
  then show ?thesis by blast
qed

text \<open>The two conversions are inverse to each other.\<close>

lemma posix_utc_inverse:
  "posix_time_from_utc y m d h mi s = Some t \<longleftrightarrow> utc_from_posix_time t = Some (y, m, d, h, mi, s)"
proof
  assume u: "utc_from_posix_time t = Some (y, m, d, h, mi, s)"
  then have "is_valid_posix_time t" unfolding utc_from_posix_time_def by (rule contrapos_pp) (simp only: not_False_eq_True if_True option.distinct)
  from posix_time_from_utc_surj [OF this] obtain y' m' d' h' mi' s' where
    p: "posix_time_from_utc y' m' d' h' mi' s' = Some t" by blast
  with utc_of_posix_time_from_utc [OF p] u show "posix_time_from_utc y m d h mi s = Some t" by simp
qed (rule utc_of_posix_time_from_utc)

section \<open>Operations on \<open>struct tm\<close>\<close>

lemma posix_time_from_utc_valid: "posix_time_from_utc y m d h mi s = Some t \<Longrightarrow> is_valid_posix_time t"
  unfolding posix_utc_inverse utc_from_posix_time_def
  by (rule ccontr) (simp only: not_False_eq_True if_True option.distinct)

lemma posix_to_tm_iff:
  "OPENSSL_posix_to_tm t = Some tm \<longleftrightarrow> OPENSSL_tm_to_posix tm = Some t \<and> tm_wday tm = 0 \<and> tm_yday tm = 0 \<and> tm_isdst tm = 0"
  unfolding OPENSSL_posix_to_tm_def OPENSSL_tm_to_posix_def posix_utc_inverse
  by (cases "utc_from_posix_time t"; cases tm) auto

lemma tm_to_posix_valid: "OPENSSL_tm_to_posix tm = Some t \<Longrightarrow> is_valid_posix_time t"
  unfolding OPENSSL_tm_to_posix_def by (rule posix_time_from_utc_valid)

lemma posix_to_tm_defined: "(\<exists>tm. OPENSSL_posix_to_tm t = Some tm) \<longleftrightarrow> is_valid_posix_time t"
proof
  assume "is_valid_posix_time t"
  from posix_time_from_utc_surj [OF this] obtain y m d h mi s where
    "utc_from_posix_time t = Some (y, m, d, h, mi, s)" by (auto simp: posix_utc_inverse)
  then show "\<exists>tm. OPENSSL_posix_to_tm t = Some tm" by (simp add: OPENSSL_posix_to_tm_def)
qed (auto simp: posix_to_tm_iff tm_to_posix_valid)

text \<open>
  Adjusting adds the offset to the time, and fails exactly when the sum leaves the years 0 to
  9999; the overflow checks never reject a time in this range.
\<close>

lemma gmtime_adj_iff:
  "OPENSSL_gmtime_adj tm offset_day offset_sec = (True, tm') \<longleftrightarrow>
     (\<exists>t. OPENSSL_tm_to_posix tm = Some t \<and> OPENSSL_posix_to_tm (t + offset_day * 86400 + offset_sec) = Some tm')"
proof (cases "OPENSSL_tm_to_posix tm")
  case None
  then show ?thesis by (simp add: OPENSSL_gmtime_adj_def)
next
  case (Some t)
  let ?p = "t + offset_day * 86400"
  have c: "SECS_PER_DAY = 86400" by (simp add: SECS_PER_DAY_def SECS_PER_HOUR_def)
  have "\<not> (offset_sec > INT64_MAX - ?p)" "\<not> (offset_sec < INT64_MIN - ?p)" if "is_valid_posix_time (?p + offset_sec)"
    using that by (auto simp: is_valid_posix_time_def MIN_POSIX_TIME_def MAX_POSIX_TIME_def INT64_MAX_def INT64_MIN_def)
  then show ?thesis
    using posix_to_tm_defined [of "?p + offset_sec"] Some
    unfolding OPENSSL_gmtime_adj_def c by (auto simp: Let_def split: option.splits)
qed

lemma gmtime_adj_no_overflow:
  assumes "OPENSSL_tm_to_posix tm = Some t" "- (2 ^ 31) \<le> offset_day" "offset_day < 2 ^ 31"
  shows "INT64_MIN \<le> t + offset_day * SECS_PER_DAY \<and> t + offset_day * SECS_PER_DAY \<le> INT64_MAX"
  using tm_to_posix_valid [OF assms(1)] assms(2,3)
  by (auto simp: is_valid_posix_time_def MIN_POSIX_TIME_def MAX_POSIX_TIME_def INT64_MAX_def INT64_MIN_def
      SECS_PER_DAY_def SECS_PER_HOUR_def)

lemma sdiv_smod_parts:
  fixes a :: int
  shows "a sdiv 86400 * 86400 + a smod 86400 = a" "\<bar>a smod 86400\<bar> < 86400"
    "0 \<le> a \<Longrightarrow> 0 \<le> a sdiv 86400 \<and> 0 \<le> a smod 86400" "a \<le> 0 \<Longrightarrow> a sdiv 86400 \<le> 0 \<and> a smod 86400 \<le> 0"
proof -
  show "a sdiv 86400 * 86400 + a smod 86400 = a" by (rule sdiv_mult_smod_eq)
  show pos: "0 \<le> a \<Longrightarrow> 0 \<le> a sdiv 86400 \<and> 0 \<le> a smod 86400"
    by (simp add: sdiv_nonneg smod_nonneg)
  have neg: "a sdiv 86400 = - (- a div 86400) \<and> a smod 86400 = - (- a mod 86400)" if "a < 0"
    using that by (simp add: signed_divide_int_def signed_modulo_int_def)
  then show "a \<le> 0 \<Longrightarrow> a sdiv 86400 \<le> 0 \<and> a smod 86400 \<le> 0"
    by (cases "a = 0") (simp_all add: signed_divide_int_def signed_modulo_int_def)
  show "\<bar>a smod 86400\<bar> < 86400"
    by (cases "a < 0") (simp_all add: neg smod_nonneg)
qed

lemma gmtime_diff_iff:
  "OPENSSL_gmtime_diff from_tm to_tm = Some (days, secs) \<longleftrightarrow>
     (\<exists>t1 t2. OPENSSL_tm_to_posix from_tm = Some t1 \<and> OPENSSL_tm_to_posix to_tm = Some t2 \<and>
        days = (t2 - t1) sdiv 86400 \<and> secs = (t2 - t1) smod 86400)"
  by (auto simp: OPENSSL_gmtime_diff_def Let_def SECS_PER_DAY_def SECS_PER_HOUR_def split: option.splits)

end
