(* ===== verification/Cbs_Time.thy ===== *)
theory Cbs_Time
  imports Unicode Posix_Time
begin

text \<open>
  The time readers of cbs.c: the contents of an ASN.1 GeneralizedTime or UTCTime within the
  limits of RFC 5280, with an optional offset from UTC.
\<close>

section \<open>Definitions\<close>

definition cbs_get_two_digits :: "int cbs_get" where
  "cbs_get_two_digits cbs =
     (case CBS_get_u8 cbs of
        (None, cbs) \<Rightarrow> (None, cbs)
      | (Some first_digit, cbs) \<Rightarrow>
          if \<not> OPENSSL_isdigit (uint first_digit) then (None, cbs)
          else (case CBS_get_u8 cbs of
                  (None, cbs) \<Rightarrow> (None, cbs)
                | (Some second_digit, cbs) \<Rightarrow>
                    if \<not> OPENSSL_isdigit (uint second_digit) then (None, cbs)
                    else (Some ((uint first_digit - 48) * 10 + (uint second_digit - 48)), cbs)))"

definition is_valid_day :: "int \<Rightarrow> int \<Rightarrow> int \<Rightarrow> bool" where
  "is_valid_day year month day =
     (if day < 1 then False
      else if month \<in> {1, 3, 5, 7, 8, 10, 12} then day \<le> 31
      else if month \<in> {4, 6, 9, 11} then day \<le> 30
      else if month = 2 then
        (if year smod 4 = 0 \<and> year smod 100 \<noteq> 0 \<or> year smod 400 = 0 then day \<le> 29 else day \<le> 28)
      else False)"

text \<open>The year of \<open>CBS_parse_rfc5280_time_internal\<close>, and its other fields.\<close>

definition parse_time_year :: "bool \<Rightarrow> int cbs_get" where
  "parse_time_year is_gentime copy =
     (if is_gentime then
        (case cbs_get_two_digits copy of
           (None, copy) \<Rightarrow> (None, copy)
         | (Some tmp, copy) \<Rightarrow>
             let year = tmp * 100 in
             (case cbs_get_two_digits copy of
                (None, copy) \<Rightarrow> (None, copy)
              | (Some tmp, copy) \<Rightarrow> (Some (year + tmp), copy)))
      else
        (case cbs_get_two_digits copy of
           (None, copy) \<Rightarrow> (None, copy)
         | (Some tmp, copy) \<Rightarrow>
             let year = 1900 + tmp;
                 year = (if year < 1950 then year + 100 else year)
             in if year \<ge> 2050 then (None, copy) else (Some year, copy)))"

definition parse_time_fields :: "int \<Rightarrow> (int \<times> int \<times> int \<times> int \<times> int) cbs_get" where
  "parse_time_fields year copy =
     (case cbs_get_two_digits copy of
        (None, copy) \<Rightarrow> (None, copy)
      | (Some month, copy) \<Rightarrow> if month < 1 \<or> month > 12 then (None, copy) else
     (case cbs_get_two_digits copy of
        (None, copy) \<Rightarrow> (None, copy)
      | (Some day, copy) \<Rightarrow> if \<not> is_valid_day year month day then (None, copy) else
     (case cbs_get_two_digits copy of
        (None, copy) \<Rightarrow> (None, copy)
      | (Some hour, copy) \<Rightarrow> if hour > 23 then (None, copy) else
     (case cbs_get_two_digits copy of
        (None, copy) \<Rightarrow> (None, copy)
      | (Some minute, copy) \<Rightarrow> if minute > 59 then (None, copy) else
     (case cbs_get_two_digits copy of
        (None, copy) \<Rightarrow> (None, copy)
      | (Some sec, copy) \<Rightarrow> if sec > 59 then (None, copy) else
          (Some (month, day, hour, minute, sec), copy))))))"

text \<open>The offset of a time zone with the given sign, in seconds.\<close>

definition parse_time_offset :: "int \<Rightarrow> int cbs_get" where
  "parse_time_offset offset_sign copy =
     (case cbs_get_two_digits copy of
        (None, copy) \<Rightarrow> (None, copy)
      | (Some offset_hours, copy) \<Rightarrow> if offset_hours > 23 then (None, copy) else
     (case cbs_get_two_digits copy of
        (None, copy) \<Rightarrow> (None, copy)
      | (Some offset_minutes, copy) \<Rightarrow> if offset_minutes > 59 then (None, copy) else
          (Some (offset_sign * (offset_hours * 3600 + offset_minutes * 60)), copy)))"

text \<open>
  The result with the structure behind \<open>out_tm\<close>, or \<open>None\<close> for a null pointer. The view
  of the caller is not changed.
\<close>

definition CBS_parse_rfc5280_time_internal :: "CBS \<Rightarrow> bool \<Rightarrow> bool \<Rightarrow> tm option \<Rightarrow> bool \<times> tm option" where
  "CBS_parse_rfc5280_time_internal cbs is_gentime allow_timezone_offset out_tm =
     (case parse_time_year is_gentime cbs of
        (None, _) \<Rightarrow> (False, out_tm)
      | (Some year, copy) \<Rightarrow>
     (case parse_time_fields year copy of
        (None, _) \<Rightarrow> (False, out_tm)
      | (Some (month, day, hour, minute, sec), copy) \<Rightarrow>
     (case CBS_get_u8 copy of
        (None, _) \<Rightarrow> (False, out_tm)
      | (Some tz, copy) \<Rightarrow>
     (if tz \<noteq> 0x5a \<and> tz \<noteq> 0x2b \<and> tz \<noteq> 0x2d then (False, out_tm)
      else
        let offset_sign = (if tz = 0x5a then 0 else if tz = 0x2b then 1 else -1) in
        if offset_sign \<noteq> 0 \<and> \<not> allow_timezone_offset then (False, out_tm)
        else
     (case (if offset_sign \<noteq> 0 then parse_time_offset offset_sign copy else (Some 0, copy)) of
        (None, _) \<Rightarrow> (False, out_tm)
      | (Some offset_seconds, copy) \<Rightarrow>
          if CBS_len copy \<noteq> 0 then (False, out_tm)
          else (case out_tm of
                  None \<Rightarrow> (True, None)
                | Some tm \<Rightarrow>
                    let tm = tm\<lparr>tm_year := year - 1900, tm_mon := month - 1, tm_mday := day,
                                tm_hour := hour, tm_min := minute, tm_sec := sec\<rparr>
                    in if offset_seconds \<noteq> 0 then
                         (case OPENSSL_gmtime_adj tm 0 offset_seconds of (ok, tm) \<Rightarrow> (ok, Some tm))
                       else (True, Some tm)))))))"

definition CBS_parse_generalized_time :: "CBS \<Rightarrow> tm option \<Rightarrow> bool \<Rightarrow> bool \<times> tm option" where
  "CBS_parse_generalized_time cbs out_tm allow_timezone_offset =
     CBS_parse_rfc5280_time_internal cbs True allow_timezone_offset out_tm"

definition CBS_parse_utc_time :: "CBS \<Rightarrow> tm option \<Rightarrow> bool \<Rightarrow> bool \<times> tm option" where
  "CBS_parse_utc_time cbs out_tm allow_timezone_offset =
     CBS_parse_rfc5280_time_internal cbs False allow_timezone_offset out_tm"

section \<open>Two digits\<close>

definition two_digits :: "int \<Rightarrow> u8 list" where
  "two_digits n = [word_of_int (48 + n div 10), word_of_int (48 + n mod 10)]"

fun two_digits_spec :: "int parser" where
  "two_digits_spec (a # b # r) =
     (if is_digit a \<and> is_digit b then Some ((uint a - 48) * 10 + (uint b - 48), r) else None)"
| "two_digits_spec _ = None"

lemma uint_digit: "is_digit b \<Longrightarrow> 48 \<le> uint b \<and> uint b \<le> 57"
  by (simp add: is_digit_def OPENSSL_isdigit_def)

lemma two_digits_spec_iff:
  "two_digits_spec bs = Some (n, rest) \<longleftrightarrow> 0 \<le> n \<and> n \<le> 99 \<and> bs = two_digits n @ rest"
proof
  assume "two_digits_spec bs = Some (n, rest)"
  then obtain a b where bs: "bs = a # b # rest" "is_digit a" "is_digit b" "n = (uint a - 48) * 10 + (uint b - 48)"
    by (cases bs rule: two_digits_spec.cases) (auto split: if_splits)
  note d = uint_digit [OF bs(2)] uint_digit [OF bs(3)]
  have dm: "(p * 10 + q) div 10 = p" "(p * 10 + q) mod 10 = q" if "0 \<le> q" "q \<le> 9" for p q :: int using that by simp_all
  have "n div 10 = uint a - 48" "n mod 10 = uint b - 48" unfolding bs(4) by (rule dm; use d in simp)+
  with d bs show "0 \<le> n \<and> n \<le> 99 \<and> bs = two_digits n @ rest" by (simp add: two_digits_def)
next
  assume n: "0 \<le> n \<and> n \<le> 99 \<and> bs = two_digits n @ rest"
  then have "0 \<le> n" "n \<le> 99" by simp_all
  then have b: "0 \<le> n div 10" "n div 10 \<le> 9" "0 \<le> n mod 10" "n mod 10 \<le> 9" by auto
  have u: "uint (word_of_int (48 + k) :: u8) = 48 + k" if "0 \<le> k" "k \<le> 9" for k
    using that by (simp add: uint_word_of_int_eq take_bit_int_eq_self del: of_int_add)
  have dg: "is_digit (word_of_int (48 + k))" if "0 \<le> k" "k \<le> 9" for k
    using that unfolding is_digit_def OPENSSL_isdigit_def u [OF that] by simp
  have "two_digits_spec bs = Some ((48 + n div 10 - 48) * 10 + (48 + n mod 10 - 48), rest)"
    using n b by (simp only: two_digits_def append.simps two_digits_spec.simps dg u if_True simp_thms)
  then show "two_digits_spec bs = Some (n, rest)" by simp
qed

interpretation rd_two_digits: cbs_reader cbs_get_two_digits "\<lambda>_. True" "\<lambda>x. x" two_digits_spec
proof (rule reads_cbs_readerI)
  fix cbs
  assume "cbs_wf cbs"
  then show "reads (cbs_get_two_digits cbs) cbs (\<lambda>_. True) (\<lambda>x. x) (two_digits_spec (cbs_bytes cbs))"
  proof (cases rule: CBS_get_u8_cases)
    case 1
    with \<open>cbs_wf cbs\<close> show ?thesis by (simp add: cbs_get_two_digits_def reads_def)
  next
    case (2 a c)
    show ?thesis using 2(2)
    proof (cases rule: CBS_get_u8_cases)
      case 1
      with 2 show ?thesis by (auto simp: cbs_get_two_digits_def reads_def suffix_def is_digit_def)
    next
      case (2 b c2)
      with \<open>CBS_get_u8 cbs = (Some a, c)\<close> \<open>cbs_wf c\<close> \<open>cbs_bytes cbs = a # cbs_bytes c\<close> show ?thesis
        by (auto simp: cbs_get_two_digits_def reads_def suffix_def is_digit_def)
    qed
  qed
qed (auto simp: two_digits_spec_iff suffix_def)

lemma two_digits_sound:
  "cbs_wf cbs \<Longrightarrow> cbs_get_two_digits cbs = (Some n, c) \<Longrightarrow>
     cbs_wf c \<and> 0 \<le> n \<and> n \<le> 99 \<and> cbs_bytes cbs = two_digits n @ cbs_bytes c"
  using rd_two_digits.get_Some [of cbs n c] by (simp add: two_digits_spec_iff)

lemma two_digits_complete:
  assumes "cbs_wf cbs" "cbs_bytes cbs = two_digits n @ rest" "0 \<le> n" "n \<le> 99"
  obtains c where "cbs_get_two_digits cbs = (Some n, c)" "cbs_wf c" "cbs_bytes c = rest"
  using rd_two_digits.get_accepts [OF assms(1), of n rest] assms(2-4) that by (auto simp: two_digits_spec_iff)

section \<open>The fields\<close>

definition time_digits :: "int \<times> int \<times> int \<times> int \<times> int \<Rightarrow> u8 list" where
  "time_digits f = (case f of (mo, d, h, mi, s) \<Rightarrow>
     two_digits mo @ two_digits d @ two_digits h @ two_digits mi @ two_digits s)"

definition fields_ok :: "int \<Rightarrow> int \<times> int \<times> int \<times> int \<times> int \<Rightarrow> bool" where
  "fields_ok y f \<longleftrightarrow> (case f of (mo, d, h, mi, s) \<Rightarrow> is_valid_date y mo d \<and> is_valid_time h mi s)"

lemma is_valid_day_iff:
  "0 \<le> y \<Longrightarrow> y \<le> 9999 \<Longrightarrow> 1 \<le> mo \<Longrightarrow> mo \<le> 12 \<Longrightarrow> is_valid_day y mo d \<longleftrightarrow> is_valid_date y mo d"
  by (auto simp: is_valid_day_def is_valid_date_def)

lemma fields_ok_bounds:
  "fields_ok y (mo, d, h, mi, s) \<Longrightarrow> 0 \<le> y \<and> y \<le> 9999 \<and> 1 \<le> mo \<and> mo \<le> 12 \<and> 1 \<le> d \<and> d \<le> 31 \<and> 0 \<le> h \<and> h \<le> 23 \<and>
     0 \<le> mi \<and> mi \<le> 59 \<and> 0 \<le> s \<and> s \<le> 59"
  by (auto simp: fields_ok_def is_valid_date_iff is_valid_time_iff month_len_def split: if_splits)

lemma parse_time_fields_sound:
  assumes wf: "cbs_wf cbs" and r: "parse_time_fields y cbs = (Some f, c)" and y: "0 \<le> y" "y \<le> 9999"
  shows "cbs_wf c \<and> fields_ok y f \<and> cbs_bytes cbs = time_digits f @ cbs_bytes c"
proof -
  from r obtain mo d h mi s c1 c2 c3 c4 where g: "cbs_get_two_digits cbs = (Some mo, c1)"
      "cbs_get_two_digits c1 = (Some d, c2)" "cbs_get_two_digits c2 = (Some h, c3)"
      "cbs_get_two_digits c3 = (Some mi, c4)" "cbs_get_two_digits c4 = (Some s, c)"
    and f: "f = (mo, d, h, mi, s)" "1 \<le> mo" "mo \<le> 12" "is_valid_day y mo d" "h \<le> 23" "mi \<le> 59" "s \<le> 59"
    unfolding parse_time_fields_def by (auto split: option.splits prod.splits if_splits)
  note a = two_digits_sound [OF wf g(1)]
  note b = two_digits_sound [OF a [THEN conjunct1] g(2)]
  note d = two_digits_sound [OF b [THEN conjunct1] g(3)]
  note e = two_digits_sound [OF d [THEN conjunct1] g(4)]
  note k = two_digits_sound [OF e [THEN conjunct1] g(5)]
  show ?thesis
    using a b d e k f is_valid_day_iff [OF y f(2,3)] by (simp add: fields_ok_def time_digits_def is_valid_time_iff)
qed

lemma parse_time_fields_complete:
  assumes wf: "cbs_wf cbs" and bs: "cbs_bytes cbs = time_digits f @ rest" and ok: "fields_ok y f"
  obtains c where "parse_time_fields y cbs = (Some f, c)" "cbs_wf c" "cbs_bytes c = rest"
proof -
  obtain mo d h mi s where f: "f = (mo, d, h, mi, s)" by (metis prod_cases5)
  note b = fields_ok_bounds [OF ok [unfolded f]]
  have bs: "cbs_bytes cbs = two_digits mo @ two_digits d @ two_digits h @ two_digits mi @ two_digits s @ rest"
    using bs by (simp add: f time_digits_def)
  obtain c1 where 1: "cbs_get_two_digits cbs = (Some mo, c1)" "cbs_wf c1"
      "cbs_bytes c1 = two_digits d @ two_digits h @ two_digits mi @ two_digits s @ rest"
    by (rule two_digits_complete [OF wf bs]) (use b in simp_all)
  obtain c2 where 2: "cbs_get_two_digits c1 = (Some d, c2)" "cbs_wf c2"
      "cbs_bytes c2 = two_digits h @ two_digits mi @ two_digits s @ rest"
    by (rule two_digits_complete [OF 1(2,3)]) (use b in simp_all)
  obtain c3 where 3: "cbs_get_two_digits c2 = (Some h, c3)" "cbs_wf c3" "cbs_bytes c3 = two_digits mi @ two_digits s @ rest"
    by (rule two_digits_complete [OF 2(2,3)]) (use b in simp_all)
  obtain c4 where 4: "cbs_get_two_digits c3 = (Some mi, c4)" "cbs_wf c4" "cbs_bytes c4 = two_digits s @ rest"
    by (rule two_digits_complete [OF 3(2,3)]) (use b in simp_all)
  obtain c where 5: "cbs_get_two_digits c4 = (Some s, c)" "cbs_wf c" "cbs_bytes c = rest"
    by (rule two_digits_complete [OF 4(2,3)]) (use b in simp_all)
  have "is_valid_day y mo d" using is_valid_day_iff [of y mo d] b ok by (simp add: f fields_ok_def)
  then have "parse_time_fields y cbs = (Some f, c)"
    using 1(1) 2(1) 3(1) 4(1) 5(1) b by (simp add: parse_time_fields_def f)
  then show thesis using 5(2,3) by (rule that)
qed

lemma hundreds: "0 \<le> a \<Longrightarrow> a \<le> 99 \<Longrightarrow> (k * 100 + a) mod 100 = a" for a k :: int
  by simp

definition year_digits :: "bool \<Rightarrow> int \<Rightarrow> u8 list" where
  "year_digits is_gentime y = (if is_gentime then two_digits (y div 100) @ two_digits (y mod 100) else two_digits (y mod 100))"

definition year_ok :: "bool \<Rightarrow> int \<Rightarrow> bool" where
  "year_ok is_gentime y \<longleftrightarrow> (if is_gentime then 0 \<le> y \<and> y \<le> 9999 else 1950 \<le> y \<and> y < 2050)"

lemma parse_time_year_sound:
  assumes wf: "cbs_wf cbs" and r: "parse_time_year g cbs = (Some y, c)"
  shows "cbs_wf c \<and> year_ok g y \<and> cbs_bytes cbs = year_digits g y @ cbs_bytes c"
proof (cases g)
  case True
  with r obtain a b c1 where g: "cbs_get_two_digits cbs = (Some a, c1)" "cbs_get_two_digits c1 = (Some b, c)" "y = a * 100 + b"
    unfolding parse_time_year_def by (auto simp: Let_def split: option.splits prod.splits if_splits)
  note a = two_digits_sound [OF wf g(1)]
  note b = two_digits_sound [OF a [THEN conjunct1] g(2)]
  have "(a * 100 + b) div 100 = a" "(a * 100 + b) mod 100 = b" using b by simp_all
  with a b g(3) True show ?thesis by (simp add: year_digits_def year_ok_def)
next
  case False
  with r obtain a where g: "cbs_get_two_digits cbs = (Some a, c)" "y = (if 1900 + a < 1950 then 1900 + a + 100 else 1900 + a)"
    unfolding parse_time_year_def by (auto simp: Let_def split: option.splits prod.splits if_splits)
  note a = two_digits_sound [OF wf g(1)]
  have "(19 * 100 + a) mod 100 = a" "(20 * 100 + a) mod 100 = a" by (rule hundreds; use a in simp)+
  then have "(1900 + a) mod 100 = a" "(2000 + a) mod 100 = a" by (simp_all only: mult_num_simps arith_simps)
  with a g(2) False show ?thesis by (auto simp: year_digits_def year_ok_def)
qed

lemma parse_time_year_complete:
  assumes wf: "cbs_wf cbs" and bs: "cbs_bytes cbs = year_digits g y @ rest" and ok: "year_ok g y"
  obtains c where "parse_time_year g cbs = (Some y, c)" "cbs_wf c" "cbs_bytes c = rest"
proof (cases g)
  case True
  then have y: "0 \<le> y div 100" "y div 100 \<le> 99" "0 \<le> y mod 100" "y mod 100 \<le> 99"
    using ok by (auto simp: year_ok_def)
  obtain c1 where 1: "cbs_get_two_digits cbs = (Some (y div 100), c1)" "cbs_wf c1" "cbs_bytes c1 = two_digits (y mod 100) @ rest"
    by (rule two_digits_complete [OF wf _ y(1,2)]) (use bs True in \<open>auto simp: year_digits_def\<close>)
  obtain c where 2: "cbs_get_two_digits c1 = (Some (y mod 100), c)" "cbs_wf c" "cbs_bytes c = rest"
    by (rule two_digits_complete [OF 1(2,3) y(3,4)])
  have "parse_time_year g cbs = (Some y, c)" using 1(1) 2(1) True by (simp add: parse_time_year_def)
  then show thesis using 2(2,3) by (rule that)
next
  case False
  then have y: "1950 \<le> y" "y < 2050" using ok by (auto simp: year_ok_def)
  have m: "0 \<le> y mod 100" "y mod 100 \<le> 99" by simp_all
  obtain c where 1: "cbs_get_two_digits cbs = (Some (y mod 100), c)" "cbs_wf c" "cbs_bytes c = rest"
    by (rule two_digits_complete [OF wf _ m]) (use bs False in \<open>auto simp: year_digits_def\<close>)
  have "(19 * 100 + (y - 1900)) mod 100 = y - 1900" if "y < 2000" using that y by (intro hundreds) simp_all
  moreover have "(20 * 100 + (y - 2000)) mod 100 = y - 2000" if "\<not> y < 2000" using that y by (intro hundreds) simp_all
  ultimately have "y mod 100 = (if y < 2000 then y - 1900 else y - 2000)" by simp
  then have "parse_time_year g cbs = (Some y, c)" using 1(1) False y by (auto simp: parse_time_year_def)
  then show thesis using 1(2,3) by (rule that)
qed

section \<open>Accepted times\<close>

text \<open>The offset that a time zone stands for in the code, and its text.\<close>

inductive zone :: "bool \<Rightarrow> u8 list \<Rightarrow> int \<Rightarrow> bool" where
  zone_Z: "zone allow [0x5a] 0"
| zone_plus: "0 \<le> h \<Longrightarrow> h \<le> 23 \<Longrightarrow> 0 \<le> m \<Longrightarrow> m \<le> 59 \<Longrightarrow>
    zone True (0x2b # two_digits h @ two_digits m) (h * 3600 + m * 60)"
| zone_minus: "0 \<le> h \<Longrightarrow> h \<le> 23 \<Longrightarrow> 0 \<le> m \<Longrightarrow> m \<le> 59 \<Longrightarrow>
    zone True (0x2d # two_digits h @ two_digits m) (- (h * 3600 + m * 60))"

definition set_time :: "int \<Rightarrow> int \<times> int \<times> int \<times> int \<times> int \<Rightarrow> tm \<Rightarrow> tm" where
  "set_time y f tm = (case f of (mo, d, h, mi, s) \<Rightarrow>
     tm\<lparr>tm_year := y - 1900, tm_mon := mo - 1, tm_mday := d, tm_hour := h, tm_min := mi, tm_sec := s\<rparr>)"

definition apply_offset :: "int \<Rightarrow> tm \<Rightarrow> bool \<times> tm option" where
  "apply_offset off tm =
     (if off \<noteq> 0 then (case OPENSSL_gmtime_adj tm 0 off of (ok, tm) \<Rightarrow> (ok, Some tm)) else (True, Some tm))"

definition time_text :: "bool \<Rightarrow> int \<Rightarrow> int \<times> int \<times> int \<times> int \<times> int \<Rightarrow> u8 list \<Rightarrow> u8 list" where
  "time_text g y f z = year_digits g y @ time_digits f @ z"

lemma parse_time_offset_sound:
  assumes wf: "cbs_wf cbs" and r: "parse_time_offset sign cbs = (Some off, c)"
  shows "\<exists>h m. 0 \<le> h \<and> h \<le> 23 \<and> 0 \<le> m \<and> m \<le> 59 \<and> off = sign * (h * 3600 + m * 60) \<and> cbs_wf c \<and>
    cbs_bytes cbs = two_digits h @ two_digits m @ cbs_bytes c"
proof -
  from r obtain h m c1 where g: "cbs_get_two_digits cbs = (Some h, c1)" "cbs_get_two_digits c1 = (Some m, c)"
      "h \<le> 23" "m \<le> 59" "off = sign * (h * 3600 + m * 60)"
    unfolding parse_time_offset_def by (auto split: option.splits prod.splits if_splits)
  note a = two_digits_sound [OF wf g(1)]
  with two_digits_sound [OF a [THEN conjunct1] g(2)] g show ?thesis by auto
qed

lemma parse_time_offset_complete:
  assumes wf: "cbs_wf cbs" and bs: "cbs_bytes cbs = two_digits h @ two_digits m" and b: "0 \<le> h" "h \<le> 23" "0 \<le> m" "m \<le> 59"
  obtains c where "parse_time_offset sign cbs = (Some (sign * (h * 3600 + m * 60)), c)" "CBS_len c = 0"
proof -
  obtain c1 where 1: "cbs_get_two_digits cbs = (Some h, c1)" "cbs_wf c1" "cbs_bytes c1 = two_digits m"
    by (rule two_digits_complete [OF wf bs]) (use b in simp_all)
  then have bs1: "cbs_bytes c1 = two_digits m @ []" by simp
  obtain c where 2: "cbs_get_two_digits c1 = (Some m, c)" "cbs_wf c" "cbs_bytes c = []"
    by (rule two_digits_complete [OF 1(2) bs1]) (use b in simp_all)
  then have "CBS_len c = 0" using cbs_bytes_Nil_iff by blast
  with 1(1) 2(1) b that show thesis by (simp add: parse_time_offset_def)
qed

lemma parse_time_sound:
  assumes wf: "cbs_wf cbs" and r: "CBS_parse_rfc5280_time_internal cbs g allow (Some tm) = (True, res)"
  shows "\<exists>y f z off. year_ok g y \<and> fields_ok y f \<and> zone allow z off \<and> cbs_bytes cbs = time_text g y f z \<and>
    apply_offset off (set_time y f tm) = (True, res)"
proof -
  from r obtain y c1 f c2 tz c3 off c4 where
    g: "parse_time_year g cbs = (Some y, c1)" "parse_time_fields y c1 = (Some f, c2)" "CBS_get_u8 c2 = (Some tz, c3)"
      "tz = 0x5a \<or> tz = 0x2b \<or> tz = 0x2d" "tz \<noteq> 0x5a \<longrightarrow> allow"
      "(if tz = 0x5a then (Some 0, c3) else parse_time_offset (if tz = 0x2b then 1 else -1) c3) = (Some off, c4)"
      "CBS_len c4 = 0" "apply_offset off (set_time y f tm) = (True, res)"
    unfolding CBS_parse_rfc5280_time_internal_def apply_offset_def set_time_def
    by (auto simp: Let_def split: option.splits prod.splits if_splits)
  note a = parse_time_year_sound [OF wf g(1)]
  then have y: "0 \<le> y" "y \<le> 9999" by (auto simp: year_ok_def split: if_splits)
  note b = parse_time_fields_sound [OF a [THEN conjunct1] g(2) y]
  note t = rd_u8.get_Some [OF b [THEN conjunct1] g(3)]
  have c2: "cbs_bytes c2 = tz # cbs_bytes c3" using t(1) by (cases "cbs_bytes c2") auto
  have "\<exists>z. zone allow z off \<and> tz # cbs_bytes c3 = z"
  proof (cases "tz = 0x5a")
    case True
    with g(6,7) t(3) cbs_bytes_Nil_iff [of c3] show ?thesis by (auto intro: zone_Z)
  next
    case False
    then have "parse_time_offset (if tz = 0x2b then 1 else -1) c3 = (Some off, c4)" using g(6) by simp
    from parse_time_offset_sound [OF t(3) this] obtain h m where
      o: "0 \<le> h" "h \<le> 23" "0 \<le> m" "m \<le> 59" "off = (if tz = 0x2b then 1 else -1) * (h * 3600 + m * 60)" "cbs_wf c4"
        "cbs_bytes c3 = two_digits h @ two_digits m @ cbs_bytes c4" by blast
    have "cbs_bytes c4 = []" using cbs_bytes_Nil_iff [OF o(6)] g(7) by simp
    with o False g(4,5) zone_plus [OF o(1-4)] zone_minus [OF o(1-4)] show ?thesis by auto
  qed
  moreover have "cbs_bytes cbs = time_text g y f (tz # cbs_bytes c3)" using a b c2 by (simp add: time_text_def)
  ultimately show ?thesis using a b g(8) by blast
qed

lemma parse_time_complete:
  assumes wf: "cbs_wf cbs" and bs: "cbs_bytes cbs = time_text g y f z"
    and ok: "year_ok g y" "fields_ok y f" "zone allow z off"
  shows "CBS_parse_rfc5280_time_internal cbs g allow (Some tm) = apply_offset off (set_time y f tm)"
proof -
  obtain c1 where 1: "parse_time_year g cbs = (Some y, c1)" "cbs_wf c1" "cbs_bytes c1 = time_digits f @ z"
    by (rule parse_time_year_complete [OF wf _ ok(1)]) (use bs in \<open>auto simp: time_text_def\<close>)
  obtain c2 where 2: "parse_time_fields y c1 = (Some f, c2)" "cbs_wf c2" "cbs_bytes c2 = z"
    by (rule parse_time_fields_complete [OF 1(2,3) ok(2)])
  obtain mo d h mi s where f: "f = (mo, d, h, mi, s)" by (metis prod_cases5)
  note run = CBS_parse_rfc5280_time_internal_def [of cbs g allow "Some tm", unfolded 1(1) 2(1) [unfolded f] prod.case option.case]
  from ok(3) show ?thesis
  proof cases
    case zone_Z
    with rd_u8.get_accepts [OF 2(2), of "0x5a" "[]"] 2(3) obtain c3 where
      "CBS_get_u8 c2 = (Some 0x5a, c3)" "CBS_len c3 = 0" using cbs_bytes_Nil_iff by auto
    with zone_Z show ?thesis unfolding run apply_offset_def set_time_def f by simp
  next
    case (zone_plus oh om)
    with rd_u8.get_accepts [OF 2(2), of "0x2b" "two_digits oh @ two_digits om"] 2(3) obtain c3 where
      c3: "CBS_get_u8 c2 = (Some 0x2b, c3)" "cbs_wf c3" "cbs_bytes c3 = two_digits oh @ two_digits om" by auto
    from parse_time_offset_complete [OF c3(2,3) zone_plus(4-7), of 1] obtain c4 where
      "parse_time_offset 1 c3 = (Some (1 * (oh * 3600 + om * 60)), c4)" "CBS_len c4 = 0" .
    with zone_plus c3(1) show ?thesis unfolding run apply_offset_def set_time_def f by simp
  next
    case (zone_minus oh om)
    with rd_u8.get_accepts [OF 2(2), of "0x2d" "two_digits oh @ two_digits om"] 2(3) obtain c3 where
      c3: "CBS_get_u8 c2 = (Some 0x2d, c3)" "cbs_wf c3" "cbs_bytes c3 = two_digits oh @ two_digits om" by auto
    from parse_time_offset_complete [OF c3(2,3) zone_minus(4-7), of "-1"] obtain c4 where
      "parse_time_offset (-1) c3 = (Some (-1 * (oh * 3600 + om * 60)), c4)" "CBS_len c4 = 0" .
    with zone_minus c3(1) show ?thesis unfolding run apply_offset_def set_time_def f by simp
  qed
qed

text \<open>The accepted texts and the structure they give.\<close>

lemma parse_time_iff:
  assumes "cbs_wf cbs"
  shows "CBS_parse_rfc5280_time_internal cbs g allow (Some tm) = (True, res) \<longleftrightarrow>
    (\<exists>y f z off. year_ok g y \<and> fields_ok y f \<and> zone allow z off \<and> cbs_bytes cbs = time_text g y f z \<and>
      apply_offset off (set_time y f tm) = (True, res))"
  using parse_time_sound [OF assms] parse_time_complete [OF assms] by metis

end
