(* ===== verification/Time_Properties.thy ===== *)
theory Time_Properties
  imports Cbs_Time
begin

text \<open>
  The properties of POSIX times and of the time strings of certificates.
\<close>

section \<open>POSIX times\<close>

text \<open>
  C22. The conversions between a civil date and time and a POSIX time are inverse to each other,
  and each is defined exactly where the other reaches: a valid date and time from year 0 to year
  9999 on one side, the numbers between the two limits on the other.
\<close>

theorem posix_utc_bijection:
  "posix_time_from_utc y m d h mi s = Some t \<longleftrightarrow> utc_from_posix_time t = Some (y, m, d, h, mi, s)"
  by (rule posix_utc_inverse)

lemma day_number_1970: "day_number 1970 1 1 = 719528"
proof -
  have "day_number (nat 1970) (nat 1) 1 - 60 = civil_days 1969 10 1"
    using civil_days_number [of 1970 1 1] by (simp add: is_valid_date_def)
  then show ?thesis by (simp add: civil_days_def leaps_def)
qed

text \<open>
  C23. The POSIX time computed with the 400-year eras is the one the calendar defines: the number
  of days since 1 January 1970, counted by adding up the lengths of the years and months, times
  86400, plus the seconds of the day.
\<close>

theorem posix_time_from_utc_calendar:
  assumes "is_valid_date y m d" "is_valid_time h mi s"
  shows "posix_time_from_utc y m d h mi s =
    Some ((day_number (nat y) (nat m) d - day_number 1970 1 1) * 86400 + h * 3600 + mi * 60 + s)"
  unfolding posix_time_from_utc_civil [OF assms] civil_days_number [OF assms(1)] day_number_1970 by simp

theorem posix_time_from_utc_calendar_witness:
  "posix_time_from_utc 2024 2 29 12 0 0 = Some ((day_number 2024 2 29 - day_number 1970 1 1) * 86400 + 43200)"
  using posix_time_from_utc_calendar [of 2024 2 29 12 0 0] by (simp add: is_valid_date_def is_valid_time_def)

text \<open>
  C24. A broken-down time exists exactly for the valid POSIX times. It is an existing date and a time
  of the day, so that every field is in the range that the C standard gives it, and converting it back
  gives the POSIX time.
\<close>

theorem OPENSSL_posix_to_tm_exact:
  "case OPENSSL_posix_to_tm t of
     None \<Rightarrow> \<not> is_valid_posix_time t
   | Some tm \<Rightarrow> is_valid_posix_time t \<and> is_valid_date (tm_year tm + 1900) (tm_mon tm + 1) (tm_mday tm) \<and>
       is_valid_time (tm_hour tm) (tm_min tm) (tm_sec tm) \<and>
       0 \<le> tm_mon tm \<and> tm_mon tm \<le> 11 \<and> 1 \<le> tm_mday tm \<and> tm_mday tm \<le> 31 \<and>
       0 \<le> tm_hour tm \<and> tm_hour tm \<le> 23 \<and> 0 \<le> tm_min tm \<and> tm_min tm \<le> 59 \<and> 0 \<le> tm_sec tm \<and> tm_sec tm \<le> 59 \<and>
       OPENSSL_tm_to_posix tm = Some t"
proof (cases "OPENSSL_posix_to_tm t")
  case None
  then show ?thesis using posix_to_tm_defined [of t] by auto
next
  case (Some tm)
  then have t: "OPENSSL_tm_to_posix tm = Some t" "is_valid_posix_time t"
    using posix_to_tm_defined [of t] by (auto simp: posix_to_tm_iff)
  then have v: "is_valid_date (tm_year tm + 1900) (tm_mon tm + 1) (tm_mday tm)" "is_valid_time (tm_hour tm) (tm_min tm) (tm_sec tm)"
    by (auto simp: OPENSSL_tm_to_posix_def posix_time_from_utc_def split: if_splits)
  then have "0 \<le> tm_mon tm \<and> tm_mon tm \<le> 11 \<and> 1 \<le> tm_mday tm \<and> tm_mday tm \<le> 31"
    "0 \<le> tm_hour tm \<and> tm_hour tm \<le> 23 \<and> 0 \<le> tm_min tm \<and> tm_min tm \<le> 59 \<and> 0 \<le> tm_sec tm \<and> tm_sec tm \<le> 59"
    by (auto simp: is_valid_date_iff is_valid_time_iff month_len_def split: if_splits)
  with Some t v show ?thesis by simp
qed

text \<open>Two times to try the conversions on: the epoch, and the last second of the day before.\<close>

definition epoch_tm :: tm where
  "epoch_tm = \<lparr>tm_sec = 0, tm_min = 0, tm_hour = 0, tm_mday = 1, tm_mon = 0, tm_year = 70, tm_wday = 0, tm_yday = 0,
     tm_isdst = 0\<rparr>"

definition before_epoch_tm :: tm where
  "before_epoch_tm = \<lparr>tm_sec = 59, tm_min = 59, tm_hour = 23, tm_mday = 31, tm_mon = 11, tm_year = 69, tm_wday = 0,
     tm_yday = 0, tm_isdst = 0\<rparr>"

lemma demo_tm_facts:
  "OPENSSL_tm_to_posix epoch_tm = Some 0" "OPENSSL_tm_to_posix before_epoch_tm = Some (- 1)"
  "OPENSSL_gmtime_diff epoch_tm before_epoch_tm = Some (0, - 1)" "OPENSSL_posix_to_tm (- 1) = Some before_epoch_tm"
  by code_simp+

text \<open>
  The difference of two times has days and seconds of the same sign, less than a day of
  seconds, and adjusting the first time by it gives the second.
\<close>

theorem gmtime_diff_adj:
  assumes "OPENSSL_gmtime_diff from_tm to_tm = Some (days, secs)"
  shows "\<bar>secs\<bar> < 86400 \<and> (0 \<le> days \<and> 0 \<le> secs \<or> days \<le> 0 \<and> secs \<le> 0) \<and>
    (\<exists>tm t. OPENSSL_gmtime_adj from_tm days secs = (True, tm) \<and> OPENSSL_tm_to_posix tm = Some t \<and> OPENSSL_tm_to_posix to_tm = Some t)"
proof -
  obtain t1 t2 where t: "OPENSSL_tm_to_posix from_tm = Some t1" "OPENSSL_tm_to_posix to_tm = Some t2"
    and d: "days = (t2 - t1) sdiv 86400" "secs = (t2 - t1) smod 86400"
    using assms unfolding gmtime_diff_iff by blast
  note parts = sdiv_smod_parts [of "t2 - t1", folded d]
  obtain tm where tm: "OPENSSL_posix_to_tm t2 = Some tm" using posix_to_tm_defined tm_to_posix_valid [OF t(2)] by blast
  moreover have "t1 + days * 86400 + secs = t2" using parts(1) by linarith
  ultimately have "OPENSSL_gmtime_adj from_tm days secs = (True, tm)" using t(1) by (auto simp: gmtime_adj_iff)
  with parts tm t(2) show ?thesis by (fastforce simp: posix_to_tm_iff)
qed

theorem gmtime_diff_adj_witness:
  "\<exists>tm t. OPENSSL_gmtime_adj epoch_tm 0 (- 1) = (True, tm) \<and> OPENSSL_tm_to_posix tm = Some t \<and>
     OPENSSL_tm_to_posix before_epoch_tm = Some t"
  using gmtime_diff_adj [OF demo_tm_facts(3)] by blast

text \<open>
  Adjusting a time by days and seconds adds them to its POSIX time, fails exactly when the sum
  is out of range, and the multiplication and additions on the way fit into 64 bits.
\<close>

theorem gmtime_adj_adds:
  assumes "OPENSSL_tm_to_posix tm = Some t" "- (2 ^ 31) \<le> offset_day" "offset_day < 2 ^ 31"
  shows "(OPENSSL_gmtime_adj tm offset_day offset_sec = (True, tm') \<longleftrightarrow>
      OPENSSL_posix_to_tm (t + offset_day * 86400 + offset_sec) = Some tm') \<and>
    INT64_MIN \<le> t + offset_day * SECS_PER_DAY \<and> t + offset_day * SECS_PER_DAY \<le> INT64_MAX"
  using gmtime_adj_no_overflow [OF assms] assms(1) by (simp add: gmtime_adj_iff)

theorem gmtime_adj_adds_witness:
  "OPENSSL_gmtime_adj epoch_tm 1 (- 86401) = (True, before_epoch_tm)"
  using gmtime_adj_adds [OF demo_tm_facts(1), of 1 "- 86401" before_epoch_tm] by (simp add: demo_tm_facts)

section \<open>Time strings\<close>

text \<open>The civil time in a broken-down time.\<close>

definition civil_time :: "tm \<Rightarrow> int \<times> int \<times> int \<times> int \<times> int \<times> int" where
  "civil_time tm = (tm_year tm + 1900, tm_mon tm + 1, tm_mday tm, tm_hour tm, tm_min tm, tm_sec tm)"

lemma civil_set_time: "civil_time (set_time y (mo, d, h, mi, s) tm) = (y, mo, d, h, mi, s)"
  by (simp add: civil_time_def set_time_def)

lemma zone_False: "zone False z off \<longleftrightarrow> z = [0x5a] \<and> off = 0"
  by (auto elim: zone.cases intro: zone_Z)

lemma parse_der_time:
  assumes "cbs_wf cbs"
  shows "(\<exists>tm'. CBS_parse_rfc5280_time_internal cbs g False (Some tm) = (True, Some tm') \<and> civil_time tm' = (y, mo, d, h, mi, s)) \<longleftrightarrow>
    year_ok g y \<and> is_valid_date y mo d \<and> is_valid_time h mi s \<and> cbs_bytes cbs = time_text g y (mo, d, h, mi, s) [0x5a]"
proof -
  have "(\<exists>tm'. CBS_parse_rfc5280_time_internal cbs g False (Some tm) = (True, Some tm') \<and> civil_time tm' = (y, mo, d, h, mi, s)) \<longleftrightarrow>
    (\<exists>y' f. year_ok g y' \<and> fields_ok y' f \<and> cbs_bytes cbs = time_text g y' f [0x5a] \<and>
      civil_time (set_time y' f tm) = (y, mo, d, h, mi, s))"
    unfolding parse_time_iff [OF assms] zone_False apply_offset_def by (simp del: split_paired_Ex) blast
  then show ?thesis by (auto simp: civil_set_time fields_ok_def)
qed

text \<open>
  C25. Without offsets, as DER and RFC 5280 have it, a GeneralizedTime is accepted exactly when it
  consists of a four-digit year, two digits each for month, day, hour, minute and second of an existing
  date and time, and a Z, and the six fields of the result are that date and time. A UTCTime has two
  digits for a year from 1950 to 2049.
\<close>

theorem CBS_parse_time_der:
  assumes "cbs_wf cbs"
  shows "((\<exists>tm'. CBS_parse_generalized_time cbs (Some tm) False = (True, Some tm') \<and> civil_time tm' = (y, mo, d, h, mi, s)) \<longleftrightarrow>
      0 \<le> y \<and> y \<le> 9999 \<and> is_valid_date y mo d \<and> is_valid_time h mi s \<and>
      cbs_bytes cbs = two_digits (y div 100) @ two_digits (y mod 100) @ two_digits mo @ two_digits d @
        two_digits h @ two_digits mi @ two_digits s @ [0x5a]) \<and>
    ((\<exists>tm'. CBS_parse_utc_time cbs (Some tm) False = (True, Some tm') \<and> civil_time tm' = (y, mo, d, h, mi, s)) \<longleftrightarrow>
      1950 \<le> y \<and> y \<le> 2049 \<and> is_valid_date y mo d \<and> is_valid_time h mi s \<and>
      cbs_bytes cbs = two_digits (y mod 100) @ two_digits mo @ two_digits d @ two_digits h @ two_digits mi @ two_digits s @ [0x5a])"
  unfolding CBS_parse_generalized_time_def CBS_parse_utc_time_def parse_der_time [OF assms]
  by (auto simp: year_ok_def time_text_def year_digits_def time_digits_def)

text \<open>The text 20240229120000Z.\<close>

definition demo_time :: "u8 list" where
  "demo_time = [0x32, 0x30, 0x32, 0x34, 0x30, 0x32, 0x32, 0x39, 0x31, 0x32, 0x30, 0x30, 0x30, 0x30, 0x5a]"

theorem CBS_parse_time_der_witness:
  "\<exists>tm'. CBS_parse_generalized_time (cbs_of demo_time) (Some epoch_tm) False = (True, Some tm') \<and>
     civil_time tm' = (2024, 2, 29, 12, 0, 0)"
proof -
  have "cbs_wf (cbs_of demo_time)" "cbs_bytes (cbs_of demo_time) = demo_time" by (simp_all add: demo_time_def)
  moreover have "demo_time = two_digits (2024 div 100) @ two_digits (2024 mod 100) @ two_digits 2 @ two_digits 29 @
        two_digits 12 @ two_digits 0 @ two_digits 0 @ [0x5a]" by code_simp
  moreover have "is_valid_date 2024 2 29" "is_valid_time 12 0 0" by code_simp+
  ultimately show ?thesis using CBS_parse_time_der [of "cbs_of demo_time" epoch_tm 2024 2 29 12 0 0] by simp
qed

text \<open>
  A UTCTime with a positive offset: 12:00 at one hour ahead of UTC is read as 13:00, although
  the corresponding time in UTC is 11:00; the code adds the offset where it should subtract it.
\<close>

theorem utc_time_offset_added:
  "\<exists>tm. CBS_parse_utc_time
      (cbs_of [0x32, 0x34, 0x30, 0x31, 0x30, 0x31, 0x31, 0x32, 0x30, 0x30, 0x30, 0x30, 0x2b, 0x30, 0x31, 0x30, 0x30])
      (Some epoch_tm) True = (True, Some tm) \<and> tm_hour tm = 13 \<and> tm_mday tm = 1"
proof -
  have "map_option (\<lambda>tm. (tm_hour tm, tm_mday tm)) (snd (CBS_parse_utc_time
      (cbs_of [0x32, 0x34, 0x30, 0x31, 0x30, 0x31, 0x31, 0x32, 0x30, 0x30, 0x30, 0x30, 0x2b, 0x30, 0x31, 0x30, 0x30])
      (Some epoch_tm) True)) = Some (13, 1)" by code_simp
  moreover have "fst (CBS_parse_utc_time
      (cbs_of [0x32, 0x34, 0x30, 0x31, 0x30, 0x31, 0x31, 0x32, 0x30, 0x30, 0x30, 0x30, 0x2b, 0x30, 0x31, 0x30, 0x30])
      (Some epoch_tm) True)" by code_simp
  ultimately show ?thesis by (auto simp: prod_eq_iff)
qed

end
