(* ===== verification/Constant_Time.thy ===== *)
theory Constant_Time
  imports Prelude
begin

text \<open>
  The branch-free comparisons and selections of crypto/internal.h on 64-bit words. A value
  barrier returns its argument; it only stops the compiler from reasoning about it.
\<close>

section \<open>Definitions\<close>

type_synonym crypto_word_t = u64

definition value_barrier_w :: "crypto_word_t \<Rightarrow> crypto_word_t" where
  "value_barrier_w a = a"

definition constant_time_msb_w :: "crypto_word_t \<Rightarrow> crypto_word_t" where
  "constant_time_msb_w a = 0 - drop_bit (8 * 8 - 1) a"

definition constant_time_lt_w :: "crypto_word_t \<Rightarrow> crypto_word_t \<Rightarrow> crypto_word_t" where
  "constant_time_lt_w a b = constant_time_msb_w (a XOR ((a XOR b) OR ((a - b) XOR a)))"

definition constant_time_lt_8 :: "crypto_word_t \<Rightarrow> crypto_word_t \<Rightarrow> u8" where
  "constant_time_lt_8 a b = ucast (constant_time_lt_w a b)"

definition constant_time_ge_w :: "crypto_word_t \<Rightarrow> crypto_word_t \<Rightarrow> crypto_word_t" where
  "constant_time_ge_w a b = NOT (constant_time_lt_w a b)"

definition constant_time_ge_8 :: "crypto_word_t \<Rightarrow> crypto_word_t \<Rightarrow> u8" where
  "constant_time_ge_8 a b = ucast (constant_time_ge_w a b)"

definition constant_time_is_zero_w :: "crypto_word_t \<Rightarrow> crypto_word_t" where
  "constant_time_is_zero_w a = constant_time_msb_w (NOT a AND (a - 1))"

definition constant_time_is_zero_8 :: "crypto_word_t \<Rightarrow> u8" where
  "constant_time_is_zero_8 a = ucast (constant_time_is_zero_w a)"

definition constant_time_eq_w :: "crypto_word_t \<Rightarrow> crypto_word_t \<Rightarrow> crypto_word_t" where
  "constant_time_eq_w a b = constant_time_is_zero_w (a XOR b)"

definition constant_time_eq_8 :: "crypto_word_t \<Rightarrow> crypto_word_t \<Rightarrow> u8" where
  "constant_time_eq_8 a b = ucast (constant_time_eq_w a b)"

definition constant_time_eq_int :: "32 word \<Rightarrow> 32 word \<Rightarrow> crypto_word_t" where
  "constant_time_eq_int a b = constant_time_eq_w (scast a) (scast b)"

definition constant_time_eq_int_8 :: "32 word \<Rightarrow> 32 word \<Rightarrow> u8" where
  "constant_time_eq_int_8 a b = constant_time_eq_8 (scast a) (scast b)"

definition constant_time_select_w :: "crypto_word_t \<Rightarrow> crypto_word_t \<Rightarrow> crypto_word_t \<Rightarrow> crypto_word_t" where
  "constant_time_select_w m a b =
     (let m = value_barrier_w m in (m AND a) OR (NOT m AND b))"

definition constant_time_select_8 :: "crypto_word_t \<Rightarrow> u8 \<Rightarrow> u8 \<Rightarrow> u8" where
  "constant_time_select_8 m a b =
     (let m8 = ucast (value_barrier_w m) in (m8 AND a) OR (NOT m8 AND b))"

definition constant_time_select_int :: "crypto_word_t \<Rightarrow> 32 word \<Rightarrow> 32 word \<Rightarrow> 32 word" where
  "constant_time_select_int m a b = ucast (constant_time_select_w m (scast a) (scast b))"

definition constant_time_conditional_memcpy :: "u8 list \<Rightarrow> u8 list \<Rightarrow> size_t \<Rightarrow> crypto_word_t \<Rightarrow> u8 list" where
  "constant_time_conditional_memcpy dst src n m =
     fold (\<lambda>i out. out[i := constant_time_select_8 m (src ! i) (out ! i)]) [0 ..< unat n] dst"

section \<open>The masks\<close>

definition all_ones_if :: "bool \<Rightarrow> 'a::len word" where
  "all_ones_if p = (if p then - 1 else 0)"

lemma bit_msb: "bit (a :: u64) 63 \<longleftrightarrow> 9223372036854775808 \<le> unat a"
proof -
  have "bit a 63 \<longleftrightarrow> bit (unat a) 63" by (simp add: bit_unsigned_iff)
  also have "\<dots> \<longleftrightarrow> odd (unat a div 2 ^ 63)" by (rule bit_iff_odd)
  also have "\<dots> \<longleftrightarrow> 9223372036854775808 \<le> unat a"
  proof (cases "9223372036854775808 \<le> unat a")
    case True
    then have "unat a div 2 ^ 63 = 1" using unat_u64_less [of a] by (intro div_nat_eqI) simp_all
    with True show ?thesis by simp
  next
    case False
    then have "unat a div 2 ^ 63 = 0" by (simp add: div_eq_0_iff)
    with False show ?thesis by simp
  qed
  finally show ?thesis .
qed

lemma msb_w: "constant_time_msb_w a = all_ones_if (bit a 63)"
proof (cases "bit a 63")
  case True
  then have "unat (drop_bit 63 a) = 1"
    unfolding unat_drop_bit_div using unat_u64_less [of a] by (intro div_nat_eqI) (simp_all add: bit_msb)
  then have "drop_bit 63 a = 1" by (simp add: word_unat_eq_iff)
  with True show ?thesis by (simp add: constant_time_msb_w_def all_ones_if_def)
next
  case False
  then have "unat (drop_bit 63 a) = 0" unfolding unat_drop_bit_div by (simp add: bit_msb div_eq_0_iff)
  then have "drop_bit 63 a = 0" by (simp add: word_unat_eq_iff)
  with False show ?thesis by (simp add: constant_time_msb_w_def all_ones_if_def)
qed

lemma unat_minus: "unat (a - b :: u64) = (if unat b \<le> unat a then unat a - unat b else 18446744073709551616 + unat a - unat b)"
  using unat_u64_less [of b] by (simp add: unat_sub_if') linarith

text \<open>The comparison of Hacker's Delight: the sign of the difference unless the signs differ.\<close>

lemma constant_time_lt_w: "constant_time_lt_w a b = all_ones_if (a < b)"
proof -
  let ?h = "9223372036854775808 :: nat"
  have "x < 2 * ?h \<Longrightarrow> y < 2 * ?h \<Longrightarrow>
      ((?h \<le> x) \<noteq> ((?h \<le> x) \<noteq> (?h \<le> y) \<or> (?h \<le> (if y \<le> x then x - y else 18446744073709551616 + x - y)) \<noteq> (?h \<le> x))) \<longleftrightarrow> x < y" for x y
    by auto
  note key = this [of "unat a" "unat b"]
  have "unat a < 2 * ?h" "unat b < 2 * ?h" using unat_u64_less [of a] unat_u64_less [of b] by simp_all
  note key [OF this]
  then have "bit (a XOR ((a XOR b) OR ((a - b) XOR a))) 63 \<longleftrightarrow> a < b"
    unfolding bit_xor_iff bit_or_iff
    unfolding bit_msb unat_minus word_less_nat_alt .
  then show ?thesis by (simp add: constant_time_lt_w_def msb_w)
qed

lemma constant_time_is_zero_w: "constant_time_is_zero_w a = all_ones_if (a = 0)"
proof -
  have "unat (a - 1) = (if unat a = 0 then 18446744073709551615 else unat a - 1)"
    using unat_minus [of a 1] by (cases "unat a = 0") auto
  then have "bit (NOT a AND (a - 1)) 63 \<longleftrightarrow> a = 0"
    using unat_u64_less [of a]
    unfolding bit_and_iff bit_not_iff
    unfolding bit_msb word_unat_eq_iff by (auto simp: possible_bit_word)
  then show ?thesis by (simp add: constant_time_is_zero_w_def msb_w)
qed

lemma not_all_ones: "NOT (all_ones_if p) = all_ones_if (\<not> p)"
  by (simp add: all_ones_if_def)

lemma ucast_all_ones: "ucast (all_ones_if p :: u64) = (all_ones_if p :: u8)"
  by (rule bit_word_eqI) (auto simp: all_ones_if_def bit_simps)

lemma xor_zero_iff: "a XOR b = 0 \<longleftrightarrow> a = (b :: 'a::len word)"
proof
  assume "a XOR b = 0"
  then have "(a XOR b) XOR b = b" by simp
  then show "a = b" by (simp add: xor.assoc)
qed simp

lemma constant_time_masks:
  "constant_time_lt_8 a b = all_ones_if (a < b)" "constant_time_ge_w a b = all_ones_if (b \<le> a)"
  "constant_time_ge_8 a b = all_ones_if (b \<le> a)" "constant_time_is_zero_8 a = all_ones_if (a = 0)"
  "constant_time_eq_w a b = all_ones_if (a = b)" "constant_time_eq_8 a b = all_ones_if (a = b)"
  by (simp_all add: constant_time_lt_8_def constant_time_ge_w_def constant_time_ge_8_def constant_time_is_zero_8_def
      constant_time_eq_w_def constant_time_eq_8_def constant_time_lt_w constant_time_is_zero_w ucast_all_ones not_all_ones
      not_less xor_zero_iff)

lemma constant_time_eq_int: "constant_time_eq_int a b = all_ones_if (a = b)" "constant_time_eq_int_8 a b = all_ones_if (a = b)"
proof -
  have "(scast a :: u64) = scast b \<longleftrightarrow> a = b"
  proof
    assume eq: "(scast a :: u64) = scast b"
    show "a = b"
    proof (rule bit_word_eqI)
      fix n
      assume n: "n < LENGTH(32)"
      have "bit (scast a :: u64) n = bit (scast b :: u64) n" by (simp only: eq)
      with n show "bit a n = bit b n" by (simp add: bit_signed_iff)
    qed
  qed simp
  then show "constant_time_eq_int a b = all_ones_if (a = b)" "constant_time_eq_int_8 a b = all_ones_if (a = b)"
    by (simp_all add: constant_time_eq_int_def constant_time_eq_int_8_def constant_time_masks)
qed

lemma constant_time_selects:
  "constant_time_select_w (all_ones_if p) x y = (if p then x else y)"
  "constant_time_select_8 (all_ones_if p) c d = (if p then c else d)"
  "constant_time_select_8 (ucast (all_ones_if p :: u8)) c d = (if p then c else d)"
proof -
  show "constant_time_select_w (all_ones_if p) x y = (if p then x else y)"
    by (simp add: constant_time_select_w_def value_barrier_w_def all_ones_if_def Let_def)
  show s: "constant_time_select_8 (all_ones_if p) c d = (if p then c else d)"
    by (simp add: constant_time_select_8_def value_barrier_w_def ucast_all_ones) (simp add: all_ones_if_def)
  have "ucast (ucast (all_ones_if p :: u8) :: u64) = (all_ones_if p :: u8)"
    by (rule bit_word_eqI) (auto simp: bit_simps)
  then show "constant_time_select_8 (ucast (all_ones_if p :: u8)) c d = (if p then c else d)"
    by (simp add: constant_time_select_8_def value_barrier_w_def) (simp add: all_ones_if_def)
qed

lemma fold_update_prefix:
  "n \<le> length dst \<Longrightarrow> (\<And>i c. f i c = (if p then src ! i else c)) \<Longrightarrow> n \<le> length src \<Longrightarrow>
   fold (\<lambda>i out. out[i := f i (out ! i)]) [0 ..< n] dst = (if p then take n src @ drop n dst else dst)"
proof (induction n)
  case (Suc n)
  then have IH: "fold (\<lambda>i out. out[i := f i (out ! i)]) [0 ..< n] dst = (if p then take n src @ drop n dst else dst)"
    by simp
  show ?case
  proof (cases p)
    case True
    have "drop n dst = dst ! n # drop (Suc n) dst" using Suc.prems(1) by (simp add: Cons_nth_drop_Suc)
    with True IH Suc.prems show ?thesis by (simp add: list_update_append take_Suc_conv_app_nth)
  qed (use IH Suc.prems in simp)
qed simp

lemma constant_time_conditional_memcpy:
  assumes "unat n \<le> length dst" "unat n \<le> length src"
  shows "constant_time_conditional_memcpy dst src n (all_ones_if p) =
    (if p then take (unat n) src @ drop (unat n) dst else dst)"
  unfolding constant_time_conditional_memcpy_def
  by (rule fold_update_prefix [OF assms(1) _ assms(2)]) (simp add: constant_time_selects)

end
