(* ===== verification/Base64.thy ===== *)
theory Base64
  imports Constant_Time
begin

text \<open>
  crypto/base64/base64.c: base64 with the branch-free character conversions, in one piece and
  as a stream with lines of 48 input bytes. A function that writes through \<open>out\<close> returns the
  bytes it leaves there, from the start of the buffer on.
\<close>

section \<open>Definitions\<close>

definition constant_time_lt_args_8 :: "u8 \<Rightarrow> u8 \<Rightarrow> u8" where
  "constant_time_lt_args_8 a b =
     (let aw = ucast a :: crypto_word_t; bw = ucast b in ucast (constant_time_msb_w (aw - bw)))"

definition constant_time_in_range_8 :: "u8 \<Rightarrow> u8 \<Rightarrow> u8 \<Rightarrow> u8" where
  "constant_time_in_range_8 a lo hi = constant_time_lt_args_8 (a - lo) (hi - lo + 1)"

definition conv_bin2ascii :: "u8 \<Rightarrow> u8" where
  "conv_bin2ascii a =
     (let a = a AND 0x3f;
          ret = constant_time_select_8 (ucast (constant_time_eq_8 (ucast a) 62)) 0x2b 0x2f;
          ret = constant_time_select_8 (ucast (constant_time_lt_args_8 a 62)) (a - 52 + 0x30) ret;
          ret = constant_time_select_8 (ucast (constant_time_lt_args_8 a 52)) (a - 26 + 0x61) ret
      in constant_time_select_8 (ucast (constant_time_lt_args_8 a 26)) (a + 0x41) ret)"

definition EVP_EncodedLength :: "size_t \<Rightarrow> size_t option" where
  "EVP_EncodedLength len =
     (if len + 2 < len then None
      else let len = (len + 2) div 3 in
           if drop_bit 2 (push_bit 2 len) \<noteq> len then None
           else let len = push_bit 2 len in
                if len + 1 < len then None else Some (len + 1))"

text \<open>\<open>EVP_ENCODE_CTX\<close>; the array \<open>data\<close> has 48 bytes.\<close>

record EVP_ENCODE_CTX =
  data_used :: u32
  data :: "u8 list"
  eof_seen :: bool
  error_encountered :: bool

definition EVP_EncodeInit :: EVP_ENCODE_CTX where
  "EVP_EncodeInit = \<lparr>data_used = 0, data = replicate 48 0, eof_seen = False, error_encountered = False\<rparr>"

definition EVP_DecodeInit :: EVP_ENCODE_CTX where
  "EVP_DecodeInit = \<lparr>data_used = 0, data = replicate 48 0, eof_seen = False, error_encountered = False\<rparr>"

text \<open>The loop of \<open>EVP_EncodeBlock\<close> over the remaining source.\<close>

fun encode_block_loop :: "u8 list \<Rightarrow> u8 list" where
  "encode_block_loop [] = []"
| "encode_block_loop (s0 # s1 # s2 # src) =
     (let l = push_bit 16 (ucast s0) OR push_bit 8 (ucast s1) OR ucast s2 :: u32 in
      conv_bin2ascii (ucast (drop_bit 18 l)) # conv_bin2ascii (ucast (drop_bit 12 l)) #
      conv_bin2ascii (ucast (drop_bit 6 l)) # conv_bin2ascii (ucast l) # encode_block_loop src)"
| "encode_block_loop [s0, s1] =
     (let l = push_bit 16 (ucast s0) OR push_bit 8 (ucast s1) :: u32 in
      [conv_bin2ascii (ucast (drop_bit 18 l)), conv_bin2ascii (ucast (drop_bit 12 l)),
       conv_bin2ascii (ucast (drop_bit 6 l)), 0x3d])"
| "encode_block_loop [s0] =
     (let l = push_bit 16 (ucast s0) :: u32 in
      [conv_bin2ascii (ucast (drop_bit 18 l)), conv_bin2ascii (ucast (drop_bit 12 l)), 0x3d, 0x3d])"

text \<open>The bytes at \<open>dst\<close>, with the final NUL, and the return value.\<close>

definition EVP_EncodeBlock :: "u8 list \<Rightarrow> size_t \<Rightarrow> u8 list \<times> size_t" where
  "EVP_EncodeBlock src src_len =
     (let dst = encode_block_loop (take (unat src_len) src) in (dst @ [0], word_of_nat (length dst)))"

text \<open>
  The loop of \<open>EVP_EncodeUpdate\<close> over full lines: whether it ran to the end, the bytes at
  \<open>out\<close> so far, the total, and what is left of the input.
\<close>

function encode_update_loop ::
  "u8 list \<Rightarrow> size_t \<Rightarrow> u8 list \<Rightarrow> size_t \<Rightarrow> bool \<times> u8 list \<times> size_t \<times> u8 list \<times> size_t" where
  "encode_update_loop out tot inp in_len =
     (if in_len \<ge> 48 then
        (let (block, encoded) = EVP_EncodeBlock inp 48;
             out' = out @ take (unat encoded) block @ [0x0a]
         in if tot + encoded + 1 < tot then (False, out', tot, drop 48 inp, in_len - 48)
            else encode_update_loop out' (tot + encoded + 1) (drop 48 inp) (in_len - 48))
      else (True, out, tot, inp, in_len))"
  by pat_completeness auto
termination
  by (relation "measure (\<lambda>(out, tot, inp, in_len). unat in_len)") (auto simp: word_le_nat_alt unat_sub)

declare encode_update_loop.simps [simp del]

definition INT_MAX :: size_t where "INT_MAX = 0x7fffffff"

text \<open>The context, the bytes at \<open>out\<close> and \<open>*out_len\<close>.\<close>

definition EVP_EncodeUpdate :: "EVP_ENCODE_CTX \<Rightarrow> u8 list \<Rightarrow> size_t \<Rightarrow> EVP_ENCODE_CTX \<times> u8 list \<times> int" where
  "EVP_EncodeUpdate ctx inp in_len =
     (if in_len = 0 then (ctx, [], 0)
      else if 48 - ucast (data_used ctx) > in_len then
        (ctx\<lparr>data := take (unat (data_used ctx)) (data ctx) @ take (unat in_len) inp @
                drop (unat (data_used ctx) + unat in_len) (data ctx),
             data_used := data_used ctx + ucast in_len\<rparr>, [], 0)
      else
        let (ctx, out, tot, inp, in_len) =
              (if data_used ctx \<noteq> 0 then
                 (let todo = 48 - ucast (data_used ctx);
                      filled = take (unat (data_used ctx)) (data ctx) @ take (unat todo) inp;
                      (block, encoded) = EVP_EncodeBlock filled 48
                  in (ctx\<lparr>data := filled, data_used := 0\<rparr>, take (unat encoded) block @ [0x0a], encoded + 1,
                      drop (unat todo) inp, in_len - todo))
               else (ctx, [], 0, inp, in_len))
        in case encode_update_loop out tot inp in_len of
             (False, out, _, _, _) \<Rightarrow> (ctx, out @ [0], 0)
           | (True, out, tot, inp, in_len) \<Rightarrow>
               (ctx\<lparr>data := (if in_len \<noteq> 0 then take (unat in_len) inp @ drop (unat in_len) (data ctx) else data ctx),
                    data_used := ucast in_len\<rparr>,
                if out = [] then [] else out @ [0],
                int (unat (if tot > INT_MAX then 0 else tot))))"

definition EVP_EncodeFinal :: "EVP_ENCODE_CTX \<Rightarrow> EVP_ENCODE_CTX \<times> u8 list \<times> int" where
  "EVP_EncodeFinal ctx =
     (if data_used ctx = 0 then (ctx, [], 0)
      else let (block, encoded) = EVP_EncodeBlock (data ctx) (ucast (data_used ctx))
           in (ctx\<lparr>data_used := 0\<rparr>, take (unat encoded) block @ [0x0a, 0], int (unat (encoded + 1))))"

definition EVP_DecodedLength :: "size_t \<Rightarrow> size_t option" where
  "EVP_DecodedLength len = (if len mod 4 \<noteq> 0 then None else Some (len div 4 * 3))"

definition base64_ascii_to_bin :: "u8 \<Rightarrow> u8" where
  "base64_ascii_to_bin a =
     (let is_upper = constant_time_in_range_8 a 0x41 0x5a;
          is_lower = constant_time_in_range_8 a 0x61 0x7a;
          is_digit = constant_time_in_range_8 a 0x30 0x39;
          is_plus = constant_time_eq_8 (ucast a) 0x2b;
          is_slash = constant_time_eq_8 (ucast a) 0x2f;
          is_equals = constant_time_eq_8 (ucast a) 0x3d;
          ret = 0 OR (is_upper AND (a - 0x41));
          ret = ret OR (is_lower AND (a - 0x61 + 26));
          ret = ret OR (is_digit AND (a - 0x30 + 52));
          ret = ret OR (is_plus AND 62);
          ret = ret OR (is_slash AND 63);
          is_valid = is_upper OR is_lower OR is_digit OR is_plus OR is_slash OR is_equals
      in ret OR NOT is_valid)"

text \<open>The bytes of one quad; \<open>*out_num_bytes\<close> is their number.\<close>

definition base64_decode_quad :: "u8 list \<Rightarrow> u8 list option" where
  "base64_decode_quad inp =
     (let a = base64_ascii_to_bin (inp ! 0);
          b = base64_ascii_to_bin (inp ! 1);
          c = base64_ascii_to_bin (inp ! 2);
          d = base64_ascii_to_bin (inp ! 3)
      in if a = 0xff \<or> b = 0xff \<or> c = 0xff \<or> d = 0xff then None
         else
           let v = push_bit 18 (ucast a) OR push_bit 12 (ucast b) OR push_bit 6 (ucast c) OR ucast d :: u32;
               padding_pattern = push_bit 3 (if inp ! 0 = 0x3d then 1 else 0) OR
                 push_bit 2 (if inp ! 1 = 0x3d then 1 else 0) OR
                 push_bit 1 (if inp ! 2 = 0x3d then 1 else 0) OR (if inp ! 3 = 0x3d then 1 else 0) :: u32
           in if padding_pattern = 0 then Some [ucast (drop_bit 16 v), ucast (drop_bit 8 v), ucast v]
              else if padding_pattern = 1 then Some [ucast (drop_bit 16 v), ucast (drop_bit 8 v)]
              else if padding_pattern = 3 then Some [ucast (drop_bit 16 v)]
              else None)"

text \<open>The loop of \<open>EVP_DecodeUpdate\<close> over the rest of the input.\<close>

fun decode_update_loop :: "EVP_ENCODE_CTX \<Rightarrow> u8 list \<Rightarrow> u8 list \<Rightarrow> bool \<times> EVP_ENCODE_CTX \<times> u8 list" where
  "decode_update_loop ctx out [] = (True, ctx, out)"
| "decode_update_loop ctx out (c # cs) =
     (if c \<in> {0x20, 0x09, 0x0d, 0x0a} then decode_update_loop ctx out cs
      else if eof_seen ctx then (False, ctx\<lparr>error_encountered := True\<rparr>, out)
      else
        let ctx = ctx\<lparr>data := (data ctx)[unat (data_used ctx) := c], data_used := data_used ctx + 1\<rparr> in
        if data_used ctx = 4 then
          (case base64_decode_quad (data ctx) of
             None \<Rightarrow> (False, ctx\<lparr>error_encountered := True\<rparr>, out)
           | Some bs \<Rightarrow>
               decode_update_loop
                 (ctx\<lparr>data_used := 0, eof_seen := (if length bs < 3 then True else eof_seen ctx)\<rparr>)
                 (out @ bs) cs)
        else decode_update_loop ctx out cs)"

text \<open>The return value, \<open>*out_len\<close>, the bytes at \<open>out\<close> and the context.\<close>

definition EVP_DecodeUpdate :: "EVP_ENCODE_CTX \<Rightarrow> u8 list \<Rightarrow> size_t \<Rightarrow> int \<times> int \<times> u8 list \<times> EVP_ENCODE_CTX" where
  "EVP_DecodeUpdate ctx inp in_len =
     (if error_encountered ctx then (- 1, 0, [], ctx)
      else case decode_update_loop ctx [] (take (unat in_len) inp) of
             (False, ctx, out) \<Rightarrow> (- 1, 0, out, ctx)
           | (True, ctx, out) \<Rightarrow>
               let bytes_out = word_of_nat (length out) in
               if bytes_out > INT_MAX then (- 1, 0, out, ctx\<lparr>error_encountered := True\<rparr>)
               else (if eof_seen ctx then 0 else 1, int (unat bytes_out), out, ctx))"

definition EVP_DecodeFinal :: "EVP_ENCODE_CTX \<Rightarrow> int \<times> int" where
  "EVP_DecodeFinal ctx = (if error_encountered ctx \<or> data_used ctx \<noteq> 0 then (- 1, 0) else (1, 0))"

text \<open>The loop of \<open>EVP_DecodeBase64\<close>: whether it succeeds, and the bytes at \<open>out\<close>.\<close>

fun decode_base64_loop :: "u8 list \<Rightarrow> u8 list \<Rightarrow> bool \<times> u8 list" where
  "decode_base64_loop out (a # b # c # d # inp) =
     (case base64_decode_quad [a, b, c, d] of
        None \<Rightarrow> (False, out)
      | Some bs \<Rightarrow>
          if length bs \<noteq> 3 \<and> inp \<noteq> [] then (False, out @ bs)
          else decode_base64_loop (out @ bs) inp)"
| "decode_base64_loop out _ = (True, out)"

definition EVP_DecodeBase64 :: "size_t \<Rightarrow> u8 list \<Rightarrow> size_t \<Rightarrow> size_t option \<times> u8 list" where
  "EVP_DecodeBase64 max_out inp in_len =
     (if in_len mod 4 \<noteq> 0 then (None, [])
      else case EVP_DecodedLength in_len of
             None \<Rightarrow> (None, [])
           | Some max_len \<Rightarrow>
               if max_out < max_len then (None, [])
               else case decode_base64_loop [] (take (unat in_len) inp) of
                      (False, out) \<Rightarrow> (None, out)
                    | (True, out) \<Rightarrow> (Some (word_of_nat (length out)), out))"

definition EVP_DecodeBlock :: "u8 list \<Rightarrow> size_t \<Rightarrow> int \<times> u8 list" where
  "EVP_DecodeBlock src src_len =
     (let src = dropWhile (\<lambda>c. c = 0x20 \<or> c = 0x09) (take (unat src_len) src);
          src = rev (dropWhile (\<lambda>c. c \<in> {0x20, 0x09, 0x0d, 0x0a}) (rev src));
          src_len = word_of_nat (length src)
      in case EVP_DecodedLength src_len of
           None \<Rightarrow> (- 1, [])
         | Some dst_len \<Rightarrow>
             if dst_len > INT_MAX then (- 1, [])
             else case EVP_DecodeBase64 dst_len src src_len of
                    (None, dst) \<Rightarrow> (- 1, dst)
                  | (Some dst_len, dst) \<Rightarrow>
                      let pad = (3 - unat dst_len mod 3) mod 3
                      in (int (unat dst_len + pad), dst @ replicate pad 0))"

section \<open>The characters\<close>

text \<open>The alphabet of RFC 4648, section 4: A-Z, a-z, 0-9, plus and slash.\<close>

definition base64_digit :: "nat \<Rightarrow> u8" where
  "base64_digit k =
     word_of_nat (if k < 26 then 65 + k else if k < 52 then 97 + (k - 26) else if k < 62 then 48 + (k - 52)
       else if k = 62 then 43 else 47)"

lemma constant_time_lt_args_8: "constant_time_lt_args_8 a b = all_ones_if (a < b)"
proof -
  have "unat (ucast a :: u64) = unat a" "unat (ucast b :: u64) = unat b"
    by (simp_all add: unat_ucast_up)
  moreover have "x < 256 \<Longrightarrow> y < 256 \<Longrightarrow>
      9223372036854775808 \<le> (if y \<le> x then x - y else 18446744073709551616 + x - y) \<longleftrightarrow> x < y" for x y :: nat
    by auto
  note this [of "unat a" "unat b", OF unat_u8_less unat_u8_less]
  ultimately have "bit (ucast a - ucast b :: u64) 63 \<longleftrightarrow> unat a < unat b"
    unfolding bit_msb unat_minus by (simp only:)
  then show ?thesis by (simp add: constant_time_lt_args_8_def msb_w ucast_all_ones word_less_nat_alt)
qed

lemma constant_time_in_range_8: "constant_time_in_range_8 a lo hi = all_ones_if (a - lo < hi - lo + 1)"
  by (simp add: constant_time_in_range_8_def constant_time_lt_args_8)

lemma conv_bin2ascii_branches:
  "conv_bin2ascii a =
    (let a = a AND 0x3f in
     if a < 26 then a + 0x41 else if a < 52 then a - 26 + 0x61 else if a < 62 then a - 52 + 0x30
     else if a = 62 then 0x2b else 0x2f)"
proof -
  have "(ucast (a AND 0x3f) = (62 :: u64)) = (a AND 0x3f = (62 :: u8))" for a :: u8
    by (rule byte_allI [of "\<lambda>a. (ucast (a AND 0x3f) = (62 :: u64)) = (a AND 0x3f = (62 :: u8))"]) code_simp
  then show ?thesis
    by (simp only: conv_bin2ascii_def constant_time_lt_args_8 constant_time_masks constant_time_selects Let_def)
qed

lemma conv_bin2ascii: "conv_bin2ascii a = base64_digit (unat a mod 64)"
  unfolding conv_bin2ascii_branches
  by (rule byte_allI [of "\<lambda>a. (let a = a AND 0x3f in
     if a < 26 then a + 0x41 else if a < 52 then a - 26 + 0x61 else if a < 62 then a - 52 + 0x30
     else if a = 62 then 0x2b else 0x2f) = base64_digit (unat a mod 64)"]) code_simp

definition base64_value :: "u8 \<Rightarrow> u8" where
  "base64_value a =
     (if a - 0x41 < 26 then a - 0x41 else if a - 0x61 < 26 then a - 0x61 + 26
      else if a - 0x30 < 10 then a - 0x30 + 52 else if a = 0x2b then 62 else if a = 0x2f then 63
      else if a = 0x3d then 0 else 0xff)"

lemma base64_ascii_to_bin: "base64_ascii_to_bin a = base64_value a"
proof -
  have eq: "(ucast a = (ucast (b :: u8) :: u64)) = (a = b)" for b
    by (simp add: word_unat_eq_iff unat_ucast_up)
  have 1: "constant_time_eq_8 (ucast a) 0x2b = all_ones_if (a = 0x2b)"
    "constant_time_eq_8 (ucast a) 0x2f = all_ones_if (a = 0x2f)"
    "constant_time_eq_8 (ucast a) 0x3d = all_ones_if (a = 0x3d)"
    using eq [of "0x2b"] eq [of "0x2f"] eq [of "0x3d"] by (simp_all add: constant_time_masks)
  let ?R = "\<lambda>a :: u8. a - 0x41 < 26 \<longrightarrow> \<not> a - 0x61 < 26 \<and> \<not> a - 0x30 < 10"
  have "?R a" by (rule byte_allI [of ?R]) code_simp
  moreover have "a - 0x61 < 26 \<longrightarrow> \<not> a - 0x30 < 10"
    by (rule byte_allI [of "\<lambda>a :: u8. a - 0x61 < 26 \<longrightarrow> \<not> a - 0x30 < 10"]) code_simp
  ultimately show ?thesis
    unfolding base64_ascii_to_bin_def base64_value_def 1 constant_time_in_range_8 all_ones_if_def Let_def
    by auto
qed

lemma base64_value_table: "base64_value c = 0xff \<or> c = 0x3d \<or> unat (base64_value c) < 64 \<and> c = base64_digit (unat (base64_value c))"
  by (rule byte_allI [of "\<lambda>c. base64_value c = 0xff \<or> c = 0x3d \<or>
    unat (base64_value c) < 64 \<and> c = base64_digit (unat (base64_value c))"]) code_simp

lemma base64_value_digit: "k < 64 \<Longrightarrow> base64_value (base64_digit k) = word_of_nat k"
  and base64_digit_not_pad: "k < 64 \<Longrightarrow> base64_digit k \<noteq> 0x3d"
  and base64_digit_not_space: "k < 64 \<Longrightarrow> base64_digit k \<notin> {0x20, 0x09, 0x0d, 0x0a}"
proof -
  have "list_all (\<lambda>k. base64_value (base64_digit k) = word_of_nat k \<and> base64_digit k \<noteq> 0x3d \<and>
    base64_digit k \<notin> {0x20, 0x09, 0x0d, 0x0a}) [0 ..< 64]" by code_simp
  then show "k < 64 \<Longrightarrow> base64_value (base64_digit k) = word_of_nat k" "k < 64 \<Longrightarrow> base64_digit k \<noteq> 0x3d"
    "k < 64 \<Longrightarrow> base64_digit k \<notin> {0x20, 0x09, 0x0d, 0x0a}"
    unfolding list_all_iff by simp_all
qed

lemma base64_value_pad: "base64_value 0x3d = 0"
  by code_simp

lemma base64_value_cases:
  "base64_value c \<noteq> 0xff \<longleftrightarrow> c = 0x3d \<or> (\<exists>k<64. c = base64_digit k)"
proof
  assume "c = 0x3d \<or> (\<exists>k<64. c = base64_digit k)"
  moreover have "word_of_nat k \<noteq> (0xff :: u8)" if "k < 64" for k
    using that by (simp add: word_unat_eq_iff unsigned_of_nat take_bit_eq_mod)
  ultimately show "base64_value c \<noteq> 0xff" by (auto simp: base64_value_pad base64_value_digit)
qed (use base64_value_table in blast)

lemma base64_digit_inj: "j < 64 \<Longrightarrow> k < 64 \<Longrightarrow> base64_digit j = base64_digit k \<longleftrightarrow> j = k"
proof
  assume jk: "j < 64" "k < 64" "base64_digit j = base64_digit k"
  then have "word_of_nat j = (word_of_nat k :: u8)" using base64_value_digit by metis
  with jk(1,2) show "j = k" by (simp add: word_unat_eq_iff unsigned_of_nat take_bit_eq_mod)
qed simp

section \<open>Blocks\<close>

text \<open>The encoding of RFC 4648 on the values of the bytes.\<close>

fun base64 :: "u8 list \<Rightarrow> u8 list" where
  "base64 [] = []"
| "base64 [a] = [base64_digit (unat a div 4), base64_digit (unat a mod 4 * 16), 0x3d, 0x3d]"
| "base64 [a, b] =
     [base64_digit (unat a div 4), base64_digit (unat a mod 4 * 16 + unat b div 16),
      base64_digit (unat b mod 16 * 4), 0x3d]"
| "base64 (a # b # c # bs) =
     base64_digit (unat a div 4) # base64_digit (unat a mod 4 * 16 + unat b div 16) #
     base64_digit (unat b mod 16 * 4 + unat c div 64) # base64_digit (unat c mod 64) # base64 bs"

definition pack3 :: "u8 \<Rightarrow> u8 \<Rightarrow> u8 \<Rightarrow> u32" where
  "pack3 a b c = push_bit 16 (ucast a) OR push_bit 8 (ucast b) OR ucast c"

lemma unat_or_low:
  fixes a b :: "'a::len word"
  shows "unat b < 2 ^ n \<Longrightarrow> unat a mod 2 ^ n = 0 \<Longrightarrow> unat (a OR b) = unat a + unat b"
  using or_low_high [of "unat b" n "unat a div 2 ^ n"]
  by (simp add: unsigned_or_eq push_bit_eq_mult) (metis mod_0_imp_dvd dvd_div_mult_self)

lemma unat_pack3: "unat (pack3 a b c) = unat a * 65536 + unat b * 256 + unat c"
proof -
  have "unat a * 65536 < 4294967296" "unat b * 256 < 4294967296"
    using unat_u8_less [of a] unat_u8_less [of b] by linarith+
  then have a: "unat (push_bit 16 (ucast a) :: u32) = unat a * 65536" "unat (push_bit 8 (ucast b) :: u32) = unat b * 256"
    unfolding unsigned_push_bit_eq by (simp_all add: unat_ucast_up push_bit_eq_mult take_bit_eq_mod)
  have "unat (push_bit 8 (ucast b) OR ucast c :: u32) = unat b * 256 + unat c"
    using a unat_u8_less [of c] by (subst unat_or_low [where n = 8]) (simp_all add: unat_ucast_up)
  moreover have "unat b * 256 + unat c < 65536" using unat_u8_less [of b] unat_u8_less [of c] by linarith
  ultimately show ?thesis unfolding pack3_def
    using a by (subst unat_or_low [where n = 16]) simp_all
qed

lemma unat_sextet: "unat (ucast (drop_bit n (l :: u32)) :: u8) mod 64 = unat l div 2 ^ n mod 64"
proof -
  have "unat (ucast (drop_bit n l) :: u8) mod 64 = unat l div 2 ^ n mod 256 mod 64"
    by (simp add: unat_ucast_mod unat_drop_bit_div)
  also have "\<dots> = unat l div 2 ^ n mod 64" by (rule mod_mod_cancel) simp
  finally show ?thesis .
qed

lemma sextet_arith:
  fixes a b c :: nat
  assumes "a < 256" "b < 256" "c < 256"
  defines "l \<equiv> a * 65536 + b * 256 + c"
  shows "l div 2 ^ 18 mod 64 = a div 4" "l div 2 ^ 12 mod 64 = a mod 4 * 16 + b div 16"
    "l div 2 ^ 6 mod 64 = b mod 16 * 4 + c div 64" "l mod 64 = c mod 64"
proof -
  define q r s t where "q = a div 4" and "r = a mod 4" and "s = b div 16" and "t = b mod 16"
  define u v where "u = c div 64" and "v = c mod 64"
  have a: "a = 4 * q + r" "r < 4" "q < 64" using assms by (auto simp: q_def r_def)
  have b: "b = 16 * s + t" "t < 16" "s < 16" using assms by (auto simp: s_def t_def)
  have c: "c = 64 * u + v" "v < 64" "u < 4" using assms by (auto simp: u_def v_def)
  have l: "l = q * 2 ^ 18 + (r * 16 + s) * 2 ^ 12 + (t * 4 + u) * 2 ^ 6 + v"
    unfolding l_def a(1) b(1) c(1) by simp
  have bd: "r * 16 + s < 64" "t * 4 + u < 64" using a b c by linarith+
  have "l div 2 ^ 18 = q" unfolding l by (rule div_nat_eqI) (use bd c in simp_all)
  with a show "l div 2 ^ 18 mod 64 = a div 4" by (simp add: q_def)
  have "l div 2 ^ 12 = q * 64 + (r * 16 + s)" unfolding l by (rule div_nat_eqI) (use bd c in simp_all)
  with bd show "l div 2 ^ 12 mod 64 = a mod 4 * 16 + b div 16" unfolding r_def s_def by simp
  have "l div 2 ^ 6 = (q * 64 + (r * 16 + s)) * 64 + (t * 4 + u)" unfolding l by (rule div_nat_eqI) (use bd c in simp_all)
  with bd show "l div 2 ^ 6 mod 64 = b mod 16 * 4 + c div 64"
    unfolding t_def [symmetric] u_def [symmetric] by (simp only: mod_mult_self3 mod_less)
  have "l = c + 64 * (a * 1024 + b * 4)" by (simp add: l_def)
  then show "l mod 64 = c mod 64" by (simp only: mod_mult_self2)
qed

lemma pack3_sextets:
  "unat (ucast (drop_bit 18 (pack3 a b c)) :: u8) mod 64 = unat a div 4"
  "unat (ucast (drop_bit 12 (pack3 a b c)) :: u8) mod 64 = unat a mod 4 * 16 + unat b div 16"
  "unat (ucast (drop_bit 6 (pack3 a b c)) :: u8) mod 64 = unat b mod 16 * 4 + unat c div 64"
  "unat (ucast (pack3 a b c) :: u8) mod 64 = unat c mod 64"
  using sextet_arith [OF unat_u8_less [of a] unat_u8_less [of b] unat_u8_less [of c]]
    unat_sextet [of 0 "pack3 a b c"]
  by (simp_all only: unat_sextet unat_pack3 drop_bit_0 id_apply power_0 div_by_1)

lemma encode_block_loop_base64: "encode_block_loop src = base64 src"
proof (induction src rule: base64.induct)
  case (2 a)
  then show ?case using pack3_sextets [of a 0 0]
    by (simp add: Let_def conv_bin2ascii pack3_def)
next
  case (3 a b)
  then show ?case using pack3_sextets [of a b 0]
    by (simp add: Let_def conv_bin2ascii pack3_def)
next
  case (4 a b c bs)
  then show ?case using pack3_sextets [of a b c]
    by (simp add: Let_def conv_bin2ascii pack3_def)
qed simp

lemma length_base64: "length (base64 src) = (length src + 2) div 3 * 4"
proof (induction src rule: base64.induct)
  case (4 a b c bs)
  have "(length (a # b # c # bs) + 2) div 3 = Suc ((length bs + 2) div 3)" by simp
  with 4 show ?case by (simp only: base64.simps list.size) simp
qed simp_all

lemma EVP_EncodeBlock_base64:
  assumes "length src \<le> 13835058055282163709"
  shows "EVP_EncodeBlock (src @ rest) (word_of_nat (length src)) =
    (base64 src @ [0], word_of_nat (length (base64 src)))"
  using assms by (simp add: EVP_EncodeBlock_def encode_block_loop_base64 unat_of_nat Let_def)

definition joined1 :: "nat \<Rightarrow> nat \<Rightarrow> u8" where
  "joined1 p q = word_of_nat (p * 4 + q div 16)"

definition joined2 :: "nat \<Rightarrow> nat \<Rightarrow> u8" where
  "joined2 q r = word_of_nat (q mod 16 * 16 + r div 4)"

definition joined3 :: "nat \<Rightarrow> nat \<Rightarrow> u8" where
  "joined3 r s = word_of_nat (r mod 4 * 64 + s)"

text \<open>
  The texts a decoder accepts, with the bytes they stand for. The bits under the padding are
  free, so a text that ends in padding need not be the canonical one.
\<close>

inductive base64_text :: "u8 list \<Rightarrow> u8 list \<Rightarrow> bool" where
  base64_empty: "base64_text [] []"
| base64_quad: "p < 64 \<Longrightarrow> q < 64 \<Longrightarrow> r < 64 \<Longrightarrow> s < 64 \<Longrightarrow> base64_text ts bs \<Longrightarrow>
    base64_text (base64_digit p # base64_digit q # base64_digit r # base64_digit s # ts)
      (joined1 p q # joined2 q r # joined3 r s # bs)"
| base64_two: "p < 64 \<Longrightarrow> q < 64 \<Longrightarrow> r < 64 \<Longrightarrow>
    base64_text [base64_digit p, base64_digit q, base64_digit r, 0x3d]
      [joined1 p q, joined2 q r]"
| base64_one: "p < 64 \<Longrightarrow> q < 64 \<Longrightarrow>
    base64_text [base64_digit p, base64_digit q, 0x3d, 0x3d] [joined1 p q]"

definition pack4 :: "u8 \<Rightarrow> u8 \<Rightarrow> u8 \<Rightarrow> u8 \<Rightarrow> u32" where
  "pack4 a b c d = push_bit 18 (ucast a) OR push_bit 12 (ucast b) OR push_bit 6 (ucast c) OR ucast d"

lemma unat_pack4:
  assumes "unat a < 64" "unat b < 64" "unat c < 64" "unat d < 64"
  shows "unat (pack4 a b c d) = unat a * 262144 + (unat b * 4096 + (unat c * 64 + unat d))"
proof -
  have "unat a * 262144 < 4294967296" "unat b * 4096 < 4294967296" "unat c * 64 < 4294967296"
    using assms by linarith+
  then have p: "unat (push_bit 18 (ucast a) :: u32) = unat a * 262144" "unat (push_bit 12 (ucast b) :: u32) = unat b * 4096"
    "unat (push_bit 6 (ucast c) :: u32) = unat c * 64"
    unfolding unsigned_push_bit_eq by (simp_all add: unat_ucast_up push_bit_eq_mult take_bit_eq_mod)
  have "unat (push_bit 6 (ucast c) OR ucast d :: u32) = unat c * 64 + unat d"
    using p assms by (subst unat_or_low [where n = 6]) (simp_all add: unat_ucast_up)
  then have "unat (push_bit 12 (ucast b) OR push_bit 6 (ucast c) OR ucast d :: u32) = unat b * 4096 + (unat c * 64 + unat d)"
    using p assms by (subst unat_or_low [where n = 12]) simp_all
  then show ?thesis unfolding pack4_def
    using p assms by (subst unat_or_low [where n = 18]) simp_all
qed

lemma pack4_bytes:
  assumes "p < 64" "q < 64" "r < 64" "s < 64"
  defines "v \<equiv> pack4 (word_of_nat p) (word_of_nat q) (word_of_nat r) (word_of_nat s)"
  shows "ucast (drop_bit 16 v) = joined1 p q"
    "ucast (drop_bit 8 v) = joined2 q r"
    "ucast v = joined3 r s"
proof -
  have u: "unat (word_of_nat k :: u8) = k" if "k < 64" for k
    using that by (simp add: unsigned_of_nat take_bit_eq_mod)
  then have v: "unat v = p * 262144 + (q * 4096 + (r * 64 + s))"
    using assms by (simp add: unat_pack4)
  define q1 q2 r1 r2 where "q1 = q div 16" and "q2 = q mod 16" and "r1 = r div 4" and "r2 = r mod 4"
  note parts = q1_def [symmetric] q2_def [symmetric] r1_def [symmetric] r2_def [symmetric]
  have qr: "q = 16 * q1 + q2" "r = 4 * r1 + r2" by (simp_all add: q1_def q2_def r1_def r2_def)
  have lt: "q1 < 4" "q2 < 16" "r1 < 16" "r2 < 4" using assms(2,3) by (auto simp: q1_def q2_def r1_def r2_def)
  have "unat v div 65536 = p * 4 + q1"
    unfolding v by (rule div_nat_eqI) (use qr lt assms(1-4) in simp_all)
  moreover have "unat v div 256 = (p * 4 + q1) * 256 + (q2 * 16 + r1)"
    unfolding v by (rule div_nat_eqI) (use qr lt assms(1-4) in simp_all)
  moreover have "unat v = (p * 1024 + q * 16 + r1) * 256 + (r2 * 64 + s)"
    unfolding v using qr(2) by simp
  moreover have "p * 4 + q1 < 256" "q2 * 16 + r1 < 256" "r2 * 64 + s < 256"
    using lt assms(1-4) by linarith+
  ultimately have "unat v div 65536 mod 256 = p * 4 + q1" "unat v div 256 mod 256 = q2 * 16 + r1"
    "unat v mod 256 = r2 * 64 + s"
    by (simp_all only: mod_mult_self3 mod_less)
  moreover have "(p * 4 + q1) mod 256 = p * 4 + q1" "(q2 * 16 + r1) mod 256 = q2 * 16 + r1"
    "(r2 * 64 + s) mod 256 = r2 * 64 + s"
    using lt assms(1-4) by simp_all
  ultimately show "ucast (drop_bit 16 v) = joined1 p q"
    "ucast (drop_bit 8 v) = joined2 q r"
    "ucast v = joined3 r s"
    unfolding word_unat_eq_iff unat_ucast_mod unat_drop_bit_div
    unfolding joined1_def joined2_def joined3_def unsigned_of_nat take_bit_eq_mod parts
    by simp_all
qed

lemma base64_decode_quad_cases:
  "base64_decode_quad (a # b # c # d # rest) = Some bs \<longleftrightarrow>
    (\<exists>p<64. \<exists>q<64. a = base64_digit p \<and> b = base64_digit q \<and>
      ((\<exists>r<64. c = base64_digit r \<and>
         ((\<exists>s<64. d = base64_digit s \<and>
            bs = [joined1 p q, joined2 q r, joined3 r s]) \<or>
          d = 0x3d \<and> bs = [joined1 p q, joined2 q r])) \<or>
       c = 0x3d \<and> d = 0x3d \<and> bs = [joined1 p q]))"
  (is "?l \<longleftrightarrow> ?r")
proof
  let ?v = "pack4 (base64_value a) (base64_value b) (base64_value c) (base64_value d)"
  have quad: "base64_decode_quad (a # b # c # d # rest) =
     (if base64_value a = 0xff \<or> base64_value b = 0xff \<or> base64_value c = 0xff \<or> base64_value d = 0xff then None
      else if a \<noteq> 0x3d \<and> b \<noteq> 0x3d \<and> c \<noteq> 0x3d \<and> d \<noteq> 0x3d then Some [ucast (drop_bit 16 ?v), ucast (drop_bit 8 ?v), ucast ?v]
      else if a \<noteq> 0x3d \<and> b \<noteq> 0x3d \<and> c \<noteq> 0x3d then Some [ucast (drop_bit 16 ?v), ucast (drop_bit 8 ?v)]
      else if a \<noteq> 0x3d \<and> b \<noteq> 0x3d \<and> d = 0x3d then Some [ucast (drop_bit 16 ?v)]
      else None)"
    by (simp add: base64_decode_quad_def base64_ascii_to_bin pack4_def Let_def)
  have zero: "(0 :: u8) = word_of_nat 0" by simp
  {
    assume ?l
    then have v: "base64_value a \<noteq> 0xff" "base64_value b \<noteq> 0xff" "base64_value c \<noteq> 0xff" "base64_value d \<noteq> 0xff"
      and ab: "a \<noteq> 0x3d" "b \<noteq> 0x3d" and cd: "c = 0x3d \<longrightarrow> d = 0x3d"
      unfolding quad by (auto split: if_splits)
    then obtain p q where pq: "p < 64" "q < 64" "a = base64_digit p" "b = base64_digit q"
      by (auto simp: base64_value_cases)
    consider r s where "r < 64" "s < 64" "c = base64_digit r" "d = base64_digit s"
      | r where "r < 64" "c = base64_digit r" "d = 0x3d" | "c = 0x3d" "d = 0x3d"
      using v cd by (auto simp: base64_value_cases)
    then show ?r
    proof cases
      case 1
      with pq \<open>?l\<close> show ?thesis unfolding quad
        by (auto simp: base64_value_digit base64_digit_not_pad pack4_bytes split: if_splits)
    next
      case (2 r)
      with pq \<open>?l\<close> show ?thesis unfolding quad
        using pack4_bytes [of p q r 0]
        by (auto simp: base64_value_digit base64_value_pad base64_digit_not_pad split: if_splits)
    next
      case 3
      with pq \<open>?l\<close> show ?thesis unfolding quad
        using pack4_bytes [of p q 0 0]
        by (auto simp: base64_value_digit base64_value_pad base64_digit_not_pad split: if_splits)
    qed
  next
    assume ?r
    then have "base64_value a \<noteq> 0xff" "base64_value b \<noteq> 0xff" "base64_value c \<noteq> 0xff" "base64_value d \<noteq> 0xff"
      by (auto simp: base64_value_cases)
    with \<open>?r\<close> show ?l
      unfolding quad using pack4_bytes [of _ _ _ 0] pack4_bytes [of _ _ 0 0]
      by (auto simp: base64_value_digit base64_value_pad base64_digit_not_pad pack4_bytes)
  }
qed

lemma decode_base64_loop_sound:
  "decode_base64_loop out ts = (True, res) \<Longrightarrow> length ts mod 4 = 0 \<Longrightarrow> \<exists>bs. base64_text ts bs \<and> res = out @ bs"
proof (induction out ts rule: decode_base64_loop.induct)
  case (1 out a b c d ts)
  then obtain bs where q: "base64_decode_quad [a, b, c, d] = Some bs" and last: "length bs = 3 \<or> ts = []"
    and l: "decode_base64_loop (out @ bs) ts = (True, res)"
    by (auto split: option.splits if_splits)
  have "\<exists>cs. base64_text ts cs \<and> res = (out @ bs) @ cs"
    using 1 q last l by auto
  then obtain cs where cs: "base64_text ts cs" "res = out @ bs @ cs" by auto
  have "cs = []" if "ts = []" using cs(1) that by (auto elim: base64_text.cases)
  with q last cs have "base64_text (a # b # c # d # ts) (bs @ cs)"
    by (auto simp: base64_decode_quad_cases intro!: base64_text.intros)
  with cs(2) show ?case by blast
qed (auto intro: base64_text.intros)

lemma base64_decode_quad_digits:
  assumes "p < 64" "q < 64"
  shows "r < 64 \<Longrightarrow> s < 64 \<Longrightarrow>
      base64_decode_quad (base64_digit p # base64_digit q # base64_digit r # base64_digit s # rest) =
        Some [joined1 p q, joined2 q r, joined3 r s]"
    "r < 64 \<Longrightarrow>
      base64_decode_quad (base64_digit p # base64_digit q # base64_digit r # 0x3d # rest) =
        Some [joined1 p q, joined2 q r]"
    "base64_decode_quad (base64_digit p # base64_digit q # 0x3d # 0x3d # rest) = Some [joined1 p q]"
  using assms unfolding base64_decode_quad_cases by blast+

lemma decode_base64_loop_complete:
  "base64_text ts bs \<Longrightarrow> decode_base64_loop out ts = (True, out @ bs)"
  by (induction arbitrary: out rule: base64_text.induct) (simp_all add: base64_decode_quad_digits)

lemma base64_text_length: "base64_text ts bs \<Longrightarrow> length ts mod 4 = 0 \<and> length bs \<le> length ts div 4 * 3"
  by (induction rule: base64_text.induct) auto

lemma base64_text_det: "base64_text ts bs \<Longrightarrow> base64_text ts cs \<Longrightarrow> bs = cs"
  using decode_base64_loop_complete [of ts bs "[]"] decode_base64_loop_complete [of ts cs "[]"] by simp

lemma byte_div_less: "unat (b :: u8) div 4 < 64" "unat b div 16 < 16" "unat b div 64 < 4"
  using unat_u8_less [of b] by (simp_all add: div_less_iff_less_mult del: unat_u8_less)

lemma joined_split:
  "x < 16 \<Longrightarrow> joined1 (unat a div 4) (unat a mod 4 * 16 + x) = a"
  "z < 4 \<Longrightarrow> joined2 (y * 16 + unat b div 16) (unat b mod 16 * 4 + z) = b"
  "joined3 (w * 4 + unat c div 64) (unat c mod 64) = c"
proof -
  assume "x < 16"
  then have "(unat a mod 4 * 16 + x) div 16 = unat a mod 4" by simp
  then show "joined1 (unat a div 4) (unat a mod 4 * 16 + x) = a"
    by (simp only: joined1_def div_mult_mod_eq) simp
next
  assume "z < 4"
  moreover have "unat b div 16 < 16" by (rule byte_div_less)
  ultimately have "(y * 16 + unat b div 16) mod 16 = unat b div 16" "(unat b mod 16 * 4 + z) div 4 = unat b mod 16"
    by (simp_all only: mod_mult_self3 mod_less div_mult_self3 div_less add_0_right)
  then show "joined2 (y * 16 + unat b div 16) (unat b mod 16 * 4 + z) = b"
    by (simp only: joined2_def div_mult_mod_eq) simp
next
  have "unat c div 64 < 4" by (rule byte_div_less)
  then have "(w * 4 + unat c div 64) mod 4 = unat c div 64" by (simp only: mod_mult_self3 mod_less)
  then show "joined3 (w * 4 + unat c div 64) (unat c mod 64) = c"
    by (simp only: joined3_def div_mult_mod_eq) simp
qed

lemma base64_text_encoding: "base64_text (base64 bs) bs"
proof (induction bs rule: base64.induct)
  case (2 a)
  have "unat a div 4 < 64" by (rule byte_div_less)
  then show ?case
    using base64_one [of "unat a div 4" "unat a mod 4 * 16"] joined_split(1) [of 0 a] by simp
next
  case (3 a b)
  have "unat a div 4 < 64" "unat b div 16 < 16" by (rule byte_div_less)+
  moreover from this have "unat a mod 4 * 16 + unat b div 16 < 64" using mod_less_divisor [of 4 "unat a"] by linarith
  moreover have "unat b mod 16 * 4 < 64" using mod_less_divisor [of 16 "unat b"] by linarith
  ultimately show ?case
    using base64_two [of "unat a div 4" "unat a mod 4 * 16 + unat b div 16" "unat b mod 16 * 4"]
      joined_split(1) [of "unat b div 16" a] joined_split(2) [of 0 "unat a mod 4" b] by simp
next
  case (4 a b c bs)
  have "unat a div 4 < 64" "unat b div 16 < 16" "unat c div 64 < 4" by (rule byte_div_less)+
  moreover from this have "unat a mod 4 * 16 + unat b div 16 < 64" "unat b mod 16 * 4 + unat c div 64 < 64"
    using mod_less_divisor [of 4 "unat a"] mod_less_divisor [of 16 "unat b"] by linarith+
  ultimately show ?case
    using base64_quad [of "unat a div 4" "unat a mod 4 * 16 + unat b div 16" "unat b mod 16 * 4 + unat c div 64"
        "unat c mod 64" "base64 bs" bs] 4
      joined_split(1) [of "unat b div 16" a] joined_split(2) [of "unat c div 64" "unat a mod 4" b]
      joined_split(3) [of "unat b mod 16" c]
    by simp
qed (simp add: base64_empty)
end
