(* ===== verification/Base64_Stream.thy ===== *)
theory Base64_Stream
  imports Base64
begin

text \<open>
  The streaming interface of crypto/base64/base64.c: what a sequence of updates makes of its
  chunks does not depend on how the input is cut, the decoder accepts exactly the base64 texts
  with white space removed, and the two are inverse to each other.
\<close>

section \<open>Decoding a stream\<close>

definition is_base64_space :: "u8 \<Rightarrow> bool" where
  "is_base64_space c \<longleftrightarrow> c \<in> {0x20, 0x09, 0x0d, 0x0a}"

lemma base64_text_step:
  "base64_text (a # b # c # d # ts) bs \<longleftrightarrow>
    (\<exists>qs cs. base64_decode_quad (a # b # c # d # rest) = Some qs \<and> bs = qs @ cs \<and>
      (if length qs < 3 then ts = [] \<and> cs = [] else base64_text ts cs))"
  (is "?l \<longleftrightarrow> ?r")
proof
  assume ?l
  then show ?r
    by (cases rule: base64_text.cases) (auto simp: base64_decode_quad_digits)
next
  assume ?r
  then show ?l
    by (auto simp: base64_decode_quad_cases intro: base64_text.intros)
qed

text \<open>One character of the loop.\<close>

lemma decode_update_loop_Cons:
  "decode_update_loop ctx out (c # cs) =
     (if is_base64_space c then decode_update_loop ctx out cs
      else if eof_seen ctx then (False, ctx\<lparr>error_encountered := True\<rparr>, out)
      else
        let ctx = ctx\<lparr>data := (data ctx)[unat (data_used ctx) := c], data_used := data_used ctx + 1\<rparr> in
        if data_used ctx = 4 then
          (case base64_decode_quad (data ctx) of
             None \<Rightarrow> (False, ctx\<lparr>error_encountered := True\<rparr>, out)
           | Some bs \<Rightarrow>
               decode_update_loop (ctx\<lparr>data_used := 0, eof_seen := length bs < 3 \<or> eof_seen ctx\<rparr>) (out @ bs) cs)
        else decode_update_loop ctx out cs)"
  by (simp add: is_base64_space_def Let_def split: option.split)

lemmas decode_update_loop_steps = decode_update_loop.simps(1) decode_update_loop_Cons

declare decode_update_loop.simps [simp del]

lemma decode_update_loop_append:
  "decode_update_loop ctx out (xs @ ys) =
    (case decode_update_loop ctx out xs of
       (ok, ctx', out') \<Rightarrow> if ok then decode_update_loop ctx' out' ys else (ok, ctx', out'))"
  by (induction xs arbitrary: ctx out) (simp_all add: decode_update_loop_steps Let_def split: option.split)

lemma decode_update_loop_out:
  "decode_update_loop ctx (out @ out') cs =
    (case decode_update_loop ctx out' cs of (ok, ctx', bs) \<Rightarrow> (ok, ctx', out @ bs))"
  by (induction cs arbitrary: ctx out') (simp_all add: decode_update_loop_steps Let_def split: option.split)

definition decode_ctx :: "EVP_ENCODE_CTX \<Rightarrow> bool" where
  "decode_ctx ctx \<longleftrightarrow> length (data ctx) = 48 \<and> unat (data_used ctx) < 4 \<and> \<not> error_encountered ctx \<and>
     (eof_seen ctx \<longrightarrow> data_used ctx = 0)"

definition pending_chars :: "EVP_ENCODE_CTX \<Rightarrow> u8 list" where
  "pending_chars ctx = take (unat (data_used ctx)) (data ctx)"

definition keep_char :: "EVP_ENCODE_CTX \<Rightarrow> u8 \<Rightarrow> EVP_ENCODE_CTX" where
  "keep_char ctx c = ctx\<lparr>data := (data ctx)[unat (data_used ctx) := c], data_used := data_used ctx + 1\<rparr>"

lemma decode_ctx_init: "decode_ctx EVP_DecodeInit" "pending_chars EVP_DecodeInit = []" "\<not> eof_seen EVP_DecodeInit"
  by (simp_all add: decode_ctx_def EVP_DecodeInit_def pending_chars_def)

lemma data_used_plus: "unat (u :: u32) < 4 \<Longrightarrow> unat (u + 1) = Suc (unat u)" "unat (u :: u32) < 4 \<Longrightarrow> u + 1 = 4 \<longleftrightarrow> unat u = 3"
proof -
  assume "unat u < 4"
  then show *: "unat (u + 1) = Suc (unat u)" by (simp add: unat_word_ariths)
  show "u + 1 = 4 \<longleftrightarrow> unat u = 3" unfolding word_unat_eq_iff * by simp
qed

lemma keep_char_pending:
  assumes "decode_ctx ctx"
  shows "take (Suc (unat (data_used ctx))) (data (keep_char ctx c)) = pending_chars ctx @ [c]"
    "unat (data_used (keep_char ctx c)) = Suc (unat (data_used ctx))"
    "data_used (keep_char ctx c) = 4 \<longleftrightarrow> unat (data_used ctx) = 3"
    "length (data (keep_char ctx c)) = 48" "error_encountered (keep_char ctx c) = error_encountered ctx"
    "eof_seen (keep_char ctx c) = eof_seen ctx"
  using assms by (simp_all add: decode_ctx_def keep_char_def pending_chars_def data_used_plus take_Suc_conv_app_nth)

text \<open>A loop that reads a text to its end: what it makes of the characters still pending and of the rest.\<close>

lemma decode_update_loop_text:
  assumes "decode_ctx ctx"
  shows "(\<exists>ctx'. decode_update_loop ctx [] cs = (True, ctx', bs) \<and> data_used ctx' = 0) \<longleftrightarrow>
    (if eof_seen ctx then filter (\<lambda>c. \<not> is_base64_space c) cs = [] \<and> bs = []
     else base64_text (pending_chars ctx @ filter (\<lambda>c. \<not> is_base64_space c) cs) bs)"
  using assms
proof (induction cs arbitrary: ctx bs)
  case Nil
  have "base64_text (pending_chars ctx) bs \<longleftrightarrow> data_used ctx = 0 \<and> bs = []"
  proof
    assume "base64_text (pending_chars ctx) bs"
    moreover have "length (pending_chars ctx) < 4" using Nil by (auto simp: decode_ctx_def pending_chars_def)
    ultimately have "pending_chars ctx = [] \<and> bs = []" by (auto elim: base64_text.cases)
    with Nil show "data_used ctx = 0 \<and> bs = []"
      by (auto simp: pending_chars_def decode_ctx_def unat_eq_zero)
  qed (auto simp: pending_chars_def base64_empty)
  with Nil show ?case by (auto simp: decode_update_loop_steps decode_ctx_def)
next
  case (Cons c cs)
  let ?f = "filter (\<lambda>c. \<not> is_base64_space c)"
  show ?case
  proof (cases "is_base64_space c \<or> eof_seen ctx")
    case True
    with Cons show ?thesis by (auto simp: decode_update_loop_steps)
  next
    case False
    let ?ctx = "keep_char ctx c"
    note keep = keep_char_pending [OF Cons.prems]
    show ?thesis
    proof (cases "unat (data_used ctx) = 3")
      case full: True
      have "length (pending_chars ctx @ [c]) = 4" using Cons.prems full by (simp add: pending_chars_def decode_ctx_def)
      then obtain p q r s where quad: "pending_chars ctx @ [c] = [p, q, r, s]"
        by (auto simp: length_Suc_conv numeral_eq_Suc)
      then have data: "data ?ctx = p # q # r # s # drop 4 (data ?ctx)"
        using keep(1) full append_take_drop_id [of 4 "data ?ctx"] by simp
      have step: "decode_update_loop ctx [] (c # cs) = (case base64_decode_quad (data ?ctx) of
            None \<Rightarrow> (False, ?ctx\<lparr>error_encountered := True\<rparr>, [])
          | Some qs \<Rightarrow> decode_update_loop (?ctx\<lparr>data_used := 0, eof_seen := length qs < 3\<rparr>) qs cs)"
        using False full keep(3) by (simp add: decode_update_loop_Cons keep_char_def Let_def split: option.split)
      have whole: "base64_text (pending_chars ctx @ ?f (c # cs)) bs \<longleftrightarrow>
          (\<exists>qs bs'. base64_decode_quad (data ?ctx) = Some qs \<and> bs = qs @ bs' \<and>
             (if length qs < 3 then ?f cs = [] \<and> bs' = [] else base64_text (?f cs) bs'))"
        using False quad base64_text_step [of p q r s "?f cs" bs "drop 4 (data ?ctx)"] unfolding data [symmetric]
        by (simp add: append_eq_Cons_conv)
      have IH: "(\<exists>ctx'. decode_update_loop (?ctx\<lparr>data_used := 0, eof_seen := e\<rparr>) [] cs = (True, ctx', bs') \<and> data_used ctx' = 0) \<longleftrightarrow>
          (if e then ?f cs = [] \<and> bs' = [] else base64_text (?f cs) bs')" for e bs'
        using Cons.IH [of "?ctx\<lparr>data_used := 0, eof_seen := e\<rparr>" bs'] Cons.prems keep
        by (simp add: decode_ctx_def pending_chars_def)
      show ?thesis
      proof (cases "base64_decode_quad (data ?ctx)")
        case None
        with False show ?thesis unfolding step whole by simp
      next
        case (Some qs)
        have "decode_update_loop (?ctx\<lparr>data_used := 0, eof_seen := length qs < 3\<rparr>) qs cs =
            (case decode_update_loop (?ctx\<lparr>data_used := 0, eof_seen := length qs < 3\<rparr>) [] cs of
               (ok, ctx', bs) \<Rightarrow> (ok, ctx', qs @ bs))"
          using decode_update_loop_out [of _ qs "[]" cs] by simp
        then have "(\<exists>ctx'. decode_update_loop ctx [] (c # cs) = (True, ctx', bs) \<and> data_used ctx' = 0) \<longleftrightarrow>
            (\<exists>bs'. bs = qs @ bs' \<and> (if length qs < 3 then ?f cs = [] \<and> bs' = [] else base64_text (?f cs) bs'))"
          unfolding step Some IH [symmetric] by (auto split: prod.splits)
        with False show ?thesis unfolding whole Some by simp
      qed
    next
      case short: False
      have "decode_ctx ?ctx" "pending_chars ?ctx = pending_chars ctx @ [c]"
        using Cons.prems keep short False by (simp_all add: decode_ctx_def pending_chars_def)
      moreover have "decode_update_loop ctx [] (c # cs) = decode_update_loop ?ctx [] cs"
        using False short keep(3) by (simp add: decode_update_loop_Cons keep_char_def Let_def)
      ultimately show ?thesis using Cons.IH [of ?ctx bs] False keep by simp
    qed
  qed
qed

lemma decode_update_loop_ctx:
  assumes "decode_ctx ctx" "decode_update_loop ctx out cs = (True, ctx', out')"
  shows "decode_ctx ctx' \<and> length out' + unat (data_used ctx') \<le> length out + unat (data_used ctx) + length cs"
  using assms
proof (induction cs arbitrary: ctx out)
  case (Cons c cs)
  note keep = keep_char_pending [OF Cons.prems(1), of c]
  consider (space) "is_base64_space c" | (short) "\<not> is_base64_space c" "\<not> eof_seen ctx" "unat (data_used ctx) \<noteq> 3"
    | (quad) "\<not> is_base64_space c" "\<not> eof_seen ctx" "unat (data_used ctx) = 3"
    using Cons.prems(2) unfolding decode_update_loop_Cons by (cases "eof_seen ctx"; cases "is_base64_space c") auto
  then show ?case
  proof cases
    case space
    with Cons.prems Cons.IH [of ctx out] show ?thesis by (simp add: decode_update_loop_Cons)
  next
    case short
    then have "decode_ctx (keep_char ctx c)" "decode_update_loop (keep_char ctx c) out cs = (True, ctx', out')"
      using Cons.prems keep by (simp_all add: decode_ctx_def decode_update_loop_Cons Let_def keep_char_def)
    with Cons.IH [of "keep_char ctx c" out] keep show ?thesis by simp
  next
    case quad
    let ?ctx = "\<lambda>qs. keep_char ctx c\<lparr>data_used := 0, eof_seen := length qs < 3\<rparr>"
    obtain qs where qs: "base64_decode_quad (data (keep_char ctx c)) = Some qs"
      and run: "decode_update_loop (?ctx qs) (out @ qs) cs = (True, ctx', out')"
      using quad Cons.prems keep by (auto simp: decode_update_loop_Cons keep_char_def Let_def split: option.splits)
    have "decode_ctx (?ctx qs)" using Cons.prems(1) keep by (simp add: decode_ctx_def)
    moreover have "length qs \<le> 3" using qs by (auto simp: base64_decode_quad_def Let_def split: if_splits)
    ultimately show ?thesis using Cons.IH [OF _ run] quad by (auto simp: keep_char_def)
  qed
qed (simp add: decode_update_loop_steps)

lemma EVP_DecodeUpdate_loop:
  assumes "decode_ctx ctx" "length inp < 2147483644"
  shows "EVP_DecodeUpdate ctx inp (word_of_nat (length inp)) =
    (case decode_update_loop ctx [] inp of
       (ok, ctx', out) \<Rightarrow> if ok then (if eof_seen ctx' then 0 else 1, int (length out), out, ctx') else (- 1, 0, out, ctx'))"
proof -
  obtain ok ctx' out where run: "decode_update_loop ctx [] inp = (ok, ctx', out)" by (metis prod_cases3)
  have len: "unat (word_of_nat (length inp) :: u64) = length inp" using assms(2) by (simp add: unat_of_nat)
  have "\<not> error_encountered ctx" using assms(1) by (simp add: decode_ctx_def)
  moreover have "length out < 2147483648" if ok
    using decode_update_loop_ctx [OF assms(1), of "[]" inp] run that assms by (auto simp: decode_ctx_def)
  then have "unat (word_of_nat (length out) :: u64) = length out \<and> \<not> INT_MAX < word_of_nat (length out)" if ok
    using that by (simp add: unat_of_nat INT_MAX_def word_less_nat_alt)
  ultimately show ?thesis
    by (cases ok) (simp_all add: EVP_DecodeUpdate_def run len Let_def)
qed

text \<open>A sequence of updates, one per chunk; the bytes are those the calls report.\<close>

fun decode_updates :: "EVP_ENCODE_CTX \<Rightarrow> u8 list list \<Rightarrow> (EVP_ENCODE_CTX \<times> u8 list) option" where
  "decode_updates ctx [] = Some (ctx, [])"
| "decode_updates ctx (inp # chunks) =
     (case EVP_DecodeUpdate ctx inp (word_of_nat (length inp)) of
        (ret, out_len, out, ctx) \<Rightarrow>
          if ret < 0 then None
          else map_option (\<lambda>(ctx, bs). (ctx, take (nat out_len) out @ bs)) (decode_updates ctx chunks))"

lemma decode_updates_loop:
  "decode_ctx ctx \<Longrightarrow> list_all (\<lambda>inp. length inp < 2147483644) chunks \<Longrightarrow>
    decode_updates ctx chunks =
      (case decode_update_loop ctx [] (concat chunks) of (ok, ctx', out) \<Rightarrow> if ok then Some (ctx', out) else None)"
proof (induction chunks arbitrary: ctx)
  case (Cons inp chunks)
  obtain ok ctx' out where run: "decode_update_loop ctx [] inp = (ok, ctx', out)" by (metis prod_cases3)
  have "decode_updates ctx' chunks =
      (case decode_update_loop ctx' [] (concat chunks) of (ok, ctx', out) \<Rightarrow> if ok then Some (ctx', out) else None)" if ok
    using Cons.IH Cons.prems decode_update_loop_ctx [OF Cons.prems(1)] run that by simp
  moreover have "decode_update_loop ctx' out (concat chunks) =
      (case decode_update_loop ctx' [] (concat chunks) of (ok, c, bs) \<Rightarrow> (ok, c, out @ bs))"
    using decode_update_loop_out [of ctx' out "[]"] by simp
  ultimately show ?case
    using Cons.prems run
    by (auto simp: EVP_DecodeUpdate_loop decode_update_loop_append split: prod.splits)
qed (simp add: decode_update_loop_steps)

lemma decode_updates_text:
  assumes "list_all (\<lambda>inp. length inp < 2147483644) chunks"
  shows "(\<exists>ctx. decode_updates EVP_DecodeInit chunks = Some (ctx, bs) \<and> EVP_DecodeFinal ctx = (1, 0)) \<longleftrightarrow>
    base64_text (filter (\<lambda>c. \<not> is_base64_space c) (concat chunks)) bs"
proof -
  obtain ok ctx' out where run: "decode_update_loop EVP_DecodeInit [] (concat chunks) = (ok, ctx', out)"
    by (metis prod_cases3)
  have "EVP_DecodeFinal ctx' = (1, 0) \<longleftrightarrow> data_used ctx' = 0" if ok
    using decode_update_loop_ctx [OF decode_ctx_init(1)] run that by (simp add: EVP_DecodeFinal_def decode_ctx_def)
  moreover have "(ok \<and> data_used ctx' = 0 \<and> out = bs) \<longleftrightarrow> base64_text (filter (\<lambda>c. \<not> is_base64_space c) (concat chunks)) bs"
    using decode_update_loop_text [OF decode_ctx_init(1), of "concat chunks" bs] by (auto simp: run decode_ctx_init)
  ultimately show ?thesis
    unfolding decode_updates_loop [OF decode_ctx_init(1) assms] run by auto
qed

text \<open>An error stays.\<close>

lemma decode_update_loop_error:
  "decode_update_loop ctx out cs = (False, ctx', out') \<Longrightarrow> error_encountered ctx'"
  by (induction cs arbitrary: ctx out)
    (auto simp: decode_update_loop_steps Let_def split: if_splits option.splits)

lemma EVP_DecodeUpdate_error_sticky:
  assumes "EVP_DecodeUpdate ctx inp n = (- 1, out_len, out, ctx')"
  shows "out_len = 0 \<and> error_encountered ctx' \<and> EVP_DecodeUpdate ctx' inp' n' = (- 1, 0, [], ctx') \<and>
    EVP_DecodeFinal ctx' = (- 1, 0)"
proof -
  have "out_len = 0 \<and> error_encountered ctx'"
    using assms decode_update_loop_error
    by (auto simp: EVP_DecodeUpdate_def Let_def split: if_splits prod.splits bool.splits)
  then show ?thesis by (simp add: EVP_DecodeUpdate_def EVP_DecodeFinal_def)
qed

lemma EVP_DecodeBase64_iff:
  assumes "length inp < 18446744073709551616"
  shows "EVP_DecodeBase64 max_out inp (word_of_nat (length inp)) = (Some n, out) \<longleftrightarrow>
    base64_text inp out \<and> length inp div 4 * 3 \<le> unat max_out \<and> n = word_of_nat (length out)"
proof -
  have len: "unat (word_of_nat (length inp) :: u64) = length inp" using assms by (simp add: unat_of_nat)
  have "length inp div 4 * 3 < 18446744073709551616" using assms by linarith
  then have m: "unat (word_of_nat (length inp) div 4 * 3 :: u64) = length inp div 4 * 3"
    by (simp add: unat_word_ariths unat_div len)
  have z: "word_of_nat (length inp) mod 4 = (0 :: u64) \<longleftrightarrow> length inp mod 4 = 0"
    by (simp add: word_unat_eq_iff unat_mod len)
  obtain ok res where run: "decode_base64_loop [] inp = (ok, res)" by (metis surj_pair)
  have t: "length inp mod 4 = 0 \<and> ok \<and> res = out \<longleftrightarrow> base64_text inp out"
  proof
    assume l: "length inp mod 4 = 0 \<and> ok \<and> res = out"
    with run have "decode_base64_loop [] inp = (True, out)" by simp
    from decode_base64_loop_sound [OF this] l show "base64_text inp out" by auto
  next
    assume "base64_text inp out"
    from decode_base64_loop_complete [OF this, of "[]"] base64_text_length [OF this] run
    show "length inp mod 4 = 0 \<and> ok \<and> res = out" by simp
  qed
  show ?thesis
    unfolding t [symmetric]
    by (cases ok) (auto simp: EVP_DecodeBase64_def EVP_DecodedLength_def z m len run word_less_nat_alt)
qed

section \<open>Encoding a stream\<close>

text \<open>The full lines of an input, and the bytes after them.\<close>

function full_lines :: "u8 list \<Rightarrow> u8 list" where
  "full_lines bs = (if 48 \<le> length bs then base64 (take 48 bs) @ [0x0a] @ full_lines (drop 48 bs) else [])"
  by pat_completeness auto
termination by (relation "measure length") auto

function line_rest :: "u8 list \<Rightarrow> u8 list" where
  "line_rest bs = (if 48 \<le> length bs then line_rest (drop 48 bs) else bs)"
  by pat_completeness auto
termination by (relation "measure length") auto

declare full_lines.simps [simp del] line_rest.simps [simp del]

lemma length_line_rest: "length (line_rest bs) < 48"
  by (induction bs rule: line_rest.induct) (subst line_rest.simps, simp)

lemma full_lines_append:
  "full_lines (xs @ ys) = full_lines xs @ full_lines (line_rest xs @ ys)"
  "line_rest (xs @ ys) = line_rest (line_rest xs @ ys)"
proof (induction xs rule: line_rest.induct)
  case (1 xs)
  {
    case 1
    show ?case
      using "1.IH" by (cases "48 \<le> length xs") (simp_all add: full_lines.simps [of "xs @ ys"] full_lines.simps [of xs] line_rest.simps [of xs])
  next
    case 2
    show ?case
      using "1.IH" by (cases "48 \<le> length xs") (simp_all add: line_rest.simps [of "xs @ ys"] line_rest.simps [of xs])
  }
qed

lemma length_full_lines: "length (full_lines bs) = length bs div 48 * 65"
proof (induction bs rule: full_lines.induct)
  case (1 bs)
  show ?case
  proof (cases "48 \<le> length bs")
    case True
    then have "length bs div 48 = Suc ((length bs - 48) div 48)" by (simp add: le_div_geq)
    with 1 True show ?thesis by (subst full_lines.simps) (simp add: length_base64)
  qed (simp add: full_lines.simps [of bs])
qed

lemma EVP_EncodeBlock_48:
  "48 \<le> length src \<Longrightarrow> EVP_EncodeBlock src 48 = (base64 (take 48 src) @ [0], 64)"
  by (simp add: EVP_EncodeBlock_def encode_block_loop_base64 Let_def length_base64)

lemma encode_update_loop_lines:
  assumes "unat tot + length inp div 48 * 65 < 18446744073709551616" "length inp < 18446744073709551616"
  shows "encode_update_loop out tot inp (word_of_nat (length inp)) =
    (True, out @ full_lines inp, tot + word_of_nat (length (full_lines inp)), line_rest inp, word_of_nat (length (line_rest inp)))"
  using assms
proof (induction inp arbitrary: out tot rule: line_rest.induct)
  case (1 inp)
  have len: "unat (word_of_nat (length inp) :: u64) = length inp" using "1.prems" by (simp add: unat_of_nat)
  show ?case
  proof (cases "48 \<le> length inp")
    case True
    then have d: "length inp div 48 = Suc ((length inp - 48) div 48)" by (simp add: le_div_geq)
    with "1.prems" have "unat tot + 65 < 18446744073709551616" by simp
    then have t: "unat (tot + 65) = unat tot + 65" by (simp add: unat_word_ariths)
    have sub: "word_of_nat (length inp) - (48 :: u64) = word_of_nat (length (drop 48 inp))"
      using True by (simp add: of_nat_diff)
    have "encode_update_loop out tot inp (word_of_nat (length inp)) =
        encode_update_loop (out @ base64 (take 48 inp) @ [0x0a]) (tot + 65) (drop 48 inp) (word_of_nat (length (drop 48 inp)))"
      using True t unfolding sub [symmetric]
      by (subst encode_update_loop.simps) (simp add: word_le_nat_alt word_less_nat_alt len EVP_EncodeBlock_48 length_base64 add.assoc)
    also have "\<dots> = (True, (out @ base64 (take 48 inp) @ [0x0a]) @ full_lines (drop 48 inp),
        tot + 65 + word_of_nat (length (full_lines (drop 48 inp))), line_rest (drop 48 inp), word_of_nat (length (line_rest (drop 48 inp))))"
      using "1.IH" [OF True, of "tot + 65" "out @ base64 (take 48 inp) @ [0x0a]"] "1.prems" t d by simp
    finally show ?thesis
      using True by (simp add: full_lines.simps [of inp] line_rest.simps [of inp] length_base64)
  next
    case False
    then show ?thesis
      by (subst encode_update_loop.simps) (simp add: word_le_nat_alt len full_lines.simps [of inp] line_rest.simps [of inp])
  qed
qed

definition encode_ctx :: "EVP_ENCODE_CTX \<Rightarrow> bool" where
  "encode_ctx ctx \<longleftrightarrow> length (data ctx) = 48 \<and> unat (data_used ctx) < 48"

lemma encode_ctx_init: "encode_ctx EVP_EncodeInit" "pending_chars EVP_EncodeInit = []"
  by (simp_all add: encode_ctx_def EVP_EncodeInit_def pending_chars_def)

lemma encode_ctx_facts:
  assumes "encode_ctx ctx"
  shows "unat (data_used ctx) < 48" "length (data ctx) = 48" "length (pending_chars ctx) = unat (data_used ctx)"
    "unat (48 - ucast (data_used ctx) :: u64) = 48 - unat (data_used ctx)"
  using assms by (simp_all add: encode_ctx_def pending_chars_def unat_sub word_le_nat_alt unat_ucast_up)

lemma length_chunk:
  assumes "length inp < 1073741824"
  shows "unat (word_of_nat (length inp) :: u64) = length inp" "word_of_nat (length inp) = (0 :: u64) \<longleftrightarrow> inp = []"
  using assms by (simp_all add: unat_of_nat word_unat_eq_iff)

text \<open>An update that does not complete a line.\<close>

lemma EVP_EncodeUpdate_short:
  assumes "encode_ctx ctx" "length (pending_chars ctx @ inp) < 48"
  obtains ctx' where "EVP_EncodeUpdate ctx inp (word_of_nat (length inp)) = (ctx', [], 0)" "encode_ctx ctx'"
    "pending_chars ctx' = pending_chars ctx @ inp"
proof (cases "inp = []")
  case True
  with assms(1) show ?thesis by (intro that [of ctx]) (simp_all add: EVP_EncodeUpdate_def)
next
  case False
  let ?used = "unat (data_used ctx)" and ?n = "word_of_nat (length inp) :: u64"
  let ?ctx = "ctx\<lparr>data := take ?used (data ctx) @ inp @ drop (?used + length inp) (data ctx),
    data_used := data_used ctx + ucast ?n\<rparr>"
  note used = encode_ctx_facts [OF assms(1)]
  have fits: "?used + length inp < 48" "length inp < 48 - ?used" using assms(2) used by simp_all
  then have n: "unat ?n = length inp" "?n \<noteq> 0" using length_chunk [of inp] False by simp_all
  then have "unat (ucast ?n :: u32) = length inp" using fits by (simp add: unat_ucast_mod)
  then have "unat (data_used ctx + ucast ?n) = ?used + length inp" using fits by (simp add: unat_word_ariths)
  with fits used have "encode_ctx ?ctx" "pending_chars ?ctx = pending_chars ctx @ inp"
    by (simp_all add: encode_ctx_def pending_chars_def)
  moreover have "EVP_EncodeUpdate ctx inp ?n = (?ctx, [], 0)"
    using fits n by (simp add: EVP_EncodeUpdate_def word_less_nat_alt used)
  ultimately show ?thesis by (rule that [of ?ctx, rotated])
qed

text \<open>The bytes of the line an update completes from the pending ones; empty when none are pending.\<close>

definition first_line :: "EVP_ENCODE_CTX \<Rightarrow> u8 list \<Rightarrow> u8 list" where
  "first_line ctx inp = (if data_used ctx \<noteq> 0 then take 48 (pending_chars ctx @ inp) else [])"

definition ctx_after_line :: "EVP_ENCODE_CTX \<Rightarrow> u8 list \<Rightarrow> EVP_ENCODE_CTX" where
  "ctx_after_line ctx inp =
     (if data_used ctx \<noteq> 0 then ctx\<lparr>data := take 48 (pending_chars ctx @ inp), data_used := 0\<rparr> else ctx)"

lemma full_lines_48:
  "length xs = 48 \<Longrightarrow> full_lines xs = base64 xs @ [0x0a]" "length xs = 48 \<Longrightarrow> line_rest xs = []"
  "full_lines [] = []" "line_rest [] = []"
  by (simp_all add: full_lines.simps [of xs] full_lines.simps [of "[]"] line_rest.simps [of xs] line_rest.simps [of "[]"])

lemma first_line_lines:
  assumes "48 \<le> length (pending_chars ctx @ inp)"
  defines "s \<equiv> pending_chars ctx @ inp"
  defines "inp' \<equiv> drop (length (first_line ctx inp)) s"
  shows "full_lines s = full_lines (first_line ctx inp) @ full_lines inp'" "line_rest s = line_rest inp'"
proof -
  have "first_line ctx inp = take (if data_used ctx \<noteq> 0 then 48 else 0) s" by (simp add: first_line_def s_def)
  with assms(1) have "first_line ctx inp @ inp' = s"
    by (cases "data_used ctx = 0") (simp_all add: inp'_def s_def min_absorb2 del: take_append drop_append)
  moreover have "line_rest (first_line ctx inp) = []" using assms(1) by (simp add: first_line_def full_lines_48)
  ultimately show "full_lines s = full_lines (first_line ctx inp) @ full_lines inp'" "line_rest s = line_rest inp'"
    using full_lines_append [of "first_line ctx inp" inp'] by simp_all
qed

lemma EVP_EncodeUpdate_start:
  assumes "encode_ctx ctx" "length inp < 1073741824" "48 \<le> length (pending_chars ctx @ inp)"
  defines "inp' \<equiv> drop (length (first_line ctx inp)) (pending_chars ctx @ inp)"
  shows "(if data_used ctx \<noteq> 0 then
      (let todo = 48 - ucast (data_used ctx) :: u64;
           filled = take (unat (data_used ctx)) (data ctx) @ take (unat todo) inp;
           (block, encoded) = EVP_EncodeBlock filled 48
       in (ctx\<lparr>data := filled, data_used := 0\<rparr>, take (unat encoded) block @ [0x0a], encoded + 1,
           drop (unat todo) inp, word_of_nat (length inp) - todo))
    else (ctx, [], 0, inp, word_of_nat (length inp))) =
    (ctx_after_line ctx inp, full_lines (first_line ctx inp), word_of_nat (length (full_lines (first_line ctx inp))),
     inp', word_of_nat (length inp'))"
proof (cases "data_used ctx = 0")
  case True
  then show ?thesis
    by (simp add: ctx_after_line_def first_line_def inp'_def pending_chars_def full_lines_48)
next
  case False
  let ?todo = "48 - unat (data_used ctx)"
  define s where "s = pending_chars ctx @ inp"
  note used = encode_ctx_facts [OF assms(1)]
  have fill: "take (unat (data_used ctx)) (data ctx) @ take ?todo inp = take 48 s" "drop ?todo inp = drop 48 s"
    unfolding s_def using used by simp_all (simp add: pending_chars_def)
  have t: "unat (48 - ucast (data_used ctx) :: u64) \<le> unat (word_of_nat (length inp) :: u64)"
    using assms(3) used length_chunk [OF assms(2)] by (simp del: unat_of_nat)
  have "unat (word_of_nat (length inp) - (48 - ucast (data_used ctx)) :: u64) = length (drop ?todo inp)"
    using t by (subst unat_sub) (simp_all only: word_le_nat_alt used length_chunk [OF assms(2)] length_drop)
  moreover have "length (drop ?todo inp) < 1073741824" using assms(2) by simp
  note length_chunk(1) [OF this]
  ultimately have "word_of_nat (length inp) - (48 - ucast (data_used ctx) :: u64) = word_of_nat (length (drop 48 s))"
    unfolding fill(2) word_unat_eq_iff by (simp only:)
  moreover have "48 \<le> length s" using assms(3) by (simp add: s_def)
  ultimately show ?thesis
    using False unfolding ctx_after_line_def inp'_def first_line_def s_def [symmetric]
    by (simp add: used(4) fill EVP_EncodeBlock_48 full_lines_48 length_base64 Let_def)
qed

lemma EVP_EncodeUpdate_long:
  assumes "encode_ctx ctx" "length inp < 1073741824" "48 \<le> length (pending_chars ctx @ inp)"
  defines "s \<equiv> pending_chars ctx @ inp"
  obtains ctx' out where "EVP_EncodeUpdate ctx inp (word_of_nat (length inp)) = (ctx', out, int (length (full_lines s)))"
    "take (length (full_lines s)) out = full_lines s" "encode_ctx ctx'" "pending_chars ctx' = line_rest s"
proof -
  let ?fl = "first_line ctx inp" and ?ctx0 = "ctx_after_line ctx inp" and ?rest = "line_rest s"
  define inp' where "inp' = drop (length ?fl) s"
  note used = encode_ctx_facts [OF assms(1)] and start = EVP_EncodeUpdate_start [OF assms(1-3), folded s_def, folded inp'_def]
  note lines = first_line_lines [OF assms(3), folded s_def, folded inp'_def]
  have bound: "length s < 1073741872" "length inp' < 1073741872" using used assms(2) by (simp_all add: s_def inp'_def)
  then have total: "length (full_lines s) < 2147483648" by (simp add: length_full_lines)
  then have tot: "unat (word_of_nat (length (full_lines s)) :: u64) = length (full_lines s)" by (simp add: unat_of_nat)
  from total have o0: "unat (word_of_nat (length (full_lines ?fl)) :: u64) = length (full_lines ?fl)"
    using lines by (simp add: unat_of_nat)
  have loop: "encode_update_loop (full_lines ?fl) (word_of_nat (length (full_lines ?fl))) inp' (word_of_nat (length inp')) =
      (True, full_lines s, word_of_nat (length (full_lines s)), ?rest, word_of_nat (length ?rest))"
    using encode_update_loop_lines [of "word_of_nat (length (full_lines ?fl))" inp' "full_lines ?fl"] total bound lines
    by (simp add: o0 length_full_lines [of inp', symmetric])
  have rest: "length ?rest < 48" by (rule length_line_rest)
  then have small: "unat (word_of_nat (length ?rest) :: u64) = length ?rest" "word_of_nat (length ?rest) = (0 :: u64) \<longleftrightarrow> ?rest = []"
    "unat (ucast (word_of_nat (length ?rest) :: u64) :: u32) = length ?rest"
    using length_chunk [of ?rest] by (simp_all add: unat_ucast_mod)
  let ?ctx = "?ctx0\<lparr>data := (if ?rest \<noteq> [] then ?rest @ drop (length ?rest) (data ?ctx0) else data ?ctx0),
    data_used := ucast (word_of_nat (length ?rest) :: u64)\<rparr>"
  let ?out = "if full_lines s = [] then [] else full_lines s @ [0]"
  have le: "\<not> INT_MAX < word_of_nat (length (full_lines s))" using total tot by (simp add: word_less_nat_alt INT_MAX_def)
  have big: "inp \<noteq> []" "\<not> length inp < 48 - unat (data_used ctx)" using used assms(3) by (auto simp: not_less)
  have "EVP_EncodeUpdate ctx inp (word_of_nat (length inp)) = (?ctx, ?out, int (length (full_lines s)))"
    unfolding EVP_EncodeUpdate_def start
    using big le tot [folded of_nat_eq_iff [where 'a = int]]
    by (simp add: word_less_nat_alt used length_chunk [OF assms(2)] loop small del: unat_of_nat)
  moreover have "length (data ?ctx0) = 48" using used assms(3) rest by (auto simp: ctx_after_line_def)
  then have "encode_ctx ?ctx" "pending_chars ?ctx = ?rest" using rest small by (auto simp: encode_ctx_def le_add_diff_inverse pending_chars_def)
  ultimately show ?thesis by (intro that [of ?ctx ?out]) simp_all
qed

lemma EVP_EncodeUpdate_lines:
  assumes "encode_ctx ctx" "length inp < 1073741824"
  defines "s \<equiv> pending_chars ctx @ inp"
  obtains ctx' out where "EVP_EncodeUpdate ctx inp (word_of_nat (length inp)) = (ctx', out, int (length (full_lines s)))"
    "take (length (full_lines s)) out = full_lines s" "encode_ctx ctx'" "pending_chars ctx' = line_rest s"
proof (cases "48 \<le> length s")
  case True
  with EVP_EncodeUpdate_long [OF assms(1,2)] that show ?thesis unfolding s_def by blast
next
  case False
  then have "full_lines s = []" "line_rest s = s" by (simp_all add: full_lines.simps [of s] line_rest.simps [of s])
  moreover obtain ctx' where "EVP_EncodeUpdate ctx inp (word_of_nat (length inp)) = (ctx', [], 0)" "encode_ctx ctx'"
    "pending_chars ctx' = pending_chars ctx @ inp"
    using EVP_EncodeUpdate_short [OF assms(1)] False unfolding s_def by (metis not_le)
  ultimately show ?thesis by (intro that [of ctx' "[]"]) (simp_all add: s_def)
qed

text \<open>A whole encoding: one update per chunk and the final call; the bytes are those the calls report.\<close>

fun encode_updates :: "EVP_ENCODE_CTX \<Rightarrow> u8 list list \<Rightarrow> u8 list" where
  "encode_updates ctx [] = (case EVP_EncodeFinal ctx of (_, out, out_len) \<Rightarrow> take (nat out_len) out)"
| "encode_updates ctx (inp # chunks) =
     (case EVP_EncodeUpdate ctx inp (word_of_nat (length inp)) of
        (ctx, out, out_len) \<Rightarrow> take (nat out_len) out @ encode_updates ctx chunks)"

definition base64_lines :: "u8 list \<Rightarrow> u8 list" where
  "base64_lines bs = full_lines bs @ (if line_rest bs = [] then [] else base64 (line_rest bs) @ [0x0a])"

lemma EVP_EncodeFinal_line:
  assumes "encode_ctx ctx"
  shows "(case EVP_EncodeFinal ctx of (_, out, out_len) \<Rightarrow> take (nat out_len) out) =
    (if pending_chars ctx = [] then [] else base64 (pending_chars ctx) @ [0x0a])"
proof (cases "data_used ctx = 0")
  case True
  then show ?thesis by (simp add: EVP_EncodeFinal_def pending_chars_def)
next
  case False
  note used = encode_ctx_facts [OF assms]
  have "length (base64 (pending_chars ctx)) \<le> 64" using used by (simp add: length_base64)
  then have "unat (word_of_nat (length (base64 (pending_chars ctx))) :: u64) = length (base64 (pending_chars ctx))"
    "unat (word_of_nat (length (base64 (pending_chars ctx))) + 1 :: u64) = Suc (length (base64 (pending_chars ctx)))"
    by (simp_all add: unat_of_nat unat_word_ariths)
  moreover have "EVP_EncodeBlock (data ctx) (ucast (data_used ctx)) =
      (base64 (pending_chars ctx) @ [0], word_of_nat (length (base64 (pending_chars ctx))))"
    by (simp add: EVP_EncodeBlock_def encode_block_loop_base64 unat_ucast_up pending_chars_def Let_def)
  moreover have "pending_chars ctx \<noteq> []" using False used by (auto simp: unat_eq_zero)
  ultimately show ?thesis using False by (simp add: EVP_EncodeFinal_def del: unat_of_nat)
qed

lemma encode_updates_lines:
  "encode_ctx ctx \<Longrightarrow> list_all (\<lambda>inp. length inp < 1073741824) chunks \<Longrightarrow>
    encode_updates ctx chunks = base64_lines (pending_chars ctx @ concat chunks)"
proof (induction chunks arbitrary: ctx)
  case Nil
  have "length (pending_chars ctx) < 48" using encode_ctx_facts [OF Nil(1)] by simp
  then have "full_lines (pending_chars ctx) = []" "line_rest (pending_chars ctx) = pending_chars ctx"
    by (simp_all add: full_lines.simps [of "pending_chars ctx"] line_rest.simps [of "pending_chars ctx"])
  with EVP_EncodeFinal_line [OF Nil(1)] show ?case by (simp add: base64_lines_def)
next
  case (Cons inp chunks)
  let ?s = "pending_chars ctx @ inp"
  obtain ctx' out where u: "EVP_EncodeUpdate ctx inp (word_of_nat (length inp)) = (ctx', out, int (length (full_lines ?s)))"
    "take (length (full_lines ?s)) out = full_lines ?s" "encode_ctx ctx'" "pending_chars ctx' = line_rest ?s"
    using EVP_EncodeUpdate_lines [OF Cons.prems(1), of inp] Cons.prems(2) by auto
  with Cons have "encode_updates ctx' chunks = base64_lines (line_rest ?s @ concat chunks)" by simp
  with u full_lines_append [of ?s "concat chunks"] show ?case by (simp add: base64_lines_def)
qed

text \<open>The lines hold the encoding of the whole input.\<close>

lemma base64_append: "length xs mod 3 = 0 \<Longrightarrow> base64 (xs @ ys) = base64 xs @ base64 ys"
  by (induction xs rule: base64.induct) auto

lemma base64_text_no_space: "base64_text ts bs \<Longrightarrow> \<forall>c\<in>set ts. \<not> is_base64_space c"
proof (induction rule: base64_text.induct)
  case (base64_quad p q r s ts bs)
  then show ?case using base64_digit_not_space [of p] base64_digit_not_space [of q]
      base64_digit_not_space [of r] base64_digit_not_space [of s] by (simp add: is_base64_space_def)
next
  case (base64_two p q r)
  then show ?case using base64_digit_not_space [of p] base64_digit_not_space [of q] base64_digit_not_space [of r]
    by (simp add: is_base64_space_def)
next
  case (base64_one p q)
  then show ?case using base64_digit_not_space [of p] base64_digit_not_space [of q] by (simp add: is_base64_space_def)
qed simp

lemma base64_no_space: "filter (\<lambda>c. \<not> is_base64_space c) (base64 bs) = base64 bs"
  using base64_text_no_space [OF base64_text_encoding] by (simp add: filter_id_conv)

lemma base64_lines_text: "filter (\<lambda>c. \<not> is_base64_space c) (base64_lines bs) = base64 bs"
proof (induction bs rule: line_rest.induct)
  case (1 bs)
  let ?f = "filter (\<lambda>c. \<not> is_base64_space c)"
  have nl: "is_base64_space 0x0a" by (simp add: is_base64_space_def)
  show ?case
  proof (cases "48 \<le> length bs")
    case True
    then have "base64_lines bs = base64 (take 48 bs) @ 0x0a # base64_lines (drop 48 bs)"
      by (simp add: base64_lines_def full_lines.simps [of bs] line_rest.simps [of bs])
    moreover have "base64 bs = base64 (take 48 bs) @ base64 (drop 48 bs)"
      using base64_append [of "take 48 bs" "drop 48 bs"] True by (simp add: min_absorb2)
    ultimately show ?thesis using 1 True nl by (simp add: base64_no_space)
  next
    case False
    then show ?thesis
      by (simp add: base64_lines_def full_lines.simps [of bs] line_rest.simps [of bs] base64_no_space nl)
  qed
qed

lemma base64_stream_roundtrip:
  assumes "list_all (\<lambda>inp. length inp < 1073741824) chunks" "list_all (\<lambda>inp. length inp < 2147483644) texts"
    and "concat texts = encode_updates EVP_EncodeInit chunks"
  shows "\<exists>ctx. decode_updates EVP_DecodeInit texts = Some (ctx, concat chunks) \<and> EVP_DecodeFinal ctx = (1, 0)"
  unfolding decode_updates_text [OF assms(2)] assms(3) encode_updates_lines [OF encode_ctx_init(1) assms(1)]
  by (simp add: encode_ctx_init base64_lines_text base64_text_encoding)

text \<open>The length computations.\<close>

lemma EVP_EncodedLength_spec:
  "EVP_EncodedLength len =
    (if (unat len + 2) div 3 * 4 + 1 < 18446744073709551616 then Some (word_of_nat ((unat len + 2) div 3 * 4 + 1)) else None)"
proof (cases "unat len + 2 < 18446744073709551616")
  case True
  define q where "q = (len + 2) div 3"
  have q: "unat q = (unat len + 2) div 3" using True by (simp add: q_def unat_div unat_word_ariths)
  have "\<not> len + 2 < len" using True by (simp add: word_less_nat_alt unat_word_ariths)
  moreover have "drop_bit 2 (push_bit 2 q) = q \<longleftrightarrow> unat q < 4611686018427387904"
  proof -
    have "unat (drop_bit 2 (push_bit 2 q)) = unat q * 4 mod 18446744073709551616 div 4"
      unfolding unat_drop_bit_div unsigned_push_bit_eq by (simp add: push_bit_eq_mult take_bit_eq_mod)
    also have "\<dots> = unat q mod 4611686018427387904"
      using mod_mult2_eq [of "unat q * 4" 4 4611686018427387904] by (simp add: mult.commute)
    finally show ?thesis unfolding word_unat_eq_iff by (metis mod_less mod_less_divisor zero_less_numeral)
  qed
  moreover have "unat (push_bit 2 q) = unat q * 4" if "unat q < 4611686018427387904"
    unfolding unsigned_push_bit_eq using that by (simp add: push_bit_eq_mult take_bit_eq_mod)
  ultimately show ?thesis
    unfolding EVP_EncodedLength_def Let_def q_def [symmetric] q [symmetric]
    by (auto simp: word_unat_eq_iff word_less_nat_alt unat_word_ariths unat_of_nat)
next
  case False
  then have "\<not> (unat len + 2) div 3 * 4 + 1 < 18446744073709551616" by simp
  moreover have "unat len = 18446744073709551614 \<or> unat len = 18446744073709551615"
    using False unat_u64_less [of len] by linarith
  then have "len + 2 < len" unfolding word_less_nat_alt unat_word_ariths by auto
  ultimately show ?thesis by (simp add: EVP_EncodedLength_def)
qed

end
