(* ===== verification/Encoding_Properties.thy ===== *)
theory Encoding_Properties
  imports Base64_Stream Mem
begin

text \<open>
  The properties of the memory helpers, of the constant-time operations and of base64.
\<close>

section \<open>Memory and strings\<close>

text \<open>
  The comparison that looks at every byte returns zero exactly when the two byte strings are
  equal.
\<close>

theorem CRYPTO_memcmp_decides_equality:
  assumes "unat n \<le> length a" "unat n \<le> length b"
  shows "CRYPTO_memcmp a b n = 0 \<longleftrightarrow> take (unat n) a = take (unat n) b"
  by (rule CRYPTO_memcmp_eq_0_iff [OF assms])

theorem CRYPTO_memcmp_decides_equality_witness: "CRYPTO_memcmp [1, 2, 3] [1, 2, 4] 3 \<noteq> 0 \<and> CRYPTO_memcmp [1, 2, 3] [1, 2, 4] 2 = 0"
  using CRYPTO_memcmp_decides_equality [of 3 "[1, 2, 3]" "[1, 2, 4]"] CRYPTO_memcmp_decides_equality [of 2 "[1, 2, 3]" "[1, 2, 4]"]
  by simp

text \<open>
  An array that \<open>OPENSSL_calloc\<close> returns has room for all its elements, the product of the
  sizes having been checked for wrap-around, and is zero.
\<close>

theorem OPENSSL_calloc_no_overflow:
  assumes "malloc_spec malloc" "OPENSSL_calloc malloc num sz = Some p"
  shows "length p = unat num * unat sz \<and> set p \<subseteq> {0}"
  using OPENSSL_calloc_eq [OF assms] by auto

theorem OPENSSL_calloc_no_overflow_witness:
  "\<exists>p. OPENSSL_calloc (\<lambda>n. Some (replicate (unat n) 7)) 3 2 = Some p \<and> length p = 6 \<and> set p \<subseteq> {0}"
proof -
  let ?m = "\<lambda>n. Some (replicate (unat n) 7) :: u8 list option"
  have "malloc_spec ?m" by (auto simp: malloc_spec_def)
  moreover obtain p where "OPENSSL_calloc ?m 3 2 = Some p"
    by (simp add: OPENSSL_calloc_def OPENSSL_zalloc_def OPENSSL_malloc_def OPENSSL_MALLOC_PREFIX_def)
  ultimately show ?thesis using OPENSSL_calloc_no_overflow [of ?m 3 2 p] by simp
qed

text \<open>
  \<open>OPENSSL_strlcpy\<close> stays inside the destination, always terminates it, copies as much of the
  source as fits and returns the length of the source.
\<close>

theorem OPENSSL_strlcpy_bounded:
  assumes "0 \<in> set src" "unat n \<le> length dst" "n \<noteq> 0"
  shows "\<exists>dst'. OPENSSL_strlcpy dst src n = (dst', strlen src) \<and> length dst' = length dst \<and>
    0 \<in> set (take (unat n) dst') \<and> cstr dst' = take (unat n - 1) (cstr src)"
  by (rule OPENSSL_strlcpy_spec [OF assms])

theorem OPENSSL_strlcpy_bounded_witness:
  "\<exists>dst'. OPENSSL_strlcpy [9, 9, 9] [1, 2, 3, 4, 0] 3 = (dst', strlen [1, 2, 3, 4, 0]) \<and> length dst' = 3 \<and> cstr dst' = [1, 2]"
proof -
  have "cstr [1, 2, 3, 4, 0] = [1, 2, 3, 4]" by code_simp
  then show ?thesis using OPENSSL_strlcpy_bounded [of "[1, 2, 3, 4, 0]" 3 "[9, 9, 9]"] by auto
qed

section \<open>Constant-time operations\<close>

text \<open>
  C30. The branch-free comparisons are the comparisons: all bits one when the relation holds and
  all bits zero when it does not.
\<close>

theorem constant_time_comparisons:
  "constant_time_lt_w a b = (if a < b then - 1 else 0) \<and> constant_time_ge_w a b = (if b \<le> a then - 1 else 0) \<and>
   constant_time_eq_w a b = (if a = b then - 1 else 0) \<and> constant_time_is_zero_w a = (if a = 0 then - 1 else 0)"
  by (simp add: constant_time_lt_w constant_time_masks constant_time_is_zero_w all_ones_if_def)

text \<open>
  Under such a mask the branch-free selections are the conditional, and the conditional copy
  copies or leaves the destination alone.
\<close>

theorem constant_time_conditionals:
  assumes "unat n \<le> length dst" "unat n \<le> length src"
  shows "constant_time_select_w (constant_time_lt_w a b) x y = (if a < b then x else y) \<and>
    constant_time_select_8 (constant_time_eq_w a b) c d = (if a = b then c else d) \<and>
    constant_time_conditional_memcpy dst src n (constant_time_eq_w a b) =
      (if a = b then take (unat n) src @ drop (unat n) dst else dst)"
  by (simp add: constant_time_lt_w constant_time_masks constant_time_selects constant_time_conditional_memcpy [OF assms])

theorem constant_time_conditionals_witness:
  "constant_time_conditional_memcpy [1, 2, 3] [8, 9] 2 (constant_time_eq_w 5 5) = [8, 9, 3]"
  using constant_time_conditionals [of 2 "[1, 2, 3]" "[8, 9]" 5 5] by simp

section \<open>Base64\<close>

text \<open>
  C28. A sequence of updates and the final call encode the concatenation of the chunks, in lines of
  48 bytes, however the input is cut into chunks.
\<close>

theorem base64_encode_stream:
  assumes "list_all (\<lambda>inp. length inp < 2 ^ 30) chunks"
  shows "encode_updates EVP_EncodeInit chunks = base64_lines (concat chunks)"
  using encode_updates_lines [OF encode_ctx_init(1), of chunks] assms by (simp add: encode_ctx_init)

theorem base64_encode_stream_witness:
  "encode_updates EVP_EncodeInit [[0x66], [0x6f, 0x6f]] = base64_lines [0x66, 0x6f, 0x6f]"
  using base64_encode_stream [of "[[0x66], [0x6f, 0x6f]]"] by simp

text \<open>
  C27. A sequence of updates and the final call decode exactly the base64 texts: they succeed if
  and only if the chunks, put together and without white space, are such a text, and the bytes
  they report are the ones it stands for.
\<close>

theorem base64_decode_stream:
  assumes "list_all (\<lambda>inp. length inp < 2147483644) chunks"
  shows "(\<exists>ctx. decode_updates EVP_DecodeInit chunks = Some (ctx, bs) \<and> EVP_DecodeFinal ctx = (1, 0)) \<longleftrightarrow>
    base64_text (filter (\<lambda>c. \<not> is_base64_space c) (concat chunks)) bs"
  by (rule decode_updates_text [OF assms])

theorem base64_decode_stream_witness:
  "\<exists>ctx. decode_updates EVP_DecodeInit [[0x41, 0x51, 0x20], [0x49, 0x44, 0x0a]] = Some (ctx, [1, 2, 3]) \<and> EVP_DecodeFinal ctx = (1, 0)"
proof -
  have "filter (\<lambda>c. \<not> is_base64_space c) (concat [[0x41, 0x51, 0x20], [0x49, 0x44, 0x0a]]) = base64 [1, 2, 3]"
    by code_simp
  with base64_decode_stream [of "[[0x41, 0x51, 0x20], [0x49, 0x44, 0x0a]]" "[1, 2, 3]"] base64_text_encoding [of "[1, 2, 3]"]
  show ?thesis by simp
qed

text \<open>
  C26. What the streaming encoder wrote, cut into any chunks, is decoded to what it was given.
\<close>

theorem base64_roundtrip:
  assumes "list_all (\<lambda>inp. length inp < 2 ^ 30) chunks" "list_all (\<lambda>inp. length inp < 2147483644) texts"
    and "concat texts = encode_updates EVP_EncodeInit chunks"
  shows "\<exists>ctx. decode_updates EVP_DecodeInit texts = Some (ctx, concat chunks) \<and> EVP_DecodeFinal ctx = (1, 0)"
  using base64_stream_roundtrip [of chunks texts] assms by simp

theorem base64_roundtrip_witness:
  "\<exists>ctx. decode_updates EVP_DecodeInit [base64_lines [1, 2, 3]] = Some (ctx, [1, 2, 3]) \<and> EVP_DecodeFinal ctx = (1, 0)"
proof -
  have e: "encode_updates EVP_EncodeInit [[1, 2, 3]] = base64_lines [1, 2, 3]"
    using encode_updates_lines [OF encode_ctx_init(1), of "[[1, 2, 3]]"] by (simp add: encode_ctx_init)
  have "length (base64_lines [1, 2, 3]) < 2147483644"
    by (simp add: base64_lines_def full_lines.simps line_rest.simps)
  with e show ?thesis using base64_roundtrip [of "[[1, 2, 3]]" "[base64_lines [1, 2, 3]]"] by simp
qed

text \<open>
  The block decoder accepts exactly the base64 texts without white space whose worst-case
  length fits the buffer it was given.
\<close>

theorem EVP_DecodeBase64_accepts:
  assumes "length inp < 2 ^ 64"
  shows "EVP_DecodeBase64 max_out inp (word_of_nat (length inp)) = (Some n, out) \<longleftrightarrow>
    base64_text inp out \<and> length inp div 4 * 3 \<le> unat max_out \<and> n = word_of_nat (length out)"
  using EVP_DecodeBase64_iff [of inp] assms by simp

theorem EVP_DecodeBase64_accepts_witness:
  "EVP_DecodeBase64 3 (base64 [1, 2, 3]) (word_of_nat (length (base64 [1, 2, 3]))) = (Some 3, [1, 2, 3])"
  using EVP_DecodeBase64_accepts [of "base64 [1, 2, 3]" 3 3 "[1, 2, 3]"] base64_text_encoding [of "[1, 2, 3]"] by simp

text \<open>
  Once an update has reported an error, every later update reports one, writes nothing and
  leaves the context as it is, and so does the final call.
\<close>

theorem EVP_DecodeUpdate_error_stays:
  assumes "EVP_DecodeUpdate ctx inp n = (- 1, out_len, out, ctx')"
  shows "out_len = 0 \<and> EVP_DecodeUpdate ctx' inp' n' = (- 1, 0, [], ctx') \<and> EVP_DecodeFinal ctx' = (- 1, 0)"
  using EVP_DecodeUpdate_error_sticky [OF assms] by blast

theorem EVP_DecodeUpdate_error_stays_witness:
  "\<exists>out ctx'. EVP_DecodeUpdate EVP_DecodeInit [0x21, 0x21, 0x21, 0x21] 4 = (- 1, 0, out, ctx') \<and>
     EVP_DecodeUpdate ctx' [0x41] 1 = (- 1, 0, [], ctx')"
proof -
  have "fst (EVP_DecodeUpdate EVP_DecodeInit [0x21, 0x21, 0x21, 0x21] 4) = - 1" by code_simp
  then obtain out_len out ctx' where
    r: "EVP_DecodeUpdate EVP_DecodeInit [0x21, 0x21, 0x21, 0x21] 4 = (- 1, out_len, out, ctx')" by (metis prod.collapse)
  then show ?thesis using EVP_DecodeUpdate_error_stays [OF r] by auto
qed

text \<open>
  C29. The length \<open>EVP_EncodedLength\<close> returns is that of the encoding with its final zero, and the
  function fails exactly when that number does not fit into 64 bits.
\<close>

theorem EVP_EncodedLength_exact:
  assumes "length src < 2 ^ 64"
  shows "EVP_EncodedLength (word_of_nat (length src)) = Some n \<longleftrightarrow>
    length (base64 src) + 1 < 2 ^ 64 \<and> unat n = length (base64 src) + 1"
proof -
  have u: "unat (word_of_nat (length src) :: u64) = length src" using assms by (simp add: unat_of_nat)
  have "unat (word_of_nat (length (base64 src) + 1) :: u64) = length (base64 src) + 1" if "length (base64 src) + 1 < 2 ^ 64"
    using that by (intro unat_of_nat_u64) simp
  then show ?thesis unfolding EVP_EncodedLength_spec u length_base64 [symmetric]
    by (auto simp del: of_nat_add of_nat_Suc) (metis word_unat_eq_iff)
qed

theorem EVP_EncodedLength_exact_witness: "EVP_EncodedLength 4 = Some 9"
  using EVP_EncodedLength_exact [of "[1, 2, 3, 4]" 9] by simp

end
