(* ===== verification/Pb.thy ===== *)
theory Pb
  imports Constant_Time
begin

text \<open>
  nanopb, what encoder and decoder share: the field descriptors of pb.h, the memory they
  describe, and the field iterator of pb_common.c. The build has \<open>PB_FIELD_32BIT\<close>,
  \<open>PB_NO_PACKED_STRUCTS\<close> and \<open>PB_ENABLE_MALLOC\<close>, on a little-endian machine with
  64-bit pointers.
\<close>

section \<open>Memory\<close>

text \<open>An address is a 64-bit number; \<open>NULL\<close> is 0.\<close>

type_synonym addr = u64
type_synonym memory = "addr \<Rightarrow> u8"
type_synonym pb_size_t = u32
type_synonym pb_type_t = u8

primrec load_le :: "memory \<Rightarrow> addr \<Rightarrow> nat \<Rightarrow> u64" where
  "load_le m p 0 = 0"
| "load_le m p (Suc n) = ucast (m p) OR push_bit 8 (load_le m (p + 1) n)"

definition load_size :: "memory \<Rightarrow> addr \<Rightarrow> pb_size_t" where
  "load_size m p = ucast (load_le m p 4)"

definition load_ptr :: "memory \<Rightarrow> addr \<Rightarrow> addr" where
  "load_ptr m p = load_le m p 8"

definition load_bytes :: "memory \<Rightarrow> addr \<Rightarrow> nat \<Rightarrow> u8 list" where
  "load_bytes m p n = map (\<lambda>i. m (p + word_of_nat i)) [0 ..< n]"

section \<open>Field types\<close>

definition PB_LTYPE_BOOL :: pb_type_t where "PB_LTYPE_BOOL = 0x00"
definition PB_LTYPE_VARINT :: pb_type_t where "PB_LTYPE_VARINT = 0x01"
definition PB_LTYPE_UVARINT :: pb_type_t where "PB_LTYPE_UVARINT = 0x02"
definition PB_LTYPE_SVARINT :: pb_type_t where "PB_LTYPE_SVARINT = 0x03"
definition PB_LTYPE_FIXED32 :: pb_type_t where "PB_LTYPE_FIXED32 = 0x04"
definition PB_LTYPE_FIXED64 :: pb_type_t where "PB_LTYPE_FIXED64 = 0x05"
definition PB_LTYPE_LAST_PACKABLE :: pb_type_t where "PB_LTYPE_LAST_PACKABLE = 0x05"
definition PB_LTYPE_BYTES :: pb_type_t where "PB_LTYPE_BYTES = 0x06"
definition PB_LTYPE_STRING :: pb_type_t where "PB_LTYPE_STRING = 0x07"
definition PB_LTYPE_SUBMESSAGE :: pb_type_t where "PB_LTYPE_SUBMESSAGE = 0x08"
definition PB_LTYPE_EXTENSION :: pb_type_t where "PB_LTYPE_EXTENSION = 0x09"
definition PB_LTYPE_FIXED_LENGTH_BYTES :: pb_type_t where "PB_LTYPE_FIXED_LENGTH_BYTES = 0x0a"
definition PB_HTYPE_REQUIRED :: pb_type_t where "PB_HTYPE_REQUIRED = 0x00"
definition PB_HTYPE_OPTIONAL :: pb_type_t where "PB_HTYPE_OPTIONAL = 0x10"
definition PB_HTYPE_REPEATED :: pb_type_t where "PB_HTYPE_REPEATED = 0x20"
definition PB_HTYPE_ONEOF :: pb_type_t where "PB_HTYPE_ONEOF = 0x30"
definition PB_ATYPE_STATIC :: pb_type_t where "PB_ATYPE_STATIC = 0x00"
definition PB_ATYPE_POINTER :: pb_type_t where "PB_ATYPE_POINTER = 0x80"
definition PB_ATYPE_CALLBACK :: pb_type_t where "PB_ATYPE_CALLBACK = 0x40"

lemmas PB_TYPE_defs =
  PB_LTYPE_BOOL_def PB_LTYPE_VARINT_def PB_LTYPE_UVARINT_def PB_LTYPE_SVARINT_def PB_LTYPE_FIXED32_def
  PB_LTYPE_FIXED64_def PB_LTYPE_LAST_PACKABLE_def PB_LTYPE_BYTES_def PB_LTYPE_STRING_def PB_LTYPE_SUBMESSAGE_def
  PB_LTYPE_EXTENSION_def PB_LTYPE_FIXED_LENGTH_BYTES_def PB_HTYPE_REQUIRED_def PB_HTYPE_OPTIONAL_def
  PB_HTYPE_REPEATED_def PB_HTYPE_ONEOF_def PB_ATYPE_STATIC_def PB_ATYPE_POINTER_def PB_ATYPE_CALLBACK_def

definition PB_ATYPE :: "pb_type_t \<Rightarrow> pb_type_t" where "PB_ATYPE x = x AND 0xc0"
definition PB_HTYPE :: "pb_type_t \<Rightarrow> pb_type_t" where "PB_HTYPE x = x AND 0x30"
definition PB_LTYPE :: "pb_type_t \<Rightarrow> pb_type_t" where "PB_LTYPE x = x AND 0x0f"

definition PB_SIZE_MAX :: pb_size_t where "PB_SIZE_MAX = - 1"

text \<open>
  \<open>pb_field_s\<close>. \<open>size_offset\<close> is a signed number in two's complement; \<open>ptr\<close> is the
  address of the field array of a submessage or of a default value.
\<close>

record pb_field_t =
  tag :: pb_size_t
  type :: pb_type_t
  data_offset :: pb_size_t
  size_offset :: pb_size_t
  data_size :: pb_size_t
  array_size :: pb_size_t
  ptr :: addr

definition PB_LAST_FIELD :: pb_field_t where
  "PB_LAST_FIELD = \<lparr>tag = 0, type = 0, data_offset = 0, size_offset = 0, data_size = 0, array_size = 0, ptr = 0\<rparr>"

text \<open>
  A field array is the list of its entries before \<open>PB_LAST_FIELD\<close>, which every array ends with.
\<close>

type_synonym pb_fields = "pb_field_t list"

definition field_at :: "pb_fields \<Rightarrow> nat \<Rightarrow> pb_field_t" where
  "field_at fs i = (if i < length fs then fs ! i else PB_LAST_FIELD)"

text \<open>The address \<open>(char *)p + offset\<close> for a \<open>pb_ssize_t\<close>.\<close>

definition offset_ptr :: "addr \<Rightarrow> pb_size_t \<Rightarrow> addr" where
  "offset_ptr p d = p + scast d"

text \<open>The wire types.\<close>

type_synonym pb_wire_type_t = u32

definition PB_WT_VARINT :: pb_wire_type_t where "PB_WT_VARINT = 0"
definition PB_WT_64BIT :: pb_wire_type_t where "PB_WT_64BIT = 1"
definition PB_WT_STRING :: pb_wire_type_t where "PB_WT_STRING = 2"
definition PB_WT_32BIT :: pb_wire_type_t where "PB_WT_32BIT = 5"

lemmas PB_WT_defs = PB_WT_VARINT_def PB_WT_64BIT_def PB_WT_STRING_def PB_WT_32BIT_def

section \<open>The field iterator\<close>

text \<open>The position is the index of the entry in the array.\<close>

record pb_field_iter_t =
  start :: pb_fields
  pos :: nat
  required_field_index :: u32
  dest_struct :: addr
  pData :: addr
  pSize :: addr

definition cur_field :: "pb_field_iter_t \<Rightarrow> pb_field_t" where
  "cur_field iter = field_at (start iter) (pos iter)"

definition pb_field_iter_begin :: "pb_fields \<Rightarrow> addr \<Rightarrow> bool \<times> pb_field_iter_t" where
  "pb_field_iter_begin fs dest =
     (let f = field_at fs 0;
          pd = (if dest = 0 then 0 else dest + ucast (data_offset f))
      in (tag f \<noteq> 0,
          \<lparr>start = fs, pos = 0, required_field_index = 0, dest_struct = dest,
           pData = pd, pSize = (if dest = 0 then 0 else offset_ptr pd (size_offset f))\<rparr>))"

definition pb_field_iter_next :: "pb_field_iter_t \<Rightarrow> bool \<times> pb_field_iter_t" where
  "pb_field_iter_next iter =
     (let prev_field = cur_field iter in
      if tag prev_field = 0 then (False, iter)
      else
        let iter = iter\<lparr>pos := pos iter + 1\<rparr>; f = cur_field iter in
        if tag f = 0 then (False, snd (pb_field_iter_begin (start iter) (dest_struct iter)))
        else if PB_HTYPE (type prev_field) = PB_HTYPE_ONEOF \<and> PB_HTYPE (type f) = PB_HTYPE_ONEOF \<and>
           data_offset f = PB_SIZE_MAX then (True, iter)
        else
          let prev_size =
                (if PB_ATYPE (type prev_field) = PB_ATYPE_STATIC \<and> PB_HTYPE (type prev_field) = PB_HTYPE_REPEATED
                 then ucast (data_size prev_field) * ucast (array_size prev_field)
                 else if PB_ATYPE (type prev_field) = PB_ATYPE_POINTER then 8
                 else ucast (data_size prev_field)) :: size_t;
              req = (if PB_HTYPE (type prev_field) = PB_HTYPE_REQUIRED
                     then required_field_index iter + 1 else required_field_index iter);
              pd = pData iter + prev_size + ucast (data_offset f)
          in (True, iter\<lparr>required_field_index := req, pData := pd, pSize := offset_ptr pd (size_offset f)\<rparr>))"

lemma iter_next_measure:
  "fst (pb_field_iter_next iter) \<Longrightarrow>
     length (start (snd (pb_field_iter_next iter))) - pos (snd (pb_field_iter_next iter)) < length (start iter) - pos iter"
  by (auto simp: pb_field_iter_next_def cur_field_def field_at_def PB_LAST_FIELD_def Let_def split: if_splits)

text \<open>The loop of \<open>pb_field_iter_find\<close>; \<open>None\<close> stands for a loop that does not end.\<close>

partial_function (option) pb_field_iter_find_loop ::
  "nat \<Rightarrow> u32 \<Rightarrow> pb_field_iter_t \<Rightarrow> (bool \<times> pb_field_iter_t) option" where
  "pb_field_iter_find_loop first t iter =
     (if tag (cur_field iter) = t \<and> PB_LTYPE (type (cur_field iter)) \<noteq> PB_LTYPE_EXTENSION then Some (True, iter)
      else let iter = snd (pb_field_iter_next iter) in
           if pos iter \<noteq> first then pb_field_iter_find_loop first t iter else Some (False, iter))"

definition pb_field_iter_find :: "pb_field_iter_t \<Rightarrow> u32 \<Rightarrow> (bool \<times> pb_field_iter_t) option" where
  "pb_field_iter_find iter t = pb_field_iter_find_loop (pos iter) t iter"

section \<open>What the iterator visits\<close>

text \<open>The iterator after \<open>i\<close> advances from the beginning, in a message with no terminator inside.\<close>

primrec iter_at :: "pb_fields \<Rightarrow> addr \<Rightarrow> nat \<Rightarrow> pb_field_iter_t" where
  "iter_at fs dest 0 = snd (pb_field_iter_begin fs dest)"
| "iter_at fs dest (Suc i) = snd (pb_field_iter_next (iter_at fs dest i))"

definition pb_fields_ok :: "pb_fields \<Rightarrow> bool" where
  "pb_fields_ok fs \<longleftrightarrow> list_all (\<lambda>f. tag f \<noteq> 0) fs"

lemma field_at_tag: "pb_fields_ok fs \<Longrightarrow> tag (field_at fs i) \<noteq> 0 \<longleftrightarrow> i < length fs"
  by (auto simp: pb_fields_ok_def field_at_def PB_LAST_FIELD_def list_all_length)

lemma iter_begin_facts:
  "start (snd (pb_field_iter_begin fs dest)) = fs" "pos (snd (pb_field_iter_begin fs dest)) = 0"
  "dest_struct (snd (pb_field_iter_begin fs dest)) = dest"
  by (simp_all add: pb_field_iter_begin_def Let_def)

lemma iter_next_facts:
  "start (snd (pb_field_iter_next iter)) = start iter" "dest_struct (snd (pb_field_iter_next iter)) = dest_struct iter"
  "fst (pb_field_iter_next iter) \<longleftrightarrow> tag (cur_field iter) \<noteq> 0 \<and> tag (field_at (start iter) (Suc (pos iter))) \<noteq> 0"
  "fst (pb_field_iter_next iter) \<Longrightarrow> pos (snd (pb_field_iter_next iter)) = Suc (pos iter)"
  "\<not> fst (pb_field_iter_next iter) \<Longrightarrow> tag (cur_field iter) \<noteq> 0 \<Longrightarrow>
     snd (pb_field_iter_next iter) = snd (pb_field_iter_begin (start iter) (dest_struct iter))"
proof -
  show *: "fst (pb_field_iter_next iter) \<longleftrightarrow> tag (cur_field iter) \<noteq> 0 \<and> tag (field_at (start iter) (Suc (pos iter))) \<noteq> 0"
    by (simp add: pb_field_iter_next_def cur_field_def Let_def)
  show "start (snd (pb_field_iter_next iter)) = start iter" "dest_struct (snd (pb_field_iter_next iter)) = dest_struct iter"
    by (simp_all add: pb_field_iter_next_def cur_field_def Let_def iter_begin_facts)
  show "pos (snd (pb_field_iter_next iter)) = Suc (pos iter)" if "fst (pb_field_iter_next iter)"
    using that unfolding * by (simp add: pb_field_iter_next_def cur_field_def Let_def)
  show "snd (pb_field_iter_next iter) = snd (pb_field_iter_begin (start iter) (dest_struct iter))"
    if "\<not> fst (pb_field_iter_next iter)" "tag (cur_field iter) \<noteq> 0"
    using that unfolding * by (simp add: pb_field_iter_next_def cur_field_def Let_def)
qed

lemma iter_at_facts:
  assumes "pb_fields_ok fs"
  shows "i < length fs \<Longrightarrow> pos (iter_at fs dest i) = i" "start (iter_at fs dest i) = fs"
    "dest_struct (iter_at fs dest i) = dest"
proof -
  show s: "start (iter_at fs dest i) = fs" and "dest_struct (iter_at fs dest i) = dest" for i
    by (induction i) (simp_all add: iter_begin_facts iter_next_facts)
  show "i < length fs \<Longrightarrow> pos (iter_at fs dest i) = i"
    using assms by (induction i) (simp_all add: s iter_begin_facts iter_next_facts cur_field_def field_at_tag)
qed

lemma cur_field_at: "pb_fields_ok fs \<Longrightarrow> i < length fs \<Longrightarrow> cur_field (iter_at fs dest i) = fs ! i"
  by (simp add: cur_field_def iter_at_facts field_at_def)

text \<open>An advance goes to the next field, and from the last one back to the first.\<close>

lemma iter_next_at:
  assumes "pb_fields_ok fs" "i < length fs"
  shows "pb_field_iter_next (iter_at fs dest i) =
    (Suc i < length fs, iter_at fs dest (Suc i mod length fs))"
proof -
  let ?iter = "iter_at fs dest i"
  have f: "fst (pb_field_iter_next ?iter) \<longleftrightarrow> Suc i < length fs"
    using assms by (simp add: iter_next_facts cur_field_def iter_at_facts field_at_tag)
  have "snd (pb_field_iter_next ?iter) = iter_at fs dest (Suc i mod length fs)"
  proof (cases "Suc i < length fs")
    case False
    then have "Suc i mod length fs = 0" using assms by (simp add: le_Suc_eq not_less)
    moreover have "tag (cur_field ?iter) \<noteq> 0" using assms by (simp add: cur_field_def iter_at_facts field_at_tag)
    ultimately show ?thesis using f False assms by (simp add: iter_next_facts iter_at_facts)
  qed simp
  with f show ?thesis by (simp add: prod_eq_iff)
qed

definition field_matches :: "pb_fields \<Rightarrow> u32 \<Rightarrow> nat \<Rightarrow> bool" where
  "field_matches fs t i \<longleftrightarrow> tag (fs ! i) = t \<and> PB_LTYPE (type (fs ! i)) \<noteq> PB_LTYPE_EXTENSION"

text \<open>The fields from \<open>k\<close> on, around the end of the array, up to but not including \<open>i\<close>.\<close>

definition visit_order :: "nat \<Rightarrow> nat \<Rightarrow> nat \<Rightarrow> nat list" where
  "visit_order n i k = (if i \<le> k then [k ..< n] @ [0 ..< i] else [k ..< i])"

lemma visit_order_step:
  assumes "k < n" "i < n"
  shows "visit_order n i k = k # (if Suc k mod n = i then [] else visit_order n i (Suc k mod n))"
  using assms by (cases "Suc k = n") (auto simp: visit_order_def upt_conv_Cons)

lemma find_loop_at:
  assumes "pb_fields_ok fs" "i < length fs" "k < length fs"
  shows "pb_field_iter_find_loop i t (iter_at fs dest k) =
    Some (case find (field_matches fs t) (visit_order (length fs) i k) of
            Some j \<Rightarrow> (True, iter_at fs dest j) | None \<Rightarrow> (False, iter_at fs dest i))"
  using assms(3)
proof (induction "length (visit_order (length fs) i k)" arbitrary: k rule: less_induct)
  case less
  let ?n = "length fs"
  let ?k = "Suc k mod ?n"
  have k: "?k < ?n" using less.prems by (intro mod_less_divisor) auto
  have step: "pb_field_iter_find_loop i t (iter_at fs dest k) =
      (if field_matches fs t k then Some (True, iter_at fs dest k)
       else if ?k \<noteq> i then pb_field_iter_find_loop i t (iter_at fs dest ?k) else Some (False, iter_at fs dest ?k))"
    using assms(1) less.prems k
    by (subst pb_field_iter_find_loop.simps) (simp add: cur_field_at iter_next_at iter_at_facts field_matches_def)
  have order: "visit_order ?n i k = k # (if ?k = i then [] else visit_order ?n i ?k)"
    by (rule visit_order_step [OF less.prems assms(2)])
  show ?case
  proof (cases "?k = i")
    case True
    with order step show ?thesis by simp
  next
    case False
    with order have "length (visit_order ?n i ?k) < length (visit_order ?n i k)" by simp
    from less.hyps [OF this k] False order step show ?thesis by simp
  qed
qed

lemma pb_field_iter_find_at:
  assumes "pb_fields_ok fs" "i < length fs"
  shows "pb_field_iter_find (iter_at fs dest i) t =
    Some (case find (field_matches fs t) ([i ..< length fs] @ [0 ..< i]) of
            Some j \<Rightarrow> (True, iter_at fs dest j) | None \<Rightarrow> (False, iter_at fs dest i))"
  using find_loop_at [OF assms assms(2)] assms
  by (simp add: pb_field_iter_find_def iter_at_facts visit_order_def)

end
