(* ===== verification/Pb_Encode.thy ===== *)
theory Pb_Encode
  imports Pb
begin

text \<open>
  nanopb, pb_encode.c: output streams, the wire format of scalars, and the encoding of a message
  from the memory its field array describes. A function that takes a stream returns its bool with
  the stream it leaves, on failure as well. The functions that reach \<open>pb_encode\<close> again through a
  submessage take it as the argument \<open>encode\<close>, and return \<open>None\<close> where the code does not
  return or calls a null pointer.
\<close>

section \<open>Output streams\<close>

text \<open>
  \<open>pb_ostream_s\<close>. A callback gets the state and the bytes, and returns its bool with the new
  state; a null callback makes the stream one that only counts.
\<close>

record 's pb_ostream_t =
  callback :: "('s option \<Rightarrow> u8 list \<Rightarrow> bool \<times> 's option) option"
  state :: "'s option"
  max_size :: size_t
  bytes_written :: size_t
  errmsg :: "string option"

type_synonym 's written = "bool \<times> 's pb_ostream_t"

definition PB_OSTREAM_SIZING :: "'s pb_ostream_t" where
  "PB_OSTREAM_SIZING = \<lparr>callback = None, state = None, max_size = 0, bytes_written = 0, errmsg = None\<rparr>"

definition PB_RETURN_ERROR :: "'s pb_ostream_t \<Rightarrow> string \<Rightarrow> 's written" where
  "PB_RETURN_ERROR stream msg = (False, stream\<lparr>errmsg := (if errmsg stream = None then Some msg else errmsg stream)\<rparr>)"

text \<open>\<open>if (!first) return false; rest\<close>\<close>

definition pb_then :: "'s written \<Rightarrow> ('s pb_ostream_t \<Rightarrow> 's written) \<Rightarrow> 's written" where
  "pb_then r k = (if fst r then k (snd r) else r)"

definition pb_then_opt ::
  "'s written option \<Rightarrow> ('s pb_ostream_t \<Rightarrow> 's written option) \<Rightarrow> 's written option" where
  "pb_then_opt r k = (case r of None \<Rightarrow> None | Some w \<Rightarrow> if fst w then k (snd w) else Some w)"

text \<open>The object \<open>buf_write\<close> writes to: an array, and the index \<open>state\<close> points at.\<close>

record out_buffer =
  contents :: "u8 list"
  write_pos :: nat

definition buf_write :: "out_buffer option \<Rightarrow> u8 list \<Rightarrow> bool \<times> out_buffer option" where
  "buf_write st buf =
     (case st of
        None \<Rightarrow> (True, None)
      | Some b \<Rightarrow>
          (True, Some \<lparr>contents = take (write_pos b) (contents b) @ buf @ drop (write_pos b + length buf) (contents b),
                       write_pos = write_pos b + length buf\<rparr>))"

definition pb_ostream_from_buffer :: "u8 list \<Rightarrow> size_t \<Rightarrow> out_buffer pb_ostream_t" where
  "pb_ostream_from_buffer buf bufsize =
     \<lparr>callback = Some buf_write, state = Some \<lparr>contents = buf, write_pos = 0\<rparr>, max_size = bufsize,
      bytes_written = 0, errmsg = None\<rparr>"

definition pb_write :: "'s pb_ostream_t \<Rightarrow> u8 list \<Rightarrow> size_t \<Rightarrow> 's written" where
  "pb_write stream buf count =
     (case callback stream of
        Some cb \<Rightarrow>
          if count > 0 then
            if bytes_written stream + count < bytes_written stream \<or> bytes_written stream + count > max_size stream
            then PB_RETURN_ERROR stream ''stream full''
            else (case cb (state stream) (take (unat count) buf) of
                    (ok, st) \<Rightarrow>
                      let stream = stream\<lparr>state := st\<rparr> in
                      if \<not> ok then PB_RETURN_ERROR stream ''io error''
                      else (True, stream\<lparr>bytes_written := bytes_written stream + count\<rparr>))
          else (True, stream\<lparr>bytes_written := bytes_written stream + count\<rparr>)
      | None \<Rightarrow> (True, stream\<lparr>bytes_written := bytes_written stream + count\<rparr>))"

section \<open>Scalars on the wire\<close>

text \<open>The loop that fills \<open>buffer\<close> in \<open>pb_encode_varint\<close>.\<close>

function varint_loop :: "u64 \<Rightarrow> u8 list" where
  "varint_loop v = (if v = 0 then [] else (ucast (v AND 0x7f) OR 0x80) # varint_loop (drop_bit 7 v))"
  by pat_completeness auto
termination
proof (relation "measure unat")
  fix v :: u64
  assume "v \<noteq> 0"
  then have "0 < unat v" by (simp add: unat_gt_0)
  then show "(drop_bit 7 v, v) \<in> measure unat" by (simp add: unat_drop_bit_div)
qed simp

declare varint_loop.simps [simp del]

definition pb_encode_varint :: "'s pb_ostream_t \<Rightarrow> u64 \<Rightarrow> 's written" where
  "pb_encode_varint stream v =
     (if v \<le> 0x7f then pb_write stream [ucast v] 1
      else let buffer = varint_loop v; i = length buffer
           in pb_write stream (buffer[i - 1 := buffer ! (i - 1) AND 0x7f]) (word_of_nat i))"

text \<open>A \<open>pb_int64_t\<close> is a 64-bit word in two's complement.\<close>

definition pb_encode_svarint :: "'s pb_ostream_t \<Rightarrow> u64 \<Rightarrow> 's written" where
  "pb_encode_svarint stream v =
     pb_encode_varint stream (if sint v < 0 then NOT (push_bit 1 v) else push_bit 1 v)"

definition pb_encode_fixed32 :: "'s pb_ostream_t \<Rightarrow> u32 \<Rightarrow> 's written" where
  "pb_encode_fixed32 stream val =
     pb_write stream [ucast (val AND 0xff), ucast (drop_bit 8 val AND 0xff), ucast (drop_bit 16 val AND 0xff),
       ucast (drop_bit 24 val AND 0xff)] 4"

definition pb_encode_fixed64 :: "'s pb_ostream_t \<Rightarrow> u64 \<Rightarrow> 's written" where
  "pb_encode_fixed64 stream val =
     pb_write stream [ucast (val AND 0xff), ucast (drop_bit 8 val AND 0xff), ucast (drop_bit 16 val AND 0xff),
       ucast (drop_bit 24 val AND 0xff), ucast (drop_bit 32 val AND 0xff), ucast (drop_bit 40 val AND 0xff),
       ucast (drop_bit 48 val AND 0xff), ucast (drop_bit 56 val AND 0xff)] 8"

definition pb_encode_tag :: "'s pb_ostream_t \<Rightarrow> pb_wire_type_t \<Rightarrow> u32 \<Rightarrow> 's written" where
  "pb_encode_tag stream wiretype field_number =
     pb_encode_varint stream (push_bit 3 (ucast field_number) OR ucast wiretype)"

definition pb_encode_tag_for_field :: "'s pb_ostream_t \<Rightarrow> pb_field_t \<Rightarrow> 's written" where
  "pb_encode_tag_for_field stream field =
     (let ltype = PB_LTYPE (type field) in
      if ltype \<in> {PB_LTYPE_BOOL, PB_LTYPE_VARINT, PB_LTYPE_UVARINT, PB_LTYPE_SVARINT}
      then pb_encode_tag stream PB_WT_VARINT (tag field)
      else if ltype = PB_LTYPE_FIXED32 then pb_encode_tag stream PB_WT_32BIT (tag field)
      else if ltype = PB_LTYPE_FIXED64 then pb_encode_tag stream PB_WT_64BIT (tag field)
      else if ltype \<in> {PB_LTYPE_BYTES, PB_LTYPE_STRING, PB_LTYPE_SUBMESSAGE, PB_LTYPE_FIXED_LENGTH_BYTES}
      then pb_encode_tag stream PB_WT_STRING (tag field)
      else PB_RETURN_ERROR stream ''invalid field type'')"

definition pb_encode_string :: "'s pb_ostream_t \<Rightarrow> u8 list \<Rightarrow> size_t \<Rightarrow> 's written" where
  "pb_encode_string stream buffer n =
     pb_then (pb_encode_varint stream n) (\<lambda>stream. pb_write stream buffer n)"

section \<open>The surroundings of an encoder\<close>

text \<open>
  The memory, the field arrays at their addresses, the user's functions at theirs, and the bytes
  that lie behind a local bool, which no field array in use makes the encoder read.
\<close>

record 's pb_env =
  mem :: memory
  fields_at :: "addr \<Rightarrow> pb_fields"
  user_encode :: "addr \<Rightarrow> 's pb_ostream_t \<Rightarrow> pb_field_t \<Rightarrow> addr \<Rightarrow> 's written option"
  extension_encode :: "addr \<Rightarrow> 's pb_ostream_t \<Rightarrow> addr \<Rightarrow> 's written option"
  indeterminate :: pb_size_t

type_synonym 's encoder = "'s pb_ostream_t \<Rightarrow> pb_fields \<Rightarrow> addr \<Rightarrow> 's written option"
type_synonym 's field_encoder = "'s pb_ostream_t \<Rightarrow> pb_field_t \<Rightarrow> addr \<Rightarrow> 's written option"

definition safe_read_bool :: "memory \<Rightarrow> addr \<Rightarrow> bool" where
  "safe_read_bool m p \<longleftrightarrow> m p \<noteq> 0"

section \<open>Field encoders\<close>

definition pb_enc_bool :: "'s pb_env \<Rightarrow> 's field_encoder" where
  "pb_enc_bool env stream field src =
     Some (pb_encode_varint stream (if safe_read_bool (mem env) src then 1 else 0))"

text \<open>The signed integer of \<open>data_size\<close> bytes at \<open>src\<close>, or the error.\<close>

definition load_signed :: "'s pb_env \<Rightarrow> pb_field_t \<Rightarrow> addr \<Rightarrow> u64 option" where
  "load_signed env field src =
     (if data_size field = 1 then Some (scast (ucast (load_le (mem env) src 1) :: u8))
      else if data_size field = 2 then Some (scast (ucast (load_le (mem env) src 2) :: u16))
      else if data_size field = 4 then Some (scast (ucast (load_le (mem env) src 4) :: u32))
      else if data_size field = 8 then Some (load_le (mem env) src 8)
      else None)"

definition pb_enc_varint :: "'s pb_env \<Rightarrow> 's field_encoder" where
  "pb_enc_varint env stream field src =
     (case load_signed env field src of
        None \<Rightarrow> Some (PB_RETURN_ERROR stream ''invalid data_size'')
      | Some v \<Rightarrow> Some (pb_encode_varint stream v))"

definition pb_enc_uvarint :: "'s pb_env \<Rightarrow> 's field_encoder" where
  "pb_enc_uvarint env stream field src =
     (if data_size field = 1 then Some (pb_encode_varint stream (load_le (mem env) src 1))
      else if data_size field = 2 then Some (pb_encode_varint stream (load_le (mem env) src 2))
      else if data_size field = 4 then Some (pb_encode_varint stream (load_le (mem env) src 4))
      else if data_size field = 8 then Some (pb_encode_varint stream (load_le (mem env) src 8))
      else Some (PB_RETURN_ERROR stream ''invalid data_size''))"

definition pb_enc_svarint :: "'s pb_env \<Rightarrow> 's field_encoder" where
  "pb_enc_svarint env stream field src =
     (case load_signed env field src of
        None \<Rightarrow> Some (PB_RETURN_ERROR stream ''invalid data_size'')
      | Some v \<Rightarrow> Some (pb_encode_svarint stream v))"

definition pb_enc_fixed64 :: "'s pb_env \<Rightarrow> 's field_encoder" where
  "pb_enc_fixed64 env stream field src = Some (pb_encode_fixed64 stream (load_le (mem env) src 8))"

definition pb_enc_fixed32 :: "'s pb_env \<Rightarrow> 's field_encoder" where
  "pb_enc_fixed32 env stream field src = Some (pb_encode_fixed32 stream (ucast (load_le (mem env) src 4)))"

text \<open>\<open>pb_bytes_array_t\<close>: the size, and the bytes from offset 4 on.\<close>

definition pb_enc_bytes :: "'s pb_env \<Rightarrow> 's field_encoder" where
  "pb_enc_bytes env stream field src =
     (if src = 0 then Some (pb_encode_string stream [] 0)
      else
        let n = load_size (mem env) src in
        if PB_ATYPE (type field) = PB_ATYPE_STATIC \<and> (ucast n :: size_t) > ucast (data_size field) - 4
        then Some (PB_RETURN_ERROR stream ''bytes size exceeded'')
        else Some (pb_encode_string stream (load_bytes (mem env) (src + 4) (unat n)) (ucast n)))"

text \<open>The loop of \<open>pb_enc_string\<close> over the characters.\<close>

function string_size :: "memory \<Rightarrow> addr \<Rightarrow> size_t \<Rightarrow> size_t \<Rightarrow> size_t" where
  "string_size m p n limit = (if n < limit \<and> m p \<noteq> 0 then string_size m (p + 1) (n + 1) limit else n)"
  by pat_completeness auto
termination
proof (relation "measure (\<lambda>(m, p, n, limit). unat limit - unat n)")
  fix m :: memory and p :: addr and n limit :: size_t
  assume "n < limit \<and> m p \<noteq> 0"
  then have lt: "unat n < unat limit" by (simp add: word_less_nat_alt)
  then have "Suc (unat n) < 18446744073709551616" using unat_u64_less [of limit] by linarith
  then have "unat (n + 1) = unat n + 1" by (simp add: unat_word_ariths)
  with lt show "((m, p + 1, n + 1, limit), m, p, n, limit) \<in> measure (\<lambda>(m, p, n, limit). unat limit - unat n)" by simp
qed simp

declare string_size.simps [simp del]

definition pb_enc_string :: "'s pb_env \<Rightarrow> 's field_encoder" where
  "pb_enc_string env stream field src =
     (let limit = (if PB_ATYPE (type field) = PB_ATYPE_POINTER then - 1 else ucast (data_size field));
          n = (if src = 0 then 0 else string_size (mem env) src 0 limit)
      in Some (pb_encode_string stream (load_bytes (mem env) src (unat n)) n))"

definition pb_encode_submessage :: "'s encoder \<Rightarrow> 's encoder" where
  "pb_encode_submessage encode stream fs src =
     (case encode PB_OSTREAM_SIZING fs src of
        None \<Rightarrow> None
      | Some (ok, substream) \<Rightarrow>
          if \<not> ok then Some (False, stream\<lparr>errmsg := errmsg substream\<rparr>)
          else
            let n = bytes_written substream in
            pb_then_opt (Some (pb_encode_varint stream n)) (\<lambda>stream.
              if callback stream = None then Some (pb_write stream [] n)
              else if bytes_written stream + n > max_size stream then Some (PB_RETURN_ERROR stream ''stream full'')
              else
                (case encode \<lparr>callback = callback stream, state = state stream, max_size = n, bytes_written = 0,
                              errmsg = None\<rparr> fs src of
                   None \<Rightarrow> None
                 | Some (status, substream) \<Rightarrow>
                     let stream = stream\<lparr>bytes_written := bytes_written stream + bytes_written substream,
                                    state := state substream, errmsg := errmsg substream\<rparr> in
                     if bytes_written substream \<noteq> n then Some (PB_RETURN_ERROR stream ''submsg size changed'')
                     else Some (status, stream))))"

definition pb_enc_submessage :: "'s pb_env \<Rightarrow> 's encoder \<Rightarrow> 's field_encoder" where
  "pb_enc_submessage env encode stream field src =
     (if ptr field = 0 then Some (PB_RETURN_ERROR stream ''invalid field descriptor'')
      else pb_encode_submessage encode stream (fields_at env (ptr field)) src)"

definition pb_enc_fixed_length_bytes :: "'s pb_env \<Rightarrow> 's field_encoder" where
  "pb_enc_fixed_length_bytes env stream field src =
     Some (pb_encode_string stream (load_bytes (mem env) src (unat (data_size field))) (ucast (data_size field)))"

text \<open>The table; a call through its null entry or past its end has no result.\<close>

definition PB_ENCODERS :: "'s pb_env \<Rightarrow> 's encoder \<Rightarrow> pb_type_t \<Rightarrow> 's field_encoder" where
  "PB_ENCODERS env encode ltype =
     (if ltype = PB_LTYPE_BOOL then pb_enc_bool env
      else if ltype = PB_LTYPE_VARINT then pb_enc_varint env
      else if ltype = PB_LTYPE_UVARINT then pb_enc_uvarint env
      else if ltype = PB_LTYPE_SVARINT then pb_enc_svarint env
      else if ltype = PB_LTYPE_FIXED32 then pb_enc_fixed32 env
      else if ltype = PB_LTYPE_FIXED64 then pb_enc_fixed64 env
      else if ltype = PB_LTYPE_BYTES then pb_enc_bytes env
      else if ltype = PB_LTYPE_STRING then pb_enc_string env
      else if ltype = PB_LTYPE_SUBMESSAGE then pb_enc_submessage env encode
      else if ltype = PB_LTYPE_FIXED_LENGTH_BYTES then pb_enc_fixed_length_bytes env
      else (\<lambda>stream field src. None))"

section \<open>Arrays and fields\<close>

text \<open>The loops of \<open>encode_array\<close>: over packed entries, and over entries with a tag each.\<close>

primrec packed_loop :: "'s field_encoder \<Rightarrow> pb_field_t \<Rightarrow> nat \<Rightarrow> addr \<Rightarrow> 's pb_ostream_t \<Rightarrow> 's written option" where
  "packed_loop func field 0 p stream = Some (True, stream)"
| "packed_loop func field (Suc i) p stream =
     pb_then_opt (func stream field p) (packed_loop func field i (p + ucast (data_size field)))"

primrec tagged_loop :: "'s pb_env \<Rightarrow> 's field_encoder \<Rightarrow> pb_field_t \<Rightarrow> nat \<Rightarrow> addr \<Rightarrow> 's pb_ostream_t \<Rightarrow> 's written option" where
  "tagged_loop env func field 0 p stream = Some (True, stream)"
| "tagged_loop env func field (Suc i) p stream =
     pb_then_opt (Some (pb_encode_tag_for_field stream field)) (\<lambda>stream.
     pb_then_opt
       (if PB_ATYPE (type field) = PB_ATYPE_POINTER \<and>
           (PB_LTYPE (type field) = PB_LTYPE_STRING \<or> PB_LTYPE (type field) = PB_LTYPE_BYTES)
        then func stream field (load_ptr (mem env) p)
        else func stream field p)
       (tagged_loop env func field i (p + ucast (data_size field))))"

definition encode_array ::
  "'s pb_env \<Rightarrow> 's pb_ostream_t \<Rightarrow> pb_field_t \<Rightarrow> addr \<Rightarrow> size_t \<Rightarrow> 's field_encoder \<Rightarrow> 's written option" where
  "encode_array env stream field pd count func =
     (let ltype = PB_LTYPE (type field) in
      if count = 0 then Some (True, stream)
      else if PB_ATYPE (type field) \<noteq> PB_ATYPE_POINTER \<and> count > ucast (array_size field)
      then Some (PB_RETURN_ERROR stream ''array max size exceeded'')
      else if ltype \<le> PB_LTYPE_LAST_PACKABLE then
        pb_then_opt (Some (pb_encode_tag stream PB_WT_STRING (tag field))) (\<lambda>stream.
          let sized = (if ltype = PB_LTYPE_FIXED32 then Some (True, PB_OSTREAM_SIZING\<lparr>bytes_written := 4 * count\<rparr>)
                       else if ltype = PB_LTYPE_FIXED64 then Some (True, PB_OSTREAM_SIZING\<lparr>bytes_written := 8 * count\<rparr>)
                       else packed_loop func field (unat count) pd PB_OSTREAM_SIZING)
          in case sized of
               None \<Rightarrow> None
             | Some (ok, sizestream) \<Rightarrow>
                 if \<not> ok then Some (False, stream)
                 else
                   let n = bytes_written sizestream in
                   pb_then_opt (Some (pb_encode_varint stream n)) (\<lambda>stream.
                     if callback stream = None then Some (pb_write stream [] n)
                     else packed_loop func field (unat count) pd stream))
      else tagged_loop env func field (unat count) pd stream)"

text \<open>
  \<open>pb_check_proto3_default_value\<close>, with \<open>check\<close> for its call on the fields of a static
  submessage; \<open>fields_default_loop\<close> is the loop over them.
\<close>

function fields_default_loop ::
  "(pb_field_t \<Rightarrow> addr \<Rightarrow> bool option) \<Rightarrow> pb_field_iter_t \<Rightarrow> bool option" where
  "fields_default_loop check iter =
     (case check (cur_field iter) (pData iter) of
        None \<Rightarrow> None
      | Some False \<Rightarrow> Some False
      | Some True \<Rightarrow> if fst (pb_field_iter_next iter) then fields_default_loop check (snd (pb_field_iter_next iter))
                     else Some True)"
  by pat_completeness auto
termination
  by (relation "measure (\<lambda>(check, iter). length (start iter) - pos iter)")
    (auto simp: iter_next_measure)

declare fields_default_loop.simps [simp del]

definition check_default_body ::
  "(pb_field_t \<Rightarrow> addr \<Rightarrow> bool option) \<Rightarrow> 's pb_env \<Rightarrow> pb_field_t \<Rightarrow> addr \<Rightarrow> bool option" where
  "check_default_body check env field pd =
     (let htype = PB_HTYPE (type field); atype = PB_ATYPE (type field); ltype = PB_LTYPE (type field);
          ps = offset_ptr pd (size_offset field);
          catch_all = list_all (\<lambda>b. b = 0) (load_bytes (mem env) pd (unat (data_size field)))
      in if htype = PB_HTYPE_REQUIRED then Some False
         else if htype = PB_HTYPE_REPEATED \<and> size_offset field \<noteq> 0 then Some (load_size (mem env) ps = 0)
         else if htype = PB_HTYPE_REPEATED \<and> atype = PB_ATYPE_STATIC then Some False
         else if htype = PB_HTYPE_ONEOF then Some (load_size (mem env) ps = 0)
         else if htype = PB_HTYPE_OPTIONAL \<and> size_offset field \<noteq> 0 then Some (\<not> safe_read_bool (mem env) ps)
         else if atype = PB_ATYPE_STATIC \<and> ltype = PB_LTYPE_BYTES then Some (load_size (mem env) pd = 0)
         else if atype = PB_ATYPE_STATIC \<and> ltype = PB_LTYPE_STRING then Some (mem env pd = 0)
         else if atype = PB_ATYPE_STATIC \<and> ltype = PB_LTYPE_FIXED_LENGTH_BYTES then Some (data_size field = 0)
         else if atype = PB_ATYPE_STATIC \<and> ltype = PB_LTYPE_SUBMESSAGE then
           (if ptr field = 0 then None
            else case pb_field_iter_begin (fields_at env (ptr field)) pd of
              (some_field, iter) \<Rightarrow> if some_field then fields_default_loop check iter else Some True)
         else if atype = PB_ATYPE_POINTER \<and> ltype > PB_LTYPE_LAST_PACKABLE then Some (load_ptr (mem env) pd = 0)
         else Some catch_all)"

text \<open>The depth bounds how far submessages nest in each other.\<close>

primrec pb_check_proto3_default_value :: "nat \<Rightarrow> 's pb_env \<Rightarrow> pb_field_t \<Rightarrow> addr \<Rightarrow> bool option" where
  "pb_check_proto3_default_value 0 env field pd = None"
| "pb_check_proto3_default_value (Suc depth) env field pd =
     check_default_body (\<lambda>field pd. pb_check_proto3_default_value depth env field pd) env field pd"

text \<open>
  \<open>encode_basic_field\<close>. \<open>pSize\<close> is an address in the message, or \<open>None\<close> for that of the
  local \<open>implicit_has\<close>.
\<close>

definition encode_basic_field :: "nat \<Rightarrow> 's pb_env \<Rightarrow> 's encoder \<Rightarrow> 's field_encoder" where
  "encode_basic_field depth env encode stream field pd =
     (let func = PB_ENCODERS env encode (PB_LTYPE (type field));
          htype = PB_HTYPE (type field);
          ps = (if size_offset field \<noteq> 0 then Some (offset_ptr pd (size_offset field)) else None);
          default = (if size_offset field = 0 \<and> htype = PB_HTYPE_OPTIONAL
                     then pb_check_proto3_default_value depth env field pd else Some False)
      in case default of
           None \<Rightarrow> None
         | Some is_default \<Rightarrow>
             let is_pointer = (PB_ATYPE (type field) = PB_ATYPE_POINTER);
                 pd = (if is_pointer then load_ptr (mem env) pd else pd);
                 implicit_has = (if is_pointer then pd \<noteq> 0 else \<not> is_default);
                 encode_one = pb_then_opt (Some (pb_encode_tag_for_field stream field)) (\<lambda>stream. func stream field pd)
             in if htype = PB_HTYPE_REQUIRED then
                  if pd = 0 then Some (PB_RETURN_ERROR stream ''missing required field'') else encode_one
                else if htype = PB_HTYPE_OPTIONAL then
                  if (case ps of Some p \<Rightarrow> safe_read_bool (mem env) p | None \<Rightarrow> implicit_has)
                  then encode_one else Some (True, stream)
                else if htype = PB_HTYPE_REPEATED then
                  encode_array env stream field pd
                    (ucast (case ps of Some p \<Rightarrow> load_size (mem env) p | None \<Rightarrow> array_size field)) func
                else if (case ps of Some p \<Rightarrow> load_size (mem env) p | None \<Rightarrow> indeterminate env) = tag field
                then encode_one else Some (True, stream))"

text \<open>\<open>pb_callback_t\<close>: the function at offset 0, \<open>arg\<close> at offset 8.\<close>

definition encode_callback_field :: "'s pb_env \<Rightarrow> 's field_encoder" where
  "encode_callback_field env stream field pd =
     (if load_ptr (mem env) pd \<noteq> 0 then
        (case user_encode env (load_ptr (mem env) pd) stream field (pd + 8) of
           None \<Rightarrow> None
         | Some (ok, stream) \<Rightarrow> if \<not> ok then Some (PB_RETURN_ERROR stream ''callback error'') else Some (True, stream))
      else Some (True, stream))"

definition encode_field :: "nat \<Rightarrow> 's pb_env \<Rightarrow> 's encoder \<Rightarrow> 's field_encoder" where
  "encode_field depth env encode stream field pd =
     (let atype = PB_ATYPE (type field) in
      if atype = PB_ATYPE_STATIC \<or> atype = PB_ATYPE_POINTER then encode_basic_field depth env encode stream field pd
      else if atype = PB_ATYPE_CALLBACK then encode_callback_field env stream field pd
      else Some (PB_RETURN_ERROR stream ''invalid field type''))"

text \<open>
  \<open>pb_extension_t\<close>: \<open>type\<close> at offset 0, \<open>dest\<close> at 8, \<open>next\<close> at 16;
  \<open>pb_extension_type_t\<close>: \<open>encode\<close> at offset 8, \<open>arg\<close> at 16. The descriptor at \<open>arg\<close> is the
  first entry of the array there.
\<close>

definition default_extension_encoder :: "nat \<Rightarrow> 's pb_env \<Rightarrow> 's encoder \<Rightarrow> 's pb_ostream_t \<Rightarrow> addr \<Rightarrow> 's written option" where
  "default_extension_encoder depth env encode stream extension =
     (let field = field_at (fields_at env (load_ptr (mem env) (load_ptr (mem env) extension + 16))) 0 in
      if PB_ATYPE (type field) = PB_ATYPE_POINTER then encode_field depth env encode stream field (extension + 8)
      else encode_field depth env encode stream field (load_ptr (mem env) (extension + 8)))"

partial_function (option) encode_extension_loop ::
  "nat \<Rightarrow> 's pb_env \<Rightarrow> 's encoder \<Rightarrow> 's pb_ostream_t \<Rightarrow> addr \<Rightarrow> 's written option" where
  "encode_extension_loop depth env encode stream extension =
     (if extension = 0 then Some (True, stream)
      else
        let enc = load_ptr (mem env) (load_ptr (mem env) extension + 8) in
        case (if enc \<noteq> 0 then extension_encode env enc stream extension
              else default_extension_encoder depth env encode stream extension) of
          None \<Rightarrow> None
        | Some (status, stream) \<Rightarrow>
            if \<not> status then Some (False, stream)
            else encode_extension_loop depth env encode stream (load_ptr (mem env) (extension + 16)))"

definition encode_extension_field :: "nat \<Rightarrow> 's pb_env \<Rightarrow> 's encoder \<Rightarrow> 's field_encoder" where
  "encode_extension_field depth env encode stream field pd =
     encode_extension_loop depth env encode stream (load_ptr (mem env) pd)"

section \<open>Messages\<close>

text \<open>The loop of \<open>pb_encode\<close> over the fields.\<close>

definition encode_one_field :: "nat \<Rightarrow> 's pb_env \<Rightarrow> 's encoder \<Rightarrow> 's pb_ostream_t \<Rightarrow> pb_field_iter_t \<Rightarrow> 's written option" where
  "encode_one_field depth env encode stream iter =
     (if PB_LTYPE (type (cur_field iter)) = PB_LTYPE_EXTENSION
      then encode_extension_field depth env encode stream (cur_field iter) (pData iter)
      else encode_field depth env encode stream (cur_field iter) (pData iter))"

function encode_fields_loop :: "nat \<Rightarrow> 's pb_env \<Rightarrow> 's encoder \<Rightarrow> 's pb_ostream_t \<Rightarrow> pb_field_iter_t \<Rightarrow> 's written option" where
  "encode_fields_loop depth env encode stream iter =
     (case encode_one_field depth env encode stream iter of
        None \<Rightarrow> None
      | Some (ok, stream) \<Rightarrow>
          if \<not> ok then Some (False, stream)
          else if fst (pb_field_iter_next iter)
          then encode_fields_loop depth env encode stream (snd (pb_field_iter_next iter))
          else Some (True, stream))"
  by pat_completeness auto
termination
  by (relation "measure (\<lambda>(depth, env, encode, stream, iter). length (start iter) - pos iter)")
    (auto simp: iter_next_measure)

declare encode_fields_loop.simps [simp del]

text \<open>
  \<open>pb_encode\<close>. The depth bounds how far submessages nest; the result is \<open>None\<close> when it is too
  small.
\<close>

primrec pb_encode :: "nat \<Rightarrow> 's pb_env \<Rightarrow> 's encoder" where
  "pb_encode 0 env stream fs src = None"
| "pb_encode (Suc depth) env stream fs src =
     (case pb_field_iter_begin fs src of
        (some_field, iter) \<Rightarrow>
          if \<not> some_field then Some (True, stream)
          else encode_fields_loop depth env (\<lambda>stream fs src. pb_encode depth env stream fs src) stream iter)"

definition pb_encode_delimited :: "nat \<Rightarrow> 's pb_env \<Rightarrow> 's encoder" where
  "pb_encode_delimited depth env stream fs src = pb_encode_submessage (pb_encode depth env) stream fs src"

definition pb_encode_nullterminated :: "nat \<Rightarrow> 's pb_env \<Rightarrow> 's encoder" where
  "pb_encode_nullterminated depth env stream fs src =
     pb_then_opt (pb_encode depth env stream fs src) (\<lambda>stream. Some (pb_write stream [0] 1))"

definition pb_get_encoded_size :: "nat \<Rightarrow> 's pb_env \<Rightarrow> pb_fields \<Rightarrow> addr \<Rightarrow> size_t option option" where
  "pb_get_encoded_size depth env fs src =
     (case pb_encode depth env PB_OSTREAM_SIZING fs src of
        None \<Rightarrow> None
      | Some (ok, stream) \<Rightarrow> Some (if ok then Some (bytes_written stream) else None))"

end
