(* ===== verification/Pb_Emit.thy ===== *)
theory Pb_Emit
  imports Pb_Encode
begin

text \<open>
  What it means for an encoder to emit a byte string: on a sizing stream it counts the bytes, on a
  buffer it appends them if they fit and fails without touching anything else if they do not.
\<close>

section \<open>Streams on a buffer\<close>

definition room :: "'s pb_ostream_t \<Rightarrow> nat" where
  "room s = unat (max_size s) - unat (bytes_written s)"

text \<open>A stream on a buffer that is at least as long as the stream allows, with no error so far.\<close>

definition buf_ok :: "out_buffer pb_ostream_t \<Rightarrow> bool" where
  "buf_ok s \<longleftrightarrow> callback s = Some buf_write \<and> errmsg s = None \<and> bytes_written s \<le> max_size s \<and>
     unat (max_size s) < 2 ^ 63 \<and>
     (\<exists>b. state s = Some b \<and> write_pos b + room s \<le> length (contents b))"

definition put :: "out_buffer pb_ostream_t \<Rightarrow> u8 list \<Rightarrow> out_buffer pb_ostream_t" where
  "put s bs = s\<lparr>state := snd (buf_write (state s) bs), bytes_written := bytes_written s + word_of_nat (length bs)\<rparr>"

text \<open>Outside the part of the buffer that the stream may write, nothing has changed.\<close>

definition stays :: "out_buffer pb_ostream_t \<Rightarrow> out_buffer pb_ostream_t \<Rightarrow> bool" where
  "stays s s' \<longleftrightarrow> (\<exists>b b'. state s = Some b \<and> state s' = Some b' \<and> length (contents b') = length (contents b) \<and>
     take (write_pos b) (contents b') = take (write_pos b) (contents b) \<and>
     drop (write_pos b + room s) (contents b') = drop (write_pos b + room s) (contents b))"

lemma put_Nil: "put s [] = s"
  by (cases "state s") (simp_all add: put_def buf_write_def)

lemma buf_okE:
  assumes "buf_ok s"
  obtains b where "state s = Some b" "write_pos b + room s \<le> length (contents b)"
  using assms by (auto simp: buf_ok_def)

lemma put_put:
  assumes "buf_ok s" "length bs \<le> room s"
  shows "put (put s bs) cs = put s (bs @ cs)"
proof -
  obtain b where b: "state s = Some b" "write_pos b + room s \<le> length (contents b)" by (rule buf_okE [OF assms(1)])
  then have "write_pos b + length bs \<le> length (contents b)" using assms(2) by linarith
  then show ?thesis
    using b(1) by (simp add: put_def buf_write_def add.assoc add.left_commute [of "length cs"] add.commute [of "length cs"])
qed

lemma put_facts:
  assumes "buf_ok s" "length bs \<le> room s"
  shows "room (put s bs) = room s - length bs" "buf_ok (put s bs)" "unat (bytes_written (put s bs)) = unat (bytes_written s) + length bs"
proof -
  have le: "unat (bytes_written s) \<le> unat (max_size s)" "unat (max_size s) < 9223372036854775808"
    using assms(1) by (auto simp: buf_ok_def word_le_nat_alt)
  then have "length bs < 18446744073709551616" "unat (bytes_written s) + length bs < 18446744073709551616"
    using assms(2) by (simp_all add: room_def)
  then show bw: "unat (bytes_written (put s bs)) = unat (bytes_written s) + length bs"
    by (simp add: put_def unat_of_nat_u64 unat_word_ariths)
  show r: "room (put s bs) = room s - length bs" unfolding room_def bw by (simp add: put_def)
  obtain b where b: "state s = Some b" "write_pos b + room s \<le> length (contents b)" using assms by (auto simp: buf_ok_def)
  have "bytes_written (put s bs) \<le> max_size (put s bs)"
    unfolding word_le_nat_alt bw using assms(2) le by (simp add: put_def room_def)
  with assms b r show "buf_ok (put s bs)" by (auto simp: buf_ok_def put_def buf_write_def)
qed

lemma stays_refl: "buf_ok s \<Longrightarrow> state s' = state s \<Longrightarrow> stays s s'"
  by (auto simp: buf_ok_def stays_def)

lemma stays_put_self:
  assumes "buf_ok s" "length bs \<le> room s"
  shows "stays s (put s bs)"
proof -
  obtain b where b: "state s = Some b" "write_pos b + room s \<le> length (contents b)" by (rule buf_okE [OF assms(1)])
  then have "write_pos b + length bs \<le> length (contents b)" using assms(2) by linarith
  with b assms(2) show ?thesis by (auto simp: stays_def put_def buf_write_def add.commute)
qed

lemma stays_put:
  assumes "buf_ok s" "length bs \<le> room s" "stays (put s bs) s'"
  shows "stays s s'"
proof -
  obtain b where b: "state s = Some b" "write_pos b + room s \<le> length (contents b)" by (rule buf_okE [OF assms(1)])
  let ?p = "write_pos b" and ?n = "length bs"
  let ?c = "take ?p (contents b) @ bs @ drop (?p + ?n) (contents b)"
  have st: "state (put s bs) = Some \<lparr>contents = ?c, write_pos = ?p + ?n\<rparr>" using b by (simp add: put_def buf_write_def)
  obtain b' where b': "state s' = Some b'" "length (contents b') = length ?c"
    "take (?p + ?n) (contents b') = take (?p + ?n) ?c"
    "drop (?p + ?n + room (put s bs)) (contents b') = drop (?p + ?n + room (put s bs)) ?c"
    using assms(3) by (auto simp: stays_def st)
  have r: "?p + ?n + room (put s bs) = ?p + room s" using put_facts(1) [OF assms(1,2)] assms(2) by simp
  have "take ?p (contents b') = take ?p (take (?p + ?n) (contents b'))" by simp
  also have "\<dots> = take ?p (contents b)" unfolding b'(3) using b(2) assms(2) by simp
  finally have "take ?p (contents b') = take ?p (contents b)" .
  moreover have "drop (?p + room s) ?c = drop (?p + room s) (contents b)" using b(2) assms(2) by (simp add: add.commute)
  moreover have "length ?c = length (contents b)" using b(2) assms(2) by simp
  ultimately show ?thesis using b b' by (auto simp: stays_def r)
qed

section \<open>Emitting\<close>

type_synonym action = "out_buffer pb_ostream_t \<Rightarrow> out_buffer written option"

definition emits :: "action \<Rightarrow> u8 list \<Rightarrow> bool" where
  "emits f bs \<longleftrightarrow>
     (\<forall>s. callback s = None \<longrightarrow> f s = Some (True, s\<lparr>bytes_written := bytes_written s + word_of_nat (length bs)\<rparr>)) \<and>
     (\<forall>s. buf_ok s \<longrightarrow> (if length bs \<le> room s then f s = Some (True, put s bs)
                         else \<exists>s'. f s = Some (False, s') \<and> stays s s'))"

definition refuses :: "action \<Rightarrow> bool" where
  "refuses f \<longleftrightarrow> (\<forall>s. callback s = None \<longrightarrow> (\<exists>s'. f s = Some (False, s'))) \<and>
     (\<forall>s. buf_ok s \<longrightarrow> (\<exists>s'. f s = Some (False, s') \<and> stays s s'))"

lemma emitsI:
  assumes "\<And>s. callback s = None \<Longrightarrow> f s = Some (True, s\<lparr>bytes_written := bytes_written s + word_of_nat (length bs)\<rparr>)"
    and "\<And>s. buf_ok s \<Longrightarrow> if length bs \<le> room s then f s = Some (True, put s bs) else \<exists>s'. f s = Some (False, s') \<and> stays s s'"
  shows "emits f bs"
  using assms by (simp add: emits_def)

lemma buf_ok_callback: "buf_ok s \<Longrightarrow> callback s = Some buf_write"
  by (simp add: buf_ok_def)

lemma emits_Nil: "emits (\<lambda>s. Some (True, s)) []"
  by (simp add: emits_def put_Nil)

lemma refuses_error: "refuses (\<lambda>s. Some (PB_RETURN_ERROR s msg))"
  by (auto simp: refuses_def PB_RETURN_ERROR_def intro!: stays_refl)

lemma emits_write:
  assumes "take (length bs) buf = bs" "length bs < 18446744073709551616"
  shows "emits (\<lambda>s. Some (pb_write s buf (word_of_nat (length bs)))) bs"
proof -
  have n: "unat (word_of_nat (length bs) :: u64) = length bs" using assms(2) by (simp add: unat_of_nat_u64)
  have "if length bs \<le> room s then pb_write s buf (word_of_nat (length bs)) = (True, put s bs)
      else \<exists>s'. pb_write s buf (word_of_nat (length bs)) = (False, s') \<and> stays s s'" if ok: "buf_ok s" for s
  proof (cases "bs = []")
    case True
    with ok show ?thesis by (simp add: pb_write_def buf_ok_def put_Nil)
  next
    case False
    let ?c = "word_of_nat (length bs) :: u64"
    have cb: "callback s = Some buf_write" "bytes_written s \<le> max_size s" "unat (max_size s) < 9223372036854775808"
      using ok by (simp_all add: buf_ok_def)
    have pos: "0 < ?c" using False n by (simp add: word_less_nat_alt)
    have full: "(bytes_written s + ?c < bytes_written s \<or> bytes_written s + ?c > max_size s) \<longleftrightarrow> \<not> length bs \<le> room s"
    proof (cases "unat (bytes_written s) + length bs < 18446744073709551616")
      case True
      then have "unat (bytes_written s + ?c) = unat (bytes_written s) + length bs" by (simp add: unat_word_ariths n del: unat_of_nat)
      with cb(2) show ?thesis by (auto simp: room_def word_less_nat_alt word_le_nat_alt)
    next
      case False
      then have "bytes_written s + ?c < bytes_written s" by (simp add: add_wraps_iff n del: unat_of_nat)
      moreover have "\<not> length bs \<le> room s" using False cb(2,3) by (simp add: room_def word_le_nat_alt)
      ultimately show ?thesis by simp
    qed
    show ?thesis
    proof (cases "length bs \<le> room s")
      case True
      with cb pos full ok show ?thesis
        by (auto simp: pb_write_def n assms(1) put_def buf_ok_def buf_write_def Let_def)
    next
      case f: False
      with cb pos full have "pb_write s buf ?c = PB_RETURN_ERROR s ''stream full''"
        by (simp add: pb_write_def)
      with f ok show ?thesis by (auto simp: PB_RETURN_ERROR_def intro!: stays_refl)
    qed
  qed
  moreover have "pb_write s buf (word_of_nat (length bs)) = (True, s\<lparr>bytes_written := bytes_written s + word_of_nat (length bs)\<rparr>)"
    if "callback s = None" for s :: "out_buffer pb_ostream_t"
    using that by (simp add: pb_write_def)
  ultimately show ?thesis unfolding emits_def by force
qed

lemma emits_sizing: "emits f bs \<Longrightarrow> callback s = None \<Longrightarrow> f s = Some (True, s\<lparr>bytes_written := bytes_written s + word_of_nat (length bs)\<rparr>)"
  and emits_fits: "emits f bs \<Longrightarrow> buf_ok s \<Longrightarrow> length bs \<le> room s \<Longrightarrow> f s = Some (True, put s bs)"
  and emits_buffer: "emits f bs \<Longrightarrow> buf_ok s \<Longrightarrow>
      if length bs \<le> room s then f s = Some (True, put s bs) else \<exists>s'. f s = Some (False, s') \<and> stays s s'"
  and emits_full: "emits f bs \<Longrightarrow> buf_ok s \<Longrightarrow> \<not> length bs \<le> room s \<Longrightarrow> \<exists>s'. f s = Some (False, s') \<and> stays s s'"
  unfolding emits_def by (blast, metis, blast, metis)

lemma emits_then:
  assumes "emits f bs" "emits g cs"
  shows "emits (\<lambda>s. pb_then_opt (f s) g) (bs @ cs)"
proof -
  have "if length (bs @ cs) \<le> room s then pb_then_opt (f s) g = Some (True, put s (bs @ cs))
      else \<exists>s'. pb_then_opt (f s) g = Some (False, s') \<and> stays s s'" if ok: "buf_ok s" for s
  proof (cases "length bs \<le> room s")
    case True
    note p = put_facts [OF ok True]
    show ?thesis
    proof (cases "length cs \<le> room (put s bs)")
      case fits: True
      with True show ?thesis
        by (simp add: emits_fits [OF assms(1) ok True] emits_fits [OF assms(2) p(2) fits] pb_then_opt_def put_put [OF ok True] p(1))
    next
      case False
      with emits_full [OF assms(2) p(2)] True stays_put [OF ok True] show ?thesis
        by (auto simp: emits_fits [OF assms(1) ok True] pb_then_opt_def p(1))
    qed
  next
    case False
    with emits_full [OF assms(1) ok] show ?thesis by (auto simp: pb_then_opt_def)
  qed
  moreover have "pb_then_opt (f s) g = Some (True, s\<lparr>bytes_written := bytes_written s + word_of_nat (length (bs @ cs))\<rparr>)"
    if "callback s = None" for s
    using that by (simp add: pb_then_opt_def emits_sizing [OF assms(1)] emits_sizing [OF assms(2)] add.assoc)
  ultimately show ?thesis unfolding emits_def by blast
qed

lemma emits_then_refuses:
  assumes "emits f bs" "refuses g"
  shows "refuses (\<lambda>s. pb_then_opt (f s) g)"
proof -
  have "\<exists>s'. pb_then_opt (f s) g = Some (False, s') \<and> stays s s'" if ok: "buf_ok s" for s
  proof (cases "length bs \<le> room s")
    case True
    note p = put_facts [OF ok True]
    obtain s' where "g (put s bs) = Some (False, s')" "stays (put s bs) s'" using assms(2) p(2) by (auto simp: refuses_def)
    with stays_put [OF ok True] show ?thesis by (auto simp: emits_fits [OF assms(1) ok True] pb_then_opt_def)
  next
    case False
    with emits_full [OF assms(1) ok] show ?thesis by (auto simp: pb_then_opt_def)
  qed
  moreover have "\<exists>s'. pb_then_opt (f s) g = Some (False, s')" if "callback s = None" for s
    using that assms(2) by (simp add: emits_sizing [OF assms(1)] pb_then_opt_def refuses_def)
  ultimately show ?thesis by (simp add: refuses_def)
qed

lemma refuses_then:
  assumes "refuses f"
  shows "refuses (\<lambda>s. pb_then_opt (f s) g)"
proof -
  have "pb_then_opt (f s) g = Some (False, s')" if "f s = Some (False, s')" for s s'
    using that by (simp add: pb_then_opt_def)
  with assms show ?thesis unfolding refuses_def by metis
qed

lemma emits_cong: "emits f bs \<Longrightarrow> (\<And>s. g s = f s) \<Longrightarrow> bs = cs \<Longrightarrow> emits g cs"
  and refuses_cong: "refuses f \<Longrightarrow> (\<And>s. g s = f s) \<Longrightarrow> refuses g"
  by (simp_all add: emits_def refuses_def)

end
