(* ===== verification/Pb_Scalars.thy ===== *)
theory Pb_Scalars
  imports Pb_Emit
begin

text \<open>
  The scalars of the wire format: what bytes they are by the encoding rules of protocol buffers, and
  that the encoders emit them.
\<close>

section \<open>Variable-length integers\<close>

text \<open>Seven bits per byte, the lowest first; every byte but the last has its top bit set.\<close>

fun varint :: "nat \<Rightarrow> u8 list" where
  "varint n = (if n < 128 then [word_of_nat n] else word_of_nat (128 + n mod 128) # varint (n div 128))"

declare varint.simps [simp del]

lemma length_varint: "n < 128 ^ Suc k \<Longrightarrow> length (varint n) \<le> Suc k"
proof (induction k arbitrary: n)
  case 0
  then show ?case by (simp add: varint.simps)
next
  case (Suc k)
  then have "n div 128 < 128 ^ Suc k" by (simp add: div_less_iff_less_mult mult.commute)
  with Suc.IH [of "n div 128"] show ?case by (simp add: varint.simps [of n])
qed

lemma length_varint_64: "n < 18446744073709551616 \<Longrightarrow> length (varint n) \<le> 10"
  using length_varint [of n 9] by simp

lemma varint_ne: "varint n \<noteq> []"
  by (simp add: varint.simps [of n])

lemma ucast_of_unat: "ucast (x :: 'a::len word) = (word_of_nat (unat x) :: 'b::len word)"
  by (simp add: word_unat_eq_iff unsigned_ucast_eq unsigned_of_nat)

lemma varint_byte: "ucast (v AND 0x7f) OR (0x80 :: u8) = word_of_nat (128 + unat v mod 128)"
  "(ucast (v AND 0x7f) OR (0x80 :: u8)) AND 0x7f = word_of_nat (unat (v :: u64) mod 128)"
proof -
  have "unat (v AND 0x7f) = unat v mod 128" using unat_and_mask [of v 7] by (simp add: mask_eq_exp_minus_1)
  then have b: "ucast (v AND 0x7f) = (word_of_nat (unat v mod 128) :: u8)"
    by (simp add: ucast_of_unat)
  have lt: "unat v mod 128 < 128" by simp
  have "list_all (\<lambda>k. word_of_nat k OR (0x80 :: u8) = word_of_nat (128 + k) \<and>
      (word_of_nat k OR (0x80 :: u8)) AND 0x7f = word_of_nat k) [0 ..< 128]" by code_simp
  then have "word_of_nat k OR (0x80 :: u8) = word_of_nat (128 + k) \<and> (word_of_nat k OR (0x80 :: u8)) AND 0x7f = word_of_nat k"
    if "k < 128" for k
    using that unfolding list_all_iff set_upt by (metis atLeastLessThan_iff zero_le)
  from this [OF lt] show "ucast (v AND 0x7f) OR (0x80 :: u8) = word_of_nat (128 + unat v mod 128)"
    "(ucast (v AND 0x7f) OR (0x80 :: u8)) AND 0x7f = word_of_nat (unat v mod 128)"
    unfolding b by blast+
qed

text \<open>The loop with the top bit of its last byte cleared.\<close>

lemma varint_loop_varint:
  "v \<noteq> 0 \<Longrightarrow> butlast (varint_loop v) @ [last (varint_loop v) AND 0x7f] = varint (unat v)"
proof (induction v rule: varint_loop.induct)
  case (1 v)
  let ?w = "drop_bit 7 v"
  have w: "unat ?w = unat v div 128" by (simp add: unat_drop_bit_div)
  have step: "varint_loop v = (ucast (v AND 0x7f) OR 0x80) # varint_loop ?w"
    using "1.prems" by (subst varint_loop.simps) simp
  show ?case
  proof (cases "?w = 0")
    case True
    then have "unat v < 128" using w by (simp add: div_eq_0_iff)
    moreover have "varint_loop ?w = []" using True by (simp add: varint_loop.simps)
    ultimately show ?thesis
      unfolding step varint.simps [of "unat v"] using varint_byte(2) [of v]
      by (simp del: word_of_nat_eq_iff)
  next
    case False
    then have "unat ?w \<noteq> 0" by (simp add: unat_eq_zero)
    then have "\<not> unat v < 128" using w by simp
    moreover have "varint_loop ?w \<noteq> []" using False by (subst varint_loop.simps) simp
    ultimately show ?thesis
      using "1.IH" [OF "1.prems" False] unfolding step
      by (simp add: varint_byte(1) varint.simps [of "unat v"] w)
  qed
qed

lemma pb_encode_varint_eq:
  "pb_encode_varint s v = pb_write s (varint (unat v)) (word_of_nat (length (varint (unat v))))"
proof (cases "v \<le> 0x7f")
  case True
  then have "unat v < 128" by (simp add: word_le_nat_alt)
  moreover have "ucast v = (word_of_nat (unat v) :: u8)" by (rule ucast_of_unat)
  ultimately show ?thesis using True by (simp add: pb_encode_varint_def varint.simps [of "unat v"])
next
  case False
  then have "v \<noteq> 0" by auto
  then have ne: "varint_loop v \<noteq> []" by (subst varint_loop.simps) simp
  let ?b = "varint_loop v"
  have "?b[length ?b - 1 := ?b ! (length ?b - 1) AND 0x7f] = butlast ?b @ [last ?b AND 0x7f]"
    using ne by (cases ?b rule: rev_cases) (simp_all add: list_update_append nth_append)
  also have "\<dots> = varint (unat v)" by (rule varint_loop_varint [OF \<open>v \<noteq> 0\<close>])
  finally have eq: "?b[length ?b - 1 := ?b ! (length ?b - 1) AND 0x7f] = varint (unat v)" .
  then have "length ?b = length (varint (unat v))" by (metis length_list_update)
  with False eq show ?thesis by (simp add: pb_encode_varint_def Let_def)
qed

lemma emits_varint: "emits (\<lambda>s. Some (pb_encode_varint s v)) (varint (unat v))"
  unfolding pb_encode_varint_eq
  using length_varint_64 [OF unat_u64_less, of v] by (intro emits_write) simp_all


section \<open>The other scalars\<close>

text \<open>The zigzag order 0, -1, 1, -2, 2, ...\<close>

definition zigzag :: "int \<Rightarrow> nat" where
  "zigzag i = (if i < 0 then nat (- 2 * i - 1) else nat (2 * i))"

definition le_bytes :: "nat \<Rightarrow> nat \<Rightarrow> u8 list" where
  "le_bytes n v = rev (be_bytes n v)"

definition field_key :: "u32 \<Rightarrow> pb_wire_type_t \<Rightarrow> u8 list" where
  "field_key t wt = varint (8 * unat t + unat wt)"

lemma unat_zigzag:
  "unat (if sint v < 0 then NOT (push_bit 1 v) else push_bit 1 v) = zigzag (sint (v :: u64))"
proof -
  have p: "push_bit 1 v = word_of_int (2 * sint v)" by (simp add: push_bit_eq_mult)
  have n: "NOT (push_bit 1 v) = word_of_int (- 2 * sint v - 1)" unfolding p not_eq_complement by simp
  have b: "- 9223372036854775808 \<le> sint v" "sint v < 9223372036854775808"
    using sint_greater_eq [of v] sint_less [of v] by simp_all
  have u: "unat (word_of_int i :: u64) = nat i" if "0 \<le> i" "i < 18446744073709551616" for i
    using that by (simp add: unat_eq_nat_uint uint_word_of_int)
  show ?thesis
  proof (cases "sint v < 0")
    case True
    have "unat (NOT (push_bit 1 v)) = nat (- 2 * sint v - 1)" unfolding n by (rule u) (use b True in simp_all)
    with True show ?thesis by (simp only: zigzag_def if_True)
  next
    case False
    have "unat (push_bit 1 v) = nat (2 * sint v)" unfolding p by (rule u) (use b False in simp_all)
    with False show ?thesis by (simp only: zigzag_def if_False)
  qed
qed

lemma emits_svarint: "emits (\<lambda>s. Some (pb_encode_svarint s v)) (varint (zigzag (sint v)))"
  unfolding pb_encode_svarint_def using emits_varint [of "if sint v < 0 then NOT (push_bit 1 v) else push_bit 1 v"]
  by (simp only: unat_zigzag)

lemma fixed_byte: "ucast (drop_bit n x AND 0xff) = (word_of_nat (unat (x :: 'a::len word) div 2 ^ n) :: u8)"
  "ucast (x AND 0xff) = (word_of_nat (unat x) :: u8)"
proof -
  have ff: "ucast (y AND 0xff) = (word_of_nat (unat y) :: u8)" for y :: "'a word"
  proof -
    have "unat (y AND 0xff) = unat y mod 256" using unat_and_mask [of y 8] by (simp add: mask_eq_exp_minus_1)
    moreover have "word_of_nat (m mod 256) = (word_of_nat m :: u8)" for m
      by (simp add: word_unat_eq_iff unsigned_of_nat take_bit_eq_mod)
    ultimately show ?thesis by (simp only: ucast_of_unat)
  qed
  show "ucast (drop_bit n x AND 0xff) = (word_of_nat (unat x div 2 ^ n) :: u8)" "ucast (x AND 0xff) = (word_of_nat (unat x) :: u8)"
    unfolding ff by (simp_all add: unat_drop_bit_div)
qed

lemma le_bytes_4: "le_bytes 4 v = [word_of_nat v, word_of_nat (v div 2 ^ 8), word_of_nat (v div 2 ^ 16), word_of_nat (v div 2 ^ 24)]"
proof -
  have "(4 :: nat) = Suc (Suc (Suc (Suc 0)))" by simp
  then have "be_bytes 4 v = [word_of_nat (v div 256 div 256 div 256), word_of_nat (v div 256 div 256), word_of_nat (v div 256), word_of_nat v]"
    by (simp only: be_bytes.simps append.simps)
  then show ?thesis by (simp add: le_bytes_def div_mult2_eq [symmetric])
qed

lemma le_bytes_8:
  "le_bytes 8 v = [word_of_nat v, word_of_nat (v div 2 ^ 8), word_of_nat (v div 2 ^ 16), word_of_nat (v div 2 ^ 24),
    word_of_nat (v div 2 ^ 32), word_of_nat (v div 2 ^ 40), word_of_nat (v div 2 ^ 48), word_of_nat (v div 2 ^ 56)]"
proof -
  have "(8 :: nat) = Suc (Suc (Suc (Suc 4)))" "(4 :: nat) = Suc (Suc (Suc (Suc 0)))" by simp_all
  then have "be_bytes 8 v = [word_of_nat (v div 256 div 256 div 256 div 256 div 256 div 256 div 256),
      word_of_nat (v div 256 div 256 div 256 div 256 div 256 div 256), word_of_nat (v div 256 div 256 div 256 div 256 div 256),
      word_of_nat (v div 256 div 256 div 256 div 256), word_of_nat (v div 256 div 256 div 256), word_of_nat (v div 256 div 256),
      word_of_nat (v div 256), word_of_nat v]"
    by (simp only: be_bytes.simps append.simps)
  then show ?thesis by (simp add: le_bytes_def div_mult2_eq [symmetric])
qed

lemma length_le_bytes [simp]: "length (le_bytes n v) = n"
  by (simp add: le_bytes_def)

lemma emits_fixed32: "emits (\<lambda>s. Some (pb_encode_fixed32 s v)) (le_bytes 4 (unat v))"
  unfolding pb_encode_fixed32_def fixed_byte(1)
  unfolding fixed_byte(2) le_bytes_4 [symmetric]
  using emits_write [of "le_bytes 4 (unat v)" "le_bytes 4 (unat v)"] by simp

lemma emits_fixed64: "emits (\<lambda>s. Some (pb_encode_fixed64 s v)) (le_bytes 8 (unat v))"
  unfolding pb_encode_fixed64_def fixed_byte(1)
  unfolding fixed_byte(2) le_bytes_8 [symmetric]
  using emits_write [of "le_bytes 8 (unat v)" "le_bytes 8 (unat v)"] by simp

lemma emits_tag:
  assumes "unat wt < 8"
  shows "emits (\<lambda>s. Some (pb_encode_tag s wt t)) (field_key t wt)"
proof -
  have "unat t * 8 < 18446744073709551616" using unat_u32_less [of t] by linarith
  then have "unat (push_bit 3 (ucast t) :: u64) = unat t * 8"
    unfolding unsigned_push_bit_eq by (simp add: unat_ucast_up push_bit_eq_mult take_bit_eq_mod)
  then have "unat (push_bit 3 (ucast t) OR ucast wt :: u64) = 8 * unat t + unat wt"
    using or_low_high [of "unat wt" 3 "unat t"] assms by (simp add: unsigned_or_eq unat_ucast_up push_bit_eq_mult)
  then show ?thesis using emits_varint [of "push_bit 3 (ucast t) OR ucast wt"] by (simp add: pb_encode_tag_def field_key_def)
qed

lemma emits_string:
  assumes "unat n \<le> length buf"
  shows "emits (\<lambda>s. Some (pb_encode_string s buf n)) (varint (unat n) @ take (unat n) buf)"
proof -
  have w: "emits (\<lambda>s. Some (pb_write s buf n)) (take (unat n) buf)"
    using emits_write [of "take (unat n) buf" buf] assms unat_u64_less [of n] by simp
  have "Some (pb_encode_string s buf n) = pb_then_opt (Some (pb_encode_varint s n)) (\<lambda>s. Some (pb_write s buf n))" for s :: "out_buffer pb_ostream_t"
    by (simp add: pb_encode_string_def pb_then_def pb_then_opt_def)
  then show ?thesis using emits_cong [OF emits_then [OF emits_varint w]] by simp
qed

end
