(* ===== verification/Pb_Wire.thy ===== *)
theory Pb_Wire
  imports Pb_Scalars
begin

text \<open>
  The wire format of a message as one byte string, with no streams, no sizing pass and no limits,
  and that \<open>pb_encode\<close> emits it.
\<close>

section \<open>Encodings and refusals\<close>

text \<open>
  \<open>Some (Some bs)\<close>: the encoding is \<open>bs\<close>. \<open>Some None\<close>: the message cannot be encoded. \<open>None\<close>:
  nothing is said, because a user function takes part, submessages nest deeper than the given
  depth, or a submessage has $2^{63}$ bytes or more.
\<close>

type_synonym wire = "u8 list option option"

fun wire_app :: "wire \<Rightarrow> wire \<Rightarrow> wire" where
  "wire_app (Some (Some x)) (Some (Some y)) = Some (Some (x @ y))"
| "wire_app (Some (Some x)) r = r"
| "wire_app r _ = r"

lemma wire_app_assoc: "wire_app (wire_app a b) c = wire_app a (wire_app b c)"
  by (cases "(a, b)" rule: wire_app.cases; cases c rule: option.exhaust; cases "the c") simp_all

text \<open>An encoding with its length in front.\<close>

fun delimited :: "wire \<Rightarrow> wire" where
  "delimited (Some (Some bs)) = (if int (length bs) < 2 ^ 63 then Some (Some (varint (length bs) @ bs)) else None)"
| "delimited r = r"

definition performs :: "action \<Rightarrow> wire \<Rightarrow> bool" where
  "performs f r \<longleftrightarrow> (case r of None \<Rightarrow> True | Some None \<Rightarrow> refuses f | Some (Some bs) \<Rightarrow> emits f bs)"

lemma performs_simps [simp]: "performs f None" "performs f (Some None) = refuses f" "performs f (Some (Some bs)) = emits f bs"
  by (simp_all add: performs_def)

lemma performs_then:
  "performs f a \<Longrightarrow> performs g b \<Longrightarrow> performs (\<lambda>s. pb_then_opt (f s) g) (wire_app a b)"
  using emits_then [of f _ g] emits_then_refuses [of f _ g] refuses_then [of f g]
  by (cases "(a, b)" rule: wire_app.cases) auto

lemma performs_cong: "performs f r \<Longrightarrow> (\<And>s. g s = f s) \<Longrightarrow> r' = r \<Longrightarrow> performs g r'"
  by (simp add: performs_def emits_def refuses_def split: option.splits)

lemma performs_Nil: "performs (\<lambda>s. Some (True, s)) (Some (Some []))"
  by (simp add: emits_Nil)

lemma emits_sized:
  assumes "emits f bs" "length bs < 18446744073709551616"
  shows "emits (\<lambda>s. if callback s = None then Some (pb_write s [] (word_of_nat (length bs))) else f s) bs"
  by (rule emitsI) (use emits_buffer [OF assms(1)] in \<open>simp_all add: pb_write_def buf_ok_callback\<close>)

section \<open>Submessages\<close>

definition submessage_body :: "out_buffer encoder \<Rightarrow> pb_fields \<Rightarrow> addr \<Rightarrow> size_t \<Rightarrow> action" where
  "submessage_body encode fs src n stream =
     (if bytes_written stream + n > max_size stream then Some (PB_RETURN_ERROR stream ''stream full'')
      else
        (case encode \<lparr>callback = callback stream, state = state stream, max_size = n, bytes_written = 0, errmsg = None\<rparr> fs src of
           None \<Rightarrow> None
         | Some (status, substream) \<Rightarrow>
             let stream = stream\<lparr>bytes_written := bytes_written stream + bytes_written substream,
                            state := state substream, errmsg := errmsg substream\<rparr> in
             if bytes_written substream \<noteq> n then Some (PB_RETURN_ERROR stream ''submsg size changed'')
             else Some (status, stream)))"

lemma submessage_body_buffer:
  assumes e: "emits (\<lambda>s. encode s fs src) bs" and len: "length bs < 2 ^ 63" and ok: "buf_ok s"
  shows "if length bs \<le> room s then submessage_body encode fs src (word_of_nat (length bs)) s = Some (True, put s bs)
    else \<exists>s'. submessage_body encode fs src (word_of_nat (length bs)) s = Some (False, s') \<and> stays s s'"
proof -
  let ?n = "word_of_nat (length bs) :: u64"
  have n: "unat ?n = length bs" using len by (simp add: unat_of_nat_u64)
  have s: "bytes_written s \<le> max_size s" "unat (max_size s) < 9223372036854775808" "errmsg s = None" "callback s = Some buf_write"
    using ok by (simp_all add: buf_ok_def)
  then have "unat (bytes_written s) + length bs < 18446744073709551616" using len by (simp add: word_le_nat_alt)
  then have full: "bytes_written s + ?n > max_size s \<longleftrightarrow> \<not> length bs \<le> room s"
    using s(1) by (auto simp: word_less_nat_alt word_le_nat_alt unat_word_ariths n room_def simp del: unat_of_nat)
  show ?thesis
  proof (cases "length bs \<le> room s")
    case True
    let ?sub = "\<lparr>callback = callback s, state = state s, max_size = ?n, bytes_written = 0, errmsg = None\<rparr> :: out_buffer pb_ostream_t"
    have r: "room ?sub = length bs" by (simp add: room_def n del: unat_of_nat)
    obtain b where b: "state s = Some b" "write_pos b + room s \<le> length (contents b)" by (rule buf_okE [OF ok])
    have "buf_ok ?sub"
      unfolding buf_ok_def r using b len True s(4) by (simp add: n word_le_nat_alt del: unat_of_nat)
    from emits_fits [OF e this] have "encode ?sub fs src = Some (True, put ?sub bs)" by (simp add: r)
    moreover have "bytes_written (put ?sub bs) = ?n" by (simp add: put_def)
    moreover have "s\<lparr>bytes_written := bytes_written s + ?n, state := state (put ?sub bs), errmsg := errmsg (put ?sub bs)\<rparr> = put s bs"
      using s(3) by (simp add: put_def)
    ultimately show ?thesis using True full by (simp add: submessage_body_def Let_def)
  next
    case False
    with full ok show ?thesis by (auto simp: submessage_body_def PB_RETURN_ERROR_def intro!: stays_refl)
  qed
qed

lemma performs_submessage:
  assumes "performs (\<lambda>s. encode s fs src) r"
  shows "performs (\<lambda>s. pb_encode_submessage encode s fs src) (delimited r)"
proof -
  consider (1) bs where "r = Some (Some bs)" | (2) "r = None" | (3) "r = Some None"
    by (metis option.exhaust)
  then show ?thesis
  proof cases
  case (1 bs)
  show ?thesis
  proof (cases "length bs < 2 ^ 63")
    case True
    let ?n = "word_of_nat (length bs) :: u64"
    have e: "emits (\<lambda>s. encode s fs src) bs" using assms 1 by simp
    have n: "unat ?n = length bs" using True by (simp add: unat_of_nat_u64)
    have sz: "encode PB_OSTREAM_SIZING fs src = Some (True, PB_OSTREAM_SIZING\<lparr>bytes_written := ?n\<rparr>)"
      using emits_sizing [OF e, of PB_OSTREAM_SIZING] by (simp add: PB_OSTREAM_SIZING_def)
    let ?G = "\<lambda>s. if callback s = None then Some (pb_write s [] ?n) else submessage_body encode fs src ?n s"
    have "emits ?G bs"
      by (rule emitsI)
        (use submessage_body_buffer [of encode fs src bs] e True in \<open>simp_all add: pb_write_def buf_ok_callback\<close>)
    then have "emits (\<lambda>s. pb_then_opt (Some (pb_encode_varint s ?n)) ?G) (varint (length bs) @ bs)"
      using emits_then [OF emits_varint [of ?n]] by (simp add: n del: unat_of_nat)
    moreover have "pb_encode_submessage encode s fs src = pb_then_opt (Some (pb_encode_varint s ?n)) ?G" for s :: "out_buffer pb_ostream_t"
      by (simp add: pb_encode_submessage_def sz submessage_body_def Let_def cong: if_cong option.case_cong)
    ultimately show ?thesis using 1 True emits_cong by simp
  qed (use 1 in simp)
next
  case 3
  then have "refuses (\<lambda>s. encode s fs src)" using assms by simp
  moreover have "callback (PB_OSTREAM_SIZING :: out_buffer pb_ostream_t) = None" by (simp add: PB_OSTREAM_SIZING_def)
  ultimately obtain sub where "encode PB_OSTREAM_SIZING fs src = Some (False, sub)"
    unfolding refuses_def by blast
  then have "pb_encode_submessage encode s fs src = Some (False, s\<lparr>errmsg := errmsg sub\<rparr>)" for s
    by (simp add: pb_encode_submessage_def)
  then show ?thesis using 3 by (auto simp: refuses_def intro!: stays_refl)
  qed simp
qed


section \<open>Values\<close>

definition wire_signed :: "'s pb_env \<Rightarrow> pb_field_t \<Rightarrow> addr \<Rightarrow> (int \<Rightarrow> u64 \<Rightarrow> u8 list) \<Rightarrow> wire" where
  "wire_signed env field src enc = Some (map_option (\<lambda>v. enc (sint v) v) (load_signed env field src))"

text \<open>The value of a field at an address; \<open>sub\<close> gives the encoding of a submessage.\<close>

definition wire_value :: "'s pb_env \<Rightarrow> (pb_fields \<Rightarrow> addr \<Rightarrow> wire) \<Rightarrow> pb_field_t \<Rightarrow> addr \<Rightarrow> wire" where
  "wire_value env sub field src =
     (let ltype = PB_LTYPE (type field) in
      if ltype = PB_LTYPE_BOOL then Some (Some [if mem env src \<noteq> 0 then 1 else 0])
      else if ltype = PB_LTYPE_VARINT then wire_signed env field src (\<lambda>i v. varint (unat v))
      else if ltype = PB_LTYPE_UVARINT then
        (if data_size field \<in> {1, 2, 4, 8}
         then Some (Some (varint (unat (load_le (mem env) src (unat (data_size field)))))) else Some None)
      else if ltype = PB_LTYPE_SVARINT then wire_signed env field src (\<lambda>i v. varint (zigzag i))
      else if ltype = PB_LTYPE_FIXED32 then Some (Some (le_bytes 4 (unat (ucast (load_le (mem env) src 4) :: u32))))
      else if ltype = PB_LTYPE_FIXED64 then Some (Some (le_bytes 8 (unat (load_le (mem env) src 8))))
      else if ltype = PB_LTYPE_BYTES then
        (if src = 0 then Some (Some (varint 0))
         else let n = unat (load_size (mem env) src) in
           if PB_ATYPE (type field) = PB_ATYPE_STATIC \<and> (ucast (load_size (mem env) src) :: size_t) > ucast (data_size field) - 4
           then Some None else delimited (Some (Some (load_bytes (mem env) (src + 4) n))))
      else if ltype = PB_LTYPE_STRING then
        (let limit = (if PB_ATYPE (type field) = PB_ATYPE_POINTER then - 1 else ucast (data_size field));
             n = (if src = 0 then 0 else string_size (mem env) src 0 limit)
         in delimited (Some (Some (load_bytes (mem env) src (unat n)))))
      else if ltype = PB_LTYPE_SUBMESSAGE then
        (if ptr field = 0 then Some None else delimited (sub (fields_at env (ptr field)) src))
      else if ltype = PB_LTYPE_FIXED_LENGTH_BYTES
      then delimited (Some (Some (load_bytes (mem env) src (unat (data_size field)))))
      else None)"

lemma length_load_bytes [simp]: "length (load_bytes m p n) = n"
  by (simp add: load_bytes_def)

lemma performs_string:
  assumes "unat n = k"
  shows "performs (\<lambda>s. Some (pb_encode_string s (load_bytes m p k) n)) (delimited (Some (Some (load_bytes m p k))))"
  using emits_string [of n "load_bytes m p k"] assms by simp

lemma varint_bool: "varint (unat (if b then 1 else 0 :: u64)) = [if b then 1 else 0]"
  by (simp add: varint.simps)

lemma performs_value:
  assumes "\<And>fs p. performs (\<lambda>s. encode s fs p) (sub fs p)"
  shows "performs (\<lambda>s. PB_ENCODERS env encode (PB_LTYPE (type field)) s field src) (wire_value env sub field src)"
proof -
  let ?t = "PB_LTYPE (type field)"
  note table = PB_ENCODERS_def wire_value_def Let_def
  consider (bool) "?t = PB_LTYPE_BOOL" | (varint) "?t = PB_LTYPE_VARINT" | (uvarint) "?t = PB_LTYPE_UVARINT"
    | (svarint) "?t = PB_LTYPE_SVARINT" | (fixed32) "?t = PB_LTYPE_FIXED32" | (fixed64) "?t = PB_LTYPE_FIXED64"
    | (bytes) "?t = PB_LTYPE_BYTES" | (str) "?t = PB_LTYPE_STRING" | (sub) "?t = PB_LTYPE_SUBMESSAGE"
    | (flb) "?t = PB_LTYPE_FIXED_LENGTH_BYTES"
    | (other) "?t \<notin> {PB_LTYPE_BOOL, PB_LTYPE_VARINT, PB_LTYPE_UVARINT, PB_LTYPE_SVARINT, PB_LTYPE_FIXED32, PB_LTYPE_FIXED64,
        PB_LTYPE_BYTES, PB_LTYPE_STRING, PB_LTYPE_SUBMESSAGE, PB_LTYPE_FIXED_LENGTH_BYTES}"
    by blast
  then show ?thesis
  proof cases
    case bool
    then show ?thesis
      using emits_varint [of "if mem env src \<noteq> 0 then 1 else 0"] unfolding varint_bool
      by (simp add: table pb_enc_bool_def safe_read_bool_def)
  next
    case varint
    then show ?thesis
      by (cases "load_signed env field src")
        (simp_all add: table PB_TYPE_defs pb_enc_varint_def wire_signed_def refuses_error emits_varint)
  next
    case uvarint
    then show ?thesis
      by (auto simp: table PB_TYPE_defs pb_enc_uvarint_def refuses_error emits_varint)
  next
    case svarint
    then show ?thesis
      by (cases "load_signed env field src")
        (simp_all add: table PB_TYPE_defs pb_enc_svarint_def wire_signed_def refuses_error emits_svarint)
  next
    case fixed32
    then show ?thesis
      using emits_fixed32 by (simp add: table PB_TYPE_defs pb_enc_fixed32_def)
  next
    case fixed64
    then show ?thesis
      using emits_fixed64 by (simp add: table PB_TYPE_defs pb_enc_fixed64_def)
  next
    case bytes
    then show ?thesis
      using performs_string [of 0 0 "mem env" src]
        performs_string [of "ucast (load_size (mem env) src)" "unat (load_size (mem env) src)" "mem env" "src + 4"]
      by (auto simp: table PB_TYPE_defs pb_enc_bytes_def refuses_error unat_ucast_up load_bytes_def)
  next
    case str
    then show ?thesis
      using performs_string [of _ _ "mem env" src]
      by (simp add: table PB_TYPE_defs pb_enc_string_def del: delimited.simps)
  next
    case sub
    then show ?thesis
      using performs_submessage [of encode "fields_at env (ptr field)" src, OF assms]
      by (simp add: table PB_TYPE_defs pb_enc_submessage_def refuses_error)
  next
    case flb
    then show ?thesis
      using performs_string [of "ucast (data_size field)" "unat (data_size field)" "mem env" src]
      by (simp add: table PB_TYPE_defs pb_enc_fixed_length_bytes_def unat_ucast_up del: delimited.simps)
  next
    case other
    then show ?thesis by (simp add: table PB_TYPE_defs)
  qed
qed


section \<open>Fields\<close>

definition wire_concat :: "wire list \<Rightarrow> wire" where
  "wire_concat ws = foldr wire_app ws (Some (Some []))"

lemma wire_concat_simps [simp]: "wire_concat [] = Some (Some [])" "wire_concat (w # ws) = wire_app w (wire_concat ws)"
  by (simp_all add: wire_concat_def)

text \<open>The tag in front of a field.\<close>

definition wire_tag :: "pb_field_t \<Rightarrow> wire" where
  "wire_tag field =
     (let ltype = PB_LTYPE (type field) in
      if ltype \<in> {PB_LTYPE_BOOL, PB_LTYPE_VARINT, PB_LTYPE_UVARINT, PB_LTYPE_SVARINT}
      then Some (Some (field_key (tag field) PB_WT_VARINT))
      else if ltype = PB_LTYPE_FIXED32 then Some (Some (field_key (tag field) PB_WT_32BIT))
      else if ltype = PB_LTYPE_FIXED64 then Some (Some (field_key (tag field) PB_WT_64BIT))
      else if ltype \<in> {PB_LTYPE_BYTES, PB_LTYPE_STRING, PB_LTYPE_SUBMESSAGE, PB_LTYPE_FIXED_LENGTH_BYTES}
      then Some (Some (field_key (tag field) PB_WT_STRING))
      else Some None)"

lemma performs_tag: "performs (\<lambda>s. Some (pb_encode_tag_for_field s field)) (wire_tag field)"
  using emits_tag [of PB_WT_VARINT "tag field"] emits_tag [of PB_WT_32BIT "tag field"]
    emits_tag [of PB_WT_64BIT "tag field"] emits_tag [of PB_WT_STRING "tag field"]
  by (simp add: wire_tag_def pb_encode_tag_for_field_def Let_def PB_WT_defs refuses_error)

text \<open>
  The entries of an array: packed behind one tag and their length if the type is a scalar, each with
  its tag otherwise.
\<close>

definition entry_ptr :: "'s pb_env \<Rightarrow> pb_field_t \<Rightarrow> addr \<Rightarrow> addr" where
  "entry_ptr env field p =
     (if PB_ATYPE (type field) = PB_ATYPE_POINTER \<and>
         (PB_LTYPE (type field) = PB_LTYPE_STRING \<or> PB_LTYPE (type field) = PB_LTYPE_BYTES)
      then load_ptr (mem env) p else p)"

definition wire_array :: "'s pb_env \<Rightarrow> pb_field_t \<Rightarrow> addr \<Rightarrow> size_t \<Rightarrow> (addr \<Rightarrow> wire) \<Rightarrow> wire" where
  "wire_array env field pd count val =
     (let entry = (\<lambda>i. pd + word_of_nat i * ucast (data_size field)) in
         if count = 0 then Some (Some [])
         else if PB_ATYPE (type field) \<noteq> PB_ATYPE_POINTER \<and> count > ucast (array_size field) then Some None
         else if PB_LTYPE (type field) \<le> PB_LTYPE_LAST_PACKABLE
         then wire_app (Some (Some (field_key (tag field) PB_WT_STRING)))
                (delimited (wire_concat (map (\<lambda>i. val (entry i)) [0 ..< unat count])))
         else wire_concat (map (\<lambda>i. wire_app (wire_tag field)
                (val (entry_ptr env field (entry i)))) [0 ..< unat count]))"

lemma entry_Suc: "(p :: u64) + word_of_nat (Suc i) * d = p + d + word_of_nat i * d"
  by (simp add: distrib_right)

lemma performs_packed_loop:
  assumes "\<And>p. performs (\<lambda>s. func s field p) (val p)"
  shows "performs (packed_loop func field n p)
    (wire_concat (map (\<lambda>i. val (p + word_of_nat i * ucast (data_size field))) [0 ..< n]))"
proof (induction n arbitrary: p)
  case 0
  show ?case by (rule performs_cong [OF performs_Nil]) simp_all
next
  case (Suc n)
  show ?case
    by (rule performs_cong [OF performs_then [OF assms Suc.IH]])
      (simp_all add: map_upt_Suc entry_Suc del: upt_Suc of_nat_Suc)
qed

lemma tagged_loop_Suc:
  "tagged_loop env func field (Suc i) p stream =
     pb_then_opt (Some (pb_encode_tag_for_field stream field)) (\<lambda>stream.
     pb_then_opt (func stream field (entry_ptr env field p)) (tagged_loop env func field i (p + ucast (data_size field))))"
  by (auto simp: entry_ptr_def pb_then_opt_def)

lemma performs_tagged_loop:
  assumes "\<And>p. performs (\<lambda>s. func s field p) (val p)"
  shows "performs (tagged_loop env func field n p)
    (wire_concat (map (\<lambda>i. wire_app (wire_tag field)
       (val (entry_ptr env field (p + word_of_nat i * ucast (data_size field))))) [0 ..< n]))"
proof (induction n arbitrary: p)
  case 0
  show ?case by (rule performs_cong [OF performs_Nil]) simp_all
next
  case (Suc n)
  show ?case
    by (rule performs_cong [OF performs_then [OF performs_tag [of field]
          performs_then [OF assms [of "entry_ptr env field p"] Suc.IH [of "p + ucast (data_size field)"]]]])
      (simp_all add: map_upt_Suc entry_Suc wire_app_assoc tagged_loop_Suc del: upt_Suc of_nat_Suc tagged_loop.simps(2))
qed


lemma packed_fixed_length:
  assumes "\<And>p. \<exists>bs. val p = Some (Some bs) \<and> length bs = k"
  shows "\<exists>bs. wire_concat (map (\<lambda>i. val (at i)) [0 ..< n]) = Some (Some bs) \<and> length bs = n * k"
proof (induction n arbitrary: at)
  case (Suc n)
  obtain bs where "wire_concat (map (\<lambda>i. val (at (Suc i))) [0 ..< n]) = Some (Some bs)" "length bs = n * k"
    using Suc.IH [of "\<lambda>i. at (Suc i)"] by auto
  moreover obtain cs where "val (at 0) = Some (Some cs)" "length cs = k" using assms by blast
  ultimately show ?case by (simp add: map_upt_Suc del: upt_Suc)
qed simp

text \<open>The packed entries behind their length, which a first pass finds out.\<close>

lemma performs_packed:
  assumes "performs loop r"
    and "sized = loop PB_OSTREAM_SIZING \<or>
      (\<exists>bs. r = Some (Some bs) \<and> sized = Some (True, PB_OSTREAM_SIZING\<lparr>bytes_written := word_of_nat (length bs)\<rparr>))"
  shows "performs (\<lambda>stream. case sized of
       None \<Rightarrow> None
     | Some (ok, sizestream) \<Rightarrow>
         if \<not> ok then Some (False, stream)
         else pb_then_opt (Some (pb_encode_varint stream (bytes_written sizestream))) (\<lambda>stream.
           if callback stream = None then Some (pb_write stream [] (bytes_written sizestream)) else loop stream))
    (delimited r)"
proof -
  have cb: "callback (PB_OSTREAM_SIZING :: out_buffer pb_ostream_t) = None" by (simp add: PB_OSTREAM_SIZING_def)
  consider (1) bs where "r = Some (Some bs)" | (2) "r = None" | (3) "r = Some None"
    by (metis option.exhaust)
  then show ?thesis
  proof cases
    case (1 bs)
    then have e: "emits loop bs" using assms(1) by simp
    have "loop PB_OSTREAM_SIZING = Some (True, PB_OSTREAM_SIZING\<lparr>bytes_written := word_of_nat (length bs)\<rparr>)"
      using emits_sizing [OF e cb] by (simp add: PB_OSTREAM_SIZING_def)
    then have sized: "sized = Some (True, PB_OSTREAM_SIZING\<lparr>bytes_written := word_of_nat (length bs)\<rparr>)"
      using assms(2) 1 by auto
    show ?thesis
    proof (cases "length bs < 2 ^ 63")
      case True
      let ?n = "word_of_nat (length bs) :: u64"
      have n: "unat ?n = length bs" using True by (simp add: unat_of_nat_u64)
      have "emits (\<lambda>s. if callback s = None then Some (pb_write s [] ?n) else loop s) bs"
        using emits_sized [OF e] True by simp
      from emits_then [OF emits_varint [of ?n] this] show ?thesis
        using 1 True by (simp add: sized n del: unat_of_nat cong: if_cong)
    qed (use 1 in simp)
  next
    case 3
    then have "refuses loop" using assms(1) by simp
    then obtain sub where "loop PB_OSTREAM_SIZING = Some (False, sub)"
      using cb unfolding refuses_def by blast
    then show ?thesis using 3 assms(2) by (auto simp: refuses_def intro!: stays_refl)
  qed simp
qed


text \<open>The length the code computes for an array of fixed-size scalars is that of its encoding.\<close>

lemma performs_array:
  assumes "\<And>p. performs (\<lambda>s. func s field p) (val p)"
    and "PB_LTYPE (type field) = PB_LTYPE_FIXED32 \<Longrightarrow> \<forall>p. \<exists>bs. val p = Some (Some bs) \<and> length bs = 4"
    and "PB_LTYPE (type field) = PB_LTYPE_FIXED64 \<Longrightarrow> \<forall>p. \<exists>bs. val p = Some (Some bs) \<and> length bs = 8"
  shows "performs (\<lambda>s. encode_array env s field pd count func) (wire_array env field pd count val)"
proof -
  let ?t = "PB_LTYPE (type field)"
  let ?vals = "wire_concat (map (\<lambda>i. val (pd + word_of_nat i * ucast (data_size field))) [0 ..< unat count])"
  let ?loop = "packed_loop func field (unat count) pd"
  let ?sized = "if ?t = PB_LTYPE_FIXED32 then Some (True, PB_OSTREAM_SIZING\<lparr>bytes_written := 4 * count\<rparr>)
      else if ?t = PB_LTYPE_FIXED64 then Some (True, PB_OSTREAM_SIZING\<lparr>bytes_written := 8 * count\<rparr>)
      else ?loop PB_OSTREAM_SIZING"
  have fixed: "\<exists>bs. ?vals = Some (Some bs) \<and> word_of_nat k * count = word_of_nat (length bs)"
    if k: "\<forall>p. \<exists>bs. val p = Some (Some bs) \<and> length bs = k" for k
    using packed_fixed_length [of val k "\<lambda>i. pd + word_of_nat i * ucast (data_size field)" "unat count"] k
    by (force simp: mult.commute)
  have "?sized = ?loop PB_OSTREAM_SIZING \<or>
      (\<exists>bs. ?vals = Some (Some bs) \<and> ?sized = Some (True, PB_OSTREAM_SIZING\<lparr>bytes_written := word_of_nat (length bs)\<rparr>))"
    using fixed [OF assms(2)] fixed [OF assms(3)] by auto
  note packed = performs_packed [OF performs_packed_loop [of func field val, OF assms(1)] this]
  have "performs (\<lambda>s. Some (pb_encode_tag s PB_WT_STRING (tag field))) (Some (Some (field_key (tag field) PB_WT_STRING)))"
    using emits_tag [of PB_WT_STRING "tag field"] by (simp add: PB_WT_defs)
  note tagged = performs_then [OF this packed]
  show ?thesis
  proof (cases "count = 0 \<or> PB_ATYPE (type field) \<noteq> PB_ATYPE_POINTER \<and> count > ucast (array_size field)")
    case True
    then show ?thesis by (auto simp: encode_array_def wire_array_def Let_def emits_Nil refuses_error)
  next
    case False
    show ?thesis
    proof (cases "?t \<le> PB_LTYPE_LAST_PACKABLE")
      case True
      have *: "(count = 0) = False" "(PB_ATYPE (type field) \<noteq> PB_ATYPE_POINTER \<and> count > ucast (array_size field)) = False"
        using False by auto
      show ?thesis
        by (rule performs_cong [OF tagged]) (simp_all only: encode_array_def wire_array_def Let_def * True if_True if_False)
    next
      case f: False
      from f False performs_tagged_loop [of func field val env "unat count" pd, OF assms(1)] show ?thesis
        by (auto simp: encode_array_def wire_array_def Let_def)
    qed
  qed
qed

end
