(* ===== verification/Pb_Message.thy ===== *)
theory Pb_Message
  imports Pb_Wire
begin

text \<open>
  The wire format of fields and messages, and that \<open>pb_encode\<close> emits the encoding of a message.
\<close>

section \<open>A field\<close>

text \<open>
  The rules for when a field is present: required ones always, optional ones by their flag or by
  not being at their default, arrays entry by entry, members of a union by its selector.
\<close>

definition wire_basic_field :: "nat \<Rightarrow> 's pb_env \<Rightarrow> (pb_fields \<Rightarrow> addr \<Rightarrow> wire) \<Rightarrow> pb_field_t \<Rightarrow> addr \<Rightarrow> wire" where
  "wire_basic_field depth env sub field pd =
     (let htype = PB_HTYPE (type field);
          is_pointer = (PB_ATYPE (type field) = PB_ATYPE_POINTER);
          flag = offset_ptr pd (size_offset field);
          src = (if is_pointer then load_ptr (mem env) pd else pd);
          one = wire_app (wire_tag field) (wire_value env sub field src)
      in if htype = PB_HTYPE_REQUIRED then if src = 0 then Some None else one
         else if htype = PB_HTYPE_OPTIONAL then
           if size_offset field \<noteq> 0 then if mem env flag \<noteq> 0 then one else Some (Some [])
           else (case pb_check_proto3_default_value depth env field pd of
                   None \<Rightarrow> None
                 | Some is_default \<Rightarrow> if (if is_pointer then src \<noteq> 0 else \<not> is_default) then one else Some (Some []))
         else if htype = PB_HTYPE_REPEATED then
           wire_array env field src
             (ucast (if size_offset field \<noteq> 0 then load_size (mem env) flag else array_size field)) (wire_value env sub field)
         else if size_offset field = 0 then None
         else if load_size (mem env) flag = tag field then one else Some (Some []))"

text \<open>Nothing is said about a field a user function encodes, nor about a chain of extensions.\<close>

definition wire_field :: "nat \<Rightarrow> 's pb_env \<Rightarrow> (pb_fields \<Rightarrow> addr \<Rightarrow> wire) \<Rightarrow> pb_field_t \<Rightarrow> addr \<Rightarrow> wire" where
  "wire_field depth env sub field pd =
     (let atype = PB_ATYPE (type field) in
      if PB_LTYPE (type field) = PB_LTYPE_EXTENSION then if load_ptr (mem env) pd = 0 then Some (Some []) else None
      else if atype = PB_ATYPE_STATIC \<or> atype = PB_ATYPE_POINTER then wire_basic_field depth env sub field pd
      else if atype = PB_ATYPE_CALLBACK then if load_ptr (mem env) pd = 0 then Some (Some []) else None
      else Some None)"

lemma fixed_value_length:
  "PB_LTYPE (type field) = PB_LTYPE_FIXED32 \<Longrightarrow> \<exists>bs. wire_value env sub field p = Some (Some bs) \<and> length bs = 4"
  "PB_LTYPE (type field) = PB_LTYPE_FIXED64 \<Longrightarrow> \<exists>bs. wire_value env sub field p = Some (Some bs) \<and> length bs = 8"
  by (simp_all add: wire_value_def PB_TYPE_defs)

lemma performs_basic_field:
  assumes "\<And>fs p. performs (\<lambda>s. encode s fs p) (sub fs p)"
  shows "performs (\<lambda>s. encode_basic_field depth env encode s field pd) (wire_basic_field depth env sub field pd)"
proof -
  let ?func = "PB_ENCODERS env encode (PB_LTYPE (type field))"
  note val = performs_value [of encode sub env field, OF assms]
  note one = performs_then [OF performs_tag [of field] val]
  have array: "performs (\<lambda>s. encode_array env s field p c ?func) (wire_array env field p c (wire_value env sub field))" for p c
    by (rule performs_array) (use val fixed_value_length in blast)+
  note defs = encode_basic_field_def wire_basic_field_def Let_def safe_read_bool_def PB_TYPE_defs
  consider (req) "PB_HTYPE (type field) = PB_HTYPE_REQUIRED" | (opt) "PB_HTYPE (type field) = PB_HTYPE_OPTIONAL"
    | (rep) "PB_HTYPE (type field) = PB_HTYPE_REPEATED"
    | (oneof) "PB_HTYPE (type field) \<notin> {PB_HTYPE_REQUIRED, PB_HTYPE_OPTIONAL, PB_HTYPE_REPEATED}" by blast
  then show ?thesis
  proof cases
    case req
    then show ?thesis using one refuses_error by (auto simp: defs)
  next
    case opt
    then show ?thesis
      using one emits_Nil
      by (cases "pb_check_proto3_default_value depth env field pd") (auto simp: defs)
  next
    case rep
    then show ?thesis using array by (simp add: defs)
  next
    case oneof
    then show ?thesis using one emits_Nil by (auto simp: defs)
  qed
qed

lemma performs_one_field:
  assumes "\<And>fs p. performs (\<lambda>s. encode s fs p) (sub fs p)"
  shows "performs (\<lambda>s. encode_one_field depth env encode s iter) (wire_field depth env sub (cur_field iter) (pData iter))"
  using performs_basic_field [of encode sub depth env "cur_field iter" "pData iter", OF assms] emits_Nil refuses_error
  by (auto simp: encode_one_field_def wire_field_def encode_field_def Let_def encode_extension_field_def
      encode_extension_loop.simps encode_callback_field_def)

section \<open>A message\<close>

text \<open>The fields one after the other, in the order of the field array.\<close>

primrec wire_message :: "nat \<Rightarrow> 's pb_env \<Rightarrow> pb_fields \<Rightarrow> addr \<Rightarrow> wire" where
  "wire_message 0 env fs src = None"
| "wire_message (Suc depth) env fs src =
     (if pb_fields_ok fs
      then wire_concat (map (\<lambda>i. wire_field depth env (\<lambda>fs src. wire_message depth env fs src) (fs ! i) (pData (iter_at fs src i)))
             [0 ..< length fs])
      else None)"

lemma performs_fields_loop:
  assumes "\<And>fs p. performs (\<lambda>s. encode s fs p) (sub fs p)" "pb_fields_ok fs" "i < length fs"
  shows "performs (\<lambda>s. encode_fields_loop depth env encode s (iter_at fs src i))
    (wire_concat (map (\<lambda>i. wire_field depth env sub (fs ! i) (pData (iter_at fs src i))) [i ..< length fs]))"
  using assms(3)
proof (induction "length fs - i" arbitrary: i rule: less_induct)
  case less
  let ?one = "\<lambda>s. encode_one_field depth env encode s (iter_at fs src i)"
  let ?W = "\<lambda>i. wire_field depth env sub (fs ! i) (pData (iter_at fs src i))"
  have one: "performs ?one (?W i)"
    using performs_one_field [of encode sub depth env "iter_at fs src i", OF assms(1)] cur_field_at [OF assms(2) less.prems] by simp
  have step: "encode_fields_loop depth env encode s (iter_at fs src i) =
      pb_then_opt (?one s) (\<lambda>s. if Suc i < length fs then encode_fields_loop depth env encode s (iter_at fs src (Suc i))
        else Some (True, s))" for s
    by (subst encode_fields_loop.simps)
      (simp add: iter_next_at [OF assms(2) less.prems] pb_then_opt_def del: iter_at.simps(2) split: option.split)
  have "performs (\<lambda>s. if Suc i < length fs then encode_fields_loop depth env encode s (iter_at fs src (Suc i)) else Some (True, s))
      (wire_concat (map ?W [Suc i ..< length fs]))"
    using less.hyps [of "Suc i"] less.prems emits_Nil by (cases "Suc i < length fs") (simp_all del: iter_at.simps(2))
  from performs_then [OF one this] show ?case
    by (rule performs_cong) (use less.prems in \<open>simp_all add: step upt_conv_Cons del: iter_at.simps(2)\<close>)
qed

theorem performs_message: "performs (\<lambda>s. pb_encode depth env s fs src) (wire_message depth env fs src)"
proof (induction depth arbitrary: fs src)
  case (Suc depth)
  show ?case
  proof (cases "pb_fields_ok fs")
    case True
    show ?thesis
    proof (cases "fs = []")
      case True
      then show ?thesis
        using emits_Nil by (simp add: pb_fields_ok_def pb_field_iter_begin_def field_at_def PB_LAST_FIELD_def Let_def)
    next
      case False
      have "pb_field_iter_begin fs src = (True, iter_at fs src 0)"
        using False True field_at_tag [OF True, of 0] by (simp add: pb_field_iter_begin_def Let_def)
      then show ?thesis
        using performs_fields_loop [of "pb_encode depth env" "wire_message depth env" fs 0 depth env src, OF Suc.IH True] True False
        by (simp del: iter_at.simps)
    qed
  qed simp
qed simp


section \<open>Streams\<close>

lemma buf_ok_from_buffer:
  assumes "length buf < 2 ^ 63"
  shows "buf_ok (pb_ostream_from_buffer buf (word_of_nat (length buf)))"
    "room (pb_ostream_from_buffer buf (word_of_nat (length buf))) = length buf"
proof -
  have "unat (word_of_nat (length buf) :: size_t) = length buf" using assms by (simp add: unat_of_nat_u64)
  then show "buf_ok (pb_ostream_from_buffer buf (word_of_nat (length buf)))"
    "room (pb_ostream_from_buffer buf (word_of_nat (length buf))) = length buf"
    using assms by (simp_all add: buf_ok_def room_def pb_ostream_from_buffer_def del: unat_of_nat)
qed

definition buffer_of :: "out_buffer pb_ostream_t \<Rightarrow> u8 list" where
  "buffer_of s = (case state s of None \<Rightarrow> [] | Some b \<Rightarrow> contents b)"

lemma emits_from_buffer:
  assumes "emits f bs" "length buf < 2 ^ 63"
  shows "length bs \<le> length buf \<Longrightarrow> \<exists>s. f (pb_ostream_from_buffer buf (word_of_nat (length buf))) = Some (True, s) \<and>
      unat (bytes_written s) = length bs \<and> buffer_of s = bs @ drop (length bs) buf"
    "length buf < length bs \<Longrightarrow> \<exists>s. f (pb_ostream_from_buffer buf (word_of_nat (length buf))) = Some (False, s) \<and>
      length (buffer_of s) = length buf"
proof -
  let ?s = "pb_ostream_from_buffer buf (word_of_nat (length buf))"
  note ok = buf_ok_from_buffer [OF assms(2)]
  show "\<exists>s. f ?s = Some (True, s) \<and> unat (bytes_written s) = length bs \<and> buffer_of s = bs @ drop (length bs) buf"
    if "length bs \<le> length buf"
  proof -
    have r: "length bs \<le> room ?s" using that ok(2) by simp
    have "unat (bytes_written (put ?s bs)) = length bs"
      using put_facts(3) [OF ok(1) r] by (simp add: pb_ostream_from_buffer_def)
    moreover have "buffer_of (put ?s bs) = bs @ drop (length bs) buf"
      by (simp add: put_def buffer_of_def buf_write_def pb_ostream_from_buffer_def)
    ultimately show ?thesis using emits_fits [OF assms(1) ok(1) r] by blast
  qed
  show "\<exists>s. f ?s = Some (False, s) \<and> length (buffer_of s) = length buf" if "length buf < length bs"
  proof -
    have "\<not> length bs \<le> room ?s" using that ok(2) by simp
    from emits_full [OF assms(1) ok(1) this] obtain s where s: "f ?s = Some (False, s)" "stays ?s s" by blast
    from s(2) have "length (buffer_of s) = length buf"
      by (auto simp: stays_def buffer_of_def pb_ostream_from_buffer_def)
    with s(1) show ?thesis by blast
  qed
qed

lemma emits_message: "wire_message depth env fs src = Some (Some bs) \<Longrightarrow> emits (\<lambda>s. pb_encode depth env s fs src) bs"
  using performs_message [of depth env fs src] by simp

lemma encoded_size:
  assumes "wire_message depth env fs src = Some (Some bs)"
  shows "pb_get_encoded_size depth (env :: out_buffer pb_env) fs src = Some (Some (word_of_nat (length bs)))"
  using emits_sizing [OF emits_message [OF assms], of PB_OSTREAM_SIZING]
  by (simp add: pb_get_encoded_size_def PB_OSTREAM_SIZING_def)

lemma emits_delimited:
  assumes "wire_message depth env fs src = Some (Some bs)" "length bs < 2 ^ 63"
  shows "emits (\<lambda>s. pb_encode_delimited depth env s fs src) (varint (length bs) @ bs)"
  using performs_submessage [of "pb_encode depth env" fs src, OF performs_message] assms
  by (simp add: pb_encode_delimited_def)

end
