(* ===== verification/Pb_Properties.thy ===== *)
theory Pb_Properties
  imports Pb_Message
begin

text \<open>
  Properties of the nanopb encoder.
\<close>

section \<open>A message with its field arrays\<close>

text \<open>
  A structure of 8 bytes at address 4096: an \<open>int32_t\<close> with value 300, and a submessage with an
  \<open>sint32\<close> of value -2. The field array of the submessage is at address 64.
\<close>

definition demo_memory :: memory where
  "demo_memory p =
     (if p = 4096 then 0x2c else if p = 4097 then 1 else if p = 4100 then 0xfe
      else if p = 4101 \<or> p = 4102 \<or> p = 4103 then 0xff else 0)"

definition demo_sub_fields :: pb_fields where
  "demo_sub_fields = [\<lparr>tag = 2, type = 0x03, data_offset = 0, size_offset = 0, data_size = 4, array_size = 0, ptr = 0\<rparr>]"

definition demo_fields :: pb_fields where
  "demo_fields =
     [\<lparr>tag = 1, type = 0x01, data_offset = 0, size_offset = 0, data_size = 4, array_size = 0, ptr = 0\<rparr>,
      \<lparr>tag = 3, type = 0x08, data_offset = 0, size_offset = 0, data_size = 4, array_size = 0, ptr = 64\<rparr>]"

definition demo_env :: "out_buffer pb_env" where
  "demo_env = \<lparr>mem = demo_memory, fields_at = (\<lambda>p. if p = 64 then demo_sub_fields else []),
     user_encode = (\<lambda>f s field arg. None), extension_encode = (\<lambda>f s e. None), indeterminate = 0\<rparr>"

lemma demo_wire:
  "wire_message 2 demo_env demo_fields 4096 = Some (Some [0x08, 0xac, 0x02, 0x1a, 2, 0x10, 3])"
  by code_simp


definition demo_missing :: pb_fields where
  "demo_missing = [\<lparr>tag = 1, type = 0x81, data_offset = 8, size_offset = 0, data_size = 4, array_size = 0, ptr = 0\<rparr>]"

lemma demo_missing_wire: "wire_message 1 demo_env demo_missing 4096 = Some None"
  by code_simp

lemma demo_lengths:
  "Suc (Suc (Suc (Suc (Suc (Suc (Suc 0)))))) = 7" "Suc (Suc (Suc (Suc (Suc (Suc (Suc (Suc 0))))))) = 8"
  by simp_all

section \<open>Messages\<close>

text \<open>
  C7. Encoding implements the wire format: where the format gives a message the bytes \<open>bs\<close>,
  \<open>pb_encode\<close> on a buffer that holds them succeeds with exactly \<open>bs\<close> in front and the rest of the
  buffer as it was, and on a smaller buffer it fails without growing it; \<open>pb_get_encoded_size\<close> is
  the length of \<open>bs\<close>.
\<close>

theorem pb_encode_refines_wire:
  assumes "wire_message depth env fs src = Some (Some bs)" "length buf < 2 ^ 63"
  shows "pb_get_encoded_size depth env fs src = Some (Some (word_of_nat (length bs))) \<and>
    (if length bs \<le> length buf
      then \<exists>s. pb_encode depth env (pb_ostream_from_buffer buf (word_of_nat (length buf))) fs src = Some (True, s) \<and>
             unat (bytes_written s) = length bs \<and> buffer_of s = bs @ drop (length bs) buf
      else \<exists>s. pb_encode depth env (pb_ostream_from_buffer buf (word_of_nat (length buf))) fs src = Some (False, s) \<and>
             length (buffer_of s) = length buf)"
  using encoded_size [OF assms(1)] emits_from_buffer [OF emits_message [OF assms(1)] assms(2)] by auto

theorem pb_encode_refines_wire_witness:
  "\<exists>s. pb_encode 2 demo_env (pb_ostream_from_buffer (replicate 8 0) (word_of_nat (length (replicate 8 (0 :: u8))))) demo_fields 4096 =
     Some (True, s) \<and> unat (bytes_written s) = 7 \<and> buffer_of s = [0x08, 0xac, 0x02, 0x1a, 2, 0x10, 3, 0]"
  using pb_encode_refines_wire [OF demo_wire, of "replicate 8 0"] by (simp add: demo_lengths)

text \<open>
  C31. A message the wire format has no encoding for, such as one with a required field missing, is
  refused: \<open>pb_encode\<close> fails on every buffer and \<open>pb_get_encoded_size\<close> gives no size.
\<close>

theorem pb_encode_refuses:
  assumes "wire_message depth env fs src = Some None" "length buf < 2 ^ 63"
  shows "pb_get_encoded_size depth env fs src = Some None \<and>
    (\<exists>s. pb_encode depth env (pb_ostream_from_buffer buf (word_of_nat (length buf))) fs src = Some (False, s))"
proof
  show "pb_get_encoded_size depth env fs src = Some None"
    and "\<exists>s. pb_encode depth env (pb_ostream_from_buffer buf (word_of_nat (length buf))) fs src = Some (False, s)"
  proof -
  have r: "refuses (\<lambda>s. pb_encode depth env s fs src)" using performs_message [of depth env fs src] assms(1) by simp
  then show "\<exists>s. pb_encode depth env (pb_ostream_from_buffer buf (word_of_nat (length buf))) fs src = Some (False, s)"
    using buf_ok_from_buffer(1) [OF assms(2)] by (auto simp: refuses_def)
  have "callback (PB_OSTREAM_SIZING :: out_buffer pb_ostream_t) = None" by (simp add: PB_OSTREAM_SIZING_def)
  with r obtain s where "pb_encode depth env PB_OSTREAM_SIZING fs src = Some (False, s)" unfolding refuses_def by blast
  then show "pb_get_encoded_size depth env fs src = Some None" by (simp add: pb_get_encoded_size_def)
  qed
qed

theorem pb_encode_refuses_witness:
  "pb_get_encoded_size 1 demo_env demo_missing 4096 = Some None"
  using pb_encode_refuses [OF demo_missing_wire, of "[]"] by simp

text \<open>
  C32. Whatever becomes of the encoding, the buffer keeps its length, and outside the part between the
  position of the stream and its limit no byte changes.
\<close>

theorem pb_encode_stays_in_buffer:
  assumes "wire_message depth env fs src \<noteq> None" "buf_ok s"
  shows "\<exists>ok s'. pb_encode depth env s fs src = Some (ok, s') \<and> stays s s'"
proof -
  obtain r where r: "wire_message depth env fs src = Some r" using assms(1) by blast
  show ?thesis
  proof (cases r)
    case None
    then have "refuses (\<lambda>s. pb_encode depth env s fs src)" using performs_message [of depth env fs src] r by simp
    with assms(2) show ?thesis unfolding refuses_def by blast
  next
    case (Some bs)
    with r have "emits (\<lambda>s. pb_encode depth env s fs src) bs" by (simp add: emits_message)
    from emits_buffer [OF this assms(2)] stays_put_self [OF assms(2), of bs] show ?thesis by (auto split: if_splits)
  qed
qed

theorem pb_encode_stays_in_buffer_witness:
  "\<exists>ok s'. pb_encode 2 demo_env (pb_ostream_from_buffer [1, 2, 3] (word_of_nat (length [1, 2, 3 :: u8]))) demo_fields 4096 =
     Some (ok, s') \<and> stays (pb_ostream_from_buffer [1, 2, 3] (word_of_nat (length [1, 2, 3 :: u8]))) s'"
  using pb_encode_stays_in_buffer [of 2 demo_env demo_fields 4096] buf_ok_from_buffer(1) [of "[1, 2, 3]"]
  by (simp add: demo_wire del: length_Cons)

text \<open>
  A delimited message is its length as a varint and its encoding. The two passes over the message
  agree: the error \<open>submsg size changed\<close> does not occur.
\<close>

theorem pb_encode_delimited_wire:
  assumes "wire_message depth env fs src = Some (Some bs)" "length bs < 2 ^ 63" "length buf < 2 ^ 63"
    "length (varint (length bs) @ bs) \<le> length buf"
  shows "\<exists>s. pb_encode_delimited depth env (pb_ostream_from_buffer buf (word_of_nat (length buf))) fs src = Some (True, s) \<and>
    unat (bytes_written s) = length (varint (length bs) @ bs) \<and>
    buffer_of s = varint (length bs) @ bs @ drop (length (varint (length bs) @ bs)) buf"
  using emits_from_buffer(1) [OF emits_delimited [OF assms(1,2)] assms(3,4)] by simp

lemma varint_small: "n < 128 \<Longrightarrow> varint n = [word_of_nat n]"
  by (simp add: varint.simps)

theorem pb_encode_delimited_wire_witness:
  "\<exists>s. pb_encode_delimited 2 demo_env (pb_ostream_from_buffer (replicate 8 0) (word_of_nat (length (replicate 8 (0 :: u8))))) demo_fields 4096 =
     Some (True, s) \<and> unat (bytes_written s) = 8 \<and> buffer_of s = [7, 0x08, 0xac, 0x02, 0x1a, 2, 0x10, 3]"
  using pb_encode_delimited_wire [OF demo_wire, of "replicate 8 0"] by (simp add: varint_small demo_lengths)

section \<open>The field iterator\<close>

text \<open>
  C37. Searching a field always returns. It starts at the current field, goes around the field array
  and stops at the first field with the tag that is no extension; when there is none the iterator is
  back where it was.
\<close>

theorem pb_field_iter_find_first:
  assumes "pb_fields_ok fs" "i < length fs"
  shows "pb_field_iter_find (iter_at fs dest i) t =
    Some (case find (field_matches fs t) ([i ..< length fs] @ [0 ..< i]) of
            Some j \<Rightarrow> (True, iter_at fs dest j) | None \<Rightarrow> (False, iter_at fs dest i))"
  by (rule pb_field_iter_find_at [OF assms])

theorem pb_field_iter_find_first_witness:
  "pb_field_iter_find (iter_at demo_fields 4096 1) 1 = Some (True, iter_at demo_fields 4096 0)"
  using pb_field_iter_find_first [of demo_fields 1 4096 1]
  by (simp add: demo_fields_def pb_fields_ok_def field_matches_def PB_TYPE_defs PB_LTYPE_def upt_rec del: iter_at.simps)

end
