(* ===== verification/Pb_Istream.thy ===== *)
theory Pb_Istream
  imports Pb
begin

text \<open>
  nanopb, pb_decode.c: input streams, variable-length integers, tags, skipping and substreams.
  A function that takes a stream returns the stream it leaves, on failure as well.
\<close>

section \<open>Input streams\<close>

text \<open>
  \<open>pb_istream_s\<close>. The callback and the state it works on are either \<open>buf_read\<close> with the bytes from
  \<open>state\<close> on, or a user function with its state. A user function gets its state, whether there is
  a buffer to fill and the count; it returns the bytes it read, or \<open>None\<close> on an error, in which case
  it may also set \<open>bytes_left\<close> to 0 to say that the input has ended. (pb_decode.h leaves
  \<open>bytes_left\<close> to \<open>pb_read\<close> otherwise.)
\<close>

datatype 's istream_source =
    BUF_READ "u8 list"
  | USER_READ "'s \<Rightarrow> bool \<Rightarrow> size_t \<Rightarrow> (nat \<Rightarrow> u8) option \<times> bool \<times> 's" 's

record 's pb_istream_t =
  source :: "'s istream_source"
  bytes_left :: size_t
  errmsg :: "string option"

definition PB_SET_ERROR :: "'s pb_istream_t \<Rightarrow> string \<Rightarrow> 's pb_istream_t" where
  "PB_SET_ERROR stream msg = stream\<lparr>errmsg := (if errmsg stream = None then Some msg else errmsg stream)\<rparr>"

definition is_buf_read :: "'s pb_istream_t \<Rightarrow> bool" where
  "is_buf_read stream = (case source stream of BUF_READ _ \<Rightarrow> True | USER_READ _ _ \<Rightarrow> False)"

definition buf_read :: "u8 list \<Rightarrow> bool \<Rightarrow> size_t \<Rightarrow> u8 list \<times> u8 list" where
  "buf_read st buf count = (if buf then take (unat count) st else [], drop (unat count) st)"

text \<open>\<open>stream->callback(stream, buf, count)\<close>: the bytes it stored, or \<open>None\<close> if it returned false.\<close>

definition call_callback :: "'s pb_istream_t \<Rightarrow> bool \<Rightarrow> size_t \<Rightarrow> u8 list option \<times> 's pb_istream_t" where
  "call_callback stream buf count =
     (case source stream of
        BUF_READ st \<Rightarrow> (case buf_read st buf count of (bs, st) \<Rightarrow> (Some bs, stream\<lparr>source := BUF_READ st\<rparr>))
      | USER_READ f st \<Rightarrow>
          (case f st buf count of (r, ended, st) \<Rightarrow>
             (map_option (\<lambda>b. if buf then map b [0 ..< unat count] else []) r,
              stream\<lparr>source := USER_READ f st, bytes_left := (if r = None \<and> ended then 0 else bytes_left stream)\<rparr>)))"

text \<open>
  \<open>pb_read\<close> where it calls the callback: with a buffer, or on \<open>buf_read\<close>. The result is the bytes
  stored, or \<open>None\<close> for false.
\<close>

definition pb_read_direct :: "'s pb_istream_t \<Rightarrow> bool \<Rightarrow> size_t \<Rightarrow> u8 list option \<times> 's pb_istream_t" where
  "pb_read_direct stream buf count =
     (if bytes_left stream < count then (None, PB_SET_ERROR stream ''end-of-stream'')
      else case call_callback stream buf count of
             (None, stream) \<Rightarrow> (None, PB_SET_ERROR stream ''io error'')
           | (Some bs, stream) \<Rightarrow> (Some bs, stream\<lparr>bytes_left := bytes_left stream - count\<rparr>))"

text \<open>The loop that skips input through a buffer of 16 bytes; the count is not zero.\<close>

function skip_loop :: "'s pb_istream_t \<Rightarrow> size_t \<Rightarrow> u8 list option \<times> 's pb_istream_t" where
  "skip_loop stream count =
     (if count > 16 then
        case pb_read_direct stream True 16 of
          (None, stream) \<Rightarrow> (None, stream)
        | (Some _, stream) \<Rightarrow> skip_loop stream (count - 16)
      else case pb_read_direct stream True count of
             (None, stream) \<Rightarrow> (None, stream)
           | (Some _, stream) \<Rightarrow> (Some [], stream))"
  by pat_completeness auto
termination
proof (relation "measure (\<lambda>(stream, count). unat count)")
  fix stream s :: "'s pb_istream_t" and count :: size_t
  assume gt: "16 < count"
  then have "unat (count - 16) = unat count - 16" by (simp add: unat_sub_if' word_less_nat_alt)
  then show "((s, count - 16), stream, count) \<in> measure (\<lambda>(stream, count). unat count)"
    using gt by (simp add: word_less_nat_alt)
qed simp

declare skip_loop.simps [simp del]

definition pb_read :: "'s pb_istream_t \<Rightarrow> bool \<Rightarrow> size_t \<Rightarrow> u8 list option \<times> 's pb_istream_t" where
  "pb_read stream buf count =
     (if count = 0 then (Some [], stream)
      else if \<not> buf \<and> \<not> is_buf_read stream then skip_loop stream count
      else pb_read_direct stream buf count)"

definition pb_readbyte :: "'s pb_istream_t \<Rightarrow> u8 option \<times> 's pb_istream_t" where
  "pb_readbyte stream =
     (if bytes_left stream = 0 then (None, PB_SET_ERROR stream ''end-of-stream'')
      else case call_callback stream True 1 of
             (None, stream) \<Rightarrow> (None, PB_SET_ERROR stream ''io error'')
           | (Some bs, stream) \<Rightarrow> (Some (bs ! 0), stream\<lparr>bytes_left := bytes_left stream - 1\<rparr>))"

definition pb_istream_from_buffer :: "u8 list \<Rightarrow> size_t \<Rightarrow> 's pb_istream_t" where
  "pb_istream_from_buffer buf bufsize = \<lparr>source = BUF_READ buf, bytes_left = bufsize, errmsg = None\<rparr>"

lemma call_callback_left:
  "call_callback stream buf count = (Some bs, stream') \<Longrightarrow> bytes_left stream' = bytes_left stream"
  by (auto simp: call_callback_def split: istream_source.splits prod.splits)

lemma pb_readbyte_left:
  assumes "pb_readbyte stream = (Some b, stream')"
  shows "unat (bytes_left stream') < unat (bytes_left stream)"
proof -
  have "bytes_left stream \<noteq> 0" using assms by (auto simp: pb_readbyte_def)
  moreover have "bytes_left stream' = bytes_left stream - 1"
    using assms by (auto simp: pb_readbyte_def split: if_splits option.splits prod.splits dest: call_callback_left)
  ultimately show ?thesis by (simp add: unat_minus_one unat_gt_0)
qed

lemma pb_read_left:
  assumes "pb_read_direct stream buf count = (Some bs, stream')"
  shows "unat (bytes_left stream') + unat count = unat (bytes_left stream)"
proof -
  have "count \<le> bytes_left stream" using assms by (auto simp: pb_read_direct_def not_less split: if_splits)
  moreover have "bytes_left stream' = bytes_left stream - count"
    using assms by (auto simp: pb_read_direct_def split: if_splits option.splits prod.splits dest: call_callback_left)
  ultimately show ?thesis by (simp add: unat_sub word_le_nat_alt)
qed

lemma pb_read_byte_left: "pb_read stream True 1 = (Some bs, stream') \<Longrightarrow> unat (bytes_left stream') < unat (bytes_left stream)"
  using pb_read_left [of stream True 1 bs stream'] by (simp add: pb_read_def)

section \<open>Variable-length integers\<close>

text \<open>
  The loop of \<open>pb_decode_varint32_eof\<close> over the bytes after the first: the value of \<open>bitpos\<close>, an
  8-bit number, at its end, the last byte and the result.
\<close>

function varint32_loop :: "u8 \<Rightarrow> u32 \<Rightarrow> 's pb_istream_t \<Rightarrow> (u8 \<times> u8 \<times> u32) option \<times> 's pb_istream_t" where
  "varint32_loop bitpos result stream =
     (case pb_readbyte stream of
        (None, stream) \<Rightarrow> (None, stream)
      | (Some byte, stream) \<Rightarrow>
          let sign_extension = (if bitpos < 63 then 0xff else 0x01) in
          if bitpos \<ge> 32 \<and> byte AND 0x7f \<noteq> 0 \<and> (drop_bit 31 result = 0 \<or> byte \<noteq> sign_extension)
          then (None, PB_SET_ERROR stream ''varint overflow'')
          else
            let result = (if bitpos \<ge> 32 then result
                          else result OR push_bit (unat bitpos) (ucast (byte AND 0x7f)));
                bitpos = bitpos + 7
            in if byte AND 0x80 \<noteq> 0 then varint32_loop bitpos result stream
               else (Some (bitpos, byte, result), stream))"
  by pat_completeness auto
termination
  by (relation "measure (\<lambda>(bitpos, result, stream). unat (bytes_left stream))")
    (auto dest!: pb_readbyte_left [OF sym])

declare varint32_loop.simps [simp del]

text \<open>The value, or \<open>None\<close> for false; then whether \<open>*eof\<close> is set; then the stream.\<close>

definition pb_decode_varint32_eof :: "'s pb_istream_t \<Rightarrow> u32 option \<times> bool \<times> 's pb_istream_t" where
  "pb_decode_varint32_eof stream =
     (case pb_readbyte stream of
        (None, stream) \<Rightarrow> (None, bytes_left stream = 0, stream)
      | (Some byte, stream) \<Rightarrow>
          if byte AND 0x80 = 0 then (Some (ucast byte), False, stream)
          else
            (case varint32_loop 7 (ucast (byte AND 0x7f)) stream of
               (None, stream) \<Rightarrow> (None, False, stream)
             | (Some (bitpos, byte, result), stream) \<Rightarrow>
                 if bitpos = 35 \<and> byte AND 0x70 \<noteq> 0 then (None, False, PB_SET_ERROR stream ''varint overflow'')
                 else (Some result, False, stream)))"

definition pb_decode_varint32 :: "'s pb_istream_t \<Rightarrow> u32 option \<times> 's pb_istream_t" where
  "pb_decode_varint32 stream = (case pb_decode_varint32_eof stream of (r, eof, stream) \<Rightarrow> (r, stream))"

text \<open>The loop of \<open>pb_decode_varint\<close>.\<close>

function varint64_loop :: "u8 \<Rightarrow> u64 \<Rightarrow> 's pb_istream_t \<Rightarrow> u64 option \<times> 's pb_istream_t" where
  "varint64_loop bitpos result stream =
     (if bitpos \<ge> 64 then (None, PB_SET_ERROR stream ''varint overflow'')
      else case pb_readbyte stream of
             (None, stream) \<Rightarrow> (None, stream)
           | (Some byte, stream) \<Rightarrow>
               let result = result OR push_bit (unat bitpos) (ucast (byte AND 0x7f)); bitpos = bitpos + 7
               in if byte AND 0x80 \<noteq> 0 then varint64_loop bitpos result stream else (Some result, stream))"
  by pat_completeness auto
termination
  by (relation "measure (\<lambda>(bitpos, result, stream). unat (bytes_left stream))")
    (auto dest!: pb_readbyte_left [OF sym])

declare varint64_loop.simps [simp del]

definition pb_decode_varint :: "'s pb_istream_t \<Rightarrow> u64 option \<times> 's pb_istream_t" where
  "pb_decode_varint stream = varint64_loop 0 0 stream"

definition pb_decode_svarint :: "'s pb_istream_t \<Rightarrow> u64 option \<times> 's pb_istream_t" where
  "pb_decode_svarint stream =
     (case pb_decode_varint stream of
        (None, stream) \<Rightarrow> (None, stream)
      | (Some v, stream) \<Rightarrow> (Some (if v AND 1 \<noteq> 0 then NOT (drop_bit 1 v) else drop_bit 1 v), stream))"

definition pb_decode_bool :: "'s pb_istream_t \<Rightarrow> bool option \<times> 's pb_istream_t" where
  "pb_decode_bool stream =
     (case pb_decode_varint32 stream of
        (None, stream) \<Rightarrow> (None, stream)
      | (Some v, stream) \<Rightarrow> (Some (v \<noteq> 0), stream))"

definition pb_decode_fixed32 :: "'s pb_istream_t \<Rightarrow> u32 option \<times> 's pb_istream_t" where
  "pb_decode_fixed32 stream =
     (case pb_read stream True 4 of
        (None, stream) \<Rightarrow> (None, stream)
      | (Some bytes, stream) \<Rightarrow>
          (Some (ucast (bytes ! 0) OR push_bit 8 (ucast (bytes ! 1)) OR push_bit 16 (ucast (bytes ! 2)) OR
             push_bit 24 (ucast (bytes ! 3))), stream))"

definition pb_decode_fixed64 :: "'s pb_istream_t \<Rightarrow> u64 option \<times> 's pb_istream_t" where
  "pb_decode_fixed64 stream =
     (case pb_read stream True 8 of
        (None, stream) \<Rightarrow> (None, stream)
      | (Some bytes, stream) \<Rightarrow>
          (Some (ucast (bytes ! 0) OR push_bit 8 (ucast (bytes ! 1)) OR push_bit 16 (ucast (bytes ! 2)) OR
             push_bit 24 (ucast (bytes ! 3)) OR push_bit 32 (ucast (bytes ! 4)) OR push_bit 40 (ucast (bytes ! 5)) OR
             push_bit 48 (ucast (bytes ! 6)) OR push_bit 56 (ucast (bytes ! 7))), stream))"

section \<open>Skipping, tags and substreams\<close>

function pb_skip_varint :: "'s pb_istream_t \<Rightarrow> bool \<times> 's pb_istream_t" where
  "pb_skip_varint stream =
     (case pb_read stream True 1 of
        (None, stream) \<Rightarrow> (False, stream)
      | (Some bs, stream) \<Rightarrow> if bs ! 0 AND 0x80 \<noteq> 0 then pb_skip_varint stream else (True, stream))"
  by pat_completeness auto
termination
  by (relation "measure (\<lambda>stream. unat (bytes_left stream))") (auto dest!: pb_read_byte_left [OF sym])

declare pb_skip_varint.simps [simp del]

definition read_ok :: "u8 list option \<times> 's pb_istream_t \<Rightarrow> bool \<times> 's pb_istream_t" where
  "read_ok r = (fst r \<noteq> None, snd r)"

definition pb_skip_string :: "'s pb_istream_t \<Rightarrow> bool \<times> 's pb_istream_t" where
  "pb_skip_string stream =
     (case pb_decode_varint32 stream of
        (None, stream) \<Rightarrow> (False, stream)
      | (Some n, stream) \<Rightarrow> read_ok (pb_read stream False (ucast n)))"

text \<open>The wire type and the tag, or \<open>None\<close> for false; then \<open>*eof\<close>; then the stream.\<close>

definition pb_decode_tag :: "'s pb_istream_t \<Rightarrow> (pb_wire_type_t \<times> u32) option \<times> bool \<times> 's pb_istream_t" where
  "pb_decode_tag stream =
     (case pb_decode_varint32_eof stream of
        (None, eof, stream) \<Rightarrow> (None, eof, stream)
      | (Some temp, eof, stream) \<Rightarrow>
          if temp = 0 then (None, True, stream) else (Some (temp AND 7, drop_bit 3 temp), eof, stream))"

definition pb_skip_field :: "'s pb_istream_t \<Rightarrow> pb_wire_type_t \<Rightarrow> bool \<times> 's pb_istream_t" where
  "pb_skip_field stream wire_type =
     (if wire_type = PB_WT_VARINT then pb_skip_varint stream
      else if wire_type = PB_WT_64BIT then read_ok (pb_read stream False 8)
      else if wire_type = PB_WT_STRING then pb_skip_string stream
      else if wire_type = PB_WT_32BIT then read_ok (pb_read stream False 4)
      else (False, PB_SET_ERROR stream ''invalid wire_type''))"

text \<open>The loop of \<open>read_raw_value\<close> over the bytes of a varint, with what is in the buffer so far.\<close>

function raw_varint_loop :: "size_t \<Rightarrow> u8 list \<Rightarrow> 's pb_istream_t \<Rightarrow> u8 list option \<times> 's pb_istream_t" where
  "raw_varint_loop max_size buf stream =
     (if word_of_nat (length buf) + 1 > max_size then (None, stream)
      else case pb_read stream True 1 of
             (None, stream) \<Rightarrow> (None, stream)
           | (Some bs, stream) \<Rightarrow>
               if bs ! 0 AND 0x80 \<noteq> 0 then raw_varint_loop max_size (buf @ [bs ! 0]) stream
               else (Some (buf @ [bs ! 0]), stream))"
  by pat_completeness auto
termination
  by (relation "measure (\<lambda>(max_size, buf, stream). unat (bytes_left stream))") (auto dest!: pb_read_byte_left [OF sym])

declare raw_varint_loop.simps [simp del]

text \<open>The bytes of the value, whose number is \<open>*size\<close>, or \<open>None\<close> for false.\<close>

definition read_raw_value ::
  "'s pb_istream_t \<Rightarrow> pb_wire_type_t \<Rightarrow> size_t \<Rightarrow> u8 list option \<times> 's pb_istream_t" where
  "read_raw_value stream wire_type max_size =
     (if wire_type = PB_WT_VARINT then raw_varint_loop max_size [] stream
      else if wire_type = PB_WT_64BIT then pb_read stream True 8
      else if wire_type = PB_WT_32BIT then pb_read stream True 4
      else (None, PB_SET_ERROR stream ''invalid wire_type''))"

text \<open>The substream, or \<open>None\<close> for false, and the stream.\<close>

definition pb_make_string_substream :: "'s pb_istream_t \<Rightarrow> 's pb_istream_t option \<times> 's pb_istream_t" where
  "pb_make_string_substream stream =
     (case pb_decode_varint32 stream of
        (None, stream) \<Rightarrow> (None, stream)
      | (Some n, stream) \<Rightarrow>
          if bytes_left stream < ucast n then (None, PB_SET_ERROR stream ''parent stream too short'')
          else (Some (stream\<lparr>bytes_left := ucast n\<rparr>), stream\<lparr>bytes_left := bytes_left stream - ucast n\<rparr>))"

definition pb_close_string_substream :: "'s pb_istream_t \<Rightarrow> 's pb_istream_t \<Rightarrow> bool \<times> 's pb_istream_t" where
  "pb_close_string_substream stream substream =
     (case (if bytes_left substream \<noteq> 0 then pb_read substream False (bytes_left substream) else (Some [], substream)) of
        (None, substream) \<Rightarrow> (False, stream)
      | (Some _, substream) \<Rightarrow> (True, stream\<lparr>source := source substream, errmsg := errmsg substream\<rparr>))"

end
