(* ===== verification/Pb_Reader.thy ===== *)
theory Pb_Reader
  imports Pb_Istream
begin

text \<open>
  The interface of everything that reads from a stream over a buffer: it yields what a function on
  the input bytes says, consumes a prefix of them, and never goes past \<open>bytes_left\<close>.
\<close>

section \<open>Streams over a buffer\<close>

definition istream_ok :: "'s pb_istream_t \<Rightarrow> bool" where
  "istream_ok s = (case source s of BUF_READ bs \<Rightarrow> unat (bytes_left s) \<le> length bs | USER_READ _ _ \<Rightarrow> False)"

text \<open>The bytes the stream has left.\<close>

definition input :: "'s pb_istream_t \<Rightarrow> u8 list" where
  "input s = (case source s of BUF_READ bs \<Rightarrow> take (unat (bytes_left s)) bs | USER_READ _ _ \<Rightarrow> [])"

definition eat :: "'s pb_istream_t \<Rightarrow> nat \<Rightarrow> 's pb_istream_t" where
  "eat s k = (case source s of
     BUF_READ bs \<Rightarrow> s\<lparr>source := BUF_READ (drop k bs), bytes_left := bytes_left s - word_of_nat k\<rparr>
   | USER_READ _ _ \<Rightarrow> s)"

text \<open>A stream that has consumed part of the input of another one, with whatever error message.\<close>

definition within :: "'s pb_istream_t \<Rightarrow> 's pb_istream_t \<Rightarrow> bool" where
  "within s s' \<longleftrightarrow> (\<exists>k \<le> length (input s). \<exists>e. s' = (eat s k)\<lparr>errmsg := e\<rparr>)"

lemma istream_okE:
  assumes "istream_ok s"
  obtains bs where "source s = BUF_READ bs" "unat (bytes_left s) \<le> length bs" "input s = take (unat (bytes_left s)) bs"
  using assms by (auto simp: istream_ok_def input_def split: istream_source.splits)

lemma length_input: "istream_ok s \<Longrightarrow> length (input s) = unat (bytes_left s)"
  by (erule istream_okE) simp

lemma eat_left:
  assumes "istream_ok s" "k \<le> length (input s)"
  shows "unat (bytes_left (eat s k)) = unat (bytes_left s) - k"
proof -
  have k: "k \<le> unat (bytes_left s)" using assms by (simp add: length_input)
  then have "unat (word_of_nat k :: u64) = k" using unat_u64_less [of "bytes_left s"] by (intro unat_of_nat_u64) linarith
  with assms(1) k show ?thesis by (elim istream_okE) (simp add: eat_def unat_sub word_le_nat_alt del: unat_of_nat)
qed

lemma eat_facts [simp]:
  assumes "istream_ok s" "k \<le> length (input s)"
  shows "istream_ok (eat s k)" "input (eat s k) = drop k (input s)"
proof -
  obtain bs where bs: "source s = BUF_READ bs" "unat (bytes_left s) \<le> length bs" "input s = take (unat (bytes_left s)) bs"
    by (rule istream_okE [OF assms(1)])
  have e: "source (eat s k) = BUF_READ (drop k bs)" using bs by (simp add: eat_def)
  note l = eat_left [OF assms]
  show "istream_ok (eat s k)" "input (eat s k) = drop k (input s)"
    using bs l unfolding istream_ok_def input_def e by (simp_all add: drop_take)
qed

lemma eat_0 [simp]: "eat s 0 = s"
  by (simp add: eat_def split: istream_source.split)

lemma eat_eat: "eat (eat s j) k = eat s (j + k)"
  by (simp add: eat_def add.commute diff_diff_eq split: istream_source.split)

lemma eat_errmsg [simp]: "errmsg (eat s k) = errmsg s" "eat (s\<lparr>errmsg := e\<rparr>) k = (eat s k)\<lparr>errmsg := e\<rparr>"
  "istream_ok (s\<lparr>errmsg := e\<rparr>) = istream_ok s" "input (s\<lparr>errmsg := e\<rparr>) = input s"
  by (simp_all add: eat_def istream_ok_def input_def split: istream_source.split)

lemma within_eat: "k \<le> length (input s) \<Longrightarrow> within s (eat s k)"
proof -
  have "eat s k = (eat s k)\<lparr>errmsg := errmsg s\<rparr>" by (simp add: eat_def split: istream_source.split)
  then show "k \<le> length (input s) \<Longrightarrow> within s (eat s k)" unfolding within_def by metis
qed

lemma within_refl: "within s s"
  using within_eat [of 0 s] by simp

lemma within_error: "within s s' \<Longrightarrow> within s (PB_SET_ERROR s' msg)"
  by (auto simp: within_def PB_SET_ERROR_def intro!: exI)

lemma within_error_refl: "within s (PB_SET_ERROR s msg)"
  by (rule within_error [OF within_refl])

lemma within_trans:
  assumes "istream_ok s" "within s s'" "within s' s''"
  shows "within s s''"
proof -
  obtain j e where j: "j \<le> length (input s)" "s' = (eat s j)\<lparr>errmsg := e\<rparr>" using assms(2) by (auto simp: within_def)
  obtain k e' where k: "k \<le> length (input s')" "s'' = (eat s' k)\<lparr>errmsg := e'\<rparr>" using assms(3) by (auto simp: within_def)
  have "k \<le> length (input s) - j" using j k(1) assms(1) by simp
  then have "j + k \<le> length (input s)" "s'' = (eat s (j + k))\<lparr>errmsg := e'\<rparr>" using j k(2) by (simp_all add: eat_eat)
  then show ?thesis unfolding within_def by blast
qed

lemma within_facts:
  assumes "istream_ok s" "within s s'"
  shows "istream_ok s'" "\<exists>k. input s' = drop k (input s)" "unat (bytes_left s') \<le> unat (bytes_left s)"
  using assms by (auto simp: within_def eat_left)

section \<open>Readers\<close>

text \<open>
  On one stream. \<open>spec\<close> takes the input and gives the value with the rest of the input, or \<open>None\<close>.
\<close>

definition reads_as ::
  "('s pb_istream_t \<Rightarrow> 'a option \<times> 's pb_istream_t) \<Rightarrow> (u8 list \<Rightarrow> ('a \<times> u8 list) option) \<Rightarrow> 's pb_istream_t \<Rightarrow> bool" where
  "reads_as get spec s \<longleftrightarrow>
     (case spec (input s) of
        None \<Rightarrow> \<exists>s'. get s = (None, s') \<and> within s s'
      | Some (v, rest) \<Rightarrow> get s = (Some v, eat s (length (input s) - length rest)) \<and> (\<exists>k. rest = drop k (input s)))"

lemma reads_asE:
  assumes "istream_ok s" "reads_as get spec s"
  obtains (got) v s' where "spec (input s) = Some (v, input s')" "get s = (Some v, s')" "istream_ok s'" "within s s'"
      "s' = eat s (length (input s) - length (input s'))" "errmsg s' = errmsg s"
  | (fails) s' where "spec (input s) = None" "get s = (None, s')" "within s s'"
proof (cases "spec (input s)")
  case None
  with assms(2) fails show ?thesis by (auto simp: reads_as_def)
next
  case (Some p)
  then obtain v rest where p: "spec (input s) = Some (v, rest)" by (cases p) simp
  then obtain k where g: "get s = (Some v, eat s (length (input s) - length rest))" "rest = drop k (input s)"
    using assms(2) by (auto simp: reads_as_def)
  let ?n = "length (input s) - length rest"
  have "drop ?n (input s) = rest" using g(2) by (cases "k \<le> length (input s)") simp_all
  then have "input (eat s ?n) = rest" using assms(1) by simp
  moreover have "length rest \<le> length (input s)" using g(2) by simp
  ultimately show ?thesis using p g(1) assms(1) by (intro got [of v "eat s ?n"]) (simp_all add: within_eat)
qed

lemma reads_as_value:
  assumes "spec (input s) = Some (v, drop k (input s))" "get s = (Some v, eat s k)" "k \<le> length (input s)"
  shows "reads_as get spec s"
  using assms by (auto simp: reads_as_def)

lemma reads_as_fails: "spec (input s) = None \<Longrightarrow> get s = (None, s') \<Longrightarrow> within s s' \<Longrightarrow> reads_as get spec s"
  by (simp add: reads_as_def)

text \<open>One reader after the other.\<close>

definition then_spec ::
  "(u8 list \<Rightarrow> ('a \<times> u8 list) option) \<Rightarrow> ('a \<Rightarrow> u8 list \<Rightarrow> ('b \<times> u8 list) option) \<Rightarrow> u8 list \<Rightarrow> ('b \<times> u8 list) option" where
  "then_spec f g bs = (case f bs of None \<Rightarrow> None | Some (v, rest) \<Rightarrow> g v rest)"

lemma reads_as_then:
  assumes "istream_ok s" "reads_as get spec s"
    and "\<And>v s'. get s = (Some v, s') \<Longrightarrow> istream_ok s' \<Longrightarrow> within s s' \<Longrightarrow> reads_as (nxt v) (nxt_spec v) s'"
  shows "reads_as (\<lambda>s. case get s of (None, s) \<Rightarrow> (None, s) | (Some v, s) \<Rightarrow> nxt v s) (then_spec spec nxt_spec) s"
  using assms(1,2)
proof (cases rule: reads_asE)
  case (got v s')
  have k: "length (input s') \<le> length (input s)" "\<exists>k. input s' = drop k (input s)"
    using within_facts [OF assms(1) got(4)] by auto
  from got(3) assms(3) [OF got(2,3,4)] show ?thesis
  proof (cases rule: reads_asE)
    case (got u s'')
    have "s'' = eat (eat s (length (input s) - length (input s'))) (length (input s') - length (input s''))"
      using got(5) \<open>s' = eat s _\<close> by simp
    moreover have "length (input s'') \<le> length (input s')" "\<exists>k. input s'' = drop k (input s')"
      using within_facts [OF \<open>istream_ok s'\<close> got(4)] by auto
    ultimately have "s'' = eat s (length (input s) - length (input s''))" "\<exists>k. input s'' = drop k (input s)"
      using k by (auto simp: eat_eat drop_drop)
    with got \<open>get s = (Some v, s')\<close> \<open>spec (input s) = Some (v, input s')\<close> show ?thesis
      by (auto simp: reads_as_def then_spec_def)
  next
    case (fails s'')
    with got show ?thesis
      using within_trans [OF assms(1) got(4) fails(3)] by (auto simp: reads_as_def then_spec_def)
  qed
next
  case (fails s')
  then show ?thesis by (auto simp: reads_as_def then_spec_def)
qed

lemma reads_as_map:
  assumes "reads_as get spec s"
  shows "reads_as (\<lambda>s. case get s of (None, s) \<Rightarrow> (None, s) | (Some v, s) \<Rightarrow> (Some (f v), s))
    (\<lambda>bs. map_option (\<lambda>(v, rest). (f v, rest)) (spec bs)) s"
  using assms by (auto simp: reads_as_def split: option.splits)

lemma reads_as_cong: "reads_as get spec s \<Longrightarrow> get' s = get s \<Longrightarrow> spec' (input s) = spec (input s) \<Longrightarrow> reads_as get' spec' s"
  by (auto simp: reads_as_def split: option.splits)

text \<open>On every stream over a buffer.\<close>

locale istream_reader =
  fixes get :: "'s pb_istream_t \<Rightarrow> 'a option \<times> 's pb_istream_t"
    and spec :: "u8 list \<Rightarrow> ('a \<times> u8 list) option"
  assumes reads: "\<And>s. istream_ok s \<Longrightarrow> reads_as get spec s"
begin

lemma yields: "istream_ok s \<Longrightarrow> fst (get s) = map_option fst (spec (input s))"
  by (rule reads_asE [of s get spec]) (auto simp: reads)

lemma contained: "istream_ok s \<Longrightarrow> within s (snd (get s))"
  by (rule reads_asE [of s get spec]) (auto simp: reads)

lemma consumed:
  assumes "istream_ok s" "spec (input s) = Some (v, rest)"
  obtains s' where "get s = (Some v, s')" "istream_ok s'" "input s' = rest" "within s s'" "errmsg s' = errmsg s"
  by (rule reads_asE [OF assms(1) reads [OF assms(1)]]) (use assms(2) that in auto)

lemma failed:
  assumes "istream_ok s" "spec (input s) = None"
  obtains s' where "get s = (None, s')" "within s s'"
  by (rule reads_asE [OF assms(1) reads [OF assms(1)]]) (use assms(2) that in auto)

lemma same_input: "istream_ok s \<Longrightarrow> istream_ok s' \<Longrightarrow> input s = input s' \<Longrightarrow> fst (get s) = fst (get s')"
  using yields by metis

end

lemma istream_reader_then:
  assumes "istream_reader get spec" "\<And>v. istream_reader (nxt v) (nxt_spec v)"
  shows "istream_reader (\<lambda>s. case get s of (None, s) \<Rightarrow> (None, s) | (Some v, s) \<Rightarrow> nxt v s) (then_spec spec nxt_spec)"
  using assms reads_as_then unfolding istream_reader_def by blast

lemma istream_reader_map:
  assumes "istream_reader get spec"
  shows "istream_reader (\<lambda>s. case get s of (None, s) \<Rightarrow> (None, s) | (Some v, s) \<Rightarrow> (Some (f v), s))
    (\<lambda>bs. map_option (\<lambda>(v, rest). (f v, rest)) (spec bs))"
  using assms reads_as_map unfolding istream_reader_def by blast

section \<open>Bytes\<close>

primrec byte_spec :: "u8 list \<Rightarrow> (u8 \<times> u8 list) option" where
  "byte_spec [] = None"
| "byte_spec (b # bs) = Some (b, bs)"

definition bytes_spec :: "bool \<Rightarrow> nat \<Rightarrow> u8 list \<Rightarrow> (u8 list \<times> u8 list) option" where
  "bytes_spec buf n bs = (if n \<le> length bs then Some (if buf then take n bs else [], drop n bs) else None)"

lemma eat_BUF_READ: "source s = BUF_READ bs \<Longrightarrow>
    eat s (unat n) = s\<lparr>source := BUF_READ (drop (unat n) bs), bytes_left := bytes_left s - n\<rparr>"
  by (simp add: eat_def)

interpretation rd_read: istream_reader "\<lambda>s. pb_read s buf count" "bytes_spec buf (unat count)"
  for buf count
proof
  fix s :: "'a pb_istream_t"
  assume s: "istream_ok s"
  then obtain bs where bs: "source s = BUF_READ bs" "unat (bytes_left s) \<le> length bs" "input s = take (unat (bytes_left s)) bs"
    by (rule istream_okE)
  have len: "length (input s) = unat (bytes_left s)" by (rule length_input [OF s])
  show "reads_as (\<lambda>s. pb_read s buf count) (bytes_spec buf (unat count)) s"
  proof (cases "count \<le> bytes_left s")
    case True
    then have le: "unat count \<le> unat (bytes_left s)" by (simp add: word_le_nat_alt)
    have "pb_read s buf count = (Some (if buf then take (unat count) (input s) else []), eat s (unat count))"
      using True bs le unfolding eat_BUF_READ [OF bs(1)]
      by (auto simp: pb_read_def pb_read_direct_def is_buf_read_def call_callback_def buf_read_def min_def)
    then show ?thesis by (intro reads_as_value) (use le len in \<open>simp_all add: bytes_spec_def\<close>)
  next
    case False
    then have lt: "unat (bytes_left s) < unat count" "bytes_left s < count" by (simp_all add: word_le_nat_alt word_less_nat_alt)
    then have "pb_read s buf count = (None, PB_SET_ERROR s ''end-of-stream'')"
      using bs by (auto simp: pb_read_def pb_read_direct_def is_buf_read_def)
    then show ?thesis
      by (rule reads_as_fails [OF _ _ within_error_refl, rotated]) (use lt len in \<open>simp add: bytes_spec_def\<close>)
  qed
qed

interpretation rd_byte: istream_reader pb_readbyte byte_spec
proof
  fix s :: "'a pb_istream_t"
  assume s: "istream_ok s"
  then obtain bs where bs: "source s = BUF_READ bs" "unat (bytes_left s) \<le> length bs" "input s = take (unat (bytes_left s)) bs"
    by (rule istream_okE)
  show "reads_as pb_readbyte byte_spec s"
  proof (cases "bytes_left s = 0")
    case True
    then have "input s = []" "pb_readbyte s = (None, PB_SET_ERROR s ''end-of-stream'')"
      using bs by (simp_all add: pb_readbyte_def)
    then show ?thesis by (intro reads_as_fails [OF _ _ within_error_refl]) simp_all
  next
    case False
    then have pos: "0 < unat (bytes_left s)" by (simp add: unat_gt_0)
    with bs obtain b cs where b: "bs = b # cs" by (cases bs) auto
    then have inp: "input s = b # take (unat (bytes_left s) - 1) cs" using bs pos by (simp add: take_Cons')
    have "pb_readbyte s = (Some b, eat s 1)"
      using False bs b eat_BUF_READ [OF bs(1), of 1]
      by (simp add: pb_readbyte_def call_callback_def buf_read_def)
    then show ?thesis by (intro reads_as_value) (auto simp: inp)
  qed
qed

end
