(* ===== verification/Pb_Varint.thy ===== *)
theory Pb_Varint
  imports Pb_Reader
begin

text \<open>
  What the readers of variable-length integers, fixed-size numbers, tags and skipped fields take
  from their input.
\<close>

section \<open>64-bit variable-length integers\<close>

text \<open>At most \<open>k\<close> bytes, of which all but the last have their top bit set.\<close>

fun varint_spec :: "nat \<Rightarrow> u8 list \<Rightarrow> (nat \<times> u8 list) option" where
  "varint_spec 0 bs = None"
| "varint_spec (Suc k) [] = None"
| "varint_spec (Suc k) (b # bs) =
     (if unat b < 128 then Some (unat b, bs)
      else map_option (\<lambda>(v, rest). (unat b mod 128 + 128 * v, rest)) (varint_spec k bs))"

lemma or_push_bit:
  assumes "unat r < 2 ^ n"
  shows "r OR push_bit n x = r + push_bit n (x :: 'a::len word)"
proof -
  have "take_bit n r = r" using assms by (simp add: word_unat_eq_iff unsigned_take_bit_eq take_bit_nat_eq_self_iff)
  then have "bit r k \<Longrightarrow> k < n" for k by (metis bit_take_bit_iff)
  then have "\<not> (bit r k \<and> n \<le> k)" for k by (meson leD)
  then have "r AND push_bit n x = 0" by (intro bit_eqI) (auto simp: bit_and_iff bit_push_bit_iff)
  then show ?thesis by (simp add: disjunctive_add_eq_or)
qed

lemma unat_add_shifted:
  assumes "unat r < 2 ^ n" "x < 128" "n + 7 < LENGTH('a)"
  shows "unat (r + push_bit n (word_of_nat x) :: 'a::len word) = unat r + x * 2 ^ n"
proof -
  have "unat r + x * 2 ^ n < 2 ^ n + x * 2 ^ n" using assms(1) by simp
  also have "\<dots> = (1 + x) * 2 ^ n" by simp
  also have "\<dots> \<le> 128 * 2 ^ n" using assms(2) by (intro mult_right_mono) simp_all
  also have "\<dots> = 2 ^ (n + 7)" by (simp add: power_add)
  also have "\<dots> < 2 ^ LENGTH('a)" using assms(3) by simp
  finally have lt: "unat r + x * 2 ^ n < 2 ^ LENGTH('a)" .
  have "r + push_bit n (word_of_nat x) = word_of_nat (unat r + x * 2 ^ n)"
    by (simp add: push_bit_eq_mult)
  with lt show ?thesis by (simp only: unat_eq_of_nat)
qed

lemma ucast_and_7f: "ucast (b AND 0x7f :: u8) = (word_of_nat (unat b mod 128) :: 'a::len word)"
  unfolding byte_and_7f [symmetric] by (simp add: word_unat_eq_iff unsigned_ucast_eq unsigned_of_nat)

lemma varint64_loop_reads:
  fixes s :: "'s pb_istream_t"
  assumes "istream_ok s" "j \<le> 10" "unat r < 2 ^ (7 * j)"
  shows "reads_as (varint64_loop (word_of_nat (7 * j)) r)
    (\<lambda>bs. map_option (\<lambda>(v, rest). (r + push_bit (7 * j) (word_of_nat v), rest)) (varint_spec (10 - j) bs)) s"
  using assms
proof (induction "10 - j" arbitrary: j r s)
  case 0
  then have "j = 10" by simp
  then have "varint64_loop (word_of_nat (7 * j)) r s = (None, PB_SET_ERROR s ''varint overflow'')"
    by (subst varint64_loop.simps) (simp add: word_le_nat_alt)
  then show ?case by (rule reads_as_fails [rotated]) (simp_all add: \<open>j = 10\<close> within_error_refl)
next
  case (Suc k)
  then have j: "j \<le> 9" "10 - j = Suc k" "k = 10 - Suc j" by simp_all
  have bp: "unat (word_of_nat (7 * j) :: u8) = 7 * j" "\<not> (word_of_nat (7 * j) :: u8) \<ge> 64" "(word_of_nat (7 * j) :: u8) + 7 = word_of_nat (7 * Suc j)"
  proof -
    show u: "unat (word_of_nat (7 * j) :: u8) = 7 * j" using j(1) by (simp add: unsigned_of_nat take_bit_eq_mod del: of_nat_mult)
    show "\<not> (word_of_nat (7 * j) :: u8) \<ge> 64" using j(1) unfolding word_le_nat_alt u by simp
    show "(word_of_nat (7 * j) :: u8) + 7 = word_of_nat (7 * Suc j)" by simp
  qed
  let ?r = "\<lambda>b :: u8. r + push_bit (7 * j) (word_of_nat (unat b mod 128))"
  let ?nxt = "\<lambda>b s. if b AND 0x80 \<noteq> 0 then varint64_loop (word_of_nat (7 * Suc j)) (?r b) s else (Some (?r b), s)"
  let ?nspec = "\<lambda>b bs. if unat b < 128 then Some (?r b, bs)
      else map_option (\<lambda>(v, rest). (?r b + push_bit (7 * Suc j) (word_of_nat v), rest)) (varint_spec k bs)"
  have step: "varint64_loop (word_of_nat (7 * j)) r s =
      (case pb_readbyte s of (None, s) \<Rightarrow> (None, s) | (Some b, s) \<Rightarrow> ?nxt b s)"
    using bp(2)
    by (subst varint64_loop.simps)
      (simp add: Let_def bp(1,3) or_push_bit [OF Suc.prems(3)] ucast_and_7f del: of_nat_mult of_nat_Suc unat_of_nat cong: option.case_cong prod.case_cong if_cong)
  have "reads_as (?nxt b) (?nspec b) s'" if s': "istream_ok s'" for b and s' :: "'s pb_istream_t"
  proof (cases "unat b < 128")
    case True
    then show ?thesis by (intro reads_as_value [of _ _ _ 0]) (simp_all add: byte_and_80)
  next
    case False
    have "unat (?r b) < 2 ^ (7 * Suc j)"
    proof (cases "j = 9")
      case False
      then have "7 * j + 7 < LENGTH(64)" using j(1) by simp
      from unat_add_shifted [OF Suc.prems(3) _ this, of "unat b mod 128"]
      have "unat (?r b) = unat r + unat b mod 128 * 2 ^ (7 * j)" by simp
      also have "\<dots> < 2 ^ (7 * j) + 127 * 2 ^ (7 * j)"
      proof (rule add_less_le_mono [OF Suc.prems(3)])
        have "unat b mod 128 \<le> 127" using mod_less_divisor [of 128 "unat b"] by linarith
        then show "unat b mod 128 * 2 ^ (7 * j) \<le> 127 * 2 ^ (7 * j)" by (rule mult_right_mono) simp
      qed
      also have "\<dots> = 2 ^ (7 * Suc j)" by (simp add: power_add)
      finally show ?thesis .
    next
      case True
      have "unat (?r b) < 18446744073709551616" by (rule unat_u64_less)
      also have "\<dots> < 2 ^ (7 * Suc j)" by (simp add: True)
      finally show ?thesis .
    qed
    from Suc.hyps(1) [OF j(3) s' _ this] j have "reads_as (varint64_loop (word_of_nat (7 * Suc j)) (?r b))
      (\<lambda>bs. map_option (\<lambda>(v, rest). (?r b + push_bit (7 * Suc j) (word_of_nat v), rest)) (varint_spec k bs)) s'" by simp
    with False show ?thesis by (elim reads_as_cong) (simp_all add: byte_and_80)
  qed
  from reads_as_then [OF Suc.prems(1) rd_byte.reads [OF Suc.prems(1)], of ?nxt ?nspec] this
  have *: "reads_as (\<lambda>s. case pb_readbyte s of (None, s) \<Rightarrow> (None, s) | (Some b, s) \<Rightarrow> ?nxt b s)
      (then_spec byte_spec ?nspec) s" by blast
  have arith: "?r b + push_bit (7 * Suc j) (word_of_nat v) = r + push_bit (7 * j) (word_of_nat (unat b mod 128 + 128 * v))" for b v
    by (simp add: push_bit_eq_mult algebra_simps power_add)
  have "then_spec byte_spec ?nspec bs =
      map_option (\<lambda>(v, rest). (r + push_bit (7 * j) (word_of_nat v), rest)) (varint_spec (10 - j) bs)" for bs
  proof (cases bs)
    case (Cons b cs)
    then show ?thesis
      by (cases "varint_spec k cs") (auto simp: then_spec_def j(2) arith simp del: of_nat_add of_nat_mult mult_Suc_right)
  qed (simp add: then_spec_def j(2))
  with * step show ?case by (elim reads_as_cong) simp_all
qed


interpretation rd_varint: istream_reader pb_decode_varint
  "\<lambda>bs. map_option (\<lambda>(v, rest). (word_of_nat v, rest)) (varint_spec 10 bs)"
proof
  fix s :: "'a pb_istream_t"
  assume "istream_ok s"
  from varint64_loop_reads [OF this, of 0 0]
  show "reads_as pb_decode_varint (\<lambda>bs. map_option (\<lambda>(v, rest). (word_of_nat v, rest)) (varint_spec 10 bs)) s"
    by (simp add: pb_decode_varint_def [abs_def])
qed

definition unzigzag :: "u64 \<Rightarrow> u64" where
  "unzigzag v = (if v AND 1 \<noteq> 0 then NOT (drop_bit 1 v) else drop_bit 1 v)"

interpretation rd_svarint: istream_reader pb_decode_svarint
  "\<lambda>bs. map_option (\<lambda>(v, rest). (unzigzag v, rest)) (map_option (\<lambda>(v, rest). (word_of_nat v, rest)) (varint_spec 10 bs))"
  using istream_reader_map [OF rd_varint.istream_reader_axioms, of unzigzag]
  unfolding pb_decode_svarint_def [abs_def, folded unzigzag_def] .

section \<open>Fixed-size numbers\<close>

text \<open>The number with the given bytes, the lowest first.\<close>

primrec le_word :: "u8 list \<Rightarrow> 'a::len word" where
  "le_word [] = 0"
| "le_word (b # bs) = ucast b OR push_bit 8 (le_word bs)"

definition fixed_spec :: "nat \<Rightarrow> u8 list \<Rightarrow> ('a::len word \<times> u8 list) option" where
  "fixed_spec n bs = (if n \<le> length bs then Some (le_word (take n bs), drop n bs) else None)"

lemma le_word_of_nat:
  assumes that: "8 \<le> LENGTH('a)"
  shows "le_word bs = (word_of_nat (be_val (rev bs)) :: 'a::len word)"
proof (induction bs)
  case (Cons b bs)
  have "unat (ucast b :: 'a word) < 2 ^ 8"
    using le_less_trans [OF mod_less_eq_dividend unat_u8_less [of b]] by (simp add: unsigned_ucast_eq take_bit_eq_mod)
  then have "le_word (b # bs) = (ucast b + push_bit 8 (le_word bs) :: 'a word)" by (simp add: or_push_bit)
  moreover have "ucast b = (word_of_nat (unat b) :: 'a word)" by (simp add: word_unat_eq_iff unsigned_ucast_eq unsigned_of_nat)
  ultimately have "le_word (b # bs) = (word_of_nat (unat b) + word_of_nat (be_val (rev bs)) * 2 ^ 8 :: 'a word)"
    by (simp only: Cons.IH push_bit_eq_mult)
  also have "\<dots> = word_of_nat (256 * be_val (rev bs) + unat b)" by simp
  finally show ?case by simp
qed simp

lemma list_of_length_4: "length bs = 4 \<Longrightarrow> bs = [bs ! 0, bs ! 1, bs ! 2, bs ! 3]"
  and list_of_length_8: "length bs = 8 \<Longrightarrow>
    bs = [bs ! 0, bs ! 1, bs ! 2, bs ! 3, bs ! 4, bs ! 5, bs ! 6, bs ! 7]"
  by (simp_all add: list_eq_iff_nth_eq less_Suc_eq numeral_eq_Suc)

lemma le_word_4:
  assumes "length bs = 4"
  shows "le_word bs = ucast (bs ! 0) OR push_bit 8 (ucast (bs ! 1)) OR push_bit 16 (ucast (bs ! 2)) OR push_bit 24 (ucast (bs ! 3))"
  by (subst list_of_length_4 [OF assms]) (simp add: push_bit_or)

lemma le_word_8:
  assumes "length bs = 8"
  shows "le_word bs = ucast (bs ! 0) OR push_bit 8 (ucast (bs ! 1)) OR push_bit 16 (ucast (bs ! 2)) OR
    push_bit 24 (ucast (bs ! 3)) OR push_bit 32 (ucast (bs ! 4)) OR push_bit 40 (ucast (bs ! 5)) OR
    push_bit 48 (ucast (bs ! 6)) OR push_bit 56 (ucast (bs ! 7))"
  by (subst list_of_length_8 [OF assms]) (simp add: push_bit_or)

lemma fixed_reads:
  assumes "istream_ok s" "unat n = k" "\<And>bs. length bs = k \<Longrightarrow> f bs = le_word bs"
  shows "reads_as (\<lambda>s. case pb_read s True n of (None, s) \<Rightarrow> (None, s) | (Some bs, s) \<Rightarrow> (Some (f bs), s)) (fixed_spec k) s"
  by (rule reads_as_cong [OF reads_as_map [OF rd_read.reads [OF assms(1), of True n], of f]])
    (simp_all add: bytes_spec_def fixed_spec_def assms(2,3))

interpretation rd_fixed32: istream_reader pb_decode_fixed32 "fixed_spec 4"
  by standard (auto simp: pb_decode_fixed32_def [abs_def] le_word_4 intro!: fixed_reads)

interpretation rd_fixed64: istream_reader pb_decode_fixed64 "fixed_spec 8"
  by standard (auto simp: pb_decode_fixed64_def [abs_def] le_word_8 intro!: fixed_reads)

section \<open>32-bit variable-length integers\<close>

text \<open>The loop of \<open>pb_decode_varint32_eof\<close> on a list of bytes.\<close>

primrec varint32_spec :: "u8 \<Rightarrow> u32 \<Rightarrow> u8 list \<Rightarrow> ((u8 \<times> u8 \<times> u32) \<times> u8 list) option" where
  "varint32_spec bitpos result [] = None"
| "varint32_spec bitpos result (byte # bs) =
     (if bitpos \<ge> 32 \<and> byte AND 0x7f \<noteq> 0 \<and> (drop_bit 31 result = 0 \<or> byte \<noteq> (if bitpos < 63 then 0xff else 0x01)) then None
      else
        let result = (if bitpos \<ge> 32 then result else result OR push_bit (unat bitpos) (ucast (byte AND 0x7f)))
        in if byte AND 0x80 \<noteq> 0 then varint32_spec (bitpos + 7) result bs else Some ((bitpos + 7, byte, result), bs))"

definition varint32_value :: "u8 list \<Rightarrow> (u32 \<times> u8 list) option" where
  "varint32_value = then_spec byte_spec (\<lambda>byte bs.
     if byte AND 0x80 = 0 then Some (ucast byte, bs)
     else then_spec (varint32_spec 7 (ucast (byte AND 0x7f))) (\<lambda>(bitpos, byte, result) bs.
       if bitpos = 35 \<and> byte AND 0x70 \<noteq> 0 then None else Some (result, bs)) bs)"

lemma varint32_loop_reads:
  "istream_ok s \<Longrightarrow> reads_as (varint32_loop bitpos result) (varint32_spec bitpos result) s"
proof (induction "length (input s)" arbitrary: s bitpos result rule: less_induct)
  case less
  define bad where "bad = (\<lambda>byte. bitpos \<ge> 32 \<and> byte AND 0x7f \<noteq> 0 \<and> (drop_bit 31 result = 0 \<or> byte \<noteq> (if bitpos < 63 then 0xff else (0x01 :: u8))))"
  define res where "res = (\<lambda>byte. if bitpos \<ge> 32 then result else result OR push_bit (unat bitpos) (ucast (byte AND 0x7f :: u8)))"
  let ?nxt = "\<lambda>byte s. if bad byte then (None, PB_SET_ERROR s ''varint overflow'')
      else if byte AND 0x80 \<noteq> 0 then varint32_loop (bitpos + 7) (res byte) s else (Some (bitpos + 7, byte, res byte), s)"
  let ?nspec = "\<lambda>byte bs. if bad byte then None
      else if byte AND 0x80 \<noteq> 0 then varint32_spec (bitpos + 7) (res byte) bs else Some ((bitpos + 7, byte, res byte), bs)"
  have step: "varint32_loop bitpos result s = (case pb_readbyte s of (None, s) \<Rightarrow> (None, s) | (Some b, s) \<Rightarrow> ?nxt b s)"
    by (subst varint32_loop.simps) (simp add: Let_def bad_def res_def cong: if_cong option.case_cong prod.case_cong)
  have nxt: "reads_as (?nxt b) (?nspec b) s'" if "pb_readbyte s = (Some b, s')" and s': "istream_ok s'" for b s'
  proof -
    have "length (input s') < length (input s)"
      using pb_readbyte_left [OF that(1)] by (simp add: length_input [OF less.prems] length_input [OF s'])
    note IH = less.hyps [OF this s', of "bitpos + 7" "res b"]
    consider "bad b" | "\<not> bad b" "b AND 0x80 \<noteq> 0" | "\<not> bad b" "b AND 0x80 = 0" by blast
    then show ?thesis
    proof cases
      case 1
      then show ?thesis by (intro reads_as_fails [OF _ _ within_error_refl]) simp_all
    next
      case 2
      then show ?thesis by (intro reads_as_cong [OF IH]) simp_all
    next
      case 3
      then show ?thesis by (intro reads_as_value [of _ _ _ 0]) simp_all
    qed
  qed
  have "reads_as (\<lambda>s. case pb_readbyte s of (None, s) \<Rightarrow> (None, s) | (Some b, s) \<Rightarrow> ?nxt b s) (then_spec byte_spec ?nspec) s"
    by (rule reads_as_then [OF less.prems rd_byte.reads [OF less.prems]]) (rule nxt)
  moreover have "then_spec byte_spec ?nspec bs = varint32_spec bitpos result bs" for bs
    by (cases bs) (auto simp: then_spec_def Let_def bad_def res_def)
  ultimately show ?case using step by (elim reads_as_cong) simp_all
qed

interpretation rd_varint32: istream_reader pb_decode_varint32 varint32_value
proof
  fix s :: "'a pb_istream_t"
  assume s: "istream_ok s"
  let ?fin = "\<lambda>(bitpos, byte, result) s. if bitpos = (35 :: u8) \<and> byte AND 0x70 \<noteq> (0 :: u8)
      then (None, PB_SET_ERROR s ''varint overflow'') else (Some (result :: u32), s)"
  let ?nxt = "\<lambda>byte s. if byte AND 0x80 = 0 then (Some (ucast byte), s)
      else (case varint32_loop 7 (ucast (byte AND 0x7f)) s of (None, s) \<Rightarrow> (None, s) | (Some v, s) \<Rightarrow> ?fin v s)"
  have eq: "pb_decode_varint32 s = (case pb_readbyte s of (None, s) \<Rightarrow> (None, s) | (Some b, s) \<Rightarrow> ?nxt b s)" for s :: "'a pb_istream_t"
    by (auto simp: pb_decode_varint32_def pb_decode_varint32_eof_def split: option.splits prod.splits)
  let ?fspec = "\<lambda>(bitpos, byte, result) bs. if bitpos = (35 :: u8) \<and> byte AND 0x70 \<noteq> (0 :: u8) then None else Some (result :: u32, bs :: u8 list)"
  have fin: "reads_as (?fin v) (?fspec v) s'" for v and s' :: "'a pb_istream_t"
  proof -
    obtain bp b r where v: "v = (bp, b, r)" by (cases v)
    show ?thesis
    proof (cases "bp = 35 \<and> b AND 0x70 \<noteq> 0")
      case True
      then show ?thesis unfolding v by (intro reads_as_fails [OF _ _ within_error_refl]) simp_all
    next
      case False
      then show ?thesis unfolding v by (intro reads_as_value [of _ _ _ 0]) auto
    qed
  qed
  have nxt: "reads_as (?nxt b) (\<lambda>bs. if b AND 0x80 = 0 then Some (ucast b, bs)
     else then_spec (varint32_spec 7 (ucast (b AND 0x7f))) (\<lambda>(bitpos, byte, result) bs.
       if bitpos = 35 \<and> byte AND 0x70 \<noteq> 0 then None else Some (result, bs)) bs) s'"
    if "istream_ok s'" for b and s' :: "'a pb_istream_t"
  proof (cases "b AND 0x80 = 0")
    case True
    then show ?thesis by (intro reads_as_value [of _ _ _ 0]) simp_all
  next
    case False
    have "reads_as (\<lambda>s. case varint32_loop 7 (ucast (b AND 0x7f)) s of (None, s) \<Rightarrow> (None, s) | (Some v, s) \<Rightarrow> ?fin v s)
        (then_spec (varint32_spec 7 (ucast (b AND 0x7f))) ?fspec) s'"
      by (rule reads_as_then [OF that varint32_loop_reads [OF that]]) (rule fin)
    then show ?thesis by (rule reads_as_cong) (use False in simp_all)
  qed
  have "reads_as (\<lambda>s. case pb_readbyte s of (None, s) \<Rightarrow> (None, s) | (Some b, s) \<Rightarrow> ?nxt b s) varint32_value s"
    unfolding varint32_value_def by (rule reads_as_then [OF s rd_byte.reads [OF s]]) (rule nxt)
  then show "reads_as pb_decode_varint32 varint32_value s" by (rule reads_as_cong) (simp_all only: eq)
qed

end
