(* ===== verification/Pb_Skip.thy ===== *)
theory Pb_Skip
  imports Pb_Varint
begin

text \<open>
  What tags, skipped fields and substreams take from their input.
\<close>

section \<open>Tags\<close>

definition tag_spec :: "u8 list \<Rightarrow> ((pb_wire_type_t \<times> u32) \<times> u8 list) option" where
  "tag_spec = then_spec varint32_value (\<lambda>t bs. if t = 0 then None else Some ((t AND 7, drop_bit 3 t), bs))"

definition tag_reader :: "'s pb_istream_t \<Rightarrow> (pb_wire_type_t \<times> u32) option \<times> 's pb_istream_t" where
  "tag_reader s = (case pb_decode_tag s of (r, eof, s) \<Rightarrow> (r, s))"

interpretation rd_pb_tag: istream_reader tag_reader tag_spec
proof
  fix s :: "'a pb_istream_t"
  assume s: "istream_ok s"
  let ?nxt = "\<lambda>t s. if t = 0 then (None, s) else (Some (t AND 7, drop_bit 3 (t :: u32)), s :: 'a pb_istream_t)"
  have nxt: "reads_as (?nxt t) (\<lambda>bs. if t = 0 then None else Some ((t AND 7, drop_bit 3 t), bs)) s'" for t s'
    by (cases "t = 0") (auto intro: reads_as_fails within_refl reads_as_value [of _ _ _ 0])
  have "reads_as (\<lambda>s. case pb_decode_varint32 s of (None, s) \<Rightarrow> (None, s) | (Some t, s) \<Rightarrow> ?nxt t s) tag_spec s"
    unfolding tag_spec_def by (rule reads_as_then [OF s rd_varint32.reads [OF s]]) (rule nxt)
  then show "reads_as tag_reader tag_spec s"
    by (rule reads_as_cong)
      (auto simp: tag_reader_def pb_decode_tag_def pb_decode_varint32_def split: prod.splits option.splits)
qed

text \<open>\<open>*eof\<close> is set exactly at the end of the input and at a null tag.\<close>

lemma pb_decode_tag_eof:
  assumes "istream_ok s"
  shows "fst (snd (pb_decode_tag s)) \<longleftrightarrow> input s = [] \<or> (\<exists>rest. varint32_value (input s) = Some (0, rest))"
proof -
  have v: "fst (pb_decode_varint32 s) = map_option fst (varint32_value (input s))" by (rule rd_varint32.yields [OF assms])
  show ?thesis
  proof (cases "pb_readbyte s")
    case (Pair r s')
    note f = rd_byte.yields [OF assms]
    show ?thesis
    proof (cases "input s")
      case Nil
      then have "bytes_left s = 0" using length_input [OF assms] by (simp add: unat_eq_zero)
      then show ?thesis using Nil by (simp add: pb_decode_tag_def pb_decode_varint32_eof_def pb_readbyte_def PB_SET_ERROR_def)
    next
      case (Cons b bs)
      then have "r = Some b" using f Pair by simp
      then have "pb_decode_varint32_eof s = (fst (pb_decode_varint32 s), False, snd (pb_decode_varint32 s))"
        using Pair by (auto simp: pb_decode_varint32_def pb_decode_varint32_eof_def split: option.splits prod.splits)
      then have "fst (snd (pb_decode_tag s)) \<longleftrightarrow> fst (pb_decode_varint32 s) = Some 0"
        by (auto simp: pb_decode_tag_def split: option.splits)
      then show ?thesis using v Cons by (auto split: option.splits)
    qed
  qed
qed

section \<open>Skipping\<close>

definition unit_reader :: "('s pb_istream_t \<Rightarrow> bool \<times> 's pb_istream_t) \<Rightarrow> 's pb_istream_t \<Rightarrow> unit option \<times> 's pb_istream_t" where
  "unit_reader f s = (if fst (f s) then Some () else None, snd (f s))"

primrec skip_varint_spec :: "u8 list \<Rightarrow> (unit \<times> u8 list) option" where
  "skip_varint_spec [] = None"
| "skip_varint_spec (b # bs) = (if unat b < 128 then Some ((), bs) else skip_varint_spec bs)"

definition skip_bytes_spec :: "nat \<Rightarrow> u8 list \<Rightarrow> (unit \<times> u8 list) option" where
  "skip_bytes_spec n bs = (if n \<le> length bs then Some ((), drop n bs) else None)"

definition skip_field_spec :: "pb_wire_type_t \<Rightarrow> u8 list \<Rightarrow> (unit \<times> u8 list) option" where
  "skip_field_spec wt =
     (if wt = PB_WT_VARINT then skip_varint_spec
      else if wt = PB_WT_64BIT then skip_bytes_spec 8
      else if wt = PB_WT_STRING then then_spec varint32_value (\<lambda>n. skip_bytes_spec (unat n))
      else if wt = PB_WT_32BIT then skip_bytes_spec 4
      else (\<lambda>bs. None))"

lemma pb_skip_varint_reads: "istream_ok s \<Longrightarrow> reads_as (unit_reader pb_skip_varint) skip_varint_spec s"
proof (induction "length (input s)" arbitrary: s rule: less_induct)
  case less
  let ?nxt = "\<lambda>bs s. if bs ! 0 AND 0x80 \<noteq> 0 then unit_reader pb_skip_varint s else (Some (), s)"
  let ?nspec = "\<lambda>bs cs. if unat (bs ! 0) < 128 then Some ((), cs) else skip_varint_spec cs"
  have nxt: "reads_as (?nxt bs) (?nspec bs) s'" if r: "pb_read s True 1 = (Some bs, s')" and s': "istream_ok s'" for bs s'
  proof (cases "unat (bs ! 0) < 128")
    case True
    then show ?thesis by (intro reads_as_value [of _ _ _ 0]) (simp_all add: byte_and_80)
  next
    case False
    have "length (input s') < length (input s)"
      using pb_read_byte_left [OF r] by (simp add: length_input [OF less.prems] length_input [OF s'])
    from less.hyps [OF this s'] False show ?thesis by (elim reads_as_cong) (simp_all add: byte_and_80)
  qed
  have "reads_as (\<lambda>s. case pb_read s True 1 of (None, s) \<Rightarrow> (None, s) | (Some bs, s) \<Rightarrow> ?nxt bs s)
      (then_spec (bytes_spec True (unat (1 :: size_t))) ?nspec) s"
    by (rule reads_as_then [OF less.prems rd_read.reads [OF less.prems]]) (rule nxt)
  then show ?case
  proof (rule reads_as_cong)
    show "unit_reader pb_skip_varint s = (case pb_read s True 1 of (None, s) \<Rightarrow> (None, s) | (Some bs, s) \<Rightarrow> ?nxt bs s)"
      unfolding unit_reader_def by (subst (1 2) pb_skip_varint.simps) (simp split: option.splits prod.splits)
    show "skip_varint_spec (input s) = then_spec (bytes_spec True (unat (1 :: size_t))) ?nspec (input s)"
      by (cases "input s") (simp_all add: then_spec_def bytes_spec_def)
  qed
qed

lemma skip_bytes_reads:
  assumes "istream_ok s"
  shows "reads_as (unit_reader (\<lambda>s. read_ok (pb_read s False n))) (skip_bytes_spec (unat n)) s"
  by (rule reads_as_cong [OF reads_as_map [OF rd_read.reads [OF assms, of False n], of "\<lambda>_. ()"]])
    (auto simp: unit_reader_def read_ok_def skip_bytes_spec_def bytes_spec_def split: option.splits prod.splits)

interpretation rd_skip: istream_reader "unit_reader (\<lambda>s. pb_skip_field s wt)" "skip_field_spec wt" for wt
proof
  fix s :: "'a pb_istream_t"
  assume s: "istream_ok s"
  have str: "reads_as (unit_reader pb_skip_string) (then_spec varint32_value (\<lambda>n. skip_bytes_spec (unat n))) s"
  proof (rule reads_as_cong)
    show "reads_as (\<lambda>s. case pb_decode_varint32 s of (None, s) \<Rightarrow> (None, s)
        | (Some n, s) \<Rightarrow> unit_reader (\<lambda>s. read_ok (pb_read s False (ucast n))) s)
      (then_spec varint32_value (\<lambda>n. skip_bytes_spec (unat (ucast n :: size_t)))) s"
      by (rule reads_as_then [OF s rd_varint32.reads [OF s] skip_bytes_reads])
  qed (auto simp: unit_reader_def pb_skip_string_def unat_ucast_up split: option.splits prod.splits)
  show "reads_as (unit_reader (\<lambda>s. pb_skip_field s wt)) (skip_field_spec wt) s"
    using pb_skip_varint_reads [OF s] skip_bytes_reads [OF s, of 8] skip_bytes_reads [OF s, of 4] str
      reads_as_fails [OF _ _ within_error_refl, of "\<lambda>_. None" s "unit_reader (\<lambda>s. (False, PB_SET_ERROR s ''invalid wire_type''))" "''invalid wire_type''"]
    by (simp add: pb_skip_field_def [abs_def] skip_field_spec_def PB_WT_defs unit_reader_def)
qed

section \<open>Substreams\<close>

text \<open>
  Opening a substream, reading from it, and closing it: the substream holds the announced bytes, and
  the stream goes on behind them, whatever part of them was read.
\<close>

lemma substream_opened:
  assumes "istream_ok s" "varint32_value (input s) = Some (n, rest)" "unat n \<le> length rest"
  obtains sub s' where "pb_make_string_substream s = (Some sub, s')" "istream_ok sub" "input sub = take (unat n) rest"
    "errmsg sub = errmsg s"
    "\<And>sub'. within sub sub' \<Longrightarrow> \<exists>s''. pb_close_string_substream s' sub' = (True, s'') \<and> istream_ok s'' \<and> input s'' = drop (unat n) rest \<and>
      within s s'' \<and> errmsg s'' = errmsg sub'"
proof -
  obtain s1 where s1: "pb_decode_varint32 s = (Some n, s1)" "istream_ok s1" "input s1 = rest" "within s s1" "errmsg s1 = errmsg s"
    by (rule rd_varint32.consumed [OF assms(1,2)])
  obtain bs where bs: "source s1 = BUF_READ bs" "unat (bytes_left s1) \<le> length bs" "input s1 = take (unat (bytes_left s1)) bs"
    by (rule istream_okE [OF s1(2)])
  let ?n = "ucast n :: size_t"
  have n: "unat ?n = unat n" by (simp add: unat_ucast_up)
  have len: "length rest = unat (bytes_left s1)" using length_input [OF s1(2)] s1(3) by simp
  then have le: "?n \<le> bytes_left s1" using assms(3) n by (simp add: word_le_nat_alt)
  let ?sub = "s1\<lparr>bytes_left := ?n\<rparr>" and ?s = "s1\<lparr>bytes_left := bytes_left s1 - ?n\<rparr>"
  have mk: "pb_make_string_substream s = (Some ?sub, ?s)" using s1(1) le by (simp add: pb_make_string_substream_def not_less)
  have sub: "istream_ok ?sub" "input ?sub = take (unat n) rest"
    using bs le assms(3) s1(3) len by (auto simp: istream_ok_def input_def n word_le_nat_alt min_def)
  have "\<exists>s''. pb_close_string_substream ?s sub' = (True, s'') \<and> istream_ok s'' \<and> input s'' = drop (unat n) rest \<and> within s s'' \<and>
      errmsg s'' = errmsg sub'" if w: "within ?sub sub'" for sub'
  proof -
    obtain k e where k: "k \<le> unat n" "sub' = (eat ?sub k)\<lparr>errmsg := e\<rparr>"
      using w sub(2) assms(3) by (auto simp: within_def)
    have lk: "unat (bytes_left sub') = unat n - k" using eat_left [OF sub(1), of k] k sub(2) assms(3) n by simp
    have src: "source sub' = BUF_READ (drop k bs)" using k bs by (simp add: eat_def)
    have ok': "istream_ok sub'" using within_facts(1) [OF sub(1) w] .
    have l: "length (input sub') = unat (bytes_left sub')" by (rule length_input [OF ok'])
    have "fst (pb_read sub' False (bytes_left sub')) = Some []"
      using rd_read.yields [OF ok', of False "bytes_left sub'"] l by (simp add: bytes_spec_def)
    moreover have z: "bytes_left sub' = 0 \<Longrightarrow> k = unat n" using lk k(1) by simp
    moreover have "source (snd (pb_read sub' False (bytes_left sub'))) = BUF_READ (drop (unat n) bs) \<and>
        errmsg (snd (pb_read sub' False (bytes_left sub'))) = errmsg sub'"
      using src lk k(1) z by (auto simp: pb_read_def pb_read_direct_def is_buf_read_def call_callback_def buf_read_def)
    moreover have "bytes_left sub' = 0 \<Longrightarrow> source sub' = BUF_READ (drop (unat n) bs)" using src z by simp
    ultimately have c: "pb_close_string_substream ?s sub' = (True, ?s\<lparr>source := BUF_READ (drop (unat n) bs), errmsg := errmsg sub'\<rparr>)"
      by (auto simp: pb_close_string_substream_def split: prod.splits option.splits)
    have e: "?s\<lparr>source := BUF_READ (drop (unat n) bs), errmsg := errmsg sub'\<rparr> = (eat s1 (unat n))\<lparr>errmsg := errmsg sub'\<rparr>"
      using bs by (simp add: eat_def)
    have le': "unat n \<le> length (input s1)" using assms(3) s1(3) by simp
    have "within s1 ((eat s1 (unat n))\<lparr>errmsg := errmsg sub'\<rparr>)" using le' by (auto simp: within_def)
    then have "within s ((eat s1 (unat n))\<lparr>errmsg := errmsg sub'\<rparr>)" by (rule within_trans [OF assms(1) s1(4)])
    then show ?thesis using c s1(2,3) le' unfolding e by simp
  qed
  with mk sub s1(5) show thesis by (intro that [of ?sub ?s]) simp_all
qed

lemma substream_refused:
  assumes "istream_ok s" "case varint32_value (input s) of None \<Rightarrow> True | Some (n, rest) \<Rightarrow> length rest < unat n"
  shows "\<exists>s'. pb_make_string_substream s = (None, s') \<and> within s s'"
proof (cases "varint32_value (input s)")
  case None
  obtain s' where "pb_decode_varint32 s = (None, s')" "within s s'" by (rule rd_varint32.failed [OF assms(1) None])
  then show ?thesis by (simp add: pb_make_string_substream_def)
next
  case (Some p)
  obtain n rest where v: "varint32_value (input s) = Some (n, rest)" using Some by (cases p) simp
  then have lt: "length rest < unat n" using assms(2) by simp
  obtain s1 where s1: "pb_decode_varint32 s = (Some n, s1)" "istream_ok s1" "input s1 = rest" "within s s1"
    by (rule rd_varint32.consumed [OF assms(1) v])
  have "bytes_left s1 < (ucast n :: size_t)"
    using lt length_input [OF s1(2)] s1(3) by (simp add: word_less_nat_alt unat_ucast_up)
  then show ?thesis using s1(1,4) by (simp add: pb_make_string_substream_def within_error)
qed

end
