(* ===== verification/Pb_Codec.thy ===== *)
theory Pb_Codec
  imports Pb_Message Pb_Skip
begin

text \<open>
  The decoder reads what the encoder writes: numbers, tags, and the extent of a field that is
  skipped.
\<close>

section \<open>Numbers\<close>

lemma varint_spec_varint: "length (varint n) \<le> k \<Longrightarrow> varint_spec k (varint n @ rest) = Some (n, rest)"
proof (induction n arbitrary: k rule: varint.induct)
  case (1 n)
  show ?case
  proof (cases "n < 128")
    case True
    then show ?thesis using "1.prems" by (cases k) (simp_all add: varint.simps [of n] unat_of_nat)
  next
    case False
    then obtain k' where k: "k = Suc k'" "length (varint (n div 128)) \<le> k'"
      using "1.prems" by (cases k) (simp_all add: varint.simps [of n])
    have b: "unat (word_of_nat (128 + n mod 128) :: u8) = 128 + n mod 128" by (simp add: unat_of_nat del: of_nat_add)
    then have "unat (word_of_nat (128 + n mod 128) :: u8) mod 128 = n mod 128" by (simp only: mod_add_self1 mod_mod_trivial)
    with False k "1.IH" [OF False k(2)] b show ?thesis by (simp add: varint.simps [of n] del: of_nat_add unat_of_nat)
  qed
qed

lemma varint32_spec_varint:
  assumes "0 < j" "j \<le> 4" "unat r < 2 ^ (7 * j)" "m * 2 ^ (7 * j) < 2 ^ 32" "0 < m"
  shows "\<exists>bp b. varint32_spec (word_of_nat (7 * j)) r (varint m @ rest) =
      Some ((bp, b, r + push_bit (7 * j) (word_of_nat m)), rest) \<and> \<not> (bp = 35 \<and> b AND 0x70 \<noteq> 0)"
  using assms
proof (induction m arbitrary: j r rule: varint.induct)
  case (1 m)
  have bp: "unat (word_of_nat (7 * j) :: u8) = 7 * j" using "1.prems"(2) by (simp add: unsigned_of_nat take_bit_eq_mod del: of_nat_mult)
  have small: "\<not> (word_of_nat (7 * j) :: u8) \<ge> 32" using "1.prems"(2) unfolding word_le_nat_alt bp by simp
  have nxt: "(word_of_nat (7 * j) :: u8) + 7 = word_of_nat (7 * Suc j)" by simp
  note step = varint32_spec.simps(2) Let_def or_push_bit [OF "1.prems"(3)] ucast_and_7f bp small nxt
  show ?case
  proof (cases "m < 128")
    case True
    have b: "unat (word_of_nat m :: u8) = m" using True by (simp add: unat_of_nat)
    have "\<not> (word_of_nat (7 * Suc j) = (35 :: u8) \<and> word_of_nat m AND 0x70 \<noteq> (0 :: u8))"
    proof
      assume a: "word_of_nat (7 * Suc j) = (35 :: u8) \<and> word_of_nat m AND 0x70 \<noteq> (0 :: u8)"
      then have "unat (word_of_nat (7 * Suc j) :: u8) = 35" by simp
      moreover have "unat (word_of_nat (7 * Suc j) :: u8) = 7 * Suc j"
        using "1.prems"(2) by (intro unat_eq_of_nat) simp
      ultimately have "j = 4" by simp
      then have "m < 16" using "1.prems"(4) by simp
      then have "m \<in> set [0 ..< 16]" by simp
      moreover have "list_all (\<lambda>k. word_of_nat k AND 0x70 = (0 :: u8)) [0 ..< 16]" by code_simp
      ultimately have "word_of_nat m AND 0x70 = (0 :: u8)" unfolding list_all_iff by blast
      with a show False by blast
    qed
    moreover have "varint32_spec (word_of_nat (7 * j)) r (varint m @ rest) =
        Some ((word_of_nat (7 * Suc j), word_of_nat m, r + push_bit (7 * j) (word_of_nat m)), rest)"
      using True b by (simp add: varint.simps [of m] step byte_and_80 del: of_nat_mult of_nat_Suc mult_Suc_right unat_of_nat)
    ultimately show ?thesis by blast
  next
    case False
    let ?r = "r + push_bit (7 * j) (word_of_nat (m mod 128))"
    have b: "unat (word_of_nat (128 + m mod 128) :: u8) = 128 + m mod 128" by (simp add: unat_of_nat del: of_nat_add)
    then have b': "unat (word_of_nat (128 + m mod 128) :: u8) mod 128 = m mod 128" by (simp only: mod_add_self1 mod_mod_trivial)
    have s: "varint32_spec (word_of_nat (7 * j)) r (varint m @ rest) = varint32_spec (word_of_nat (7 * Suc j)) ?r (varint (m div 128) @ rest)"
      using False b b'
      by (simp add: varint.simps [of m] step byte_and_80 del: of_nat_mult of_nat_Suc mult_Suc_right unat_of_nat of_nat_add)
    have m: "m div 128 * 2 ^ (7 * Suc j) \<le> m * 2 ^ (7 * j)"
    proof -
      have "m div 128 * 128 \<le> m" by simp
      then have "m div 128 * 128 * 2 ^ (7 * j) \<le> m * 2 ^ (7 * j)" by (rule mult_right_mono) simp
      then show ?thesis by (simp add: power_add mult.assoc)
    qed
    have pos: "0 < m div 128" using False by (simp add: div_greater_zero_iff)
    have "1 * 2 ^ (7 * Suc j) \<le> m div 128 * 2 ^ (7 * Suc j)" using pos by (intro mult_right_mono) simp_all
    then have "(2 :: nat) ^ (7 * Suc j) < 2 ^ 32" using m "1.prems"(4) by linarith
    then have "7 * Suc j < 32" by (rule power_less_imp_less_exp [rotated]) simp
    then have j: "Suc j \<le> 4" by simp
    then have "7 * j + 7 < LENGTH(32)" by simp
    from unat_add_shifted [OF "1.prems"(3) _ this, of "m mod 128"]
    have u: "unat ?r = unat r + m mod 128 * 2 ^ (7 * j)" by simp
    also have "\<dots> < 2 ^ (7 * j) + 127 * 2 ^ (7 * j)"
    proof (rule add_less_le_mono [OF "1.prems"(3)])
      have "m mod 128 \<le> 127" using mod_less_divisor [of 128 m] by linarith
      then show "m mod 128 * 2 ^ (7 * j) \<le> 127 * 2 ^ (7 * j)" by (rule mult_right_mono) simp
    qed
    also have "\<dots> = 2 ^ (7 * Suc j)" by (simp add: power_add)
    finally have r: "unat ?r < 2 ^ (7 * Suc j)" .
    have "m div 128 * 2 ^ (7 * Suc j) < 2 ^ 32" using m "1.prems"(4) by linarith
    from "1.IH" [OF False _ j r this pos] obtain bp b
      where "varint32_spec (word_of_nat (7 * Suc j)) ?r (varint (m div 128) @ rest) =
        Some ((bp, b, ?r + push_bit (7 * Suc j) (word_of_nat (m div 128))), rest)" "\<not> (bp = 35 \<and> b AND 0x70 \<noteq> 0)" by auto
    moreover have "?r + push_bit (7 * Suc j) (word_of_nat (m div 128)) = r + push_bit (7 * j) (word_of_nat (m mod 128 + 128 * (m div 128)))"
      by (simp only: push_bit_eq_mult of_nat_add of_nat_mult mult_Suc_right power_add) (simp add: algebra_simps)
    moreover have "m mod 128 + 128 * (m div 128) = m" by simp
    ultimately show ?thesis unfolding s by metis
  qed
qed

lemma varint32_value_varint:
  assumes "n < 4294967296"
  shows "varint32_value (varint n @ rest) = Some (word_of_nat n, rest)"
proof (cases "n < 128")
  case True
  have b: "unat (word_of_nat n :: u8) = n" using True by (simp add: unat_of_nat)
  have "ucast (word_of_nat n :: u8) = (word_of_nat (unat (word_of_nat n :: u8)) :: u32)" by (rule ucast_of_unat)
  then have "ucast (word_of_nat n :: u8) = (word_of_nat n :: u32)" unfolding b .
  with True b show ?thesis
    by (simp add: varint.simps [of n] varint32_value_def then_spec_def byte_and_80 del: unat_of_nat)
next
  case False
  have b: "unat (word_of_nat (128 + n mod 128) :: u8) = 128 + n mod 128" by (simp add: unat_of_nat del: of_nat_add)
  then have b': "unat (word_of_nat (128 + n mod 128) :: u8) mod 128 = n mod 128" by (simp only: mod_add_self1 mod_mod_trivial)
  have r: "unat (word_of_nat (n mod 128) :: u32) < 2 ^ (7 * 1)"
    using mod_less_divisor [of 128 n] by (simp add: unat_of_nat less_le_trans le_less_trans [OF mod_less_eq_dividend])
  have "n div 128 * 2 ^ (7 * 1) < 2 ^ 32" using assms div_times_less_eq_dividend [of n 128] by simp
  moreover have "0 < n div 128" using False by (simp add: div_greater_zero_iff)
  ultimately obtain bp b2 where s: "varint32_spec (word_of_nat (7 * 1)) (word_of_nat (n mod 128)) (varint (n div 128) @ rest) =
      Some ((bp, b2, word_of_nat (n mod 128) + push_bit (7 * 1) (word_of_nat (n div 128))), rest)" "\<not> (bp = 35 \<and> b2 AND 0x70 \<noteq> 0)"
    using varint32_spec_varint [OF _ _ r, of "n div 128" rest] by auto
  have "word_of_nat (n mod 128) + push_bit (7 * 1) (word_of_nat (n div 128)) = (word_of_nat (n mod 128 + 128 * (n div 128)) :: u32)"
    by (simp only: push_bit_eq_mult of_nat_add of_nat_mult) (simp add: mult.commute)
  then have v: "word_of_nat (n mod 128) + push_bit (7 * 1) (word_of_nat (n div 128)) = (word_of_nat n :: u32)" by simp
  show ?thesis
    using False s b b'
    by (simp add: varint.simps [of n] varint32_value_def then_spec_def byte_and_80 ucast_and_7f v [simplified] del: of_nat_add unat_of_nat)
qed


lemma unzigzag_zigzag: "unzigzag (word_of_nat (zigzag (sint v))) = v"
proof -
  let ?w = "if sint v < 0 then NOT (push_bit 1 v) else push_bit 1 v"
  have "word_of_nat (zigzag (sint v)) = ?w" unfolding unat_zigzag [symmetric] by simp
  moreover have "unzigzag ?w = v"
  proof (cases "sint v < 0")
    case True
    then have top: "bit v 63" using bit_last_iff [of v] by simp
    have "?w AND 1 \<noteq> 0" using True by (simp add: and_one_eq odd_iff_mod_2_eq_one [symmetric] even_not_iff)
    moreover have "NOT (drop_bit 1 ?w) = v"
    proof (rule bit_word_eqI)
      fix n
      assume "n < LENGTH(64)"
      then have n: "n < 63 \<or> n = 63" by auto
      have "bit (NOT (drop_bit 1 (NOT (push_bit 1 v)))) n \<longleftrightarrow> n < 64 \<and> \<not> (1 + n < 64 \<and> \<not> bit v n)"
        unfolding bit_not_iff bit_drop_bit_eq comp_def bit_push_bit_iff by (auto simp: possible_bit_word)
      with n top True show "bit (NOT (drop_bit 1 ?w)) n \<longleftrightarrow> bit v n" by (auto simp del: One_nat_def)
    qed
    ultimately show ?thesis by (simp only: unzigzag_def if_True not_False_eq_True)
  next
    case False
    then have top: "\<not> bit v 63" using bit_last_iff [of v] by simp
    have "push_bit 1 v AND 1 = 0" by (rule bit_word_eqI) (unfold bit_and_iff bit_push_bit_iff, auto simp: bit_1_iff)
    then have "?w AND 1 = 0" using False by (simp del: push_bit_of_1 cong: if_weak_cong)
    moreover have "drop_bit 1 ?w = v"
    proof (rule bit_word_eqI)
      fix n
      assume "n < LENGTH(64)"
      then have n: "n < 63 \<or> n = 63" by auto
      have "bit (drop_bit 1 (push_bit 1 v)) n \<longleftrightarrow> 1 + n < 64 \<and> bit v n"
        unfolding bit_drop_bit_eq comp_def bit_push_bit_iff by (auto simp: possible_bit_word)
      with n top False show "bit (drop_bit 1 ?w) n \<longleftrightarrow> bit v n" by (auto simp del: One_nat_def)
    qed
    ultimately show ?thesis by (simp only: unzigzag_def) simp
  qed
  ultimately show ?thesis by simp
qed

lemma le_word_le_bytes:
  assumes "8 \<le> LENGTH('a)" "256 ^ n = (2 :: nat) ^ LENGTH('a)"
  shows "le_word (le_bytes n (unat v)) = (v :: 'a::len word)"
proof -
  have "be_val (be_bytes n (unat v)) = unat v" using be_val_be_bytes [of n "unat v"] unat_lt2p [of v] assms(2) by simp
  then show ?thesis by (simp add: le_word_of_nat [OF assms(1)] le_bytes_def)
qed

lemma tag_spec_field_key:
  assumes "unat wt < 8" "0 < unat t" "8 * unat t + unat wt < 4294967296"
  shows "tag_spec (field_key t wt @ rest) = Some ((wt, t), rest)"
proof -
  let ?k = "word_of_nat (8 * unat t + unat wt) :: u32"
  have u: "unat ?k = 8 * unat t + unat wt" using assms(3) by (intro unat_eq_of_nat) simp
  then have "?k \<noteq> 0" using assms(2) by (metis add_is_0 mult_eq_0_iff not_gr0 unat_0 zero_neq_numeral)
  moreover have "?k AND 7 = wt"
    by (rule word_nat_eqI) (use unat_and_mask [of ?k 3] u assms(1) in \<open>simp add: mask_eq_exp_minus_1\<close>)
  moreover have "drop_bit 3 ?k = t"
    by (rule word_nat_eqI) (use u assms(1) in \<open>simp add: unat_drop_bit_div del: unat_of_nat\<close>)
  ultimately show ?thesis
    using varint32_value_varint [OF assms(3), of rest] by (simp add: tag_spec_def then_spec_def field_key_def del: of_nat_add of_nat_mult)
qed


section \<open>From stream to stream\<close>

text \<open>A writer that emits what a reader takes for its value.\<close>

locale pb_codec = istream_reader get spec
  for get :: "'s pb_istream_t \<Rightarrow> 'a option \<times> 's pb_istream_t" and spec +
  fixes encode :: "out_buffer pb_ostream_t \<Rightarrow> out_buffer written"
    and v :: 'a
    and out :: "u8 list"
  assumes encodes: "emits (\<lambda>s. Some (encode s)) out"
    and decodes: "\<And>rest. spec (out @ rest) = Some (v, rest)"
begin

lemma written_read:
  assumes "length buf < 2 ^ 63" "length out \<le> length buf"
  shows "\<exists>s s'. encode (pb_ostream_from_buffer buf (word_of_nat (length buf))) = (True, s) \<and>
    get (pb_istream_from_buffer (buffer_of s) (bytes_written s)) = (Some v, s') \<and> input s' = []"
proof -
  obtain s where s: "encode (pb_ostream_from_buffer buf (word_of_nat (length buf))) = (True, s)"
      "unat (bytes_written s) = length out" "buffer_of s = out @ drop (length out) buf"
    using emits_from_buffer(1) [OF encodes assms] by auto
  let ?i = "pb_istream_from_buffer (buffer_of s) (bytes_written s)"
  have i: "istream_ok ?i" "input ?i = out"
    using s by (simp_all add: pb_istream_from_buffer_def istream_ok_def input_def)
  obtain s' where "get ?i = (Some v, s')" "input s' = []"
    using consumed [OF i(1)] decodes [of "[]"] i(2) by (metis append_Nil2)
  with s(1) show ?thesis by blast
qed

end

interpretation codec_varint: pb_codec pb_decode_varint
    "\<lambda>bs. map_option (\<lambda>(v, rest). (word_of_nat v, rest)) (varint_spec 10 bs)" "\<lambda>s. pb_encode_varint s v" v "varint (unat v)"
  for v
  by standard (simp_all add: emits_varint varint_spec_varint length_varint_64)

interpretation codec_varint32: pb_codec pb_decode_varint32 varint32_value "\<lambda>s. pb_encode_varint s (ucast v)" v "varint (unat v)"
  for v :: u32
  by standard (use emits_varint [of "ucast v"] in \<open>simp_all add: varint32_value_varint unat_ucast_up\<close>)

interpretation codec_svarint: pb_codec pb_decode_svarint
    "\<lambda>bs. map_option (\<lambda>(v, rest). (unzigzag v, rest)) (map_option (\<lambda>(v, rest). (word_of_nat v, rest)) (varint_spec 10 bs))"
    "\<lambda>s. pb_encode_svarint s v" v "varint (zigzag (sint v))"
  for v
proof
  show "emits (\<lambda>s. Some (pb_encode_svarint s v)) (varint (zigzag (sint v)))" by (rule emits_svarint)
  have "zigzag (sint v) < 18446744073709551616" unfolding unat_zigzag [symmetric] by (rule unat_u64_less)
  then show "map_option (\<lambda>(v, rest). (unzigzag v, rest)) (map_option (\<lambda>(v, rest). (word_of_nat v, rest))
      (varint_spec 10 (varint (zigzag (sint v)) @ rest))) = Some (v, rest)" for rest
    by (simp add: varint_spec_varint length_varint_64 unzigzag_zigzag)
qed

interpretation codec_fixed32: pb_codec pb_decode_fixed32 "fixed_spec 4" "\<lambda>s. pb_encode_fixed32 s v" v "le_bytes 4 (unat v)"
  for v
  by standard (simp_all add: emits_fixed32 fixed_spec_def le_word_le_bytes)

interpretation codec_fixed64: pb_codec pb_decode_fixed64 "fixed_spec 8" "\<lambda>s. pb_encode_fixed64 s v" v "le_bytes 8 (unat v)"
  for v
  by standard (simp_all add: emits_fixed64 fixed_spec_def le_word_le_bytes)

section \<open>Skipping what was encoded\<close>

definition field_wire_type :: "pb_field_t \<Rightarrow> pb_wire_type_t" where
  "field_wire_type field =
     (let ltype = PB_LTYPE (type field) in
      if ltype = PB_LTYPE_FIXED32 then PB_WT_32BIT
      else if ltype = PB_LTYPE_FIXED64 then PB_WT_64BIT
      else if ltype \<in> {PB_LTYPE_BYTES, PB_LTYPE_STRING, PB_LTYPE_SUBMESSAGE, PB_LTYPE_FIXED_LENGTH_BYTES} then PB_WT_STRING
      else PB_WT_VARINT)"

lemma wire_tag_key: "wire_tag field = Some (Some key) \<Longrightarrow> key = field_key (tag field) (field_wire_type field)"
  by (auto simp: wire_tag_def field_wire_type_def Let_def PB_TYPE_defs split: if_splits)

lemma skip_varint_varint: "skip_varint_spec (varint n @ rest) = Some ((), rest)"
proof (induction n rule: varint.induct)
  case (1 n)
  have "unat (word_of_nat (128 + n mod 128) :: u8) = 128 + n mod 128" by (simp add: unat_of_nat del: of_nat_add)
  moreover have "n < 128 \<Longrightarrow> unat (word_of_nat n :: u8) = n" by (simp add: unat_of_nat)
  ultimately show ?case using 1 by (simp add: varint.simps [of n] del: of_nat_add unat_of_nat)
qed

lemma skip_delimited:
  assumes "length bs < 4294967296"
  shows "then_spec varint32_value (\<lambda>n. skip_bytes_spec (unat n)) (varint (length bs) @ bs @ rest) = Some ((), rest)"
proof -
  have "unat (word_of_nat (length bs) :: u32) = length bs" using assms by (intro unat_eq_of_nat) simp
  then show ?thesis using assms by (simp add: then_spec_def varint32_value_varint skip_bytes_spec_def del: unat_of_nat)
qed

text \<open>A decoder that does not know a field skips exactly the value the encoder wrote for it.\<close>

lemma delimitedE:
  assumes "delimited r = Some (Some bs)"
  obtains cs where "bs = varint (length cs) @ cs" "length cs < length bs"
proof -
  obtain cs where "r = Some (Some cs)" "bs = varint (length cs) @ cs"
    using assms by (cases r rule: delimited.cases) (auto split: if_splits)
  then show thesis using that varint_ne [of "length cs"] by (simp add: length_greater_0_conv)
qed

lemma wire_value_skipped:
  assumes "wire_value env sub field src = Some (Some bs)" "length bs < 4294967296"
  shows "skip_field_spec (field_wire_type field) (bs @ rest) = Some ((), rest)"
proof -
  let ?t = "PB_LTYPE (type field)"
  let ?known = "{PB_LTYPE_BOOL, PB_LTYPE_VARINT, PB_LTYPE_UVARINT, PB_LTYPE_SVARINT, PB_LTYPE_FIXED32, PB_LTYPE_FIXED64,
    PB_LTYPE_BYTES, PB_LTYPE_STRING, PB_LTYPE_SUBMESSAGE, PB_LTYPE_FIXED_LENGTH_BYTES}"
  have "?t \<notin> ?known \<Longrightarrow> wire_value env sub field src = None" by (simp add: wire_value_def)
  then have "?t \<in> ?known" using assms(1) by (metis option.distinct(1))
  then consider (varint) "?t \<in> {PB_LTYPE_BOOL, PB_LTYPE_VARINT, PB_LTYPE_UVARINT, PB_LTYPE_SVARINT}"
    | (fixed) "?t \<in> {PB_LTYPE_FIXED32, PB_LTYPE_FIXED64}"
    | (string) "?t \<in> {PB_LTYPE_BYTES, PB_LTYPE_STRING, PB_LTYPE_SUBMESSAGE, PB_LTYPE_FIXED_LENGTH_BYTES}"
    by blast
  then show ?thesis
  proof cases
    case varint
    then have "\<exists>n. bs = varint n"
      using assms(1) varint_bool
      by (auto simp: wire_value_def wire_signed_def Let_def PB_TYPE_defs split: if_splits) metis+
    moreover have "field_wire_type field = PB_WT_VARINT" using varint by (auto simp: field_wire_type_def PB_TYPE_defs)
    ultimately show ?thesis by (auto simp: skip_field_spec_def skip_varint_varint)
  next
    case fixed
    then show ?thesis
      using assms(1)
      by (auto simp: wire_value_def field_wire_type_def skip_field_spec_def skip_bytes_spec_def PB_TYPE_defs PB_WT_defs)
  next
    case string
    have "delimited (Some (Some [])) = Some (Some (varint 0))" by simp
    then have "\<exists>r. delimited r = Some (Some (varint 0))" by blast
    then have "\<exists>r. delimited r = Some (Some bs)"
      using string assms(1) by (auto simp: wire_value_def Let_def PB_TYPE_defs simp del: delimited.simps split: if_splits)
    then obtain cs where cs: "bs = varint (length cs) @ cs" "length cs < length bs" by (metis delimitedE)
    moreover have "field_wire_type field = PB_WT_STRING" using string by (auto simp: field_wire_type_def PB_TYPE_defs)
    ultimately show ?thesis using skip_delimited [of cs rest] assms(2) by (simp add: skip_field_spec_def PB_WT_defs)
  qed
qed

text \<open>The bytes of a field that is not an array: its key and its value, both what the encoder wrote.\<close>

lemma wire_basic_fieldE:
  assumes "wire_basic_field depth env sub field pd = Some (Some bs)" "bs \<noteq> []"
    and "PB_HTYPE (type field) \<noteq> PB_HTYPE_REPEATED"
  obtains src vs where "wire_tag field = Some (Some (field_key (tag field) (field_wire_type field)))"
    "wire_value env sub field src = Some (Some vs)" "bs = field_key (tag field) (field_wire_type field) @ vs"
proof -
  obtain src where "wire_app (wire_tag field) (wire_value env sub field src) = Some (Some bs)"
    using assms that by (auto simp: wire_basic_field_def Let_def split: if_splits option.splits)
  then obtain key vs where "wire_tag field = Some (Some key)" "wire_value env sub field src = Some (Some vs)" "bs = key @ vs"
    by (rule wire_app.elims) auto
  with that wire_tag_key show thesis by metis
qed

lemma encoded_field_bytes:
  fixes env :: "out_buffer pb_env"
  assumes "wire_basic_field depth env (wire_message depth' env) field pd \<noteq> None" "length buf < 2 ^ 63"
    and "encode_basic_field depth env (pb_encode depth' env) (pb_ostream_from_buffer buf (word_of_nat (length buf))) field pd = Some (True, s)"
  shows "wire_basic_field depth env (wire_message depth' env) field pd = Some (Some (take (unat (bytes_written s)) (buffer_of s)))"
    "unat (bytes_written s) \<le> length buf" "unat (bytes_written s) \<le> length (buffer_of s)"
proof -
  let ?f = "\<lambda>s. encode_basic_field depth env (pb_encode depth' env) s field pd"
  have p: "performs ?f (wire_basic_field depth env (wire_message depth' env) field pd)"
    by (rule performs_basic_field) (rule performs_message)
  obtain r where r: "wire_basic_field depth env (wire_message depth' env) field pd = Some r" using assms(1) by blast
  have "r \<noteq> None"
    using p r buf_ok_from_buffer(1) [OF assms(2)] assms(3) by (cases r) (auto simp: refuses_def)
  then obtain bs where bs: "r = Some bs" by blast
  then have e: "emits ?f bs" using p r by simp
  have "length bs \<le> length buf" using emits_from_buffer(2) [OF e assms(2)] assms(3) by (auto simp: not_le [symmetric])
  with emits_from_buffer(1) [OF e assms(2)] assms(3) r bs
  show "wire_basic_field depth env (wire_message depth' env) field pd = Some (Some (take (unat (bytes_written s)) (buffer_of s)))"
    "unat (bytes_written s) \<le> length buf" "unat (bytes_written s) \<le> length (buffer_of s)" by auto
qed
lemma field_key_read:
  assumes "0 < tag field" "tag field < 536870912"
  shows "tag_spec (field_key (tag field) (field_wire_type field) @ rest) = Some ((field_wire_type field, tag field), rest)"
proof (rule tag_spec_field_key)
  show w: "unat (field_wire_type field) < 8" by (simp add: field_wire_type_def Let_def PB_WT_defs)
  show "0 < unat (tag field)" using assms(1) by (simp add: word_gt_0 unat_gt_0)
  have "unat (tag field) < 536870912" using assms(2) by (simp add: word_less_nat_alt)
  then show "8 * unat (tag field) + unat (field_wire_type field) < 4294967296" using w by linarith
qed

end
