(* ===== verification/Pb_Stream_Properties.thy ===== *)
theory Pb_Stream_Properties
  imports Pb_Codec
begin

text \<open>
  Properties of the input streams of nanopb, and of encoder and decoder together.
\<close>

type_synonym stream = "unit pb_istream_t"

definition demo_stream :: "u8 list \<Rightarrow> stream" where
  "demo_stream bs = pb_istream_from_buffer bs (word_of_nat (length bs))"

lemma demo_stream_facts [simp]:
  assumes "length bs < 256"
  shows "istream_ok (demo_stream bs)" "input (demo_stream bs) = bs"
proof -
  have "unat (word_of_nat (length bs) :: u64) = length bs" using assms by (intro unat_of_nat_u64) linarith
  then show "istream_ok (demo_stream bs)" "input (demo_stream bs) = bs"
    by (simp_all add: demo_stream_def pb_istream_from_buffer_def istream_ok_def input_def)
qed

section \<open>Round trips\<close>

text \<open>
  C33. Every number is read back as it was written, and nothing of the written bytes is left: 64-bit
  and 32-bit variable-length integers, zigzag integers, and fixed-size numbers.
\<close>

theorem pb_number_roundtrip:
  fixes v :: u64 and u :: u32
  assumes "length buf < 2 ^ 63" "10 \<le> length buf"
  shows "(\<exists>s (i :: stream). pb_encode_varint (pb_ostream_from_buffer buf (word_of_nat (length buf))) v = (True, s) \<and>
      pb_decode_varint (pb_istream_from_buffer (buffer_of s) (bytes_written s)) = (Some v, i) \<and> input i = []) \<and>
    (\<exists>s (i :: stream). pb_encode_varint (pb_ostream_from_buffer buf (word_of_nat (length buf))) (ucast u) = (True, s) \<and>
      pb_decode_varint32 (pb_istream_from_buffer (buffer_of s) (bytes_written s)) = (Some u, i) \<and> input i = []) \<and>
    (\<exists>s (i :: stream). pb_encode_svarint (pb_ostream_from_buffer buf (word_of_nat (length buf))) v = (True, s) \<and>
      pb_decode_svarint (pb_istream_from_buffer (buffer_of s) (bytes_written s)) = (Some v, i) \<and> input i = []) \<and>
    (\<exists>s (i :: stream). pb_encode_fixed32 (pb_ostream_from_buffer buf (word_of_nat (length buf))) u = (True, s) \<and>
      pb_decode_fixed32 (pb_istream_from_buffer (buffer_of s) (bytes_written s)) = (Some u, i) \<and> input i = []) \<and>
    (\<exists>s (i :: stream). pb_encode_fixed64 (pb_ostream_from_buffer buf (word_of_nat (length buf))) v = (True, s) \<and>
      pb_decode_fixed64 (pb_istream_from_buffer (buffer_of s) (bytes_written s)) = (Some v, i) \<and> input i = [])"
proof -
  have z: "zigzag (sint v) < 18446744073709551616" unfolding unat_zigzag [symmetric] by (rule unat_u64_less)
  have u: "unat u < 18446744073709551616" using unat_u32_less [of u] by linarith
  have "length (varint (unat v)) \<le> length buf" "length (varint (unat u)) \<le> length buf"
    "length (varint (zigzag (sint v))) \<le> length buf" "length (le_bytes 4 (unat u)) \<le> length buf" "length (le_bytes 8 (unat v)) \<le> length buf"
    using assms(2) length_varint_64 [OF unat_u64_less, of v] length_varint_64 [OF u] length_varint_64 [OF z] by simp_all
  note l = this
  show ?thesis
    by (intro conjI codec_varint.written_read [OF assms(1) l(1)] codec_varint32.written_read [OF assms(1) l(2)]
        codec_svarint.written_read [OF assms(1) l(3)] codec_fixed32.written_read [OF assms(1) l(4)]
        codec_fixed64.written_read [OF assms(1) l(5)])
qed

theorem pb_number_roundtrip_witness:
  "\<exists>s (i :: stream). pb_encode_svarint (pb_ostream_from_buffer (replicate 10 0) (word_of_nat (length (replicate 10 (0 :: u8))))) (- 5) = (True, s) \<and>
     pb_decode_svarint (pb_istream_from_buffer (buffer_of s) (bytes_written s)) = (Some (- 5), i) \<and> input i = []"
  using pb_number_roundtrip [of "replicate 10 0" "- 5" 7] by simp

text \<open>
  C34. A decoder that does not know a field skips exactly what the encoder wrote for it. When
  \<open>encode_basic_field\<close> has written a field that is not an array (its key, a length where the type
  has one, the value: scalars, bytes, strings and submessages) and a stream starts with the written
  bytes, then \<open>pb_decode_tag\<close> reads the number of the field and a wire type, and \<open>pb_skip_field\<close>
  with that wire type leaves what follows the field.
\<close>

theorem pb_skip_field_encoded:
  fixes env :: "out_buffer pb_env" and i :: "'s pb_istream_t"
  assumes "PB_HTYPE (type field) \<noteq> PB_HTYPE_REPEATED" "0 < tag field" "tag field < 536870912"
    and "wire_basic_field depth env (wire_message depth' env) field pd \<noteq> None" "length buf < 4294967296"
    and "encode_basic_field depth env (pb_encode depth' env) (pb_ostream_from_buffer buf (word_of_nat (length buf))) field pd = Some (True, s)"
    and "bytes_written s \<noteq> 0"
    and "istream_ok i" "input i = take (unat (bytes_written s)) (buffer_of s) @ rest"
  shows "\<exists>wt eof i1 i2. pb_decode_tag i = (Some (wt, tag field), eof, i1) \<and> pb_skip_field i1 wt = (True, i2) \<and>
    istream_ok i2 \<and> input i2 = rest \<and> errmsg i2 = errmsg i"
proof -
  let ?wt = "field_wire_type field" and ?bs = "take (unat (bytes_written s)) (buffer_of s)"
  note enc = encoded_field_bytes [OF assms(4) _ assms(6)]
  have bs: "wire_basic_field depth env (wire_message depth' env) field pd = Some (Some ?bs)" "length ?bs < 4294967296" "?bs \<noteq> []"
    using enc assms(5,7) by (auto simp: unat_eq_0)
  obtain src vs where vs: "wire_value env (wire_message depth' env) field src = Some (Some vs)" "?bs = field_key (tag field) ?wt @ vs"
    by (rule wire_basic_fieldE [OF bs(1,3) assms(1)])
  have "tag_spec (input i) = Some ((?wt, tag field), vs @ rest)"
    using field_key_read [OF assms(2,3)] vs(2) assms(9) by simp
  then obtain i1 where i1: "tag_reader i = (Some (?wt, tag field), i1)" "istream_ok i1" "input i1 = vs @ rest" "errmsg i1 = errmsg i"
    by (rule rd_pb_tag.consumed [OF assms(8)])
  have "length vs < 4294967296" using bs(2) vs(2) by simp
  then have "skip_field_spec ?wt (input i1) = Some ((), rest)" using wire_value_skipped [OF vs(1)] i1(3) by simp
  then obtain i2 where "unit_reader (\<lambda>s. pb_skip_field s ?wt) i1 = (Some (), i2)" "istream_ok i2" "input i2 = rest" "errmsg i2 = errmsg i1"
    by (rule rd_skip.consumed [OF i1(2)])
  with i1 show ?thesis by (auto simp: tag_reader_def unit_reader_def prod_eq_iff split: if_splits prod.splits)
qed

text \<open>A required string with the tag 2 and three bytes of room, at address 4096: hi.\<close>

definition demo_field :: pb_field_t where
  "demo_field = \<lparr>tag = 2, type = 0x07, data_offset = 0, size_offset = 0, data_size = 3, array_size = 0, ptr = 0\<rparr>"

definition demo_pb_env :: "out_buffer pb_env" where
  "demo_pb_env = \<lparr>mem = (\<lambda>p. if p = 4096 then 0x68 else if p = 4097 then 0x69 else 0), fields_at = (\<lambda>p. []),
     user_encode = (\<lambda>f s field arg. None), extension_encode = (\<lambda>f s e. None), indeterminate = 0\<rparr>"

lemma demo_value: "wire_basic_field 0 demo_pb_env (wire_message 0 demo_pb_env) demo_field 4096 = Some (Some [0x12, 2, 0x68, 0x69])"
  by code_simp

lemma demo_field_facts: "PB_HTYPE (type demo_field) \<noteq> PB_HTYPE_REPEATED" "0 < tag demo_field" "tag demo_field < 536870912" "tag demo_field = 2"
  by code_simp+

lemma demo_field_encoded:
  "\<exists>s. encode_basic_field 0 demo_pb_env (pb_encode 0 demo_pb_env) (pb_ostream_from_buffer (replicate 6 0) (word_of_nat (length (replicate 6 (0 :: u8)))))
     demo_field 4096 = Some (True, s) \<and> bytes_written s \<noteq> 0 \<and> take (unat (bytes_written s)) (buffer_of s) = [0x12, 2, 0x68, 0x69]"
proof -
  have "performs (\<lambda>s. encode_basic_field 0 demo_pb_env (pb_encode 0 demo_pb_env) s demo_field 4096)
      (wire_basic_field 0 demo_pb_env (wire_message 0 demo_pb_env) demo_field 4096)"
    by (rule performs_basic_field) (rule performs_message)
  then have "emits (\<lambda>s. encode_basic_field 0 demo_pb_env (pb_encode 0 demo_pb_env) s demo_field 4096) [0x12, 2, 0x68, 0x69]"
    by (simp add: demo_value)
  from emits_from_buffer(1) [OF this, of "replicate 6 0"] show ?thesis
    by (auto simp del: pb_encode.simps)
qed

theorem pb_skip_field_encoded_witness:
  "\<exists>s i wt eof i1 i2. encode_basic_field 0 demo_pb_env (pb_encode 0 demo_pb_env)
       (pb_ostream_from_buffer (replicate 6 0) (word_of_nat (length (replicate 6 (0 :: u8))))) demo_field 4096 = Some (True, s) \<and>
     input (i :: unit pb_istream_t) = take (unat (bytes_written s)) (buffer_of s) @ [0x18] \<and>
     pb_decode_tag i = (Some (wt, 2), eof, i1) \<and> pb_skip_field i1 wt = (True, i2) \<and> input i2 = [0x18]"
proof -
  obtain s where s: "encode_basic_field 0 demo_pb_env (pb_encode 0 demo_pb_env)
      (pb_ostream_from_buffer (replicate 6 0) (word_of_nat (length (replicate 6 (0 :: u8))))) demo_field 4096 = Some (True, s)"
      "bytes_written s \<noteq> 0" "take (unat (bytes_written s)) (buffer_of s) = [0x12, 2, 0x68, 0x69]"
    using demo_field_encoded by blast
  let ?i = "demo_stream [0x12, 2, 0x68, 0x69, 0x18]"
  have "wire_basic_field 0 demo_pb_env (wire_message 0 demo_pb_env) demo_field 4096 \<noteq> None" by (simp add: demo_value)
  from pb_skip_field_encoded [OF demo_field_facts(1-3) this _ s(1,2), of ?i "[0x18]"]
  have "\<exists>wt eof i1 i2. pb_decode_tag ?i = (Some (wt, 2), eof, i1) \<and> pb_skip_field i1 wt = (True, i2) \<and> input i2 = [0x18]"
    using s(3) by (auto simp: demo_field_facts(4))
  moreover have "input ?i = take (unat (bytes_written s)) (buffer_of s) @ [0x18]" using s(3) by simp
  ultimately show ?thesis using s(1) by blast
qed

section \<open>Reading\<close>

text \<open>
  C35. The 64-bit reader takes at most ten bytes, of which all but the last have their top bit set, and
  yields the number their low seven bits make up, modulo $2^{64}$; on anything else it fails.
\<close>

theorem pb_decode_varint_reads:
  assumes "istream_ok s"
  shows "case varint_spec 10 (input s) of
      Some (n, rest) \<Rightarrow> \<exists>s'. pb_decode_varint s = (Some (word_of_nat n), s') \<and> istream_ok s' \<and> input s' = rest
    | None \<Rightarrow> fst (pb_decode_varint s) = None"
proof (cases "varint_spec 10 (input s)")
  case None
  then show ?thesis using rd_varint.yields [OF assms] by simp
next
  case (Some p)
  obtain n rest where p: "varint_spec 10 (input s) = Some (n, rest)" using Some by (cases p) simp
  then show ?thesis using rd_varint.consumed [OF assms, of "word_of_nat n" rest] by auto
qed

lemma demo_varint: "varint_spec 10 [0xac, 0x02, 0x10] = Some (300, [0x10])"
  by code_simp

theorem pb_decode_varint_reads_witness:
  "\<exists>s'. pb_decode_varint (demo_stream [0xac, 0x02, 0x10]) = (Some 300, s') \<and> istream_ok s' \<and> input s' = [0x10]"
  using pb_decode_varint_reads [of "demo_stream [0xac, 0x02, 0x10]"] by (simp add: demo_varint)

text \<open>
  C36. No reader goes past the end of its stream: what is left of the input afterwards, also after an
  error, is a suffix of it, so that no byte behind \<open>bytes_left\<close> is touched.
\<close>

theorem pb_readers_stay_in_stream:
  assumes "istream_ok s"
  shows "within s (snd (pb_read s buf count)) \<and> within s (snd (pb_decode_varint s)) \<and> within s (snd (pb_decode_varint32 s)) \<and>
    within s (snd (pb_decode_svarint s)) \<and> within s (snd (pb_decode_fixed32 s)) \<and> within s (snd (pb_decode_fixed64 s)) \<and>
    within s (snd (snd (pb_decode_tag s))) \<and> within s (snd (pb_skip_field s wt))"
proof -
  have "within s (snd (snd (pb_decode_tag s)))"
    using rd_pb_tag.contained [OF assms] by (simp add: tag_reader_def split: prod.splits)
  moreover have "within s (snd (pb_skip_field s wt))"
    using rd_skip.contained [OF assms] by (simp add: unit_reader_def)
  ultimately show ?thesis
    using rd_read.contained rd_varint.contained rd_varint32.contained rd_svarint.contained rd_fixed32.contained
      rd_fixed64.contained assms by blast
qed

theorem pb_readers_stay_in_stream_witness:
  "within (demo_stream [0x80, 0x80]) (snd (pb_decode_varint (demo_stream [0x80, 0x80])))"
  using pb_readers_stay_in_stream [of "demo_stream [0x80, 0x80]" True 1 0] by simp

text \<open>
  A substream holds exactly the bytes its length announces. However much of it is read, closing it
  leaves the stream behind those bytes.
\<close>

theorem pb_substream_isolates:
  assumes "istream_ok s" "input s = varint n @ bs @ rest" "length bs = n" "n < 4294967296"
  shows "\<exists>sub s'. pb_make_string_substream s = (Some sub, s') \<and> istream_ok sub \<and> input sub = bs \<and>
    (\<forall>sub'. within sub sub' \<longrightarrow>
      (\<exists>s''. pb_close_string_substream s' sub' = (True, s'') \<and> istream_ok s'' \<and> input s'' = rest))"
proof -
  have v: "varint32_value (input s) = Some (word_of_nat n, bs @ rest)"
    using varint32_value_varint [OF assms(4)] assms(2) by simp
  have u: "unat (word_of_nat n :: u32) = n" using assms(4) by (intro unat_eq_of_nat) simp
  then have "unat (word_of_nat n :: u32) \<le> length (bs @ rest)" using assms(3) by simp
  from substream_opened [OF assms(1) v this] show ?thesis
    unfolding u using assms(3) by (metis append_eq_conv_conj)
qed

theorem pb_substream_isolates_witness:
  "\<exists>sub s'. pb_make_string_substream (demo_stream [2, 7, 8, 9]) = (Some sub, s') \<and> istream_ok sub \<and> input sub = [7, 8] \<and>
     (\<forall>sub'. within sub sub' \<longrightarrow>
       (\<exists>s''. pb_close_string_substream s' sub' = (True, s'') \<and> istream_ok s'' \<and> input s'' = [9]))"
  using pb_substream_isolates [of "demo_stream [2, 7, 8, 9]" 2 "[7, 8]" "[9]"] by (simp add: varint.simps [of 2])

section \<open>What the 32-bit reader lets through\<close>

text \<open>
  The 32-bit reader counts bits in an 8-bit variable that wraps around: 37 bytes without any bits
  and a 1 are read as the number 8, where the 64-bit reader reports an overflow. It also accepts numbers
  of more than 32 bits, because only a number of five bytes is checked for excess bits.
\<close>

theorem varint32_overflows_unnoticed:
  "fst (pb_decode_varint32 (demo_stream (replicate 37 0x80 @ [1]))) = Some 8 \<and>
   fst (pb_decode_varint (demo_stream (replicate 37 0x80 @ [1]))) = None \<and>
   fst (pb_decode_varint32 (demo_stream [0xff, 0xff, 0xff, 0xff, 0x9f, 0x00])) = Some 0xffffffff \<and>
   fst (pb_decode_varint (demo_stream [0xff, 0xff, 0xff, 0xff, 0x9f, 0x00])) = Some 0x1ffffffff"
  by (intro conjI; code_simp)

end
