(* ===== verification/Pb_Decode.thy ===== *)
theory Pb_Decode
  imports Pb_Istream
begin

text \<open>
  nanopb, pb_decode.c: the functions that store into a message. They take the memory and the heap
  as well as the stream, and return their bool with the stream and the memory they leave; \<open>None\<close> stands
  for a call through a null pointer, a loop that does not end, or submessages that nest deeper than the
  given depth.
\<close>

section \<open>Memory\<close>

primrec store_bytes :: "memory \<Rightarrow> addr \<Rightarrow> u8 list \<Rightarrow> memory" where
  "store_bytes m p [] = m"
| "store_bytes m p (b # bs) = store_bytes (m(p := b)) (p + 1) bs"

text \<open>The lowest \<open>n\<close> bytes of a number.\<close>

definition store_le :: "memory \<Rightarrow> addr \<Rightarrow> nat \<Rightarrow> u64 \<Rightarrow> memory" where
  "store_le m p n v = store_bytes m p (map (\<lambda>i. ucast (drop_bit (8 * i) v)) [0 ..< n])"

text \<open>The memory, and what the allocator keeps.\<close>

record 'h pb_world =
  wmem :: memory
  wheap :: 'h

definition put_bytes :: "addr \<Rightarrow> u8 list \<Rightarrow> 'h pb_world \<Rightarrow> 'h pb_world" where
  "put_bytes p bs w = w\<lparr>wmem := store_bytes (wmem w) p bs\<rparr>"

definition put_le :: "nat \<Rightarrow> addr \<Rightarrow> u64 \<Rightarrow> 'h pb_world \<Rightarrow> 'h pb_world" where
  "put_le n p v w = w\<lparr>wmem := store_le (wmem w) p n v\<rparr>"

definition put_size :: "addr \<Rightarrow> pb_size_t \<Rightarrow> 'h pb_world \<Rightarrow> 'h pb_world" where
  "put_size p n w = put_le 4 p (ucast n) w"

definition put_ptr :: "addr \<Rightarrow> addr \<Rightarrow> 'h pb_world \<Rightarrow> 'h pb_world" where
  "put_ptr p q w = put_le 8 p q w"

type_synonym ('s, 'h) decoded = "(bool \<times> 's pb_istream_t \<times> 'h pb_world) option"
type_synonym ('s, 'h) decoder = "'s pb_istream_t \<Rightarrow> pb_fields \<Rightarrow> addr \<Rightarrow> 'h pb_world \<Rightarrow> ('s, 'h) decoded"
type_synonym ('s, 'h) field_decoder = "'s pb_istream_t \<Rightarrow> pb_field_t \<Rightarrow> addr \<Rightarrow> 'h pb_world \<Rightarrow> ('s, 'h) decoded"

text \<open>
  The surroundings of a decoder: \<open>realloc\<close> and \<open>free\<close> of the C library, the field arrays and the
  user's functions at their addresses, and the address of the local variable \<open>fixed_count_size\<close> of
  \<open>pb_decode_noinit\<close> at every depth.
\<close>

record ('s, 'h) pb_denv =
  pb_realloc :: "'h pb_world \<Rightarrow> addr \<Rightarrow> size_t \<Rightarrow> addr \<times> 'h pb_world"
  pb_free :: "'h pb_world \<Rightarrow> addr \<Rightarrow> 'h pb_world"
  dfields_at :: "addr \<Rightarrow> pb_fields"
  user_decode :: "addr \<Rightarrow> 's pb_istream_t \<Rightarrow> pb_field_t \<Rightarrow> addr \<Rightarrow> 'h pb_world \<Rightarrow> ('s, 'h) decoded"
  extension_decode :: "addr \<Rightarrow> 's pb_istream_t \<Rightarrow> addr \<Rightarrow> u32 \<Rightarrow> pb_wire_type_t \<Rightarrow> 'h pb_world \<Rightarrow> ('s, 'h) decoded"
  fixed_count_at :: "nat \<Rightarrow> addr"

definition fail :: "'s pb_istream_t \<Rightarrow> string \<Rightarrow> 'h pb_world \<Rightarrow> ('s, 'h) decoded" where
  "fail stream msg w = Some (False, PB_SET_ERROR stream msg, w)"

section \<open>Field decoders\<close>

definition pb_dec_bool :: "('s, 'h) field_decoder" where
  "pb_dec_bool stream field dest w =
     (case pb_decode_varint32 stream of
        (None, stream) \<Rightarrow> Some (False, stream, w)
      | (Some v, stream) \<Rightarrow> Some (True, stream, put_bytes dest [if v \<noteq> 0 then 1 else 0] w))"

text \<open>The conversions to a signed or unsigned type of \<open>n\<close> bytes and back to 64 bits.\<close>

definition clamp_signed :: "pb_size_t \<Rightarrow> u64 \<Rightarrow> u64 option" where
  "clamp_signed n v =
     (if n = 8 then Some v
      else if n = 4 then Some (scast (ucast v :: u32))
      else if n = 2 then Some (scast (ucast v :: u16))
      else if n = 1 then Some (scast (ucast v :: u8))
      else None)"

definition clamp_unsigned :: "pb_size_t \<Rightarrow> u64 \<Rightarrow> u64 option" where
  "clamp_unsigned n v =
     (if n = 8 then Some v
      else if n = 4 then Some (ucast (ucast v :: u32))
      else if n = 2 then Some (ucast (ucast v :: u16))
      else if n = 1 then Some (ucast (ucast v :: u8))
      else None)"

text \<open>The end of the integer decoders: the value is stored, then its loss is an error.\<close>

definition store_clamped ::
  "u64 option \<Rightarrow> u64 \<Rightarrow> 's pb_istream_t \<Rightarrow> pb_field_t \<Rightarrow> addr \<Rightarrow> 'h pb_world \<Rightarrow> ('s, 'h) decoded" where
  "store_clamped clamped v stream field dest w =
     (case clamped of
        None \<Rightarrow> fail stream ''invalid data_size'' w
      | Some c \<Rightarrow>
          let w = put_le (unat (data_size field)) dest c w in
          if c \<noteq> v then fail stream ''integer too large'' w else Some (True, stream, w))"

definition pb_dec_varint :: "('s, 'h) field_decoder" where
  "pb_dec_varint stream field dest w =
     (case pb_decode_varint stream of
        (None, stream) \<Rightarrow> Some (False, stream, w)
      | (Some v, stream) \<Rightarrow>
          let v = (if data_size field = 8 then v else scast (ucast v :: u32))
          in store_clamped (clamp_signed (data_size field) v) v stream field dest w)"

definition pb_dec_uvarint :: "('s, 'h) field_decoder" where
  "pb_dec_uvarint stream field dest w =
     (case pb_decode_varint stream of
        (None, stream) \<Rightarrow> Some (False, stream, w)
      | (Some v, stream) \<Rightarrow> store_clamped (clamp_unsigned (data_size field) v) v stream field dest w)"

definition pb_dec_svarint :: "('s, 'h) field_decoder" where
  "pb_dec_svarint stream field dest w =
     (case pb_decode_svarint stream of
        (None, stream) \<Rightarrow> Some (False, stream, w)
      | (Some v, stream) \<Rightarrow> store_clamped (clamp_signed (data_size field) v) v stream field dest w)"

definition pb_dec_fixed32 :: "('s, 'h) field_decoder" where
  "pb_dec_fixed32 stream field dest w =
     (case pb_decode_fixed32 stream of
        (None, stream) \<Rightarrow> Some (False, stream, w)
      | (Some v, stream) \<Rightarrow> Some (True, stream, put_le 4 dest (ucast v) w))"

definition pb_dec_fixed64 :: "('s, 'h) field_decoder" where
  "pb_dec_fixed64 stream field dest w =
     (case pb_decode_fixed64 stream of
        (None, stream) \<Rightarrow> Some (False, stream, w)
      | (Some v, stream) \<Rightarrow> Some (True, stream, put_le 8 dest v w))"

text \<open>\<open>pb_read\<close> into the memory at \<open>p\<close>; a callback that fails stores nothing.\<close>

definition read_into :: "'s pb_istream_t \<Rightarrow> addr \<Rightarrow> size_t \<Rightarrow> 'h pb_world \<Rightarrow> bool \<times> 's pb_istream_t \<times> 'h pb_world" where
  "read_into stream p count w =
     (case pb_read stream True count of
        (None, stream) \<Rightarrow> (False, stream, w)
      | (Some bs, stream) \<Rightarrow> (True, stream, put_bytes p bs w))"

definition allocate_field ::
  "('s, 'h) pb_denv \<Rightarrow> 's pb_istream_t \<Rightarrow> addr \<Rightarrow> size_t \<Rightarrow> size_t \<Rightarrow> 'h pb_world \<Rightarrow> bool \<times> 's pb_istream_t \<times> 'h pb_world" where
  "allocate_field env stream pd size1 count w =
     (let check_limit = push_bit 32 1 in
      if size1 = 0 \<or> count = 0 then (False, PB_SET_ERROR stream ''invalid size'', w)
      else if (size1 \<ge> check_limit \<or> count \<ge> check_limit) \<and> - 1 div count < size1
      then (False, PB_SET_ERROR stream ''size too large'', w)
      else case pb_realloc env w (load_ptr (wmem w) pd) (count * size1) of
             (p, w) \<Rightarrow>
               if p = 0 then (False, PB_SET_ERROR stream ''realloc failed'', w)
               else (True, stream, put_ptr pd p w))"

text \<open>\<open>pb_bytes_array_t\<close>: the size, and the bytes from offset 4 on.\<close>

definition pb_dec_bytes :: "('s, 'h) pb_denv \<Rightarrow> ('s, 'h) field_decoder" where
  "pb_dec_bytes env stream field dest w =
     (case pb_decode_varint32 stream of
        (None, stream) \<Rightarrow> Some (False, stream, w)
      | (Some n, stream) \<Rightarrow>
          let alloc_size = ucast n + 4 :: size_t in
          if n > PB_SIZE_MAX then fail stream ''bytes overflow'' w
          else if ucast n > alloc_size then fail stream ''size too large'' w
          else
            let target =
              (if PB_ATYPE (type field) = PB_ATYPE_POINTER then
                 if bytes_left stream < ucast n then (None, PB_SET_ERROR stream ''end-of-stream'', w)
                 else (case allocate_field env stream dest alloc_size 1 w of
                         (ok, stream, w) \<Rightarrow> (if ok then Some (load_ptr (wmem w) dest) else None, stream, w))
               else if alloc_size > ucast (data_size field) then (None, PB_SET_ERROR stream ''bytes overflow'', w)
               else (Some dest, stream, w))
            in case target of
                 (None, stream, w) \<Rightarrow> Some (False, stream, w)
               | (Some bdest, stream, w) \<Rightarrow> Some (read_into stream (bdest + 4) (ucast n) (put_size bdest n w)))"

definition pb_dec_string :: "('s, 'h) pb_denv \<Rightarrow> ('s, 'h) field_decoder" where
  "pb_dec_string env stream field dest w =
     (case pb_decode_varint32 stream of
        (None, stream) \<Rightarrow> Some (False, stream, w)
      | (Some n, stream) \<Rightarrow>
          let alloc_size = ucast (n + 1) :: size_t in
          if alloc_size < ucast n then fail stream ''size too large'' w
          else
            let target =
              (if PB_ATYPE (type field) = PB_ATYPE_POINTER then
                 if bytes_left stream < ucast n then (None, PB_SET_ERROR stream ''end-of-stream'', w)
                 else (case allocate_field env stream dest alloc_size 1 w of
                         (ok, stream, w) \<Rightarrow> (if ok then Some (load_ptr (wmem w) dest) else None, stream, w))
               else if alloc_size > ucast (data_size field) then (None, PB_SET_ERROR stream ''string overflow'', w)
               else (Some dest, stream, w))
            in case target of
                 (None, stream, w) \<Rightarrow> Some (False, stream, w)
               | (Some dest, stream, w) \<Rightarrow>
                   (case read_into stream dest (ucast n) w of
                      (status, stream, w) \<Rightarrow> Some (status, stream, put_bytes (dest + ucast n) [0] w)))"

definition pb_dec_fixed_length_bytes :: "('s, 'h) field_decoder" where
  "pb_dec_fixed_length_bytes stream field dest w =
     (case pb_decode_varint32 stream of
        (None, stream) \<Rightarrow> Some (False, stream, w)
      | (Some n, stream) \<Rightarrow>
          if n > PB_SIZE_MAX then fail stream ''bytes overflow'' w
          else if n = 0 then Some (True, stream, put_bytes dest (replicate (unat (data_size field)) 0) w)
          else if n \<noteq> data_size field then fail stream ''incorrect fixed length bytes size'' w
          else Some (read_into stream dest (ucast (data_size field)) w))"

text \<open>
  \<open>pb_dec_submessage\<close>, with \<open>decode\<close> and \<open>decode_noinit\<close> for \<open>pb_decode\<close> and
  \<open>pb_decode_noinit\<close>.
\<close>

definition pb_dec_submessage ::
  "('s, 'h) pb_denv \<Rightarrow> ('s, 'h) decoder \<Rightarrow> ('s, 'h) decoder \<Rightarrow> ('s, 'h) field_decoder" where
  "pb_dec_submessage env decode decode_noinit stream field dest w =
     (case pb_make_string_substream stream of
        (None, stream) \<Rightarrow> Some (False, stream, w)
      | (Some substream, stream) \<Rightarrow>
          if ptr field = 0 then fail stream ''invalid field descriptor'' w
          else
            (case (if PB_HTYPE (type field) = PB_HTYPE_REPEATED
                   then decode substream (dfields_at env (ptr field)) dest w
                   else decode_noinit substream (dfields_at env (ptr field)) dest w) of
               None \<Rightarrow> None
             | Some (status, substream, w) \<Rightarrow>
                 (case pb_close_string_substream stream substream of
                    (False, stream) \<Rightarrow> Some (False, stream, w)
                  | (True, stream) \<Rightarrow> Some (status, stream, w))))"

definition PB_DECODERS ::
  "('s, 'h) pb_denv \<Rightarrow> ('s, 'h) decoder \<Rightarrow> ('s, 'h) decoder \<Rightarrow> pb_type_t \<Rightarrow> ('s, 'h) field_decoder" where
  "PB_DECODERS env decode decode_noinit ltype =
     (if ltype = PB_LTYPE_BOOL then pb_dec_bool
      else if ltype = PB_LTYPE_VARINT then pb_dec_varint
      else if ltype = PB_LTYPE_UVARINT then pb_dec_uvarint
      else if ltype = PB_LTYPE_SVARINT then pb_dec_svarint
      else if ltype = PB_LTYPE_FIXED32 then pb_dec_fixed32
      else if ltype = PB_LTYPE_FIXED64 then pb_dec_fixed64
      else if ltype = PB_LTYPE_BYTES then pb_dec_bytes env
      else if ltype = PB_LTYPE_STRING then pb_dec_string env
      else if ltype = PB_LTYPE_SUBMESSAGE then pb_dec_submessage env decode decode_noinit
      else if ltype = PB_LTYPE_FIXED_LENGTH_BYTES then pb_dec_fixed_length_bytes
      else (\<lambda>stream field dest w. None))"


section \<open>Loops over the fields of a message\<close>

text \<open>\<open>do f(iter) while (pb_field_iter_next(iter))\<close>\<close>

function iter_loop :: "(pb_field_iter_t \<Rightarrow> 'w \<Rightarrow> 'w option) \<Rightarrow> pb_field_iter_t \<Rightarrow> 'w \<Rightarrow> 'w option" where
  "iter_loop f iter w =
     (case f iter w of
        None \<Rightarrow> None
      | Some w \<Rightarrow> if fst (pb_field_iter_next iter) then iter_loop f (snd (pb_field_iter_next iter)) w else Some w)"
  by pat_completeness auto
termination
  by (relation "measure (\<lambda>(f, iter, w). length (start iter) - pos iter)") (auto simp: iter_next_measure)

declare iter_loop.simps [simp del]

definition message_loop :: "(pb_field_iter_t \<Rightarrow> 'w \<Rightarrow> 'w option) \<Rightarrow> pb_fields \<Rightarrow> addr \<Rightarrow> 'w \<Rightarrow> 'w option" where
  "message_loop f fs dest w =
     (case pb_field_iter_begin fs dest of (some_field, iter) \<Rightarrow> if some_field then iter_loop f iter w else Some w)"

text \<open>
  \<open>pb_extension_t\<close>: \<open>type\<close> at offset 0, \<open>dest\<close> at 8, \<open>next\<close> at 16, \<open>found\<close> at 24;
  \<open>pb_extension_type_t\<close>: \<open>decode\<close> at offset 0, \<open>arg\<close> at 16.
\<close>

definition iter_from_extension :: "('s, 'h) pb_denv \<Rightarrow> 'h pb_world \<Rightarrow> addr \<Rightarrow> pb_field_iter_t" where
  "iter_from_extension env w extension =
     (let fs = dfields_at env (load_ptr (wmem w) (load_ptr (wmem w) extension + 16));
          dest = load_ptr (wmem w) (extension + 8)
      in (snd (pb_field_iter_begin fs dest))
           \<lparr>pSize := extension + 24,
            pData := (if PB_ATYPE (type (field_at fs 0)) = PB_ATYPE_POINTER then extension + 8 else dest)\<rparr>)"

section \<open>Default values\<close>

text \<open>The extensions of a chain; \<open>set_default\<close> stands for \<open>pb_field_set_to_default\<close>.\<close>

partial_function (option) extension_defaults_loop ::
  "(pb_field_iter_t \<Rightarrow> 'h pb_world \<Rightarrow> 'h pb_world option) \<Rightarrow> ('s, 'h) pb_denv \<Rightarrow> addr \<Rightarrow> 'h pb_world \<Rightarrow> 'h pb_world option" where
  "extension_defaults_loop set_default env ext w =
     (if ext = 0 then Some w
      else
        let w = put_bytes (ext + 24) [0] w in
        case set_default (iter_from_extension env w ext) w of
          None \<Rightarrow> None
        | Some w \<Rightarrow> extension_defaults_loop set_default env (load_ptr (wmem w) (ext + 16)) w)"

definition field_default_body ::
  "(pb_field_iter_t \<Rightarrow> 'h pb_world \<Rightarrow> 'h pb_world option) \<Rightarrow> ('s, 'h) pb_denv \<Rightarrow> pb_field_iter_t \<Rightarrow> 'h pb_world \<Rightarrow>
   'h pb_world option" where
  "field_default_body set_default env iter w =
     (let field = cur_field iter; htype = PB_HTYPE (type field); atype = PB_ATYPE (type field) in
      if PB_LTYPE (type field) = PB_LTYPE_EXTENSION
      then extension_defaults_loop set_default env (load_ptr (wmem w) (pData iter)) w
      else if atype = PB_ATYPE_STATIC then
        let has_flag = (htype = PB_HTYPE_OPTIONAL \<and> pSize iter \<noteq> pData iter);
            counted = (htype = PB_HTYPE_REPEATED \<or> htype = PB_HTYPE_ONEOF);
            w = (if has_flag then put_bytes (pSize iter) [0] w else if counted then put_size (pSize iter) 0 w else w)
        in if \<not> has_flag \<and> counted then Some w
           else if PB_LTYPE (type field) = PB_LTYPE_SUBMESSAGE then
             if ptr field = 0 then None else message_loop set_default (dfields_at env (ptr field)) (pData iter) w
           else if ptr field \<noteq> 0 then Some (put_bytes (pData iter) (load_bytes (wmem w) (ptr field) (unat (data_size field))) w)
           else Some (put_bytes (pData iter) (replicate (unat (data_size field)) 0) w)
      else if atype = PB_ATYPE_POINTER then
        let w = put_ptr (pData iter) 0 w in
        Some (if htype = PB_HTYPE_REPEATED \<or> htype = PB_HTYPE_ONEOF then put_size (pSize iter) 0 w else w)
      else Some w)"

primrec pb_field_set_to_default ::
  "nat \<Rightarrow> ('s, 'h) pb_denv \<Rightarrow> pb_field_iter_t \<Rightarrow> 'h pb_world \<Rightarrow> 'h pb_world option" where
  "pb_field_set_to_default 0 env iter w = None"
| "pb_field_set_to_default (Suc depth) env iter w =
     field_default_body (\<lambda>iter w. pb_field_set_to_default depth env iter w) env iter w"

definition pb_message_set_to_defaults ::
  "nat \<Rightarrow> ('s, 'h) pb_denv \<Rightarrow> pb_fields \<Rightarrow> addr \<Rightarrow> 'h pb_world \<Rightarrow> 'h pb_world option" where
  "pb_message_set_to_defaults depth env fs dest w = message_loop (pb_field_set_to_default depth env) fs dest w"

section \<open>Releasing\<close>

partial_function (option) extension_release_loop ::
  "(pb_field_iter_t \<Rightarrow> 'h pb_world \<Rightarrow> 'h pb_world option) \<Rightarrow> ('s, 'h) pb_denv \<Rightarrow> addr \<Rightarrow> 'h pb_world \<Rightarrow> 'h pb_world option" where
  "extension_release_loop release env ext w =
     (if ext = 0 then Some w
      else case release (iter_from_extension env w ext) w of
             None \<Rightarrow> None
           | Some w \<Rightarrow> extension_release_loop release env (load_ptr (wmem w) (ext + 16)) w)"

text \<open>The items of an array of submessages.\<close>

primrec release_items :: "(addr \<Rightarrow> 'h pb_world \<Rightarrow> 'h pb_world option) \<Rightarrow> pb_size_t \<Rightarrow> nat \<Rightarrow> addr \<Rightarrow> 'h pb_world \<Rightarrow> 'h pb_world option" where
  "release_items release step 0 p w = Some w"
| "release_items release step (Suc count) p w =
     (case release p w of None \<Rightarrow> None | Some w \<Rightarrow> release_items release step count (p + ucast step) w)"

text \<open>The entries of an array of pointers.\<close>

primrec free_entries :: "('s, 'h) pb_denv \<Rightarrow> nat \<Rightarrow> addr \<Rightarrow> 'h pb_world \<Rightarrow> 'h pb_world" where
  "free_entries env 0 p w = w"
| "free_entries env (Suc count) p w = free_entries env count (p + 8) (put_ptr p 0 (pb_free env w (load_ptr (wmem w) p)))"

text \<open>\<open>pb_release\<close>, with \<open>release\<close> for \<open>pb_release_single_field\<close>.\<close>

definition release_message ::
  "(pb_field_iter_t \<Rightarrow> 'h pb_world \<Rightarrow> 'h pb_world option) \<Rightarrow> pb_fields \<Rightarrow> addr \<Rightarrow> 'h pb_world \<Rightarrow> 'h pb_world option" where
  "release_message release fs dest w = (if dest = 0 then Some w else message_loop release fs dest w)"

definition release_contents ::
  "(pb_field_iter_t \<Rightarrow> 'h pb_world \<Rightarrow> 'h pb_world option) \<Rightarrow> ('s, 'h) pb_denv \<Rightarrow> pb_field_iter_t \<Rightarrow> 'h pb_world \<Rightarrow>
   'h pb_world option" where
  "release_contents release env iter w =
     (let field = cur_field iter; atype = PB_ATYPE (type field) in
      if PB_LTYPE (type field) = PB_LTYPE_EXTENSION
      then extension_release_loop release env (load_ptr (wmem w) (pData iter)) w
      else if PB_LTYPE (type field) = PB_LTYPE_SUBMESSAGE \<and> atype \<noteq> PB_ATYPE_CALLBACK then
        let item = (if atype = PB_ATYPE_POINTER then load_ptr (wmem w) (pData iter) else pData iter);
            count = (if PB_HTYPE (type field) = PB_HTYPE_REPEATED then
                       let n = (if atype = PB_ATYPE_STATIC \<and> pSize iter = pData iter then array_size field
                                else load_size (wmem w) (pSize iter))
                       in if atype = PB_ATYPE_STATIC \<and> n > array_size field then array_size field else n
                     else 1)
        in if item \<noteq> 0
           then release_items (\<lambda>p w. if ptr field = 0 then None else release_message release (dfields_at env (ptr field)) p w)
                  (data_size field) (unat count) item w
           else Some w
      else Some w)"

definition release_pointer :: "('s, 'h) pb_denv \<Rightarrow> pb_field_iter_t \<Rightarrow> 'h pb_world \<Rightarrow> 'h pb_world" where
  "release_pointer env iter w =
     (let field = cur_field iter; repeated = (PB_HTYPE (type field) = PB_HTYPE_REPEATED) in
      if PB_ATYPE (type field) = PB_ATYPE_POINTER then
        let w = (if repeated \<and> (PB_LTYPE (type field) = PB_LTYPE_STRING \<or> PB_LTYPE (type field) = PB_LTYPE_BYTES)
                 then free_entries env (unat (load_size (wmem w) (pSize iter))) (load_ptr (wmem w) (pData iter)) w else w);
            w = (if repeated then put_size (pSize iter) 0 w else w)
        in put_ptr (pData iter) 0 (pb_free env w (load_ptr (wmem w) (pData iter)))
      else w)"

primrec pb_release_single_field ::
  "nat \<Rightarrow> ('s, 'h) pb_denv \<Rightarrow> pb_field_iter_t \<Rightarrow> 'h pb_world \<Rightarrow> 'h pb_world option" where
  "pb_release_single_field 0 env iter w = None"
| "pb_release_single_field (Suc depth) env iter w =
     (if PB_HTYPE (type (cur_field iter)) = PB_HTYPE_ONEOF \<and> load_size (wmem w) (pSize iter) \<noteq> tag (cur_field iter) then Some w
      else map_option (release_pointer env iter)
             (release_contents (\<lambda>iter w. pb_release_single_field depth env iter w) env iter w))"

definition pb_release :: "nat \<Rightarrow> ('s, 'h) pb_denv \<Rightarrow> pb_fields \<Rightarrow> addr \<Rightarrow> 'h pb_world \<Rightarrow> 'h pb_world option" where
  "pb_release depth env fs dest w = release_message (pb_release_single_field depth env) fs dest w"

text \<open>The stream, the iterator and the memory it leaves.\<close>

definition pb_release_union_field ::
  "nat \<Rightarrow> ('s, 'h) pb_denv \<Rightarrow> 's pb_istream_t \<Rightarrow> pb_field_iter_t \<Rightarrow> 'h pb_world \<Rightarrow>
   (bool \<times> 's pb_istream_t \<times> pb_field_iter_t \<times> 'h pb_world) option" where
  "pb_release_union_field depth env stream iter w =
     (let old_tag = load_size (wmem w) (pSize iter); new_tag = tag (cur_field iter) in
      if old_tag = 0 \<or> old_tag = new_tag then Some (True, stream, iter, w)
      else case pb_field_iter_find iter old_tag of
             None \<Rightarrow> None
           | Some (False, iter) \<Rightarrow> Some (False, PB_SET_ERROR stream ''invalid union tag'', iter, w)
           | Some (True, iter) \<Rightarrow>
               (case pb_release_single_field depth env iter w of
                  None \<Rightarrow> None
                | Some w \<Rightarrow>
                    (case pb_field_iter_find iter new_tag of
                       None \<Rightarrow> None
                     | Some (False, iter) \<Rightarrow> Some (False, PB_SET_ERROR stream ''iterator error'', iter, w)
                     | Some (True, iter) \<Rightarrow>
                         Some (True, stream, iter,
                           if PB_ATYPE (type (cur_field iter)) = PB_ATYPE_POINTER then put_ptr (pData iter) 0 w else w))))"


section \<open>Static fields\<close>

text \<open>The address of an array entry: the product is one of 32-bit numbers.\<close>

definition entry_at :: "addr \<Rightarrow> pb_field_t \<Rightarrow> pb_size_t \<Rightarrow> addr" where
  "entry_at p field n = p + ucast (data_size field * n)"

text \<open>The loop over the entries of a packed array.\<close>

partial_function (option) packed_static_loop ::
  "('s, 'h) field_decoder \<Rightarrow> pb_field_iter_t \<Rightarrow> 's pb_istream_t \<Rightarrow> 'h pb_world \<Rightarrow> ('s, 'h) decoded" where
  "packed_static_loop func iter substream w =
     (if bytes_left substream > 0 \<and> load_size (wmem w) (pSize iter) < array_size (cur_field iter) then
        case func substream (cur_field iter) (entry_at (pData iter) (cur_field iter) (load_size (wmem w) (pSize iter))) w of
          None \<Rightarrow> None
        | Some (ok, substream, w) \<Rightarrow>
            if \<not> ok then Some (False, substream, w)
            else packed_static_loop func iter substream (put_size (pSize iter) (load_size (wmem w) (pSize iter) + 1) w)
      else Some (True, substream, w))"

text \<open>The end of every function with a substream: close it, then return \<open>status\<close>.\<close>

definition close_substream ::
  "'s pb_istream_t \<Rightarrow> bool \<Rightarrow> 's pb_istream_t \<Rightarrow> 'h pb_world \<Rightarrow> ('s, 'h) decoded" where
  "close_substream stream status substream w =
     (case pb_close_string_substream stream substream of (ok, stream) \<Rightarrow> Some (ok \<and> status, stream, w))"

definition decode_static_field ::
  "nat \<Rightarrow> ('s, 'h) pb_denv \<Rightarrow> ('s, 'h) field_decoder \<Rightarrow> 's pb_istream_t \<Rightarrow> pb_wire_type_t \<Rightarrow> pb_field_iter_t \<Rightarrow> 'h pb_world \<Rightarrow>
   ('s, 'h) decoded" where
  "decode_static_field depth env func stream wire_type iter w =
     (let field = cur_field iter; htype = PB_HTYPE (type field) in
      if htype = PB_HTYPE_REQUIRED then func stream field (pData iter) w
      else if htype = PB_HTYPE_OPTIONAL then
        func stream field (pData iter) (if pSize iter \<noteq> pData iter then put_bytes (pSize iter) [1] w else w)
      else if htype = PB_HTYPE_REPEATED then
        if wire_type = PB_WT_STRING \<and> PB_LTYPE (type field) \<le> PB_LTYPE_LAST_PACKABLE then
          (case pb_make_string_substream stream of
             (None, stream) \<Rightarrow> Some (False, stream, w)
           | (Some substream, stream) \<Rightarrow>
               (case packed_static_loop func iter substream w of
                  None \<Rightarrow> None
                | Some (status, substream, w) \<Rightarrow>
                    if bytes_left substream \<noteq> 0 then fail stream ''array overflow'' w
                    else close_substream stream status substream w))
        else
          let n = load_size (wmem w) (pSize iter); w = put_size (pSize iter) (n + 1) w in
          if n \<ge> array_size field then fail stream ''array overflow'' w
          else func stream field (entry_at (pData iter) field n) w
      else if htype = PB_HTYPE_ONEOF then
        (case (if PB_LTYPE (type field) = PB_LTYPE_SUBMESSAGE \<and> load_size (wmem w) (pSize iter) \<noteq> tag field
               then if ptr field = 0 then None
                    else pb_message_set_to_defaults depth env (dfields_at env (ptr field)) (pData iter)
                           (put_bytes (pData iter) (replicate (unat (data_size field)) 0) w)
               else Some w) of
           None \<Rightarrow> None
         | Some w \<Rightarrow> func stream field (pData iter) (put_size (pSize iter) (tag field) w))
      else fail stream ''invalid field type'' w)"

section \<open>Pointer fields\<close>

definition initialize_pointer_field ::
  "nat \<Rightarrow> ('s, 'h) pb_denv \<Rightarrow> addr \<Rightarrow> pb_field_iter_t \<Rightarrow> 'h pb_world \<Rightarrow> 'h pb_world option" where
  "initialize_pointer_field depth env item iter w =
     (let field = cur_field iter; ltype = PB_LTYPE (type field) in
      if ltype = PB_LTYPE_STRING \<or> ltype = PB_LTYPE_BYTES then Some (put_ptr item 0 w)
      else if ltype = PB_LTYPE_SUBMESSAGE then
        if ptr field = 0 then None
        else pb_message_set_to_defaults depth env (dfields_at env (ptr field)) item
               (put_bytes item (replicate (unat (data_size field)) 0) w)
      else Some w)"

text \<open>
  The loop over a packed array, with the number of entries there is room for. The stream is that around
  the substream, whose error message it may set. An entry size of zero divides by zero.
\<close>

partial_function (option) packed_pointer_loop ::
  "nat \<Rightarrow> ('s, 'h) pb_denv \<Rightarrow> ('s, 'h) field_decoder \<Rightarrow> pb_field_iter_t \<Rightarrow> 's pb_istream_t \<Rightarrow> size_t \<Rightarrow> 's pb_istream_t \<Rightarrow>
   'h pb_world \<Rightarrow> (bool \<times> 's pb_istream_t \<times> 's pb_istream_t \<times> 'h pb_world) option" where
  "packed_pointer_loop depth env func iter stream allocated_size substream w =
     (let field = cur_field iter; n = load_size (wmem w) (pSize iter) in
      if bytes_left substream = 0 then Some (True, stream, substream, w)
      else if n = PB_SIZE_MAX then Some (False, stream\<lparr>errmsg := Some ''too many array entries''\<rparr>, substream, w)
      else
        let grow = (ucast n + 1 > allocated_size);
            remain = (bytes_left substream - 1) div ucast (data_size field) + 1;
            allocated_size = (if \<not> grow then allocated_size
                              else if remain < ucast PB_SIZE_MAX - allocated_size then allocated_size + remain
                              else allocated_size + 1)
        in if grow \<and> data_size field = 0 then None
           else case (if grow then allocate_field env substream (pData iter) (ucast (data_size field)) allocated_size w
                      else (True, substream, w)) of
                  (ok, substream, w) \<Rightarrow>
                    if \<not> ok then Some (False, stream, substream, w)
                    else
                      let item = entry_at (load_ptr (wmem w) (pData iter)) field (load_size (wmem w) (pSize iter)) in
                      if item = 0 then Some (False, stream, substream, w)
                      else
                        case initialize_pointer_field depth env item iter w of
                          None \<Rightarrow> None
                        | Some w \<Rightarrow>
                            case func substream field item w of
                              None \<Rightarrow> None
                            | Some (ok, substream, w) \<Rightarrow>
                                if \<not> ok then Some (False, stream, substream, w)
                                else packed_pointer_loop depth env func iter stream allocated_size substream
                                       (put_size (pSize iter) (load_size (wmem w) (pSize iter) + 1) w))"

definition decode_pointer_field ::
  "nat \<Rightarrow> ('s, 'h) pb_denv \<Rightarrow> ('s, 'h) field_decoder \<Rightarrow> 's pb_istream_t \<Rightarrow> pb_wire_type_t \<Rightarrow> pb_field_iter_t \<Rightarrow> 'h pb_world \<Rightarrow>
   ('s, 'h) decoded" where
  "decode_pointer_field depth env func stream wire_type iter w =
     (let field = cur_field iter; htype = PB_HTYPE (type field); ltype = PB_LTYPE (type field) in
      if htype = PB_HTYPE_REQUIRED \<or> htype = PB_HTYPE_OPTIONAL \<or> htype = PB_HTYPE_ONEOF then
        (case (if ltype = PB_LTYPE_SUBMESSAGE \<and> load_ptr (wmem w) (pData iter) \<noteq> 0
               then pb_release_single_field depth env iter w else Some w) of
           None \<Rightarrow> None
         | Some w \<Rightarrow>
             let w = (if htype = PB_HTYPE_ONEOF then put_size (pSize iter) (tag field) w else w) in
             if ltype = PB_LTYPE_STRING \<or> ltype = PB_LTYPE_BYTES then func stream field (pData iter) w
             else
               (case allocate_field env stream (pData iter) (ucast (data_size field)) 1 w of
                  (ok, stream, w) \<Rightarrow>
                    if \<not> ok then Some (False, stream, w)
                    else
                      (case initialize_pointer_field depth env (load_ptr (wmem w) (pData iter)) iter w of
                         None \<Rightarrow> None
                       | Some w \<Rightarrow> func stream field (load_ptr (wmem w) (pData iter)) w)))
      else if htype = PB_HTYPE_REPEATED then
        if wire_type = PB_WT_STRING \<and> ltype \<le> PB_LTYPE_LAST_PACKABLE then
          (case pb_make_string_substream stream of
             (None, stream) \<Rightarrow> Some (False, stream, w)
           | (Some substream, stream) \<Rightarrow>
               (case packed_pointer_loop depth env func iter stream (ucast (load_size (wmem w) (pSize iter))) substream w of
                  None \<Rightarrow> None
                | Some (status, stream, substream, w) \<Rightarrow> close_substream stream status substream w))
        else
          let n = load_size (wmem w) (pSize iter) in
          if n = PB_SIZE_MAX then fail stream ''too many array entries'' w
          else
            (case allocate_field env stream (pData iter) (ucast (data_size field)) (ucast (n + 1)) w of
               (ok, stream, w) \<Rightarrow>
                 if \<not> ok then Some (False, stream, w)
                 else
                   let n = load_size (wmem w) (pSize iter);
                       item = entry_at (load_ptr (wmem w) (pData iter)) field n;
                       w = put_size (pSize iter) (n + 1) w
                   in case initialize_pointer_field depth env item iter w of
                        None \<Rightarrow> None
                      | Some w \<Rightarrow> func stream field item w)
      else fail stream ''invalid field type'' w)"

section \<open>Callback fields\<close>

text \<open>The loop that calls the user's function until the substream is empty.\<close>

partial_function (option) callback_loop ::
  "('s, 'h) pb_denv \<Rightarrow> addr \<Rightarrow> pb_field_t \<Rightarrow> 's pb_istream_t \<Rightarrow> 'h pb_world \<Rightarrow> ('s, 'h) decoded" where
  "callback_loop env callback field substream w =
     (if load_ptr (wmem w) callback = 0 then None
      else case user_decode env (load_ptr (wmem w) callback) substream field (callback + 8) w of
             None \<Rightarrow> None
           | Some (ok, substream, w) \<Rightarrow>
               if \<not> ok then Some (False, substream, w)
               else if bytes_left substream \<noteq> 0 then callback_loop env callback field substream w
               else Some (True, substream, w))"

text \<open>\<open>pb_callback_t\<close>: the function at offset 0, \<open>arg\<close> at offset 8.\<close>

definition decode_callback_field ::
  "('s, 'h) pb_denv \<Rightarrow> 's pb_istream_t \<Rightarrow> pb_wire_type_t \<Rightarrow> pb_field_iter_t \<Rightarrow> 'h pb_world \<Rightarrow> ('s, 'h) decoded" where
  "decode_callback_field env stream wire_type iter w =
     (let f = load_ptr (wmem w) (pData iter); field = cur_field iter in
      if pData iter = 0 \<or> f = 0 then
        (case pb_skip_field stream wire_type of (ok, stream) \<Rightarrow> Some (ok, stream, w))
      else if wire_type = PB_WT_STRING then
        (case pb_make_string_substream stream of
           (None, stream) \<Rightarrow> Some (False, stream, w)
         | (Some substream, stream) \<Rightarrow>
             (case callback_loop env (pData iter) field substream w of
                None \<Rightarrow> None
              | Some (ok, substream, w) \<Rightarrow>
                  if \<not> ok then fail stream ''callback failed'' w else close_substream stream True substream w))
      else
        (case read_raw_value stream wire_type 10 of
           (None, stream) \<Rightarrow> Some (False, stream, w)
         | (Some bs, stream) \<Rightarrow>
             (case user_decode env f (pb_istream_from_buffer bs (word_of_nat (length bs))) field (pData iter + 8) w of
                None \<Rightarrow> None
              | Some (ok, substream, w) \<Rightarrow> Some (ok, stream, w))))"

text \<open>
  The result of \<open>decode_field\<close> includes the iterator, which the release of a union member moves.
\<close>

definition decode_field ::
  "nat \<Rightarrow> ('s, 'h) pb_denv \<Rightarrow> ('s, 'h) decoder \<Rightarrow> ('s, 'h) decoder \<Rightarrow> 's pb_istream_t \<Rightarrow> pb_wire_type_t \<Rightarrow> pb_field_iter_t \<Rightarrow>
   'h pb_world \<Rightarrow> (bool \<times> 's pb_istream_t \<times> pb_field_iter_t \<times> 'h pb_world) option" where
  "decode_field depth env decode decode_noinit stream wire_type iter w =
     (case (if PB_HTYPE (type (cur_field iter)) = PB_HTYPE_ONEOF then pb_release_union_field depth env stream iter w
            else Some (True, stream, iter, w)) of
        None \<Rightarrow> None
      | Some (False, stream, iter, w) \<Rightarrow> Some (False, stream, iter, w)
      | Some (True, stream, iter, w) \<Rightarrow>
          let field = cur_field iter; atype = PB_ATYPE (type field);
              func = PB_DECODERS env decode decode_noinit (PB_LTYPE (type field))
          in map_option (\<lambda>(ok, stream, w). (ok, stream, iter, w))
               (if atype = PB_ATYPE_STATIC then decode_static_field depth env func stream wire_type iter w
                else if atype = PB_ATYPE_POINTER then decode_pointer_field depth env func stream wire_type iter w
                else if atype = PB_ATYPE_CALLBACK then decode_callback_field env stream wire_type iter w
                else fail stream ''invalid field type'' w))"

section \<open>Extensions\<close>

definition default_extension_decoder ::
  "nat \<Rightarrow> ('s, 'h) pb_denv \<Rightarrow> ('s, 'h) decoder \<Rightarrow> ('s, 'h) decoder \<Rightarrow> 's pb_istream_t \<Rightarrow> addr \<Rightarrow> u32 \<Rightarrow> pb_wire_type_t \<Rightarrow>
   'h pb_world \<Rightarrow> ('s, 'h) decoded" where
  "default_extension_decoder depth env decode decode_noinit stream extension t wire_type w =
     (let iter = iter_from_extension env w extension in
      if tag (cur_field iter) \<noteq> t then Some (True, stream, w)
      else map_option (\<lambda>(ok, stream, iter, w). (ok, stream, w))
             (decode_field depth env decode decode_noinit stream wire_type iter (put_bytes (extension + 24) [1] w)))"

partial_function (option) decode_extension_loop ::
  "nat \<Rightarrow> ('s, 'h) pb_denv \<Rightarrow> ('s, 'h) decoder \<Rightarrow> ('s, 'h) decoder \<Rightarrow> size_t \<Rightarrow> 's pb_istream_t \<Rightarrow> addr \<Rightarrow> u32 \<Rightarrow> pb_wire_type_t \<Rightarrow>
   'h pb_world \<Rightarrow> ('s, 'h) decoded" where
  "decode_extension_loop depth env decode decode_noinit left stream extension t wire_type w =
     (if extension = 0 \<or> left \<noteq> bytes_left stream then Some (True, stream, w)
      else
        let f = load_ptr (wmem w) (load_ptr (wmem w) extension) in
        case (if f \<noteq> 0 then extension_decode env f stream extension t wire_type w
              else default_extension_decoder depth env decode decode_noinit stream extension t wire_type w) of
          None \<Rightarrow> None
        | Some (status, stream, w) \<Rightarrow>
            if \<not> status then Some (False, stream, w)
            else decode_extension_loop depth env decode decode_noinit left stream (load_ptr (wmem w) (extension + 16)) t wire_type w)"

definition decode_extension ::
  "nat \<Rightarrow> ('s, 'h) pb_denv \<Rightarrow> ('s, 'h) decoder \<Rightarrow> ('s, 'h) decoder \<Rightarrow> 's pb_istream_t \<Rightarrow> u32 \<Rightarrow> pb_wire_type_t \<Rightarrow> pb_field_iter_t \<Rightarrow>
   'h pb_world \<Rightarrow> ('s, 'h) decoded" where
  "decode_extension depth env decode decode_noinit stream t wire_type iter w =
     decode_extension_loop depth env decode decode_noinit (bytes_left stream) stream (load_ptr (wmem w) (pData iter)) t wire_type w"

partial_function (option) find_extension_loop :: "nat \<Rightarrow> pb_field_iter_t \<Rightarrow> (bool \<times> pb_field_iter_t) option" where
  "find_extension_loop first iter =
     (if PB_LTYPE (type (cur_field iter)) = PB_LTYPE_EXTENSION then Some (True, iter)
      else let iter = snd (pb_field_iter_next iter) in
           if pos iter \<noteq> first then find_extension_loop first iter else Some (False, iter))"

definition find_extension_field :: "pb_field_iter_t \<Rightarrow> (bool \<times> pb_field_iter_t) option" where
  "find_extension_field iter = find_extension_loop (pos iter) iter"


section \<open>Messages\<close>

definition PB_MAX_REQUIRED_FIELDS :: u32 where "PB_MAX_REQUIRED_FIELDS = 64"

text \<open>
  The variables of \<open>pb_decode_noinit\<close>; \<open>fixed_count_field\<close> is an index into the field array, and
  \<open>fixed_count_size\<close> is in memory, because \<open>pSize\<close> may point at it.
\<close>

record ('s, 'h) noinit_state =
  nstream :: "'s pb_istream_t"
  nworld :: "'h pb_world"
  niter :: pb_field_iter_t
  fields_seen :: "u32 list"
  extension_range_start :: u32
  fixed_count_field :: "nat option"

text \<open>
  How an iteration of the loop goes on: with the next one, behind the loop, with \<open>return\<close>, or, when no
  extension took the field, with its being skipped.
\<close>

datatype loop_exit = Again | Leave | Return bool | Unhandled

definition unknown_field ::
  "nat \<Rightarrow> ('s, 'h) pb_denv \<Rightarrow> ('s, 'h) decoder \<Rightarrow> ('s, 'h) decoder \<Rightarrow> u32 \<Rightarrow> pb_wire_type_t \<Rightarrow> ('s, 'h) noinit_state \<Rightarrow>
   (loop_exit \<times> ('s, 'h) noinit_state) option" where
  "unknown_field depth env decode decode_noinit t wire_type st =
     (case (if t \<ge> extension_range_start st then
              case find_extension_field (niter st) of
                None \<Rightarrow> None
              | Some (found, iter) \<Rightarrow>
                  let st = st\<lparr>niter := iter, extension_range_start := (if found then tag (cur_field iter) else - 1)\<rparr> in
                  if t \<ge> extension_range_start st then
                    (case decode_extension depth env decode decode_noinit (nstream st) t wire_type iter (nworld st) of
                       None \<Rightarrow> None
                     | Some (ok, stream, w) \<Rightarrow>
                         Some (if \<not> ok then Return False
                               else if bytes_left (nstream st) \<noteq> bytes_left stream then Again else Unhandled,
                               st\<lparr>nstream := stream, nworld := w\<rparr>))
                  else Some (Unhandled, st)
            else Some (Unhandled, st)) of
        None \<Rightarrow> None
      | Some (Unhandled, st) \<Rightarrow>
          (case pb_skip_field (nstream st) wire_type of
             (ok, stream) \<Rightarrow> Some (if ok then Again else Return False, st\<lparr>nstream := stream\<rparr>))
      | Some r \<Rightarrow> Some r)"

text \<open>A repeated field without a count in the message counts in \<open>fixed_count_size\<close>.\<close>

definition wrong_fixed_count :: "('s, 'h) pb_denv \<Rightarrow> nat \<Rightarrow> ('s, 'h) noinit_state \<Rightarrow> bool" where
  "wrong_fixed_count env depth st =
     (case fixed_count_field st of
        None \<Rightarrow> False
      | Some i \<Rightarrow> load_size (wmem (nworld st)) (fixed_count_at env depth) \<noteq> array_size (field_at (start (niter st)) i))"

definition begin_fixed_count :: "('s, 'h) pb_denv \<Rightarrow> nat \<Rightarrow> ('s, 'h) noinit_state \<Rightarrow> ('s, 'h) noinit_state option" where
  "begin_fixed_count env depth st =
     (let iter = niter st in
      if PB_HTYPE (type (cur_field iter)) = PB_HTYPE_REPEATED \<and> pSize iter = pData iter then
        if fixed_count_field st \<noteq> Some (pos iter) \<and> wrong_fixed_count env depth st then None
        else
          let st = (if fixed_count_field st \<noteq> Some (pos iter)
                    then st\<lparr>fixed_count_field := Some (pos iter), nworld := put_size (fixed_count_at env depth) 0 (nworld st)\<rparr>
                    else st)
          in Some (st\<lparr>niter := iter\<lparr>pSize := fixed_count_at env depth\<rparr>\<rparr>)
      else Some st)"

definition mark_required :: "('s, 'h) noinit_state \<Rightarrow> ('s, 'h) noinit_state" where
  "mark_required st =
     (let iter = niter st; i = required_field_index iter; word = unat (drop_bit 5 i) in
      if PB_HTYPE (type (cur_field iter)) = PB_HTYPE_REQUIRED \<and> i < PB_MAX_REQUIRED_FIELDS
      then st\<lparr>fields_seen := (fields_seen st)[word := fields_seen st ! word OR push_bit (unat (i AND 31)) 1]\<rparr>
      else st)"

definition known_field ::
  "nat \<Rightarrow> ('s, 'h) pb_denv \<Rightarrow> ('s, 'h) decoder \<Rightarrow> ('s, 'h) decoder \<Rightarrow> pb_wire_type_t \<Rightarrow> ('s, 'h) noinit_state \<Rightarrow>
   (loop_exit \<times> ('s, 'h) noinit_state) option" where
  "known_field depth env decode decode_noinit wire_type st =
     (case begin_fixed_count env depth st of
        None \<Rightarrow> Some (Return False, st\<lparr>nstream := PB_SET_ERROR (nstream st) ''wrong size for fixed count field''\<rparr>)
      | Some st \<Rightarrow>
          let st = mark_required st in
          (case decode_field depth env decode decode_noinit (nstream st) wire_type (niter st) (nworld st) of
             None \<Rightarrow> None
           | Some (ok, stream, iter, w) \<Rightarrow>
               Some (if ok then Again else Return False, st\<lparr>nstream := stream, niter := iter, nworld := w\<rparr>)))"

definition noinit_step ::
  "nat \<Rightarrow> ('s, 'h) pb_denv \<Rightarrow> ('s, 'h) decoder \<Rightarrow> ('s, 'h) decoder \<Rightarrow> ('s, 'h) noinit_state \<Rightarrow>
   (loop_exit \<times> ('s, 'h) noinit_state) option" where
  "noinit_step depth env decode decode_noinit st =
     (case pb_decode_tag (nstream st) of
        (None, eof, stream) \<Rightarrow> Some (if eof then Leave else Return False, st\<lparr>nstream := stream\<rparr>)
      | (Some (wire_type, t), eof, stream) \<Rightarrow>
          (case pb_field_iter_find (niter st) t of
             None \<Rightarrow> None
           | Some (found, iter) \<Rightarrow>
               let st = st\<lparr>nstream := stream, niter := iter\<rparr> in
               if \<not> found then unknown_field depth env decode decode_noinit t wire_type st
               else known_field depth env decode decode_noinit wire_type st))"

partial_function (option) noinit_loop ::
  "nat \<Rightarrow> ('s, 'h) pb_denv \<Rightarrow> ('s, 'h) decoder \<Rightarrow> ('s, 'h) decoder \<Rightarrow> ('s, 'h) noinit_state \<Rightarrow>
   (loop_exit \<times> ('s, 'h) noinit_state) option" where
  "noinit_loop depth env decode decode_noinit st =
     (if bytes_left (nstream st) = 0 then Some (Leave, st)
      else case noinit_step depth env decode decode_noinit st of
             None \<Rightarrow> None
           | Some (exit, st) \<Rightarrow>
               if exit = Again then noinit_loop depth env decode decode_noinit st else Some (exit, st))"

text \<open>
  The loop that seeks the end of the field array: the number of required fields before the last field,
  its type, and the iterator.
\<close>

function required_loop :: "pb_field_iter_t \<Rightarrow> u32 \<times> pb_type_t \<times> pb_field_iter_t" where
  "required_loop iter =
     (if fst (pb_field_iter_next iter) then required_loop (snd (pb_field_iter_next iter))
      else (required_field_index iter, type (cur_field iter), snd (pb_field_iter_next iter)))"
  by pat_completeness auto
termination
  by (relation "measure (\<lambda>iter. length (start iter) - pos iter)") (auto simp: iter_next_measure)

declare required_loop.simps [simp del]

definition required_seen :: "pb_field_iter_t \<Rightarrow> u32 list \<Rightarrow> bool" where
  "required_seen iter seen =
     (case required_loop iter of (count, last_type, iter) \<Rightarrow>
        let count = (if PB_HTYPE last_type = PB_HTYPE_REQUIRED \<and> tag (cur_field iter) \<noteq> 0 then count + 1 else count);
            count = (if count > PB_MAX_REQUIRED_FIELDS then PB_MAX_REQUIRED_FIELDS else count);
            words = unat (drop_bit 5 count); bits = unat (count AND 31)
        in list_all (\<lambda>i. seen ! i = - 1) [0 ..< words] \<and> (bits = 0 \<or> seen ! words = drop_bit (32 - bits) (- 1)))"

text \<open>\<open>pb_decode_noinit\<close>, with \<open>decode\<close> and \<open>decode_noinit\<close> for the calls on submessages.\<close>

definition noinit_body :: "nat \<Rightarrow> ('s, 'h) pb_denv \<Rightarrow> ('s, 'h) decoder \<Rightarrow> ('s, 'h) decoder \<Rightarrow> ('s, 'h) decoder" where
  "noinit_body depth env decode decode_noinit stream fs dest w =
     (case noinit_loop depth env decode decode_noinit
             \<lparr>nstream = stream, nworld = put_size (fixed_count_at env depth) 0 w,
              niter = snd (pb_field_iter_begin fs dest), fields_seen = [0, 0], extension_range_start = 0,
              fixed_count_field = None\<rparr> of
        None \<Rightarrow> None
      | Some (Return ok, st) \<Rightarrow> Some (ok, nstream st, nworld st)
      | Some (_, st) \<Rightarrow>
          if wrong_fixed_count env depth st then fail (nstream st) ''wrong size for fixed count field'' (nworld st)
          else if \<not> required_seen (niter st) (fields_seen st) then fail (nstream st) ''missing required field'' (nworld st)
          else Some (True, nstream st, nworld st))"

text \<open>\<open>pb_decode\<close>, with \<open>decode_noinit\<close> for \<open>pb_decode_noinit\<close>.\<close>

definition decode_body :: "nat \<Rightarrow> ('s, 'h) pb_denv \<Rightarrow> ('s, 'h) decoder \<Rightarrow> ('s, 'h) decoder" where
  "decode_body depth env decode_noinit stream fs dest w =
     (case pb_message_set_to_defaults depth env fs dest w of
        None \<Rightarrow> None
      | Some w \<Rightarrow>
          (case decode_noinit stream fs dest w of
             None \<Rightarrow> None
           | Some (status, stream, w) \<Rightarrow>
               if status then Some (True, stream, w)
               else map_option (\<lambda>w. (False, stream, w)) (pb_release depth env fs dest w)))"

primrec pb_decode_noinit :: "nat \<Rightarrow> ('s, 'h) pb_denv \<Rightarrow> ('s, 'h) decoder" where
  "pb_decode_noinit 0 env stream fs dest w = None"
| "pb_decode_noinit (Suc depth) env stream fs dest w =
     noinit_body depth env (decode_body depth env (\<lambda>stream fs dest w. pb_decode_noinit depth env stream fs dest w))
       (\<lambda>stream fs dest w. pb_decode_noinit depth env stream fs dest w) stream fs dest w"

definition pb_decode :: "nat \<Rightarrow> ('s, 'h) pb_denv \<Rightarrow> ('s, 'h) decoder" where
  "pb_decode depth env = decode_body depth env (pb_decode_noinit depth env)"

definition decode_delimited :: "('s, 'h) decoder \<Rightarrow> ('s, 'h) decoder" where
  "decode_delimited decode stream fs dest w =
     (case pb_make_string_substream stream of
        (None, stream) \<Rightarrow> Some (False, stream, w)
      | (Some substream, stream) \<Rightarrow>
          (case decode substream fs dest w of
             None \<Rightarrow> None
           | Some (status, substream, w) \<Rightarrow> close_substream stream status substream w))"

definition pb_decode_delimited_noinit :: "nat \<Rightarrow> ('s, 'h) pb_denv \<Rightarrow> ('s, 'h) decoder" where
  "pb_decode_delimited_noinit depth env = decode_delimited (pb_decode_noinit depth env)"

definition pb_decode_delimited :: "nat \<Rightarrow> ('s, 'h) pb_denv \<Rightarrow> ('s, 'h) decoder" where
  "pb_decode_delimited depth env = decode_delimited (pb_decode depth env)"

definition pb_decode_nullterminated :: "nat \<Rightarrow> ('s, 'h) pb_denv \<Rightarrow> ('s, 'h) decoder" where
  "pb_decode_nullterminated depth env = pb_decode depth env"

end
