(* ===== verification/Pb_Store.thy ===== *)
theory Pb_Store
  imports Pb_Decode Pb_Codec
begin

text \<open>
  What the scalar field decoders of nanopb store: the bytes the encoder has read.
\<close>

section \<open>Bytes in memory\<close>

lemma store_bytes_at:
  assumes "length bs \<le> 18446744073709551616"
  shows "store_bytes m p bs q = (if unat (q - p) < length bs then bs ! unat (q - p) else m q)"
  using assms
proof (induction bs arbitrary: m p)
  case (Cons b bs)
  have "length bs \<le> 18446744073709551616" using Cons.prems by simp
  note IH = Cons.IH [OF this, of "m(p := b)" "p + 1"]
  show ?case
  proof (cases "q = p")
    case True
    have "unat (- 1 :: addr) = 18446744073709551615" by simp
    then have "\<not> unat (q - (p + 1)) < length bs" using True Cons.prems by simp
    with IH True show ?thesis by (simp add: fun_upd_def)
  next
    case False
    have "unat (q - p - 1) = unat (q - p) - 1" using False by (intro unat_minus_one) simp
    moreover have "0 < unat (q - p)" using False by (simp add: unat_gt_0)
    ultimately have "unat (q - p) = Suc (unat (q - (p + 1)))" by (simp add: diff_diff_eq)
    with IH False show ?thesis by (simp add: fun_upd_def)
  qed
qed simp

text \<open>Two stretches of memory that do not meet, also around the end of the address space.\<close>

definition apart :: "addr \<Rightarrow> nat \<Rightarrow> addr \<Rightarrow> nat \<Rightarrow> bool" where
  "apart p n q k \<longleftrightarrow> n \<le> unat (q - p) \<and> k \<le> unat (p - q)"

lemma apart_sym: "apart p n q k \<longleftrightarrow> apart q k p n"
  by (auto simp: apart_def)

lemma apart_disjoint:
  assumes "apart p n q k" "unat (a - p) < n"
  shows "\<not> unat (a - q) < k"
proof
  assume k: "unat (a - q) < k"
  show False
  proof (cases "unat (a - q) \<le> unat (a - p)")
    case True
    have "unat (q - p) = unat ((a - p) - (a - q))" by simp
    also have "\<dots> = unat (a - p) - unat (a - q)" using True by (intro unat_sub) (simp add: word_le_nat_alt)
    finally show False using assms unfolding apart_def by linarith
  next
    case False
    have "unat (p - q) = unat ((a - q) - (a - p))" by simp
    also have "\<dots> = unat (a - q) - unat (a - p)" using False by (intro unat_sub) (simp add: word_le_nat_alt)
    finally show False using assms(1) k unfolding apart_def by linarith
  qed
qed

lemma unat_offset: "i < 18446744073709551616 \<Longrightarrow> unat (p + word_of_nat i - p :: addr) = i"
  by (simp add: unat_of_nat_u64)

lemma load_bytes_put:
  assumes "length bs < 18446744073709551616"
  shows "load_bytes (wmem (put_bytes p bs w)) p (length bs) = bs"
  using assms by (intro nth_equalityI) (simp_all add: load_bytes_def put_bytes_def store_bytes_at unat_of_nat_u64)

lemma load_bytes_put_apart:
  assumes "apart p n q k" "length bs = k" "n < 18446744073709551616" "k < 18446744073709551616"
  shows "load_bytes (wmem (put_bytes q bs w)) p n = load_bytes (wmem w) p n"
proof -
  have "\<not> unat (p + word_of_nat i - q) < k" if "i < n" for i
    using apart_disjoint [OF assms(1), of "p + word_of_nat i"] unat_offset [of i p] that assms(3) by simp
  then show ?thesis using assms by (simp add: load_bytes_def put_bytes_def store_bytes_at)
qed

section \<open>Numbers in memory\<close>

lemma bit_load_le:
  "n \<le> 8 \<Longrightarrow> bit (load_le m p n) k \<longleftrightarrow> k < 8 * n \<and> bit (m (p + word_of_nat (k div 8))) (k mod 8)"
proof (induction n arbitrary: p k)
  case (Suc n)
  show ?case
  proof (cases "k < 8")
    case True
    then show ?thesis by (simp add: bit_or_iff bit_push_bit_iff bit_ucast_iff)
  next
    case False
    have "\<not> bit (m p) k" using False bit_imp_le_length [of "m p" k] by auto
    moreover have "k div 8 = Suc ((k - 8) div 8)" "k mod 8 = (k - 8) mod 8"
      using False by (simp_all add: le_div_geq le_mod_geq)
    ultimately show ?thesis
      using False Suc.IH [of "p + 1" "k - 8"] Suc.prems
      by (auto simp: bit_or_iff bit_push_bit_iff bit_ucast_iff add.assoc)
  qed
qed simp

text \<open>The bytes of a number that agrees with the one in memory on the bits in question.\<close>

lemma le_image_load:
  assumes "n \<le> 8" "\<And>k. k < 8 * n \<Longrightarrow> bit v k \<longleftrightarrow> bit (load_le m p n) k"
  shows "map (\<lambda>i. ucast (drop_bit (8 * i) v)) [0 ..< n] = load_bytes m p n"
proof (rule nth_equalityI)
  fix i
  assume "i < length (map (\<lambda>i. ucast (drop_bit (8 * i) v)) [0 ..< n])"
  then have i: "i < n" by simp
  have "ucast (drop_bit (8 * i) v) = m (p + word_of_nat i)"
  proof (rule bit_word_eqI)
    fix j
    assume "j < LENGTH(8)"
    then have j: "j < 8" by simp
    have "8 * i + j < 8 * n" using i j by linarith
    then have "bit v (8 * i + j) \<longleftrightarrow> bit (m (p + word_of_nat i)) j"
      using assms(2) [of "8 * i + j"] bit_load_le [OF assms(1), of m p "8 * i + j"] j by simp
    then show "bit (ucast (drop_bit (8 * i) v) :: u8) j \<longleftrightarrow> bit (m (p + word_of_nat i)) j"
      using j by (simp add: bit_ucast_iff bit_drop_bit_eq)
  qed
  with i show "map (\<lambda>i. ucast (drop_bit (8 * i) v)) [0 ..< n] ! i = load_bytes m p n ! i"
    by (simp add: load_bytes_def)
qed (simp add: load_bytes_def)

lemma put_le_load:
  assumes "n \<le> 8" "\<And>k. k < 8 * n \<Longrightarrow> bit v k \<longleftrightarrow> bit (load_le m p n) k"
  shows "put_le n dest v w = put_bytes dest (load_bytes m p n) w"
  using le_image_load [OF assms] by (simp add: put_le_def put_bytes_def store_le_def)

end
