(* ===== verification/Pb_Field_Codec.thy ===== *)
theory Pb_Field_Codec
  imports Pb_Store
begin

text \<open>
  The contract between a scalar field's encoder and its decoder: the decoder of the field takes the
  bytes of the value, and stores what the encoder has found in memory.
\<close>

locale field_codec =
  fixes dec :: "('s, 'h) field_decoder"
    and field :: pb_field_t
    and bytes :: "u8 list"
    and stored :: "u8 list"
  assumes stores: "\<And>s rest dest w. istream_ok s \<Longrightarrow> input s = bytes @ rest \<Longrightarrow>
    \<exists>s'. dec s field dest w = Some (True, s', put_bytes dest stored w) \<and> istream_ok s' \<and> input s' = rest"
begin

text \<open>Reading a value back leaves it in memory, and nothing else.\<close>

lemma stored_at:
  assumes "istream_ok s" "input s = bytes @ rest" "length stored < 18446744073709551616"
  shows "\<exists>s' w'. dec s field dest w = Some (True, s', w') \<and> input s' = rest \<and>
    load_bytes (wmem w') dest (length stored) = stored \<and>
    (\<forall>p n. apart p n dest (length stored) \<longrightarrow> n < 18446744073709551616 \<longrightarrow> load_bytes (wmem w') p n = load_bytes (wmem w) p n)"
  using stores [OF assms(1,2), of dest w] load_bytes_put [OF assms(3)] load_bytes_put_apart [OF _ refl _ assms(3)] by blast

end

lemma field_codecI:
  assumes "istream_reader get spec" "\<And>rest. spec (bytes @ rest) = Some (v, rest)"
    and "\<And>s s' dest w. get s = (Some v, s') \<Longrightarrow> dec s field dest w = Some (True, s', put_bytes dest stored w)"
  shows "field_codec dec field bytes stored"
proof
  fix s :: "'a pb_istream_t" and rest dest and w :: "'c pb_world"
  assume s: "istream_ok s" "input s = bytes @ rest"
  then have "spec (input s) = Some (v, rest)" by (simp add: assms(2))
  then obtain s' where "get s = (Some v, s')" "istream_ok s'" "input s' = rest"
    by (rule istream_reader.consumed [OF assms(1) s(1)])
  then show "\<exists>s'. dec s field dest w = Some (True, s', put_bytes dest stored w) \<and> istream_ok s' \<and> input s' = rest"
    using assms(3) by blast
qed

section \<open>Booleans and fixed sizes\<close>

interpretation bool_field: field_codec pb_dec_bool field "[if b then 1 else 0]" "[if b then 1 else 0]" for field b
proof -
  have "varint (if b then 1 else 0) = [if b then 1 else 0]" by (simp add: varint.simps)
  then have "varint32_value ([if b then 1 else 0] @ rest) = Some (if b then 1 else 0, rest)" for rest
    using varint32_value_varint [of "if b then 1 else 0" rest] by (cases b) simp_all
  then show "field_codec pb_dec_bool field [if b then 1 else 0] [if b then 1 else 0]"
    by (rule field_codecI [OF rd_varint32.istream_reader_axioms]) (simp add: pb_dec_bool_def)
qed

lemma put_le_4: "put_le 4 dest (ucast (ucast (load_le m p 4) :: u32)) w = put_bytes dest (load_bytes m p 4) w"
  by (rule put_le_load) (simp_all add: bit_ucast_iff)

interpretation fixed32_field: field_codec pb_dec_fixed32 field "le_bytes 4 (unat (ucast (load_le m p 4) :: u32))" "load_bytes m p 4"
  for field m p
  by (rule field_codecI [OF rd_fixed32.istream_reader_axioms])
    (simp add: fixed_spec_def le_word_le_bytes, simp add: pb_dec_fixed32_def put_le_4)

lemma put_le_8: "put_le 8 dest (load_le m p 8) w = put_bytes dest (load_bytes m p 8) w"
  by (rule put_le_load) simp_all

interpretation fixed64_field: field_codec pb_dec_fixed64 field "le_bytes 8 (unat (load_le m p 8))" "load_bytes m p 8"
  for field m p
  by (rule field_codecI [OF rd_fixed64.istream_reader_axioms])
    (simp add: fixed_spec_def le_word_le_bytes, simp add: pb_dec_fixed64_def put_le_8)

section \<open>Variable-length integers\<close>

lemma varint_spec_u64: "(\<lambda>bs. map_option (\<lambda>(v, rest). (word_of_nat v, rest)) (varint_spec 10 bs)) (varint (unat v) @ rest) =
    Some (v :: u64, rest)"
  by (simp add: varint_spec_varint length_varint_64)

lemma min_top: "k < 8 \<Longrightarrow> min k 7 = k" "k < 16 \<Longrightarrow> min k 15 = k" "k < 32 \<Longrightarrow> min k 31 = k" for k :: nat
  by simp_all

lemma scast_32:
  "scast (ucast (scast (x :: u8) :: u64) :: u32) = (scast x :: u64)"
  "scast (ucast (scast (y :: u16) :: u64) :: u32) = (scast y :: u64)"
  by (rule bit_word_eqI; auto simp: bit_simps min_def)+

lemma ucast_scast_64:
  "ucast (scast (x :: u8) :: u64) = x" "ucast (scast (y :: u16) :: u64) = y" "ucast (scast (z :: u32) :: u64) = z"
  by (rule bit_word_eqI; simp add: bit_simps min_top)+

lemma put_le_signed:
  "put_le 1 dest (scast (ucast (load_le m p 1) :: u8)) w = put_bytes dest (load_bytes m p 1) w"
  "put_le 2 dest (scast (ucast (load_le m p 2) :: u16)) w = put_bytes dest (load_bytes m p 2) w"
  "put_le 4 dest (scast (ucast (load_le m p 4) :: u32)) w = put_bytes dest (load_bytes m p 4) w"
  by (rule put_le_load; simp add: bit_simps min_top del: load_le.simps)+

lemma put_le_unsigned: "n \<le> 8 \<Longrightarrow> put_le n dest (load_le m p n) w = put_bytes dest (load_bytes m p n) w"
  by (rule put_le_load) simp_all

text \<open>A number loaded from 1, 2, 4 or 8 bytes survives the conversions of the decoder and is stored in full.\<close>

lemma store_clamped_signed:
  assumes "load_signed env field src = Some v"
  shows "store_clamped (clamp_signed (data_size field) v) v stream field dest w =
      Some (True, stream, put_bytes dest (load_bytes (mem env) src (unat (data_size field))) w)"
    "(if data_size field = 8 then v else scast (ucast v :: u32)) = v"
  using assms
  by (auto simp: load_signed_def store_clamped_def clamp_signed_def Let_def scast_32 ucast_scast_64 put_le_signed put_le_unsigned
      simp del: load_le.simps One_nat_def split: if_splits)

lemma varint_field:
  assumes "load_signed env field src = Some v"
  shows "field_codec pb_dec_varint field (varint (unat v)) (load_bytes (mem env) src (unat (data_size field)))"
  by (rule field_codecI [OF rd_varint.istream_reader_axioms varint_spec_u64])
    (simp add: pb_dec_varint_def Let_def store_clamped_signed [OF assms])

lemma unzigzag_spec:
  "(\<lambda>bs. map_option (\<lambda>(v, rest). (unzigzag v, rest)) (map_option (\<lambda>(v, rest). (word_of_nat v, rest)) (varint_spec 10 bs)))
     (varint (zigzag (sint v)) @ rest) = Some (v :: u64, rest)"
  by (rule codec_svarint.decodes)

lemma svarint_field:
  assumes "load_signed env field src = Some v"
  shows "field_codec pb_dec_svarint field (varint (zigzag (sint v))) (load_bytes (mem env) src (unat (data_size field)))"
  by (rule field_codecI [OF rd_svarint.istream_reader_axioms unzigzag_spec])
    (simp add: pb_dec_svarint_def store_clamped_signed [OF assms])

lemma clamp_unsigned_load:
  assumes "data_size field \<in> {1, 2, 4, 8}"
  shows "clamp_unsigned (data_size field) (load_le m p (unat (data_size field))) = Some (load_le m p (unat (data_size field)))"
proof -
  have n: "unat (data_size field) \<le> 8" using assms by auto
  have "ucast (ucast (load_le m p 1) :: u8) = load_le m p 1" "ucast (ucast (load_le m p 2) :: u16) = load_le m p 2"
    "ucast (ucast (load_le m p 4) :: u32) = load_le m p 4"
    by (rule bit_word_eqI; auto simp: bit_simps bit_load_le simp del: load_le.simps)+
  then show ?thesis using assms by (auto simp: clamp_unsigned_def simp del: load_le.simps)
qed

lemma uvarint_field:
  assumes "data_size field \<in> {1, 2, 4, 8}"
  shows "field_codec pb_dec_uvarint field (varint (unat (load_le m src (unat (data_size field)))))
    (load_bytes m src (unat (data_size field)))"
proof -
  have "unat (data_size field) \<le> 8" using assms by auto
  then show ?thesis
    by (intro field_codecI [OF rd_varint.istream_reader_axioms varint_spec_u64])
      (simp add: pb_dec_uvarint_def store_clamped_def clamp_unsigned_load [OF assms] put_le_unsigned)
qed

section \<open>Scalar fields\<close>

text \<open>A field with a value of one of the types that are not delimited, of the size of its type.\<close>

definition scalar_field :: "pb_field_t \<Rightarrow> bool" where
  "scalar_field field \<longleftrightarrow>
     (let ltype = PB_LTYPE (type field); n = data_size field in
      ltype = PB_LTYPE_BOOL \<and> n = 1 \<or>
      (ltype = PB_LTYPE_VARINT \<or> ltype = PB_LTYPE_UVARINT \<or> ltype = PB_LTYPE_SVARINT) \<and> (n = 1 \<or> n = 2 \<or> n = 4 \<or> n = 8) \<or>
      ltype = PB_LTYPE_FIXED32 \<and> n = 4 \<or> ltype = PB_LTYPE_FIXED64 \<and> n = 8)"

text \<open>What is in memory after decoding: the bytes of the value, where a boolean is 0 or 1.\<close>

definition scalar_image :: "memory \<Rightarrow> pb_field_t \<Rightarrow> addr \<Rightarrow> u8 list" where
  "scalar_image m field p =
     (if PB_LTYPE (type field) = PB_LTYPE_BOOL then [if m p \<noteq> 0 then 1 else 0]
      else load_bytes m p (unat (data_size field)))"

lemma scalar_size: "scalar_field field \<Longrightarrow> 0 < unat (data_size field) \<and> unat (data_size field) \<le> 8"
  by (auto simp: scalar_field_def Let_def)

lemma scalar_image_length: "scalar_field field \<Longrightarrow> length (scalar_image m field p) = unat (data_size field)"
  by (auto simp: scalar_image_def scalar_field_def Let_def PB_TYPE_defs)

lemma load_signed_sizes: "n = 1 \<or> n = 2 \<or> n = 4 \<or> n = 8 \<Longrightarrow> n = data_size field \<Longrightarrow> \<exists>v. load_signed env field src = Some v"
  by (auto simp: load_signed_def)

lemma scalar_codec:
  assumes "scalar_field field"
  shows "\<exists>bs. wire_value env sub field src = Some (Some bs) \<and>
    field_codec (PB_DECODERS denv decode decode_noinit (PB_LTYPE (type field))) field bs (scalar_image (mem env) field src)"
proof -
  let ?t = "PB_LTYPE (type field)" and ?n = "data_size field"
  note table = wire_value_def PB_DECODERS_def scalar_image_def Let_def
  consider (bool) "?t = PB_LTYPE_BOOL" "?n = 1"
    | (varint) v where "?t = PB_LTYPE_VARINT" "load_signed env field src = Some v"
    | (uvarint) "?t = PB_LTYPE_UVARINT" "?n \<in> {1, 2, 4, 8}"
    | (svarint) v where "?t = PB_LTYPE_SVARINT" "load_signed env field src = Some v"
    | (fixed32) "?t = PB_LTYPE_FIXED32" "?n = 4" | (fixed64) "?t = PB_LTYPE_FIXED64" "?n = 8"
    using assms load_signed_sizes [of ?n field env src] unfolding scalar_field_def Let_def by blast
  then show ?thesis
  proof cases
    case bool
    then show ?thesis
      using bool_field.field_codec_axioms [of field "mem env src \<noteq> 0"] by (simp add: table PB_TYPE_defs)
  next
    case varint
    then show ?thesis using varint_field [of env field src v] by (simp add: table wire_signed_def PB_TYPE_defs)
  next
    case uvarint
    then show ?thesis using uvarint_field [of field "mem env" src] by (simp add: table PB_TYPE_defs)
  next
    case svarint
    then show ?thesis using svarint_field [of env field src v] by (simp add: table wire_signed_def PB_TYPE_defs)
  next
    case fixed32
    then show ?thesis
      using fixed32_field.field_codec_axioms [of field "mem env" src] by (simp add: table PB_TYPE_defs del: load_le.simps)
  next
    case fixed64
    then show ?thesis
      using fixed64_field.field_codec_axioms [of field "mem env" src] by (simp add: table PB_TYPE_defs del: load_le.simps)
  qed
qed

end
