(* ===== verification/Pb_Flat.thy ===== *)
theory Pb_Flat
  imports Pb_Field_Codec
begin

text \<open>
  Messages whose fields are scalars without presence flags, as proto3 has them: where the fields lie,
  what is encoded, and what decoding stores.
\<close>

section \<open>Layout\<close>

definition flat_field :: "pb_field_t \<Rightarrow> bool" where
  "flat_field f \<longleftrightarrow> PB_ATYPE (type f) = PB_ATYPE_STATIC \<and> PB_HTYPE (type f) = PB_HTYPE_OPTIONAL \<and>
     size_offset f = 0 \<and> ptr f = 0 \<and> tag f \<noteq> 0 \<and> tag f < 536870912 \<and> scalar_field f"

definition flat_message :: "pb_fields \<Rightarrow> bool" where
  "flat_message fs \<longleftrightarrow> list_all flat_field fs \<and> distinct (map tag fs)"

primrec field_offset :: "pb_fields \<Rightarrow> nat \<Rightarrow> nat" where
  "field_offset fs 0 = unat (data_offset (fs ! 0))"
| "field_offset fs (Suc i) = field_offset fs i + unat (data_size (fs ! i)) + unat (data_offset (fs ! Suc i))"

lemma flat_fieldD:
  assumes "flat_message fs" "i < length fs"
  shows "flat_field (fs ! i)"
  using assms by (simp add: flat_message_def list_all_length)

lemma flat_fields_ok: "flat_message fs \<Longrightarrow> pb_fields_ok fs"
  by (auto simp: flat_message_def flat_field_def pb_fields_ok_def list_all_iff)

lemma flat_length:
  assumes "flat_message fs"
  shows "length fs \<le> 536870912"
proof -
  have "inj_on unat (set (map tag fs))" by (simp add: inj_on_def word_unat_eq_iff)
  then have "length fs = card (unat ` set (map tag fs))"
    using assms distinct_card [of "map tag fs"] by (simp add: flat_message_def card_image del: set_map)
  also have "\<dots> \<le> card {..< 536870912 :: nat}"
    by (rule card_mono) (use assms in \<open>auto simp: flat_message_def flat_field_def list_all_iff word_less_nat_alt\<close>)
  finally show ?thesis by simp
qed

text \<open>The address of a field; a field without a flag has its own address as that of its size.\<close>

lemma flat_iter:
  assumes "flat_message fs" "dest \<noteq> 0"
  shows "i < length fs \<Longrightarrow> pData (iter_at fs dest i) = dest + word_of_nat (field_offset fs i) \<and>
    pSize (iter_at fs dest i) = pData (iter_at fs dest i) \<and> required_field_index (iter_at fs dest i) = 0"
proof (induction i)
  case 0
  then have "flat_field (fs ! 0)" "field_at fs 0 = fs ! 0" using flat_fieldD [OF assms(1)] by (simp_all add: field_at_def)
  with assms(2) show ?case
    by (simp add: pb_field_iter_begin_def Let_def flat_field_def offset_ptr_def)
next
  case (Suc i)
  have ok: "pb_fields_ok fs" by (rule flat_fields_ok [OF assms(1)])
  have f: "flat_field (fs ! i)" "flat_field (fs ! Suc i)" using Suc.prems flat_fieldD [OF assms(1)] by simp_all
  have cur: "cur_field (iter_at fs dest i) = fs ! i" using cur_field_at [OF ok] Suc.prems by simp
  have pos: "pos (iter_at fs dest i) = i" "start (iter_at fs dest i) = fs" using iter_at_facts [OF ok] Suc.prems by simp_all
  have nxt: "cur_field (iter_at fs dest i\<lparr>pos := Suc i\<rparr>) = fs ! Suc i"
    using pos Suc.prems by (simp add: cur_field_def field_at_def)
  have "tag (fs ! i) \<noteq> 0" "tag (fs ! Suc i) \<noteq> 0" using f by (auto simp: flat_field_def)
  then show ?case
    using f Suc by (simp add: pb_field_iter_next_def cur nxt pos Let_def flat_field_def PB_TYPE_defs offset_ptr_def)
qed

lemma flat_sizes:
  assumes "flat_message fs" "i < length fs"
  shows "unat (data_size (fs ! i)) \<le> 8" "field_offset fs i + 8 \<le> Suc i * 4294967312"
proof -
  have s: "unat (data_size (fs ! k)) \<le> 8" if "k < length fs" for k
    using flat_fieldD [OF assms(1) that] scalar_size [of "fs ! k"] by (simp add: flat_field_def)
  from assms(2) show "unat (data_size (fs ! i)) \<le> 8" by (rule s)
  have u: "unat (data_offset f) < 4294967296" for f using unat_lt2p [of "data_offset f"] by simp
  show "field_offset fs i + 8 \<le> Suc i * 4294967312"
    using assms(2)
  proof (induction i)
    case 0
    from u [of "fs ! 0"] show ?case unfolding field_offset.simps by linarith
  next
    case (Suc i)
    then have "field_offset fs i + 8 \<le> Suc i * 4294967312" "unat (data_size (fs ! i)) \<le> 8" using s by simp_all
    with u [of "fs ! Suc i"] show ?case unfolding field_offset.simps mult_Suc by linarith
  qed
qed

lemma field_offset_mono:
  assumes "i < j"
  shows "field_offset fs i + unat (data_size (fs ! i)) \<le> field_offset fs j"
  using assms by (induction j) (auto simp: less_Suc_eq)

lemma unat_of_nat_diff:
  assumes "a < b" "b < 18446744073709551616"
  shows "unat (word_of_nat b - word_of_nat a :: addr) = b - a" "unat (word_of_nat a - word_of_nat b :: addr) = 18446744073709551616 - (b - a)"
proof -
  have u: "unat (word_of_nat a :: addr) = a" "unat (word_of_nat b :: addr) = b" using assms by (simp_all add: unat_of_nat_u64)
  show "unat (word_of_nat b - word_of_nat a :: addr) = b - a" "unat (word_of_nat a - word_of_nat b :: addr) = 18446744073709551616 - (b - a)"
    using assms by (simp_all only: unat_sub_if' u) simp_all
qed

lemma flat_apart:
  assumes "flat_message fs" "dest \<noteq> 0" "i < length fs" "j < length fs" "i \<noteq> j"
  shows "apart (pData (iter_at fs dest i)) (unat (data_size (fs ! i))) (pData (iter_at fs dest j)) (unat (data_size (fs ! j)))"
proof -
  have *: "apart (pData (iter_at fs dest i)) (unat (data_size (fs ! i))) (pData (iter_at fs dest j)) (unat (data_size (fs ! j)))"
    if i: "i < j" and j: "j < length fs" for i j
  proof -
    have "i < length fs" using i j by simp
    note facts = flat_iter [OF assms(1,2) this] flat_iter [OF assms(1,2) j]
    have "Suc j * 4294967312 \<le> 536870912 * 4294967312" using flat_length [OF assms(1)] j by (intro mult_right_mono) simp_all
    then have b: "field_offset fs j + 8 \<le> 2305843017803628544" using flat_sizes(2) [OF assms(1) j] by simp
    have m: "field_offset fs i + unat (data_size (fs ! i)) \<le> field_offset fs j" by (rule field_offset_mono [OF i])
    have s: "0 < unat (data_size (fs ! i))" "unat (data_size (fs ! j)) \<le> 8"
      using scalar_size [of "fs ! i"] flat_fieldD [OF assms(1) \<open>i < length fs\<close>] flat_sizes(1) [OF assms(1) j]
      by (simp_all add: flat_field_def)
    have "field_offset fs i < field_offset fs j" "field_offset fs j < 18446744073709551616" using m s b by linarith+
    then have "unat (pData (iter_at fs dest j) - pData (iter_at fs dest i)) = field_offset fs j - field_offset fs i"
      "unat (pData (iter_at fs dest i) - pData (iter_at fs dest j)) = 18446744073709551616 - (field_offset fs j - field_offset fs i)"
      using facts unat_of_nat_diff by simp_all
    then show ?thesis unfolding apart_def using m s b by linarith
  qed
  show ?thesis
  proof (cases "i < j")
    case True
    then show ?thesis using * assms(4) by blast
  next
    case False
    then have "j < i" using assms(5) by simp
    then show ?thesis using * [of j i] assms(3) by (simp add: apart_sym)
  qed
qed

section \<open>The wire format\<close>

definition all_zero :: "memory \<Rightarrow> pb_field_t \<Rightarrow> addr \<Rightarrow> bool" where
  "all_zero m field p \<longleftrightarrow> list_all (\<lambda>b. b = 0) (load_bytes m p (unat (data_size field)))"

definition scalar_bytes :: "'s pb_env \<Rightarrow> pb_field_t \<Rightarrow> addr \<Rightarrow> u8 list" where
  "scalar_bytes env field p = (case wire_value env (\<lambda>_ _. None) field p of Some (Some bs) \<Rightarrow> bs | _ \<Rightarrow> [])"

definition flat_chunk :: "'s pb_env \<Rightarrow> pb_field_t \<Rightarrow> addr \<Rightarrow> u8 list" where
  "flat_chunk env field p =
     (if all_zero (mem env) field p then [] else field_key (tag field) (field_wire_type field) @ scalar_bytes env field p)"

lemma scalar_codec_bytes:
  assumes "scalar_field field"
  shows "wire_value env sub field p = Some (Some (scalar_bytes env field p))"
    "field_codec (PB_DECODERS denv decode decode_noinit (PB_LTYPE (type field))) field (scalar_bytes env field p) (scalar_image (mem env) field p)"
proof -
  have sub: "wire_value env sub field p = wire_value env (\<lambda>_ _. None) field p"
    using assms by (auto simp: wire_value_def scalar_field_def Let_def PB_TYPE_defs)
  obtain bs where "wire_value env (\<lambda>_ _. None) field p = Some (Some bs)"
    "field_codec (PB_DECODERS denv decode decode_noinit (PB_LTYPE (type field))) field bs (scalar_image (mem env) field p)"
    using scalar_codec [OF assms] by blast
  then show "wire_value env sub field p = Some (Some (scalar_bytes env field p))"
    "field_codec (PB_DECODERS denv decode decode_noinit (PB_LTYPE (type field))) field (scalar_bytes env field p) (scalar_image (mem env) field p)"
    by (simp_all add: sub scalar_bytes_def)
qed

lemma scalar_wire_tag: "scalar_field field \<Longrightarrow> wire_tag field = Some (Some (field_key (tag field) (field_wire_type field)))"
  by (auto simp: wire_tag_def field_wire_type_def scalar_field_def Let_def PB_TYPE_defs)

lemma flat_field_wire:
  assumes "flat_field field"
  shows "wire_field (Suc depth) env sub field p = Some (Some (flat_chunk env field p))"
proof -
  have s: "scalar_field field" using assms by (simp add: flat_field_def)
  have l: "PB_LTYPE (type field) \<notin> {PB_LTYPE_BYTES, PB_LTYPE_STRING, PB_LTYPE_SUBMESSAGE, PB_LTYPE_EXTENSION, PB_LTYPE_FIXED_LENGTH_BYTES}"
    using s by (auto simp: scalar_field_def Let_def PB_TYPE_defs)
  then have d: "pb_check_proto3_default_value (Suc depth) env field p = Some (all_zero (mem env) field p)"
    using assms by (simp add: check_default_body_def flat_field_def all_zero_def Let_def PB_TYPE_defs)
  show ?thesis
    using assms l
    by (simp add: wire_field_def wire_basic_field_def flat_field_def PB_TYPE_defs scalar_wire_tag [OF s] scalar_codec_bytes [OF s]
        flat_chunk_def d Let_def del: pb_check_proto3_default_value.simps)
qed

lemma wire_concat_Some: "wire_concat (map (\<lambda>i. Some (Some (c i))) is) = Some (Some (concat (map c is)))"
  by (induction "is") simp_all

lemma flat_message_wire:
  assumes "flat_message fs"
  shows "wire_message (Suc (Suc depth)) env fs src =
    Some (Some (concat (map (\<lambda>i. flat_chunk env (fs ! i) (pData (iter_at fs src i))) [0 ..< length fs])))"
proof -
  have "map (\<lambda>i. wire_field (Suc depth) env sub (fs ! i) (pData (iter_at fs src i))) [0 ..< length fs] =
      map (\<lambda>i. Some (Some (flat_chunk env (fs ! i) (pData (iter_at fs src i))))) [0 ..< length fs]" for sub
    using flat_fieldD [OF assms] by (simp add: flat_field_wire)
  then show ?thesis
    using flat_fields_ok [OF assms] by (simp only: wire_message.simps if_True wire_concat_Some)
qed

text \<open>Only a value that is not zero is sent, and what is not sent is zero.\<close>

lemma all_zero_image:
  assumes "scalar_field field" "all_zero m field p"
  shows "scalar_image m field p = replicate (unat (data_size field)) 0"
proof (rule nth_equalityI)
  show "length (scalar_image m field p) = length (replicate (unat (data_size field)) 0)"
    by (simp add: scalar_image_length [OF assms(1)])
  fix i
  assume "i < length (scalar_image m field p)"
  then have i: "i < unat (data_size field)" by (simp add: scalar_image_length [OF assms(1)])
  then have "m (p + word_of_nat i) = 0" using assms(2) by (simp add: all_zero_def list_all_length load_bytes_def)
  moreover have "PB_LTYPE (type field) = PB_LTYPE_BOOL \<Longrightarrow> i = 0" using assms(1) i by (auto simp: scalar_field_def Let_def PB_TYPE_defs)
  ultimately show "scalar_image m field p ! i = replicate (unat (data_size field)) 0 ! i"
    using i by (auto simp: scalar_image_def load_bytes_def)
qed

section \<open>Writes\<close>

text \<open>The write of \<open>B i\<close> at \<open>A i\<close> for those \<open>i\<close> of a list with \<open>D i\<close>.\<close>

primrec put_fields :: "(nat \<Rightarrow> bool) \<Rightarrow> (nat \<Rightarrow> addr) \<Rightarrow> (nat \<Rightarrow> u8 list) \<Rightarrow> nat list \<Rightarrow> 'h pb_world \<Rightarrow> 'h pb_world" where
  "put_fields D A B [] w = w"
| "put_fields D A B (i # is) w = put_fields D A B is (if D i then put_bytes (A i) (B i) w else w)"

lemma put_fields_heap: "wheap (put_fields D A B is w) = wheap w"
  by (induction "is" arbitrary: w) (simp_all add: put_bytes_def)

lemma put_fields_apart:
  assumes "\<And>i. i \<in> set is \<Longrightarrow> D i \<Longrightarrow> apart p n (A i) (length (B i)) \<and> length (B i) < 18446744073709551616" "n < 18446744073709551616"
  shows "load_bytes (wmem (put_fields D A B is w)) p n = load_bytes (wmem w) p n"
  using assms(1)
proof (induction "is" arbitrary: w)
  case (Cons i "is")
  then show ?case using load_bytes_put_apart [OF _ refl assms(2), of p "A i" "B i" w] by simp
qed simp

lemma put_fields_at:
  assumes "k \<in> set is" "distinct is" "D k"
    and "\<And>i. i \<in> set is \<Longrightarrow> length (B i) < 18446744073709551616"
    and "\<And>i. i \<in> set is \<Longrightarrow> i \<noteq> k \<Longrightarrow> apart (A k) (length (B k)) (A i) (length (B i))"
  shows "load_bytes (wmem (put_fields D A B is w)) (A k) (length (B k)) = B k"
  using assms
proof (induction "is" arbitrary: w)
  case (Cons i "is")
  show ?case
  proof (cases "i = k")
    case True
    then have "k \<notin> set is" using Cons.prems by simp
    then have "load_bytes (wmem (put_fields D A B is w')) (A k) (length (B k)) = load_bytes (wmem w') (A k) (length (B k))" for w' :: "'a pb_world"
      using Cons.prems by (intro put_fields_apart) auto
    then show ?thesis using True Cons.prems load_bytes_put [of "B k" "A k" w] by simp
  next
    case False
    then show ?thesis using Cons by simp
  qed
qed simp

end
