(* ===== verification/Pb_Flat_Decode.thy ===== *)
theory Pb_Flat_Decode
  imports Pb_Flat
begin

text \<open>
  Decoding a message of scalars without presence flags: every field of the input is stored at its
  place, in whatever order, and the fields that do not occur keep their default.
\<close>

section \<open>One field\<close>

lemma find_unique:
  assumes "i \<in> set xs" "P i" "\<And>j. j \<in> set xs \<Longrightarrow> P j \<Longrightarrow> j = i"
  shows "find P xs = Some i"
proof (cases "find P xs")
  case None
  then show ?thesis using assms(1,2) unfolding find_None_iff by blast
next
  case (Some j)
  then have "j \<in> set xs" "P j" unfolding find_Some_iff by (auto intro: nth_mem)
  with assms(3) Some show ?thesis by blast
qed

lemma flat_find:
  assumes "flat_message fs" "i < length fs" "j < length fs"
  shows "pb_field_iter_find (iter_at fs dest j) (tag (fs ! i)) = Some (True, iter_at fs dest i)"
proof -
  have "PB_LTYPE (type (fs ! i)) \<noteq> PB_LTYPE_EXTENSION"
    using flat_fieldD [OF assms(1,2)] by (auto simp: flat_field_def scalar_field_def Let_def PB_TYPE_defs)
  moreover have "k = i" if "k < length fs" "tag (fs ! k) = tag (fs ! i)" for k
    using that assms(1,2) by (auto simp: flat_message_def distinct_conv_nth)
  ultimately have "find (field_matches fs (tag (fs ! i))) ([j ..< length fs] @ [0 ..< j]) = Some i"
    using assms(2,3) by (intro find_unique) (auto simp: field_matches_def)
  then show ?thesis using pb_field_iter_find_at [OF flat_fields_ok [OF assms(1)] assms(3)] by simp
qed

text \<open>A field of the message is given to its decoder; the iterator is left on it.\<close>

lemma flat_known_field:
  assumes "flat_message fs" "dest \<noteq> 0" "i < length fs" "niter st = iter_at fs dest i"
  shows "known_field depth denv decode decode_noinit wt st =
    (case PB_DECODERS denv decode decode_noinit (PB_LTYPE (type (fs ! i))) (nstream st) (fs ! i) (pData (iter_at fs dest i)) (nworld st) of
       None \<Rightarrow> None
     | Some (ok, s, w) \<Rightarrow> Some (if ok then Again else Return False, st\<lparr>nstream := s, niter := iter_at fs dest i, nworld := w\<rparr>))"
proof -
  have h: "PB_HTYPE (type (fs ! i)) = PB_HTYPE_OPTIONAL" "PB_ATYPE (type (fs ! i)) = PB_ATYPE_STATIC"
    using flat_fieldD [OF assms(1,3)] by (simp_all add: flat_field_def)
  have cur: "cur_field (iter_at fs dest i) = fs ! i" by (rule cur_field_at [OF flat_fields_ok [OF assms(1)] assms(3)])
  have ps: "pSize (iter_at fs dest i) = pData (iter_at fs dest i)" using flat_iter [OF assms(1,2,3)] by blast
  have "begin_fixed_count denv depth st = Some st" "mark_required st = st"
    using h cur assms(4) by (simp_all add: begin_fixed_count_def mark_required_def PB_TYPE_defs Let_def)
  note defs = this h cur ps assms(4) known_field_def decode_field_def decode_static_field_def Let_def PB_TYPE_defs
  show ?thesis
  proof (cases "PB_DECODERS denv decode decode_noinit (PB_LTYPE (type (fs ! i))) (nstream st) (fs ! i) (pData (iter_at fs dest i)) (nworld st)")
    case None
    then show ?thesis by (simp add: defs)
  next
    case (Some r)
    then show ?thesis by (cases r) (simp add: defs)
  qed
qed

text \<open>The loop of the decoder does one step for the chunk of a field.\<close>

lemma flat_step:
  assumes "flat_message fs" "dest \<noteq> 0" "i < length fs" "j < length fs" "niter st = iter_at fs dest j"
    and "istream_ok (nstream st)" "input (nstream st) = field_key (tag (fs ! i)) (field_wire_type (fs ! i)) @ scalar_bytes env (fs ! i) p @ rest"
  shows "\<exists>s'. noinit_step depth denv decode decode_noinit st =
      Some (Again, st\<lparr>nstream := s', niter := iter_at fs dest i,
        nworld := put_bytes (pData (iter_at fs dest i)) (scalar_image (mem env) (fs ! i) p) (nworld st)\<rparr>) \<and>
    istream_ok s' \<and> input s' = rest"
proof -
  let ?f = "fs ! i" and ?it = "iter_at fs dest i"
  have f: "flat_field ?f" "scalar_field ?f" using flat_fieldD [OF assms(1,3)] by (simp_all add: flat_field_def)
  have wt: "unat (field_wire_type ?f) < 8" by (auto simp: field_wire_type_def Let_def PB_WT_defs)
  have tag: "0 < unat (tag ?f)" "unat (tag ?f) < 536870912" using f(1) by (simp_all add: flat_field_def unat_gt_0 word_less_nat_alt)
  with wt have k: "8 * unat (tag ?f) + unat (field_wire_type ?f) < 4294967296" by linarith
  have "tag_spec (input (nstream st)) = Some ((field_wire_type ?f, tag ?f), scalar_bytes env ?f p @ rest)"
    using tag_spec_field_key [OF wt tag(1) k] assms(7) by simp
  then obtain s1 where s1: "tag_reader (nstream st) = (Some (field_wire_type ?f, tag ?f), s1)" "istream_ok s1"
    "input s1 = scalar_bytes env ?f p @ rest"
    by (rule rd_pb_tag.consumed [OF assms(6)])
  then obtain eof where t: "pb_decode_tag (nstream st) = (Some (field_wire_type ?f, tag ?f), eof, s1)"
    by (auto simp: tag_reader_def split: prod.splits)
  let ?func = "PB_DECODERS denv decode decode_noinit (PB_LTYPE (type ?f))"
  obtain s2 where s2: "?func s1 ?f (pData ?it) (nworld st) =
      Some (True, s2, put_bytes (pData ?it) (scalar_image (mem env) ?f p) (nworld st))" "istream_ok s2" "input s2 = rest"
    using field_codec.stores [OF scalar_codec_bytes(2) [OF f(2)] s1(2,3)] by blast
  show ?thesis
    using t flat_find [OF assms(1,3,4)] assms(5) s2
    by (intro exI [of _ s2]) (simp add: noinit_step_def flat_known_field [OF assms(1,2,3)] Let_def)
qed

section \<open>Unknown fields\<close>

text \<open>What the input consists of: fields of the message, and others with a tag, a wire type and a value.\<close>

datatype item = Known nat addr | Unknown u32 pb_wire_type_t "u8 list"

primrec item_bytes :: "'e pb_env \<Rightarrow> pb_fields \<Rightarrow> item \<Rightarrow> u8 list" where
  "item_bytes env fs (Known i p) = field_key (tag (fs ! i)) (field_wire_type (fs ! i)) @ scalar_bytes env (fs ! i) p"
| "item_bytes env fs (Unknown t wt body) = field_key t wt @ body"

definition skippable :: "pb_wire_type_t \<Rightarrow> u8 list \<Rightarrow> bool" where
  "skippable wt body \<longleftrightarrow> (\<forall>rest. skip_field_spec wt (body @ rest) = Some ((), rest))"

primrec item_ok :: "pb_fields \<Rightarrow> item \<Rightarrow> bool" where
  "item_ok fs (Known i p) \<longleftrightarrow> i < length fs"
| "item_ok fs (Unknown t wt body) \<longleftrightarrow> t \<noteq> 0 \<and> t < 536870912 \<and> t \<notin> set (map tag fs) \<and> wt < 8 \<and> skippable wt body"

fun is_known :: "item \<Rightarrow> bool" where
  "is_known (Known i p) = True"
| "is_known (Unknown t wt body) = False"

lemma find_extension_at:
  assumes "flat_message fs" "i < length fs" "k < length fs"
  shows "find_extension_loop i (iter_at fs dest k) = Some (False, iter_at fs dest i)"
  using assms(3)
proof (induction "length (visit_order (length fs) i k)" arbitrary: k rule: less_induct)
  case less
  let ?k = "Suc k mod length fs"
  have ok: "pb_fields_ok fs" by (rule flat_fields_ok [OF assms(1)])
  have k: "?k < length fs" using less.prems by (intro mod_less_divisor) auto
  have "PB_LTYPE (type (fs ! k)) \<noteq> PB_LTYPE_EXTENSION"
    using flat_fieldD [OF assms(1) less.prems] by (auto simp: flat_field_def scalar_field_def Let_def PB_TYPE_defs)
  then have step: "find_extension_loop i (iter_at fs dest k) =
      (if ?k \<noteq> i then find_extension_loop i (iter_at fs dest ?k) else Some (False, iter_at fs dest ?k))"
    using less.prems k
    by (subst find_extension_loop.simps) (simp add: cur_field_at [OF ok] iter_next_at [OF ok] iter_at_facts [OF ok])
  show ?case
  proof (cases "?k = i")
    case False
    then have "length (visit_order (length fs) i ?k) < length (visit_order (length fs) i k)"
      using visit_order_step [OF less.prems assms(2)] by simp
    from less.hyps [OF this k] False step show ?thesis by simp
  qed (use step in simp)
qed

lemma flat_unknown_field:
  assumes "flat_message fs" "j < length fs" "niter st = iter_at fs dest j" "extension_range_start st \<in> {0, - 1}" "unat t < 536870912"
  shows "unknown_field depth denv decode decode_noinit t wt st =
    (case pb_skip_field (nstream st) wt of
       (ok, s) \<Rightarrow> Some (if ok then Again else Return False, st\<lparr>nstream := s, niter := iter_at fs dest j, extension_range_start := - 1\<rparr>))"
proof -
  have e: "find_extension_field (iter_at fs dest j) = Some (False, iter_at fs dest j)"
    using find_extension_at [OF assms(1,2,2)] iter_at_facts [OF flat_fields_ok [OF assms(1)]] assms(2)
    by (simp add: find_extension_field_def)
  have "unat (- 1 :: u32) = 4294967295" by (simp add: unsigned_minus_1_eq_mask mask_eq_exp_minus_1)
  then have "\<not> - 1 \<le> t" using assms(5) unfolding word_le_nat_alt by linarith
  then show ?thesis
    using assms(3,4) e by (auto simp: unknown_field_def Let_def split: prod.split)
qed

text \<open>A field that is not in the message is skipped; nothing but the stream and the search for extensions goes on.\<close>

lemma unknown_step:
  assumes "flat_message fs" "j < length fs" "niter st = iter_at fs dest j" "extension_range_start st \<in> {0, - 1}"
    and "item_ok fs (Unknown t wt body)" "istream_ok (nstream st)" "input (nstream st) = item_bytes env fs (Unknown t wt body) @ rest"
  shows "\<exists>s'. noinit_step depth denv decode decode_noinit st =
      Some (Again, st\<lparr>nstream := s', extension_range_start := - 1\<rparr>) \<and> istream_ok s' \<and> input s' = rest"
proof -
  have t: "0 < unat t" "unat t < 536870912" "unat wt < 8" using assms(5) by (simp_all add: unat_gt_0 word_less_nat_alt)
  then have "8 * unat t + unat wt < 4294967296" by linarith
  then have "tag_spec (input (nstream st)) = Some ((wt, t), body @ rest)"
    using tag_spec_field_key [OF t(3,1)] assms(7) by simp
  then obtain s1 where s1: "tag_reader (nstream st) = (Some (wt, t), s1)" "istream_ok s1" "input s1 = body @ rest"
    by (rule rd_pb_tag.consumed [OF assms(6)])
  then obtain eof where d: "pb_decode_tag (nstream st) = (Some (wt, t), eof, s1)"
    by (auto simp: tag_reader_def split: prod.splits)
  have "skip_field_spec wt (input s1) = Some ((), rest)" using assms(5) s1(3) by (simp add: skippable_def)
  then obtain s2 where s2: "unit_reader (\<lambda>s. pb_skip_field s wt) s1 = (Some (), s2)" "istream_ok s2" "input s2 = rest"
    by (rule rd_skip.consumed [OF s1(2)])
  then have skip: "pb_skip_field s1 wt = (True, s2)"
    by (cases "pb_skip_field s1 wt") (auto simp: unit_reader_def split: if_splits)
  have "tag (fs ! k) \<noteq> t" if "k < length fs" for k
    using assms(5) nth_mem [OF that] by auto
  then have "find (field_matches fs t) ([j ..< length fs] @ [0 ..< j]) = None"
    using assms(2) by (auto simp: find_None_iff field_matches_def dest: less_trans [OF _ assms(2)])
  then have f: "pb_field_iter_find (iter_at fs dest j) t = Some (False, iter_at fs dest j)"
    using pb_field_iter_find_at [OF flat_fields_ok [OF assms(1)] assms(2)] by simp
  have "st\<lparr>nstream := s2, niter := iter_at fs dest j, extension_range_start := - 1\<rparr> = st\<lparr>nstream := s2, extension_range_start := - 1\<rparr>"
    using assms(3) by simp
  then show ?thesis
    using d f assms(3,4) t(2) skip s2(2,3)
    by (intro exI [of _ s2]) (simp add: noinit_step_def flat_unknown_field [OF assms(1,2)] Let_def)
qed

section \<open>The loop\<close>

primrec item_world :: "'e pb_env \<Rightarrow> pb_fields \<Rightarrow> addr \<Rightarrow> item list \<Rightarrow> 'h pb_world \<Rightarrow> 'h pb_world" where
  "item_world env fs dest [] w = w"
| "item_world env fs dest (it # its) w = item_world env fs dest its
     (case it of
        Known i p \<Rightarrow> put_bytes (pData (iter_at fs dest i)) (scalar_image (mem env) (fs ! i) p) w
      | Unknown t wt body \<Rightarrow> w)"

lemma item_world_known: "item_world env fs dest (filter is_known its) w = item_world env fs dest its w"
  by (induction its arbitrary: w) (auto split: item.split)

text \<open>
  The value of field \<open>i\<close> after the items: that of its last occurrence, or \<open>v\<close> when there is none.
\<close>

primrec last_value :: "'e pb_env \<Rightarrow> pb_fields \<Rightarrow> nat \<Rightarrow> u8 list \<Rightarrow> item list \<Rightarrow> u8 list" where
  "last_value env fs i v [] = v"
| "last_value env fs i v (it # its) = last_value env fs i
     (case it of
        Known j p \<Rightarrow> if j = i then scalar_image (mem env) (fs ! i) p else v
      | Unknown t wt body \<Rightarrow> v) its"

lemma item_world_field:
  assumes "flat_message fs" "dest \<noteq> 0" "list_all (item_ok fs) its" "k < length fs"
    and "load_bytes (wmem w) (pData (iter_at fs dest k)) (unat (data_size (fs ! k))) = v"
  shows "load_bytes (wmem (item_world env fs dest its w)) (pData (iter_at fs dest k)) (unat (data_size (fs ! k))) =
    last_value env fs k v its"
  using assms(3,5)
proof (induction its arbitrary: w v)
  case (Cons it its)
  have len: "length (scalar_image (mem env) (fs ! i) p) = unat (data_size (fs ! i))" "unat (data_size (fs ! i)) < 18446744073709551616"
    if "i < length fs" for i p
    using flat_fieldD [OF assms(1) that] scalar_image_length [of "fs ! i"] scalar_size [of "fs ! i"] by (simp_all add: flat_field_def)
  show ?case
  proof (cases it)
    case (Known i p)
    with Cons.prems(1) have i: "i < length fs" by simp
    let ?w = "put_bytes (pData (iter_at fs dest i)) (scalar_image (mem env) (fs ! i) p) w"
    have "load_bytes (wmem ?w) (pData (iter_at fs dest k)) (unat (data_size (fs ! k))) =
        (if i = k then scalar_image (mem env) (fs ! k) p else v)"
    proof (cases "i = k")
      case True
      then show ?thesis using load_bytes_put [of "scalar_image (mem env) (fs ! k) p" "pData (iter_at fs dest k)" w] len [OF assms(4)]
        by (simp del: iter_at.simps)
    next
      case False
      then show ?thesis
        using Cons.prems(2)
        by (simp del: iter_at.simps add: load_bytes_put_apart [OF flat_apart [OF assms(1,2,4) i] len(1) [OF i] len(2) [OF assms(4)] len(2) [OF i]])
    qed
    from Cons.IH [OF _ this] Cons.prems(1) Known show ?thesis by (simp del: iter_at.simps)
  next
    case (Unknown t wt body)
    then show ?thesis using Cons.IH [OF _ Cons.prems(2)] Cons.prems(1) by (simp del: iter_at.simps)
  qed
qed simp

text \<open>The states the loop goes through; only these parts of them change.\<close>

definition flat_state :: "pb_fields \<Rightarrow> addr \<Rightarrow> ('s, 'h) noinit_state \<Rightarrow> bool" where
  "flat_state fs dest st \<longleftrightarrow> istream_ok (nstream st) \<and> (\<exists>j < length fs. niter st = iter_at fs dest j) \<and>
     extension_range_start st \<in> {0, - 1} \<and> fixed_count_field st = None"

lemma item_step:
  assumes "flat_message fs" "dest \<noteq> 0" "flat_state fs dest st" "item_ok fs it"
    and "input (nstream st) = item_bytes env fs it @ rest"
  shows "\<exists>st'. noinit_step depth denv decode decode_noinit st = Some (Again, st') \<and> flat_state fs dest st' \<and>
    input (nstream st') = rest \<and> nworld st' = item_world env fs dest [it] (nworld st)"
proof -
  from assms(3) obtain j where st: "istream_ok (nstream st)" "j < length fs" "niter st = iter_at fs dest j"
    "extension_range_start st \<in> {0, - 1}" "fixed_count_field st = None"
    by (auto simp: flat_state_def)
  show ?thesis
  proof (cases it)
    case (Known i p)
    with assms(4) have "i < length fs" by simp
    with flat_step [OF assms(1,2) _ st(2,3,1), of i env p] assms(5) Known st show ?thesis
      unfolding flat_state_def by fastforce
  next
    case (Unknown t wt body)
    with unknown_step [OF assms(1) st(2,3,4) _ st(1)] assms(4,5) st show ?thesis
      unfolding flat_state_def by fastforce
  qed
qed

lemma item_loop:
  assumes "flat_message fs" "dest \<noteq> 0" "list_all (item_ok fs) its" "flat_state fs dest st"
    and "input (nstream st) = concat (map (item_bytes env fs) its)"
  shows "\<exists>st'. noinit_loop depth denv decode decode_noinit st = Some (Leave, st') \<and> flat_state fs dest st' \<and>
    bytes_left (nstream st') = 0 \<and> nworld st' = item_world env fs dest its (nworld st)"
  using assms(3-5)
proof (induction its arbitrary: st)
  case Nil
  then have "bytes_left (nstream st) = 0" using length_input [of "nstream st"] by (simp add: flat_state_def unat_eq_zero)
  then have "noinit_loop depth denv decode decode_noinit st = Some (Leave, st)" by (subst noinit_loop.simps) simp
  with Nil \<open>bytes_left (nstream st) = 0\<close> show ?case by simp
next
  case (Cons it its)
  have ne: "item_bytes env fs it \<noteq> []" by (cases it) (simp_all add: field_key_def varint_ne)
  obtain st1 where st1: "noinit_step depth denv decode decode_noinit st = Some (Again, st1)" "flat_state fs dest st1"
    "input (nstream st1) = concat (map (item_bytes env fs) its)" "nworld st1 = item_world env fs dest [it] (nworld st)"
    using item_step [OF assms(1,2) Cons.prems(2), where env = env and it = it and rest = "concat (map (item_bytes env fs) its)"
      and depth = depth and denv = denv and decode = decode and decode_noinit = decode_noinit] Cons.prems(1,3)
    by (auto simp del: item_bytes.simps item_world.simps)
  have "bytes_left (nstream st) \<noteq> 0"
    using Cons.prems(2,3) ne length_input [of "nstream st"] by (auto simp: flat_state_def)
  then have "noinit_loop depth denv decode decode_noinit st = noinit_loop depth denv decode decode_noinit st1"
    using st1(1) by (subst noinit_loop.simps) simp
  with Cons.IH [OF _ st1(2,3)] Cons.prems(1) st1(4) show ?case by simp
qed

section \<open>The end of the message\<close>

lemma flat_required_loop:
  assumes "flat_message fs" "dest \<noteq> 0" "j < length fs"
  shows "\<exists>t it. required_loop (iter_at fs dest j) = (0, t, it) \<and> PB_HTYPE t = PB_HTYPE_OPTIONAL"
  using assms(3)
proof (induction "length fs - j" arbitrary: j rule: less_induct)
  case less
  note nxt = iter_next_at [OF flat_fields_ok [OF assms(1)] less.prems]
  have cur: "cur_field (iter_at fs dest j) = fs ! j" by (rule cur_field_at [OF flat_fields_ok [OF assms(1)] less.prems])
  show ?case
  proof (cases "Suc j < length fs")
    case True
    then have "required_loop (iter_at fs dest j) = required_loop (iter_at fs dest (Suc j))"
      by (subst required_loop.simps) (simp add: nxt del: iter_at.simps)
    then show ?thesis using less.hyps [of "Suc j"] True by simp
  next
    case False
    then have "required_loop (iter_at fs dest j) = (0, type (fs ! j), iter_at fs dest (Suc j mod length fs))"
      using flat_iter [OF assms(1,2) less.prems] by (subst required_loop.simps) (simp add: nxt cur del: iter_at.simps)
    then show ?thesis using flat_fieldD [OF assms(1) less.prems] by (simp add: flat_field_def)
  qed
qed

lemma flat_required: "flat_message fs \<Longrightarrow> dest \<noteq> 0 \<Longrightarrow> j < length fs \<Longrightarrow> required_seen (iter_at fs dest j) seen"
  using flat_required_loop [of fs dest j] by (auto simp: required_seen_def Let_def PB_TYPE_defs)

section \<open>Defaults\<close>

abbreviation flat_defaults :: "pb_fields \<Rightarrow> addr \<Rightarrow> nat list \<Rightarrow> 'h pb_world \<Rightarrow> 'h pb_world" where
  "flat_defaults fs dest \<equiv>
     put_fields (\<lambda>i. True) (\<lambda>i. pData (iter_at fs dest i)) (\<lambda>i. replicate (unat (data_size (fs ! i))) 0)"

lemma flat_default:
  assumes "flat_message fs" "dest \<noteq> 0" "i < length fs"
  shows "pb_field_set_to_default (Suc depth) denv (iter_at fs dest i) w =
    Some (put_bytes (pData (iter_at fs dest i)) (replicate (unat (data_size (fs ! i))) 0) w)"
  using flat_fieldD [OF assms(1,3)] flat_iter [OF assms] cur_field_at [OF flat_fields_ok [OF assms(1)] assms(3)]
  by (auto simp: field_default_body_def flat_field_def scalar_field_def Let_def PB_TYPE_defs)

lemma flat_default_loop:
  assumes "flat_message fs" "dest \<noteq> 0" "i < length fs"
  shows "iter_loop (pb_field_set_to_default (Suc depth) denv) (iter_at fs dest i) w = Some (flat_defaults fs dest [i ..< length fs] w)"
  using assms(3)
proof (induction "length fs - i" arbitrary: i w rule: less_induct)
  case less
  note nxt = iter_next_at [OF flat_fields_ok [OF assms(1)] less.prems]
  show ?case
    using less.hyps [of "Suc i"] less.prems
    by (subst iter_loop.simps)
      (auto simp: flat_default [OF assms(1,2) less.prems] nxt upt_conv_Cons simp del: iter_at.simps pb_field_set_to_default.simps)
qed

lemma flat_message_defaults:
  assumes "flat_message fs" "dest \<noteq> 0"
  shows "pb_message_set_to_defaults (Suc depth) denv fs dest w = Some (flat_defaults fs dest [0 ..< length fs] w)"
proof (cases "fs = []")
  case True
  then show ?thesis
    by (simp add: pb_message_set_to_defaults_def message_loop_def pb_field_iter_begin_def field_at_def PB_LAST_FIELD_def Let_def)
next
  case False
  then have "pb_field_iter_begin fs dest = (True, iter_at fs dest 0)"
    using field_at_tag [OF flat_fields_ok [OF assms(1)], of 0] by (simp add: pb_field_iter_begin_def Let_def)
  then show ?thesis
    using False flat_default_loop [OF assms, of 0 depth denv w]
    by (simp add: pb_message_set_to_defaults_def message_loop_def del: iter_at.simps)
qed

end
