(* ===== verification/Pb_Flat_Safety.thy ===== *)
theory Pb_Flat_Safety
  imports Pb_Flat_Decode
begin

text \<open>
  Decoding any bytes whatever into a message of scalars: the loop of the decoder as a step relation,
  its invariant, that it ends, and that it stays inside the message and the stream.
\<close>

section \<open>Where the decoder writes\<close>

text \<open>Memory that is neither part of a field nor of the counter the decoder has on its stack.\<close>

definition outside :: "pb_fields \<Rightarrow> addr \<Rightarrow> addr \<Rightarrow> addr \<Rightarrow> nat \<Rightarrow> bool" where
  "outside fs dest slot p n \<longleftrightarrow> n < 18446744073709551616 \<and> apart p n slot 4 \<and>
     (\<forall>i<length fs. apart p n (pData (iter_at fs dest i)) (unat (data_size (fs ! i))))"

definition writes_inside :: "pb_fields \<Rightarrow> addr \<Rightarrow> addr \<Rightarrow> 'h pb_world \<Rightarrow> 'h pb_world \<Rightarrow> bool" where
  "writes_inside fs dest slot w w' \<longleftrightarrow> wheap w' = wheap w \<and>
     (\<forall>p n. outside fs dest slot p n \<longrightarrow> load_bytes (wmem w') p n = load_bytes (wmem w) p n)"

lemma writes_inside_refl: "writes_inside fs dest slot w w"
  by (simp add: writes_inside_def)

lemma writes_inside_trans: "writes_inside fs dest slot w w' \<Longrightarrow> writes_inside fs dest slot w' w'' \<Longrightarrow> writes_inside fs dest slot w w''"
  by (simp add: writes_inside_def)

text \<open>The bytes of a field are written, or none.\<close>

definition stores_field :: "addr \<Rightarrow> nat \<Rightarrow> 'h pb_world \<Rightarrow> 'h pb_world \<Rightarrow> bool" where
  "stores_field p n w w' \<longleftrightarrow> w' = w \<or> (\<exists>bs. length bs = n \<and> w' = put_bytes p bs w)"

lemma put_bytes_heap: "wheap (put_bytes p bs w) = wheap w"
  by (simp add: put_bytes_def)

lemma stores_field_inside:
  assumes "flat_message fs" "i < length fs" "stores_field (pData (iter_at fs dest i)) (unat (data_size (fs ! i))) w w'"
  shows "writes_inside fs dest slot w w'"
proof -
  have "unat (data_size (fs ! i)) < 18446744073709551616" using flat_sizes(1) [OF assms(1,2)] by simp
  then show ?thesis
    using assms(2,3) by (auto simp: stores_field_def writes_inside_def outside_def load_bytes_put_apart put_bytes_heap)
qed

section \<open>A field\<close>

text \<open>A decoder that returns on every stream, keeps inside of it, and stores no more than its field has room for.\<close>

definition decodes_safely :: "('s, 'h) field_decoder \<Rightarrow> pb_field_t \<Rightarrow> bool" where
  "decodes_safely dec field \<longleftrightarrow> (\<forall>s dest w. istream_ok s \<longrightarrow>
     (\<exists>ok s' w'. dec s field dest w = Some (ok, s', w') \<and> within s s' \<and> stores_field dest (unat (data_size field)) w w'))"

definition same_or_error :: "'s pb_istream_t \<Rightarrow> 's pb_istream_t \<Rightarrow> bool" where
  "same_or_error s t \<longleftrightarrow> t = s \<or> (\<exists>msg. t = PB_SET_ERROR s msg)"

lemma decodes_safelyI:
  assumes "istream_reader get spec" "\<And>s s' dest w. get s = (None, s') \<Longrightarrow> dec s field dest w = Some (False, s', w)"
    and "\<And>v s s' dest w. get s = (Some v, s') \<Longrightarrow> \<exists>ok bs t. length bs = unat (data_size field) \<and> same_or_error s' t \<and>
      dec s field dest w = Some (ok, t, put_bytes dest bs w)"
  shows "decodes_safely dec field"
  unfolding decodes_safely_def
proof (intro allI impI)
  fix s :: "'a pb_istream_t" and dest and w :: "'c pb_world"
  assume s: "istream_ok s"
  have w: "within s (snd (get s))" by (rule istream_reader.contained [OF assms(1) s])
  show "\<exists>ok s' w'. dec s field dest w = Some (ok, s', w') \<and> within s s' \<and> stores_field dest (unat (data_size field)) w w'"
  proof (cases "get s")
    case (Pair r s')
    show ?thesis
    proof (cases r)
      case None
      then show ?thesis using assms(2) Pair w by (auto simp: stores_field_def)
    next
      case (Some v)
      obtain ok bs t where d: "length bs = unat (data_size field)" "same_or_error s' t" "dec s field dest w = Some (ok, t, put_bytes dest bs w)"
        using assms(3) [of s v s' dest w] Pair Some by blast
      have "within s t" using w Pair d(2) within_error by (auto simp: same_or_error_def)
      with d show ?thesis by (auto simp: stores_field_def)
    qed
  qed
qed

lemma put_le_bytes: "put_le n p v w = put_bytes p (map (\<lambda>i. ucast (drop_bit (8 * i) v)) [0 ..< n]) w"
  by (simp add: put_le_def put_bytes_def store_le_def)

lemma put_le_ex: "\<exists>bs. length bs = n \<and> put_le n p v w = put_bytes p bs w"
  unfolding put_le_bytes by (rule exI [of _ "map (\<lambda>i. ucast (drop_bit (8 * i) v)) [0 ..< n]"]) simp

lemma store_clamped_ex:
  "\<exists>ok bs t. length bs = unat (data_size field) \<and> same_or_error s t \<and>
    store_clamped (Some c) v s field dest w = Some (ok, t, put_bytes dest bs w)"
proof -
  obtain bs where bs: "length bs = unat (data_size field)" "put_le (unat (data_size field)) dest c w = put_bytes dest bs w"
    using put_le_ex by blast
  then show ?thesis by (cases "c = v") (auto simp: store_clamped_def fail_def same_or_error_def)
qed

lemma clamp_Some:
  assumes "n \<in> {1, 2, 4, 8}"
  shows "\<exists>c. clamp_signed n v = Some c" "\<exists>c. clamp_unsigned n v = Some c"
  using assms by (auto simp: clamp_signed_def clamp_unsigned_def)

lemma scalar_decodes_safely:
  fixes denv :: "('s, 'h) pb_denv"
  assumes "scalar_field field"
  shows "decodes_safely (PB_DECODERS denv decode decode_noinit (PB_LTYPE (type field))) field"
proof -
  let ?t = "PB_LTYPE (type field)" and ?n = "data_size field"
  consider (bool) "?t = PB_LTYPE_BOOL" "?n = 1"
    | (varint) "?t = PB_LTYPE_VARINT" "?n \<in> {1, 2, 4, 8}"
    | (uvarint) "?t = PB_LTYPE_UVARINT" "?n \<in> {1, 2, 4, 8}"
    | (svarint) "?t = PB_LTYPE_SVARINT" "?n \<in> {1, 2, 4, 8}"
    | (fixed32) "?t = PB_LTYPE_FIXED32" "?n = 4" | (fixed64) "?t = PB_LTYPE_FIXED64" "?n = 8"
    using assms unfolding scalar_field_def Let_def by blast
  then show ?thesis
  proof cases
    case bool
    have "decodes_safely (pb_dec_bool :: ('s, 'h) field_decoder) field"
      by (rule decodes_safelyI [OF rd_varint32.istream_reader_axioms])
        (use bool in \<open>auto simp: pb_dec_bool_def same_or_error_def intro!: exI\<close>)
    then show ?thesis using bool by (simp add: PB_DECODERS_def)
  next
    case varint
    have "decodes_safely (pb_dec_varint :: ('s, 'h) field_decoder) field"
    proof (rule decodes_safelyI [OF rd_varint.istream_reader_axioms])
      fix v :: u64 and s s' :: "'s pb_istream_t" and dest and w :: "'h pb_world"
      let ?v = "if ?n = 8 then v else scast (ucast v :: u32)"
      assume "pb_decode_varint s = (Some v, s')"
      moreover obtain c where "clamp_signed ?n ?v = Some c" using clamp_Some(1) [OF varint(2)] by blast
      ultimately have "pb_dec_varint s field dest w = store_clamped (Some c) ?v s' field dest w"
        by (simp add: pb_dec_varint_def Let_def)
      then show "\<exists>ok bs t. length bs = unat ?n \<and> same_or_error s' t \<and> pb_dec_varint s field dest w = Some (ok, t, put_bytes dest bs w)"
        by (simp only: store_clamped_ex)
    qed (simp add: pb_dec_varint_def)
    then show ?thesis using varint by (simp add: PB_DECODERS_def PB_TYPE_defs)
  next
    case uvarint
    have "decodes_safely (pb_dec_uvarint :: ('s, 'h) field_decoder) field"
    proof (rule decodes_safelyI [OF rd_varint.istream_reader_axioms])
      fix v :: u64 and s s' :: "'s pb_istream_t" and dest and w :: "'h pb_world"
      assume "pb_decode_varint s = (Some v, s')"
      moreover obtain c where "clamp_unsigned ?n v = Some c" using clamp_Some(2) [OF uvarint(2)] by blast
      ultimately have "pb_dec_uvarint s field dest w = store_clamped (Some c) v s' field dest w"
        by (simp add: pb_dec_uvarint_def)
      then show "\<exists>ok bs t. length bs = unat ?n \<and> same_or_error s' t \<and> pb_dec_uvarint s field dest w = Some (ok, t, put_bytes dest bs w)"
        by (simp only: store_clamped_ex)
    qed (simp add: pb_dec_uvarint_def)
    then show ?thesis using uvarint by (simp add: PB_DECODERS_def PB_TYPE_defs)
  next
    case svarint
    have "decodes_safely (pb_dec_svarint :: ('s, 'h) field_decoder) field"
    proof (rule decodes_safelyI [OF rd_svarint.istream_reader_axioms])
      fix v :: u64 and s s' :: "'s pb_istream_t" and dest and w :: "'h pb_world"
      assume "pb_decode_svarint s = (Some v, s')"
      moreover obtain c where "clamp_signed ?n v = Some c" using clamp_Some(1) [OF svarint(2)] by blast
      ultimately have "pb_dec_svarint s field dest w = store_clamped (Some c) v s' field dest w"
        by (simp add: pb_dec_svarint_def)
      then show "\<exists>ok bs t. length bs = unat ?n \<and> same_or_error s' t \<and> pb_dec_svarint s field dest w = Some (ok, t, put_bytes dest bs w)"
        by (simp only: store_clamped_ex)
    qed (simp add: pb_dec_svarint_def)
    then show ?thesis using svarint by (simp add: PB_DECODERS_def PB_TYPE_defs)
  next
    case fixed32
    have "decodes_safely (pb_dec_fixed32 :: ('s, 'h) field_decoder) field"
      by (rule decodes_safelyI [OF rd_fixed32.istream_reader_axioms])
        (use fixed32 in \<open>auto simp: pb_dec_fixed32_def put_le_bytes same_or_error_def intro!: exI\<close>)
    then show ?thesis using fixed32 by (simp add: PB_DECODERS_def PB_TYPE_defs)
  next
    case fixed64
    have "decodes_safely (pb_dec_fixed64 :: ('s, 'h) field_decoder) field"
      by (rule decodes_safelyI [OF rd_fixed64.istream_reader_axioms])
        (use fixed64 in \<open>auto simp: pb_dec_fixed64_def put_le_bytes same_or_error_def intro!: exI\<close>)
    then show ?thesis using fixed64 by (simp add: PB_DECODERS_def PB_TYPE_defs)
  qed
qed

section \<open>Tags\<close>

lemma varint32_loop_left: "varint32_loop bp r s = (Some x, s') \<Longrightarrow> unat (bytes_left s') < unat (bytes_left s)"
proof (induction bp r s rule: varint32_loop.induct)
  case (1 bp r s)
  obtain b s1 where b: "pb_readbyte s = (Some b, s1)"
    using "1.prems" by (cases "pb_readbyte s"; cases "fst (pb_readbyte s)") (auto simp: varint32_loop.simps [of bp r s])
  then have l: "unat (bytes_left s1) < unat (bytes_left s)" by (rule pb_readbyte_left)
  have "s' = s1 \<or> unat (bytes_left s') < unat (bytes_left s1)"
    using "1.prems" "1.IH" b unfolding varint32_loop.simps [of bp r s] by (auto simp: Let_def split: if_splits)
  then show ?case using l by auto
qed

text \<open>A tag takes at least a byte, and has 29 bits.\<close>

lemma pb_decode_tag_left:
  assumes "pb_decode_tag s = (Some (wt, t), eof, s')"
  shows "unat (bytes_left s') < unat (bytes_left s)" "unat t < 536870912"
proof -
  obtain temp where temp: "pb_decode_varint32_eof s = (Some temp, eof, s')" "t = drop_bit 3 temp"
    using assms by (auto simp: pb_decode_tag_def split: option.splits prod.splits if_splits)
  obtain b s1 where b: "pb_readbyte s = (Some b, s1)"
    using temp(1) by (cases "pb_readbyte s"; cases "fst (pb_readbyte s)") (auto simp: pb_decode_varint32_eof_def)
  have "s' = s1 \<or> unat (bytes_left s') < unat (bytes_left s1)"
    using temp(1) b by (auto simp: pb_decode_varint32_eof_def split: option.splits prod.splits if_splits dest: varint32_loop_left)
  then show "unat (bytes_left s') < unat (bytes_left s)" using pb_readbyte_left [OF b] by auto
  have "unat t = unat temp div 8" by (simp add: temp(2) unat_drop_bit_div)
  moreover have "unat temp < 4294967296" using unat_lt2p [of temp] by simp
  ultimately show "unat t < 536870912" by linarith
qed

section \<open>The loop\<close>

text \<open>The states the loop reaches from a given one.\<close>

inductive loop_reaches ::
  "nat \<Rightarrow> ('s, 'h) pb_denv \<Rightarrow> ('s, 'h) decoder \<Rightarrow> ('s, 'h) decoder \<Rightarrow> ('s, 'h) noinit_state \<Rightarrow> ('s, 'h) noinit_state \<Rightarrow> bool"
  for depth denv decode decode_noinit st where
  reaches_start: "loop_reaches depth denv decode decode_noinit st st"
| reaches_step: "\<lbrakk>loop_reaches depth denv decode decode_noinit st st1; bytes_left (nstream st1) \<noteq> 0;
    noinit_step depth denv decode decode_noinit st1 = Some (Again, st2)\<rbrakk> \<Longrightarrow> loop_reaches depth denv decode decode_noinit st st2"

definition safe_from :: "pb_fields \<Rightarrow> addr \<Rightarrow> addr \<Rightarrow> ('s, 'h) noinit_state \<Rightarrow> ('s, 'h) noinit_state \<Rightarrow> bool" where
  "safe_from fs dest slot st st' \<longleftrightarrow> flat_state fs dest st' \<and> within (nstream st) (nstream st') \<and>
     writes_inside fs dest slot (nworld st) (nworld st')"

lemma safe_from_trans:
  assumes "flat_state fs dest st" "safe_from fs dest slot st st1" "safe_from fs dest slot st1 st2"
  shows "safe_from fs dest slot st st2"
  using assms within_trans writes_inside_trans unfolding safe_from_def flat_state_def by blast

text \<open>A step on any input: it returns, and when the loop goes on some input has been used up.\<close>

lemma any_step:
  assumes "flat_message fs" "dest \<noteq> 0" "flat_state fs dest st"
  shows "\<exists>ex st'. noinit_step depth denv decode decode_noinit st = Some (ex, st') \<and> ex \<noteq> Unhandled \<and>
    safe_from fs dest slot st st' \<and> (ex = Again \<longrightarrow> unat (bytes_left (nstream st')) < unat (bytes_left (nstream st)))"
proof -
  from assms(3) obtain j where st: "istream_ok (nstream st)" "j < length fs" "niter st = iter_at fs dest j"
    "extension_range_start st \<in> {0, - 1}" "fixed_count_field st = None"
    by (auto simp: flat_state_def)
  have w: "within (nstream st) (snd (tag_reader (nstream st)))" by (rule rd_pb_tag.contained [OF st(1)])
  obtain r eof s1 where tag: "pb_decode_tag (nstream st) = (r, eof, s1)" by (cases "pb_decode_tag (nstream st)") auto
  then have s1: "within (nstream st) s1" "istream_ok s1" using w within_facts(1) [OF st(1)] by (auto simp: tag_reader_def)
  show ?thesis
  proof (cases r)
    case None
    then have "noinit_step depth denv decode decode_noinit st = Some (if eof then Leave else Return False, st\<lparr>nstream := s1\<rparr>)"
      by (simp add: noinit_step_def tag)
    moreover have "safe_from fs dest slot st (st\<lparr>nstream := s1\<rparr>)"
      using assms(3) s1 by (simp add: safe_from_def flat_state_def writes_inside_refl)
    ultimately show ?thesis by simp
  next
    case (Some p)
    then obtain wt t where p: "pb_decode_tag (nstream st) = (Some (wt, t), eof, s1)" using tag by (cases p) simp
    note l = pb_decode_tag_left [OF p]
    show ?thesis
    proof (cases "\<exists>i < length fs. tag (fs ! i) = t")
      case True
      then obtain i where i: "i < length fs" "tag (fs ! i) = t" by blast
      have "scalar_field (fs ! i)" using flat_fieldD [OF assms(1) i(1)] by (simp add: flat_field_def)
      from scalar_decodes_safely [OF this, of denv decode decode_noinit] s1(2)
      obtain ok s2 w2 where d: "PB_DECODERS denv decode decode_noinit (PB_LTYPE (type (fs ! i))) s1 (fs ! i) (pData (iter_at fs dest i)) (nworld st) =
          Some (ok, s2, w2)" "within s1 s2" "stores_field (pData (iter_at fs dest i)) (unat (data_size (fs ! i))) (nworld st) w2"
        unfolding decodes_safely_def by blast
      let ?st = "st\<lparr>nstream := s2, niter := iter_at fs dest i, nworld := w2\<rparr>"
      have "noinit_step depth denv decode decode_noinit st = Some (if ok then Again else Return False, ?st)"
        using p flat_find [OF assms(1) i(1) st(2), of dest] i(2) st(3) d(1)
        by (simp add: noinit_step_def flat_known_field [OF assms(1,2) i(1)] Let_def)
      moreover have "safe_from fs dest slot st ?st"
        using within_trans [OF st(1) s1(1) d(2)] within_facts(1) [OF s1(2) d(2)] st(4,5) i(1)
          stores_field_inside [OF assms(1) i(1) d(3)]
        by (auto simp: safe_from_def flat_state_def)
      moreover have "unat (bytes_left s2) < unat (bytes_left (nstream st))"
        using within_facts(3) [OF s1(2) d(2)] l(1) by simp
      ultimately show ?thesis by simp
    next
      case False
      then have "find (field_matches fs t) ([j ..< length fs] @ [0 ..< j]) = None"
        using st(2) by (auto simp: find_None_iff field_matches_def dest: less_trans [OF _ st(2)])
      then have f: "pb_field_iter_find (iter_at fs dest j) t = Some (False, iter_at fs dest j)"
        using pb_field_iter_find_at [OF flat_fields_ok [OF assms(1)] st(2)] by simp
      obtain ok s2 where k: "pb_skip_field s1 wt = (ok, s2)" by (cases "pb_skip_field s1 wt")
      have s2: "within s1 s2" using rd_skip.contained [OF s1(2), of wt] by (simp add: unit_reader_def k)
      let ?st = "st\<lparr>nstream := s2, niter := iter_at fs dest j, extension_range_start := - 1\<rparr>"
      have "noinit_step depth denv decode decode_noinit st = Some (if ok then Again else Return False, ?st)"
        using p f st(3,4) k by (simp add: noinit_step_def flat_unknown_field [OF assms(1) st(2) _ _ l(2)] Let_def)
      moreover have "safe_from fs dest slot st ?st"
        using within_trans [OF st(1) s1(1) s2] within_facts(1) [OF s1(2) s2] st(2,5)
        by (auto simp: safe_from_def flat_state_def writes_inside_refl)
      moreover have "unat (bytes_left s2) < unat (bytes_left (nstream st))"
        using within_facts(3) [OF s1(2) s2] l(1) by simp
      ultimately show ?thesis by simp
    qed
  qed
qed

lemma loop_reaches_safe:
  assumes "loop_reaches depth denv decode decode_noinit st st1" "flat_message fs" "dest \<noteq> 0" "flat_state fs dest st"
  shows "safe_from fs dest slot st st1"
  using assms(1)
proof induction
  case reaches_start
  then show ?case using assms(4) by (simp add: safe_from_def within_refl writes_inside_refl)
next
  case (reaches_step st1 st2)
  have "flat_state fs dest st1" using reaches_step.IH by (simp add: safe_from_def)
  from any_step [OF assms(2,3) this, of depth denv decode decode_noinit slot] reaches_step.hyps(3)
  have "safe_from fs dest slot st1 st2" by auto
  then show ?case by (rule safe_from_trans [OF assms(4) reaches_step.IH])
qed

text \<open>The loop ends, in a reachable state or a step behind one.\<close>

lemma loop_returns:
  assumes "flat_message fs" "dest \<noteq> 0" "flat_state fs dest st" "loop_reaches depth denv decode decode_noinit st st1"
  shows "\<exists>ex st2 st'. noinit_loop depth denv decode decode_noinit st1 = Some (ex, st') \<and>
    loop_reaches depth denv decode decode_noinit st st2 \<and>
    (ex = Leave \<and> st' = st2 \<or> ex \<noteq> Again \<and> noinit_step depth denv decode decode_noinit st2 = Some (ex, st'))"
  using assms(4)
proof (induction "unat (bytes_left (nstream st1))" arbitrary: st1 rule: less_induct)
  case less
  have f: "flat_state fs dest st1"
    using loop_reaches_safe [OF less.prems assms(1-3)] by (simp add: safe_from_def)
  show ?case
  proof (cases "bytes_left (nstream st1) = 0")
    case True
    then have "noinit_loop depth denv decode decode_noinit st1 = Some (Leave, st1)" by (subst noinit_loop.simps) simp
    with less.prems show ?thesis by blast
  next
    case False
    obtain ex st2 where s: "noinit_step depth denv decode decode_noinit st1 = Some (ex, st2)"
      "ex = Again \<longrightarrow> unat (bytes_left (nstream st2)) < unat (bytes_left (nstream st1))"
      using any_step [OF assms(1,2) f] by blast
    show ?thesis
    proof (cases "ex = Again")
      case True
      then have "noinit_loop depth denv decode decode_noinit st1 = noinit_loop depth denv decode decode_noinit st2"
        using False s(1) by (subst noinit_loop.simps) simp
      moreover have "loop_reaches depth denv decode decode_noinit st st2"
        using reaches_step [OF less.prems False] s(1) True by simp
      ultimately show ?thesis using less.hyps [of st2] s(2) True by simp
    next
      case not_again: False
      then have "noinit_loop depth denv decode decode_noinit st1 = Some (ex, st2)"
        using False s(1) by (subst noinit_loop.simps) simp
      with less.prems s(1) not_again show ?thesis by blast
    qed
  qed
qed

lemma loop_safe:
  assumes "flat_message fs" "dest \<noteq> 0" "flat_state fs dest st"
  shows "\<exists>ex st'. noinit_loop depth denv decode decode_noinit st = Some (ex, st') \<and> (ex = Leave \<or> (\<exists>ok. ex = Return ok)) \<and>
    safe_from fs dest slot st st'"
proof -
  obtain ex st2 st' where l: "noinit_loop depth denv decode decode_noinit st = Some (ex, st')"
    "loop_reaches depth denv decode decode_noinit st st2"
    "ex = Leave \<and> st' = st2 \<or> ex \<noteq> Again \<and> noinit_step depth denv decode decode_noinit st2 = Some (ex, st')"
    using loop_returns [OF assms reaches_start] by blast
  have s: "safe_from fs dest slot st st2" by (rule loop_reaches_safe [OF l(2) assms])
  then have "flat_state fs dest st2" by (simp add: safe_from_def)
  from any_step [OF assms(1,2) this, of depth denv decode decode_noinit slot] l(3)
  have "(ex = Leave \<or> (\<exists>ok. ex = Return ok)) \<and> (st' = st2 \<or> safe_from fs dest slot st2 st')"
    by (cases ex) auto
  then show ?thesis using l(1) s safe_from_trans [OF assms(3) s] by blast
qed

section \<open>Releasing\<close>

lemma flat_release_field:
  assumes "flat_message fs" "i < length fs"
  shows "pb_release_single_field (Suc depth) denv (iter_at fs dest i) w = Some w"
  using flat_fieldD [OF assms] cur_field_at [OF flat_fields_ok [OF assms(1)] assms(2)]
  by (auto simp: release_contents_def release_pointer_def flat_field_def scalar_field_def Let_def PB_TYPE_defs)

lemma flat_release_loop:
  assumes "flat_message fs" "i < length fs"
  shows "iter_loop (pb_release_single_field (Suc depth) denv) (iter_at fs dest i) w = Some w"
  using assms(2)
proof (induction "length fs - i" arbitrary: i rule: less_induct)
  case less
  note nxt = iter_next_at [OF flat_fields_ok [OF assms(1)] less.prems]
  show ?case
    using less.hyps [of "Suc i"] less.prems
    by (subst iter_loop.simps)
      (auto simp: flat_release_field [OF assms(1) less.prems] nxt simp del: iter_at.simps pb_release_single_field.simps)
qed

text \<open>There is nothing to release in a message of scalars.\<close>

lemma flat_release:
  assumes "flat_message fs" "fs \<noteq> []" "dest \<noteq> 0"
  shows "pb_release (Suc depth) denv fs dest w = Some w"
proof -
  have "pb_field_iter_begin fs dest = (True, iter_at fs dest 0)"
    using assms(2) field_at_tag [OF flat_fields_ok [OF assms(1)], of 0] by (simp add: pb_field_iter_begin_def Let_def)
  then show ?thesis
    using flat_release_loop [OF assms(1), of 0 depth denv dest w] assms(2,3)
    by (simp add: pb_release_def release_message_def message_loop_def del: iter_at.simps)
qed

end
