(* ===== verification/Pb_Decode_Properties.thy ===== *)
theory Pb_Decode_Properties
  imports Pb_Flat_Safety
begin

text \<open>
  Properties of nanopb that join its encoder and its decoder of messages.
\<close>

section \<open>A decoded message\<close>

definition flat_world :: "'e pb_env \<Rightarrow> pb_fields \<Rightarrow> addr \<Rightarrow> addr \<Rightarrow> nat list \<Rightarrow> 'h pb_world \<Rightarrow> 'h pb_world" where
  "flat_world env fs src dest =
     put_fields (\<lambda>i. \<not> all_zero (mem env) (fs ! i) (pData (iter_at fs src i))) (\<lambda>i. pData (iter_at fs dest i))
       (\<lambda>i. scalar_image (mem env) (fs ! i) (pData (iter_at fs src i)))"

lemma items_noinit:
  assumes "flat_message fs" "fs \<noteq> []" "dest \<noteq> 0" "list_all (item_ok fs) its" "istream_ok s"
    and "input s = concat (map (item_bytes env fs) its)"
  shows "\<exists>s'. pb_decode_noinit (Suc depth) denv s fs dest w =
      Some (True, s', item_world env fs dest its (put_size (fixed_count_at denv depth) 0 w)) \<and> bytes_left s' = 0"
proof -
  let ?st = "\<lparr>nstream = s, nworld = put_size (fixed_count_at denv depth) 0 w, niter = snd (pb_field_iter_begin fs dest),
    fields_seen = [0, 0], extension_range_start = 0, fixed_count_field = None\<rparr>"
  let ?noinit = "\<lambda>stream fs dest w. pb_decode_noinit depth denv stream fs dest w"
  have "snd (pb_field_iter_begin fs dest) = iter_at fs dest 0" by simp
  then have st: "flat_state fs dest ?st" using assms(2,5) unfolding flat_state_def by (auto simp del: iter_at.simps)
  obtain st' where st': "noinit_loop depth denv (decode_body depth denv ?noinit) ?noinit ?st = Some (Leave, st')" "flat_state fs dest st'"
    "bytes_left (nstream st') = 0" "nworld st' = item_world env fs dest its (put_size (fixed_count_at denv depth) 0 w)"
    using item_loop [OF assms(1,3,4) st, where env = env and denv = denv and depth = depth and decode = "decode_body depth denv ?noinit"
      and decode_noinit = ?noinit] assms(6) by auto
  then have "\<not> wrong_fixed_count denv depth st'" "required_seen (niter st') (fields_seen st')"
    using flat_required [OF assms(1,3)] by (auto simp: flat_state_def wrong_fixed_count_def)
  with st' show ?thesis by (simp add: noinit_body_def)
qed

text \<open>The encoder leaves out the fields that are zero.\<close>

abbreviation written_items :: "'e pb_env \<Rightarrow> pb_fields \<Rightarrow> addr \<Rightarrow> nat list \<Rightarrow> item list" where
  "written_items env fs src is \<equiv>
     map (\<lambda>i. Known i (pData (iter_at fs src i))) (filter (\<lambda>i. \<not> all_zero (mem env) (fs ! i) (pData (iter_at fs src i))) is)"

lemma items_flat_world: "item_world env fs dest (written_items env fs src is) w = flat_world env fs src dest is w"
  by (induction "is" arbitrary: w) (simp_all add: flat_world_def)

lemma items_flat_chunks:
  "concat (map (item_bytes env fs) (written_items env fs src is)) =
     concat (map (\<lambda>i. flat_chunk env (fs ! i) (pData (iter_at fs src i))) is)"
  by (induction "is") (simp_all add: flat_chunk_def)

lemma flat_noinit:
  assumes "flat_message fs" "dest \<noteq> 0" "istream_ok s"
    and "input s = concat (map (\<lambda>i. flat_chunk env (fs ! i) (pData (iter_at fs src i))) [0 ..< length fs])"
  shows "\<exists>s'. pb_decode_noinit (Suc depth) denv s fs dest w =
      Some (True, s', flat_world env fs src dest [0 ..< length fs] (put_size (fixed_count_at denv depth) 0 w)) \<and> bytes_left s' = 0"
proof (cases "fs = []")
  case True
  then have "bytes_left s = 0" using assms(4) length_input [OF assms(3)] by (simp add: unat_eq_zero)
  then show ?thesis
    using True
    by (simp add: noinit_body_def noinit_loop.simps wrong_fixed_count_def required_seen_def required_loop.simps flat_world_def
        pb_field_iter_begin_def pb_field_iter_next_def cur_field_def field_at_def PB_LAST_FIELD_def Let_def)
next
  case False
  let ?its = "written_items env fs src [0 ..< length fs]"
  have ok: "list_all (item_ok fs) ?its" by (auto simp: list_all_iff)
  have "input s = concat (map (item_bytes env fs) ?its)" unfolding items_flat_chunks by (rule assms(4))
  from items_noinit [OF assms(1) False assms(2) ok assms(3) this, where depth = depth and denv = denv and w = w]
  show ?thesis unfolding items_flat_world .
qed

lemma put_size_bytes: "put_size p n w = put_bytes p (map (\<lambda>i. ucast (drop_bit (8 * i) (ucast n :: u64))) [0 ..< 4]) w"
  by (simp add: put_size_def put_le_def put_bytes_def store_le_def)

lemma load_put_size_apart:
  assumes "apart p n q 4" "n < 18446744073709551616"
  shows "load_bytes (wmem (put_size q k w)) p n = load_bytes (wmem w) p n"
  unfolding put_size_bytes by (rule load_bytes_put_apart [OF assms(1)]) (use assms(2) in simp_all)

lemma put_size_heap: "wheap (put_size p n w) = wheap w"
  by (simp add: put_size_bytes put_bytes_def)

text \<open>The memory after decoding, field by field and elsewhere.\<close>

abbreviation flat_result :: "'e pb_env \<Rightarrow> pb_fields \<Rightarrow> addr \<Rightarrow> addr \<Rightarrow> addr \<Rightarrow> 'h pb_world \<Rightarrow> 'h pb_world" where
  "flat_result env fs src dest slot w \<equiv>
     flat_world env fs src dest [0 ..< length fs] (put_size slot 0 (flat_defaults fs dest [0 ..< length fs] w))"

lemma flat_defaults_field:
  assumes "flat_message fs" "dest \<noteq> 0" "k < length fs"
    and "\<And>i. i < length fs \<Longrightarrow> apart (pData (iter_at fs dest i)) (unat (data_size (fs ! i))) slot 4"
  shows "load_bytes (wmem (put_size slot 0 (flat_defaults fs dest [0 ..< length fs] w))) (pData (iter_at fs dest k)) (unat (data_size (fs ! k))) =
    replicate (unat (data_size (fs ! k))) 0"
proof -
  let ?n = "unat (data_size (fs ! k))" and ?p = "pData (iter_at fs dest k)"
  have len: "unat (data_size (fs ! i)) < 18446744073709551616" if "i < length fs" for i
    using flat_fieldD [OF assms(1) that] scalar_size [of "fs ! i"] by (simp add: flat_field_def)
  have "load_bytes (wmem (put_size slot 0 (flat_defaults fs dest [0 ..< length fs] w))) ?p ?n =
      load_bytes (wmem (flat_defaults fs dest [0 ..< length fs] w)) ?p (length (replicate ?n (0 :: u8)))"
    by (simp only: load_put_size_apart [OF assms(4) [OF assms(3)] len [OF assms(3)]] length_replicate)
  also have "\<dots> = replicate ?n 0"
  proof (rule put_fields_at [where k = k and B = "\<lambda>i. replicate (unat (data_size (fs ! i))) 0"])
    show "k \<in> set [0 ..< length fs]" using assms(3) by simp
  qed (use len flat_apart [OF assms(1,2,3)] in \<open>simp_all del: iter_at.simps\<close>)
  finally show ?thesis .
qed

lemma flat_result_field:
  assumes "flat_message fs" "dest \<noteq> 0" "k < length fs"
    and "\<And>i. i < length fs \<Longrightarrow> apart (pData (iter_at fs dest i)) (unat (data_size (fs ! i))) slot 4"
  shows "load_bytes (wmem (flat_result env fs src dest slot w)) (pData (iter_at fs dest k)) (unat (data_size (fs ! k))) =
    scalar_image (mem env) (fs ! k) (pData (iter_at fs src k))"
proof -
  let ?n = "unat (data_size (fs ! k))" and ?p = "pData (iter_at fs dest k)"
  have scalar: "scalar_field (fs ! i)" if "i < length fs" for i using flat_fieldD [OF assms(1) that] by (simp add: flat_field_def)
  have len: "length (scalar_image (mem env) (fs ! i) p) = unat (data_size (fs ! i))" "unat (data_size (fs ! i)) < 18446744073709551616"
    if "i < length fs" for i p
    using scalar_image_length [OF scalar [OF that]] scalar_size [OF scalar [OF that]] by simp_all
  show ?thesis
  proof (cases "all_zero (mem env) (fs ! k) (pData (iter_at fs src k))")
    case False
    from assms(3) have k: "k \<in> set [0 ..< length fs]" by simp
    let ?B = "\<lambda>i. scalar_image (mem env) (fs ! i) (pData (iter_at fs src i))"
    have "load_bytes (wmem (flat_result env fs src dest slot w)) ?p (length (?B k)) = ?B k"
      unfolding flat_world_def
      by (rule put_fields_at [OF k, where B = ?B]) (use False len flat_apart [OF assms(1,2,3)] assms(3) in \<open>auto simp del: iter_at.simps\<close>)
    then show ?thesis by (simp add: len(1) [OF assms(3)])
  next
    case True
    have "load_bytes (wmem (flat_result env fs src dest slot w)) ?p ?n =
        load_bytes (wmem (put_size slot 0 (flat_defaults fs dest [0 ..< length fs] w))) ?p ?n"
      unfolding flat_world_def
      by (rule put_fields_apart) (use True len flat_apart [OF assms(1,2,3)] assms(3) in \<open>auto simp del: iter_at.simps\<close>)
    also have "\<dots> = replicate ?n 0" by (rule flat_defaults_field [OF assms])
    finally show ?thesis using all_zero_image [OF scalar [OF assms(3)] True] by simp
  qed
qed

lemma defaults_inside:
  assumes "flat_message fs"
  shows "writes_inside fs dest slot w (put_size slot 0 (flat_defaults fs dest [0 ..< length fs] w))"
proof -
  have "load_bytes (wmem (flat_defaults fs dest [0 ..< length fs] w)) p n = load_bytes (wmem w) p n"
    if o: "outside fs dest slot p n" for p n
  proof (rule put_fields_apart)
    show "n < 18446744073709551616" using o by (simp add: outside_def)
    fix i
    assume "i \<in> set [0 ..< length fs]"
    then show "apart p n (pData (iter_at fs dest i)) (length (replicate (unat (data_size (fs ! i))) (0 :: u8))) \<and>
        length (replicate (unat (data_size (fs ! i))) (0 :: u8)) < 18446744073709551616"
      using o flat_sizes(1) [OF assms, of i] by (simp add: outside_def)
  qed
  then show ?thesis
    by (simp add: writes_inside_def put_fields_heap put_size_heap load_put_size_apart outside_def)
qed

lemma flat_result_inside:
  assumes "flat_message fs"
  shows "writes_inside fs dest slot w (flat_result env fs src dest slot w)"
proof (rule writes_inside_trans [OF defaults_inside [OF assms]])
  let ?w = "put_size slot 0 (flat_defaults fs dest [0 ..< length fs] w)"
  have "load_bytes (wmem (flat_world env fs src dest [0 ..< length fs] ?w)) p n = load_bytes (wmem ?w) p n"
    if o: "outside fs dest slot p n" for p n
    unfolding flat_world_def
  proof (rule put_fields_apart)
    show "n < 18446744073709551616" using o by (simp add: outside_def)
    fix i
    assume "i \<in> set [0 ..< length fs]"
    then have "i < length fs" "scalar_field (fs ! i)" using flat_fieldD [OF assms, of i] by (simp_all add: flat_field_def)
    then show "apart p n (pData (iter_at fs dest i)) (length (scalar_image (mem env) (fs ! i) (pData (iter_at fs src i)))) \<and>
        length (scalar_image (mem env) (fs ! i) (pData (iter_at fs src i))) < 18446744073709551616"
      using o flat_sizes(1) [OF assms, of i] by (simp add: outside_def scalar_image_length)
  qed
  then show "writes_inside fs dest slot ?w (flat_world env fs src dest [0 ..< length fs] ?w)"
    by (simp add: writes_inside_def flat_world_def put_fields_heap)
qed

lemma encoded_input:
  assumes "wire_message depth env fs src = Some (Some bs)" "length buf < 2 ^ 63"
    and "pb_encode depth env (pb_ostream_from_buffer buf (word_of_nat (length buf))) fs src = Some (True, s)"
  shows "istream_ok (pb_istream_from_buffer (buffer_of s) (bytes_written s))"
    "input (pb_istream_from_buffer (buffer_of s) (bytes_written s)) = bs"
proof -
  note e = emits_message [OF assms(1)]
  have "length bs \<le> length buf"
    using emits_from_buffer(2) [OF e assms(2)] assms(3) by (auto simp: not_le [symmetric])
  then have "unat (bytes_written s) = length bs" "buffer_of s = bs @ drop (length bs) buf"
    using emits_from_buffer(1) [OF e assms(2)] assms(3) by auto
  then show "istream_ok (pb_istream_from_buffer (buffer_of s) (bytes_written s))"
    "input (pb_istream_from_buffer (buffer_of s) (bytes_written s)) = bs"
    by (simp_all add: istream_ok_def input_def pb_istream_from_buffer_def)
qed

section \<open>Encoding and decoding a message\<close>

text \<open>
  C3. What \<open>pb_encode\<close> has written for a message of scalars without presence flags,
  \<open>pb_decode\<close> reads back: it succeeds, uses up the input, leaves in every field the bytes of the source
  (a boolean as 0 or 1), allocates nothing and changes no memory outside the message but its local
  variable.
\<close>

theorem pb_message_roundtrip:
  assumes "flat_message fs" "dest \<noteq> 0"
    and "\<forall>i<length fs. apart (pData (iter_at fs dest i)) (unat (data_size (fs ! i))) (fixed_count_at denv depth) 4"
    and "length buf < 2 ^ 63"
    and "pb_encode (Suc (Suc k)) env (pb_ostream_from_buffer buf (word_of_nat (length buf))) fs src = Some (True, s)"
  shows "\<exists>s' w'. pb_decode (Suc depth) denv (pb_istream_from_buffer (buffer_of s) (bytes_written s)) fs dest w = Some (True, s', w') \<and>
    bytes_left s' = 0 \<and> wheap w' = wheap w \<and>
    (\<forall>i<length fs. load_bytes (wmem w') (pData (iter_at fs dest i)) (unat (data_size (fs ! i))) =
       scalar_image (mem env) (fs ! i) (pData (iter_at fs src i))) \<and>
    (\<forall>p n. outside fs dest (fixed_count_at denv depth) p n \<longrightarrow> load_bytes (wmem w') p n = load_bytes (wmem w) p n)"
proof -
  note i = encoded_input [OF flat_message_wire [OF assms(1)] assms(4,5)]
  obtain s' where "pb_decode_noinit (Suc depth) denv (pb_istream_from_buffer (buffer_of s) (bytes_written s)) fs dest
      (flat_defaults fs dest [0 ..< length fs] w) = Some (True, s', flat_result env fs src dest (fixed_count_at denv depth) w)"
    "bytes_left s' = 0"
    using flat_noinit [OF assms(1,2) i] by blast
  let ?w = "flat_result env fs src dest (fixed_count_at denv depth) w"
  have decoded: "pb_decode (Suc depth) denv (pb_istream_from_buffer (buffer_of s) (bytes_written s)) fs dest w = Some (True, s', ?w)"
    using \<open>pb_decode_noinit _ _ _ _ _ _ = _\<close>
    by (simp add: pb_decode_def decode_body_def flat_message_defaults [OF assms(1,2)] del: pb_decode_noinit.simps)
  have field: "load_bytes (wmem ?w) (pData (iter_at fs dest i)) (unat (data_size (fs ! i))) =
      scalar_image (mem env) (fs ! i) (pData (iter_at fs src i))" if "i < length fs" for i
    by (rule flat_result_field [OF assms(1,2) that]) (use assms(3) in blast)
  show ?thesis
    using decoded \<open>bytes_left s' = 0\<close> field flat_result_inside [OF assms(1), of dest "fixed_count_at denv depth" w env src]
    unfolding writes_inside_def by (intro exI [of _ s'] exI [of _ ?w] conjI allI impI) blast+
qed

definition bytes_stream :: "u8 list \<Rightarrow> 's pb_istream_t" where
  "bytes_stream bs = pb_istream_from_buffer bs (word_of_nat (length bs))"

lemma bytes_stream_facts:
  assumes "length bs < 18446744073709551616"
  shows "istream_ok (bytes_stream bs)" "input (bytes_stream bs) = bs"
  using assms by (simp_all add: bytes_stream_def pb_istream_from_buffer_def istream_ok_def input_def unat_of_nat_u64)

lemma items_decode:
  assumes "flat_message fs" "fs \<noteq> []" "dest \<noteq> 0" "list_all (item_ok fs) its"
    and "length (concat (map (item_bytes env fs) its)) < 18446744073709551616"
  shows "\<exists>s'. pb_decode (Suc depth) denv (bytes_stream (concat (map (item_bytes env fs) its))) fs dest w =
      Some (True, s', item_world env fs dest its
        (put_size (fixed_count_at denv depth) 0 (flat_defaults fs dest [0 ..< length fs] w))) \<and> bytes_left s' = 0"
  using items_noinit [OF assms(1-4) bytes_stream_facts [OF assms(5)],
      where depth = depth and denv = denv and w = "flat_defaults fs dest [0 ..< length fs] w"]
  by (auto simp: pb_decode_def decode_body_def flat_message_defaults [OF assms(1,3)] simp del: pb_decode_noinit.simps)

lemma item_world_inside:
  assumes "flat_message fs" "list_all (item_ok fs) its"
  shows "writes_inside fs dest slot w (item_world env fs dest its w)"
  using assms(2)
proof (induction its arbitrary: w)
  case Nil
  then show ?case by (simp add: writes_inside_def)
next
  case (Cons it its)
  have "writes_inside fs dest slot w (item_world env fs dest [it] w)"
  proof (cases it)
    case (Known i p)
    with Cons.prems have i: "i < length fs" "scalar_field (fs ! i)" using flat_fieldD [OF assms(1), of i] by (simp_all add: flat_field_def)
    then have len: "length (scalar_image (mem env) (fs ! i) p) = unat (data_size (fs ! i))" by (simp add: scalar_image_length)
    have "load_bytes (wmem (put_bytes (pData (iter_at fs dest i)) (scalar_image (mem env) (fs ! i) p) w)) q n = load_bytes (wmem w) q n"
      if o: "outside fs dest slot q n" for q n
      by (rule load_bytes_put_apart [OF _ len]) (use o i(1) flat_sizes(1) [OF assms(1) i(1)] in \<open>auto simp: outside_def\<close>)
    then show ?thesis by (simp add: Known writes_inside_def put_bytes_def)
  qed (simp add: writes_inside_def)
  from writes_inside_trans [OF this Cons.IH] Cons.prems show ?case by simp
qed

text \<open>
  C38. Let the descriptor be that of a message of scalars without presence flags, and let the input be
  any sequence of occurrences of its fields, with keys and values as the encoder writes them, in any
  order, some of them repeatedly and some not at all, and of unknown fields with minimal keys. Then
  \<open>pb_decode\<close> succeeds and uses up the input, every field has the value of its last occurrence, or
  zero when there is none, and no other memory is changed except the counter of the decoder. The
  unknown fields do no harm: without them the decoder leaves the same memory.
\<close>

theorem pb_decode_ignores_unknown:
  assumes "flat_message fs" "fs \<noteq> []" "dest \<noteq> 0" "list_all (item_ok fs) its"
    and "\<forall>i<length fs. apart (pData (iter_at fs dest i)) (unat (data_size (fs ! i))) (fixed_count_at denv depth) 4"
    and "length (concat (map (item_bytes env fs) its)) < 2 ^ 64"
  shows "\<exists>s s' w'. pb_decode (Suc depth) denv (bytes_stream (concat (map (item_bytes env fs) its))) fs dest w = Some (True, s, w') \<and>
    bytes_left s = 0 \<and>
    pb_decode (Suc depth) denv (bytes_stream (concat (map (item_bytes env fs) (filter is_known its)))) fs dest w = Some (True, s', w') \<and>
    bytes_left s' = 0 \<and>
    (\<forall>i<length fs. load_bytes (wmem w') (pData (iter_at fs dest i)) (unat (data_size (fs ! i))) =
       last_value env fs i (replicate (unat (data_size (fs ! i))) 0) its) \<and>
    wheap w' = wheap w \<and>
    (\<forall>p n. outside fs dest (fixed_count_at denv depth) p n \<longrightarrow> load_bytes (wmem w') p n = load_bytes (wmem w) p n)"
proof -
  let ?slot = "fixed_count_at denv depth"
  let ?w0 = "put_size ?slot 0 (flat_defaults fs dest [0 ..< length fs] w)"
  let ?w = "item_world env fs dest its ?w0"
  have "length (concat (map f (filter P its))) \<le> length (concat (map f its))" for f :: "item \<Rightarrow> u8 list" and P
    by (induction its) auto
  then have l: "length (concat (map (item_bytes env fs) (filter is_known its))) < 18446744073709551616"
    by (rule le_less_trans) (use assms(6) in simp)
  have ok: "list_all (item_ok fs) (filter is_known its)" using assms(4) by (simp add: list_all_iff)
  have field: "load_bytes (wmem ?w) (pData (iter_at fs dest i)) (unat (data_size (fs ! i))) =
      last_value env fs i (replicate (unat (data_size (fs ! i))) 0) its" if "i < length fs" for i
    by (rule item_world_field [OF assms(1,3,4) that flat_defaults_field [OF assms(1,3) that]]) (use assms(5) in blast)
  have inside: "writes_inside fs dest ?slot w ?w"
    by (rule writes_inside_trans [OF defaults_inside [OF assms(1)] item_world_inside [OF assms(1,4)]])
  from items_decode [OF assms(1-3) ok l, of depth denv w] items_decode [OF assms(1-4), of env depth denv w] assms(6)
  obtain s s' where "pb_decode (Suc depth) denv (bytes_stream (concat (map (item_bytes env fs) its))) fs dest w = Some (True, s, ?w)"
    "bytes_left s = 0"
    "pb_decode (Suc depth) denv (bytes_stream (concat (map (item_bytes env fs) (filter is_known its)))) fs dest w = Some (True, s', ?w)"
    "bytes_left s' = 0" by (auto simp: item_world_known)
  with field inside show ?thesis
    unfolding writes_inside_def by (intro exI [of _ s] exI [of _ s'] exI [of _ ?w] conjI allI impI) blast+
qed

text \<open>
  C2. On any bytes whatever, \<open>pb_decode\<close> of a message of scalars returns: it neither loops nor
  follows a null pointer. It does not read past the end of the stream, leaves the heap alone, and changes
  no memory outside the fields of the message and its own counter, whether it succeeds or not.
\<close>

theorem pb_decode_any_input:
  assumes "flat_message fs" "fs \<noteq> []" "dest \<noteq> 0" "istream_ok s"
  shows "\<exists>ok s' w'. pb_decode (Suc depth) denv s fs dest w = Some (ok, s', w') \<and> within s s' \<and> wheap w' = wheap w \<and>
    (\<forall>p n. outside fs dest (fixed_count_at denv depth) p n \<longrightarrow> load_bytes (wmem w') p n = load_bytes (wmem w) p n)"
proof -
  let ?slot = "fixed_count_at denv depth" and ?w = "flat_defaults fs dest [0 ..< length fs] w"
  let ?st = "\<lparr>nstream = s, nworld = put_size ?slot 0 ?w, niter = snd (pb_field_iter_begin fs dest),
    fields_seen = [0, 0], extension_range_start = 0, fixed_count_field = None\<rparr>"
  let ?noinit = "\<lambda>stream fs dest w. pb_decode_noinit depth denv stream fs dest w"
  let ?decode = "decode_body depth denv ?noinit"
  have "snd (pb_field_iter_begin fs dest) = iter_at fs dest 0" by simp
  then have "flat_state fs dest ?st" using assms(2,4) unfolding flat_state_def by (auto simp del: iter_at.simps)
  from loop_safe [OF assms(1,3) this, of depth denv ?decode ?noinit ?slot]
  obtain ex st' where l: "noinit_loop depth denv ?decode ?noinit ?st = Some (ex, st')" "ex = Leave \<or> (\<exists>ok. ex = Return ok)"
    "flat_state fs dest st'" "within s (nstream st')" "writes_inside fs dest ?slot (put_size ?slot 0 ?w) (nworld st')"
    by (auto simp: safe_from_def)
  have "\<not> wrong_fixed_count denv depth st'" "required_seen (niter st') (fields_seen st')"
    using l(3) flat_required [OF assms(1,3)] by (auto simp: flat_state_def wrong_fixed_count_def)
  then obtain ok where "pb_decode_noinit (Suc depth) denv s fs dest ?w = Some (ok, nstream st', nworld st')"
    using l(1,2) by (auto simp: noinit_body_def)
  then have "pb_decode (Suc depth) denv s fs dest w = Some (ok, nstream st', nworld st')"
    by (cases ok) (simp_all add: pb_decode_def decode_body_def flat_message_defaults [OF assms(1,3)] flat_release [OF assms(1-3)]
        del: pb_decode_noinit.simps)
  moreover have "writes_inside fs dest ?slot w (nworld st')"
    by (rule writes_inside_trans [OF defaults_inside [OF assms(1)] l(5)])
  ultimately show ?thesis using l(4) by (auto simp: writes_inside_def)
qed

text \<open>A message with an \<open>int32_t\<close> of 300, a boolean, and an \<open>sint32\<close> of -2.\<close>

definition flat_demo_fields :: pb_fields where
  "flat_demo_fields =
     [\<lparr>tag = 1, type = 0x11, data_offset = 0, size_offset = 0, data_size = 4, array_size = 0, ptr = 0\<rparr>,
      \<lparr>tag = 2, type = 0x10, data_offset = 0, size_offset = 0, data_size = 1, array_size = 0, ptr = 0\<rparr>,
      \<lparr>tag = 3, type = 0x13, data_offset = 3, size_offset = 0, data_size = 4, array_size = 0, ptr = 0\<rparr>]"

definition flat_demo_env :: "out_buffer pb_env" where
  "flat_demo_env = \<lparr>mem = (\<lambda>p. if p = 4096 then 0x2c else if p = 4097 \<or> p = 4100 then 1 else if p = 4104 then 0xfe
       else if p = 4105 \<or> p = 4106 \<or> p = 4107 then 0xff else 0),
     fields_at = (\<lambda>p. []), user_encode = (\<lambda>f s field arg. None), extension_encode = (\<lambda>f s e. None), indeterminate = 0\<rparr>"

definition flat_demo_denv :: "(unit, unit) pb_denv" where
  "flat_demo_denv = \<lparr>pb_realloc = (\<lambda>w p n. (0, w)), pb_free = (\<lambda>w p. w), dfields_at = (\<lambda>p. []),
     user_decode = (\<lambda>f s field arg w. None), extension_decode = (\<lambda>f s e t wt w. None), fixed_count_at = (\<lambda>d. 512)\<rparr>"

lemma flat_demo_wire:
  "wire_message (Suc (Suc 0)) flat_demo_env flat_demo_fields 4096 = Some (Some [0x08, 0xac, 0x02, 0x10, 1, 0x18, 3])"
  by code_simp

lemma flat_demo_ok: "flat_message flat_demo_fields"
  by code_simp

lemma flat_demo_images:
  "pData (iter_at flat_demo_fields 8192 0) = 8192" "pData (iter_at flat_demo_fields 8192 1) = 8196"
  "pData (iter_at flat_demo_fields 8192 2) = 8200" "data_size (flat_demo_fields ! 0) = 4"
  "data_size (flat_demo_fields ! 1) = 1" "data_size (flat_demo_fields ! 2) = 4"
  "scalar_image (mem flat_demo_env) (flat_demo_fields ! 0) (pData (iter_at flat_demo_fields 4096 0)) = [0x2c, 1, 0, 0]"
  "scalar_image (mem flat_demo_env) (flat_demo_fields ! 1) (pData (iter_at flat_demo_fields 4096 1)) = [1]"
  "scalar_image (mem flat_demo_env) (flat_demo_fields ! 2) (pData (iter_at flat_demo_fields 4096 2)) = [0xfe, 0xff, 0xff, 0xff]"
  by code_simp+

lemma flat_demo_apart:
  "\<forall>i<length flat_demo_fields. apart (pData (iter_at flat_demo_fields 8192 i)) (unat (data_size (flat_demo_fields ! i)))
     (fixed_count_at flat_demo_denv 0) 4"
proof (intro allI impI)
  fix i
  assume "i < length flat_demo_fields"
  then have "i = 0 \<or> i = 1 \<or> i = 2" by (simp add: flat_demo_fields_def) linarith
  then show "apart (pData (iter_at flat_demo_fields 8192 i)) (unat (data_size (flat_demo_fields ! i))) (fixed_count_at flat_demo_denv 0) 4"
    using flat_demo_images(1-6) by (elim disjE) (simp_all add: apart_def flat_demo_denv_def del: iter_at.simps)
qed

theorem pb_message_roundtrip_witness:
  "\<exists>s s' w'. pb_encode (Suc (Suc 0)) flat_demo_env (pb_ostream_from_buffer (replicate 16 0) (word_of_nat (length (replicate 16 (0 :: u8)))))
      flat_demo_fields 4096 = Some (True, s) \<and>
    pb_decode (Suc 0) flat_demo_denv (pb_istream_from_buffer (buffer_of s) (bytes_written s)) flat_demo_fields 8192
      \<lparr>wmem = (\<lambda>p. 7), wheap = ()\<rparr> = Some (True, s', w') \<and>
    load_bytes (wmem w') 8192 4 = [0x2c, 1, 0, 0] \<and> load_bytes (wmem w') 8196 1 = [1] \<and>
    load_bytes (wmem w') 8200 4 = [0xfe, 0xff, 0xff, 0xff]"
proof -
  let ?buf = "replicate 16 (0 :: u8)"
  obtain s where s: "pb_encode (Suc (Suc 0)) flat_demo_env (pb_ostream_from_buffer ?buf (word_of_nat (length ?buf))) flat_demo_fields 4096 = Some (True, s)"
    using emits_from_buffer(1) [OF emits_message [OF flat_demo_wire], of ?buf] by (auto simp del: pb_encode.simps)
  have "length ?buf < 2 ^ 63" by simp
  from pb_message_roundtrip [OF flat_demo_ok _ flat_demo_apart this s, of "\<lparr>wmem = (\<lambda>p. 7), wheap = ()\<rparr>"]
  obtain s' w' where d: "pb_decode (Suc 0) flat_demo_denv (pb_istream_from_buffer (buffer_of s) (bytes_written s)) flat_demo_fields 8192
      \<lparr>wmem = (\<lambda>p. 7), wheap = ()\<rparr> = Some (True, s', w')"
    and f: "\<And>i. i < length flat_demo_fields \<Longrightarrow> load_bytes (wmem w') (pData (iter_at flat_demo_fields 8192 i)) (unat (data_size (flat_demo_fields ! i))) =
      scalar_image (mem flat_demo_env) (flat_demo_fields ! i) (pData (iter_at flat_demo_fields 4096 i))"
    by auto
  have "length flat_demo_fields = 3" by (simp add: flat_demo_fields_def)
  then show ?thesis using s d f [of 0] f [of 1] f [of 2] unfolding flat_demo_images by auto
qed


text \<open>
  Between the fields of the message come field 9, a string of two bytes, and field 4, a 32-bit number;
  field 2 comes twice, first as true and then as false.
\<close>

definition demo_items :: "item list" where
  "demo_items = [Known 1 4100, Unknown 9 PB_WT_STRING [2, 0x61, 0x62], Known 2 4104, Unknown 4 PB_WT_32BIT [1, 2, 3, 4], Known 1 5000]"

lemma demo_items_ok: "list_all (item_ok flat_demo_fields) demo_items"
proof -
  have "then_spec varint32_value (\<lambda>n. skip_bytes_spec (unat n)) (2 # 0x61 # 0x62 # rest) = Some ((), rest)" for rest
    using skip_delimited [of "[0x61, 0x62]" rest] by (simp add: varint.simps)
  then have "skippable PB_WT_STRING [2, 0x61, 0x62]" "skippable PB_WT_32BIT [1, 2, 3, 4]"
    by (simp_all add: skippable_def skip_field_spec_def skip_bytes_spec_def PB_WT_defs)
  then show ?thesis by (simp add: demo_items_def flat_demo_fields_def PB_WT_defs)
qed

lemma demo_items_bytes:
  "concat (map (item_bytes flat_demo_env flat_demo_fields) demo_items) =
     [0x10, 1, 0x4a, 2, 0x61, 0x62, 0x18, 3, 0x25, 1, 2, 3, 4, 0x10, 0]"
  "concat (map (item_bytes flat_demo_env flat_demo_fields) (filter is_known demo_items)) = [0x10, 1, 0x18, 3, 0x10, 0]"
  "last_value flat_demo_env flat_demo_fields 0 (replicate 4 0) demo_items = [0, 0, 0, 0]"
  "last_value flat_demo_env flat_demo_fields 1 (replicate 1 0) demo_items = [0]"
  "last_value flat_demo_env flat_demo_fields 2 (replicate 4 0) demo_items = [0xfe, 0xff, 0xff, 0xff]"
  by code_simp+

theorem pb_decode_ignores_unknown_witness:
  "\<exists>s s' w'. pb_decode (Suc 0) flat_demo_denv
      (bytes_stream [0x10, 1, 0x4a, 2, 0x61, 0x62, 0x18, 3, 0x25, 1, 2, 3, 4, 0x10, 0]) flat_demo_fields 8192
      \<lparr>wmem = (\<lambda>p. 7), wheap = ()\<rparr> = Some (True, s, w') \<and> bytes_left s = 0 \<and>
    pb_decode (Suc 0) flat_demo_denv (bytes_stream [0x10, 1, 0x18, 3, 0x10, 0]) flat_demo_fields 8192
      \<lparr>wmem = (\<lambda>p. 7), wheap = ()\<rparr> = Some (True, s', w') \<and> bytes_left s' = 0 \<and>
    load_bytes (wmem w') 8192 4 = [0, 0, 0, 0] \<and> load_bytes (wmem w') 8196 1 = [0] \<and>
    load_bytes (wmem w') 8200 4 = [0xfe, 0xff, 0xff, 0xff]"
proof -
  have ne: "flat_demo_fields \<noteq> []" by (simp add: flat_demo_fields_def)
  have n: "length flat_demo_fields = 3" by (simp add: flat_demo_fields_def)
  from pb_decode_ignores_unknown [OF flat_demo_ok ne _ demo_items_ok flat_demo_apart, of flat_demo_env "\<lparr>wmem = (\<lambda>p. 7), wheap = ()\<rparr>"]
  obtain s s' w' where w': "pb_decode (Suc 0) flat_demo_denv
      (bytes_stream [0x10, 1, 0x4a, 2, 0x61, 0x62, 0x18, 3, 0x25, 1, 2, 3, 4, 0x10, 0]) flat_demo_fields 8192
      \<lparr>wmem = (\<lambda>p. 7), wheap = ()\<rparr> = Some (True, s, w')" "bytes_left s = 0"
    "pb_decode (Suc 0) flat_demo_denv (bytes_stream [0x10, 1, 0x18, 3, 0x10, 0]) flat_demo_fields 8192
      \<lparr>wmem = (\<lambda>p. 7), wheap = ()\<rparr> = Some (True, s', w')" "bytes_left s' = 0"
    and f: "\<And>i. i < length flat_demo_fields \<Longrightarrow> load_bytes (wmem w') (pData (iter_at flat_demo_fields 8192 i)) (unat (data_size (flat_demo_fields ! i))) =
      last_value flat_demo_env flat_demo_fields i (replicate (unat (data_size (flat_demo_fields ! i))) 0) demo_items"
    unfolding demo_items_bytes by auto
  have "load_bytes (wmem w') 8192 4 = [0, 0, 0, 0]" "load_bytes (wmem w') 8196 1 = [0]" "load_bytes (wmem w') 8200 4 = [0xfe, 0xff, 0xff, 0xff]"
    using f [of 0] f [of 1] f [of 2] demo_items_bytes(3-5) unfolding n flat_demo_images(1-6) by simp_all
  with w' show ?thesis by blast
qed

text \<open>A stream with an endless tag, a field of the message, and the beginning of another one.\<close>

lemma demo_outside: "outside flat_demo_fields 8192 (fixed_count_at flat_demo_denv 0) 9000 8"
proof -
  have "apart 9000 8 (pData (iter_at flat_demo_fields 8192 i)) (unat (data_size (flat_demo_fields ! i)))"
    if "i < length flat_demo_fields" for i
  proof -
    have "i = 0 \<or> i = 1 \<or> i = 2" using that by (simp add: flat_demo_fields_def) linarith
    then show ?thesis using flat_demo_images(1-6) by (elim disjE) (simp_all add: apart_def del: iter_at.simps)
  qed
  then show ?thesis by (simp add: outside_def apart_def flat_demo_denv_def del: iter_at.simps)
qed

theorem pb_decode_any_input_witness:
  "\<exists>ok s' w'. pb_decode (Suc 0) flat_demo_denv (bytes_stream [0x08, 0x05, 0x18, 0x80, 0xff, 0xff]) flat_demo_fields 8192
      \<lparr>wmem = (\<lambda>p. 7), wheap = ()\<rparr> = Some (ok, s', w') \<and> load_bytes (wmem w') 9000 8 = replicate 8 7"
proof -
  have "flat_demo_fields \<noteq> []" by (simp add: flat_demo_fields_def)
  have "istream_ok (bytes_stream [0x08, 0x05, 0x18, 0x80, 0xff, 0xff] :: unit pb_istream_t)"
    by (rule bytes_stream_facts(1)) simp
  from pb_decode_any_input [OF flat_demo_ok \<open>flat_demo_fields \<noteq> []\<close> _ this, of 8192 0 flat_demo_denv "\<lparr>wmem = (\<lambda>p. 7), wheap = ()\<rparr>"]
    demo_outside
  obtain ok s' w' where "pb_decode (Suc 0) flat_demo_denv (bytes_stream [0x08, 0x05, 0x18, 0x80, 0xff, 0xff]) flat_demo_fields 8192
      \<lparr>wmem = (\<lambda>p. 7), wheap = ()\<rparr> = Some (ok, s', w')" "load_bytes (wmem w') 9000 8 = load_bytes (\<lambda>p. 7) 9000 8"
    by auto
  moreover have "load_bytes (\<lambda>p. 7) 9000 8 = replicate 8 7" by code_simp
  ultimately show ?thesis by auto
qed

end
