(* ===== verification/Compare.thy ===== *)
theory Compare
  imports Prelude "HOL-Library.Multiset"
begin

text \<open>
  Comparison functions as the C library and the containers of BoringSSL take them: an
  \<open>int\<close> whose sign orders the two arguments.
\<close>

section \<open>Consistent comparisons\<close>

text \<open>On the set \<open>A\<close> swapping the arguments swaps the sign, and the order is transitive.\<close>

definition consistent :: "('a \<Rightarrow> 'a \<Rightarrow> int) \<Rightarrow> 'a set \<Rightarrow> bool" where
  "consistent cmp A \<longleftrightarrow> (\<forall>a\<in>A. \<forall>b\<in>A. (0 < cmp b a \<longleftrightarrow> cmp a b < 0)) \<and>
     (\<forall>a\<in>A. \<forall>b\<in>A. \<forall>c\<in>A. cmp a b \<le> 0 \<longrightarrow> cmp b c \<le> 0 \<longrightarrow> cmp a c \<le> 0)"

abbreviation ascending :: "('a \<Rightarrow> 'a \<Rightarrow> int) \<Rightarrow> 'a list \<Rightarrow> bool" where
  "ascending cmp xs \<equiv> sorted_wrt (\<lambda>a b. cmp a b \<le> 0) xs"

lemma consistent_subset: "consistent cmp A \<Longrightarrow> B \<subseteq> A \<Longrightarrow> consistent cmp B"
  unfolding consistent_def by blast

lemma consistent_map: "consistent cmp A \<Longrightarrow> consistent (\<lambda>p q. cmp (f p) (f q)) {p. f p \<in> A}"
  unfolding consistent_def by blast

locale comparison =
  fixes cmp :: "'a \<Rightarrow> 'a \<Rightarrow> int" and A :: "'a set"
  assumes cmp_consistent: "consistent cmp A"
begin

lemma cmp_swap: "a \<in> A \<Longrightarrow> b \<in> A \<Longrightarrow> 0 < cmp b a \<longleftrightarrow> cmp a b < 0"
  using cmp_consistent by (simp add: consistent_def)

lemma cmp_trans: "a \<in> A \<Longrightarrow> b \<in> A \<Longrightarrow> c \<in> A \<Longrightarrow> cmp a b \<le> 0 \<Longrightarrow> cmp b c \<le> 0 \<Longrightarrow> cmp a c \<le> 0"
  using cmp_consistent unfolding consistent_def by blast

lemma cmp_not_less: "a \<in> A \<Longrightarrow> b \<in> A \<Longrightarrow> \<not> cmp a b < 0 \<longleftrightarrow> cmp b a \<le> 0"
  using cmp_swap [of a b] by linarith

lemma cmp_refl: "a \<in> A \<Longrightarrow> cmp a a \<le> 0"
  using cmp_not_less [of a a] by linarith

lemma cmp_less: "a \<in> A \<Longrightarrow> b \<in> A \<Longrightarrow> cmp a b < 0 \<Longrightarrow> cmp a b \<le> 0 \<and> 0 < cmp b a"
  using cmp_swap [of a b] by simp

text \<open>An argument compared with the elements of an ascending list: first greater, then equal, then less.\<close>

lemma ascending_nth:
  "ascending cmp xs \<Longrightarrow> set xs \<subseteq> A \<Longrightarrow> i \<le> j \<Longrightarrow> j < length xs \<Longrightarrow> cmp (xs ! i) (xs ! j) \<le> 0"
  by (cases "i = j") (auto simp: sorted_wrt_iff_nth_less intro!: cmp_refl)

lemma above_mono:
  assumes "ascending cmp xs" "insert p (set xs) \<subseteq> A" "i \<le> j" "j < length xs" "0 < cmp p (xs ! j)"
  shows "0 < cmp p (xs ! i)"
proof -
  have in_A: "p \<in> A" "xs ! i \<in> A" "xs ! j \<in> A" using assms(2-4) by (auto simp: subset_iff)
  have "cmp (xs ! i) (xs ! j) \<le> 0" using assms by (intro ascending_nth) auto
  moreover have "\<not> cmp p (xs ! j) \<le> 0" using assms(5) by simp
  ultimately have "\<not> cmp p (xs ! i) \<le> 0" using cmp_trans in_A by blast
  then show ?thesis by simp
qed

lemma below_mono:
  assumes "ascending cmp xs" "insert p (set xs) \<subseteq> A" "i \<le> j" "j < length xs" "cmp p (xs ! i) < 0"
  shows "cmp p (xs ! j) < 0"
proof -
  have in_A: "p \<in> A" "xs ! i \<in> A" "xs ! j \<in> A" using assms(2-4) by (auto simp: subset_iff)
  have le: "cmp (xs ! i) (xs ! j) \<le> 0" using assms by (intro ascending_nth) auto
  have "\<not> cmp (xs ! i) p \<le> 0" using assms(5) cmp_swap [OF in_A(1,2)] by simp
  then have "\<not> cmp (xs ! j) p \<le> 0" using cmp_trans [OF in_A(2,3,1) le] by blast
  then show ?thesis using cmp_swap [OF in_A(1,3)] by simp
qed

end

end
