(* ===== verification/Stack.thy ===== *)
theory Stack
  imports Mem Compare
begin

text \<open>
  The growable arrays of pointers of crypto/stack/stack.c. A \<open>void *\<close> is a number and 0 the
  null pointer; \<open>None\<close> is a null \<open>OPENSSL_STACK *\<close>. The comparison function of a stack is
  called through the wrapper \<open>call_cmp_func\<close> that every caller passes; the other functions
  that callers pass (copy, free, the test of \<open>delete_if\<close>) can change a state of
  the caller, which they take and return. A failed \<open>assert\<close> is \<open>None\<close>.
\<close>

section \<open>State\<close>

type_synonym ptr = u64

type_synonym cmp_func = "ptr \<Rightarrow> ptr \<Rightarrow> int"

type_synonym call_cmp = "cmp_func \<Rightarrow> ptr \<Rightarrow> ptr \<Rightarrow> int"

record OPENSSL_STACK =
  num :: size_t
  sk_data :: "ptr list"
  is_sorted :: bool
  num_alloc :: size_t
  comp :: "cmp_func option"

definition kMinSize :: size_t where
  "kMinSize = 4"

definition INT_MAX :: size_t where
  "INT_MAX = 0x7fffffff"

text \<open>An array of pointers in memory.\<close>

fun bytes_of :: "ptr list \<Rightarrow> u8 list" where
  "bytes_of [] = []"
| "bytes_of (p # ps) = rev (be_bytes 8 (unat p)) @ bytes_of ps"

function ptrs_of :: "u8 list \<Rightarrow> ptr list" where
  "ptrs_of bs = (if length bs < 8 then [] else word_of_nat (be_val (rev (take 8 bs))) # ptrs_of (drop 8 bs))"
  by pat_completeness auto
termination
  by (relation "measure length") auto

declare ptrs_of.simps [simp del]

definition move_ptrs :: "nat \<Rightarrow> nat \<Rightarrow> nat \<Rightarrow> ptr list \<Rightarrow> ptr list" where
  "move_ptrs dst src n p = take dst p @ take n (drop src p) @ drop (dst + n) p"

lemma unat_inc: "(i :: size_t) < n \<Longrightarrow> unat (i + 1) = unat i + 1"
  using le_less_trans [OF _ unat_lt2p [of n], of "unat i + 1"]
  by (subst unat_add_no_wrap) (simp_all add: word_less_nat_alt)

section \<open>Creation and access\<close>

definition OPENSSL_sk_new :: "libc_malloc \<Rightarrow> cmp_func option \<Rightarrow> OPENSSL_STACK option" where
  "OPENSSL_sk_new malloc cmp =
     (case OPENSSL_zalloc malloc 40 of
        None \<Rightarrow> None
      | Some _ \<Rightarrow>
          (case OPENSSL_calloc malloc kMinSize 8 of
             None \<Rightarrow> None
           | Some p \<Rightarrow> Some \<lparr>num = 0, sk_data = ptrs_of p, is_sorted = False, num_alloc = kMinSize, comp = cmp\<rparr>))"

definition OPENSSL_sk_new_null :: "libc_malloc \<Rightarrow> OPENSSL_STACK option" where
  "OPENSSL_sk_new_null malloc = OPENSSL_sk_new malloc None"

definition OPENSSL_sk_num :: "OPENSSL_STACK option \<Rightarrow> size_t" where
  "OPENSSL_sk_num sk = (case sk of None \<Rightarrow> 0 | Some sk \<Rightarrow> num sk)"

definition OPENSSL_sk_zero :: "OPENSSL_STACK option \<Rightarrow> OPENSSL_STACK option" where
  "OPENSSL_sk_zero sk =
     (case sk of
        None \<Rightarrow> None
      | Some sk \<Rightarrow>
          if num sk = 0 then Some sk
          else Some (sk\<lparr>sk_data := replicate (unat (num sk)) 0 @ drop (unat (num sk)) (sk_data sk), num := 0, is_sorted := False\<rparr>))"

definition OPENSSL_sk_value :: "OPENSSL_STACK option \<Rightarrow> size_t \<Rightarrow> ptr" where
  "OPENSSL_sk_value sk i =
     (case sk of None \<Rightarrow> 0 | Some sk \<Rightarrow> if i \<ge> num sk then 0 else sk_data sk ! unat i)"

definition OPENSSL_sk_set :: "OPENSSL_STACK option \<Rightarrow> size_t \<Rightarrow> ptr \<Rightarrow> ptr \<times> OPENSSL_STACK option" where
  "OPENSSL_sk_set sk i v =
     (case sk of
        None \<Rightarrow> (0, None)
      | Some sk \<Rightarrow> if i \<ge> num sk then (0, Some sk) else (v, Some (sk\<lparr>sk_data := (sk_data sk)[unat i := v]\<rparr>)))"

text \<open>The caller's state after the elements have been freed; the stack is gone.\<close>

definition OPENSSL_sk_pop_free_ex :: "OPENSSL_STACK option \<Rightarrow> ('f \<Rightarrow> ptr \<Rightarrow> 's \<Rightarrow> 's) \<Rightarrow> 'f \<Rightarrow> 's \<Rightarrow> 's" where
  "OPENSSL_sk_pop_free_ex sk call_free_func free_func s =
     (case sk of
        None \<Rightarrow> s
      | Some sk \<Rightarrow> fold (\<lambda>i s. if sk_data sk ! i \<noteq> 0 then call_free_func free_func (sk_data sk ! i) s else s)
          [0..<unat (num sk)] s)"

definition sk_pop_free :: "OPENSSL_STACK option \<Rightarrow> (ptr \<Rightarrow> 's \<Rightarrow> 's) \<Rightarrow> 's \<Rightarrow> 's" where
  "sk_pop_free sk free_func s = OPENSSL_sk_pop_free_ex sk (\<lambda>func ptr. func ptr) free_func s"

section \<open>Insertion and deletion\<close>

text \<open>The part of \<open>OPENSSL_sk_insert\<close> that makes room for one more element.\<close>

definition sk_grow :: "libc_malloc \<Rightarrow> OPENSSL_STACK \<Rightarrow> OPENSSL_STACK option" where
  "sk_grow malloc sk =
     (if num_alloc sk \<le> num sk + 1 then
        (let new_alloc = push_bit 1 (num_alloc sk);
             new_alloc = (if new_alloc < num_alloc sk \<or> new_alloc * 8 div 8 \<noteq> new_alloc then num_alloc sk + 1
                          else new_alloc);
             alloc_size = new_alloc * 8
         in if new_alloc < num_alloc sk \<or> alloc_size div 8 \<noteq> new_alloc then None
            else case OPENSSL_realloc malloc (Some (bytes_of (sk_data sk))) alloc_size of
                   None \<Rightarrow> None
                 | Some p \<Rightarrow> Some (sk\<lparr>sk_data := ptrs_of p, num_alloc := new_alloc\<rparr>))
      else Some sk)"

definition OPENSSL_sk_insert :: "libc_malloc \<Rightarrow> OPENSSL_STACK option \<Rightarrow> ptr \<Rightarrow> size_t \<Rightarrow> size_t \<times> OPENSSL_STACK option" where
  "OPENSSL_sk_insert malloc sk p pos =
     (case sk of
        None \<Rightarrow> (0, None)
      | Some sk \<Rightarrow>
          if num sk \<ge> INT_MAX then (0, Some sk)
          else
            (case sk_grow malloc sk of
               None \<Rightarrow> (0, Some sk)
             | Some sk \<Rightarrow>
                 let d = (if pos \<ge> num sk then (sk_data sk)[unat (num sk) := p]
                          else (move_ptrs (unat (pos + 1)) (unat pos) (unat (num sk - pos)) (sk_data sk))[unat pos := p])
                 in (num sk + 1, Some (sk\<lparr>sk_data := d, num := num sk + 1, is_sorted := False\<rparr>))))"

definition OPENSSL_sk_delete :: "OPENSSL_STACK option \<Rightarrow> size_t \<Rightarrow> ptr \<times> OPENSSL_STACK option" where
  "OPENSSL_sk_delete sk pos =
     (case sk of
        None \<Rightarrow> (0, None)
      | Some sk \<Rightarrow>
          if pos \<ge> num sk then (0, Some sk)
          else
            let d = (if pos \<noteq> num sk - 1
                     then move_ptrs (unat pos) (unat (pos + 1)) (unat (num sk - pos - 1)) (sk_data sk)
                     else sk_data sk)
            in (sk_data sk ! unat pos, Some (sk\<lparr>sk_data := d, num := num sk - 1\<rparr>)))"

text \<open>The loop \<open>for (i = 0; i < sk->num; i++) if (f(sk->data[i])) return i;\<close> from \<open>i\<close> on.\<close>

function search_loop :: "(ptr \<Rightarrow> bool) \<Rightarrow> OPENSSL_STACK \<Rightarrow> size_t \<Rightarrow> size_t option" where
  "search_loop f sk i =
     (if i < num sk then (if f (sk_data sk ! unat i) then Some i else search_loop f sk (i + 1)) else None)"
  by pat_completeness auto
termination
proof (relation "measure (\<lambda>(f, sk, i). unat (num sk) - unat i)")
  fix f sk i
  assume "i < num sk"
  then have "unat (i + 1) = unat i + 1" by (simp add: unat_inc)
  with \<open>i < num sk\<close> show "((f, sk, i + 1), f, sk, i) \<in> measure (\<lambda>(f, sk, i). unat (num sk) - unat i)"
    by (simp add: word_less_nat_alt)
qed simp

declare search_loop.simps [simp del]

definition OPENSSL_sk_delete_ptr :: "OPENSSL_STACK option \<Rightarrow> ptr \<Rightarrow> ptr \<times> OPENSSL_STACK option" where
  "OPENSSL_sk_delete_ptr sk p =
     (case sk of
        None \<Rightarrow> (0, None)
      | Some sk \<Rightarrow>
          (case search_loop (\<lambda>q. q = p) sk 0 of
             None \<Rightarrow> (0, Some sk)
           | Some i \<Rightarrow> OPENSSL_sk_delete (Some sk) i))"

text \<open>The loop of \<open>OPENSSL_sk_delete_if\<close> over the indices: the array, \<open>new_num\<close>, and the caller's data.\<close>

fun delete_if_loop :: "(ptr \<Rightarrow> 's \<Rightarrow> bool \<times> 's) \<Rightarrow> nat list \<Rightarrow> ptr list \<times> nat \<times> 's \<Rightarrow> ptr list \<times> nat \<times> 's" where
  "delete_if_loop f [] (d, new_num, s) = (d, new_num, s)"
| "delete_if_loop f (i # is) (d, new_num, s) =
     (case f (d ! i) s of
        (True, s) \<Rightarrow> delete_if_loop f is (d, new_num, s)
      | (False, s) \<Rightarrow> delete_if_loop f is (d[new_num := d ! i], new_num + 1, s))"

definition OPENSSL_sk_delete_if ::
  "OPENSSL_STACK option \<Rightarrow> ('f \<Rightarrow> ptr \<Rightarrow> 's \<Rightarrow> bool \<times> 's) \<Rightarrow> 'f \<Rightarrow> 's \<Rightarrow> OPENSSL_STACK option \<times> 's" where
  "OPENSSL_sk_delete_if sk call_func func s =
     (case sk of
        None \<Rightarrow> (None, s)
      | Some sk \<Rightarrow>
          (case delete_if_loop (call_func func) [0..<unat (num sk)] (sk_data sk, 0, s) of
             (d, new_num, s) \<Rightarrow> (Some (sk\<lparr>sk_data := d, num := word_of_nat new_num\<rparr>), s)))"

definition OPENSSL_sk_shift :: "OPENSSL_STACK option \<Rightarrow> ptr \<times> OPENSSL_STACK option" where
  "OPENSSL_sk_shift sk =
     (case sk of None \<Rightarrow> (0, None) | Some sk' \<Rightarrow> if num sk' = 0 then (0, sk) else OPENSSL_sk_delete sk 0)"

definition OPENSSL_sk_push :: "libc_malloc \<Rightarrow> OPENSSL_STACK \<Rightarrow> ptr \<Rightarrow> size_t \<times> OPENSSL_STACK option" where
  "OPENSSL_sk_push malloc sk p = OPENSSL_sk_insert malloc (Some sk) p (num sk)"

definition OPENSSL_sk_pop :: "OPENSSL_STACK option \<Rightarrow> ptr \<times> OPENSSL_STACK option" where
  "OPENSSL_sk_pop sk =
     (case sk of None \<Rightarrow> (0, None) | Some sk' \<Rightarrow> if num sk' = 0 then (0, sk) else OPENSSL_sk_delete sk (num sk' - 1))"

section \<open>Search\<close>

definition OPENSSL_sk_is_sorted :: "OPENSSL_STACK option \<Rightarrow> bool" where
  "OPENSSL_sk_is_sorted sk =
     (case sk of None \<Rightarrow> True | Some sk \<Rightarrow> is_sorted sk \<or> (comp sk \<noteq> None \<and> num sk < 2))"

text \<open>The binary search between \<open>lo\<close> and \<open>hi\<close>; its assertions are \<open>None\<close> at the outer option.\<close>

function binary_search :: "(ptr \<Rightarrow> int) \<Rightarrow> ptr list \<Rightarrow> size_t \<Rightarrow> size_t \<Rightarrow> size_t option option" where
  "binary_search f d lo hi =
     (if lo < hi then
        (let mid = lo + (hi - lo - 1) div 2; r = f (d ! unat mid) in
         if \<not> (lo \<le> mid \<and> mid < hi) then None
         else if r > 0 then binary_search f d (mid + 1) hi
         else if r < 0 then binary_search f d lo mid
         else if hi - lo = 1 then Some (Some mid)
         else if \<not> mid + 1 < hi then None
         else binary_search f d lo (mid + 1))
      else if lo = hi then Some None else None)"
  by pat_completeness auto

termination
proof (relation "measure (\<lambda>(f, d, lo, hi). unat hi - unat lo)", goal_cases)
  case (2 f d lo hi mid r)
  then have "mid < hi" by simp
  then have "unat (mid + 1) = unat mid + 1" by (rule unat_inc)
  moreover have "unat lo \<le> unat mid" "unat mid < unat hi" using 2 by (simp_all add: word_less_nat_alt word_le_nat_alt)
  ultimately show ?case by simp
next
  case (3 f d lo hi mid r)
  then have "unat lo \<le> unat mid" "unat mid < unat hi" by (simp_all add: word_less_nat_alt word_le_nat_alt)
  then show ?case by simp
next
  case (4 f d lo hi mid r)
  then have "unat lo < unat hi" "unat (mid + 1) < unat hi" by (simp_all add: word_less_nat_alt)
  then show ?case by simp
qed simp

declare binary_search.simps [simp del]

definition OPENSSL_sk_find :: "OPENSSL_STACK option \<Rightarrow> ptr \<Rightarrow> call_cmp \<Rightarrow> size_t option option" where
  "OPENSSL_sk_find sk p call_cmp_func =
     (case sk of
        None \<Rightarrow> Some None
      | Some sk \<Rightarrow>
          (case comp sk of
             None \<Rightarrow> Some (search_loop (\<lambda>q. q = p) sk 0)
           | Some c \<Rightarrow>
               if p = 0 then Some None
               else if \<not> OPENSSL_sk_is_sorted (Some sk) then Some (search_loop (\<lambda>q. call_cmp_func c p q = 0) sk 0)
               else binary_search (call_cmp_func c p) (sk_data sk) 0 (num sk)))"

section \<open>Copies\<close>

definition OPENSSL_sk_dup :: "libc_malloc \<Rightarrow> OPENSSL_STACK option \<Rightarrow> OPENSSL_STACK option" where
  "OPENSSL_sk_dup malloc sk =
     (case sk of
        None \<Rightarrow> None
      | Some sk \<Rightarrow>
          (case OPENSSL_zalloc malloc 40 of
             None \<Rightarrow> None
           | Some _ \<Rightarrow>
               (case OPENSSL_memdup malloc (bytes_of (sk_data sk)) (8 * num_alloc sk) of
                  None \<Rightarrow> None
                | Some p \<Rightarrow> Some \<lparr>num = num sk, sk_data = ptrs_of p, is_sorted = is_sorted sk,
                    num_alloc = num_alloc sk, comp = comp sk\<rparr>)))"

text \<open>The loop that frees the first \<open>i\<close> copies, and the one that makes the copies.\<close>

definition free_copies :: "('f \<Rightarrow> ptr \<Rightarrow> 's \<Rightarrow> 's) \<Rightarrow> 'f \<Rightarrow> ptr list \<Rightarrow> nat \<Rightarrow> 's \<Rightarrow> 's" where
  "free_copies call_free_func free_func d i s =
     fold (\<lambda>j s. if d ! j \<noteq> 0 then call_free_func free_func (d ! j) s else s) [0..<i] s"

fun copy_loop :: "(ptr \<Rightarrow> 's \<Rightarrow> ptr \<times> 's) \<Rightarrow> (ptr list \<Rightarrow> nat \<Rightarrow> 's \<Rightarrow> 's) \<Rightarrow> nat list \<Rightarrow> ptr list \<Rightarrow> 's \<Rightarrow> ptr list option \<times> 's" where
  "copy_loop copy clean [] d s = (Some d, s)"
| "copy_loop copy clean (i # is) d s =
     (if d ! i = 0 then copy_loop copy clean is d s
      else case copy (d ! i) s of
             (p, s) \<Rightarrow> if p = 0 then (None, clean d i s) else copy_loop copy clean is (d[i := p]) s)"

definition OPENSSL_sk_deep_copy ::
  "libc_malloc \<Rightarrow> OPENSSL_STACK option \<Rightarrow> ('c \<Rightarrow> ptr \<Rightarrow> 's \<Rightarrow> ptr \<times> 's) \<Rightarrow> 'c \<Rightarrow> ('f \<Rightarrow> ptr \<Rightarrow> 's \<Rightarrow> 's) \<Rightarrow> 'f \<Rightarrow> 's \<Rightarrow>
     OPENSSL_STACK option \<times> 's" where
  "OPENSSL_sk_deep_copy malloc sk call_copy_func copy_func call_free_func free_func s =
     (case OPENSSL_sk_dup malloc sk of
        None \<Rightarrow> (None, s)
      | Some ret \<Rightarrow>
          (case copy_loop (call_copy_func copy_func) (free_copies call_free_func free_func) [0..<unat (num ret)] (sk_data ret) s of
             (None, s) \<Rightarrow> (None, s)
           | (Some d, s) \<Rightarrow> (Some (ret\<lparr>sk_data := d\<rparr>), s)))"

section \<open>Heap sort\<close>

definition PTRDIFF_MAX :: size_t where
  "PTRDIFF_MAX = 0x7fffffffffffffff"

definition parent_idx :: "size_t \<Rightarrow> size_t option" where
  "parent_idx idx = (if idx > 0 then Some ((idx - 1) div 2) else None)"

definition left_idx :: "size_t \<Rightarrow> size_t option" where
  "left_idx idx = (if idx \<le> PTRDIFF_MAX then Some (2 * idx + 1) else None)"

definition swap_ptrs :: "ptr list \<Rightarrow> nat \<Rightarrow> nat \<Rightarrow> ptr list" where
  "swap_ptrs d i j = d[i := d ! j, j := d ! i]"

text \<open>The larger of the element \<open>i\<close> and its children.\<close>

definition largest_idx :: "cmp_func \<Rightarrow> ptr list \<Rightarrow> size_t \<Rightarrow> size_t \<Rightarrow> size_t \<Rightarrow> size_t" where
  "largest_idx cmp d i left n =
     (let nxt = (if cmp (d ! unat i) (d ! unat left) < 0 then left else i); right = left + 1
      in if right < n \<and> cmp (d ! unat nxt) (d ! unat right) < 0 then right else nxt)"

lemma left_idx_Some: "left_idx i = Some l \<longleftrightarrow> unat i \<le> 9223372036854775807 \<and> unat l = 2 * unat i + 1"
proof -
  have "unat (2 * i + 1) = 2 * unat i + 1" if "unat i \<le> 9223372036854775807"
    using that by (simp add: unat_word_ariths(1,2))
  then show ?thesis
    by (auto simp: left_idx_def PTRDIFF_MAX_def word_le_nat_alt intro: word_unat_eq_iff [THEN iffD2])
qed

lemma largest_idx_cases:
  assumes "left < n"
  obtains "largest_idx cmp d i left n = i" | "largest_idx cmp d i left n = left"
    | "largest_idx cmp d i left n = left + 1" "left + 1 < n"
proof -
  have "largest_idx cmp d i left n \<in> {i, left} \<or> largest_idx cmp d i left n = left + 1 \<and> left + 1 < n"
    by (auto simp: largest_idx_def Let_def)
  then show thesis using that by blast
qed

function down_heap_loop :: "cmp_func \<Rightarrow> ptr list \<Rightarrow> size_t \<Rightarrow> size_t \<Rightarrow> ptr list option" where
  "down_heap_loop cmp d i n =
     (case left_idx i of
        None \<Rightarrow> None
      | Some left \<Rightarrow>
          if left \<ge> n then Some d
          else
            let nxt = largest_idx cmp d i left n
            in if i = nxt then Some d else down_heap_loop cmp (swap_ptrs d (unat i) (unat nxt)) nxt n)"
  by pat_completeness auto
termination
proof (relation "measure (\<lambda>(cmp, d, i, n). unat n - unat i)", goal_cases)
  case (2 cmp d i n left nxt)
  then have l: "unat left = 2 * unat i + 1" "left < n" by (simp_all add: left_idx_Some)
  from l(2) show ?case
    using 2 l unat_inc [OF l(2)]
    by (cases rule: largest_idx_cases [of left n cmp d i]) (auto simp: word_less_nat_alt)
qed simp

declare down_heap_loop.simps [simp del]

definition down_heap :: "OPENSSL_STACK \<Rightarrow> cmp_func \<Rightarrow> size_t \<Rightarrow> size_t \<Rightarrow> OPENSSL_STACK option" where
  "down_heap sk cmp i n =
     (if i < n \<and> n \<le> num sk
      then map_option (\<lambda>d. sk\<lparr>sk_data := d\<rparr>) (down_heap_loop cmp (sk_data sk) i n)
      else None)"

lemma down_heap_num: "down_heap sk cmp i n = Some sk' \<Longrightarrow> num sk' = num sk"
  by (auto simp: down_heap_def split: if_splits)

text \<open>The first loop of the sort counts down and ends when the index wraps around.\<close>

function build_loop :: "cmp_func \<Rightarrow> OPENSSL_STACK \<Rightarrow> size_t \<Rightarrow> OPENSSL_STACK option" where
  "build_loop cmp sk i =
     (if i < num sk then Option.bind (down_heap sk cmp i (num sk)) (\<lambda>sk. build_loop cmp sk (i - 1)) else Some sk)"
  by pat_completeness auto
termination
proof (relation "measure (\<lambda>(cmp, sk, i). if i < num sk then unat i + 1 else 0)", goal_cases)
  case (2 cmp sk i sk')
  then have "num sk' = num sk" by (simp add: down_heap_num)
  moreover have "unat (num sk) \<le> 18446744073709551615" using unat_u64_less [of "num sk"] by linarith
  ultimately show ?case
    using 2 by (cases "i = 0") (auto simp: unat_minus_one word_less_nat_alt not_less unat_gt_0 word_order.extremum)
qed simp

declare build_loop.simps [simp del]

function extract_loop :: "cmp_func \<Rightarrow> OPENSSL_STACK \<Rightarrow> size_t \<Rightarrow> OPENSSL_STACK option" where
  "extract_loop cmp sk i =
     (if i > 0
      then Option.bind (down_heap (sk\<lparr>sk_data := swap_ptrs (sk_data sk) 0 (unat i)\<rparr>) cmp 0 i)
             (\<lambda>sk. extract_loop cmp sk (i - 1))
      else Some sk)"
  by pat_completeness auto
termination
  by (relation "measure (\<lambda>(cmp, sk, i). unat i)") (auto simp: unat_minus_one unat_gt_0)

declare extract_loop.simps [simp del]

definition OPENSSL_sk_sort :: "OPENSSL_STACK option \<Rightarrow> call_cmp \<Rightarrow> OPENSSL_STACK option option" where
  "OPENSSL_sk_sort sk call_cmp_func =
     (case sk of
        None \<Rightarrow> Some None
      | Some sk \<Rightarrow>
          (case comp sk of
             None \<Rightarrow> Some (Some sk)
           | Some c \<Rightarrow>
               if is_sorted sk then Some (Some sk)
               else
                 map_option (\<lambda>sk. Some (sk\<lparr>is_sorted := True\<rparr>))
                   (if num sk \<ge> 2
                    then Option.bind (parent_idx (num sk - 1)) (\<lambda>i.
                           Option.bind (build_loop (call_cmp_func c) sk i) (\<lambda>sk.
                             extract_loop (call_cmp_func c) sk (num sk - 1)))
                    else Some sk)))"

text \<open>The test whether the function is a new one compares two function pointers; its outcome is \<open>differs\<close>.\<close>

definition OPENSSL_sk_set_cmp_func :: "OPENSSL_STACK \<Rightarrow> cmp_func option \<Rightarrow> bool \<Rightarrow> cmp_func option \<times> OPENSSL_STACK" where
  "OPENSSL_sk_set_cmp_func sk cmp differs =
     (comp sk, sk\<lparr>is_sorted := (if differs then False else is_sorted sk), comp := cmp\<rparr>)"

end
