(* ===== verification/Stack_Sort.thy ===== *)
theory Stack_Sort
  imports Stack
begin

text \<open>
  The heap sort and the binary search of stack.c on consistent comparison functions: the sort
  permutes the elements into ascending order, and the search in an ascending stack finds the
  first equal element, as the linear search does.
\<close>

section \<open>Heaps in arrays\<close>

abbreviation parent :: "nat \<Rightarrow> nat" where
  "parent j \<equiv> (j - 1) div 2"

text \<open>The elements below the index \<open>n\<close> whose parent is at \<open>k\<close> or behind are not above it.\<close>

definition heap_ok :: "cmp_func \<Rightarrow> nat \<Rightarrow> nat \<Rightarrow> ptr list \<Rightarrow> bool" where
  "heap_ok cmp k n d \<longleftrightarrow> (\<forall>j<n. 0 < j \<longrightarrow> k \<le> parent j \<longrightarrow> cmp (d ! j) (d ! parent j) \<le> 0)"

text \<open>The same up to the element \<open>i\<close>, which may be too small.\<close>

definition heap_hole :: "cmp_func \<Rightarrow> nat \<Rightarrow> nat \<Rightarrow> nat \<Rightarrow> ptr list \<Rightarrow> bool" where
  "heap_hole cmp k n i d \<longleftrightarrow>
     (\<forall>j<n. 0 < j \<longrightarrow> k \<le> parent j \<longrightarrow> parent j \<noteq> i \<longrightarrow> cmp (d ! j) (d ! parent j) \<le> 0) \<and>
     (0 < i \<longrightarrow> k \<le> parent i \<longrightarrow> (\<forall>j<n. 0 < j \<longrightarrow> parent j = i \<longrightarrow> cmp (d ! j) (d ! parent i) \<le> 0))"

lemma parent_iff: "0 < j \<Longrightarrow> parent j = i \<longleftrightarrow> j = 2 * i + 1 \<or> j = 2 * i + 2"
  by presburger

lemma swap_ptrs_nth:
  "i < length d \<Longrightarrow> j < length d \<Longrightarrow> swap_ptrs d i j ! l = (if l = j then d ! i else if l = i then d ! j else d ! l)"
  by (auto simp: swap_ptrs_def nth_list_update)

lemma length_swap_ptrs [simp]: "length (swap_ptrs d i j) = length d"
  by (simp add: swap_ptrs_def)

lemma mset_swap_ptrs:
  "i < n \<Longrightarrow> j < n \<Longrightarrow> n \<le> length d \<Longrightarrow> mset (take n (swap_ptrs d i j)) = mset (take n d)"
  using mset_swap [of j "take n d" i] by (simp add: swap_ptrs_def take_update_swap)

lemma drop_swap_ptrs: "i < n \<Longrightarrow> j < n \<Longrightarrow> drop n (swap_ptrs d i j) = drop n d"
  by (simp add: swap_ptrs_def)

lemma nth_take_in: "set (take n d) \<subseteq> A \<Longrightarrow> n \<le> length d \<Longrightarrow> j < n \<Longrightarrow> d ! j \<in> A"
  using nth_mem [of j "take n d"] by auto

text \<open>Only the first \<open>n\<close> elements change places.\<close>

definition rearranged :: "nat \<Rightarrow> OPENSSL_STACK \<Rightarrow> OPENSSL_STACK \<Rightarrow> bool" where
  "rearranged n sk sk' \<longleftrightarrow> sk' = sk\<lparr>sk_data := sk_data sk'\<rparr> \<and> length (sk_data sk') = length (sk_data sk) \<and>
     mset (take n (sk_data sk')) = mset (take n (sk_data sk)) \<and> drop n (sk_data sk') = drop n (sk_data sk)"

lemma rearranged_set: "rearranged n sk sk' \<Longrightarrow> set (take n (sk_data sk')) = set (take n (sk_data sk))"
  unfolding rearranged_def by (metis mset_eq_setD)

lemma rearranged_fields:
  "rearranged n sk sk' \<Longrightarrow> num sk' = num sk \<and> length (sk_data sk') = length (sk_data sk) \<and> comp sk' = comp sk \<and>
    num_alloc sk' = num_alloc sk"
  unfolding rearranged_def by (metis OPENSSL_STACK.select_convs OPENSSL_STACK.surjective OPENSSL_STACK.update_convs(2))

lemma rearranged_trans: "rearranged n a b \<Longrightarrow> rearranged n b c \<Longrightarrow> rearranged n a c"
  unfolding rearranged_def by (metis OPENSSL_STACK.select_convs OPENSSL_STACK.surjective OPENSSL_STACK.update_convs(2))

lemma rearranged_wider:
  assumes "rearranged m a b" "m \<le> n"
  shows "rearranged n a b"
proof -
  have d: "take n ys = take m ys @ take (n - m) (drop m ys)" for ys :: "ptr list"
    using assms(2) by (metis le_add_diff_inverse take_add)
  show ?thesis
    using assms by (auto simp: rearranged_def d [of "sk_data a"] d [of "sk_data b"] dest: arg_cong [of _ _ "drop (n - m)"])
qed

locale ptr_comparison = comparison cmp A for cmp :: cmp_func and A :: "ptr set"
begin

lemma largest_spec:
  assumes "unat l = 2 * unat i + 1" "l < n" "unat n \<le> length d" "set (take (unat n) d) \<subseteq> A"
  defines "nxt \<equiv> largest_idx cmp d i l n"
  shows "nxt = i \<or> nxt < n \<and> parent (unat nxt) = unat i \<and> unat i < unat nxt"
    "\<forall>c<unat n. 0 < c \<longrightarrow> parent c = unat i \<longrightarrow> cmp (d ! c) (d ! unat nxt) \<le> 0"
    "nxt \<noteq> i \<longrightarrow> cmp (d ! unat i) (d ! unat nxt) \<le> 0"
proof -
  have in_A: "d ! j \<in> A" if "j < unat n" for j
    using nth_take_in [OF assms(4,3) that] .
  have r: "unat (l + 1) = 2 * unat i + 2" using unat_inc [OF assms(2)] assms(1) by simp
  have ln: "unat l < unat n" using assms(2) by (simp add: word_less_nat_alt)
  then have i: "d ! unat i \<in> A" and l: "d ! unat l \<in> A" using assms(1) by (simp_all add: in_A)
  have rA: "l + 1 < n \<Longrightarrow> d ! unat (l + 1) \<in> A" by (simp add: in_A word_less_nat_alt)
  have kids: "parent c = unat i \<longleftrightarrow> c = unat l \<or> c = unat (l + 1)" if "0 < c" for c
    using parent_iff [OF that] assms(1) r by simp
  show "nxt = i \<or> nxt < n \<and> parent (unat nxt) = unat i \<and> unat i < unat nxt"
    unfolding nxt_def using assms(1,2) r
    by (cases rule: largest_idx_cases [OF assms(2), of cmp d i]) auto
  let ?m = "if cmp (d ! unat i) (d ! unat l) < 0 then l else i"
  have m: "d ! unat ?m \<in> A" "cmp (d ! unat l) (d ! unat ?m) \<le> 0" "cmp (d ! unat i) (d ! unat ?m) \<le> 0"
    using i l cmp_not_less [OF i l] by (auto intro: cmp_refl)
  have nxt: "nxt = (if l + 1 < n \<and> cmp (d ! unat ?m) (d ! unat (l + 1)) < 0 then l + 1 else ?m)"
    by (simp add: nxt_def largest_idx_def Let_def)
  have up: "cmp x (d ! unat nxt) \<le> 0" if "x \<in> A" "cmp x (d ! unat ?m) \<le> 0" for x
    using cmp_trans [OF that(1) m(1)] rA that(2) by (simp add: nxt)
  show "nxt \<noteq> i \<longrightarrow> cmp (d ! unat i) (d ! unat nxt) \<le> 0" using up [OF i m(3)] by simp
  show "\<forall>c<unat n. 0 < c \<longrightarrow> parent c = unat i \<longrightarrow> cmp (d ! c) (d ! unat nxt) \<le> 0"
  proof (intro allI impI)
    fix c
    assume c: "c < unat n" "0 < c" "parent c = unat i"
    then consider "c = unat l" | "c = unat (l + 1)" "l + 1 < n"
      using kids [OF c(2)] by (auto simp: word_less_nat_alt)
    then show "cmp (d ! c) (d ! unat nxt) \<le> 0"
    proof cases
      case 1
      then show ?thesis using up [OF l m(2)] by simp
    next
      case 2
      with rA have "cmp (d ! unat (l + 1)) (d ! unat nxt) \<le> 0"
        using cmp_not_less [OF m(1) rA] by (auto simp: nxt intro: cmp_refl)
      with 2 show ?thesis by simp
    qed
  qed
qed

lemma heap_hole_swap:
  assumes h: "heap_hole cmp k n i d" and k: "k \<le> i" and n: "n \<le> length d" "m < n" and m: "parent m = i" "i < m"
    and big: "\<forall>c<n. 0 < c \<longrightarrow> parent c = i \<longrightarrow> cmp (d ! c) (d ! m) \<le> 0" "cmp (d ! i) (d ! m) \<le> 0"
  shows "heap_hole cmp k n m (swap_ptrs d i m)"
proof -
  note nth = swap_ptrs_nth [of i d m]
  have len: "i < length d" "m < length d" using n m by simp_all
  have "cmp (swap_ptrs d i m ! j) (swap_ptrs d i m ! parent j) \<le> 0"
    if j: "j < n" "0 < j" "k \<le> parent j" "parent j \<noteq> m" for j
  proof -
    have pj: "parent j < j" using j(2) by simp
    consider "j = m" | "j \<noteq> m" "parent j = i" | "j = i" | "j \<noteq> m" "j \<noteq> i" "parent j \<noteq> i" by blast
    then show ?thesis
    proof cases
      case 1
      then show ?thesis using m big(2) by (simp add: nth len)
    next
      case 2
      then show ?thesis using big(1) j pj m(2) by (simp add: nth len)
    next
      case 3
      have "cmp (d ! m) (d ! parent i) \<le> 0" using h 3 j n m by (simp add: heap_hole_def)
      then show ?thesis using 3 j pj m(2) by (simp add: nth len)
    next
      case 4
      then show ?thesis using h j by (simp add: nth len heap_hole_def)
    qed
  qed
  moreover have "cmp (swap_ptrs d i m ! j) (swap_ptrs d i m ! parent m) \<le> 0" if j: "j < n" "0 < j" "parent j = m" for j
  proof -
    have "m < j" using j by auto
    moreover have "cmp (d ! j) (d ! parent j) \<le> 0"
    proof -
      have "k \<le> parent j" "parent j \<noteq> i" using j(3) k m(2) by linarith+
      with h j show ?thesis unfolding heap_hole_def by blast
    qed
    ultimately show ?thesis using j m by (simp add: nth len)
  qed
  ultimately show ?thesis by (simp add: heap_hole_def)
qed

lemma down_heap_loop_spec:
  assumes "unat n \<le> length d" "unat n \<le> 9223372036854775807" "set (take (unat n) d) \<subseteq> A"
    and "i < n" "k \<le> unat i" "heap_hole cmp k (unat n) (unat i) d"
  shows "\<exists>d'. down_heap_loop cmp d i n = Some d' \<and> length d' = length d \<and>
    mset (take (unat n) d') = mset (take (unat n) d) \<and> drop (unat n) d' = drop (unat n) d \<and> heap_ok cmp k (unat n) d'"
  using assms
proof (induction "unat n - unat i" arbitrary: d i rule: less_induct)
  case less
  note prems = less.prems
  have i: "unat i < unat n" using prems(4) by (simp add: word_less_nat_alt)
  then obtain l where l: "left_idx i = Some l" "unat l = 2 * unat i + 1"
    using prems(2) left_idx_Some [of i] by (cases "left_idx i") (auto simp: left_idx_def PTRDIFF_MAX_def word_le_nat_alt)
  show ?case
  proof (cases "l < n")
    case False
    then have "heap_ok cmp k (unat n) d"
      using prems(6) l(2) by (auto simp: heap_ok_def heap_hole_def word_less_nat_alt)
    with False l(1) show ?thesis by (subst down_heap_loop.simps) (simp add: not_less)
  next
    case True
    let ?nxt = "largest_idx cmp d i l n"
    note large = largest_spec [OF l(2) True prems(1,3)]
    have code: "down_heap_loop cmp d i n =
        (if i = ?nxt then Some d else down_heap_loop cmp (swap_ptrs d (unat i) (unat ?nxt)) ?nxt n)"
      using l(1) by (subst down_heap_loop.simps) (simp add: not_le [THEN iffD2, OF True] Let_def)
    show ?thesis
    proof (cases "?nxt = i")
      case True
      have "heap_ok cmp k (unat n) d"
        using prems(6) large(2) True by (auto simp: heap_ok_def heap_hole_def)
      then show ?thesis using True by (simp add: code)
    next
      case False
      let ?d = "swap_ptrs d (unat i) (unat ?nxt)"
      have nxt: "?nxt < n" "parent (unat ?nxt) = unat i" "unat i < unat ?nxt" using large(1) False by blast+
      then have m: "unat ?nxt < unat n" by (simp add: word_less_nat_alt)
      have ms: "mset (take (unat n) ?d) = mset (take (unat n) d)" by (rule mset_swap_ptrs [OF i m prems(1)])
      then have s: "set (take (unat n) ?d) \<subseteq> A" using prems(3) by (metis mset_eq_setD)
      have hole: "heap_hole cmp k (unat n) (unat ?nxt) ?d"
        using heap_hole_swap [OF prems(6,5,1) m nxt(2,3)] large(2,3) False by blast
      from less.hyps [of ?nxt ?d] nxt m i s hole prems(1,2,5)
      show ?thesis by (auto simp: code False [symmetric] ms drop_swap_ptrs [OF i m])
    qed
  qed
qed

section \<open>The sort\<close>

lemma heap_root:
  assumes "heap_ok cmp 0 n d" "set (take n d) \<subseteq> A" "n \<le> length d" "j < n"
  shows "cmp (d ! j) (d ! 0) \<le> 0"
  using assms(4)
proof (induction j rule: less_induct)
  case (less j)
  have in_A: "d ! m \<in> A" if "m < n" for m
    using nth_take_in [OF assms(2,3) that] .
  show ?case
  proof (cases "j = 0")
    case True
    then show ?thesis using in_A less.prems by (simp add: cmp_refl)
  next
    case False
    then have p: "parent j < j" by simp
    then have "cmp (d ! parent j) (d ! 0) \<le> 0" using less by (meson order.strict_trans)
    moreover have "cmp (d ! j) (d ! parent j) \<le> 0" using assms(1) False less.prems by (simp add: heap_ok_def)
    ultimately show ?thesis using cmp_trans in_A less.prems p by (meson order.strict_trans le_less_trans zero_le)
  qed
qed

lemma down_heap_spec:
  assumes "unat n \<le> unat (num sk)" "unat (num sk) \<le> length (sk_data sk)" "unat (num sk) \<le> 9223372036854775807"
    and "set (take (unat n) (sk_data sk)) \<subseteq> A" "i < n" "k \<le> unat i" "heap_hole cmp k (unat n) (unat i) (sk_data sk)"
  obtains sk' where "down_heap sk cmp i n = Some sk'" "rearranged (unat n) sk sk'" "heap_ok cmp k (unat n) (sk_data sk')"
proof -
  have "unat n \<le> length (sk_data sk)" "unat n \<le> 9223372036854775807" using assms(1-3) by simp_all
  from down_heap_loop_spec [OF this assms(4-7)] obtain d where
    d: "down_heap_loop cmp (sk_data sk) i n = Some d" "length d = length (sk_data sk)"
      "mset (take (unat n) d) = mset (take (unat n) (sk_data sk))" "drop (unat n) d = drop (unat n) (sk_data sk)"
      "heap_ok cmp k (unat n) d" by blast
  show thesis
    by (rule that [of "sk\<lparr>sk_data := d\<rparr>"])
      (use assms(1,5) d in \<open>simp_all add: down_heap_def rearranged_def word_le_nat_alt\<close>)
qed

text \<open>The first loop makes the whole array a heap.\<close>

lemma build_step:
  assumes "unat (num sk) \<le> length (sk_data sk)" "unat (num sk) \<le> 9223372036854775807"
    and "set (take (unat (num sk)) (sk_data sk)) \<subseteq> A" "i < num sk" "heap_ok cmp (Suc (unat i)) (unat (num sk)) (sk_data sk)"
  obtains sk' where "down_heap sk cmp i (num sk) = Some sk'" "rearranged (unat (num sk)) sk sk'"
    "heap_ok cmp (unat i) (unat (num sk)) (sk_data sk')"
proof (rule down_heap_spec [OF order.refl assms(1-4) order.refl])
  show "heap_hole cmp (unat i) (unat (num sk)) (unat i) (sk_data sk)"
    using assms(5) by (auto simp: heap_hole_def heap_ok_def)
qed (rule that)

lemma build_loop_spec:
  assumes "unat (num sk) \<le> length (sk_data sk)" "unat (num sk) \<le> 9223372036854775807"
    and "set (take (unat (num sk)) (sk_data sk)) \<subseteq> A" "i < num sk" "heap_ok cmp (Suc (unat i)) (unat (num sk)) (sk_data sk)"
  shows "\<exists>sk'. build_loop cmp sk i = Some sk' \<and> rearranged (unat (num sk)) sk sk' \<and> heap_ok cmp 0 (unat (num sk)) (sk_data sk')"
  using assms
proof (induction "unat i" arbitrary: sk i)
  case 0
  from build_step [OF 0(2-6)] obtain sk' where
    sk': "down_heap sk cmp i (num sk) = Some sk'" "rearranged (unat (num sk)) sk sk'" "heap_ok cmp (unat i) (unat (num sk)) (sk_data sk')" .
  have "build_loop cmp sk i = build_loop cmp sk' (i - 1)" using 0(5) sk'(1) by (subst build_loop.simps) simp
  moreover have "i - 1 = - 1" using 0(1) by (simp add: unat_eq_zero)
  moreover have "build_loop cmp sk' (- 1) = Some sk'" by (subst build_loop.simps) (simp add: not_less)
  ultimately show ?case using sk'(2,3) 0(1) by auto
next
  case (Suc m)
  from build_step [OF Suc(3-7)] obtain sk' where
    sk': "down_heap sk cmp i (num sk) = Some sk'" "rearranged (unat (num sk)) sk sk'" "heap_ok cmp (unat i) (unat (num sk)) (sk_data sk')" .
  have code: "build_loop cmp sk i = build_loop cmp sk' (i - 1)" using Suc(6) sk'(1) by (subst build_loop.simps) simp
  have "i \<noteq> 0" using Suc(2) by auto
  then have i: "unat (i - 1) = m" using Suc(2) by (simp add: unat_minus_one)
  note f = rearranged_fields [OF sk'(2)] and s = rearranged_set [OF sk'(2)]
  have "i - 1 < num sk'" using Suc(2,6) i f by (simp add: word_less_nat_alt)
  moreover have "heap_ok cmp (Suc (unat (i - 1))) (unat (num sk')) (sk_data sk')" using sk'(3) i Suc(2) f by simp
  ultimately obtain sk'' where "build_loop cmp sk' (i - 1) = Some sk''" "rearranged (unat (num sk)) sk' sk''"
    "heap_ok cmp 0 (unat (num sk)) (sk_data sk'')"
    using Suc(1) [of "i - 1" sk'] i f s Suc(3-5) by auto
  then show ?case using rearranged_trans [OF sk'(2)] by (auto simp: code)
qed

text \<open>The second loop puts the largest remaining element behind the heap.\<close>

lemma extract_step:
  assumes d: "heap_ok cmp 0 (Suc i) d" "set (take n d) \<subseteq> A" "i < n" "n \<le> length d" "0 < i"
    and later: "ascending cmp (drop (Suc i) (take n d))"
    and less: "\<forall>x\<in>set (take (Suc i) d). \<forall>y\<in>set (drop (Suc i) (take n d)). cmp x y \<le> 0"
    and d': "mset (take i d') = mset (take i (swap_ptrs d 0 i))" "drop i d' = drop i (swap_ptrs d 0 i)" "length d' = length d"
  shows "ascending cmp (drop i (take n d'))"
    "\<forall>x\<in>set (take i d'). \<forall>y\<in>set (drop i (take n d')). cmp x y \<le> 0"
proof -
  have in_A: "set (take (Suc i) d) \<subseteq> A"
    using d(2,3) set_take_subset_set_take [of "Suc i" n d] by auto
  have root: "cmp x (d ! 0) \<le> 0" if "x \<in> set (take (Suc i) d)" for x
  proof -
    from that obtain j where "j < Suc i" "x = d ! j" using d(3,4) by (auto simp: in_set_conv_nth)
    then show ?thesis using heap_root [OF d(1) in_A] d(3,4) by simp
  qed
  have rest: "drop i (take n d') = d ! 0 # drop (Suc i) (take n d)"
  proof -
    have "drop i (swap_ptrs d 0 i) = d ! 0 # drop (Suc i) d"
      using d(3-5) Cons_nth_drop_Suc [of i "swap_ptrs d 0 i", symmetric] swap_ptrs_nth [of 0 d i i]
        drop_swap_ptrs [of 0 "Suc i" i d] by (cases d) auto
    moreover have "n - i = Suc (n - Suc i)" using d(3) by simp
    ultimately show ?thesis using d'(2) by (simp add: drop_take)
  qed
  have "d ! 0 \<in> set (take (Suc i) d)" using d(3,4) by (auto simp: in_set_conv_nth)
  then show "ascending cmp (drop i (take n d'))" using rest later less by simp
  have "mset (take (Suc i) (swap_ptrs d 0 i)) = mset (take (Suc i) d)" by (rule mset_swap_ptrs) (use d in simp_all)
  then have "set (take i d') \<subseteq> set (take (Suc i) d)"
    using d'(1) set_take_subset_set_take [of i "Suc i" "swap_ptrs d 0 i"] by (metis le_add2 mset_eq_setD plus_1_eq_Suc)
  then show "\<forall>x\<in>set (take i d'). \<forall>y\<in>set (drop i (take n d')). cmp x y \<le> 0"
    using rest root less by auto
qed

lemma extract_hole: "heap_ok cmp 0 (Suc i) d \<Longrightarrow> 0 < i \<Longrightarrow> i < length d \<Longrightarrow> heap_hole cmp 0 i 0 (swap_ptrs d 0 i)"
proof -
  assume h: "heap_ok cmp 0 (Suc i) d" and i: "0 < i" "i < length d"
  have "swap_ptrs d 0 i ! l = d ! l" if "0 < l" "l < i" for l
    using swap_ptrs_nth [of 0 d i l] that i by (cases d) auto
  with h show ?thesis by (auto simp: heap_hole_def heap_ok_def)
qed

lemma extract_loop_spec:
  assumes "unat (num sk) \<le> length (sk_data sk)" "unat (num sk) \<le> 9223372036854775807"
    and "set (take (unat (num sk)) (sk_data sk)) \<subseteq> A" "i < num sk" "heap_ok cmp 0 (Suc (unat i)) (sk_data sk)"
    and "ascending cmp (drop (Suc (unat i)) (take (unat (num sk)) (sk_data sk)))"
    and "\<forall>x\<in>set (take (Suc (unat i)) (sk_data sk)). \<forall>y\<in>set (drop (Suc (unat i)) (take (unat (num sk)) (sk_data sk))). cmp x y \<le> 0"
  shows "\<exists>sk'. extract_loop cmp sk i = Some sk' \<and> rearranged (unat (num sk)) sk sk' \<and>
    ascending cmp (take (unat (num sk)) (sk_data sk'))"
  using assms
proof (induction "unat i" arbitrary: sk i)
  case 0
  then have i: "i = 0" by (simp add: unat_eq_zero)
  then have code: "extract_loop cmp sk i = Some sk" by (subst extract_loop.simps) simp
  have "0 < unat (num sk)" using 0(5) i by (simp add: word_less_nat_alt)
  then have "take 1 (take (unat (num sk)) (sk_data sk)) = take 1 (sk_data sk)" by (simp add: min_def)
  moreover have "ascending cmp (take 1 (sk_data sk))" by (cases "sk_data sk") simp_all
  ultimately have "ascending cmp (take 1 (take (unat (num sk)) (sk_data sk)) @ drop 1 (take (unat (num sk)) (sk_data sk)))"
    using 0(7,8) by (simp only: sorted_wrt_append 0(1) [symmetric] One_nat_def)
  then have "ascending cmp (take (unat (num sk)) (sk_data sk))" by (simp only: append_take_drop_id)
  then show ?case by (simp add: code rearranged_def)
next
  case (Suc m)
  let ?n = "unat (num sk)" and ?sk = "sk\<lparr>sk_data := swap_ptrs (sk_data sk) 0 (unat i)\<rparr>"
  have "i \<noteq> 0" using Suc(2) by auto
  then have i0: "0 < i" "i \<noteq> 0" "0 < unat i" using Suc(2) by (simp_all only: word_neq_0_conv)
  have i: "unat (i - 1) = m" "Suc m = unat i" using Suc(2) i0(2) by (simp_all add: unat_minus_one)
  have lt: "unat i < ?n" using Suc(6) by (simp add: word_less_nat_alt)
  have swap: "mset (take ?n (sk_data ?sk)) = mset (take ?n (sk_data sk))" "drop ?n (sk_data ?sk) = drop ?n (sk_data sk)"
    using mset_swap_ptrs [of 0 ?n "unat i" "sk_data sk"] drop_swap_ptrs [of 0 ?n "unat i" "sk_data sk"] lt Suc(3) by simp_all
  then have "set (take ?n (sk_data ?sk)) \<subseteq> A" using Suc(5) by (metis mset_eq_setD)
  then have A: "set (take (unat i) (sk_data ?sk)) \<subseteq> A"
    using set_take_subset_set_take [of "unat i" ?n "sk_data ?sk"] lt by auto
  obtain sk' where sk': "down_heap ?sk cmp 0 i = Some sk'" "rearranged (unat i) ?sk sk'" "heap_ok cmp 0 (unat i) (sk_data sk')"
  proof (rule down_heap_spec [of i ?sk 0 0])
    show "heap_hole cmp 0 (unat i) (unat 0) (sk_data ?sk)"
      using extract_hole [OF Suc(7) i0(3)] lt Suc(3) by simp
  qed (use lt Suc(3,4) A i0 in simp_all)
  have code: "extract_loop cmp sk i = extract_loop cmp sk' (i - 1)" using i0(1) sk'(1) by (subst extract_loop.simps) simp
  have r: "rearranged ?n sk sk'"
  proof (rule rearranged_trans)
    show "rearranged ?n sk ?sk" using swap by (simp add: rearranged_def)
    show "rearranged ?n ?sk sk'" using rearranged_wider [OF sk'(2)] lt by simp
  qed
  note f = rearranged_fields [OF r] and s = rearranged_set [OF r]
  have "ascending cmp (drop (unat i) (take ?n (sk_data sk')))"
    "\<forall>x\<in>set (take (unat i) (sk_data sk')). \<forall>y\<in>set (drop (unat i) (take ?n (sk_data sk'))). cmp x y \<le> 0"
    using extract_step [OF Suc(7,5) lt Suc(3) i0(3) Suc(8,9), of "sk_data sk'"] sk'(2) by (simp_all add: rearranged_def)
  moreover have "i - 1 < num sk'" using lt i f by (simp add: word_less_nat_alt)
  ultimately obtain sk'' where "extract_loop cmp sk' (i - 1) = Some sk''" "rearranged ?n sk' sk''"
    "ascending cmp (take ?n (sk_data sk''))"
    using Suc(1) [of "i - 1" sk'] i f s Suc(3-5) sk'(3) by auto
  then show ?case using rearranged_trans [OF r] by (auto simp: code)
qed

lemma heap_sort_spec:
  assumes "unat (num sk) \<le> length (sk_data sk)" "unat (num sk) \<le> 9223372036854775807"
    and "set (take (unat (num sk)) (sk_data sk)) \<subseteq> A" "2 \<le> num sk"
  obtains i sk1 sk2 where "parent_idx (num sk - 1) = Some i" "build_loop cmp sk i = Some sk1" "num sk1 = num sk"
    "extract_loop cmp sk1 (num sk1 - 1) = Some sk2" "rearranged (unat (num sk)) sk sk2"
    "ascending cmp (take (unat (num sk)) (sk_data sk2))"
proof -
  let ?n = "unat (num sk)"
  have n: "2 \<le> ?n" using assms(4) by (simp add: word_le_nat_alt)
  then have "num sk \<noteq> 0" by auto
  then have n1: "unat (num sk - 1) = ?n - 1" by (simp add: unat_minus_one)
  with n have "num sk - 1 \<noteq> 0" by auto
  then have n2: "unat (num sk - 1 - 1) = ?n - 2" using n1 unat_minus_one [OF \<open>num sk - 1 \<noteq> 0\<close>] by linarith
  let ?i = "(num sk - 1 - 1) div 2"
  have "0 < num sk - 1" using \<open>num sk - 1 \<noteq> 0\<close> by (simp only: word_neq_0_conv)
  then have p: "parent_idx (num sk - 1) = Some ?i" by (simp only: parent_idx_def if_True)
  have i: "unat ?i = (?n - 2) div 2" by (simp only: unat_div_distrib n2) simp
  have "?i < num sk" unfolding word_less_nat_alt i using n by simp
  moreover have "heap_ok cmp (Suc (unat ?i)) ?n (sk_data sk)"
  proof -
    have "parent j \<le> unat ?i" if "j < ?n" for j
      unfolding i by (rule div_le_mono) (use that in simp)
    then show ?thesis unfolding heap_ok_def by (meson Suc_n_not_le_n order.trans)
  qed
  ultimately obtain sk1 where sk1: "build_loop cmp sk ?i = Some sk1" "rearranged ?n sk sk1" "heap_ok cmp 0 ?n (sk_data sk1)"
    using build_loop_spec [OF assms(1-3)] by blast
  note f = rearranged_fields [OF sk1(2)] and s = rearranged_set [OF sk1(2)]
  have last: "Suc (unat (num sk1 - 1)) = ?n" using n1 n f by simp
  have "num sk1 - 1 < num sk1" using last f by (simp add: word_less_nat_alt)
  then obtain sk2 where "extract_loop cmp sk1 (num sk1 - 1) = Some sk2" "rearranged ?n sk1 sk2"
    "ascending cmp (take ?n (sk_data sk2))"
    using extract_loop_spec [of sk1 "num sk1 - 1"] last f s assms(1-3) sk1(3) by auto
  then show thesis using that [OF p sk1(1)] f rearranged_trans [OF sk1(2)] by blast
qed

end

end
