(* ===== verification/Stack_Search.thy ===== *)
theory Stack_Search
  imports Stack_Sort
begin

text \<open>
  The searches of stack.c return the first index with a match; the binary search of an ascending
  stack agrees with the linear one.
\<close>

section \<open>The first match\<close>

definition elements :: "OPENSSL_STACK \<Rightarrow> ptr list" where
  "elements sk = take (unat (num sk)) (sk_data sk)"

definition first_index :: "(ptr \<Rightarrow> bool) \<Rightarrow> ptr list \<Rightarrow> nat option" where
  "first_index f xs = find (\<lambda>i. f (xs ! i)) [0..<length xs]"

lemma first_index_Some: "first_index f xs = Some m \<longleftrightarrow> m < length xs \<and> f (xs ! m) \<and> (\<forall>i<m. \<not> f (xs ! i))"
  by (auto simp: first_index_def find_Some_iff)

lemma first_index_None: "first_index f xs = None \<longleftrightarrow> (\<forall>i<length xs. \<not> f (xs ! i))"
  by (auto simp: first_index_def find_None_iff)

text \<open>What a search between two indices yields.\<close>

definition found :: "(ptr \<Rightarrow> bool) \<Rightarrow> ptr list \<Rightarrow> nat \<Rightarrow> nat \<Rightarrow> size_t option \<Rightarrow> bool" where
  "found f d lo hi r \<longleftrightarrow>
     (case r of
        None \<Rightarrow> \<forall>i. lo \<le> i \<longrightarrow> i < hi \<longrightarrow> \<not> f (d ! i)
      | Some m \<Rightarrow> lo \<le> unat m \<and> unat m < hi \<and> f (d ! unat m) \<and> (\<forall>i. lo \<le> i \<longrightarrow> i < unat m \<longrightarrow> \<not> f (d ! i)))"

lemma found_first_index: "n \<le> length d \<Longrightarrow> found f d 0 n r \<Longrightarrow> map_option unat r = first_index f (take n d)"
  using first_index_Some [of f "take n d"] first_index_None [of f "take n d"]
  by (cases r) (auto simp: found_def intro!: sym [of "first_index _ _"])

lemma found_left:
  "found f d m hi r \<Longrightarrow> lo \<le> m \<Longrightarrow> (\<And>i. lo \<le> i \<Longrightarrow> i < m \<Longrightarrow> \<not> f (d ! i)) \<Longrightarrow> found f d lo hi r"
  unfolding found_def by (cases r; auto; metis not_le)

lemma found_right:
  "found f d lo m r \<Longrightarrow> m \<le> hi \<Longrightarrow> (\<And>i. m \<le> i \<Longrightarrow> i < hi \<Longrightarrow> \<not> f (d ! i)) \<Longrightarrow> found f d lo hi r"
  unfolding found_def by (cases r; auto; metis not_le)

lemma found_match: "found f d lo m r \<Longrightarrow> m \<le> hi \<Longrightarrow> lo \<le> i \<Longrightarrow> i < m \<Longrightarrow> f (d ! i) \<Longrightarrow> found f d lo hi r"
  unfolding found_def by (auto split: option.splits)

lemma search_loop_found:
  "i \<le> num sk \<Longrightarrow> found f (sk_data sk) (unat i) (unat (num sk)) (search_loop f sk i)"
proof (induction f sk i rule: search_loop.induct)
  case (1 f sk i)
  show ?case
  proof (cases "i < num sk")
    case True
    note inc = unat_inc [OF True]
    have le: "i + 1 \<le> num sk" and lt: "unat i < unat (num sk)"
      using inc True by (simp_all add: word_le_nat_alt word_less_nat_alt)
    show ?thesis
    proof (cases "f (sk_data sk ! unat i)")
      case match: True
      then show ?thesis using True lt by (subst search_loop.simps) (simp add: found_def)
    next
      case False
      then have "search_loop f sk i = search_loop f sk (i + 1)" using True by (subst search_loop.simps) simp
      moreover have "\<not> f (sk_data sk ! j)" if "unat i \<le> j" "j < unat (i + 1)" for j
      proof -
        have "j = unat i" using that inc by linarith
        with False show ?thesis by simp
      qed
      ultimately show ?thesis
        using found_left [OF 1(1) [OF True False le], of "unat i"] inc by simp
    qed
  next
    case False
    then show ?thesis using 1(2) by (subst search_loop.simps) (simp add: found_def word_less_nat_alt word_le_nat_alt)
  qed
qed

section \<open>The binary search\<close>

lemma mid_range:
  assumes "lo < (hi :: size_t)"
  defines "mid \<equiv> lo + (hi - lo - 1) div 2"
  shows "unat mid = unat lo + (unat hi - unat lo - 1) div 2" "lo \<le> mid" "mid < hi" "unat (mid + 1) = unat mid + 1"
proof -
  have lt: "unat lo < unat hi" using assms(1) by (simp add: word_less_nat_alt)
  have s: "unat (hi - lo) = unat hi - unat lo" using assms(1) by (simp add: unat_sub order.strict_implies_order)
  then have "hi - lo \<noteq> 0" using lt by auto
  then have "unat (hi - lo - 1) = unat hi - unat lo - 1" using s unat_minus_one [of "hi - lo"] by linarith
  then have d: "unat ((hi - lo - 1) div 2) = (unat hi - unat lo - 1) div 2" by (simp only: unat_div_distrib) simp
  have "unat lo + (unat hi - unat lo - 1) div 2 < unat hi" using lt by linarith
  then have "unat lo + unat ((hi - lo - 1) div 2) < 2 ^ LENGTH(64)"
    unfolding d using unat_lt2p [of hi] by (rule less_trans)
  then show u: "unat mid = unat lo + (unat hi - unat lo - 1) div 2"
    unfolding mid_def by (simp only: unat_add_no_wrap d)
  then show "lo \<le> mid" by (simp only: word_le_nat_alt)
  show m: "mid < hi" unfolding word_less_nat_alt u using lt by linarith
  show "unat (mid + 1) = unat mid + 1" by (rule unat_inc [OF m])
qed

lemma binary_search_found:
  assumes "unat hi \<le> n" "lo \<le> hi"
    and above: "\<And>i j. i \<le> j \<Longrightarrow> j < n \<Longrightarrow> 0 < f (d ! j) \<Longrightarrow> 0 < f (d ! i)"
    and below: "\<And>i j. i \<le> j \<Longrightarrow> j < n \<Longrightarrow> f (d ! i) < 0 \<Longrightarrow> f (d ! j) < 0"
  shows "\<exists>r. binary_search f d lo hi = Some r \<and> found (\<lambda>q. f q = 0) d (unat lo) (unat hi) r"
  using assms(1,2)
proof (induction "unat hi - unat lo" arbitrary: lo hi rule: less_induct)
  case less
  show ?case
  proof (cases "lo < hi")
    case False
    then have "lo = hi" using less.prems(2) by simp
    then show ?thesis by (subst binary_search.simps) (simp add: found_def)
  next
    case True
    define mid where "mid = lo + (hi - lo - 1) div 2"
    note mid = mid_range [OF True, folded mid_def]
    have lt: "unat lo < unat hi" "unat mid < unat hi" "unat lo \<le> unat mid" "unat mid < n"
      using True mid(2,3) less.prems(1) by (simp_all add: word_less_nat_alt word_le_nat_alt)
    have code: "binary_search f d lo hi =
        (if f (d ! unat mid) > 0 then binary_search f d (mid + 1) hi
         else if f (d ! unat mid) < 0 then binary_search f d lo mid
         else if hi - lo = 1 then Some (Some mid)
         else if \<not> mid + 1 < hi then None
         else binary_search f d lo (mid + 1))"
      using True mid(2,3) by (subst binary_search.simps) (simp add: Let_def mid_def [symmetric])
    have diff: "unat (hi - lo) = unat hi - unat lo" using True by (simp add: unat_sub order.strict_implies_order)
    consider "f (d ! unat mid) > 0" | "f (d ! unat mid) < 0" | "f (d ! unat mid) = 0" by linarith
    then show ?thesis
    proof cases
      case 1
      have "\<exists>r. binary_search f d (mid + 1) hi = Some r \<and> found (\<lambda>q. f q = 0) d (unat (mid + 1)) (unat hi) r"
        using lt mid(4) less.prems(1) by (intro less.hyps) (simp_all add: word_le_nat_alt)
      then obtain r where r: "binary_search f d (mid + 1) hi = Some r"
        "found (\<lambda>q. f q = 0) d (unat (mid + 1)) (unat hi) r" by blast
      have "f (d ! i) \<noteq> 0" if "i < unat (mid + 1)" for i
      proof -
        have "i \<le> unat mid" using that mid(4) by linarith
        from above [OF this lt(4) 1] show ?thesis by simp
      qed
      then have "found (\<lambda>q. f q = 0) d (unat lo) (unat hi) r"
        by (intro found_left [OF r(2)]) (use mid(4) lt(3) in simp_all)
      with 1 r(1) show ?thesis by (simp add: code)
    next
      case 2
      have "\<exists>r. binary_search f d lo mid = Some r \<and> found (\<lambda>q. f q = 0) d (unat lo) (unat mid) r"
        using lt less.prems(1) mid(2) by (intro less.hyps) simp_all
      then obtain r where r: "binary_search f d lo mid = Some r" "found (\<lambda>q. f q = 0) d (unat lo) (unat mid) r" by blast
      have "f (d ! i) \<noteq> 0" if i: "unat mid \<le> i" "i < unat hi" for i
      proof -
        have "i < n" using i(2) less.prems(1) by linarith
        from below [OF i(1) this 2] show ?thesis by simp
      qed
      then have "found (\<lambda>q. f q = 0) d (unat lo) (unat hi) r"
        by (intro found_right [OF r(2)]) (use lt(2) in simp_all)
      with 2 r(1) show ?thesis by (simp add: code)
    next
      case 3
      show ?thesis
      proof (cases "hi - lo = 1")
        case True
        then have "unat hi = unat lo + 1" using diff lt(1) by simp
        then have "found (\<lambda>q. f q = 0) d (unat lo) (unat hi) (Some mid)" using lt 3 by (simp add: found_def)
        then show ?thesis using 3 True by (simp add: code)
      next
        case False
        then have "unat hi - unat lo \<noteq> 1" using diff by (metis unat_1 word_unat_eq_iff)
        then have next_lt: "unat (mid + 1) < unat hi" using mid(1,4) lt(1) by linarith
        have "\<exists>r. binary_search f d lo (mid + 1) = Some r \<and> found (\<lambda>q. f q = 0) d (unat lo) (unat (mid + 1)) r"
          using lt next_lt mid(4) less.prems(1) by (intro less.hyps) (simp_all add: word_le_nat_alt)
        then obtain r where r: "binary_search f d lo (mid + 1) = Some r"
          "found (\<lambda>q. f q = 0) d (unat lo) (unat (mid + 1)) r" by blast
        have "found (\<lambda>q. f q = 0) d (unat lo) (unat hi) r"
          by (rule found_match [OF r(2) _ lt(3)]) (use next_lt mid(4) 3 in simp_all)
        then show ?thesis using 3 False next_lt r(1) by (simp add: code word_less_nat_alt)
      qed
    qed
  qed
qed

section \<open>The search of a stack\<close>

definition matches :: "OPENSSL_STACK \<Rightarrow> ptr \<Rightarrow> call_cmp \<Rightarrow> ptr \<Rightarrow> bool" where
  "matches sk p call q \<longleftrightarrow> (case comp sk of None \<Rightarrow> q = p | Some c \<Rightarrow> p \<noteq> 0 \<and> call c p q = 0)"

lemma OPENSSL_sk_find_first:
  assumes "unat (num sk) \<le> length (sk_data sk)"
    and sorted: "\<And>c. comp sk = Some c \<Longrightarrow> is_sorted sk \<Longrightarrow>
      consistent (call c) (insert p (set (elements sk))) \<and> ascending (call c) (elements sk)"
  shows "\<exists>r. OPENSSL_sk_find (Some sk) p call = Some r \<and> map_option unat r = first_index (matches sk p call) (elements sk)"
proof -
  have linear: "map_option unat (search_loop f sk 0) = first_index f (elements sk)" for f
    unfolding elements_def using assms(1) search_loop_found [of 0 sk f] by (intro found_first_index) simp_all
  show ?thesis
  proof (cases "comp sk")
    case None
    then have "matches sk p call = (\<lambda>q. q = p)" by (auto simp: matches_def)
    with None show ?thesis by (simp add: OPENSSL_sk_find_def linear)
  next
    case (Some c)
    show ?thesis
    proof (cases "p = 0 \<or> \<not> OPENSSL_sk_is_sorted (Some sk)")
      case True
      have "p = 0 \<Longrightarrow> first_index (matches sk p call) (elements sk) = None"
        by (simp add: first_index_None matches_def Some)
      moreover have "p \<noteq> 0 \<Longrightarrow> matches sk p call = (\<lambda>q. call c p q = 0)" by (auto simp: matches_def Some)
      ultimately show ?thesis using Some True by (auto simp: OPENSSL_sk_find_def linear)
    next
      case False
      let ?n = "unat (num sk)"
      have nth: "elements sk ! i = sk_data sk ! i" if "i < ?n" for i using that by (simp add: elements_def)
      have len: "length (elements sk) = ?n" using assms(1) by (simp add: elements_def)
      have mono: "(0 < call c p (sk_data sk ! j) \<longrightarrow> 0 < call c p (sk_data sk ! i)) \<and>
          (call c p (sk_data sk ! i) < 0 \<longrightarrow> call c p (sk_data sk ! j) < 0)" if ij: "i \<le> j" "j < ?n" for i j
      proof (cases "is_sorted sk")
        case True
        then have c: "comparison (call c) (insert p (set (elements sk)))"
          using sorted [OF Some] by unfold_locales simp
        show ?thesis
          using comparison.above_mono [OF c, of "elements sk" p i j] comparison.below_mono [OF c, of "elements sk" p i j] sorted [OF Some True] ij nth len
          by simp
      next
        case unsorted: False
        then have "num sk < 2" using False by (simp add: OPENSSL_sk_is_sorted_def)
        then have "?n \<le> 1" by (simp add: word_less_nat_alt)
        then have "i = j" using ij by simp
        then show ?thesis by simp
      qed
      have "\<exists>r. binary_search (call c p) (sk_data sk) 0 (num sk) = Some r \<and>
          found (\<lambda>q. call c p q = 0) (sk_data sk) (unat 0) ?n r"
        using binary_search_found [of "num sk" ?n 0 "call c p" "sk_data sk"] mono by auto
      moreover have "matches sk p call = (\<lambda>q. call c p q = 0)" using False by (auto simp: matches_def Some)
      ultimately show ?thesis
        using Some False assms(1) found_first_index [of ?n "sk_data sk" "\<lambda>q. call c p q = 0"]
        by (auto simp: OPENSSL_sk_find_def elements_def)
    qed
  qed
qed

end
