(* ===== verification/Stack_Lists.thy ===== *)
theory Stack_Lists
  imports Stack_Search "HOL-Library.Sublist"
begin

text \<open>
  A stack as the list of its elements: what each operation of stack.c does to that list, the
  invariant of the array behind it, and that the flag \<open>sorted\<close> stays true to the elements.
\<close>

section \<open>Arrays of pointers in memory\<close>

lemma length_bytes_of [simp]: "length (bytes_of ps) = 8 * length ps"
  by (induction ps) simp_all

lemma ptrs_of_append: "ptrs_of (bytes_of ps @ bs) = ps @ ptrs_of bs"
proof (induction ps)
  case (Cons p ps)
  have "be_val (be_bytes 8 (unat p)) = unat p" by (simp add: be_val_be_bytes del: be_bytes.simps)
  with Cons show ?case by (subst ptrs_of.simps) (simp del: be_bytes.simps)
qed simp

lemma length_ptrs_of [simp]: "length (ptrs_of bs) = length bs div 8"
proof (induction bs rule: ptrs_of.induct)
  case (1 bs)
  then show ?case by (subst ptrs_of.simps) (auto simp: div_if)
qed

lemma ptrs_of_take:
  "take (8 * length ps) bs = bytes_of ps \<Longrightarrow> 8 * length ps \<le> length bs \<Longrightarrow> ptrs_of bs = ps @ ptrs_of (drop (8 * length ps) bs)"
  by (metis append_take_drop_id ptrs_of_append)

section \<open>The invariant\<close>

definition stack_wf :: "OPENSSL_STACK \<Rightarrow> bool" where
  "stack_wf sk \<longleftrightarrow> unat (num sk) \<le> 2147483647 \<and> num sk \<le> num_alloc sk \<and> num_alloc sk \<noteq> 0 \<and>
     8 * unat (num_alloc sk) < 2 ^ 64 \<and> length (sk_data sk) = unat (num_alloc sk)"

lemma stack_wf_length: "stack_wf sk \<Longrightarrow> unat (num sk) \<le> length (sk_data sk)"
  by (simp add: stack_wf_def word_le_nat_alt)

lemma length_elements [simp]: "stack_wf sk \<Longrightarrow> length (elements sk) = unat (num sk)"
  using stack_wf_length by (simp add: elements_def)

text \<open>The flag \<open>sorted\<close> promises that the elements are in order.\<close>

definition flag_ok :: "call_cmp \<Rightarrow> OPENSSL_STACK \<Rightarrow> bool" where
  "flag_ok call sk \<longleftrightarrow> (is_sorted sk \<longrightarrow> (\<exists>c. comp sk = Some c \<and> ascending (call c) (elements sk)))"

lemma OPENSSL_sk_new_empty:
  assumes "malloc_spec malloc" "OPENSSL_sk_new malloc cmp = Some sk"
  shows "stack_wf sk" "elements sk = []" "flag_ok call sk" "comp sk = cmp"
proof -
  from assms(2) obtain p where p: "OPENSSL_calloc malloc 4 8 = Some p"
    and sk: "sk = \<lparr>num = 0, sk_data = ptrs_of p, is_sorted = False, num_alloc = 4, comp = cmp\<rparr>"
    by (auto simp: OPENSSL_sk_new_def kMinSize_def split: option.splits)
  have "length p = 32" using OPENSSL_calloc_eq [OF assms(1) p] by simp
  then show "stack_wf sk" "elements sk = []" "flag_ok call sk" "comp sk = cmp"
    by (simp_all add: sk stack_wf_def elements_def flag_ok_def)
qed

section \<open>Insertion\<close>

lemma times_8_fits:
  assumes "x * 8 div 8 = (x :: size_t)"
  shows "8 * unat x < 2 ^ 64" "unat (x * 8) = 8 * unat x"
proof -
  have "unat x = unat (x * 8) div 8" by (subst assms [symmetric]) (simp only: unat_div_distrib, simp)
  then have "8 * unat x \<le> unat (x * 8)" by simp
  from le_less_trans [OF this unat_lt2p] show "8 * unat x < 2 ^ 64" by simp
  then show "unat (x * 8) = 8 * unat x" by (simp add: unat_word_ariths(2))
qed

lemma sk_grow_new_alloc:
  assumes "unat a \<noteq> 0" "8 * unat (a :: size_t) < 2 ^ 64" "unat n \<le> unat a"
    and "b = (if push_bit 1 a < a \<or> push_bit 1 a * 8 div 8 \<noteq> push_bit 1 a then a + 1 else push_bit 1 a)"
  shows "unat n < unat b \<and> unat a \<le> unat b"
proof -
  have "unat (push_bit 1 a) = 2 * unat a" using assms(2) by (simp add: push_bit_eq_mult unat_word_ariths(2))
  moreover have "unat (a + 1) = unat a + 1" using assms(2) by (subst unat_add_no_wrap) simp_all
  ultimately show ?thesis using assms(1,3,4) by (auto split: if_splits)
qed

lemma sk_grow_spec:
  assumes m: "malloc_spec malloc" and wf: "stack_wf sk" and g: "sk_grow malloc sk = Some sk'"
  shows "stack_wf sk' \<and> num sk < num_alloc sk' \<and> elements sk' = elements sk \<and> num sk' = num sk \<and> comp sk' = comp sk \<and>
    is_sorted sk' = is_sorted sk"
proof (cases "num_alloc sk \<le> num sk + 1")
  case False
  then have "num sk + 1 < num_alloc sk" by simp
  moreover have "unat (num sk + 1) = unat (num sk) + 1"
    using wf by (subst unat_add_no_wrap) (simp_all add: stack_wf_def)
  ultimately have "num sk < num_alloc sk" by (simp add: word_less_nat_alt)
  with g wf False show ?thesis by (simp add: sk_grow_def)
next
  case True
  let ?a = "num_alloc sk" and ?d = "sk_data sk"
  define b where "b = (if push_bit 1 ?a < ?a \<or> push_bit 1 ?a * 8 div 8 \<noteq> push_bit 1 ?a then ?a + 1 else push_bit 1 ?a)"
  have "sk_grow malloc sk =
      (if b < ?a \<or> b * 8 div 8 \<noteq> b then None
       else case OPENSSL_realloc malloc (Some (bytes_of ?d)) (b * 8) of
              None \<Rightarrow> None
            | Some p \<Rightarrow> Some (sk\<lparr>sk_data := ptrs_of p, num_alloc := b\<rparr>))"
    unfolding sk_grow_def Let_def b_def using True by (simp only: if_True)
  with g obtain p where b: "\<not> b < ?a" "b * 8 div 8 = b"
    and p: "OPENSSL_realloc malloc (Some (bytes_of ?d)) (b * 8) = Some p"
    and sk': "sk' = sk\<lparr>sk_data := ptrs_of p, num_alloc := b\<rparr>"
    by (auto split: if_splits option.splits)
  have w: "unat ?a \<noteq> 0" "8 * unat ?a < 2 ^ 64" "unat (num sk) \<le> unat ?a" "length ?d = unat ?a" "unat (num sk) \<le> 2147483647"
    using wf by (auto simp: stack_wf_def word_le_nat_alt unat_eq_zero)
  have n: "unat (num sk) < unat b" "unat ?a \<le> unat b" using sk_grow_new_alloc [OF w(1-3) b_def] by blast+
  note fits = times_8_fits [OF b(2)]
  have len: "length p = 8 * unat b"
    using OPENSSL_realloc_Some(1) [OF m p] w(2,4) fits(2) by simp
  have "take (8 * length ?d) p = bytes_of ?d"
    using OPENSSL_realloc_Some(2) [OF m p] w(2,4) fits(2) n(2) by (simp add: min_absorb1)
  then have d: "ptrs_of p = ?d @ ptrs_of (drop (8 * length ?d) p)"
    using len n(2) w(4) by (intro ptrs_of_take) simp_all
  have "take (unat (num sk)) (ptrs_of p) = take (unat (num sk)) ?d" using w(3,4) by (subst d) simp
  then have "elements sk' = elements sk" by (simp add: sk' elements_def)
  moreover have "stack_wf sk'"
    using n w(5) fits(1) len by (auto simp: sk' stack_wf_def word_le_nat_alt unat_eq_zero)
  ultimately show ?thesis using n(1) by (simp add: sk' word_less_nat_alt)
qed

lemma insert_in_array:
  assumes "n < length d" "i \<le> n"
  shows "take (n + 1) ((move_ptrs (i + 1) i (n - i) d)[i := p]) = take i (take n d) @ p # drop i (take n d)"
    "length (move_ptrs (i + 1) i (n - i) d) = length d"
proof -
  have m: "move_ptrs (i + 1) i (n - i) d = take (i + 1) d @ drop i (take n d) @ drop (n + 1) d"
    using assms by (simp add: move_ptrs_def drop_take)
  then show "length (move_ptrs (i + 1) i (n - i) d) = length d" using assms by simp
  have "take (i + 1) d = take i d @ [d ! i]" using assms by (simp add: take_Suc_conv_app_nth)
  then have "(move_ptrs (i + 1) i (n - i) d)[i := p] = take i d @ p # drop i (take n d) @ drop (n + 1) d"
    unfolding m using assms by (simp add: list_update_append)
  moreover have "n + 1 - i = Suc (n - i)" using assms by simp
  ultimately show "take (n + 1) ((move_ptrs (i + 1) i (n - i) d)[i := p]) = take i (take n d) @ p # drop i (take n d)"
    using assms by (simp del: One_nat_def)
qed

lemma OPENSSL_sk_insert_elements:
  assumes m: "malloc_spec malloc" and wf: "stack_wf sk" and i: "OPENSSL_sk_insert malloc (Some sk) p pos = (n, r)"
  shows "n = 0 \<and> r = Some sk \<and> (unat (num sk) = 2147483647 \<or> sk_grow malloc sk = None) \<or>
    (\<exists>sk'. r = Some sk' \<and> stack_wf sk' \<and> unat n = length (elements sk') \<and> comp sk' = comp sk \<and> \<not> is_sorted sk' \<and>
       elements sk' = take (unat pos) (elements sk) @ p # drop (unat pos) (elements sk))"
proof (cases "num sk \<ge> INT_MAX \<or> sk_grow malloc sk = None")
  case True
  then show ?thesis
    using i wf by (auto simp: OPENSSL_sk_insert_def INT_MAX_def stack_wf_def word_le_nat_alt split: if_splits)
next
  case False
  then obtain sk1 where g: "sk_grow malloc sk = Some sk1" and lt: "unat (num sk) < 2147483647"
    by (auto simp: INT_MAX_def word_le_nat_alt)
  let ?d = "sk_data sk1" and ?n = "unat (num sk)"
  have s: "stack_wf sk1" "num sk < num_alloc sk1" "elements sk1 = elements sk" "num sk1 = num sk" "comp sk1 = comp sk"
    using sk_grow_spec [OF m wf g] by blast+
  have room: "?n < length ?d" using s(1,2) by (simp add: stack_wf_def word_less_nat_alt)
  define d' where "d' = (if pos \<ge> num sk then ?d[?n := p]
    else (move_ptrs (unat (pos + 1)) (unat pos) (unat (num sk - pos)) ?d)[unat pos := p])"
  have r: "n = num sk + 1" "r = Some (sk1\<lparr>sk_data := d', num := num sk + 1, is_sorted := False\<rparr>)"
    using i g False s(4) by (auto simp: OPENSSL_sk_insert_def d'_def Let_def)
  have n: "unat (num sk + 1) = ?n + 1" using lt by (subst unat_add_no_wrap) simp_all
  have es: "elements sk = take ?n ?d" using s(3,4) by (simp add: elements_def)
  have d': "take (?n + 1) d' = take (unat pos) (elements sk) @ p # drop (unat pos) (elements sk)" "length d' = length ?d"
  proof -
    have "take (?n + 1) d' = take (unat pos) (elements sk) @ p # drop (unat pos) (elements sk) \<and> length d' = length ?d"
    proof (cases "pos \<ge> num sk")
      case True
      then have "?n \<le> unat pos" by (simp add: word_le_nat_alt)
      then show ?thesis using room True by (simp add: d'_def es take_Suc_conv_app_nth)
    next
      case False
      then have "unat pos < ?n" "unat (pos + 1) = unat pos + 1" "unat (num sk - pos) = ?n - unat pos"
        by (simp_all add: word_less_nat_alt word_le_nat_alt not_le unat_inc [of pos "num sk"] unat_sub)
      then show ?thesis using insert_in_array [OF room, of "unat pos"] False by (simp add: d'_def es)
    qed
    then show "take (?n + 1) d' = take (unat pos) (elements sk) @ p # drop (unat pos) (elements sk)" "length d' = length ?d"
      by blast+
  qed
  let ?sk = "sk1\<lparr>sk_data := d', num := num sk + 1, is_sorted := False\<rparr>"
  have "stack_wf ?sk"
    using s(1,2,4) n lt d'(2) by (simp add: stack_wf_def word_le_nat_alt word_less_nat_alt)
  moreover have "elements ?sk = take (unat pos) (elements sk) @ p # drop (unat pos) (elements sk)"
    using d'(1) n by (simp add: elements_def)
  moreover from \<open>stack_wf ?sk\<close> have "unat (num sk + 1) = length (elements ?sk)" by simp
  ultimately show ?thesis using r s(5) by auto
qed

section \<open>Deletion\<close>

lemma delete_in_array:
  "i < n \<Longrightarrow> n \<le> length d \<Longrightarrow> take (n - 1) (move_ptrs i (i + 1) (n - i - 1) d) = take i (take n d) @ drop (i + 1) (take n d)"
  "i < n \<Longrightarrow> n \<le> length d \<Longrightarrow> length (move_ptrs i (i + 1) (n - i - 1) d) = length d"
  by (auto simp: move_ptrs_def drop_take min_def dest!: less_imp_Suc_add)

lemma OPENSSL_sk_delete_elements:
  assumes wf: "stack_wf sk" and lt: "pos < num sk" and d: "OPENSSL_sk_delete (Some sk) pos = (p, r)"
  obtains sk' where "r = Some sk'" "stack_wf sk'" "p = elements sk ! unat pos" "comp sk' = comp sk" "is_sorted sk' = is_sorted sk"
    "elements sk' = take (unat pos) (elements sk) @ drop (unat pos + 1) (elements sk)"
proof -
  let ?n = "unat (num sk)" and ?i = "unat pos" and ?d = "sk_data sk"
  have i: "?i < ?n" using lt by (simp add: word_less_nat_alt)
  have n: "?n \<le> length ?d" by (rule stack_wf_length [OF wf])
  have "num sk \<noteq> 0" using i by auto
  then have n1: "unat (num sk - 1) = ?n - 1" by (rule unat_minus_one)
  have inc: "unat (pos + 1) = ?i + 1" by (rule unat_inc [OF lt])
  define d' where "d' = (if pos \<noteq> num sk - 1 then move_ptrs ?i (unat (pos + 1)) (unat (num sk - pos - 1)) ?d else ?d)"
  have r: "p = ?d ! ?i" "r = Some (sk\<lparr>sk_data := d', num := num sk - 1\<rparr>)"
    using d not_le [THEN iffD2, OF lt] by (auto simp: OPENSSL_sk_delete_def d'_def Let_def)
  have "take (?n - 1) d' = take ?i (elements sk) @ drop (?i + 1) (elements sk) \<and> length d' = length ?d"
  proof (cases "pos = num sk - 1")
    case True
    then have "?i = ?n - 1" using n1 by simp
    then show ?thesis using True i n by (simp add: d'_def elements_def)
  next
    case False
    have "unat (num sk - pos) = ?n - ?i" using lt by (simp add: unat_sub order.strict_implies_order)
    moreover from this have "num sk - pos \<noteq> 0" using i by auto
    ultimately have "unat (num sk - pos - 1) = ?n - ?i - 1" using unat_minus_one [of "num sk - pos"] by linarith
    then show ?thesis using False delete_in_array [OF i n] by (simp add: d'_def inc elements_def)
  qed
  moreover from this have "stack_wf (sk\<lparr>sk_data := d', num := num sk - 1\<rparr>)"
    using wf n1 by (simp add: stack_wf_def word_le_nat_alt) linarith
  ultimately show thesis
    using that [of "sk\<lparr>sk_data := d', num := num sk - 1\<rparr>"] r n1 i by (simp add: elements_def)
qed

text \<open>The elements that \<open>delete_if\<close> keeps, with the state of the caller's test.\<close>

fun keep :: "(ptr \<Rightarrow> 's \<Rightarrow> bool \<times> 's) \<Rightarrow> ptr list \<Rightarrow> 's \<Rightarrow> ptr list \<times> 's" where
  "keep f [] s = ([], s)"
| "keep f (x # xs) s =
     (case f x s of
        (True, s) \<Rightarrow> keep f xs s
      | (False, s) \<Rightarrow> (case keep f xs s of (ys, s) \<Rightarrow> (x # ys, s)))"

lemma keep_subseq: "keep f xs s = (ys, s') \<Longrightarrow> subseq ys xs"
  by (induction xs arbitrary: s ys s') (auto split: prod.splits bool.splits)

lemma delete_if_loop_keep:
  assumes "k \<le> i" "i \<le> n" "n \<le> length d" "keep f (drop i (take n d)) s = (ys, s')"
  shows "\<exists>d'. delete_if_loop f [i..<n] (d, k, s) = (d', k + length ys, s') \<and> length d' = length d \<and>
    take (k + length ys) d' = take k d @ ys"
  using assms
proof (induction "n - i" arbitrary: i k d s ys s')
  case 0
  then show ?case by auto
next
  case (Suc m)
  then have i: "i < n" by simp
  then have up: "[i..<n] = i # [Suc i..<n]" by (rule upt_conv_Cons)
  have split: "drop i (take n d) = d ! i # drop (Suc i) (take n d)"
    using i Suc.prems(3) Cons_nth_drop_Suc [of i "take n d"] by simp
  obtain b s1 where b: "f (d ! i) s = (b, s1)" by fastforce
  show ?case
  proof (cases b)
    case True
    then have "keep f (drop (Suc i) (take n d)) s1 = (ys, s')" using Suc.prems(4) b by (simp add: split)
    with Suc.hyps(1) [of "Suc i" k d s1 ys s'] Suc.hyps(2) Suc.prems True b i show ?thesis by (auto simp: up)
  next
    case False
    then obtain zs where zs: "ys = d ! i # zs" "keep f (drop (Suc i) (take n d)) s1 = (zs, s')"
      using Suc.prems(4) b by (auto simp: split split: prod.splits)
    let ?d = "d[k := d ! i]"
    have same: "drop (Suc i) (take n ?d) = drop (Suc i) (take n d)"
      using Suc.prems(1) by (simp add: drop_take)
    have "\<exists>d'. delete_if_loop f [Suc i..<n] (?d, Suc k, s1) = (d', Suc k + length zs, s') \<and> length d' = length ?d \<and>
      take (Suc k + length zs) d' = take (Suc k) ?d @ zs"
      using Suc.hyps(2) Suc.prems i zs(2) by (intro Suc.hyps(1)) (simp_all add: same)
    moreover have "take (Suc k) ?d = take k d @ [d ! i]"
      using Suc.prems(1,3) i by (simp add: take_Suc_conv_app_nth)
    ultimately show ?thesis using False b zs(1) by (auto simp: up)
  qed
qed

lemma length_keep: "length (fst (keep f xs s)) \<le> length xs"
  using keep_subseq [of f xs s "fst (keep f xs s)" "snd (keep f xs s)"] by (simp add: list_emb_length)

lemma OPENSSL_sk_delete_if_elements:
  assumes wf: "stack_wf sk" and k: "keep (call f) (elements sk) s = (ys, s')"
  obtains sk' where "OPENSSL_sk_delete_if (Some sk) call f s = (Some sk', s')" "stack_wf sk'" "elements sk' = ys"
    "comp sk' = comp sk" "is_sorted sk' = is_sorted sk"
proof -
  let ?n = "unat (num sk)"
  obtain d' where d': "delete_if_loop (call f) [0..<?n] (sk_data sk, 0, s) = (d', length ys, s')"
    "length d' = length (sk_data sk)" "take (length ys) d' = ys"
    using delete_if_loop_keep [of 0 0 ?n "sk_data sk" "call f" s ys s'] stack_wf_length [OF wf] k
    by (auto simp: elements_def)
  have le: "length ys \<le> ?n" using length_keep [of "call f" "elements sk" s] wf k by simp
  then have "unat (word_of_nat (length ys) :: size_t) = length ys"
    using le_less_trans [OF le unat_lt2p] by (intro unat_eq_of_nat) simp
  then show thesis
    using that [of "sk\<lparr>sk_data := d', num := word_of_nat (length ys)\<rparr>"] d' wf le
    by (auto simp: OPENSSL_sk_delete_if_def stack_wf_def elements_def word_le_nat_alt)
qed

section \<open>Copies and the flag\<close>

lemma OPENSSL_sk_dup_same:
  assumes m: "malloc_spec malloc" and wf: "stack_wf sk" and d: "OPENSSL_sk_dup malloc (Some sk) = Some sk'"
  shows "sk' = sk"
proof -
  from d obtain p where p: "OPENSSL_memdup malloc (bytes_of (sk_data sk)) (8 * num_alloc sk) = Some p"
    and sk': "sk' = \<lparr>num = num sk, sk_data = ptrs_of p, is_sorted = is_sorted sk, num_alloc = num_alloc sk, comp = comp sk\<rparr>"
    by (auto simp: OPENSSL_sk_dup_def split: option.splits)
  have sz: "unat (8 * num_alloc sk) = 8 * length (sk_data sk)"
    using wf by (simp add: stack_wf_def unat_word_ariths(2))
  from p obtain ret where "OPENSSL_malloc malloc (8 * num_alloc sk) = Some ret"
    "p = memcpy ret (bytes_of (sk_data sk)) (unat (8 * num_alloc sk))"
    by (auto simp: OPENSSL_memdup_def split: if_splits option.splits)
  with OPENSSL_malloc_length [OF m] sz have "p = bytes_of (sk_data sk)" by (simp add: memcpy_def)
  then have "ptrs_of p = sk_data sk" using ptrs_of_append [of "sk_data sk" "[]"] by (simp add: ptrs_of.simps)
  then show ?thesis by (simp add: sk')
qed

lemma ascending_subseq: "subseq ys xs \<Longrightarrow> ascending cmp xs \<Longrightarrow> ascending cmp ys"
  by (induction rule: list_emb.induct) (auto dest: list_emb_set)

lemma flag_ok_subseq:
  "flag_ok call sk \<Longrightarrow> subseq (elements sk') (elements sk) \<Longrightarrow> comp sk' = comp sk \<Longrightarrow> is_sorted sk' = is_sorted sk \<Longrightarrow>
     flag_ok call sk'"
  unfolding flag_ok_def using ascending_subseq by metis

lemma subseq_delete: "subseq (take i xs @ drop (i + 1) xs) xs"
proof (cases "i < length xs")
  case True
  then have "xs = take i xs @ xs ! i # drop (i + 1) xs" by (simp add: id_take_nth_drop)
  then show ?thesis by (metis list_emb_append_mono subseq_Cons' subseq_order.order_refl)
qed simp

text \<open>Deep copies: \<open>None\<close> when the caller's copy function returns a null pointer.\<close>

fun copies :: "(ptr \<Rightarrow> 's \<Rightarrow> ptr \<times> 's) \<Rightarrow> ptr list \<Rightarrow> 's \<Rightarrow> (ptr list \<times> 's) option" where
  "copies f [] s = Some ([], s)"
| "copies f (x # xs) s =
     (case (if x = 0 then (0, s) else f x s) of
        (p, s) \<Rightarrow> if x \<noteq> 0 \<and> p = 0 then None else map_option (\<lambda>(ys, s). (p # ys, s)) (copies f xs s))"

lemma copy_loop_copies:
  assumes "i \<le> n" "n \<le> length d"
  shows "case copies f (drop i (take n d)) s of
      None \<Rightarrow> fst (copy_loop f clean [i..<n] d s) = None
    | Some (ys, s') \<Rightarrow> \<exists>d'. copy_loop f clean [i..<n] d s = (Some d', s') \<and> length d' = length d \<and>
        take n d' = take i d @ ys"
  using assms
proof (induction "n - i" arbitrary: i d s)
  case 0
  then show ?case by simp
next
  case (Suc m)
  then have i: "i < n" by simp
  then have up: "[i..<n] = i # [Suc i..<n]" by (rule upt_conv_Cons)
  have split: "drop i (take n d) = d ! i # drop (Suc i) (take n d)"
    using i Suc.prems(2) Cons_nth_drop_Suc [of i "take n d"] by simp
  obtain p s1 where p: "(if d ! i = 0 then (0, s) else f (d ! i) s) = (p, s1)" by fastforce
  show ?case
  proof (cases "d ! i \<noteq> 0 \<and> p = 0")
    case True
    then show ?thesis using p by (simp add: up split)
  next
    case False
    let ?d = "d[i := p]"
    have d: "(if d ! i = 0 then d else ?d) = ?d" using p by (auto split: if_splits) (metis list_update_id)
    have same: "drop (Suc i) (take n ?d) = drop (Suc i) (take n d)" by (simp add: drop_take)
    have "take (Suc i) ?d = take i d @ [p]" using i Suc.prems(2) by (simp add: take_Suc_conv_app_nth)
    moreover have "m = n - Suc i" using Suc.hyps(2) by simp
    moreover note Suc.hyps(1) [of "Suc i" ?d s1]
    ultimately have IH: "case copies f (drop (Suc i) (take n d)) s1 of
        None \<Rightarrow> fst (copy_loop f clean [Suc i..<n] ?d s1) = None
      | Some (ys, s') \<Rightarrow> \<exists>d'. copy_loop f clean [Suc i..<n] ?d s1 = (Some d', s') \<and> length d' = length d \<and>
          take n d' = take i d @ p # ys" using Suc.prems(2) i same by (simp split: option.splits prod.splits)
    have "copy_loop f clean [i..<n] d s = copy_loop f clean [Suc i..<n] ?d s1"
      using False p d by (auto simp: up split: if_splits)
    then show ?thesis using IH False p by (auto simp: split split: option.splits)
  qed
qed

lemma OPENSSL_sk_deep_copy_elements:
  assumes m: "malloc_spec malloc" and wf: "stack_wf sk"
    and c: "OPENSSL_sk_deep_copy malloc (Some sk) call_copy f call_free g s = (Some sk', s')"
  shows "stack_wf sk' \<and> copies (call_copy f) (elements sk) s = Some (elements sk', s')"
proof -
  let ?n = "unat (num sk)"
  from c obtain ret where "OPENSSL_sk_dup malloc (Some sk) = Some ret"
    by (auto simp: OPENSSL_sk_deep_copy_def split: option.splits)
  moreover from this have "ret = sk" by (rule OPENSSL_sk_dup_same [OF m wf])
  ultimately obtain d where
    d: "copy_loop (call_copy f) (free_copies call_free g) [0..<?n] (sk_data sk) s = (Some d, s')" "sk' = sk\<lparr>sk_data := d\<rparr>"
    using c by (auto simp: OPENSSL_sk_deep_copy_def split: prod.splits option.splits)
  from copy_loop_copies [where i = 0 and n = ?n and d = "sk_data sk" and f = "call_copy f" and s = s and
      clean = "free_copies call_free g"] stack_wf_length [OF wf] d(1)
  obtain ys where "copies (call_copy f) (elements sk) s = Some (ys, s')" "length d = length (sk_data sk)" "take ?n d = ys"
    by (auto simp: elements_def split: option.splits)
  then show ?thesis using wf d(2) by (simp add: stack_wf_def elements_def)
qed

end
