(* ===== verification/Cbb_Set.thy ===== *)
theory Cbb_Set
  imports Ber_Der Compare "HOL-Library.List_Lexorder"
begin

text \<open>
  \<open>CBB_flush_asn1_set_of\<close> of cbb.c: the elements in a builder are put into the order that DER
  requires of a SET OF. \<open>qsort\<close> of the C library is a parameter, of which \<open>qsort_spec\<close> says
  what the standard promises.
\<close>

section \<open>The code\<close>

text \<open>\<open>memcmp\<close>, where -1 and 1 stand for any negative and any positive number.\<close>

fun bytes_compare :: "u8 list \<Rightarrow> u8 list \<Rightarrow> nat \<Rightarrow> int" where
  "bytes_compare (a # as) (b # bs) (Suc n) = (if a = b then bytes_compare as bs n else if a < b then - 1 else 1)"
| "bytes_compare as bs n = 0"

definition OPENSSL_memcmp :: "u8 list \<Rightarrow> u8 list \<Rightarrow> size_t \<Rightarrow> int" where
  "OPENSSL_memcmp s1 s2 n = (if n = 0 then 0 else bytes_compare s1 s2 (unat n))"

definition compare_set_of_element :: "CBS \<Rightarrow> CBS \<Rightarrow> int" where
  "compare_set_of_element a b =
     (let a_len = CBS_len a; b_len = CBS_len b;
          min_len = (if a_len < b_len then a_len else b_len);
          ret = OPENSSL_memcmp (CBS_data a) (CBS_data b) min_len
      in if ret \<noteq> 0 then ret
         else if a_len = b_len then 0
         else if a_len < b_len then - 1 else 1)"

text \<open>The loop that counts the elements, and the one that collects them.\<close>

function count_children :: "CBS \<Rightarrow> size_t \<Rightarrow> size_t option" where
  "count_children cbs num_children =
     (if CBS_len cbs \<noteq> 0 then
        (case CBS_get_any_asn1_element cbs of
           (None, _) \<Rightarrow> None
         | (Some _, cbs) \<Rightarrow> count_children cbs (num_children + 1))
      else Some num_children)"
  by pat_completeness auto
termination
  by (relation "measure (\<lambda>(cbs, n). unat (CBS_len cbs))")
    (auto simp: CBS_get_any_asn1_element_def dest: element_len(1) [OF sym])

declare count_children.simps [simp del]

primrec get_children :: "nat \<Rightarrow> CBS \<Rightarrow> CBS list option" where
  "get_children 0 cbs = Some []"
| "get_children (Suc n) cbs =
     (case CBS_get_any_asn1_element cbs of
        (None, _) \<Rightarrow> None
      | (Some el, cbs) \<Rightarrow> map_option ((#) (el_out el)) (get_children n cbs))"

text \<open>The loop that writes them to \<open>out\<close>, from \<open>offset\<close> on.\<close>

primrec write_children :: "size_t \<Rightarrow> CBS list \<Rightarrow> u8 list \<Rightarrow> u8 list" where
  "write_children off [] out = out"
| "write_children off (c # cs) out =
     write_children (off + CBS_len c) cs (store (unat off) (take (unat (CBS_len c)) (CBS_data c)) out)"

type_synonym libc_qsort = "(CBS \<Rightarrow> CBS \<Rightarrow> int) \<Rightarrow> CBS list \<Rightarrow> CBS list"

text \<open>A \<open>CBS\<close> has 16 bytes.\<close>

definition CBB_flush_asn1_set_of :: "libc_malloc \<Rightarrow> libc_qsort \<Rightarrow> CBB \<Rightarrow> nat \<Rightarrow> bool \<times> CBB" where
  "CBB_flush_asn1_set_of malloc qsort cbb d =
     (case CBB_flush malloc cbb d of
        (False, cbb) \<Rightarrow> (False, cbb)
      | (True, cbb) \<Rightarrow>
          let start = CBB_data_start cbb d; buf_len = CBB_len cbb d; p = drop (unat start) (buf_bytes (base cbb)) in
          (case count_children (CBS_init p buf_len) 0 of
             None \<Rightarrow> (False, cbb)
           | Some num_children \<Rightarrow>
               if num_children < 2 then (True, cbb)
               else
                 (case (OPENSSL_memdup malloc p buf_len, OPENSSL_calloc malloc num_children 16) of
                    (Some copy, Some _) \<Rightarrow>
                      (case get_children (unat num_children) (CBS_init copy buf_len) of
                         None \<Rightarrow> (False, cbb)
                       | Some cs \<Rightarrow>
                           (True, cbb\<lparr>base := write_buf (\<lambda>q. take (unat start) q @
                             write_children 0 (qsort compare_set_of_element cs) (drop (unat start) q)) (base cbb)\<rparr>))
                  | _ \<Rightarrow> (False, cbb))))"

section \<open>The order\<close>

text \<open>What the C standard promises of \<open>qsort\<close> with a consistent comparison function.\<close>

definition qsort_spec :: "libc_qsort \<Rightarrow> bool" where
  "qsort_spec qsort \<longleftrightarrow> (\<forall>cmp xs. consistent cmp (set xs) \<longrightarrow>
     mset (qsort cmp xs) = mset xs \<and> ascending cmp (qsort cmp xs))"

text \<open>The comparison is the lexicographic order of the encodings.\<close>

lemma bytes_compare_lex:
  "(if bytes_compare as bs (min (length as) (length bs)) \<noteq> 0 then bytes_compare as bs (min (length as) (length bs)) < 0
    else length as \<le> length bs) \<longleftrightarrow> as \<le> bs"
proof (induction as bs "min (length as) (length bs)" rule: bytes_compare.induct)
  case (1 a as b bs n)
  then show ?case by (cases "a = b") auto
qed (auto simp: min_def split: if_splits)

lemma bytes_compare_take: "bytes_compare (take m as) (take n bs) k = bytes_compare as bs k" if "k \<le> m" "k \<le> n"
  using that by (induction as bs k arbitrary: m n rule: bytes_compare.induct) (auto simp: take_Cons split: nat.split)

lemma compare_set_of_element_lex:
  assumes "cbs_wf a" "cbs_wf b"
  shows "compare_set_of_element a b \<le> 0 \<longleftrightarrow> cbs_bytes a \<le> cbs_bytes b"
proof -
  let ?m = "if CBS_len a < CBS_len b then CBS_len a else CBS_len b"
  have len: "length (cbs_bytes a) = unat (CBS_len a)" "length (cbs_bytes b) = unat (CBS_len b)"
    using assms by (simp_all add: cbs_bytes_def cbs_wf_def)
  then have m: "unat ?m = min (length (cbs_bytes a)) (length (cbs_bytes b))"
    by (auto simp: word_less_nat_alt min_def)
  have "OPENSSL_memcmp (CBS_data a) (CBS_data b) ?m = bytes_compare (cbs_bytes a) (cbs_bytes b) (unat ?m)"
  proof -
    have "unat ?m \<le> unat (CBS_len a)" "unat ?m \<le> unat (CBS_len b)" by (auto simp: word_less_nat_alt)
    moreover have "?m = 0 \<Longrightarrow> bytes_compare as bs (unat ?m) = 0" for as bs by (simp only: unat_0 bytes_compare.simps)
    ultimately show ?thesis
      unfolding cbs_bytes_def OPENSSL_memcmp_def by (simp add: bytes_compare_take del: if_split_asm)
  qed
  then show ?thesis
    using bytes_compare_lex [of "cbs_bytes a" "cbs_bytes b"] m len
    by (auto simp: compare_set_of_element_def Let_def word_le_nat_alt word_less_nat_alt word_unat_eq_iff)
qed

lemma bytes_compare_swap: "bytes_compare bs as n = - bytes_compare as bs n"
  by (induction as bs n rule: bytes_compare.induct) (auto split: list.splits)

lemma compare_set_of_element_swap: "compare_set_of_element b a = - compare_set_of_element a b"
proof -
  have "OPENSSL_memcmp y x n = - OPENSSL_memcmp x y n" for x y n
    by (simp add: OPENSSL_memcmp_def bytes_compare_swap [of y x])
  from this [of "CBS_data b" "CBS_data a"] show ?thesis
    by (auto simp: compare_set_of_element_def Let_def not_less)
qed

interpretation set_of: comparison compare_set_of_element "{c. cbs_wf c}"
proof
  have "0 < compare_set_of_element b a \<longleftrightarrow> compare_set_of_element a b < 0" for a b
    using compare_set_of_element_swap [of b a] by simp
  then show "consistent compare_set_of_element {c. cbs_wf c}"
    by (simp add: consistent_def compare_set_of_element_lex) (meson order.trans)
qed

lemma qsort_elements:
  assumes "qsort_spec qsort" "list_all cbs_wf cs"
  shows "map cbs_bytes (qsort compare_set_of_element cs) = sort (map cbs_bytes cs)"
    "list_all cbs_wf (qsort compare_set_of_element cs)"
proof -
  let ?ys = "qsort compare_set_of_element cs"
  have cmp: "compare_set_of_element a b \<le> 0 \<longleftrightarrow> cbs_bytes a \<le> cbs_bytes b" if "a \<in> set cs" "b \<in> set cs" for a b
    using assms(2) that by (simp add: compare_set_of_element_lex list_all_iff)
  have "consistent compare_set_of_element (set cs)"
    using assms(2) by (intro consistent_subset [OF set_of.cmp_consistent]) (auto simp: list_all_iff)
  with assms(1) have m: "mset ?ys = mset cs" and "sorted_wrt (\<lambda>a b. compare_set_of_element a b \<le> 0) ?ys"
    by (simp_all add: qsort_spec_def)
  have s: "set ?ys = set cs" using m by (metis mset_eq_setD)
  then show "list_all cbs_wf ?ys" using assms(2) by (simp add: list_all_iff)
  from \<open>sorted_wrt _ ?ys\<close> have "sorted_wrt (\<lambda>a b. cbs_bytes a \<le> cbs_bytes b) ?ys"
    by (rule sorted_wrt_mono_rel [rotated]) (simp add: s cmp)
  then have "sorted (map cbs_bytes ?ys)" by (simp add: sorted_wrt_map)
  moreover have "mset (map cbs_bytes ?ys) = mset (map cbs_bytes cs)" by (simp add: m)
  ultimately show "map cbs_bytes ?ys = sort (map cbs_bytes cs)" by (metis properties_for_sort)
qed

section \<open>The elements\<close>

definition der_element :: "u8 list \<Rightarrow> bool" where
  "der_element e \<longleftrightarrow> (\<exists>tag body. \<not> reserved_tag tag \<and> length body < 4294967296 \<and> e = der tag body)"

lemma get_element_der:
  assumes "cbs_wf cbs" "der_element e" "cbs_bytes cbs = e @ r"
  obtains el c where "CBS_get_any_asn1_element cbs = (Some el, c)" "cbs_wf (el_out el)" "cbs_bytes (el_out el) = e"
    "cbs_wf c" "cbs_bytes c = r"
proof -
  from assms(2) obtain tag body where e: "\<not> reserved_tag tag" "length body < 4294967296" "e = der tag body"
    by (auto simp: der_element_def)
  from element_spec_der [OF e(1,2), of False r] assms(3) e(3)
  have "element_spec False (cbs_bytes cbs) = Some ((tag, tag_bytes tag @ der_len (length body), body, False, False), r)"
    by simp
  from rd_element.get_accepts [OF assms(1) this] obtain el c where
    el: "cbs_get_any_asn1_element cbs False = (Some el, c)" "element_ok el"
      "element_view el = (tag, tag_bytes tag @ der_len (length body), body, False, False)" "cbs_wf c" "cbs_bytes c = r"
    by blast
  let ?h = "unat (el_header_len el)"
  have "cbs_bytes (el_out el) = take ?h (cbs_bytes (el_out el)) @ drop ?h (cbs_bytes (el_out el))" by simp
  also have "\<dots> = e" using el(3) unfolding e(3) der_def by (auto simp: element_view_def Let_def)
  finally show thesis
    using that [of el c] el by (simp add: CBS_get_any_asn1_element_def element_ok_def)
qed

lemma get_element_Some:
  assumes "cbs_wf cbs" "CBS_get_any_asn1_element cbs = (Some el, c)"
  shows "cbs_wf c" "\<exists>e. der_element e \<and> cbs_bytes cbs = e @ cbs_bytes c"
proof -
  note g = rd_element.get_Some [OF assms(1) assms(2) [unfolded CBS_get_any_asn1_element_def]]
  show "cbs_wf c" by (rule g(3))
  obtain tag header body ber indef where "element_view el = (tag, header, body, ber, indef)" by (metis prod_cases5)
  with g(1) show "\<exists>e. der_element e \<and> cbs_bytes cbs = e @ cbs_bytes c"
    by (auto simp: element_spec_der_iff der_element_def)
qed

lemma der_element_nonempty: "der_element e \<Longrightarrow> 1 \<le> length e"
  by (auto simp: der_element_def der_def der_len_def)

lemma length_der_elements: "list_all der_element es \<Longrightarrow> length es \<le> length (concat es)"
proof (induction es)
  case (Cons e es)
  then show ?case using der_element_nonempty [of e] by simp
qed simp

lemma count_children_Some:
  "cbs_wf cbs \<Longrightarrow> count_children cbs n = Some m \<Longrightarrow>
     \<exists>es. list_all der_element es \<and> cbs_bytes cbs = concat es \<and> m = n + word_of_nat (length es)"
proof (induction cbs n rule: count_children.induct)
  case (1 cbs n)
  show ?case
  proof (cases "CBS_len cbs = 0")
    case True
    then have "cbs_bytes cbs = []" by (simp add: cbs_bytes_def)
    then show ?thesis using 1(3) True by (intro exI [of _ "[]"]) (simp add: count_children.simps)
  next
    case False
    with 1(3) obtain el c where c: "CBS_get_any_asn1_element cbs = (Some el, c)" "count_children c (n + 1) = Some m"
      by (subst (asm) count_children.simps) (auto split: prod.splits option.splits)
    note g = get_element_Some [OF 1(2) c(1)]
    from 1(1) [OF False c(1) [symmetric] refl g(1) c(2)] obtain es where
      es: "list_all der_element es" "cbs_bytes c = concat es" "m = n + 1 + word_of_nat (length es)" by blast
    from g(2) obtain e where "der_element e" "cbs_bytes cbs = e @ concat es" using es(2) by auto
    with es show ?thesis by (intro exI [of _ "e # es"]) (simp add: algebra_simps)
  qed
qed

lemma count_children_None:
  "cbs_wf cbs \<Longrightarrow> count_children cbs n = None \<Longrightarrow> list_all der_element es \<Longrightarrow> cbs_bytes cbs \<noteq> concat es"
proof (induction cbs n arbitrary: es rule: count_children.induct)
  case (1 cbs n)
  have nz: "CBS_len cbs \<noteq> 0" using 1(3) by (auto simp: count_children.simps)
  show ?case
  proof
    assume b: "cbs_bytes cbs = concat es"
    have "cbs_bytes cbs \<noteq> []" using nz 1(2) by (auto simp: cbs_bytes_def cbs_wf_def unat_eq_zero)
    with b 1(4) obtain e es' where es: "es = e # es'" "der_element e" "list_all der_element es'" by (cases es) auto
    with b have "cbs_bytes cbs = e @ concat es'" by simp
    from get_element_der [OF 1(2) es(2) this] obtain el c where
      c: "CBS_get_any_asn1_element cbs = (Some el, c)" "cbs_wf c" "cbs_bytes c = concat es'" .
    have "count_children c (n + 1) = None" using 1(3) nz c(1) by (subst (asm) count_children.simps) simp
    from 1(1) [OF nz c(1) [symmetric] refl c(2) this es(3)] c(3) show False by simp
  qed
qed

lemma get_children_Some:
  "cbs_wf cbs \<Longrightarrow> list_all der_element es \<Longrightarrow> cbs_bytes cbs = concat es \<Longrightarrow>
     \<exists>cs. get_children (length es) cbs = Some cs \<and> list_all cbs_wf cs \<and> map cbs_bytes cs = es"
proof (induction es arbitrary: cbs)
  case (Cons e es)
  from Cons.prems obtain el c where c: "CBS_get_any_asn1_element cbs = (Some el, c)" "cbs_wf (el_out el)"
    "cbs_bytes (el_out el) = e" "cbs_wf c" "cbs_bytes c = concat es"
    using get_element_der [OF Cons.prems(1), of e "concat es"] by auto
  from Cons.IH [OF c(4) _ c(5)] Cons.prems(2) obtain cs where
    "get_children (length es) c = Some cs" "list_all cbs_wf cs" "map cbs_bytes cs = es" by auto
  with c show ?case by simp
qed simp

lemma write_children_result:
  "list_all cbs_wf cs \<Longrightarrow> unat off + length (concat (map cbs_bytes cs)) \<le> length out \<Longrightarrow>
     unat off + length (concat (map cbs_bytes cs)) < 2 ^ 64 \<Longrightarrow>
     write_children off cs out = take (unat off) out @ concat (map cbs_bytes cs) @
       drop (unat off + length (concat (map cbs_bytes cs))) out"
proof (induction cs arbitrary: off out)
  case (Cons c cs)
  let ?b = "cbs_bytes c"
  have c: "length ?b = unat (CBS_len c)" using Cons.prems(1) by (simp add: cbs_bytes_def cbs_wf_def)
  have off: "unat (off + CBS_len c) = unat off + length ?b"
    using Cons.prems(3) c by (subst unat_add_no_wrap) simp_all
  have "write_children off (c # cs) out = write_children (off + CBS_len c) cs (store (unat off) ?b out)"
    by (simp add: cbs_bytes_def)
  also have "\<dots> = take (unat off + length ?b) (store (unat off) ?b out) @ concat (map cbs_bytes cs) @
      drop (unat off + length ?b + length (concat (map cbs_bytes cs))) (store (unat off) ?b out)"
    unfolding off [symmetric] using Cons.prems by (intro Cons.IH) (simp_all add: off store_def)
  finally show ?case using Cons.prems(2) by (simp add: store_def ac_simps)
qed simp

section \<open>The result\<close>

lemma CBB_data_range:
  assumes "cbb_wf cbb" "\<not> error (base cbb)" "length (children cbb) = d"
  shows "unat (CBB_data_start cbb d) + unat (CBB_len cbb d) = unat (blen (base cbb))"
proof (cases d)
  case 0
  then show ?thesis by (simp add: CBB_data_start_def CBB_len_def)
next
  case (Suc m)
  let ?c = "children cbb ! m" and ?n = "unat (blen (base cbb))"
  have "chain_wf 0 (children cbb) ?n" using assms by (simp add: cbb_wf_def)
  from chain_wf_split [OF _ this, of m] Suc assms(3) have "chain_wf (child_start ?c) (drop (Suc m) (children cbb)) ?n"
    by (simp flip: Cons_nth_drop_Suc)
  from chain_wf_le [OF this] have le: "unat (offset ?c) + unat (pending_len_len ?c) \<le> ?n"
    by (simp add: child_start_def)
  let ?p = "ucast (pending_len_len ?c) :: size_t"
  have p: "unat ?p = unat (pending_len_len ?c)" by (simp add: unat_ucast_up)
  have "unat (offset ?c + ?p) = unat (offset ?c) + unat ?p"
    using order.strict_trans1 [OF le unat_lt2p] by (intro unat_add_no_wrap) (simp only: p)
  moreover have "unat (blen (base cbb) - offset ?c - ?p) = ?n - unat (offset ?c) - unat ?p"
    using le p by (simp add: unat_sub word_le_nat_alt)
  ultimately show ?thesis using Suc le p by (simp add: CBB_data_start_def CBB_len_def Let_def)
qed

definition flushed_contents :: "CBB \<Rightarrow> nat \<Rightarrow> u8 list" where
  "flushed_contents cbb d = drop (unat (CBB_data_start cbb d)) (bytes (base cbb))"

text \<open>The view of the contents that the first loop reads.\<close>

lemma contents_view:
  assumes "cbb_wf cbb" "\<not> error (base cbb)" "length (children cbb) = d"
  shows "cbs_wf (CBS_init (drop (unat (CBB_data_start cbb d)) (buf_bytes (base cbb))) (CBB_len cbb d))"
    "cbs_bytes (CBS_init (drop (unat (CBB_data_start cbb d)) (buf_bytes (base cbb))) (CBB_len cbb d)) =
       flushed_contents cbb d"
    "length (flushed_contents cbb d) = unat (CBB_len cbb d)"
proof -
  note r = CBB_data_range [OF assms]
  have b: "unat (blen (base cbb)) \<le> length (buf_bytes (base cbb))"
    using assms(1) by (auto simp: cbb_wf_def buffer_wf_def word_le_nat_alt)
  then show "cbs_wf (CBS_init (drop (unat (CBB_data_start cbb d)) (buf_bytes (base cbb))) (CBB_len cbb d))"
    using r by (simp add: cbs_wf_def CBS_init_def)
  show "cbs_bytes (CBS_init (drop (unat (CBB_data_start cbb d)) (buf_bytes (base cbb))) (CBB_len cbb d)) =
       flushed_contents cbb d"
    using r by (simp add: cbs_bytes_def CBS_init_def flushed_contents_def bytes_def drop_take flip: r)
  show "length (flushed_contents cbb d) = unat (CBB_len cbb d)"
    using r b by (simp add: flushed_contents_def bytes_def)
qed

lemma memdup_Some:
  "OPENSSL_memdup malloc p n = Some copy \<Longrightarrow> unat n \<le> length p \<Longrightarrow> take (unat n) copy = take (unat n) p \<and> unat n \<le> length copy"
  by (auto simp: OPENSSL_memdup_def memcpy_def split: if_splits option.splits)

lemma memdup_None: "OPENSSL_memdup malloc p n = None \<Longrightarrow> n \<noteq> 0 \<Longrightarrow> OPENSSL_malloc malloc n = None"
  by (auto simp: OPENSSL_memdup_def split: option.splits)

lemma calloc_None: "OPENSSL_calloc malloc n 16 = None \<Longrightarrow> OPENSSL_malloc malloc (n * 16) = None \<or> 2 ^ 60 \<le> unat n"
  by (auto simp: OPENSSL_calloc_def OPENSSL_zalloc_def word_less_nat_alt unat_div_distrib unsigned_minus_1_eq_mask
      mask_eq_exp_minus_1 split: if_splits option.splits)

lemma OPENSSL_malloc_None: "OPENSSL_malloc malloc n = None \<Longrightarrow> unat n < 2 ^ 63 \<Longrightarrow> malloc (n + 8) = None"
  by (auto simp: OPENSSL_malloc_def OPENSSL_MALLOC_PREFIX_def add_wraps_iff split: if_splits option.splits)

text \<open>A request for memory that sorting the elements makes, and that was refused.\<close>

definition request_refused :: "libc_malloc \<Rightarrow> u8 list list \<Rightarrow> bool" where
  "request_refused malloc es \<longleftrightarrow> 2 \<le> length es \<and>
     (malloc (word_of_nat (length (concat es)) + 8) = None \<or> malloc (word_of_nat (length es) * 16 + 8) = None)"

lemma length_concat_sort: "length (concat (sort es)) = length (concat es)"
  by (metis length_concat mset_map mset_sort sum_mset_sum_list)

lemma flush_set_of_rewrites:
  assumes q: "qsort_spec qsort" and wf: "cbb_wf cbb" "\<not> error (base cbb)" "length (children cbb) = d"
    and es: "list_all der_element es" "flushed_contents cbb d = concat es"
    and c: "OPENSSL_memdup malloc (drop (unat (CBB_data_start cbb d)) (buf_bytes (base cbb))) (CBB_len cbb d) = Some copy"
  obtains cs where "get_children (length es) (CBS_init copy (CBB_len cbb d)) = Some cs"
    "write_children 0 (qsort compare_set_of_element cs) (drop (unat (CBB_data_start cbb d)) (buf_bytes (base cbb))) =
       concat (sort es) @ drop (unat (blen (base cbb))) (buf_bytes (base cbb))"
proof -
  let ?start = "unat (CBB_data_start cbb d)" and ?len = "CBB_len cbb d" and ?q = "buf_bytes (base cbb)"
  note range = CBB_data_range [OF wf] and view = contents_view [OF wf]
  have p: "unat ?len \<le> length (drop ?start ?q)" using view(1) by (simp add: cbs_wf_def CBS_init_def)
  note copy = memdup_Some [OF c p]
  have "cbs_wf (CBS_init copy ?len)" using copy by (simp add: cbs_wf_def CBS_init_def)
  moreover have "cbs_bytes (CBS_init copy ?len) = concat es"
    using copy view(2) es(2) by (simp add: cbs_bytes_def CBS_init_def)
  ultimately obtain cs where cs: "get_children (length es) (CBS_init copy ?len) = Some cs" "list_all cbs_wf cs" "map cbs_bytes cs = es"
    using get_children_Some [OF _ es(1)] by blast
  note sorted = qsort_elements [OF q cs(2), unfolded cs(3)]
  have len: "length (concat (sort es)) = unat ?len" using length_concat_sort [of es] es(2) view(3) by simp
  show thesis
  proof (rule that [OF cs(1)])
    have "write_children 0 (qsort compare_set_of_element cs) (drop ?start ?q) =
        concat (sort es) @ drop (unat ?len) (drop ?start ?q)"
      by (subst write_children_result [OF sorted(2)]) (use p len unat_lt2p [of ?len] in \<open>simp_all add: sorted(1)\<close>)
    then show "write_children 0 (qsort compare_set_of_element cs) (drop ?start ?q) =
        concat (sort es) @ drop (unat (blen (base cbb))) ?q"
      using range by (simp add: add.commute)
  qed
qed

lemma flushed_contents_write:
  assumes "cbb_wf cbb" "\<not> error (base cbb)" "length (children cbb) = d" "length out = length (flushed_contents cbb d)"
    and f: "\<And>p. f p = take (unat (CBB_data_start cbb d)) p @ g (drop (unat (CBB_data_start cbb d)) p)"
    and g: "g (drop (unat (CBB_data_start cbb d)) (buf_bytes (base cbb))) = out @ drop (unat (blen (base cbb))) (buf_bytes (base cbb))"
    and g0: "flushed_contents cbb d \<noteq> []"
  shows "cbb_wf (cbb\<lparr>base := write_buf f (base cbb)\<rparr>)"
    "bytes (write_buf f (base cbb)) = take (unat (CBB_data_start cbb d)) (bytes (base cbb)) @ out"
proof -
  let ?start = "unat (CBB_data_start cbb d)" and ?q = "buf_bytes (base cbb)" and ?n = "unat (blen (base cbb))"
  note range = CBB_data_range [OF assms(1-3)] and view = contents_view [OF assms(1-3)]
  have n: "?n \<le> length ?q" using assms(1) by (auto simp: cbb_wf_def buffer_wf_def word_le_nat_alt)
  have w: "buf_bytes (write_buf f (base cbb)) = take ?start ?q @ out @ drop ?n ?q"
  proof (cases "buf (base cbb)")
    case None
    with g0 show ?thesis by (simp add: flushed_contents_def bytes_def buf_bytes_def)
  next
    case (Some p)
    with g show ?thesis by (simp add: buf_bytes_def write_buf_def f)
  qed
  have out: "?start + length out = ?n" using range view(3) assms(4) by simp
  then have "length (buf_bytes (write_buf f (base cbb))) = length ?q" using n by (simp add: w)
  then show "cbb_wf (cbb\<lparr>base := write_buf f (base cbb)\<rparr>)"
    using assms(1) by (simp add: cbb_wf_def buffer_wf_write)
  show "bytes (write_buf f (base cbb)) = take ?start (bytes (base cbb)) @ out"
  proof -
    have "length (take ?start ?q @ out) = ?n" using out n by simp
    then have "take ?n ((take ?start ?q @ out) @ drop ?n ?q) = take ?start ?q @ out" by (metis append_eq_conv_conj)
    moreover have "take ?start (take ?n ?q) = take ?start ?q" using out by (simp add: min_def)
    ultimately show ?thesis by (simp add: bytes_def w)
  qed
qed

text \<open>
  After the flush the elements are put in order, in place; when the contents are not a
  sequence of DER elements, or there is no memory, they stay as they are.
\<close>

lemma flush_set_of_result:
  assumes q: "qsort_spec qsort" and wf: "cbb_wf cbb" "\<not> error (base cbb)" "length (children cbb) = d"
    and f: "CBB_flush malloc cbb0 d = (True, cbb)" and r: "CBB_flush_asn1_set_of malloc qsort cbb0 d = (ok, cbb')"
  shows "if ok then \<exists>es. list_all der_element es \<and> flushed_contents cbb d = concat es \<and>
           bytes (base cbb') = take (unat (CBB_data_start cbb d)) (bytes (base cbb)) @ concat (sort es) \<and>
           children cbb' = children cbb \<and> cbb_wf cbb' \<and> \<not> error (base cbb')
         else cbb' = cbb \<and> (2 ^ 59 \<le> length (flushed_contents cbb d) \<or>
           (\<nexists>es. list_all der_element es \<and> flushed_contents cbb d = concat es) \<or>
           (\<exists>es. list_all der_element es \<and> flushed_contents cbb d = concat es \<and> request_refused malloc es))"
proof -
  let ?start = "CBB_data_start cbb d" and ?len = "CBB_len cbb d"
  let ?p = "drop (unat ?start) (buf_bytes (base cbb))" and ?contents = "flushed_contents cbb d"
  note view = contents_view [OF wf]
  note code = CBB_flush_asn1_set_of_def [of malloc qsort cbb0 d, unfolded f prod.case bool.case Let_def]
  show ?thesis
  proof (cases "count_children (CBS_init ?p ?len) 0")
    case None
    then show ?thesis
      using r count_children_None [OF view(1) None] view(2) unfolding code by auto
  next
    case (Some n)
    from count_children_Some [OF view(1) Some] view(2) obtain es where
      es: "list_all der_element es" "?contents = concat es" "n = word_of_nat (length es)" by auto
    have le: "length es \<le> unat ?len" using length_der_elements [OF es(1)] es(2) view(3) by simp
    then have n: "unat n = length es"
      using unat_lt2p [of ?len] unfolding es(3) by (intro unat_eq_of_nat) (rule order.strict_trans1)
    show ?thesis
    proof (cases "n < 2")
      case True
      then have "sort es = es" using n by (cases es) (auto simp: word_less_nat_alt)
      moreover have "ok" "cbb' = cbb" using r Some True unfolding code by auto
      moreover have "bytes (base cbb) = take (unat ?start) (bytes (base cbb)) @ concat es"
        unfolding es(2) [symmetric] flushed_contents_def by simp
      ultimately show ?thesis using es wf by auto
    next
      case False
      with n le have nz: "?len \<noteq> 0" by (auto simp: word_less_nat_alt)
      show ?thesis
      proof (cases "OPENSSL_memdup malloc ?p ?len")
        case None
        have "request_refused malloc es" if "length ?contents < 2 ^ 59"
        proof -
          have "unat ?len = length (concat es)" using view(3) es(2) by simp
          then have "?len = word_of_nat (length (concat es))" by (simp flip: \<open>unat ?len = length (concat es)\<close>)
          then show ?thesis
            using OPENSSL_malloc_None [OF memdup_None [OF None nz]] that view(3) False n
            by (simp add: request_refused_def word_less_nat_alt)
        qed
        with None r Some False es(1,2) show ?thesis unfolding code by (auto simp: not_less)
      next
        case copy: (Some copy)
        show ?thesis
        proof (cases "OPENSSL_calloc malloc n 16")
          case None
          have "request_refused malloc es" if l: "length ?contents < 2 ^ 59"
          proof -
            have u: "unat n < 2 ^ 59" using n le view(3) l by simp
            then have "unat (n * 16) = unat n * 16" by (simp add: unat_word_ariths(2))
            moreover have "OPENSSL_malloc malloc (n * 16) = None" using calloc_None [OF None] u by auto
            ultimately have "malloc (n * 16 + 8) = None" using OPENSSL_malloc_None u by simp
            then show ?thesis using False n by (simp add: request_refused_def es(3) word_less_nat_alt)
          qed
          with None r Some False copy es(1,2) show ?thesis unfolding code by (auto simp: not_less)
        next
          case (Some kids)
          from flush_set_of_rewrites [OF q wf es(1,2) copy] obtain cs where
            cs: "get_children (length es) (CBS_init copy ?len) = Some cs"
              "write_children 0 (qsort compare_set_of_element cs) ?p =
                 concat (sort es) @ drop (unat (blen (base cbb))) (buf_bytes (base cbb))" .
          let ?f = "\<lambda>q. take (unat ?start) q @ write_children 0 (qsort compare_set_of_element cs) (drop (unat ?start) q)"
          have "length (concat (sort es)) = length ?contents" using es(2) by (simp only: length_concat_sort)
          moreover have "?contents \<noteq> []" using nz view(3) by (auto simp: unat_eq_zero)
          ultimately have "cbb_wf (cbb\<lparr>base := write_buf ?f (base cbb)\<rparr>)"
            "bytes (write_buf ?f (base cbb)) = take (unat ?start) (bytes (base cbb)) @ concat (sort es)"
            using flushed_contents_write [OF wf, of "concat (sort es)" ?f "write_children 0 (qsort compare_set_of_element cs)"] cs(2)
            by simp_all
          moreover have "ok" "cbb' = cbb\<lparr>base := write_buf ?f (base cbb)\<rparr>"
            using r \<open>count_children _ _ = _\<close> False copy Some cs(1) n unfolding code by auto
          ultimately show ?thesis using es wf(2) by auto
        qed
      qed
    qed
  qed
qed

section \<open>The property\<close>

text \<open>
  C12. Flushing a SET OF closes the pending children as \<open>CBB_flush\<close> does and then puts the elements into
  ascending order of their encodings, so that the result depends only on the elements and not on the
  order in which they were added. It fails, and then changes nothing more, only when the flush fails,
  the contents are not a sequence of DER elements, or one of its two requests for memory, for a copy of
  the contents and for 16 bytes per element, is refused; contents of $2^{59}$ bytes and more are left
  open.
\<close>

theorem CBB_flush_asn1_set_of_sorts:
  assumes "malloc_spec malloc" "qsort_spec qsort" "cbb_wf cbb" "\<not> error (base cbb)" "d \<le> length (children cbb)"
    and "CBB_flush malloc cbb d = (flush_ok, fcbb)" "CBB_flush_asn1_set_of malloc qsort cbb d = (ok, cbb')"
  shows "if ok then flush_ok \<and> (\<exists>es. list_all der_element es \<and> flushed_contents fcbb d = concat es \<and>
           bytes (base cbb') = take (unat (CBB_data_start fcbb d)) (bytes (base fcbb)) @ concat (sort es) \<and>
           children cbb' = children fcbb \<and> cbb_wf cbb' \<and> \<not> error (base cbb'))
         else cbb' = fcbb \<and> (\<not> flush_ok \<or> 2 ^ 59 \<le> length (flushed_contents fcbb d) \<or>
           (\<nexists>es. list_all der_element es \<and> flushed_contents fcbb d = concat es) \<or>
           (\<exists>es. list_all der_element es \<and> flushed_contents fcbb d = concat es \<and> request_refused malloc es))"
proof (cases flush_ok)
  case True
  have "cbb_wf fcbb" "\<not> error (base fcbb)" "length (children fcbb) = d"
    using CBB_flush_writes [OF assms(1,3-5)] assms(5,6) True by (auto simp: writes_def)
  from flush_set_of_result [OF assms(2) this assms(6) [unfolded eqTrueI [OF True]] assms(7)] True show ?thesis
    by (auto split: if_splits)
next
  case False
  then show ?thesis using assms(6,7) by (auto simp: CBB_flush_asn1_set_of_def)
qed

text \<open>A builder with two octet strings, and a sort that fulfils the standard's promise.\<close>

definition set_cbb :: CBB where
  "set_cbb = \<lparr>base = \<lparr>buf = Some [4, 1, 7, 4, 1, 2, 0, 0], blen = 6, cap = 8, can_resize = False, error = False\<rparr>,
     children = []\<rparr>"

definition set_malloc :: libc_malloc where
  "set_malloc n = Some (replicate (unat n) 0)"

primrec insert_by :: "('a \<Rightarrow> 'a \<Rightarrow> int) \<Rightarrow> 'a \<Rightarrow> 'a list \<Rightarrow> 'a list" where
  "insert_by cmp x [] = [x]"
| "insert_by cmp x (y # ys) = (if cmp x y \<le> 0 then x # y # ys else y # insert_by cmp x ys)"

definition set_qsort :: libc_qsort where
  "set_qsort cmp xs = foldr (insert_by cmp) xs []"

lemma mset_insert_by [simp]: "mset (insert_by cmp x ys) = add_mset x (mset ys)"
  by (induction ys) auto

lemma set_insert_by [simp]: "set (insert_by cmp x ys) = insert x (set ys)"
  by (metis mset_insert_by set_mset_add_mset_insert set_mset_mset)

lemma ascending_insert_by:
  assumes "consistent cmp A" "ascending cmp ys" "insert x (set ys) \<subseteq> A"
  shows "ascending cmp (insert_by cmp x ys)"
  using assms(2,3)
proof (induction ys)
  case (Cons y ys)
  have c: "comparison cmp A" using assms(1) by unfold_locales
  have xy: "x \<in> A" "y \<in> A" using Cons.prems(2) by auto
  show ?case
  proof (cases "cmp x y \<le> 0")
    case True
    have "cmp x z \<le> 0" if "z \<in> set ys" for z
      using comparison.cmp_trans [OF c xy, of z] True Cons.prems that by auto
    then show ?thesis using True Cons.prems by simp
  next
    case False
    then have "cmp y x \<le> 0" using comparison.cmp_swap [OF c xy(2,1)] by simp
    with False Cons show ?thesis by auto
  qed
qed simp

lemma set_qsort_spec: "qsort_spec set_qsort"
proof -
  have mset: "mset (set_qsort cmp xs) = mset xs" for cmp xs
    by (induction xs) (simp_all add: set_qsort_def)
  have "ascending cmp (set_qsort cmp xs)" if "consistent cmp A" "set xs \<subseteq> A" for cmp A xs
    using that(2)
  proof (induction xs)
    case (Cons x xs)
    have "set (set_qsort cmp xs) = set xs" using mset [of cmp xs] by (metis mset_eq_setD)
    with Cons show ?case using ascending_insert_by [OF that(1), of "set_qsort cmp xs" x] by (simp add: set_qsort_def)
  qed (simp add: set_qsort_def)
  then show ?thesis using mset unfolding qsort_spec_def by blast
qed

lemma demo_element: "der_element [4, 1, b]"
proof -
  have "der 4 [b] = [4, 1, b]" "\<not> reserved_tag 4"
    by (simp_all add: der_def tag_bytes_def der_len_def reserved_tag_def CBS_ASN1_CONSTRUCTED_def CBS_ASN1_TAG_SHIFT_def)
  then show ?thesis unfolding der_element_def by (intro exI [of _ 4] exI [of _ "[b]"]) simp
qed

text \<open>The allocator never refuses, so the call succeeds on two elements out of order.\<close>

theorem CBB_flush_asn1_set_of_sorts_witness:
  "fst (CBB_flush_asn1_set_of set_malloc set_qsort set_cbb 0) \<and>
   (\<exists>es. list_all der_element es \<and> concat es = [4, 1, 7, 4, 1, 2] \<and>
     bytes (base (snd (CBB_flush_asn1_set_of set_malloc set_qsort set_cbb 0))) = concat (sort es))"
proof -
  have m: "malloc_spec set_malloc" by (simp add: malloc_spec_def set_malloc_def)
  have wf: "cbb_wf set_cbb" "\<not> error (base set_cbb)" "0 \<le> length (children set_cbb)" by code_simp+
  have f: "CBB_flush set_malloc set_cbb 0 = (True, set_cbb)"
    by (simp add: CBB_flush_def set_cbb_def)
  obtain ok cbb' where r: "CBB_flush_asn1_set_of set_malloc set_qsort set_cbb 0 = (ok, cbb')" by fastforce
  have c: "flushed_contents set_cbb 0 = concat [[4, 1, 7], [4, 1, 2]]" "unat (CBB_data_start set_cbb 0) = 0" by code_simp+
  have "der_element [4, 1, 7]" "der_element [4, 1, 2]" by (simp_all add: demo_element)
  then have "\<exists>es. list_all der_element es \<and> flushed_contents set_cbb 0 = concat es"
    unfolding c by (intro exI [of _ "[[4, 1, 7], [4, 1, 2]]"]) simp
  moreover have "\<not> 2 ^ 59 \<le> length (flushed_contents set_cbb 0)" unfolding c by simp
  moreover have "\<not> request_refused set_malloc es" for es by (simp add: request_refused_def set_malloc_def)
  moreover note sorts = CBB_flush_asn1_set_of_sorts [OF m set_qsort_spec wf f r]
  ultimately have "ok" by (metis (full_types))
  with sorts r c show ?thesis by auto
qed

end
