(* ===== verification/Stack_Properties.thy ===== *)
theory Stack_Properties
  imports Stack_Lists Cbb_Set
begin

text \<open>
  The properties of the stacks of stack.c.
\<close>

section \<open>Stacks\<close>

text \<open>The comparison of SET OF elements, on pointers to them.\<close>

interpretation set_of_ptrs: ptr_comparison "\<lambda>p q. compare_set_of_element (mem p) (mem q)" "{p. cbs_wf (mem p)}" for mem
proof
  show "consistent (\<lambda>p q. compare_set_of_element (mem p) (mem q)) {p. cbs_wf (mem p)}"
    using consistent_map [OF set_of.cmp_consistent, of mem] by simp
qed

lemma stack_wf_rearranged:
  "stack_wf sk \<Longrightarrow> rearranged (unat (num sk)) sk sk' \<Longrightarrow> stack_wf sk' \<and> mset (elements sk') = mset (elements sk)"
  using rearranged_fields [of "unat (num sk)" sk sk']
  by (simp add: stack_wf_def elements_def) (simp add: rearranged_def)

text \<open>
  C6. Sorting a stack with a consistent comparison function terminates without a failed
  assertion and leaves the same elements in ascending order, with the flag \<open>sorted\<close> set.
\<close>

theorem OPENSSL_sk_sort_sorts:
  assumes "stack_wf sk" "comp sk = Some c" "consistent (call c) (set (elements sk))" "flag_ok call sk"
  shows "\<exists>sk'. OPENSSL_sk_sort (Some sk) call = Some (Some sk') \<and> stack_wf sk' \<and> mset (elements sk') = mset (elements sk) \<and>
    ascending (call c) (elements sk') \<and> is_sorted sk' \<and> comp sk' = Some c"
proof (cases "is_sorted sk")
  case True
  then show ?thesis using assms by (auto simp: OPENSSL_sk_sort_def flag_ok_def)
next
  case False
  show ?thesis
  proof (cases "2 \<le> num sk")
    case small: False
    then have "length (elements sk) \<le> 1" using assms(1) by (simp add: word_le_nat_alt)
    then have "ascending (call c) (elements sk)" by (cases "elements sk") auto
    then show ?thesis using assms(1,2) False small
      by (intro exI [of _ "sk\<lparr>is_sorted := True\<rparr>"]) (simp add: OPENSSL_sk_sort_def stack_wf_def elements_def)
  next
    case True
    have cmp: "ptr_comparison (call c) (set (elements sk))"
      using assms(3) by (simp add: ptr_comparison_def comparison_def)
    have "unat (num sk) \<le> length (sk_data sk)" "unat (num sk) \<le> 9223372036854775807"
      "set (take (unat (num sk)) (sk_data sk)) \<subseteq> set (elements sk)"
      using assms(1) stack_wf_length by (auto simp: stack_wf_def elements_def)
    from ptr_comparison.heap_sort_spec [OF cmp this True] obtain i sk1 sk2 where
      s: "parent_idx (num sk - 1) = Some i" "build_loop (call c) sk i = Some sk1" "num sk1 = num sk"
        "extract_loop (call c) sk1 (num sk1 - 1) = Some sk2" "rearranged (unat (num sk)) sk sk2"
        "ascending (call c) (take (unat (num sk)) (sk_data sk2))" by metis
    have "OPENSSL_sk_sort (Some sk) call = Some (Some (sk2\<lparr>is_sorted := True\<rparr>))"
      using assms(2) False True s(1,2,4) by (simp add: OPENSSL_sk_sort_def)
    then show ?thesis
      using stack_wf_rearranged [OF assms(1) s(5)] rearranged_fields [OF s(5)] s(6) assms(2)
      by (simp add: stack_wf_def elements_def)
  qed
qed

text \<open>A stack of three pointers, compared as numbers.\<close>

definition demo_stack :: OPENSSL_STACK where
  "demo_stack = \<lparr>num = 3, sk_data = [5, 9, 2, 0], is_sorted = False, num_alloc = 4,
     comp = Some (\<lambda>p q. int (unat p) - int (unat q))\<rparr>"

lemma demo_stack_facts:
  "stack_wf demo_stack" "elements demo_stack = [5, 9, 2]" "flag_ok (\<lambda>c. c) demo_stack"
  by (simp_all add: demo_stack_def stack_wf_def elements_def flag_ok_def)

lemma consistent_numbers: "consistent (\<lambda>p q. int (unat p) - int (unat q)) A"
  by (simp add: consistent_def)

theorem OPENSSL_sk_sort_sorts_witness:
  "\<exists>sk'. OPENSSL_sk_sort (Some demo_stack) (\<lambda>c. c) = Some (Some sk') \<and> mset (elements sk') = mset [5, 9, 2] \<and>
     ascending (\<lambda>p q. int (unat p) - int (unat q)) (elements sk')"
proof -
  have "comp demo_stack = Some (\<lambda>p q. int (unat p) - int (unat q))" by (simp add: demo_stack_def)
  from OPENSSL_sk_sort_sorts [OF demo_stack_facts(1) this consistent_numbers demo_stack_facts(3)] show ?thesis
    unfolding demo_stack_facts(2) by blast
qed

text \<open>
  C8. \<open>OPENSSL_sk_find\<close> never fails an assertion and returns the first index whose element
  matches, or none when there is no match: with the binary search of a sorted stack as with the
  linear search.
\<close>

theorem OPENSSL_sk_find_first_match:
  assumes "stack_wf sk" "flag_ok call sk" "\<forall>c. comp sk = Some c \<longrightarrow> consistent (call c) (insert p (set (elements sk)))"
  shows "\<exists>r. OPENSSL_sk_find (Some sk) p call = Some r \<and> map_option unat r = first_index (matches sk p call) (elements sk)"
  by (rule OPENSSL_sk_find_first) (use assms stack_wf_length in \<open>auto simp: flag_ok_def\<close>)

definition demo_sorted :: OPENSSL_STACK where
  "demo_sorted = \<lparr>num = 4, sk_data = [2, 5, 5, 9], is_sorted = True, num_alloc = 4,
     comp = Some (\<lambda>p q. int (unat p) - int (unat q))\<rparr>"

theorem OPENSSL_sk_find_first_match_witness:
  "\<exists>r. OPENSSL_sk_find (Some demo_sorted) 5 (\<lambda>c. c) = Some r \<and> map_option unat r = Some 1"
proof -
  have "stack_wf demo_sorted" "flag_ok (\<lambda>c. c) demo_sorted"
    "first_index (matches demo_sorted 5 (\<lambda>c. c)) (elements demo_sorted) = Some 1"
    by (simp_all add: demo_sorted_def stack_wf_def elements_def flag_ok_def first_index_Some matches_def)
  moreover have "\<forall>c. comp demo_sorted = Some c \<longrightarrow> consistent c (insert 5 (set (elements demo_sorted)))"
    by (simp add: demo_sorted_def consistent_def)
  ultimately show ?thesis using OPENSSL_sk_find_first_match [of demo_sorted "\<lambda>c. c" 5] by metis
qed

text \<open>
  \<open>OPENSSL_sk_set\<close> does not clear the flag, so the search of a sorted stack can miss an element
  that was set.
\<close>

lemma OPENSSL_sk_set_keeps_flag:
  "case OPENSSL_sk_set (Some demo_sorted) 3 1 of
     (_, r) \<Rightarrow> OPENSSL_sk_value r 3 = 1 \<and> OPENSSL_sk_is_sorted r \<and> OPENSSL_sk_find r 1 (\<lambda>c. c) = Some None"
  by code_simp

text \<open>
  C13. A stack is the list of its elements: an insertion puts the pointer at the given index, or
  at the end, unless the stack is full or there is no memory, and clears the flag; a deletion
  returns and removes the element at the index, and \<open>OPENSSL_sk_delete_if\<close> keeps the elements
  that fail the test, in order. The array's invariant and the truth of the flag are kept.
\<close>

theorem stack_refines_list:
  assumes "malloc_spec malloc" "stack_wf sk" "flag_ok call sk"
  shows "(case OPENSSL_sk_insert malloc (Some sk) p i of
      (n, r) \<Rightarrow> n = 0 \<and> r = Some sk \<and> (unat (num sk) = 2147483647 \<or> sk_grow malloc sk = None) \<or>
        (\<exists>sk'. r = Some sk' \<and> stack_wf sk' \<and> flag_ok call sk' \<and> unat n = length (elements sk') \<and>
           elements sk' = take (unat i) (elements sk) @ p # drop (unat i) (elements sk))) \<and>
    (case OPENSSL_sk_delete (Some sk) i of
      (q, r) \<Rightarrow> if length (elements sk) \<le> unat i then q = 0 \<and> r = Some sk
        else q = elements sk ! unat i \<and> (\<exists>sk'. r = Some sk' \<and> stack_wf sk' \<and> flag_ok call sk' \<and>
           elements sk' = take (unat i) (elements sk) @ drop (unat i + 1) (elements sk))) \<and>
    (case OPENSSL_sk_delete_if (Some sk) (\<lambda>f q s. (f q, s)) f s of
      (r, s') \<Rightarrow> s' = s \<and> (\<exists>sk'. r = Some sk' \<and> stack_wf sk' \<and> flag_ok call sk' \<and>
         elements sk' = filter (\<lambda>q. \<not> f q) (elements sk)))"
  (is "?insert \<and> ?delete \<and> ?delete_if")
proof (intro conjI)
  show ?insert
    using OPENSSL_sk_insert_elements [OF assms(1,2), of p i] by (fastforce simp: flag_ok_def split: prod.split)
  show ?delete
  proof (cases "i < num sk")
    case True
    then have "\<not> length (elements sk) \<le> unat i" using assms(2) by (simp add: word_less_nat_alt)
    moreover obtain q r where d: "OPENSSL_sk_delete (Some sk) i = (q, r)" by fastforce
    moreover obtain sk' where sk': "r = Some sk'" "stack_wf sk'" "q = elements sk ! unat i" "comp sk' = comp sk"
      "is_sorted sk' = is_sorted sk" "elements sk' = take (unat i) (elements sk) @ drop (unat i + 1) (elements sk)"
      by (rule OPENSSL_sk_delete_elements [OF assms(2) True d])
    moreover have "flag_ok call sk'"
      using flag_ok_subseq [OF assms(3)] subseq_delete [of "unat i" "elements sk"] sk'(4-6) by metis
    ultimately show ?thesis by simp
  next
    case False
    then show ?thesis using assms(2) by (simp add: OPENSSL_sk_delete_def word_less_nat_alt word_le_nat_alt)
  qed
  have "keep (\<lambda>q s. (f q, s)) xs s = (filter (\<lambda>q. \<not> f q) xs, s)" for xs by (induction xs) (auto split: bool.split)
  then obtain sk' where "OPENSSL_sk_delete_if (Some sk) (\<lambda>f q s. (f q, s)) f s = (Some sk', s)" "stack_wf sk'"
    "elements sk' = filter (\<lambda>q. \<not> f q) (elements sk)" "comp sk' = comp sk" "is_sorted sk' = is_sorted sk"
    using OPENSSL_sk_delete_if_elements [OF assms(2), of "\<lambda>f q s. (f q, s)" f s] by metis
  then show ?delete_if using flag_ok_subseq [OF assms(3), of sk'] by simp
qed

theorem stack_refines_list_witness:
  "case OPENSSL_sk_delete (Some demo_stack) 1 of
     (q, r) \<Rightarrow> q = 9 \<and> (\<exists>sk'. r = Some sk' \<and> stack_wf sk' \<and> flag_ok (\<lambda>c. c) sk' \<and> elements sk' = [5, 2])"
proof -
  have "malloc_spec set_malloc" by (simp add: malloc_spec_def set_malloc_def)
  from stack_refines_list [OF this demo_stack_facts(1,3), where p = 0 and i = 1 and f = "\<lambda>q. False" and s = "()"]
  have "case OPENSSL_sk_delete (Some demo_stack) 1 of
      (q, r) \<Rightarrow> if length (elements demo_stack) \<le> unat (1 :: 64 word) then q = 0 \<and> r = Some demo_stack
        else q = elements demo_stack ! unat (1 :: 64 word) \<and> (\<exists>sk'. r = Some sk' \<and> stack_wf sk' \<and> flag_ok (\<lambda>c. c) sk' \<and>
           elements sk' = take (unat (1 :: 64 word)) (elements demo_stack) @ drop (unat (1 :: 64 word) + 1) (elements demo_stack))"
    by (elim conjE)
  then show ?thesis unfolding demo_stack_facts(2) by (simp split: prod.splits)
qed

end
