(* ===== verification/Lhash.thy ===== *)
theory Lhash
  imports Mem "HOL-Library.Multiset"
begin

text \<open>
  The hash tables of crypto/lhash/lhash.c. The items of a table are nodes of linked lists, so
  the model has an explicit heap: a partial map from addresses to items, with 0 as the null
  pointer. The array of buckets holds the addresses of the first items. A pointer to a pointer
  is a bucket or the \<open>next\<close> field of an item. An access through a pointer that is null or not
  allocated, or an index out of the array, makes the result \<open>None\<close>, as does a chain that never
  ends.
\<close>

section \<open>State\<close>

type_synonym addr = u64

record 'a LHASH_ITEM =
  item_data :: 'a
  next_item :: addr
  item_hash :: u32

type_synonym 'a heap = "addr \<Rightarrow> 'a LHASH_ITEM option"

record 'a LHASH =
  num_items :: size_t
  buckets :: "addr list"
  num_buckets :: size_t
  callback_depth :: u32
  lh_comp :: "'a \<Rightarrow> 'a \<Rightarrow> int"
  lh_hash :: "'a \<Rightarrow> u32"
  heap :: "'a heap"

text \<open>The wrappers that the callers pass to call the functions of the table.\<close>

type_synonym 'a call_hash = "('a \<Rightarrow> u32) \<Rightarrow> 'a \<Rightarrow> u32"

type_synonym 'a call_comp = "('a \<Rightarrow> 'a \<Rightarrow> int) \<Rightarrow> 'a \<Rightarrow> 'a \<Rightarrow> int"

text \<open>The allocation of an item: the address of a free place, or 0.\<close>

type_synonym 'a item_alloc = "'a heap \<Rightarrow> addr"

definition item_alloc_spec :: "'a item_alloc \<Rightarrow> bool" where
  "item_alloc_spec alloc \<longleftrightarrow> (\<forall>h. alloc h \<noteq> 0 \<longrightarrow> h (alloc h) = None)"

definition kMinNumBuckets :: size_t where
  "kMinNumBuckets = 16"

definition kMaxAverageChainLength :: size_t where
  "kMaxAverageChainLength = 2"

definition kMinAverageChainLength :: size_t where
  "kMinAverageChainLength = 1"

text \<open>The argument \<open>h\<close> is the heap in which the new table's items will be.\<close>

definition OPENSSL_lh_new :: "libc_malloc \<Rightarrow> 'a heap \<Rightarrow> ('a \<Rightarrow> u32) \<Rightarrow> ('a \<Rightarrow> 'a \<Rightarrow> int) \<Rightarrow> 'a LHASH option" where
  "OPENSSL_lh_new malloc h hash_func comp_func =
     (case OPENSSL_zalloc malloc 48 of
        None \<Rightarrow> None
      | Some _ \<Rightarrow>
          (case OPENSSL_calloc malloc kMinNumBuckets 8 of
             None \<Rightarrow> None
           | Some _ \<Rightarrow> Some \<lparr>num_items = 0, buckets = replicate (unat kMinNumBuckets) 0, num_buckets = kMinNumBuckets,
               callback_depth = 0, lh_comp = comp_func, lh_hash = hash_func, heap = h\<rparr>))"

definition OPENSSL_lh_num_items :: "'a LHASH \<Rightarrow> size_t" where
  "OPENSSL_lh_num_items lh = num_items lh"

section \<open>Search\<close>

datatype next_ptr = Bucket nat | Next addr

definition deref :: "'a LHASH \<Rightarrow> next_ptr \<Rightarrow> addr option" where
  "deref lh p =
     (case p of
        Bucket i \<Rightarrow> if i < length (buckets lh) then Some (buckets lh ! i) else None
      | Next a \<Rightarrow> map_option next_item (heap lh a))"

text \<open>The assignment \<open>*p = v\<close>.\<close>

definition assign :: "'a LHASH \<Rightarrow> next_ptr \<Rightarrow> addr \<Rightarrow> 'a LHASH" where
  "assign lh p v =
     (case p of
        Bucket i \<Rightarrow> lh\<lparr>buckets := (buckets lh)[i := v]\<rparr>
      | Next a \<Rightarrow> lh\<lparr>heap := (heap lh)(a := map_option (\<lambda>it. it\<lparr>next_item := v\<rparr>) (heap lh a))\<rparr>)"

text \<open>The loop over a chain, which ends at the first item whose data is \<open>found\<close>.\<close>

partial_function (option) find_next_ptr :: "('a \<Rightarrow> bool) \<Rightarrow> 'a LHASH \<Rightarrow> next_ptr \<Rightarrow> next_ptr option" where
  "find_next_ptr found lh ret =
     Option.bind (deref lh ret) (\<lambda>cur.
       if cur = 0 then Some ret
       else Option.bind (heap lh cur) (\<lambda>it. if found (item_data it) then Some ret else find_next_ptr found lh (Next cur)))"

definition bucket_of :: "u32 \<Rightarrow> size_t \<Rightarrow> nat" where
  "bucket_of h n = unat (ucast h mod n)"

definition get_next_ptr_and_hash :: "'a LHASH \<Rightarrow> 'a \<Rightarrow> 'a call_hash \<Rightarrow> 'a call_comp \<Rightarrow> (next_ptr \<times> u32) option" where
  "get_next_ptr_and_hash lh x call_hash_func call_cmp_func =
     (let h = call_hash_func (lh_hash lh) x
      in map_option (\<lambda>p. (p, h))
           (find_next_ptr (\<lambda>y. call_cmp_func (lh_comp lh) y x = 0) lh (Bucket (bucket_of h (num_buckets lh)))))"

definition get_next_ptr_by_key :: "'a LHASH \<Rightarrow> 'k \<Rightarrow> u32 \<Rightarrow> ('k \<Rightarrow> 'a \<Rightarrow> int) \<Rightarrow> next_ptr option" where
  "get_next_ptr_by_key lh key key_hash cmp_key =
     find_next_ptr (\<lambda>y. cmp_key key y = 0) lh (Bucket (bucket_of key_hash (num_buckets lh)))"

text \<open>The data of the item that a pointer to a pointer leads to, or the null pointer.\<close>

definition data_at :: "'a LHASH \<Rightarrow> next_ptr \<Rightarrow> 'a option option" where
  "data_at lh p =
     Option.bind (deref lh p) (\<lambda>cur. if cur = 0 then Some None else map_option (\<lambda>it. Some (item_data it)) (heap lh cur))"

definition OPENSSL_lh_retrieve :: "'a LHASH \<Rightarrow> 'a \<Rightarrow> 'a call_hash \<Rightarrow> 'a call_comp \<Rightarrow> 'a option option" where
  "OPENSSL_lh_retrieve lh x call_hash_func call_cmp_func =
     Option.bind (get_next_ptr_and_hash lh x call_hash_func call_cmp_func) (\<lambda>(p, _). data_at lh p)"

definition OPENSSL_lh_retrieve_key :: "'a LHASH \<Rightarrow> 'k \<Rightarrow> u32 \<Rightarrow> ('k \<Rightarrow> 'a \<Rightarrow> int) \<Rightarrow> 'a option option" where
  "OPENSSL_lh_retrieve_key lh key key_hash cmp_key =
     Option.bind (get_next_ptr_by_key lh key key_hash cmp_key) (data_at lh)"

section \<open>Resizing\<close>

text \<open>The inner loop of \<open>lh_rebucket\<close> moves the items of a chain to the front of their new chains.\<close>

partial_function (option) rebucket_chain :: "size_t \<Rightarrow> addr \<Rightarrow> 'a heap \<Rightarrow> addr list \<Rightarrow> ('a heap \<times> addr list) option" where
  "rebucket_chain n cur h new_buckets =
     (if cur = 0 then Some (h, new_buckets)
      else Option.bind (h cur) (\<lambda>it.
        let new_bucket = bucket_of (item_hash it) n
        in rebucket_chain n (next_item it) (h(cur \<mapsto> it\<lparr>next_item := new_buckets ! new_bucket\<rparr>))
             (new_buckets[new_bucket := cur])))"

fun rebucket_loop :: "size_t \<Rightarrow> addr list \<Rightarrow> 'a heap \<Rightarrow> addr list \<Rightarrow> ('a heap \<times> addr list) option" where
  "rebucket_loop n [] h new_buckets = Some (h, new_buckets)"
| "rebucket_loop n (b # bs) h new_buckets =
     Option.bind (rebucket_chain n b h new_buckets) (\<lambda>(h, new_buckets). rebucket_loop n bs h new_buckets)"

definition lh_rebucket :: "libc_malloc \<Rightarrow> 'a LHASH \<Rightarrow> size_t \<Rightarrow> 'a LHASH option" where
  "lh_rebucket malloc lh new_num_buckets =
     (let alloc_size = 8 * new_num_buckets in
      if alloc_size div 8 \<noteq> new_num_buckets then Some lh
      else case OPENSSL_zalloc malloc alloc_size of
             None \<Rightarrow> Some lh
           | Some _ \<Rightarrow>
               map_option (\<lambda>(h, new_buckets). lh\<lparr>heap := h, num_buckets := new_num_buckets, buckets := new_buckets\<rparr>)
                 (rebucket_loop new_num_buckets (take (unat (num_buckets lh)) (buckets lh)) (heap lh)
                   (replicate (unat new_num_buckets) 0)))"

definition lh_maybe_resize :: "libc_malloc \<Rightarrow> 'a LHASH \<Rightarrow> 'a LHASH option" where
  "lh_maybe_resize malloc lh =
     (if callback_depth lh > 0 then Some lh
      else if \<not> num_buckets lh \<ge> kMinNumBuckets then None
      else
        let avg_chain_length = num_items lh div num_buckets lh in
        if avg_chain_length > kMaxAverageChainLength then
          (let new_num_buckets = num_buckets lh * 2 in
           if new_num_buckets > num_buckets lh then lh_rebucket malloc lh new_num_buckets else Some lh)
        else if avg_chain_length < kMinAverageChainLength \<and> num_buckets lh > kMinNumBuckets then
          (let new_num_buckets = num_buckets lh div 2;
               new_num_buckets = (if new_num_buckets < kMinNumBuckets then kMinNumBuckets else new_num_buckets)
           in lh_rebucket malloc lh new_num_buckets)
        else Some lh)"

section \<open>Insertion, deletion and iteration\<close>

text \<open>The result, \<open>*old_data\<close>, and the table.\<close>

definition OPENSSL_lh_insert ::
  "libc_malloc \<Rightarrow> 'a item_alloc \<Rightarrow> 'a LHASH \<Rightarrow> 'a \<Rightarrow> 'a call_hash \<Rightarrow> 'a call_comp \<Rightarrow> (bool \<times> 'a option \<times> 'a LHASH) option" where
  "OPENSSL_lh_insert malloc alloc lh x call_hash_func call_cmp_func =
     Option.bind (get_next_ptr_and_hash lh x call_hash_func call_cmp_func) (\<lambda>(next_ptr, h).
       Option.bind (deref lh next_ptr) (\<lambda>cur.
         if cur \<noteq> 0 then
           Option.bind (heap lh cur) (\<lambda>it.
             Some (True, Some (item_data it), lh\<lparr>heap := (heap lh)(cur \<mapsto> it\<lparr>item_data := x\<rparr>)\<rparr>))
         else
           let item = alloc (heap lh) in
           if item = 0 then Some (False, None, lh)
           else
             let lh = lh\<lparr>heap := (heap lh)(item \<mapsto> \<lparr>item_data = x, next_item = 0, item_hash = h\<rparr>)\<rparr>;
                 lh = assign lh next_ptr item;
                 lh = lh\<lparr>num_items := num_items lh + 1\<rparr>
             in map_option (\<lambda>lh. (True, None, lh)) (lh_maybe_resize malloc lh)))"

definition OPENSSL_lh_delete :: "libc_malloc \<Rightarrow> 'a LHASH \<Rightarrow> 'a \<Rightarrow> 'a call_hash \<Rightarrow> 'a call_comp \<Rightarrow> ('a option \<times> 'a LHASH) option" where
  "OPENSSL_lh_delete malloc lh x call_hash_func call_cmp_func =
     Option.bind (get_next_ptr_and_hash lh x call_hash_func call_cmp_func) (\<lambda>(next_ptr, _).
       Option.bind (deref lh next_ptr) (\<lambda>item.
         if item = 0 then Some (None, lh)
         else
           Option.bind (heap lh item) (\<lambda>it.
             let lh = assign lh next_ptr (next_item it);
                 lh = lh\<lparr>heap := (heap lh)(item := None)\<rparr>;
                 lh = lh\<lparr>num_items := num_items lh - 1\<rparr>
             in map_option (\<lambda>lh. (Some (item_data it), lh)) (lh_maybe_resize malloc lh))))"

text \<open>
  The callback gets the data of an item and may change the table, also by inserting and
  deleting, and the state of its argument.
\<close>

type_synonym ('a, 's) callback = "'a \<Rightarrow> 'a LHASH \<times> 's \<Rightarrow> ('a LHASH \<times> 's) option"

partial_function (option) doall_chain :: "('a, 's) callback \<Rightarrow> addr \<Rightarrow> 'a LHASH \<times> 's \<Rightarrow> ('a LHASH \<times> 's) option" where
  "doall_chain func cur st =
     (if cur = 0 then Some st
      else Option.bind (heap (fst st) cur) (\<lambda>it. Option.bind (func (item_data it) st) (doall_chain func (next_item it))))"

partial_function (option) doall_loop :: "('a, 's) callback \<Rightarrow> size_t \<Rightarrow> 'a LHASH \<times> 's \<Rightarrow> ('a LHASH \<times> 's) option" where
  "doall_loop func i st =
     (if i < num_buckets (fst st)
      then Option.bind (doall_chain func (buckets (fst st) ! unat i) st) (doall_loop func (i + 1))
      else Some st)"

definition OPENSSL_lh_doall_arg :: "libc_malloc \<Rightarrow> 'a LHASH option \<Rightarrow> ('a, 's) callback \<Rightarrow> 's \<Rightarrow> ('a LHASH option \<times> 's) option" where
  "OPENSSL_lh_doall_arg malloc lh func arg =
     (case lh of
        None \<Rightarrow> Some (None, arg)
      | Some lh \<Rightarrow>
          let lh = (if callback_depth lh < - 1 then lh\<lparr>callback_depth := callback_depth lh + 1\<rparr> else lh) in
          Option.bind (doall_loop func 0 (lh, arg)) (\<lambda>(lh, arg).
            let lh = (if callback_depth lh < - 1 then lh\<lparr>callback_depth := callback_depth lh - 1\<rparr> else lh)
            in map_option (\<lambda>lh. (Some lh, arg)) (lh_maybe_resize malloc lh)))"

text \<open>\<open>OPENSSL_lh_free\<close> gives back the items of all chains; the heap that is left.\<close>

partial_function (option) free_chain :: "addr \<Rightarrow> 'a heap \<Rightarrow> 'a heap option" where
  "free_chain n h = (if n = 0 then Some h else Option.bind (h n) (\<lambda>it. free_chain (next_item it) (h(n := None))))"

definition OPENSSL_lh_free :: "'a LHASH option \<Rightarrow> 'a heap \<Rightarrow> 'a heap option" where
  "OPENSSL_lh_free lh h =
     (case lh of
        None \<Rightarrow> Some h
      | Some lh \<Rightarrow>
          fold (\<lambda>b h. Option.bind h (free_chain b)) (take (unat (num_buckets lh)) (buckets lh)) (Some (heap lh)))"

end
