(* ===== verification/Lhash_Chains.thy ===== *)
theory Lhash_Chains
  imports Lhash
begin

text \<open>
  The chains of a hash table as lists of addresses: what the search finds in a chain, what the
  assignment through a pointer to a pointer does to it, and that moving all items into a new
  array of buckets keeps them.
\<close>

section \<open>Paths\<close>

fun path :: "'a heap \<Rightarrow> addr \<Rightarrow> addr list \<Rightarrow> bool" where
  "path h p [] \<longleftrightarrow> p = 0"
| "path h p (a # as) \<longleftrightarrow> p = a \<and> a \<noteq> 0 \<and> (\<exists>it. h a = Some it \<and> path h (next_item it) as)"

lemma path_cong: "(\<And>a. a \<in> set as \<Longrightarrow> h' a = h a) \<Longrightarrow> path h' p as = path h p as"
  by (induction as arbitrary: p) auto

lemma path_nonzero: "path h p as \<Longrightarrow> a \<in> set as \<Longrightarrow> a \<noteq> 0 \<and> (\<exists>it. h a = Some it)"
  by (induction as arbitrary: p) auto

lemma path_zero [simp]: "path h 0 as \<longleftrightarrow> as = []"
  by (cases as) auto

lemma path_suffix: "path h p (pre @ a # rest) \<Longrightarrow> h a = Some it \<Longrightarrow> path h (next_item it) rest"
  by (induction pre arbitrary: p) auto

text \<open>Relinking the last item of the front part replaces the rest of the path.\<close>

lemma path_relink:
  assumes "path h p (pre @ z # post)" "z \<notin> set pre" "z \<notin> set post'" "path h q post'"
  shows "path (h(z := map_option (\<lambda>it. it\<lparr>next_item := q\<rparr>) (h z))) p (pre @ z # post')"
  using assms(1,2)
proof (induction pre arbitrary: p)
  case Nil
  then obtain it where it: "p = z" "z \<noteq> 0" "h z = Some it" by auto
  have "path (h(z \<mapsto> it\<lparr>next_item := q\<rparr>)) q post' = path h q post'"
    by (rule path_cong) (use assms(3) in auto)
  then have "path (h(z \<mapsto> it\<lparr>next_item := q\<rparr>)) z (z # post')" using assms(4) it(2) by simp
  then show ?case unfolding it(1,3) option.map append_Nil .
qed auto

section \<open>All chains of a table\<close>

definition chains :: "'a heap \<Rightarrow> addr list \<Rightarrow> addr list list \<Rightarrow> bool" where
  "chains h bs css \<longleftrightarrow> list_all2 (path h) bs css \<and> distinct (concat css)"

definition others :: "nat \<Rightarrow> addr list list \<Rightarrow> addr list" where
  "others i css = concat (take i css) @ concat (drop (Suc i) css)"

lemma concat_split: "i < length css \<Longrightarrow> concat css = concat (take i css) @ css ! i @ concat (drop (Suc i) css)"
  by (metis append_Cons concat.simps(2) concat_append id_take_nth_drop)

lemma concat_update: "i < length css \<Longrightarrow> concat (css[i := cs]) = concat (take i css) @ cs @ concat (drop (Suc i) css)"
  by (simp add: upd_conv_take_nth_drop)

lemma set_concat_split: "i < length css \<Longrightarrow> set (concat css) = set (css ! i) \<union> set (others i css)"
  by (subst concat_split) (auto simp: others_def)

lemma set_concat_update: "i < length css \<Longrightarrow> set (concat (css[i := cs])) = set cs \<union> set (others i css)"
  by (auto simp: concat_update others_def)

lemma distinct_others:
  "i < length css \<Longrightarrow> distinct (concat css) \<longleftrightarrow> distinct (css ! i) \<and> distinct (others i css) \<and> set (css ! i) \<inter> set (others i css) = {}"
  by (subst concat_split) (auto simp: others_def)

lemma distinct_update:
  "i < length css \<Longrightarrow> distinct (concat (css[i := cs])) \<longleftrightarrow> distinct cs \<and> distinct (others i css) \<and> set cs \<inter> set (others i css) = {}"
  by (subst concat_update) (auto simp: others_def)

lemma chains_length: "chains h bs css \<Longrightarrow> length css = length bs"
  by (auto simp: chains_def dest: list_all2_lengthD)

lemma chains_nth: "chains h bs css \<Longrightarrow> i < length bs \<Longrightarrow> path h (bs ! i) (css ! i)"
  by (simp add: chains_def list_all2_conv_all_nth)

lemma chains_item: "chains h bs css \<Longrightarrow> a \<in> set (concat css) \<Longrightarrow> a \<noteq> 0 \<and> (\<exists>it. h a = Some it)"
proof -
  assume c: "chains h bs css" and "a \<in> set (concat css)"
  then obtain cs where "cs \<in> set css" "a \<in> set cs" by auto
  then obtain i where "i < length css" "a \<in> set (css ! i)" by (metis in_set_conv_nth)
  with c show ?thesis using chains_nth [of h bs css i] chains_length [OF c] path_nonzero by metis
qed

lemma paths_cong:
  assumes "list_all2 (path h) bs css" "\<And>a. a \<in> set (concat css) \<Longrightarrow> h' a = h a"
  shows "list_all2 (path h') bs css"
proof -
  have "path h' b cs" if "path h b cs" "cs \<in> set css" for b cs
  proof -
    have "path h' b cs = path h b cs" by (rule path_cong) (use assms(2) that(2) in auto)
    with that(1) show ?thesis by simp
  qed
  with assms(1) show ?thesis unfolding list_all2_conv_all_nth by (metis nth_mem)
qed

lemma chains_cong: "chains h bs css \<Longrightarrow> (\<And>a. a \<in> set (concat css) \<Longrightarrow> h' a = h a) \<Longrightarrow> chains h' bs css"
  unfolding chains_def using paths_cong by blast

lemma chains_update:
  assumes "chains h bs css" "i < length bs" "path h' p cs" "\<And>a. a \<in> set (others i css) \<Longrightarrow> h' a = h a"
    and "distinct cs" "set cs \<inter> set (others i css) = {}"
  shows "chains h' (bs[i := p]) (css[i := cs])"
proof -
  note len = chains_length [OF assms(1)]
  have "path h' (bs ! j) (css ! j)" if j: "j < length bs" "j \<noteq> i" for j
  proof -
    have "set (css ! j) \<subseteq> set (others i css)"
    proof (cases "j < i")
      case True
      then have "css ! j \<in> set (take i css)" using j len assms(2) by (auto simp: in_set_conv_nth)
      then show ?thesis by (auto simp: others_def)
    next
      case False
      then have "css ! j = drop (Suc i) css ! (j - Suc i)" using j len by simp
      then have "css ! j \<in> set (drop (Suc i) css)"
        using False j len by (metis length_drop diff_less_mono linorder_neqE_nat nth_mem Suc_leI)
      then show ?thesis by (auto simp: others_def)
    qed
    then have "path h' (bs ! j) (css ! j) = path h (bs ! j) (css ! j)" using assms(4) by (intro path_cong) auto
    with chains_nth [OF assms(1) j(1)] show ?thesis by simp
  qed
  then have "list_all2 (path h') (bs[i := p]) (css[i := cs])"
    using assms(2,3) len by (auto simp: list_all2_conv_all_nth nth_list_update)
  moreover have "distinct (concat (css[i := cs]))"
    using assms(1,2,5,6) len by (simp add: distinct_update chains_def distinct_others [of i css])
  ultimately show ?thesis by (simp add: chains_def)
qed

section \<open>Search and assignment\<close>

abbreviation data_of :: "'a heap \<Rightarrow> addr \<Rightarrow> 'a" where
  "data_of h a \<equiv> item_data (the (h a))"

abbreviation hash_of :: "'a heap \<Rightarrow> addr \<Rightarrow> u32" where
  "hash_of h a \<equiv> item_hash (the (h a))"

text \<open>The pointer that leads to what follows the items \<open>pre\<close>.\<close>

definition loc :: "next_ptr \<Rightarrow> addr list \<Rightarrow> next_ptr" where
  "loc ret pre = (if pre = [] then ret else Next (last pre))"

definition head :: "addr list \<Rightarrow> addr" where
  "head as = (case as of [] \<Rightarrow> 0 | a # _ \<Rightarrow> a)"

lemma path_head: "path h p as \<Longrightarrow> p = head as"
  by (cases as) (auto simp: head_def)

lemma find_next_ptr_path:
  assumes "deref lh ret = Some p" "path (heap lh) p as"
  obtains pre post where "as = pre @ post" "find_next_ptr found lh ret = Some (loc ret pre)"
    "deref lh (loc ret pre) = Some (head post)" "\<forall>a\<in>set pre. \<not> found (data_of (heap lh) a)"
    "post \<noteq> [] \<longrightarrow> found (data_of (heap lh) (head post))"
proof -
  have "\<exists>pre post. as = pre @ post \<and> find_next_ptr found lh ret = Some (loc ret pre) \<and>
    deref lh (loc ret pre) = Some (head post) \<and> (\<forall>a\<in>set pre. \<not> found (data_of (heap lh) a)) \<and>
    (post \<noteq> [] \<longrightarrow> found (data_of (heap lh) (head post)))"
    using assms
  proof (induction as arbitrary: ret p)
    case Nil
    then show ?case
      by (intro exI [of _ "[]"]) (subst find_next_ptr.simps, simp add: loc_def head_def)
  next
    case (Cons a as)
    then obtain it where it: "p = a" "a \<noteq> 0" "heap lh a = Some it" "path (heap lh) (next_item it) as" by auto
    show ?case
    proof (cases "found (item_data it)")
      case True
      then show ?thesis using Cons.prems(1) it
        by (intro exI [of _ "[]"] exI [of _ "a # as"]) (subst find_next_ptr.simps, simp add: loc_def head_def)
    next
      case False
      have "find_next_ptr found lh ret = find_next_ptr found lh (Next a)"
        using Cons.prems(1) it False by (subst find_next_ptr.simps) simp
      moreover have "deref lh (Next a) = Some (next_item it)" using it(3) by (simp add: deref_def)
      ultimately obtain pre post where "as = pre @ post" "find_next_ptr found lh ret = Some (loc (Next a) pre)"
        "deref lh (loc (Next a) pre) = Some (head post)" "\<forall>a\<in>set pre. \<not> found (data_of (heap lh) a)"
        "post \<noteq> [] \<longrightarrow> found (data_of (heap lh) (head post))"
        using Cons.IH [OF _ it(4)] by metis
      moreover have "loc (Next a) pre = loc ret (a # pre)" by (simp add: loc_def)
      ultimately show ?thesis
        using False it(3) by (intro exI [of _ "a # pre"] exI [of _ post]) simp
    qed
  qed
  then show thesis using that by blast
qed

text \<open>Two heaps that differ at most in the links.\<close>

definition same_items :: "'a heap \<Rightarrow> 'a heap \<Rightarrow> bool" where
  "same_items h h' \<longleftrightarrow> (\<forall>a. map_option (\<lambda>it. (item_data it, item_hash it)) (h' a) = map_option (\<lambda>it. (item_data it, item_hash it)) (h a))"

lemma same_items_refl [simp]: "same_items h h"
  by (simp add: same_items_def)

lemma same_items_trans: "same_items a b \<Longrightarrow> same_items b c \<Longrightarrow> same_items a c"
  by (simp add: same_items_def)

lemma same_items_of:
  assumes "same_items h h'" "h a = Some it"
  shows "data_of h' a = data_of h a" "hash_of h' a = hash_of h a"
proof -
  have "map_option (\<lambda>it. (item_data it, item_hash it)) (h' a) = Some (item_data it, item_hash it)"
    using assms by (simp add: same_items_def)
  with assms(2) show "data_of h' a = data_of h a" "hash_of h' a = hash_of h a" by auto
qed

lemma assign_fields [simp]:
  "num_items (assign lh p v) = num_items lh" "num_buckets (assign lh p v) = num_buckets lh"
  "callback_depth (assign lh p v) = callback_depth lh" "lh_comp (assign lh p v) = lh_comp lh"
  "lh_hash (assign lh p v) = lh_hash lh" "length (buckets (assign lh p v)) = length (buckets lh)"
  by (simp_all add: assign_def split: next_ptr.split)

lemma assign_same_items: "same_items (heap lh) (heap (assign lh p v))"
  by (auto simp: assign_def same_items_def option.map_comp comp_def split: next_ptr.split)

lemma assign_chains:
  assumes "chains (heap lh) (buckets lh) css" "i < length (buckets lh)" "css ! i = pre @ post"
    and "path (heap lh) q post'" "distinct post'" "set post' \<inter> set pre = {}" "set post' \<inter> set (others i css) = {}"
  shows "chains (heap (assign lh (loc (Bucket i) pre) q)) (buckets (assign lh (loc (Bucket i) pre) q)) (css[i := pre @ post'])"
proof -
  note len = chains_length [OF assms(1)]
  have d: "distinct (css ! i)" "set (css ! i) \<inter> set (others i css) = {}"
    using assms(1,2) len by (simp_all add: chains_def distinct_others [of i css])
  show ?thesis
  proof (cases pre rule: rev_cases)
    case Nil
    then show ?thesis
      using chains_update [OF assms(1,2,4) refl assms(5,7)] by (simp add: loc_def assign_def)
  next
    case (snoc ys z)
    let ?h = "(heap lh)(z := map_option (\<lambda>it. it\<lparr>next_item := q\<rparr>) (heap lh z))"
    have p: "path (heap lh) (buckets lh ! i) (ys @ z # post)"
      using chains_nth [OF assms(1,2)] assms(3) snoc by simp
    have "path ?h (buckets lh ! i) (ys @ z # post')"
      by (rule path_relink [OF p _ _ assms(4)]) (use d(1) assms(3,6) snoc in auto)
    then have "chains ?h ((buckets lh)[i := buckets lh ! i]) (css[i := pre @ post'])"
      using assms d snoc by (intro chains_update [OF assms(1,2)]) auto
    then show ?thesis using snoc by (simp add: loc_def assign_def)
  qed
qed

end
