(* ===== verification/Lhash_Table.thy ===== *)
theory Lhash_Table
  imports Lhash_Chains
begin

text \<open>
  The invariant of a hash table, the set of the data in it, and what retrieving, inserting,
  deleting, resizing and iterating do to that set.
\<close>

section \<open>Moving the items into new buckets\<close>

definition placed :: "'a heap \<Rightarrow> size_t \<Rightarrow> addr list list \<Rightarrow> bool" where
  "placed h n css \<longleftrightarrow> (\<forall>i<length css. \<forall>a\<in>set (css ! i). bucket_of (hash_of h a) n = i)"

lemma bucket_of_less: "n \<noteq> 0 \<Longrightarrow> bucket_of h n < unat n"
  by (simp add: bucket_of_def unat_mod_distrib unat_gt_0)

lemma placed_same_items:
  assumes "placed h n css" "same_items h h'" "chains h bs css"
  shows "placed h' n css"
proof -
  have "hash_of h' a = hash_of h a" if "a \<in> set (concat css)" for a
    using chains_item [OF assms(3) that] same_items_of(2) [OF assms(2)] by metis
  then show ?thesis using assms(1) unfolding placed_def by (metis concat_split UnI1 set_concat_split)
qed

lemma placed_update:
  assumes "placed h n css" "i < length css" "\<forall>a\<in>set cs. bucket_of (hash_of h a) n = i"
  shows "placed h n (css[i := cs])"
  using assms by (auto simp: placed_def nth_list_update)

text \<open>Chains of all items of \<open>as\<close> and of those in \<open>css\<close>, in the buckets that their hashes select.\<close>

definition moved :: "size_t \<Rightarrow> addr set \<Rightarrow> 'a heap \<Rightarrow> addr list list \<Rightarrow> 'a heap \<Rightarrow> addr list \<Rightarrow> addr list list \<Rightarrow> bool" where
  "moved n as h css h' bs' css' \<longleftrightarrow> chains h' bs' css' \<and> length bs' = unat n \<and> placed h' n css' \<and>
     set (concat css') = as \<union> set (concat css) \<and> same_items h h' \<and> (\<forall>a. a \<notin> as \<union> set (concat css) \<longrightarrow> h' a = h a)"

lemma moved_trans:
  "moved n A h css h' bs' css' \<Longrightarrow> moved n B h' css' h'' bs'' css'' \<Longrightarrow> moved n (A \<union> B) h css h'' bs'' css''"
  unfolding moved_def by (auto intro: same_items_trans)

lemma rebucket_chain_moved:
  assumes "path h cur as" "distinct as" "set as \<inter> set (concat css) = {}" "chains h bs css" "length bs = unat n" "n \<noteq> 0"
    and "placed h n css"
  shows "\<exists>h' bs' css'. rebucket_chain n cur h bs = Some (h', bs') \<and> moved n (set as) h css h' bs' css'"
  using assms(1-5,7)
proof (induction as arbitrary: cur h bs css)
  case Nil
  then show ?case by (subst rebucket_chain.simps) (auto simp: moved_def)
next
  case (Cons a as)
  then obtain it where it: "cur = a" "a \<noteq> 0" "h a = Some it" "path h (next_item it) as" by auto
  define i where "i = bucket_of (item_hash it) n"
  define h1 where "h1 = h(a \<mapsto> it\<lparr>next_item := bs ! i\<rparr>)"
  have i: "i < length bs" using bucket_of_less [OF assms(6)] Cons.prems(5) by (simp add: i_def)
  note len = chains_length [OF Cons.prems(4)]
  have code: "rebucket_chain n cur h bs = rebucket_chain n (next_item it) h1 (bs[i := a])"
    using it by (subst rebucket_chain.simps) (simp add: i_def h1_def Let_def)
  have a: "a \<notin> set as" "a \<notin> set (concat css)" "set as \<inter> set (concat css) = {}" using Cons.prems(2,3) by auto
  have in_i: "set (css ! i) \<subseteq> set (concat css)" "set (others i css) \<subseteq> set (concat css)"
    using set_concat_split [of i css] i len by auto
  have same: "same_items h h1" using it(3) by (simp add: same_items_def h1_def)
  have "path h1 (bs ! i) (css ! i) = path h (bs ! i) (css ! i)"
    by (rule path_cong) (use a(2) in_i(1) in \<open>auto simp: h1_def\<close>)
  then have p: "path h1 a (a # css ! i)"
    using chains_nth [OF Cons.prems(4) i] it(2) by (simp add: h1_def)
  have c1: "chains h1 (bs[i := a]) (css[i := a # css ! i])"
  proof (rule chains_update [OF Cons.prems(4) i p])
    show "h1 b = h b" if "b \<in> set (others i css)" for b using that a(2) in_i(2) by (auto simp: h1_def)
    have d: "distinct (css ! i) \<and> set (css ! i) \<inter> set (others i css) = {}"
      using Cons.prems(4) i len by (simp add: chains_def distinct_others [of i css])
    then show "distinct (a # css ! i)" "set (a # css ! i) \<inter> set (others i css) = {}" using a(2) in_i by auto
  qed
  have "placed h1 n css" by (rule placed_same_items [OF Cons.prems(6) same Cons.prems(4)])
  moreover have "\<forall>b\<in>set (a # css ! i). bucket_of (hash_of h1 b) n = i"
    using calculation i len by (auto simp: placed_def h1_def i_def)
  ultimately have pl: "placed h1 n (css[i := a # css ! i])" using i len by (intro placed_update) simp_all
  have set1: "set (concat (css[i := a # css ! i])) = insert a (set (concat css))"
    using set_concat_update [of i css "a # css ! i"] set_concat_split [of i css] i len by auto
  have "path h1 (next_item it) as = path h (next_item it) as"
    by (rule path_cong) (use a(1) in \<open>auto simp: h1_def\<close>)
  then have "path h1 (next_item it) as" using it(4) by simp
  moreover have "set as \<inter> set (concat (css[i := a # css ! i])) = {}" using a(1,3) set1 by auto
  ultimately obtain h' bs' css' where r: "rebucket_chain n (next_item it) h1 (bs[i := a]) = Some (h', bs')"
    "moved n (set as) h1 (css[i := a # css ! i]) h' bs' css'"
    using Cons.IH [OF _ _ _ c1 _ pl] Cons.prems(2,5) by fastforce
  have "moved n (set (a # as)) h css h' bs' css'"
    using r(2) same unfolding moved_def set1 by (auto simp: h1_def intro: same_items_trans)
  then show ?case using r(1) code by auto
qed

lemma rebucket_loop_moved:
  assumes "list_all2 (path h) old olds" "distinct (concat olds)" "set (concat olds) \<inter> set (concat css) = {}"
    and "chains h bs css" "length bs = unat n" "n \<noteq> 0" "placed h n css"
  shows "\<exists>h' bs' css'. rebucket_loop n old h bs = Some (h', bs') \<and> moved n (set (concat olds)) h css h' bs' css'"
  using assms(1-5,7)
proof (induction old arbitrary: olds h bs css)
  case Nil
  then show ?case by (auto simp: moved_def)
next
  case (Cons b old all)
  from Cons.prems(1) obtain cs olds where all: "all = cs # olds" "path h b cs" "list_all2 (path h) old olds"
    by (auto simp: list_all2_Cons1)
  note prems = Cons.prems [unfolded all(1)]
  have "set cs \<inter> set (concat css) = {}" "distinct cs" using prems(2,3) by auto
  with rebucket_chain_moved [OF all(2) _ _ prems(4,5) assms(6) prems(6)]
  obtain h1 bs1 css1 where r1: "rebucket_chain n b h bs = Some (h1, bs1)" "moved n (set cs) h css h1 bs1 css1" by blast
  have "list_all2 (path h1) old olds"
  proof (rule paths_cong [OF all(3)])
    fix a
    assume "a \<in> set (concat olds)"
    then have "a \<notin> set cs \<union> set (concat css)" using prems(2,3) by auto
    then show "h1 a = h a" using r1(2) by (simp add: moved_def)
  qed
  moreover have "set (concat olds) \<inter> set (concat css1) = {}" using r1(2) prems(2,3) by (auto simp: moved_def)
  ultimately obtain h' bs' css' where r: "rebucket_loop n old h1 bs1 = Some (h', bs')" "moved n (set (concat olds)) h1 css1 h' bs' css'"
    using Cons.IH [of h1 olds css1 bs1] prems(2) r1(2) unfolding moved_def by auto
  have "set (concat all) = set cs \<union> set (concat olds)" by (simp add: all(1))
  with moved_trans [OF r1(2) r(2)] r(1) r1(1) show ?case by (metis bind.bind_lunit prod.case rebucket_loop.simps(2))
qed

section \<open>The invariant\<close>

definition table :: "'a LHASH \<Rightarrow> addr list list \<Rightarrow> bool" where
  "table lh css \<longleftrightarrow> chains (heap lh) (buckets lh) css \<and> length (buckets lh) = unat (num_buckets lh) \<and>
     16 \<le> num_buckets lh \<and> placed (heap lh) (num_buckets lh) css \<and> unat (num_items lh) = length (concat css)"

lemma table_bucket: "table lh css \<Longrightarrow> bucket_of h (num_buckets lh) < length (buckets lh)"
proof -
  assume t: "table lh css"
  then have "num_buckets lh \<noteq> 0" by (auto simp: table_def)
  from bucket_of_less [OF this] t show ?thesis by (simp add: table_def)
qed

text \<open>The functions of the table; everything but the links, the buckets and their number.\<close>

definition same_table :: "'a LHASH \<Rightarrow> 'a LHASH \<Rightarrow> bool" where
  "same_table lh lh' \<longleftrightarrow> lh_comp lh' = lh_comp lh \<and> lh_hash lh' = lh_hash lh \<and> callback_depth lh' = callback_depth lh \<and>
     num_items lh' = num_items lh \<and> same_items (heap lh) (heap lh')"

lemma lh_rebucket_table:
  assumes "table lh css" "16 \<le> n"
  obtains lh' css' where "lh_rebucket malloc lh n = Some lh'" "table lh' css'" "set (concat css') = set (concat css)"
    "same_table lh lh'"
proof (cases "lh_rebucket malloc lh n = Some lh")
  case True
  then show thesis using that [of lh css] assms(1) by (simp add: same_table_def)
next
  case False
  let ?bs = "replicate (unat n) 0 :: addr list" and ?css = "replicate (unat n) [] :: addr list list"
  have t: "chains (heap lh) (buckets lh) css" "length (buckets lh) = unat (num_buckets lh)" using assms(1) by (simp_all add: table_def)
  have code: "lh_rebucket malloc lh n =
      map_option (\<lambda>(h, new_buckets). lh\<lparr>heap := h, num_buckets := n, buckets := new_buckets\<rparr>)
        (rebucket_loop n (buckets lh) (heap lh) ?bs)"
    using False t(2) by (auto simp: lh_rebucket_def Let_def split: if_splits option.splits)
  have empty: "concat ?css = []" by (simp add: concat_replicate_trivial)
  have "chains (heap lh) ?bs ?css" by (simp add: chains_def empty list_all2_conv_all_nth)
  moreover have "placed (heap lh) n ?css" by (simp add: placed_def)
  moreover have "n \<noteq> 0" using assms(2) by auto
  ultimately obtain h' bs' css' where r: "rebucket_loop n (buckets lh) (heap lh) ?bs = Some (h', bs')"
    "moved n (set (concat css)) (heap lh) ?css h' bs' css'"
    using rebucket_loop_moved [of "heap lh" "buckets lh" css ?css ?bs n] t(1) empty by (auto simp: chains_def)
  let ?lh = "lh\<lparr>heap := h', num_buckets := n, buckets := bs'\<rparr>"
  have s: "set (concat css') = set (concat css)" using r(2) empty by (simp add: moved_def)
  have "length (concat css') = length (concat css)"
    using s r(2) t(1) by (metis chains_def distinct_card moved_def)
  then have "table ?lh css'" using r(2) assms by (simp add: table_def moved_def)
  moreover have "same_table lh ?lh" using r(2) by (simp add: same_table_def moved_def)
  ultimately show thesis using that [of ?lh css'] r(1) s code by simp
qed

lemma lh_maybe_resize_table:
  assumes "table lh css"
  obtains lh' css' where "lh_maybe_resize malloc lh = Some lh'" "table lh' css'" "set (concat css') = set (concat css)"
    "same_table lh lh'"
proof -
  have n: "16 \<le> num_buckets lh" using assms by (simp add: table_def)
  define P where "P r \<longleftrightarrow> r = Some lh \<or> (\<exists>n. 16 \<le> n \<and> r = lh_rebucket malloc lh n)" for r
  have P: "P (Some lh)" "16 \<le> m \<Longrightarrow> P (lh_rebucket malloc lh m)" for m by (auto simp: P_def)
  have ifP: "(c \<Longrightarrow> P a) \<Longrightarrow> (\<not> c \<Longrightarrow> P b) \<Longrightarrow> P (if c then a else b)" for c a b by simp
  have half: "16 \<le> (if m < 16 then 16 else m)" for m :: size_t by (simp add: not_less)
  have double: "num_buckets lh < num_buckets lh * 2 \<Longrightarrow> 16 \<le> num_buckets lh * 2"
    using n by (meson order.strict_implies_order order.trans)
  have "P (lh_maybe_resize malloc lh)"
    unfolding lh_maybe_resize_def Let_def kMinNumBuckets_def by (intro ifP P half double) (use n in simp_all)
  then have "lh_maybe_resize malloc lh = Some lh \<or> (\<exists>n. 16 \<le> n \<and> lh_maybe_resize malloc lh = lh_rebucket malloc lh n)"
    by (simp only: P_def)
  then show thesis
  proof
    assume "lh_maybe_resize malloc lh = Some lh"
    then show thesis using that [of lh css] assms by (simp add: same_table_def)
  next
    assume "\<exists>n. 16 \<le> n \<and> lh_maybe_resize malloc lh = lh_rebucket malloc lh n"
    then obtain n where n: "16 \<le> n" "lh_maybe_resize malloc lh = lh_rebucket malloc lh n" by blast
    show thesis by (rule lh_rebucket_table [OF assms n(1), of malloc]) (use n(2) that in simp)
  qed
qed

end
