(* ===== verification/Lhash_Dict.thy ===== *)
theory Lhash_Dict
  imports Lhash_Table
begin

text \<open>
  A hash table as the set of its data: retrieving finds the equal element of the set, inserting
  replaces it, deleting removes it, whatever the resizing does.
\<close>

section \<open>The contract of the functions of a table\<close>

locale lh_functions =
  fixes hash :: "'a \<Rightarrow> u32" and cmp :: "'a \<Rightarrow> 'a \<Rightarrow> int"
  assumes cmp_same: "cmp x x = 0"
    and cmp_sym: "cmp x y = 0 \<Longrightarrow> cmp y x = 0"
    and cmp_trans: "cmp x y = 0 \<Longrightarrow> cmp y z = 0 \<Longrightarrow> cmp x z = 0"
    and hash_cmp: "cmp x y = 0 \<Longrightarrow> hash x = hash y"

section \<open>The set of a table\<close>

definition rep :: "('a \<Rightarrow> u32) \<Rightarrow> ('a \<Rightarrow> 'a \<Rightarrow> int) \<Rightarrow> 'a LHASH \<Rightarrow> addr list list \<Rightarrow> 'a set \<Rightarrow> bool" where
  "rep hash cmp lh css S \<longleftrightarrow> table lh css \<and> S = data_of (heap lh) ` set (concat css) \<and>
     (\<forall>a\<in>set (concat css). hash_of (heap lh) a = hash (data_of (heap lh) a)) \<and>
     (\<forall>a\<in>set (concat css). \<forall>b\<in>set (concat css). cmp (data_of (heap lh) a) (data_of (heap lh) b) = 0 \<longrightarrow> a = b)"

definition represents :: "('a \<Rightarrow> u32) \<Rightarrow> ('a \<Rightarrow> 'a \<Rightarrow> int) \<Rightarrow> 'a LHASH \<Rightarrow> 'a set \<Rightarrow> bool" where
  "represents hash cmp lh S \<longleftrightarrow> (\<exists>css. rep hash cmp lh css S)"

text \<open>The element of the set that is equal to \<open>x\<close>, if there is one.\<close>

definition looked_up :: "('a \<Rightarrow> 'a \<Rightarrow> int) \<Rightarrow> 'a set \<Rightarrow> 'a \<Rightarrow> 'a option \<Rightarrow> bool" where
  "looked_up cmp S x r \<longleftrightarrow> (case r of None \<Rightarrow> \<forall>y\<in>S. cmp y x \<noteq> 0 | Some y \<Rightarrow> y \<in> S \<and> cmp y x = 0)"

lemma rep_transfer:
  assumes "rep hash cmp lh css S" "table lh' css'" "set (concat css') = set (concat css)" "same_items (heap lh) (heap lh')"
  shows "rep hash cmp lh' css' S"
proof -
  have c: "chains (heap lh) (buckets lh) css" using assms(1) by (simp add: rep_def table_def)
  have "data_of (heap lh') a = data_of (heap lh) a \<and> hash_of (heap lh') a = hash_of (heap lh) a" if "a \<in> set (concat css)" for a
    using chains_item [OF c that] same_items_of [OF assms(4)] by metis
  then show ?thesis using assms(1-3) by (simp add: rep_def del: set_concat cong: image_cong)
qed

lemma OPENSSL_lh_new_represents:
  assumes "OPENSSL_lh_new malloc h hash cmp = Some lh"
  shows "represents hash cmp lh {} \<and> lh_hash lh = hash \<and> lh_comp lh = cmp \<and> callback_depth lh = 0"
proof -
  have lh: "lh = \<lparr>num_items = 0, buckets = replicate 16 0, num_buckets = 16, callback_depth = 0, lh_comp = cmp,
      lh_hash = hash, heap = h\<rparr>"
    using assms by (auto simp: OPENSSL_lh_new_def kMinNumBuckets_def split: option.splits)
  have empty: "concat (replicate 16 []) = ([] :: addr list)" by (simp add: concat_replicate_trivial)
  have "rep hash cmp lh (replicate 16 []) {}"
    by (simp add: rep_def lh table_def chains_def placed_def empty list_all2_conv_all_nth)
  then show ?thesis by (auto simp: represents_def lh)
qed

context lh_functions begin

lemma looked_up_unique:
  "rep hash cmp lh css S \<Longrightarrow> looked_up cmp S x r \<Longrightarrow> looked_up cmp S x r' \<Longrightarrow> r = r'"
proof -
  assume r: "rep hash cmp lh css S" and l: "looked_up cmp S x r" "looked_up cmp S x r'"
  have "y = z" if y: "y \<in> S" "cmp y x = 0" and z: "z \<in> S" "cmp z x = 0" for y z
  proof -
    obtain a b where "y = data_of (heap lh) a" "z = data_of (heap lh) b" "a \<in> set (concat css)" "b \<in> set (concat css)"
      using r y(1) z(1) unfolding rep_def by blast
    moreover have "cmp y z = 0" using cmp_trans y(2) cmp_sym [OF z(2)] by blast
    ultimately show ?thesis using r unfolding rep_def by blast
  qed
  with l show ?thesis by (auto simp: looked_up_def split: option.splits)
qed

lemma search:
  fixes x :: 'a
  assumes r: "rep hash cmp lh css S"
  defines "i \<equiv> bucket_of (hash x) (num_buckets lh)"
  obtains pre post where "css ! i = pre @ post" "find_next_ptr (\<lambda>y. cmp y x = 0) lh (Bucket i) = Some (loc (Bucket i) pre)"
    "deref lh (loc (Bucket i) pre) = Some (head post)"
    "looked_up cmp S x (if post = [] then None else Some (data_of (heap lh) (head post)))"
proof -
  have t: "table lh css" and c: "chains (heap lh) (buckets lh) css" using r by (simp_all add: rep_def table_def)
  have i: "i < length (buckets lh)" unfolding i_def by (rule table_bucket [OF t])
  note len = chains_length [OF c]
  have "deref lh (Bucket i) = Some (buckets lh ! i)" using i by (simp add: deref_def)
  from find_next_ptr_path [OF this chains_nth [OF c i], of "\<lambda>y. cmp y x = 0"] obtain pre post where
    f: "css ! i = pre @ post" "find_next_ptr (\<lambda>y. cmp y x = 0) lh (Bucket i) = Some (loc (Bucket i) pre)"
      "deref lh (loc (Bucket i) pre) = Some (head post)" "\<forall>a\<in>set pre. cmp (data_of (heap lh) a) x \<noteq> 0"
      "post \<noteq> [] \<longrightarrow> cmp (data_of (heap lh) (head post)) x = 0" .
  have in_i: "set (css ! i) \<subseteq> set (concat css)" using set_concat_split [of i css] i len by auto
  have hit: "a \<in> set (css ! i)" if a: "a \<in> set (concat css)" "cmp (data_of (heap lh) a) x = 0" for a
  proof -
    obtain cs where "cs \<in> set css" "a \<in> set cs" using a(1) by auto
    then obtain j where j: "j < length css" "a \<in> set (css ! j)" by (metis in_set_conv_nth)
    then have "bucket_of (hash_of (heap lh) a) (num_buckets lh) = j" using t by (simp add: table_def placed_def)
    moreover have "hash_of (heap lh) a = hash x" using r a hash_cmp [OF a(2)] by (simp add: rep_def del: set_concat)
    ultimately show ?thesis using j by (simp add: i_def)
  qed
  have S: "S = data_of (heap lh) ` set (concat css)" using r by (simp add: rep_def)
  have "looked_up cmp S x (if post = [] then None else Some (data_of (heap lh) (head post)))"
  proof (cases "post = []")
    case True
    have "cmp (data_of (heap lh) a) x \<noteq> 0" if "a \<in> set (concat css)" for a
      using hit [OF that] f(1,4) True by auto
    then show ?thesis unfolding looked_up_def S using True by auto
  next
    case False
    then have "head post \<in> set (css ! i)" using f(1) by (cases post) (simp_all add: head_def)
    then have "head post \<in> set (concat css)" using in_i by blast
    then show ?thesis using f(5) False unfolding looked_up_def S by auto
  qed
  then show thesis using that f(1-3) by blast
qed

lemma search_code:
  assumes "rep hash cmp lh css S" "call_hash (lh_hash lh) = hash" "call_cmp (lh_comp lh) = cmp"
  obtains pre post where "css ! bucket_of (hash x) (num_buckets lh) = pre @ post"
    "get_next_ptr_and_hash lh x call_hash call_cmp = Some (loc (Bucket (bucket_of (hash x) (num_buckets lh))) pre, hash x)"
    "deref lh (loc (Bucket (bucket_of (hash x) (num_buckets lh))) pre) = Some (head post)"
    "looked_up cmp S x (if post = [] then None else Some (data_of (heap lh) (head post)))"
  using search [OF assms(1), of x] assms(2,3) by (auto simp: get_next_ptr_and_hash_def Let_def)

lemma in_chain:
  assumes "rep hash cmp lh css S" "css ! bucket_of (hash x) (num_buckets lh) = pre @ post" "a \<in> set post"
  shows "a \<in> set (concat css)" "a \<noteq> 0" "\<exists>it. heap lh a = Some it"
proof -
  have t: "table lh css" and c: "chains (heap lh) (buckets lh) css" using assms(1) by (simp_all add: rep_def table_def)
  have i: "bucket_of (hash x) (num_buckets lh) < length css" using table_bucket [OF t] chains_length [OF c] by simp
  show m: "a \<in> set (concat css)" using set_concat_split [OF i] assms(2,3) by auto
  show "a \<noteq> 0" "\<exists>it. heap lh a = Some it" using chains_item [OF c m] by blast+
qed

section \<open>Retrieving\<close>

lemma retrieve_rep:
  assumes "rep hash cmp lh css S" "call_hash (lh_hash lh) = hash" "call_cmp (lh_comp lh) = cmp"
  shows "\<exists>r. OPENSSL_lh_retrieve lh x call_hash call_cmp = Some r \<and> looked_up cmp S x r"
proof -
  obtain pre post where s: "css ! bucket_of (hash x) (num_buckets lh) = pre @ post"
    "get_next_ptr_and_hash lh x call_hash call_cmp = Some (loc (Bucket (bucket_of (hash x) (num_buckets lh))) pre, hash x)"
    "deref lh (loc (Bucket (bucket_of (hash x) (num_buckets lh))) pre) = Some (head post)"
    "looked_up cmp S x (if post = [] then None else Some (data_of (heap lh) (head post)))"
    by (rule search_code [of lh css S call_hash call_cmp x, OF assms])
  show ?thesis
  proof (cases post)
    case Nil
    with s show ?thesis by (auto simp: OPENSSL_lh_retrieve_def data_at_def head_def)
  next
    case (Cons a rest)
    then have "a \<in> set post" by simp
    from in_chain [OF assms(1) s(1) this] obtain it where "a \<noteq> 0" "heap lh a = Some it" by blast
    with s Cons show ?thesis by (auto simp: OPENSSL_lh_retrieve_def data_at_def head_def)
  qed
qed

section \<open>Inserting\<close>

text \<open>The branch that replaces the data of an item.\<close>

lemma replace_rep:
  assumes r: "rep hash cmp lh css S" and a: "a \<in> set (concat css)" "heap lh a = Some it" "cmp (item_data it) x = 0"
  shows "rep hash cmp (lh\<lparr>heap := (heap lh)(a \<mapsto> it\<lparr>item_data := x\<rparr>)\<rparr>) css (insert x (S - {item_data it}))"
    (is "rep _ _ ?lh _ _")
proof -
  have t: "table lh css" and c: "chains (heap lh) (buckets lh) css" using r by (simp_all add: rep_def table_def)
  have same: "data_of (heap ?lh) b = (if b = a then x else data_of (heap lh) b)" "hash_of (heap ?lh) b = hash_of (heap lh) b" for b
    using a(2) by simp_all
  have "path (heap ?lh) p as = path (heap lh) p as" for p as
    using a(2) by (induction as arbitrary: p) auto
  then have "chains (heap ?lh) (buckets ?lh) css" using c by (simp add: chains_def list_all2_conv_all_nth)
  then have "table ?lh css" using t same(2) by (simp add: table_def placed_def)
  moreover have "insert x (S - {item_data it}) = data_of (heap ?lh) ` set (concat css)"
  proof -
    have "data_of (heap lh) b \<noteq> item_data it" if "b \<in> set (concat css)" "b \<noteq> a" for b
    proof
      assume "data_of (heap lh) b = item_data it"
      then have "cmp (data_of (heap lh) b) (data_of (heap lh) a) = 0" using a(2) cmp_same by simp
      then show False using r a(1) that unfolding rep_def by blast
    qed
    then have A: "S - {item_data it} = data_of (heap lh) ` (set (concat css) - {a})"
      using r a(2) unfolding rep_def by auto
    have B: "data_of (heap ?lh) ` insert a (set (concat css) - {a}) = insert x (data_of (heap lh) ` (set (concat css) - {a}))"
    proof -
      have "data_of (heap ?lh) ` (set (concat css) - {a}) = data_of (heap lh) ` (set (concat css) - {a})"
        by (rule image_cong [OF refl]) (simp add: same(1))
      then show ?thesis using same(1) [of a] by (simp only: image_insert) simp
    qed
    have "insert a (set (concat css) - {a}) = set (concat css)" using a(1) by blast
    then show ?thesis by (simp only: A B [symmetric])
  qed
  moreover have "hash x = hash_of (heap lh) a"
  proof -
    have "hash_of (heap lh) a = hash (data_of (heap lh) a)" using r a(1) unfolding rep_def by blast
    then show ?thesis using a(2) hash_cmp [OF a(3)] by simp
  qed
  moreover have "b = c" if "b \<in> set (concat css)" "c \<in> set (concat css)" "cmp (data_of (heap ?lh) b) (data_of (heap ?lh) c) = 0" for b c
  proof -
    have "cmp (data_of (heap lh) d) (data_of (heap ?lh) d) = 0" for d
      using a(2,3) cmp_same by (simp add: same)
    then have "cmp (data_of (heap lh) b) (data_of (heap lh) c) = 0"
      using that(3) cmp_trans cmp_sym by meson
    then show ?thesis using r that(1,2) unfolding rep_def by blast
  qed
  ultimately show ?thesis using r same unfolding rep_def by auto
qed

text \<open>The new item at the end of its chain, before the table is resized.\<close>

lemma append_rep:
  assumes r: "rep hash cmp lh css S" and x: "\<forall>y\<in>S. cmp y x \<noteq> 0"
    and item: "item \<noteq> 0" "heap lh item = None" and f: "callback_depth lh' = callback_depth lh"
  defines "i \<equiv> bucket_of (hash x) (num_buckets lh)"
  assumes lh': "lh' = (let lh1 = lh\<lparr>heap := (heap lh)(item \<mapsto> \<lparr>item_data = x, next_item = 0, item_hash = hash x\<rparr>)\<rparr>;
    lh2 = assign lh1 (loc (Bucket i) (css ! i)) item in lh2\<lparr>num_items := num_items lh2 + 1\<rparr>)"
  shows "rep hash cmp lh' (css[i := css ! i @ [item]]) (insert x S)"
proof -
  let ?css = "css[i := css ! i @ [item]]"
  define h where "h = (heap lh)(item \<mapsto> \<lparr>item_data = x, next_item = 0, item_hash = hash x\<rparr>)"
  define lh2 where "lh2 = assign (lh\<lparr>heap := h\<rparr>) (loc (Bucket i) (css ! i)) item"
  have t: "table lh css" and c: "chains (heap lh) (buckets lh) css" using r by (simp_all add: rep_def table_def)
  have i: "i < length (buckets lh)" unfolding i_def by (rule table_bucket [OF t])
  note len = chains_length [OF c]
  have new: "item \<notin> set (concat css)" using chains_item [OF c, of item] item(2) by auto
  have in_i: "set (css ! i) \<union> set (others i css) = set (concat css)" using set_concat_split [of i css] i len by auto
  have c1: "chains h (buckets lh) css" by (rule chains_cong [OF c]) (use new in \<open>auto simp: h_def\<close>)
  have "path h item [item]" using item(1) by (simp add: h_def)
  then have c2: "chains (heap lh2) (buckets lh2) ?css"
    unfolding lh2_def using c1 i new in_i by (intro assign_chains [where post = "[]"]) auto
  have same: "same_items h (heap lh2)" using assign_same_items [of "lh\<lparr>heap := h\<rparr>"] by (simp add: lh2_def)
  have keep: "data_of (heap lh2) a = data_of (heap lh) a \<and> hash_of (heap lh2) a = hash_of (heap lh) a" if a: "a \<in> set (concat css)" for a
  proof -
    obtain it where "heap lh a = Some it" using chains_item [OF c a] by blast
    then have "h a = Some it" "heap lh a = Some it" using a new by (auto simp: h_def)
    then show ?thesis using same_items_of [OF same, of a it] by simp
  qed
  have it: "data_of (heap lh2) item = x" "hash_of (heap lh2) item = hash x"
    using same_items_of [OF same, of item] by (simp_all add: h_def)
  have nodes: "set (concat ?css) = insert item (set (concat css))"
    using set_concat_update [of i css "css ! i @ [item]"] i len in_i by auto
  have num: "unat (num_items lh + 1) = length (concat ?css)"
  proof -
    have d: "distinct (concat ?css)" using c2 by (simp add: chains_def)
    have l: "length (concat ?css) = Suc (length (concat css))"
      using distinct_card [OF d] distinct_card [of "concat css"] c new nodes by (simp add: chains_def del: set_concat)
    have "set (concat ?css) \<subseteq> UNIV - {0}" using chains_item [OF c2] by blast
    then have "card (set (concat ?css)) \<le> card (UNIV - {0 :: addr})" by (intro card_mono) auto
    also have "\<dots> = 2 ^ 64 - 1" by (simp add: card_Diff_singleton card_word)
    finally have "unat (num_items lh) + 1 < 2 ^ 64"
      using distinct_card [OF d] l t by (simp add: table_def)
    then show ?thesis using l t by (subst unat_add_no_wrap) (simp_all add: table_def)
  qed
  have "placed (heap lh2) (num_buckets lh) ?css"
  proof (rule placed_update)
    show "placed (heap lh2) (num_buckets lh) css"
      using t keep len in_i set_concat_split unfolding table_def placed_def by (metis UnI1)
    show "\<forall>a\<in>set (css ! i @ [item]). bucket_of (hash_of (heap lh2) a) (num_buckets lh) = i"
      using \<open>placed (heap lh2) (num_buckets lh) css\<close> i len it by (auto simp: placed_def i_def)
  qed (use i len in simp)
  then have "table (lh2\<lparr>num_items := num_items lh + 1\<rparr>) ?css"
    using c2 t num by (simp add: table_def lh2_def)
  moreover have lh'_eq: "lh' = lh2\<lparr>num_items := num_items lh + 1\<rparr>" by (simp add: lh' Let_def lh2_def h_def)
  moreover have "b = c" if b: "b \<in> insert item (set (concat css))" and c: "c \<in> insert item (set (concat css))"
    and bc: "cmp (data_of (heap lh2) b) (data_of (heap lh2) c) = 0" for b c
  proof -
    have ne: "cmp (data_of (heap lh2) d) x \<noteq> 0" if "d \<in> set (concat css)" for d
      using x keep [OF that] that r unfolding rep_def by auto
    consider "b = item" "c = item" | "b = item" "c \<in> set (concat css)" | "b \<in> set (concat css)" "c = item"
      | "b \<in> set (concat css)" "c \<in> set (concat css)" using b c by blast
    then show ?thesis
    proof cases
      case 2
      then show ?thesis using ne [OF 2(2)] bc cmp_sym it(1) by simp
    next
      case 3
      then show ?thesis using ne [OF 3(1)] bc it(1) by simp
    next
      case 4
      then have "cmp (data_of (heap lh) b) (data_of (heap lh) c) = 0" using keep bc by simp
      then show ?thesis using r 4 unfolding rep_def by blast
    qed simp
  qed
  moreover have "insert x S = data_of (heap lh2) ` insert item (set (concat css))"
  proof -
    have "data_of (heap lh2) ` set (concat css) = data_of (heap lh) ` set (concat css)"
      by (rule image_cong [OF refl]) (use keep in blast)
    then show ?thesis using r it(1) unfolding rep_def by (simp del: set_concat)
  qed
  moreover have "\<forall>a\<in>insert item (set (concat css)). hash_of (heap lh2) a = hash (data_of (heap lh2) a)"
    using r keep it unfolding rep_def by simp
  ultimately show ?thesis unfolding rep_def nodes by simp
qed

lemma insert_rep:
  assumes r: "rep hash cmp lh css S" "call_hash (lh_hash lh) = hash" "call_cmp (lh_comp lh) = cmp" and alloc: "item_alloc_spec alloc"
  obtains old where "looked_up cmp S x old"
    "(\<exists>lh' css'. OPENSSL_lh_insert malloc alloc lh x call_hash call_cmp = Some (True, old, lh') \<and>
       rep hash cmp lh' css' (insert x (S - {y. old = Some y})) \<and> lh_hash lh' = lh_hash lh \<and> lh_comp lh' = lh_comp lh \<and>
       callback_depth lh' = callback_depth lh) \<or>
     OPENSSL_lh_insert malloc alloc lh x call_hash call_cmp = Some (False, None, lh) \<and> old = None \<and> alloc (heap lh) = 0"
proof -
  define i where "i = bucket_of (hash x) (num_buckets lh)"
  obtain pre post where s: "css ! i = pre @ post"
    "get_next_ptr_and_hash lh x call_hash call_cmp = Some (loc (Bucket i) pre, hash x)"
    "deref lh (loc (Bucket i) pre) = Some (head post)"
    "looked_up cmp S x (if post = [] then None else Some (data_of (heap lh) (head post)))"
    using search_code [of lh css S call_hash call_cmp x, OF r] unfolding i_def by metis
  show thesis
  proof (cases post)
    case (Cons a rest)
    then have "a \<in> set post" by simp
    from in_chain [OF r(1) s(1) [unfolded i_def] this] obtain it where
      a: "a \<in> set (concat css)" "a \<noteq> 0" "heap lh a = Some it" by blast
    have l: "looked_up cmp S x (Some (item_data it))" using s(4) a(3) Cons by (simp add: head_def)
    let ?lh = "lh\<lparr>heap := (heap lh)(a \<mapsto> it\<lparr>item_data := x\<rparr>)\<rparr>"
    have "OPENSSL_lh_insert malloc alloc lh x call_hash call_cmp = Some (True, Some (item_data it), ?lh)"
      using s(2,3) a Cons by (simp add: OPENSSL_lh_insert_def head_def)
    moreover have "rep hash cmp ?lh css (insert x (S - {item_data it}))"
      using l by (intro replace_rep [OF r(1) a(1,3)]) (simp add: looked_up_def)
    moreover have "{y. Some (item_data it) = Some y} = {item_data it}" by auto
    ultimately show thesis using that [OF l] by (metis LHASH.select_convs(4-6) LHASH.surjective LHASH.update_convs(7))
  next
    case Nil
    have l: "looked_up cmp S x None" using s(4) Nil by simp
    show thesis
    proof (cases "alloc (heap lh) = 0")
      case True
      then have "OPENSSL_lh_insert malloc alloc lh x call_hash call_cmp = Some (False, None, lh)"
        using s(2,3) Nil by (simp add: OPENSSL_lh_insert_def head_def)
      then show thesis using that [OF l] True by blast
    next
      case False
      let ?item = "alloc (heap lh)"
      define lh1 where "lh1 = lh\<lparr>heap := (heap lh)(?item \<mapsto> \<lparr>item_data = x, next_item = 0, item_hash = hash x\<rparr>)\<rparr>"
      define lh2 where "lh2 = assign lh1 (loc (Bucket i) pre) ?item"
      define lh3 where "lh3 = lh2\<lparr>num_items := num_items lh2 + 1\<rparr>"
      have code: "OPENSSL_lh_insert malloc alloc lh x call_hash call_cmp =
          map_option (\<lambda>lh. (True, None, lh)) (lh_maybe_resize malloc lh3)"
        using s(2,3) Nil False by (simp add: OPENSSL_lh_insert_def head_def Let_def lh3_def lh2_def lh1_def)
      have fields: "lh_hash lh3 = lh_hash lh" "lh_comp lh3 = lh_comp lh" "callback_depth lh3 = callback_depth lh"
        by (simp_all add: lh3_def lh2_def lh1_def)
      have "heap lh ?item = None" using alloc False by (simp add: item_alloc_spec_def)
      moreover have "lh3 = (let lh1 = lh\<lparr>heap := (heap lh)(?item \<mapsto> \<lparr>item_data = x, next_item = 0, item_hash = hash x\<rparr>)\<rparr>;
          lh2 = assign lh1 (loc (Bucket (bucket_of (hash x) (num_buckets lh))) (css ! bucket_of (hash x) (num_buckets lh))) ?item
        in lh2\<lparr>num_items := num_items lh2 + 1\<rparr>)"
        using s(1) Nil by (simp add: Let_def lh3_def lh2_def lh1_def i_def)
      ultimately have rep3: "rep hash cmp lh3 (css[i := css ! i @ [?item]]) (insert x S)"
        using append_rep [OF r(1) _ False _ fields(3)] l unfolding i_def looked_up_def by simp
      then have "table lh3 (css[i := css ! i @ [?item]])" by (simp add: rep_def)
      from lh_maybe_resize_table [OF this, of malloc] obtain lh' css' where
        m: "lh_maybe_resize malloc lh3 = Some lh'" "table lh' css'"
          "set (concat css') = set (concat (css[i := css ! i @ [?item]]))" "same_table lh3 lh'" .
      have "rep hash cmp lh' css' (insert x S)"
        using rep_transfer [OF rep3 m(2,3)] m(4) by (simp add: same_table_def)
      then show thesis using that [OF l] code m(1,4) fields by (auto simp: same_table_def)
    qed
  qed
qed

section \<open>Deleting\<close>

lemma unlink_rep:
  assumes r: "rep hash cmp lh css S" and c: "css ! i = pre @ a # rest" and i: "i = bucket_of (hash x) (num_buckets lh)"
    and a: "heap lh a = Some it"
  defines "lh2 \<equiv> assign lh (loc (Bucket i) pre) (next_item it)"
  shows "rep hash cmp (lh2\<lparr>heap := (heap lh2)(a := None), num_items := num_items lh2 - 1\<rparr>) (css[i := pre @ rest])
    (S - {item_data it})" (is "rep _ _ ?lh ?css _")
proof -
  have t: "table lh css" and ch: "chains (heap lh) (buckets lh) css" using r by (simp_all add: rep_def table_def)
  have ib: "i < length (buckets lh)" unfolding i by (rule table_bucket [OF t])
  note len = chains_length [OF ch]
  have ic: "i < length css" using ib len by simp
  have d: "distinct (css ! i)" "set (css ! i) \<inter> set (others i css) = {}"
    using ch ic by (simp_all add: chains_def distinct_others [of i css])
  have "path (heap lh) (buckets lh ! i) (pre @ a # rest)" using chains_nth [OF ch ib] c by simp
  then have p: "path (heap lh) (next_item it) rest" using a by (rule path_suffix)
  have c2: "chains (heap lh2) (buckets lh2) ?css"
    unfolding lh2_def by (rule assign_chains [OF ch ib c p]) (use d c in auto)
  have nodes: "set (concat css) = insert a (set (concat ?css))" and new: "a \<notin> set (concat ?css)"
    using set_concat_split [OF ic] set_concat_update [OF ic, of "pre @ rest"] d c by auto
  have "chains ((heap lh2)(a := None)) (buckets lh2) ?css" by (rule chains_cong [OF c2]) (use new in auto)
  then have c3: "chains (heap ?lh) (buckets ?lh) ?css" by simp
  have same: "same_items (heap lh) (heap lh2)" unfolding lh2_def by (rule assign_same_items)
  have keep: "data_of (heap ?lh) b = data_of (heap lh) b \<and> hash_of (heap ?lh) b = hash_of (heap lh) b"
    if b: "b \<in> set (concat ?css)" for b
  proof -
    have "b \<in> set (concat css)" "b \<noteq> a" using b nodes new by auto
    moreover from this obtain it' where "heap lh b = Some it'" using chains_item [OF ch] by blast
    ultimately show ?thesis using same_items_of [OF same] by simp
  qed
  have num: "unat (num_items lh2 - 1) = length (concat ?css)"
  proof -
    have l: "length (concat css) = Suc (length (concat ?css))"
      using distinct_card [of "concat css"] distinct_card [of "concat ?css"] ch c2 nodes new
      by (simp add: chains_def del: set_concat)
    then have "num_items lh \<noteq> 0" using t by (auto simp: table_def)
    then show ?thesis using l t unat_minus_one [of "num_items lh"] by (simp add: table_def lh2_def)
  qed
  have "placed (heap ?lh) (num_buckets lh) ?css"
    unfolding placed_def
  proof (intro allI impI ballI)
    fix j b
    assume j: "j < length ?css" "b \<in> set (?css ! j)"
    then have "b \<in> set (concat ?css)" using set_concat_split [OF j(1)] by blast
    moreover have "b \<in> set (css ! j)" using j c ic by (cases "j = i") auto
    ultimately show "bucket_of (hash_of (heap ?lh) b) (num_buckets lh) = j"
      using keep t j(1) by (simp add: table_def placed_def)
  qed
  then have "table ?lh ?css" using c3 t num by (simp add: table_def lh2_def)
  moreover have "S - {item_data it} = data_of (heap ?lh) ` set (concat ?css)"
  proof -
    have "data_of (heap lh) b \<noteq> item_data it" if b: "b \<in> set (concat ?css)" for b
    proof
      assume "data_of (heap lh) b = item_data it"
      then have "cmp (data_of (heap lh) b) (data_of (heap lh) a) = 0" using a cmp_same by simp
      moreover have "b \<in> set (concat css)" "a \<in> set (concat css)" "b \<noteq> a" using b nodes new by auto
      ultimately show False using r unfolding rep_def by blast
    qed
    then have "S - {item_data it} = data_of (heap lh) ` set (concat ?css)"
      using r a unfolding rep_def nodes by auto
    also have "\<dots> = data_of (heap ?lh) ` set (concat ?css)"
      by (rule image_cong [OF refl]) (use keep in metis)
    finally show ?thesis .
  qed
  ultimately show ?thesis using r keep unfolding rep_def nodes by auto
qed

lemma delete_rep:
  assumes r: "rep hash cmp lh css S" "call_hash (lh_hash lh) = hash" "call_cmp (lh_comp lh) = cmp"
  obtains old lh' css' where "looked_up cmp S x old"
    "OPENSSL_lh_delete malloc lh x call_hash call_cmp = Some (old, lh')" "rep hash cmp lh' css' (S - {y. old = Some y})"
    "lh_hash lh' = lh_hash lh" "lh_comp lh' = lh_comp lh" "callback_depth lh' = callback_depth lh"
proof -
  define i where "i = bucket_of (hash x) (num_buckets lh)"
  obtain pre post where s: "css ! i = pre @ post"
    "get_next_ptr_and_hash lh x call_hash call_cmp = Some (loc (Bucket i) pre, hash x)"
    "deref lh (loc (Bucket i) pre) = Some (head post)"
    "looked_up cmp S x (if post = [] then None else Some (data_of (heap lh) (head post)))"
    using search_code [of lh css S call_hash call_cmp x, OF r] unfolding i_def by metis
  show thesis
  proof (cases post)
    case Nil
    then have "OPENSSL_lh_delete malloc lh x call_hash call_cmp = Some (None, lh)"
      using s(2,3) by (simp add: OPENSSL_lh_delete_def head_def)
    then show thesis using that [of None lh css] s(4) Nil r(1) by simp
  next
    case (Cons a rest)
    then have "a \<in> set post" by simp
    from in_chain [OF r(1) s(1) [unfolded i_def] this] obtain it where a: "a \<noteq> 0" "heap lh a = Some it" by blast
    have l: "looked_up cmp S x (Some (item_data it))" using s(4) a(2) Cons by (simp add: head_def)
    define lh2 where "lh2 = assign lh (loc (Bucket i) pre) (next_item it)"
    define lh3 where "lh3 = lh2\<lparr>heap := (heap lh2)(a := None), num_items := num_items lh2 - 1\<rparr>"
    have code: "OPENSSL_lh_delete malloc lh x call_hash call_cmp =
        map_option (\<lambda>lh. (Some (item_data it), lh)) (lh_maybe_resize malloc lh3)"
      using s(2,3) a Cons by (simp add: OPENSSL_lh_delete_def head_def Let_def lh3_def lh2_def)
    have fields: "lh_hash lh3 = lh_hash lh" "lh_comp lh3 = lh_comp lh" "callback_depth lh3 = callback_depth lh"
      by (simp_all add: lh3_def lh2_def)
    have rep3: "rep hash cmp lh3 (css[i := pre @ rest]) (S - {item_data it})"
      unfolding lh3_def lh2_def by (rule unlink_rep [OF r(1) s(1) [unfolded Cons] i_def a(2)])
    then have "table lh3 (css[i := pre @ rest])" by (simp add: rep_def)
    from lh_maybe_resize_table [OF this, of malloc] obtain lh' css' where
      m: "lh_maybe_resize malloc lh3 = Some lh'" "table lh' css'"
        "set (concat css') = set (concat (css[i := pre @ rest]))" "same_table lh3 lh'" .
    have "rep hash cmp lh' css' (S - {item_data it})"
      using rep_transfer [OF rep3 m(2,3)] m(4) by (simp add: same_table_def)
    moreover have "{y. Some (item_data it) = Some y} = {item_data it}" by auto
    ultimately show thesis using that [OF l, of lh' css'] code m(1,4) fields by (auto simp: same_table_def)
  qed
qed

end

section \<open>Iterating\<close>

lemma doall_chain_path:
  assumes "path (heap lh) cur as" "\<And>x s. func x (lh, s) = Some (lh, f x s)"
  shows "doall_chain func cur (lh, s) = Some (lh, fold f (map (data_of (heap lh)) as) s)"
  using assms(1)
proof (induction as arbitrary: cur s)
  case Nil
  then show ?case by (subst doall_chain.simps) simp
next
  case (Cons a as)
  then obtain it where it: "cur = a" "a \<noteq> 0" "heap lh a = Some it" "path (heap lh) (next_item it) as" by auto
  then show ?case using Cons.IH [OF it(4)] assms(2) by (subst doall_chain.simps) simp
qed

lemma doall_loop_chains:
  assumes c: "chains (heap lh) (buckets lh) css" and n: "length (buckets lh) = unat (num_buckets lh)"
    and f: "\<And>x s. func x (lh, s) = Some (lh, f x s)"
  shows "doall_loop func i (lh, s) = Some (lh, fold f (map (data_of (heap lh)) (concat (drop (unat i) css))) s)"
proof (induction "unat (num_buckets lh) - unat i" arbitrary: i s)
  case 0
  then have "\<not> i < num_buckets lh" by (simp add: word_less_nat_alt)
  moreover have "drop (unat i) css = []" using 0 n chains_length [OF c] by simp
  ultimately show ?case by (subst doall_loop.simps) simp
next
  case (Suc m)
  then have lt: "unat i < unat (num_buckets lh)" by simp
  then have "unat i + 1 < 2 ^ LENGTH(64)" using le_less_trans [OF _ unat_lt2p [of "num_buckets lh"], of "unat i + 1"] by simp
  then have inc: "unat (i + 1) = unat i + 1" by (subst unat_add_no_wrap) simp_all
  have "drop (unat i) css = css ! unat i # drop (unat i + 1) css"
    using lt n chains_length [OF c] by (simp add: Cons_nth_drop_Suc)
  moreover have "path (heap lh) (buckets lh ! unat i) (css ! unat i)" using chains_nth [OF c] lt n by simp
  from doall_chain_path [of lh _ _ func f, OF this f]
  have "doall_chain func (buckets lh ! unat i) (lh, s) = Some (lh, fold f (map (data_of (heap lh)) (css ! unat i)) s)" .
  moreover have "m = unat (num_buckets lh) - unat (i + 1)" using Suc.hyps(2) inc by simp
  note Suc.hyps(1) [OF this]
  ultimately show ?case using lt inc by (subst doall_loop.simps) (simp add: word_less_nat_alt)
qed

lemma rep_callback_depth [simp]: "rep hash cmp (lh\<lparr>callback_depth := n\<rparr>) css S = rep hash cmp lh css S"
  by (simp add: rep_def table_def)

lemma doall_rep:
  assumes r: "rep hash cmp lh css S" and f: "\<And>x lh s. func x (lh, s) = Some (lh, f x s)"
  obtains lh' css' xs where "OPENSSL_lh_doall_arg malloc (Some lh) func s = Some (Some lh', fold f xs s)"
    "rep hash cmp lh' css' S" "lh_hash lh' = lh_hash lh" "lh_comp lh' = lh_comp lh" "set xs = S" "length xs = unat (num_items lh)"
proof -
  let ?d = "if callback_depth lh < - 1 then callback_depth lh + 1 else callback_depth lh"
  let ?lh1 = "lh\<lparr>callback_depth := ?d\<rparr>"
  let ?lh2 = "lh\<lparr>callback_depth := (if ?d < - 1 then ?d - 1 else ?d)\<rparr>"
  have t: "chains (heap lh) (buckets lh) css" "length (buckets lh) = unat (num_buckets lh)" "unat (num_items lh) = length (concat css)"
    "S = data_of (heap lh) ` set (concat css)"
    using r by (simp_all add: rep_def table_def del: set_concat)
  let ?xs = "map (data_of (heap lh)) (concat css)"
  have "doall_loop func 0 (?lh1, s) = Some (?lh1, fold f ?xs s)"
    using doall_loop_chains [of ?lh1 css func f 0 s] t(1,2) f by simp
  then have code: "OPENSSL_lh_doall_arg malloc (Some lh) func s =
      map_option (\<lambda>lh. (Some lh, fold f ?xs s)) (lh_maybe_resize malloc ?lh2)"
  proof -
    have "(if callback_depth lh < - 1 then lh\<lparr>callback_depth := callback_depth lh + 1\<rparr> else lh) = ?lh1"
      "(if callback_depth ?lh1 < - 1 then ?lh1\<lparr>callback_depth := callback_depth ?lh1 - 1\<rparr> else ?lh1) = ?lh2"
      by (cases lh; simp)+
    then show ?thesis
      using \<open>doall_loop func 0 (?lh1, s) = _\<close> unfolding OPENSSL_lh_doall_arg_def by (simp only: option.case Let_def bind.bind_lunit prod.case)
  qed
  have r2: "rep hash cmp ?lh2 css S" using r by simp
  then have "table ?lh2 css" unfolding rep_def by blast
  from lh_maybe_resize_table [OF this, of malloc] obtain lh' css' where
    m: "lh_maybe_resize malloc ?lh2 = Some lh'" "table lh' css'" "set (concat css') = set (concat css)" "same_table ?lh2 lh'" .
  have "rep hash cmp lh' css' S" by (rule rep_transfer [OF r2 m(2,3)]) (use m(4) in \<open>simp add: same_table_def\<close>)
  then show thesis
    using that [of lh' ?xs css'] code m(1,4) t(3,4) by (simp add: same_table_def)
qed

section \<open>The laws of a dictionary\<close>

context lh_functions begin

lemma looked_up_insert:
  assumes "looked_up cmp S x old" "looked_up cmp S y r"
  shows "looked_up cmp (insert x (S - {z. old = Some z})) y (if cmp x y = 0 then Some x else r)"
proof (cases "cmp x y = 0")
  case True
  then show ?thesis by (simp add: looked_up_def)
next
  case False
  have "\<not> (z = w \<and> cmp z x = 0 \<and> cmp w y = 0)" for z w using False cmp_sym cmp_trans by blast
  then show ?thesis using assms False by (auto simp: looked_up_def split: option.splits)
qed

lemma looked_up_delete:
  assumes r: "rep hash cmp lh css S" and x: "looked_up cmp S x old" and y: "looked_up cmp S y r"
  shows "looked_up cmp (S - {z. old = Some z}) y (if cmp x y = 0 then None else r)"
proof (cases "cmp x y = 0")
  case True
  have "old = Some z" if "z \<in> S" "cmp z y = 0" for z
  proof -
    have "cmp z x = 0" using that True cmp_sym cmp_trans by blast
    then have "looked_up cmp S x (Some z)" using that by (simp add: looked_up_def)
    from looked_up_unique [OF r x this] show ?thesis .
  qed
  then show ?thesis using True by (auto simp: looked_up_def)
next
  case False
  have "\<not> (z = w \<and> cmp z x = 0 \<and> cmp w y = 0)" for z w using False cmp_sym cmp_trans by blast
  then show ?thesis using x y False by (auto simp: looked_up_def split: option.splits)
qed

lemma insert_law:
  assumes "represents hash cmp lh S" "call_hash (lh_hash lh) = hash" "call_cmp (lh_comp lh) = cmp" "item_alloc_spec alloc"
  shows "\<exists>ok old lh'. OPENSSL_lh_insert malloc alloc lh x call_hash call_cmp = Some (ok, old, lh') \<and>
    (if ok then OPENSSL_lh_retrieve lh x call_hash call_cmp = Some old \<and>
       represents hash cmp lh' (insert x (S - {z. old = Some z})) \<and> lh_hash lh' = lh_hash lh \<and> lh_comp lh' = lh_comp lh \<and>
       (\<forall>y. OPENSSL_lh_retrieve lh' y call_hash call_cmp =
          (if cmp x y = 0 then Some (Some x) else OPENSSL_lh_retrieve lh y call_hash call_cmp))
     else lh' = lh \<and> old = None \<and> alloc (heap lh) = 0)"
proof -
  from assms(1) obtain css where r: "rep hash cmp lh css S" by (auto simp: represents_def)
  obtain old where old: "looked_up cmp S x old" and res:
    "(\<exists>lh' css'. OPENSSL_lh_insert malloc alloc lh x call_hash call_cmp = Some (True, old, lh') \<and>
       rep hash cmp lh' css' (insert x (S - {y. old = Some y})) \<and> lh_hash lh' = lh_hash lh \<and> lh_comp lh' = lh_comp lh \<and>
       callback_depth lh' = callback_depth lh) \<or>
     OPENSSL_lh_insert malloc alloc lh x call_hash call_cmp = Some (False, None, lh) \<and> old = None \<and> alloc (heap lh) = 0"
    by (rule insert_rep [of lh css S call_hash call_cmp alloc x malloc, OF r assms(2-4)])
  have look: "OPENSSL_lh_retrieve lh y call_hash call_cmp = Some r'" if "looked_up cmp S y r'" for y r'
    using retrieve_rep [of lh css S call_hash call_cmp y, OF r assms(2,3)] looked_up_unique [OF r that] by blast
  from res show ?thesis
  proof (elim disjE exE conjE)
    fix lh' css'
    assume lh': "OPENSSL_lh_insert malloc alloc lh x call_hash call_cmp = Some (True, old, lh')"
      "rep hash cmp lh' css' (insert x (S - {y. old = Some y}))" "lh_hash lh' = lh_hash lh" "lh_comp lh' = lh_comp lh"
    have "OPENSSL_lh_retrieve lh' y call_hash call_cmp =
        (if cmp x y = 0 then Some (Some x) else OPENSSL_lh_retrieve lh y call_hash call_cmp)" for y
    proof -
      obtain r1 where r1: "OPENSSL_lh_retrieve lh y call_hash call_cmp = Some r1" "looked_up cmp S y r1"
        using retrieve_rep [of lh css S call_hash call_cmp y, OF r assms(2,3)] by blast
      have "call_hash (lh_hash lh') = hash" "call_cmp (lh_comp lh') = cmp" using lh'(3,4) assms(2,3) by simp_all
      from retrieve_rep [of lh' css' _ call_hash call_cmp y, OF lh'(2) this] obtain r2 where
        r2: "OPENSSL_lh_retrieve lh' y call_hash call_cmp = Some r2" "looked_up cmp (insert x (S - {y. old = Some y})) y r2" by blast
      from looked_up_unique [OF lh'(2) r2(2) looked_up_insert [OF old r1(2)]] r1(1) r2(1) show ?thesis by simp
    qed
    then show ?thesis using lh' look [OF old] unfolding represents_def by auto
  qed auto
qed

lemma delete_law:
  assumes "represents hash cmp lh S" "call_hash (lh_hash lh) = hash" "call_cmp (lh_comp lh) = cmp"
  shows "\<exists>old lh'. OPENSSL_lh_delete malloc lh x call_hash call_cmp = Some (old, lh') \<and>
    OPENSSL_lh_retrieve lh x call_hash call_cmp = Some old \<and> represents hash cmp lh' (S - {z. old = Some z}) \<and>
    lh_hash lh' = lh_hash lh \<and> lh_comp lh' = lh_comp lh \<and>
    (\<forall>y. OPENSSL_lh_retrieve lh' y call_hash call_cmp =
       (if cmp x y = 0 then Some None else OPENSSL_lh_retrieve lh y call_hash call_cmp))"
proof -
  from assms(1) obtain css where r: "rep hash cmp lh css S" by (auto simp: represents_def)
  obtain old lh' css' where old: "looked_up cmp S x old"
    and lh': "OPENSSL_lh_delete malloc lh x call_hash call_cmp = Some (old, lh')" "rep hash cmp lh' css' (S - {y. old = Some y})"
      "lh_hash lh' = lh_hash lh" "lh_comp lh' = lh_comp lh"
    using delete_rep [of lh css S call_hash call_cmp x malloc, OF r assms(2,3)] by metis
  have "OPENSSL_lh_retrieve lh' y call_hash call_cmp =
      (if cmp x y = 0 then Some None else OPENSSL_lh_retrieve lh y call_hash call_cmp)" for y
  proof -
    obtain r1 where r1: "OPENSSL_lh_retrieve lh y call_hash call_cmp = Some r1" "looked_up cmp S y r1"
      using retrieve_rep [of lh css S call_hash call_cmp y, OF r assms(2,3)] by blast
    have "call_hash (lh_hash lh') = hash" "call_cmp (lh_comp lh') = cmp" using lh'(3,4) assms(2,3) by simp_all
    from retrieve_rep [of lh' css' _ call_hash call_cmp y, OF lh'(2) this] obtain r2 where
      r2: "OPENSSL_lh_retrieve lh' y call_hash call_cmp = Some r2" "looked_up cmp (S - {y. old = Some y}) y r2" by blast
    from looked_up_unique [OF lh'(2) r2(2) looked_up_delete [OF r old r1(2)]] r1(1) r2(1) show ?thesis by simp
  qed
  moreover have "OPENSSL_lh_retrieve lh x call_hash call_cmp = Some old"
    using retrieve_rep [of lh css S call_hash call_cmp x, OF r assms(2,3)] looked_up_unique [OF r old] by blast
  ultimately show ?thesis using lh' unfolding represents_def by auto
qed

end

end
