(* ===== verification/Conf.thy ===== *)
theory Conf
  imports Lhash_Dict
begin

text \<open>
  The tables of a configuration in crypto/conf/conf.c: values and sections are kept in hash
  tables under the hashes of their names. A C string is a list of bytes with its terminator.
\<close>

section \<open>The code\<close>

record CONF_VALUE =
  section_name :: "u8 list"
  value_name :: "u8 list"
  value_string :: "u8 list option"

text \<open>\<open>strcmp\<close>, where -1 and 1 stand for any negative and any positive number.\<close>

fun strcmp :: "u8 list \<Rightarrow> u8 list \<Rightarrow> int" where
  "strcmp [] [] = 0"
| "strcmp [] (b # bs) = (if b = 0 then 0 else - 1)"
| "strcmp (a # as) [] = (if a = 0 then 0 else 1)"
| "strcmp (a # as) (b # bs) =
     (if a \<noteq> b then (if a < b then - 1 else 1) else if a = 0 then 0 else strcmp as bs)"

definition conf_value_hash :: "CONF_VALUE \<Rightarrow> u32" where
  "conf_value_hash v =
     (let section_hash = OPENSSL_strhash (section_name v); name_hash = OPENSSL_strhash (value_name v)
      in push_bit 2 section_hash XOR name_hash)"

definition conf_value_cmp :: "CONF_VALUE \<Rightarrow> CONF_VALUE \<Rightarrow> int" where
  "conf_value_cmp a b =
     (let cmp = strcmp (section_name a) (section_name b)
      in if cmp \<noteq> 0 then cmp else strcmp (value_name a) (value_name b))"

text \<open>\<open>default\<close>, and the wrappers of \<open>DEFINE_LHASH_OF\<close>, which only cast.\<close>

definition kDefaultSectionName :: "u8 list" where
  "kDefaultSectionName = [100, 101, 102, 97, 117, 108, 116, 0]"

definition lh_CONF_VALUE_call_hash_func :: "CONF_VALUE call_hash" where
  "lh_CONF_VALUE_call_hash_func func a = func a"

definition lh_CONF_VALUE_call_cmp_func :: "CONF_VALUE call_comp" where
  "lh_CONF_VALUE_call_cmp_func func a b = func a b"

definition NCONF_get_string :: "CONF_VALUE LHASH \<Rightarrow> u8 list option \<Rightarrow> u8 list \<Rightarrow> u8 list option option" where
  "NCONF_get_string vals sect nm =
     (let sect = (case sect of None \<Rightarrow> kDefaultSectionName | Some s \<Rightarrow> s);
          template = \<lparr>section_name = sect, value_name = nm, value_string = None\<rparr>
      in map_option (\<lambda>v. case v of None \<Rightarrow> None | Some v \<Rightarrow> value_string v)
           (OPENSSL_lh_retrieve vals template lh_CONF_VALUE_call_hash_func lh_CONF_VALUE_call_cmp_func))"

section \<open>The contract of the functions\<close>

lemma strcmp_eq_0: "strcmp s t = 0 \<longleftrightarrow> cstr s = cstr t"
  by (induction s t rule: strcmp.induct) (auto simp: cstr_def)

lemma OPENSSL_strhash_cong: "cstr s = cstr t \<Longrightarrow> OPENSSL_strhash s = OPENSSL_strhash t"
proof -
  assume eq: "cstr s = cstr t"
  have nth: "s ! i = cstr s ! i" if "i < length (cstr s)" for s i
    using that by (simp add: cstr_def takeWhile_nth)
  have len: "unat (strlen s) \<le> length (cstr s)"
    by (simp add: strlen_def unat_of_nat take_bit_eq_mod)
  have "strlen s = strlen t" using eq by (simp add: strlen_def)
  moreover have "s ! i = t ! i" if "i < unat (strlen s)" for i
    using nth [of i s] nth [of i t] that len eq by simp
  ultimately show ?thesis
    unfolding OPENSSL_strhash_def OPENSSL_hash32_def by (intro fold_cong) auto
qed

lemma conf_value_cmp_0:
  "conf_value_cmp a b = 0 \<longleftrightarrow> cstr (section_name a) = cstr (section_name b) \<and> cstr (value_name a) = cstr (value_name b)"
  by (auto simp: conf_value_cmp_def Let_def strcmp_eq_0)

interpretation conf_values: lh_functions conf_value_hash conf_value_cmp
proof
  show "conf_value_hash a = conf_value_hash b" if "conf_value_cmp a b = 0" for a b
    using that OPENSSL_strhash_cong [of "section_name a" "section_name b"] OPENSSL_strhash_cong [of "value_name a" "value_name b"]
    by (simp add: conf_value_cmp_0 conf_value_hash_def)
qed (simp_all add: conf_value_cmp_0)

end
