(* ===== verification/Lhash_Properties.thy ===== *)
theory Lhash_Properties
  imports Conf
begin

text \<open>
  The properties of the hash tables of lhash.c, and of the values of a configuration in conf.c,
  which are kept in one.
\<close>

section \<open>Hash tables\<close>

text \<open>
  C5. A table is a dictionary. An insertion never follows a null or dangling pointer and always
  ends; when it succeeds it reports what the table held for the key before, then retrieving any
  equal key yields the new data and every other key what it yielded before, also when the table
  was resized; it fails only when there is no memory for an item and then changes nothing.
\<close>

theorem lh_insert_then_retrieve:
  assumes "lh_functions hash cmp" "represents hash cmp lh S" "call_hash (lh_hash lh) = hash" "call_cmp (lh_comp lh) = cmp"
    and "item_alloc_spec alloc"
  shows "\<exists>ok old lh'. OPENSSL_lh_insert malloc alloc lh x call_hash call_cmp = Some (ok, old, lh') \<and>
    (if ok then OPENSSL_lh_retrieve lh x call_hash call_cmp = Some old \<and>
       represents hash cmp lh' (insert x (S - {z. old = Some z})) \<and> lh_hash lh' = lh_hash lh \<and> lh_comp lh' = lh_comp lh \<and>
       (\<forall>y. OPENSSL_lh_retrieve lh' y call_hash call_cmp =
          (if cmp x y = 0 then Some (Some x) else OPENSSL_lh_retrieve lh y call_hash call_cmp))
     else lh' = lh \<and> old = None \<and> alloc (heap lh) = 0)"
  using assms by (rule lh_functions.insert_law)

text \<open>A new table of configuration values, and an allocator for a heap that holds at most one item.\<close>

definition demo_table :: "CONF_VALUE LHASH" where
  "demo_table = \<lparr>num_items = 0, buckets = replicate 16 0, num_buckets = 16, callback_depth = 0,
     lh_comp = conf_value_cmp, lh_hash = conf_value_hash, heap = (\<lambda>_. None)\<rparr>"

definition demo_alloc :: "CONF_VALUE item_alloc" where
  "demo_alloc h = (if h 8 = None then 8 else 0)"

definition demo_malloc16 :: libc_malloc where
  "demo_malloc16 n = Some (replicate (unat n) 0)"

definition demo_value :: CONF_VALUE where
  "demo_value = \<lparr>section_name = [65, 0], value_name = [66, 0], value_string = Some [67, 0]\<rparr>"

lemma demo_table_represents: "represents conf_value_hash conf_value_cmp demo_table {}"
proof -
  have "OPENSSL_lh_new demo_malloc16 (\<lambda>_. None) conf_value_hash conf_value_cmp = Some demo_table"
    by (simp add: OPENSSL_lh_new_def OPENSSL_zalloc_def OPENSSL_calloc_def OPENSSL_malloc_def OPENSSL_MALLOC_PREFIX_def
        demo_malloc16_def demo_table_def kMinNumBuckets_def)
  from OPENSSL_lh_new_represents [OF this] show ?thesis by blast
qed

lemma demo_alloc_spec: "item_alloc_spec demo_alloc"
  by (simp add: item_alloc_spec_def demo_alloc_def)

lemma demo_table_functions:
  "lh_CONF_VALUE_call_hash_func (lh_hash demo_table) = conf_value_hash"
  "lh_CONF_VALUE_call_cmp_func (lh_comp demo_table) = conf_value_cmp"
  by (simp_all add: demo_table_def lh_CONF_VALUE_call_hash_func_def lh_CONF_VALUE_call_cmp_func_def fun_eq_iff)

text \<open>The table that holds one value.\<close>

lemma demo_inserted:
  obtains old lh where "OPENSSL_lh_insert demo_malloc16 demo_alloc demo_table demo_value
      lh_CONF_VALUE_call_hash_func lh_CONF_VALUE_call_cmp_func = Some (True, old, lh)"
    "represents conf_value_hash conf_value_cmp lh {demo_value}"
    "lh_CONF_VALUE_call_hash_func (lh_hash lh) = conf_value_hash" "lh_CONF_VALUE_call_cmp_func (lh_comp lh) = conf_value_cmp"
    "OPENSSL_lh_retrieve lh demo_value lh_CONF_VALUE_call_hash_func lh_CONF_VALUE_call_cmp_func = Some (Some demo_value)"
proof -
  let ?get = "\<lambda>lh y. OPENSSL_lh_retrieve lh y lh_CONF_VALUE_call_hash_func lh_CONF_VALUE_call_cmp_func"
  from conf_values.insert_law [where call_hash = lh_CONF_VALUE_call_hash_func and call_cmp = lh_CONF_VALUE_call_cmp_func,
        OF demo_table_represents demo_table_functions demo_alloc_spec, where malloc = demo_malloc16 and x = demo_value]
  obtain ok old lh where r: "OPENSSL_lh_insert demo_malloc16 demo_alloc demo_table demo_value
        lh_CONF_VALUE_call_hash_func lh_CONF_VALUE_call_cmp_func = Some (ok, old, lh)"
      "if ok then ?get demo_table demo_value = Some old \<and> represents conf_value_hash conf_value_cmp lh (insert demo_value ({} - {z. old = Some z})) \<and>
         lh_hash lh = lh_hash demo_table \<and> lh_comp lh = lh_comp demo_table \<and>
         (\<forall>y. ?get lh y = (if conf_value_cmp demo_value y = 0 then Some (Some demo_value) else ?get demo_table y))
       else lh = demo_table \<and> old = None \<and> demo_alloc (heap demo_table) = 0" by blast
  have "ok" using r(2) by (cases ok) (simp_all add: demo_alloc_def demo_table_def)
  note i = r(1) [unfolded this] r(2) [unfolded if_P [OF this]]
  have "?get lh demo_value = Some (Some demo_value)"
    using i(2) conf_values.cmp_same [of demo_value] by simp
  moreover have "represents conf_value_hash conf_value_cmp lh {demo_value}" using i(2) by simp
  moreover have "lh_CONF_VALUE_call_hash_func (lh_hash lh) = conf_value_hash" "lh_CONF_VALUE_call_cmp_func (lh_comp lh) = conf_value_cmp"
    using i(2) demo_table_functions by simp_all
  moreover have "OPENSSL_lh_insert demo_malloc16 demo_alloc demo_table demo_value
      lh_CONF_VALUE_call_hash_func lh_CONF_VALUE_call_cmp_func = Some (True, old, lh)" using i(1) \<open>ok\<close> by simp
  ultimately show thesis using that by blast
qed

theorem lh_insert_then_retrieve_witness:
  "\<exists>old lh'. OPENSSL_lh_insert demo_malloc16 demo_alloc demo_table demo_value lh_CONF_VALUE_call_hash_func lh_CONF_VALUE_call_cmp_func = Some (True, old, lh') \<and>
     OPENSSL_lh_retrieve lh' demo_value lh_CONF_VALUE_call_hash_func lh_CONF_VALUE_call_cmp_func = Some (Some demo_value)"
proof -
  have "demo_alloc (heap demo_table) \<noteq> 0" by (simp add: demo_alloc_def demo_table_def)
  moreover have "conf_value_cmp demo_value demo_value = 0" by (rule conf_values.cmp_same)
  moreover have "\<exists>ok old lh'. OPENSSL_lh_insert demo_malloc16 demo_alloc demo_table demo_value lh_CONF_VALUE_call_hash_func lh_CONF_VALUE_call_cmp_func = Some (ok, old, lh') \<and>
    (if ok then \<forall>y. OPENSSL_lh_retrieve lh' y lh_CONF_VALUE_call_hash_func lh_CONF_VALUE_call_cmp_func =
       (if conf_value_cmp demo_value y = 0 then Some (Some demo_value) else OPENSSL_lh_retrieve demo_table y lh_CONF_VALUE_call_hash_func lh_CONF_VALUE_call_cmp_func)
     else demo_alloc (heap demo_table) = 0)"
    using lh_insert_then_retrieve [where call_hash = lh_CONF_VALUE_call_hash_func and call_cmp = lh_CONF_VALUE_call_cmp_func,
        OF conf_values.lh_functions_axioms demo_table_represents
        demo_table_functions demo_alloc_spec, where malloc = demo_malloc16 and x = demo_value] by metis
  ultimately show ?thesis by metis
qed

text \<open>
  C10. A deletion always ends and returns what retrieving the key yields; after it the equal keys
  are gone and every other key yields what it yielded before.
\<close>

theorem lh_delete_then_retrieve:
  assumes "lh_functions hash cmp" "represents hash cmp lh S" "call_hash (lh_hash lh) = hash" "call_cmp (lh_comp lh) = cmp"
  shows "\<exists>old lh'. OPENSSL_lh_delete malloc lh x call_hash call_cmp = Some (old, lh') \<and>
    OPENSSL_lh_retrieve lh x call_hash call_cmp = Some old \<and> represents hash cmp lh' (S - {z. old = Some z}) \<and>
    lh_hash lh' = lh_hash lh \<and> lh_comp lh' = lh_comp lh \<and>
    (\<forall>y. OPENSSL_lh_retrieve lh' y call_hash call_cmp =
       (if cmp x y = 0 then Some None else OPENSSL_lh_retrieve lh y call_hash call_cmp))"
  using assms by (rule lh_functions.delete_law)

theorem lh_delete_then_retrieve_witness:
  "\<exists>old lh old' lh'. OPENSSL_lh_insert demo_malloc16 demo_alloc demo_table demo_value
       lh_CONF_VALUE_call_hash_func lh_CONF_VALUE_call_cmp_func = Some (True, old, lh) \<and>
     OPENSSL_lh_delete demo_malloc16 lh demo_value lh_CONF_VALUE_call_hash_func lh_CONF_VALUE_call_cmp_func = Some (old', lh') \<and>
     old' = Some demo_value \<and> represents conf_value_hash conf_value_cmp lh' {} \<and>
     OPENSSL_lh_retrieve lh' demo_value lh_CONF_VALUE_call_hash_func lh_CONF_VALUE_call_cmp_func = Some None"
proof -
  obtain old lh where i: "OPENSSL_lh_insert demo_malloc16 demo_alloc demo_table demo_value
      lh_CONF_VALUE_call_hash_func lh_CONF_VALUE_call_cmp_func = Some (True, old, lh)"
    "represents conf_value_hash conf_value_cmp lh {demo_value}"
    "lh_CONF_VALUE_call_hash_func (lh_hash lh) = conf_value_hash" "lh_CONF_VALUE_call_cmp_func (lh_comp lh) = conf_value_cmp"
    "OPENSSL_lh_retrieve lh demo_value lh_CONF_VALUE_call_hash_func lh_CONF_VALUE_call_cmp_func = Some (Some demo_value)"
    by (rule demo_inserted)
  from lh_delete_then_retrieve [where call_hash = lh_CONF_VALUE_call_hash_func and call_cmp = lh_CONF_VALUE_call_cmp_func,
        OF conf_values.lh_functions_axioms i(2-4), where malloc = demo_malloc16 and x = demo_value]
  obtain old' lh' where d: "OPENSSL_lh_delete demo_malloc16 lh demo_value lh_CONF_VALUE_call_hash_func lh_CONF_VALUE_call_cmp_func = Some (old', lh')"
    "Some (Some demo_value) = Some old'" "represents conf_value_hash conf_value_cmp lh' ({demo_value} - {z. old' = Some z})"
    "OPENSSL_lh_retrieve lh' demo_value lh_CONF_VALUE_call_hash_func lh_CONF_VALUE_call_cmp_func = Some None"
    unfolding i(5) using conf_values.cmp_same by metis
  then have "represents conf_value_hash conf_value_cmp lh' {}" by simp
  with i(1) d show ?thesis by blast
qed

text \<open>
  C39. Iterating over a table with a callback that does not change it calls the callback once for
  every item, in some order, and leaves a table with the same contents.
\<close>

theorem lh_doall_visits_all:
  assumes "represents hash cmp lh S" "\<forall>x lh s. func x (lh, s) = Some (lh, f x s)"
  shows "\<exists>lh' xs. OPENSSL_lh_doall_arg malloc (Some lh) func s = Some (Some lh', fold f xs s) \<and> set xs = S \<and>
    length xs = unat (OPENSSL_lh_num_items lh) \<and> represents hash cmp lh' S"
proof -
  from assms(1) obtain css where r: "rep hash cmp lh css S" by (auto simp: represents_def)
  have f: "func x (lh, s) = Some (lh, f x s)" for x lh s using assms(2) by blast
  obtain lh' css' xs where "OPENSSL_lh_doall_arg malloc (Some lh) func s = Some (Some lh', fold f xs s)"
    "rep hash cmp lh' css' S" "set xs = S" "length xs = unat (num_items lh)"
    by (rule doall_rep [of hash cmp lh css S func f malloc s, OF r f])
  then show ?thesis unfolding represents_def OPENSSL_lh_num_items_def by blast
qed

theorem lh_doall_visits_all_witness:
  "\<exists>old lh lh' n. OPENSSL_lh_insert demo_malloc16 demo_alloc demo_table demo_value
       lh_CONF_VALUE_call_hash_func lh_CONF_VALUE_call_cmp_func = Some (True, old, lh) \<and>
     OPENSSL_lh_doall_arg demo_malloc16 (Some lh) (\<lambda>x (lh, n). Some (lh, n + length (section_name x))) (0 :: nat) = Some (Some lh', n) \<and>
     2 \<le> n \<and> represents conf_value_hash conf_value_cmp lh' {demo_value}"
proof -
  obtain old lh where i: "OPENSSL_lh_insert demo_malloc16 demo_alloc demo_table demo_value
      lh_CONF_VALUE_call_hash_func lh_CONF_VALUE_call_cmp_func = Some (True, old, lh)"
    "represents conf_value_hash conf_value_cmp lh {demo_value}"
    by (rule demo_inserted)
  let ?f = "\<lambda>x (lh :: CONF_VALUE LHASH, n). Some (lh, n + length (section_name x))"
  let ?g = "\<lambda>x n. n + length (section_name x)"
  obtain lh' xs where d: "OPENSSL_lh_doall_arg demo_malloc16 (Some lh) ?f (0 :: nat) = Some (Some lh', fold ?g xs 0)"
    "set xs = {demo_value}" "represents conf_value_hash conf_value_cmp lh' {demo_value}"
    using lh_doall_visits_all [OF i(2), of ?f ?g demo_malloc16 0] by auto
  have "fold ?g xs n = n + 2 * length xs" if "set xs \<subseteq> {demo_value}" for xs n
    using that by (induction xs arbitrary: n) (auto simp: demo_value_def)
  then have "fold ?g xs 0 = 2 * length xs" using d(2) by simp
  moreover have "0 < length xs" using d(2) by (cases xs) simp_all
  ultimately have "2 \<le> fold ?g xs 0" by linarith
  with i(1) d(1,3) show ?thesis by blast
qed

section \<open>Configurations\<close>

text \<open>
  C40. A value that has been inserted into the table of a configuration is what
  \<open>NCONF_get_string\<close> returns for its section and name, up to the terminators of the strings;
  the lookup of any other section or name is unaffected.
\<close>

theorem NCONF_get_string_after_insert:
  assumes "represents conf_value_hash conf_value_cmp vals S" "lh_hash vals = conf_value_hash" "lh_comp vals = conf_value_cmp"
    and "item_alloc_spec alloc"
    and "OPENSSL_lh_insert malloc alloc vals v lh_CONF_VALUE_call_hash_func lh_CONF_VALUE_call_cmp_func = Some (True, old, vals')"
  shows "NCONF_get_string vals' (Some sect) nm =
    (if cstr sect = cstr (section_name v) \<and> cstr nm = cstr (value_name v) then Some (value_string v)
     else NCONF_get_string vals (Some sect) nm)"
proof -
  have "lh_CONF_VALUE_call_hash_func (lh_hash vals) = conf_value_hash" "lh_CONF_VALUE_call_cmp_func (lh_comp vals) = conf_value_cmp"
    using assms(2,3) by (simp_all add: lh_CONF_VALUE_call_hash_func_def lh_CONF_VALUE_call_cmp_func_def fun_eq_iff)
  from conf_values.insert_law [where call_hash = lh_CONF_VALUE_call_hash_func and call_cmp = lh_CONF_VALUE_call_cmp_func,
        OF assms(1) this assms(4), where malloc = malloc and x = v] assms(5)
  have "OPENSSL_lh_retrieve vals' y lh_CONF_VALUE_call_hash_func lh_CONF_VALUE_call_cmp_func =
      (if conf_value_cmp v y = 0 then Some (Some v)
       else OPENSSL_lh_retrieve vals y lh_CONF_VALUE_call_hash_func lh_CONF_VALUE_call_cmp_func)" for y
    by (auto split: if_splits)
  then show ?thesis by (auto simp: NCONF_get_string_def Let_def conf_value_cmp_0)
qed

theorem NCONF_get_string_after_insert_witness:
  "\<exists>old vals'. OPENSSL_lh_insert demo_malloc16 demo_alloc demo_table demo_value
       lh_CONF_VALUE_call_hash_func lh_CONF_VALUE_call_cmp_func = Some (True, old, vals') \<and>
     NCONF_get_string vals' (Some [65, 0]) [66, 0, 1] = Some (Some [67, 0])"
proof -
  have "demo_alloc (heap demo_table) \<noteq> 0" by (simp add: demo_alloc_def demo_table_def)
  with conf_values.insert_law [where call_hash = lh_CONF_VALUE_call_hash_func and call_cmp = lh_CONF_VALUE_call_cmp_func,
        OF demo_table_represents demo_table_functions demo_alloc_spec, where malloc = demo_malloc16 and x = demo_value]
  obtain old vals' where r: "OPENSSL_lh_insert demo_malloc16 demo_alloc demo_table demo_value
      lh_CONF_VALUE_call_hash_func lh_CONF_VALUE_call_cmp_func = Some (True, old, vals')" by metis
  have f: "lh_hash demo_table = conf_value_hash" "lh_comp demo_table = conf_value_cmp" by (simp_all add: demo_table_def)
  have "cstr [65, 0] = cstr (section_name demo_value)" "cstr [66, 0, 1] = cstr (value_name demo_value)"
    "value_string demo_value = Some [67, 0]"
    by (simp_all add: demo_value_def cstr_def)
  with NCONF_get_string_after_insert [OF demo_table_represents f demo_alloc_spec r, of "[65, 0]" "[66, 0, 1]"] r
  show ?thesis by auto
qed

end
