(* ===== verification/Spec2Isabelle.thy ===== *)
theory Spec2Isabelle
  imports Bytestring_Properties Time_Properties Encoding_Properties Pb_Properties Pb_Stream_Properties Pb_Decode_Properties
    Stack_Properties Lhash_Properties
begin

text \<open>
  \<^bold>\<open>What this development is about.\<close> The repository is an iOS app written in Swift, which
  talks to its servers through the Firebase SDKs. What it says on the wire is made and read by C
  libraries that are built with it from \<open>src/Prestige/Pods\<close>: BoringSSL
  (\<open>BoringSSL-GRPC/src/crypto\<close>), whose byte-string library is under every certificate and TLS message,
  and whose containers hold its lists and tables, and nanopb (\<open>nanopb/\<close>), which encodes and decodes
  the protocol buffers of Firestore. They take bytes from the network and pointers from the heap, so
  that their correctness is that of bounds, lengths and round trips. This development models them
  function by function.

  \<^bold>\<open>Parts and how they interact.\<close>
  \<^item> \<open>crypto/mem.c\<close>, \<open>crypto/internal.h\<close>: allocation, C strings, comparison in constant time. Everything
    below uses them.
  \<^item> \<open>crypto/bytestring\<close>: \<open>CBS\<close> reads from a view of bytes (cbs.c), \<open>CBB\<close> writes into a growing or a
    fixed buffer (cbb.c); ber.c reads BER with a \<open>CBS\<close> and writes DER with a \<open>CBB\<close>; unicode.c reads and
    writes code points with both.
  \<^item> \<open>crypto/asn1/posix_time.c\<close>: civil and POSIX time; cbs.c reads the time strings of certificates.
  \<^item> \<open>crypto/base64/base64.c\<close>: base64 in one piece and as a stream, without branches on the data.
  \<^item> \<open>crypto/stack\<close>, \<open>crypto/lhash\<close>: the containers of the library, growing arrays of pointers that can
    be sorted and searched (stack.c) and hash tables with chains (lhash.c). conf.c keeps the values of a
    configuration in a hash table; cbb.c sorts the elements of a SET OF.
  \<^item> nanopb: pb_common.c steps through the field array of a message, pb_encode.c turns the structure in
    memory that it describes into bytes, pb_decode.c turns bytes into such a structure, allocating and
    releasing what is reached through pointers.

  \<^bold>\<open>The model.\<close> Every C function is a definition of the same name; its out-parameters are in its result,
  a bool result with out-parameters is an option, and a function that changes an object returns it, on
  failure as well. Integers have their width (\<open>size_t\<close> is \<open>64 word\<close>) and wrap around; where the code
  has signed arithmetic, in the times, it is on \<open>int\<close> and the bounds are proved. The machine is a
  little-endian one with 64-bit pointers, the configuration that of the build
  (\<open>PB_FIELD_32BIT\<close>, \<open>PB_NO_PACKED_STRUCTS\<close>, \<open>PB_ENABLE_MALLOC\<close>). A loop is a recursive function of its
  own, with the loop's variables as arguments, named after its function.

  \<^item> Prelude: the integer types, big-endian numbers in byte lists.
  \<^item> Mem: mem.c. \<open>malloc\<close> is a parameter, a function from the size to the block or \<open>None\<close>; \<open>malloc_spec\<close>
    is what the C standard promises, a block of that size. \<open>OPENSSL_malloc\<close> puts the size in front of the
    block.
  \<^item> Cbs, Decimal, Cbs_Asn1, Cbs_Time: cbs.c. A \<open>CBS\<close> is the list of the bytes from its pointer to the end
    of the object, and its length; \<open>cbs_wf\<close> is that the length stays in the object. Reading leaves a
    suffix.
  \<^item> Cbb: cbb.c. A builder's buffer is a record with its block, length, capacity and flags; an allocation
    that fails sets the error. The children of a builder form a chain, each open child starting
    at an offset behind its parent's; the model keeps them as a list, and a builder is named by its depth
    \<open>d\<close> in it: 0 is the top-level builder, \<open>Suc d\<close> the child of the one at \<open>d\<close>. Adding to the builder at
    \<open>d\<close> flushes those above it, as in the code, and takes them off the list.
  \<^item> Unicode, Ber: unicode.c, ber.c, with the depth limit of the code (128).
  \<^item> Posix_Time, Constant_Time, Base64: posix_time.c, the masks of internal.h, base64.c.
  \<^item> Cbb_Set: \<open>CBB_flush_asn1_set_of\<close> of cbb.c. \<open>qsort\<close> is a parameter, a function on the list of the
    elements; \<open>qsort_spec\<close> is what the C standard promises of it with a consistent comparison.
  \<^item> Stack: stack.c. A stack is a record with the list of the pointers of its whole allocation;
    a failed \<open>assert\<close> is \<open>None\<close>. The functions that callers pass may change a state of theirs.
  \<^item> Lhash, Conf: lhash.c and the lookup of values in conf.c. The items of a table are nodes of linked
    lists in an explicit heap, a partial map from addresses; a bucket or the \<open>next\<close> field of an item is
    what a pointer to a pointer points to. A stray pointer and a chain without end are \<open>None\<close>. The
    allocator of items gives a fresh address or 0 (\<open>item_alloc_spec\<close>).
  \<^item> Pb: pb.h and pb_common.c. Memory is a function from 64-bit addresses to bytes; a field array is the
    list of its entries before the terminator, an iterator has the index in it and the addresses it has
    computed.
  \<^item> Pb_Encode: pb_encode.c. A stream is its callback (\<open>None\<close> for a sizing stream) with its state and
    counters. Field arrays and user functions are found at addresses through the environment.
  \<^item> Pb_Istream, Pb_Decode: pb_decode.c. A stream reads from the buffer callback or from a user's, whose
    contract is that it fills the buffer or fails. The functions that store take and return the world:
    memory and the state of the allocator; \<open>realloc\<close> and \<open>free\<close> are parameters on it. The local variable
    \<open>fixed_count_size\<close>, to which an iterator may point, has an address in the environment. The bytes of
    the input are not part of the memory that is written.

  \<^bold>\<open>Depth, and what \<open>None\<close> is.\<close> In nanopb a message reaches itself through the field arrays at run time.
  The functions on messages therefore take a number that bounds how far submessages and extensions nest,
  and return \<open>None\<close> when it is used up; the theorems hold for every number that is large enough, and say
  so in their statements. \<open>None\<close> also stands for a call through a null pointer, a division by zero and a
  loop that does not end: those loops that the code does not bound (a chain of extensions, a field array,
  a user function that reads nothing) are partial functions over \<open>option\<close>, so a theorem that gives
  \<open>Some\<close> says that the code returns. All other loops are total functions with a measure.

  \<^bold>\<open>What is proved.\<close> Interfaces are locales; each is interpreted on the definitions of the model, and the
  properties rest on the interpretations.
  \<^item> \<open>cbs_reader\<close> (Cbs): a function on a \<open>CBS\<close> computes a parser on its bytes and stays in its object.
    Decimal, Der, Der_Element, Der_Values, Cbs_Time and Unicode give the parsers of the readers and their
    closed forms: what is accepted is exactly the encodings.
  \<^item> Cbb_Buffer, Cbb_Spec, \<open>cbb_writer\<close> (Cbb_Writer): the invariant of a builder; a builder as a stack of
    frames, with flushing as closing them; a function on a builder appends given bytes or fails, and only
    does the latter without room. Cbb_Asn1, Cbb_Integer and Oid give the bytes of each writer.
    \<open>cbs_codec\<close> (Bytestring_Properties) joins writer and reader into round trips. Cbb_Steps: the builder as a
    state machine, whose steps are its calls; every reachable state satisfies the invariant.
  \<^item> Ber_Der: a conversion of BER on byte lists, that the code computes it, and that its results are DER.
    \<open>ber_element\<close> is an input that is one BER element; behind such an element the code would go on converting.
  \<^item> \<open>comparison\<close> (Compare), \<open>ptr_comparison\<close> (Stack_Sort): what a sort or search asks of a comparison
    function; the elements of a SET OF satisfy it. Stack_Sort: the heap sort sorts. Stack_Search: binary
    and linear search find the same. Stack_Lists: a stack is the list of its elements, and its flag
    \<open>sorted\<close> is true to them.
  \<^item> Lhash_Chains, Lhash_Table: the chains as lists of addresses, disjoint and in the bucket of their hash,
    kept by every operation and by resizing. \<open>lh_functions\<close> (Lhash_Dict): with an equivalence that the
    hash respects, a table is a dictionary; Conf gives the functions of configuration values.
  \<^item> Posix_Time: the era arithmetic counts days, and is a bijection in its range. The property of the time
    strings is for those without an offset, which DER and certificates use; with one see below.
  \<^item> Base64_Stream: the streams do not depend on the chunks and are inverse to each other.
  \<^item> Pb_Emit, Pb_Scalars, Pb_Wire, Pb_Message: the wire format as a function of the message; encoding
    emits it on a buffer with room, fails without, and the sizing pass agrees.
  \<^item> \<open>istream_reader\<close> (Pb_Reader), Pb_Varint, Pb_Skip: what each reader takes from its input, never going
    past \<open>bytes_left\<close>. \<open>pb_codec\<close> (Pb_Codec): what the encoder emits the decoder reads or skips.
  \<^item> Pb_Store, \<open>field_codec\<close> (Pb_Field_Codec), Pb_Flat, Pb_Flat_Decode, Pb_Flat_Safety: messages of scalars
    as in proto3: decoding restores what was encoded, lets the last occurrence of a field win
    (\<open>last_value\<close>), skips what it does not know, and on any input whatever returns and writes only inside
    the message.

  The properties with their numbers are in the theories whose names end in \<open>_Properties\<close> and in
  Cbb_Set. Three lemmas state flaws: an offset of a UTCTime is added where it has to be subtracted
  (\<open>utc_time_offset_added\<close>), the 32-bit reader of nanopb takes overlong numbers
  (\<open>varint32_overflows_unnoticed\<close>), and a store into a sorted stack leaves it marked as sorted, so that a
  search can miss what was stored (\<open>OPENSSL_sk_set_keeps_flag\<close>).

  \<^bold>\<open>Bounds.\<close> Where a length has to fit in a \<open>size_t\<close> the theorems ask for less than \<open>2 ^ 63\<close> or
  \<open>2 ^ 64\<close> bytes; a field of nanopb for a tag below \<open>2 ^ 29\<close>, the limit of protocol buffers.

  \<^bold>\<open>Not modelled.\<close> Of the files above: \<open>OPENSSL_free\<close>, \<open>OPENSSL_cleanse\<close>, \<open>CBB_cleanup\<close>,
  \<open>OPENSSL_sk_free\<close> and the functions that allocate and free a base64 context, which change nothing that a
  result depends on; printing with the C library; the parser and the sections of conf.c, which own pointers
  that a table and a stack share; locks and thread-local
  data of internal.h, which are the platform's. For messages with pointers, unions, arrays and callbacks
  the decoder is modelled in full, but its properties are proved for flat messages. Of the rest of the
  repository: the big-number, cipher, certificate and TLS code of BoringSSL, and gRPC, Abseil, upb, re2,
  LevelDB and the Firebase SDKs, which are C++, Objective-C and Swift, and the app itself, which is user
  interface and calls of these SDKs.
\<close>

end
